(* ===== verification/Prelude.thy ===== *)
theory Prelude
  imports Main "HOL-Library.Word" "HOL-Library.Monad_Syntax" "HOL-Library.Sublist"
begin

unbundle bit_operations_syntax

text \<open>
  What the components share: the names of the machine integers, reads and writes of
  bounded memory blocks, little-endian words in memory, circular reads and writes of a
  buffer, and the interfaces (locales) of the components.

  A value of type \<open>'a option\<close> that stands for an execution is \<open>None\<close> where the C++ code has
  undefined behaviour, fails an \<open>assert\<close> or throws an exception that it does not catch.
\<close>

type_synonym u8 = "8 word"
type_synonym u16 = "16 word"
type_synonym u32 = "32 word"
type_synonym u64 = "64 word"

named_theorems mem_simps \<open>reads and writes of memory blocks that stay in bounds\<close>
named_theorems ring_simps \<open>circular reads and writes\<close>

section \<open>Guards and memory blocks\<close>

definition guard :: "bool \<Rightarrow> unit option" where
  "guard b = (if b then Some () else None)"

lemma guard_simps [simp]: "guard True = Some ()" "guard False = None"
  by (simp_all add: guard_def)

lemma guard_eq_Some [simp]: "guard b = Some u \<longleftrightarrow> b"
  by (simp add: guard_def)

text \<open>\<open>memcpy\<close> from and to a block: \<open>None\<close> when it would leave the block.\<close>

definition mem_read :: "'a list \<Rightarrow> nat \<Rightarrow> nat \<Rightarrow> 'a list option" where
  "mem_read m off n = (if off + n \<le> length m then Some (take n (drop off m)) else None)"

definition mem_write :: "'a list \<Rightarrow> nat \<Rightarrow> 'a list \<Rightarrow> 'a list option" where
  "mem_write m off xs =
     (if off + length xs \<le> length m then Some (take off m @ xs @ drop (off + length xs) m) else None)"

lemma mem_read_in [mem_simps]: "off + n \<le> length m \<Longrightarrow> mem_read m off n = Some (take n (drop off m))"
  by (simp add: mem_read_def)

lemma mem_write_in [mem_simps]:
  "off + length xs \<le> length m \<Longrightarrow> mem_write m off xs = Some (take off m @ xs @ drop (off + length xs) m)"
  by (simp add: mem_write_def)

lemma mem_read_eq_Some: "mem_read m off n = Some xs \<longleftrightarrow> off + n \<le> length m \<and> xs = take n (drop off m)"
  by (auto simp: mem_read_def)

lemma mem_write_eq_Some:
  "mem_write m off xs = Some m' \<longleftrightarrow>
     off + length xs \<le> length m \<and> m' = take off m @ xs @ drop (off + length xs) m"
  by (auto simp: mem_write_def)

lemma length_mem_read: "mem_read m off n = Some xs \<Longrightarrow> length xs = n"
  by (auto simp: mem_read_eq_Some)

lemma length_mem_write: "mem_write m off xs = Some m' \<Longrightarrow> length m' = length m"
  by (auto simp: mem_write_eq_Some)

lemma mem_write_nth:
  assumes "mem_write m off xs = Some m'" and "i < length m"
  shows "m' ! i = (if off \<le> i \<and> i < off + length xs then xs ! (i - off) else m ! i)"
  using assms by (auto simp: mem_write_eq_Some nth_append min_def)

section \<open>Small words\<close>

lemma unat_add_small: "unat a + unat b < 4294967296 \<Longrightarrow> unat (a + b) = unat a + unat b" for a b :: u32
  using unat_add_lem [of a b] by simp

lemma unat_of_nat_small: "n < 4294967296 \<Longrightarrow> unat (of_nat n :: u32) = n"
  by (simp add: unat_of_nat take_bit_eq_mod)

lemma unat_diff_word: "b \<le> a \<Longrightarrow> unat (a - b) = unat a - unat b" for a b :: u32
  by (rule unat_sub)

section \<open>Words in memory\<close>

text \<open>The four bytes of a \<open>uint32_t\<close> on the little-endian machines the code runs on.\<close>

definition le32 :: "u32 \<Rightarrow> u8 list" where
  "le32 w = [ucast w, ucast (drop_bit 8 w), ucast (drop_bit 16 w), ucast (drop_bit 24 w)]"

fun of_le32 :: "u8 list \<Rightarrow> u32" where
  "of_le32 (a # b # c # d # _) =
     ucast a OR push_bit 8 (ucast b) OR push_bit 16 (ucast c) OR push_bit 24 (ucast d)"
| "of_le32 _ = 0"

lemma length_le32 [simp]: "length (le32 w) = 4"
  by (simp add: le32_def)

lemma of_le32_le32 [simp]: "of_le32 (le32 w) = w"
  unfolding le32_def of_le32.simps
proof (rule bit_word_eqI)
  fix n :: nat
  assume "n < LENGTH(32)"
  then consider "n < 8" | "8 \<le> n" "n < 16" | "16 \<le> n" "n < 24" | "24 \<le> n" "n < 32"
    by force
  then show "bit (ucast (ucast w :: u8) OR push_bit 8 (ucast (ucast (drop_bit 8 w) :: u8))
      OR push_bit 16 (ucast (ucast (drop_bit 16 w) :: u8))
      OR push_bit 24 (ucast (ucast (drop_bit 24 w) :: u8)) :: u32) n = bit w n"
    by cases (auto simp: bit_simps)
qed

section \<open>Circular buffers\<close>

text \<open>
  \<open>ring_get buf h n\<close> reads \<open>n\<close> cells from index \<open>h\<close> on, wrapping at the end of the buffer;
  \<open>ring_put buf t xs\<close> writes \<open>xs\<close> from index \<open>t\<close> on, wrapping in the same way.
\<close>

definition ring_get :: "'a list \<Rightarrow> nat \<Rightarrow> nat \<Rightarrow> 'a list" where
  "ring_get buf h n = map (\<lambda>i. buf ! ((h + i) mod length buf)) [0..<n]"

definition ring_put :: "'a list \<Rightarrow> nat \<Rightarrow> 'a list \<Rightarrow> 'a list" where
  "ring_put buf t xs =
     map (\<lambda>i. let d = (i + length buf - t) mod length buf in if d < length xs then xs ! d else buf ! i)
       [0..<length buf]"

lemma length_ring_get [simp]: "length (ring_get buf h n) = n"
  by (simp add: ring_get_def)

lemma length_ring_put [simp]: "length (ring_put buf t xs) = length buf"
  by (simp add: ring_put_def)

lemma ring_get_0 [simp]: "ring_get buf h 0 = []"
  by (simp add: ring_get_def)

lemma ring_mod: "x < 2 * L \<Longrightarrow> x mod L = (if x < L then x else x - L)" for x L :: nat
  by (simp add: mod_if)

lemma ring_dist:
  fixes i L t :: nat
  assumes "i < L" "t < L"
  shows "(i + L - t) mod L = (if t \<le> i then i - t else i + L - t)"
  using assms by (subst ring_mod) auto

lemma ring_get_add:
  "ring_get buf h (m + n) = ring_get buf h m @ ring_get buf ((h + m) mod length buf) n"
  by (rule nth_equalityI) (auto simp: ring_get_def nth_append mod_add_left_eq add.assoc)

lemma ring_get_nth:
  assumes "h < length buf" "i < n" "n \<le> length buf"
  shows "ring_get buf h n ! i = buf ! (if h + i < length buf then h + i else h + i - length buf)"
  using assms by (simp add: ring_get_def ring_mod)

lemma ring_put_nth:
  assumes "i < length buf" "t < length buf"
  shows "ring_put buf t xs ! i =
    (if (if t \<le> i then i - t else i + length buf - t) < length xs
     then xs ! (if t \<le> i then i - t else i + length buf - t) else buf ! i)"
  using assms by (simp add: ring_put_def ring_dist Let_def)

lemma ring_put_nth_in:
  assumes "t < length buf" "j < length xs" "length xs \<le> length buf"
  shows "ring_put buf t xs ! (if t + j < length buf then t + j else t + j - length buf) = xs ! j"
proof (cases "t + j < length buf")
  case True
  then show ?thesis using assms by (simp add: ring_put_nth)
next
  case False
  then have "\<not> t \<le> t + j - length buf" "t + j - length buf + length buf - t = j"
    using assms by linarith+
  with False show ?thesis using assms by (simp add: ring_put_nth)
qed

lemma ring_get_put_same:
  assumes "t < length buf" "length xs \<le> length buf"
  shows "ring_get (ring_put buf t xs) t (length xs) = xs"
proof (rule nth_equalityI)
  fix i assume "i < length (ring_get (ring_put buf t xs) t (length xs))"
  then have "i < length xs" by simp
  with ring_put_nth_in [OF assms(1) this assms(2)] assms
  show "ring_get (ring_put buf t xs) t (length xs) ! i = xs ! i"
    by (simp only: ring_get_nth length_ring_put)
qed simp

lemma ring_get_put_before:
  assumes "h < length buf" "u + length xs \<le> length buf"
  shows "ring_get (ring_put buf ((h + u) mod length buf) xs) h u = ring_get buf h u"
proof (rule nth_equalityI)
  fix i assume "i < length (ring_get (ring_put buf ((h + u) mod length buf) xs) h u)"
  then have i: "i < u" by simp
  define L where "L = length buf"
  define t where "t = (if h + u < L then h + u else h + u - L)"
  define k where "k = (if h + i < L then h + i else h + i - L)"
  have t: "(h + u) mod length buf = t"
    using assms i by (simp add: ring_mod t_def L_def)
  have k: "k < L" and tL: "t < L"
    using assms i by (auto simp: k_def t_def L_def)
  have "\<not> (if t \<le> k then k - t else k + L - t) < length xs"
    using assms i by (auto simp: k_def t_def L_def)
  then have "ring_put buf t xs ! k = buf ! k"
    using k tL by (simp add: ring_put_nth L_def split: if_splits)
  then show "ring_get (ring_put buf ((h + u) mod length buf) xs) h u ! i = ring_get buf h u ! i"
    using assms i by (simp add: t ring_get_nth k_def L_def split: if_splits)
qed simp

lemma ring_get_put_append [ring_simps]:
  assumes "h < length buf" "u + length xs \<le> length buf"
  shows "ring_get (ring_put buf ((h + u) mod length buf) xs) h (u + length xs) = ring_get buf h u @ xs"
proof -
  have "(h + u) mod length buf < length buf" using assms by (intro mod_less_divisor) auto
  then show ?thesis
    using assms by (simp add: ring_get_add ring_get_put_before ring_get_put_same)
qed

lemma ring_get_flat [ring_simps]:
  "h + n \<le> length buf \<Longrightarrow> ring_get buf h n = take n (drop h buf)"
  by (rule nth_equalityI) (auto simp: ring_get_def)

lemma ring_get_wrap [ring_simps]:
  assumes "h < length buf" "length buf \<le> h + n" "n \<le> length buf"
  shows "ring_get buf h n = drop h buf @ take (h + n - length buf) buf"
  by (rule nth_equalityI) (use assms in \<open>auto simp: ring_get_nth nth_append add.commute\<close>)

lemma ring_put_flat [ring_simps]:
  assumes "t < length buf" "t + length xs \<le> length buf"
  shows "ring_put buf t xs = take t buf @ xs @ drop (t + length xs) buf"
  by (rule nth_equalityI) (use assms in \<open>auto simp: ring_put_nth nth_append min_def\<close>)

lemma ring_put_wrap [ring_simps]:
  assumes "t < length buf" "length buf \<le> t + length xs" "length xs \<le> length buf"
  shows "ring_put buf t xs =
    drop (length buf - t) xs @ take (length buf - length xs) (drop (t + length xs - length buf) buf)
      @ take (length buf - t) xs" (is "_ = ?A @ ?B @ ?C")
proof (rule nth_equalityI)
  show len: "length (ring_put buf t xs) = length (?A @ ?B @ ?C)" using assms by simp
  fix i assume "i < length (ring_put buf t xs)"
  then have i: "i < length buf" by simp
  define s where "s = t + length xs - length buf"
  have lA: "length ?A = s" and lB: "length ?B = length buf - length xs"
    using assms by (auto simp: s_def)
  consider "i < s" | "s \<le> i" "i < t" | "t \<le> i" by linarith
  then show "ring_put buf t xs ! i = (?A @ ?B @ ?C) ! i"
  proof cases
    case 1
    then have "length buf - t + i = i + length buf - t" "\<not> t \<le> i" "i + length buf - t < length xs"
      using assms s_def by linarith+
    with 1 i assms lA show ?thesis by (simp add: ring_put_nth nth_append)
  next
    case 2
    then have "i - s < length buf - length xs" "s + (i - s) = i" "\<not> i < s" "\<not> t \<le> i"
      "\<not> i + length buf - t < length xs"
      using assms s_def by linarith+
    moreover have "(?A @ ?B @ ?C) ! i = ?B ! (i - s)"
      using calculation lA lB by (simp only: nth_append if_True if_False)
    ultimately show ?thesis using i assms by (simp add: ring_put_nth flip: s_def)
  next
    case 3
    then have "i - s - (length buf - length xs) = i - t" "\<not> i < s" "\<not> i - s < length buf - length xs"
      "i - t < length xs" "i - t < length buf - t"
      using assms s_def i by linarith+
    moreover have "(?A @ ?B @ ?C) ! i = ?C ! (i - s - (length buf - length xs))"
      using calculation lA lB by (simp only: nth_append if_True if_False)
    ultimately show ?thesis using 3 i assms by (simp add: ring_put_nth)
  qed
qed

lemma ring_put_nil [simp]: "ring_put buf t [] = buf"
  by (rule nth_equalityI) (simp_all add: ring_put_def Let_def)

lemma ring_put_append [ring_simps]:
  assumes "t < length buf" "length xs + length ys \<le> length buf"
  shows "ring_put (ring_put buf t xs) ((t + length xs) mod length buf) ys = ring_put buf t (xs @ ys)"
proof (rule nth_equalityI)
  fix i assume "i < length (ring_put (ring_put buf t xs) ((t + length xs) mod length buf) ys)"
  then have i: "i < length buf" by simp
  define L where "L = length buf"
  define t' where "t' = (if t + length xs < L then t + length xs else t + length xs - L)"
  define d where "d = (if t \<le> i then i - t else i + L - t)"
  have t': "(t + length xs) mod length buf = t'" and t'L: "t' < L"
    using assms by (auto simp: ring_mod t'_def L_def)
  show "ring_put (ring_put buf t xs) ((t + length xs) mod length buf) ys ! i = ring_put buf t (xs @ ys) ! i"
  proof (cases "xs = []")
    case False
    define D where "D = (if d < length xs then d + L - length xs else d - length xs)"
    have d': "(if t' \<le> i then i - t' else i + L - t') = D"
      using assms i False t'L by (auto simp: t'_def L_def d_def D_def)
    have e1: "ring_put buf t zs ! i = (if d < length zs then zs ! d else buf ! i)" for zs
      unfolding d_def L_def using ring_put_nth [of i buf t zs] i assms(1) by simp
    have e2: "ring_put (ring_put buf t xs) t' ys ! i = (if D < length ys then ys ! D else ring_put buf t xs ! i)"
      using ring_put_nth [of i "ring_put buf t xs" t' ys, unfolded length_ring_put, folded L_def, unfolded d']
        i t'L by (simp only: L_def)
    show ?thesis
      unfolding t' e1 e2 using assms by (auto simp: D_def nth_append L_def)
  qed (use assms in simp)
qed simp

text \<open>
  Each \<open>memcpy\<close> that stays within the buffer is a circular write (or read) that does not wrap.
  The index may be the end of the buffer when nothing is copied.
\<close>

lemma mem_write_ring:
  assumes "0 < length buf" "off + length xs \<le> length buf"
  shows "mem_write buf off xs = Some (ring_put buf (off mod length buf) xs)"
proof (cases "off < length buf")
  case True
  then show ?thesis using assms by (simp add: mem_write_in ring_put_flat)
next
  case False
  then have "off = length buf" "length xs = 0" using assms by linarith+
  then show ?thesis by (simp add: mem_write_in)
qed

lemma mem_write_ring_append:
  assumes "t < length buf" "off mod length buf = (t + length xs) mod length buf"
    "off + length ys \<le> length buf" "length xs + length ys \<le> length buf"
  shows "mem_write (ring_put buf t xs) off ys = Some (ring_put buf t (xs @ ys))"
  using assms by (subst mem_write_ring) (auto simp: ring_put_append)

lemma mem_read_ring:
  assumes "0 < length buf" "off + n \<le> length buf"
  shows "mem_read buf off n = Some (ring_get buf (off mod length buf) n)"
proof (cases "off < length buf")
  case True
  then show ?thesis using assms by (simp add: mem_read_in ring_get_flat)
next
  case False
  then have "off = length buf" "n = 0" using assms by auto
  then show ?thesis by (simp add: mem_read_in)
qed

section \<open>The interface of a message queue\<close>

text \<open>
  What a client of a queue may rely on. \<open>abs q xs\<close> relates a state of the queue to the messages
  it holds, oldest first; \<open>push\<close> reports whether the message was taken, \<open>pop\<close> returns
  the oldest message or nothing. Neither may fault (return \<open>None\<close>) on a well-formed queue.
\<close>

datatype 'a queue_op = QPush 'a | QPop

text \<open>
  A run of a client: the messages taken by \<open>push\<close>, those returned by \<open>pop\<close>, both in order,
  and the final state.
\<close>

fun queue_run :: "('q \<Rightarrow> 'a \<Rightarrow> (bool \<times> 'q) option) \<Rightarrow> ('q \<Rightarrow> ('a option \<times> 'q) option) \<Rightarrow> 'q \<Rightarrow>
    'a queue_op list \<Rightarrow> ('a list \<times> 'a list \<times> 'q) option" where
  "queue_run push pop q [] = Some ([], [], q)"
| "queue_run push pop q (QPush x # ops) =
     do { (b, q1) \<leftarrow> push q x;
          (ins, outs, q2) \<leftarrow> queue_run push pop q1 ops;
          Some (if b then x # ins else ins, outs, q2) }"
| "queue_run push pop q (QPop # ops) =
     do { (r, q1) \<leftarrow> pop q;
          (ins, outs, q2) \<leftarrow> queue_run push pop q1 ops;
          Some (ins, (case r of None \<Rightarrow> outs | Some x \<Rightarrow> x # outs), q2) }"

locale message_queue =
  fixes abs :: "'q \<Rightarrow> 'a list \<Rightarrow> bool"
    and ok :: "'a \<Rightarrow> bool"
    and push :: "'q \<Rightarrow> 'a \<Rightarrow> (bool \<times> 'q) option"
    and pop :: "'q \<Rightarrow> ('a option \<times> 'q) option"
  assumes push_law: "abs q xs \<Longrightarrow> ok x \<Longrightarrow>
      \<exists>b q'. push q x = Some (b, q') \<and> abs q' (if b then xs @ [x] else xs)"
    and pop_nil_law: "abs q [] \<Longrightarrow> \<exists>q'. pop q = Some (None, q') \<and> abs q' []"
    and pop_cons_law: "abs q (x # xs) \<Longrightarrow> \<exists>q'. pop q = Some (Some x, q') \<and> abs q' xs"
begin

lemma run_fifo:
  assumes "abs q xs" and "\<And>x. QPush x \<in> set ops \<Longrightarrow> ok x"
  shows "\<exists>ins outs q' ys. queue_run push pop q ops = Some (ins, outs, q') \<and> abs q' ys \<and> xs @ ins = outs @ ys"
  using assms
proof (induction ops arbitrary: q xs)
  case Nil
  then show ?case by simp
next
  case (Cons c ops)
  show ?case
  proof (cases c)
    case (QPush x)
    with Cons.prems push_law [of q xs x] obtain b q1 where
      p: "push q x = Some (b, q1)" and a: "abs q1 (if b then xs @ [x] else xs)" by auto
    from Cons.IH [OF a] Cons.prems(2) obtain ins outs q' ys where
      "queue_run push pop q1 ops = Some (ins, outs, q')" "abs q' ys"
      "(if b then xs @ [x] else xs) @ ins = outs @ ys" by auto
    then show ?thesis using QPush p by (auto split: if_splits)
  next
    case QPop
    show ?thesis
    proof (cases xs)
      case Nil
      with Cons.prems pop_nil_law obtain q1 where p: "pop q = Some (None, q1)" and a: "abs q1 []"
        by blast
      from Cons.IH [OF a] Cons.prems(2) obtain ins outs q' ys where
        "queue_run push pop q1 ops = Some (ins, outs, q')" "abs q' ys" "[] @ ins = outs @ ys" by auto
      then show ?thesis using QPop Nil p by auto
    next
      case (Cons z zs)
      with Cons.prems pop_cons_law obtain q1 where p: "pop q = Some (Some z, q1)" and a: "abs q1 zs"
        by blast
      from Cons.IH [OF a] Cons.prems(2) obtain ins outs q' ys where
        "queue_run push pop q1 ops = Some (ins, outs, q')" "abs q' ys" "zs @ ins = outs @ ys" by auto
      then show ?thesis using QPop Cons p by auto
    qed
  qed
qed

end

end
