(* ===== verification/NetQueue.thy ===== *)
theory NetQueue
  imports Prelude
begin

text \<open>
  \<open>net/net_queue.h\<close>, \<open>net/net_queue.cc\<close>: \<open>CNetQueue\<close>, a byte ring buffer that carries
  length-prefixed messages between threads and wakes its reader through a pipe.

  The buffer is a list of bytes, \<open>m_head\<close>, \<open>m_tail\<close> and \<open>m_buffer_len\<close> are
  \<open>uint32_t\<close> values that wrap. \<open>sizeof\<close> is a 64-bit \<open>size_t\<close>: where the code compares with it,
  the comparison is between natural numbers; where it stores the result into a \<open>uint32_t\<close>, it is
  32-bit arithmetic. A \<open>memcpy\<close> that leaves its block and a failed \<open>assert\<close> are \<open>None\<close>.
  The pipe holds \<open>m_pipe\<close> wake-up bytes of at most \<open>m_pipe_cap\<close> (the kernel's limit), both of
  its ends are non-blocking.
\<close>

record net_queue =
  m_buffer :: "u8 list"
  m_buffer_len :: u32
  m_wlock :: bool
  m_rlock :: bool
  m_head :: u32
  m_tail :: u32
  m_dequeue_num :: u32
  m_enqueue_num :: u32
  m_pipe :: nat
  m_pipe_cap :: nat

definition CNetQueue :: "bool \<Rightarrow> bool \<Rightarrow> u32 \<Rightarrow> nat \<Rightarrow> u8 list \<Rightarrow> net_queue" where
  \<comment> \<open>the constructor; \<open>junk\<close> is the uninitialised memory that \<open>new char[m_buffer_len]\<close> returns\<close>
  "CNetQueue rlock wlock buffer_size pipe_cap junk =
     \<lparr>m_buffer = junk, m_buffer_len = buffer_size, m_wlock = wlock, m_rlock = rlock,
      m_head = 0, m_tail = 0, m_dequeue_num = 0, m_enqueue_num = 0,
      m_pipe = 0, m_pipe_cap = pipe_cap\<rparr>"

definition IsEmpty :: "net_queue \<Rightarrow> bool" where
  "IsEmpty q \<longleftrightarrow> m_head q = m_tail q"

definition pipe_write :: "net_queue \<Rightarrow> net_queue" where
  "pipe_write q = (if m_pipe q < m_pipe_cap q then q\<lparr>m_pipe := m_pipe q + 1\<rparr> else q)"

definition pipe_read :: "net_queue \<Rightarrow> net_queue" where
  "pipe_read q = q\<lparr>m_pipe := m_pipe q - 1\<rparr>"

text \<open>
  The three ways in which \<open>EnQueue\<close> copies the length and the data behind \<open>m_tail\<close>: in one
  piece, with the data split at the end of the buffer, or with the length split there. The result is the
  buffer and the new \<open>m_tail\<close>, not yet wrapped.
\<close>

definition EnQueue_copy :: "net_queue \<Rightarrow> u8 list \<Rightarrow> u32 \<Rightarrow> (u8 list \<times> u32) option" where
  "EnQueue_copy q data data_len =
     (let tail = m_tail q;
          total_len = data_len + 4;
          tail_len = m_buffer_len q - tail
      in if tail_len \<ge> total_len then do {
           b \<leftarrow> mem_write (m_buffer q) (unat tail) (le32 data_len);
           d \<leftarrow> mem_read data 0 (unat data_len);
           b \<leftarrow> mem_write b (unat tail + 4) d;
           Some (b, tail + (data_len + 4))
         } else if unat tail_len \<ge> 4 then do {
           let first_len = tail_len - 4;
           b \<leftarrow> mem_write (m_buffer q) (unat tail) (le32 data_len);
           d1 \<leftarrow> mem_read data 0 (unat first_len);
           b \<leftarrow> mem_write b (unat tail + 4) d1;
           d2 \<leftarrow> mem_read data (unat first_len) (unat (data_len - first_len));
           b \<leftarrow> mem_write b 0 d2;
           Some (b, tail + data_len + 4 - m_buffer_len q)
         } else do {
           let second_len = 4 - tail_len;
           b \<leftarrow> mem_write (m_buffer q) (unat tail) (take (unat tail_len) (le32 data_len));
           l \<leftarrow> mem_read (le32 data_len) (unat tail_len) (unat second_len);
           b \<leftarrow> mem_write b 0 l;
           d \<leftarrow> mem_read data 0 (unat data_len);
           b \<leftarrow> mem_write b (unat second_len) d;
           Some (b, second_len + data_len)
         })"

definition EnQueue :: "net_queue \<Rightarrow> u8 list \<Rightarrow> u32 \<Rightarrow> (int \<times> net_queue) option" where
  "EnQueue q data data_len =
     (let head = m_head q;
          tail = m_tail q;
          total_len = data_len + 4;
          free_len = (if head > tail then head - tail else head + m_buffer_len q - tail)
      in if free_len \<le> total_len then Some (-1, q)
         else do {
           (buf, tail') \<leftarrow> EnQueue_copy q data data_len;
           Some (0, pipe_write (q\<lparr>m_buffer := buf,
                                  m_tail := (if tail' \<ge> m_buffer_len q then 0 else tail')\<rparr>))
         })"

text \<open>
  The result of \<open>DeQueue\<close> and \<open>Pop\<close>: the return code, the value stored through \<open>data_len\<close>
  (if any), the bytes stored at the start of the caller's buffer, and the new state.
\<close>

type_synonym deq_result = "int \<times> u32 option \<times> u8 list \<times> net_queue"

definition DeQueue_prefix :: "net_queue \<Rightarrow> (u32 \<times> u32) option" where
  \<comment> \<open>the length of the message at \<open>m_head\<close>, and the index behind it\<close>
  "DeQueue_prefix q =
     (let head = m_head q
      in if unat head + 4 \<ge> unat (m_buffer_len q) then do {
           let first_len = m_buffer_len q - head;
           let second_len = 4 - first_len;
           l1 \<leftarrow> mem_read (m_buffer q) (unat head) (unat first_len);
           l2 \<leftarrow> mem_read (m_buffer q) 0 (unat second_len);
           Some (of_le32 (l1 @ l2), second_len)
         } else do {
           l \<leftarrow> mem_read (m_buffer q) (unat head) 4;
           Some (of_le32 l, head + 4)
         })"

definition DeQueue_copy :: "net_queue \<Rightarrow> u32 \<Rightarrow> u32 \<Rightarrow> (u8 list \<times> u32) option" where
  \<comment> \<open>the bytes of the message from index \<open>nxt\<close> on, and the new \<open>m_head\<close>, not yet wrapped\<close>
  "DeQueue_copy q nxt real_len =
     (if nxt + real_len \<le> m_buffer_len q then do {
        d \<leftarrow> mem_read (m_buffer q) (unat nxt) (unat real_len);
        Some (d, nxt + real_len)
      } else do {
        let first_len = m_buffer_len q - nxt;
        d1 \<leftarrow> mem_read (m_buffer q) (unat nxt) (unat first_len);
        d2 \<leftarrow> mem_read (m_buffer q) 0 (unat (real_len - first_len));
        Some (d1 @ d2, real_len - first_len)
      })"

definition DeQueue :: "net_queue \<Rightarrow> u32 \<Rightarrow> deq_result option" where
  "DeQueue q buf_size =
     (let head = m_head q;
          tail = m_tail q
      in if head = tail then Some (-1, Some 0, [], pipe_read q)
         else let used_len = (if tail > head then tail - head else tail + m_buffer_len q - head)
      in if unat buf_size < 4 then Some (-2, None, [], q)
         else do {
           (real_len, nxt) \<leftarrow> DeQueue_prefix q;
           guard (unat used_len \<ge> unat real_len + 4);
           if unat real_len + 4 > unat buf_size
           then Some (-3, Some (real_len + 4), [], q)
           else do {
             (bs, head') \<leftarrow> DeQueue_copy q nxt real_len;
             Some (0, Some real_len, bs,
                   pipe_read (q\<lparr>m_head := (if head' \<ge> m_buffer_len q then 0 else head')\<rparr>))
           }
         })"

text \<open>
  \<open>lock_ok\<close> says whether \<open>pthread_mutex_lock\<close> succeeds; it is asked only in the locking mode.
\<close>

definition Pop :: "bool \<Rightarrow> net_queue \<Rightarrow> u32 \<Rightarrow> deq_result option" where
  "Pop lock_ok q buf_size =
     (if m_rlock q \<and> \<not> lock_ok then Some (-100, None, [], q)
      else do {
        (ret, len, bs, q') \<leftarrow> DeQueue q buf_size;
        Some (ret, len, bs, if ret = 0 then q'\<lparr>m_dequeue_num := m_dequeue_num q' + 1\<rparr> else q')
      })"

definition Push :: "bool \<Rightarrow> net_queue \<Rightarrow> u8 list \<Rightarrow> u32 \<Rightarrow> (int \<times> net_queue) option" where
  "Push lock_ok q data data_len =
     (if m_wlock q \<and> \<not> lock_ok then Some (-100, q)
      else do {
        (ret, q') \<leftarrow> EnQueue q data data_len;
        Some (ret, if ret = 0 then q'\<lparr>m_enqueue_num := m_enqueue_num q' + 1\<rparr> else q')
      })"

section \<open>Well-formed queues and their contents\<close>

definition nq_wf :: "net_queue \<Rightarrow> bool" where
  "nq_wf q \<longleftrightarrow> length (m_buffer q) = unat (m_buffer_len q) \<and> unat (m_buffer_len q) \<le> 2 ^ 31 \<and>
     m_head q < m_buffer_len q \<and> m_tail q < m_buffer_len q"

definition nq_used :: "net_queue \<Rightarrow> nat" where
  "nq_used q =
     (if m_head q \<le> m_tail q then unat (m_tail q) - unat (m_head q)
      else unat (m_tail q) + unat (m_buffer_len q) - unat (m_head q))"

definition nq_bytes :: "net_queue \<Rightarrow> u8 list" where
  "nq_bytes q = ring_get (m_buffer q) (unat (m_head q)) (nq_used q)"

text \<open>A message in the buffer: its length as four bytes, then its bytes.\<close>

definition frame :: "u8 list \<Rightarrow> u8 list" where
  "frame m = le32 (of_nat (length m)) @ m"

definition nq_rel :: "net_queue \<Rightarrow> u8 list list \<Rightarrow> bool" where
  "nq_rel q ms \<longleftrightarrow> nq_wf q \<and> nq_bytes q = concat (map frame ms)"

lemma length_frame [simp]: "length (frame m) = length m + 4"
  by (simp add: frame_def)

lemma nq_wf_nat:
  assumes "nq_wf q"
  shows "length (m_buffer q) = unat (m_buffer_len q)" "unat (m_buffer_len q) \<le> 2147483648"
    "unat (m_head q) < unat (m_buffer_len q)" "unat (m_tail q) < unat (m_buffer_len q)"
    "0 < unat (m_buffer_len q)"
  using assms by (auto simp: nq_wf_def word_less_nat_alt)

lemma nq_used_less: "nq_wf q \<Longrightarrow> nq_used q < unat (m_buffer_len q)"
  using nq_wf_nat [of q] by (auto simp: nq_used_def word_le_nat_alt)

lemma nq_tail:
  "nq_wf q \<Longrightarrow> unat (m_tail q) = (unat (m_head q) + nq_used q) mod unat (m_buffer_len q)"
  using nq_wf_nat [of q] by (auto simp: nq_used_def word_le_nat_alt)

lemma nq_used_0: "nq_wf q \<Longrightarrow> nq_used q = 0 \<longleftrightarrow> m_head q = m_tail q"
  using nq_wf_nat [of q] by (auto simp: nq_used_def word_le_nat_alt word_unat_eq_iff)

lemma index_norm:
  assumes "unat x = v" "v \<le> unat len" "0 < unat len"
  shows "(if x \<ge> len then 0 else x) = (of_nat (v mod unat len) :: u32)"
proof (cases "v = unat len")
  case True
  then show ?thesis using assms by (simp add: word_le_nat_alt)
next
  case False
  then have "\<not> x \<ge> len" "v mod unat len = v" using assms by (auto simp: word_le_nat_alt)
  then show ?thesis using assms(1) by auto
qed

lemma nq_pipe [simp]:
  "m_buffer (pipe_write q) = m_buffer q" "m_buffer_len (pipe_write q) = m_buffer_len q"
  "m_head (pipe_write q) = m_head q" "m_tail (pipe_write q) = m_tail q"
  "m_rlock (pipe_write q) = m_rlock q" "m_wlock (pipe_write q) = m_wlock q"
  "m_buffer (pipe_read q) = m_buffer q" "m_buffer_len (pipe_read q) = m_buffer_len q"
  "m_head (pipe_read q) = m_head q" "m_tail (pipe_read q) = m_tail q"
  "m_rlock (pipe_read q) = m_rlock q" "m_wlock (pipe_read q) = m_wlock q"
  by (simp_all add: pipe_write_def pipe_read_def)

section \<open>What \<open>EnQueue\<close> does\<close>

text \<open>
  The three ways in which \<open>EnQueue\<close> copies a message are one circular write of its frame. The
  assumptions are those under which it copies: a well-formed queue with room for the frame.
\<close>

definition fits :: "net_queue \<Rightarrow> u8 list \<Rightarrow> u32 \<Rightarrow> bool" where
  "fits q msg n \<longleftrightarrow> nq_wf q \<and> unat n = length msg \<and> length msg + 4 < unat (m_buffer_len q)"

definition put_frame :: "net_queue \<Rightarrow> u8 list \<Rightarrow> u32 \<Rightarrow> net_queue" where
  "put_frame q msg n =
     q\<lparr>m_buffer := ring_put (m_buffer q) (unat (m_tail q)) (le32 n @ msg),
       m_tail := of_nat ((unat (m_tail q) + (length msg + 4)) mod unat (m_buffer_len q))\<rparr>"

lemma fits_nat:
  assumes "fits q msg n"
  shows "unat n = length msg" "length msg + 4 < length (m_buffer q)"
    "length (m_buffer q) = unat (m_buffer_len q)" "unat (m_buffer_len q) \<le> 2147483648"
    "unat (m_tail q) < length (m_buffer q)"
    "unat (n + 4) = length msg + 4"
    "unat (m_buffer_len q - m_tail q) = length (m_buffer q) - unat (m_tail q)"
proof -
  have w: "nq_wf q" and n: "unat n = length msg" and r: "length msg + 4 < unat (m_buffer_len q)"
    using assms by (auto simp: fits_def)
  note W = nq_wf_nat [OF w]
  show "unat n = length msg" "length msg + 4 < length (m_buffer q)"
    "length (m_buffer q) = unat (m_buffer_len q)" "unat (m_buffer_len q) \<le> 2147483648"
    "unat (m_tail q) < length (m_buffer q)"
    using W n r by auto
  show "unat (n + 4) = length msg + 4"
    using W n r by (subst unat_add_small) auto
  show "unat (m_buffer_len q - m_tail q) = length (m_buffer q) - unat (m_tail q)"
    using W by (subst unat_diff_word) (auto simp: word_le_nat_alt)
qed

lemma copy_one_piece:
  assumes f: "fits q msg n" and c: "length msg + 4 \<le> length (m_buffer q) - unat (m_tail q)"
  shows "EnQueue_copy q msg n =
    Some (ring_put (m_buffer q) (unat (m_tail q)) (le32 n @ msg), m_tail q + (n + 4))"
    and "unat (m_tail q + (n + 4)) = unat (m_tail q) + (length msg + 4)"
proof -
  note w = fits_nat [OF f]
  note wr = mem_write_ring_append [where buf = "m_buffer q" and t = "unat (m_tail q)"]
  have "mem_write (m_buffer q) (unat (m_tail q)) (le32 n) = Some (ring_put (m_buffer q) (unat (m_tail q)) (le32 n))"
    using wr [of "unat (m_tail q)" "[]" "le32 n"] c w by simp
  moreover have "mem_write (ring_put (m_buffer q) (unat (m_tail q)) (le32 n)) (unat (m_tail q) + 4) msg
      = Some (ring_put (m_buffer q) (unat (m_tail q)) (le32 n @ msg))"
    using c w by (intro wr) auto
  ultimately show "EnQueue_copy q msg n =
      Some (ring_put (m_buffer q) (unat (m_tail q)) (le32 n @ msg), m_tail q + (n + 4))"
    using c w by (simp add: EnQueue_copy_def Let_def word_le_nat_alt mem_read_in)
  show "unat (m_tail q + (n + 4)) = unat (m_tail q) + (length msg + 4)"
    using w by (subst unat_add_small) auto
qed

lemma copy_split_data:
  assumes f: "fits q msg n" and c: "length (m_buffer q) - unat (m_tail q) < length msg + 4"
    "4 \<le> length (m_buffer q) - unat (m_tail q)"
  shows "EnQueue_copy q msg n =
    Some (ring_put (m_buffer q) (unat (m_tail q)) (le32 n @ msg), m_tail q + (n + 4) - m_buffer_len q)"
    and "unat (m_tail q + (n + 4) - m_buffer_len q) = unat (m_tail q) + (length msg + 4) - unat (m_buffer_len q)"
proof -
  note w = fits_nat [OF f]
  note wr = mem_write_ring_append [where buf = "m_buffer q" and t = "unat (m_tail q)"]
  define p where "p = length (m_buffer q) - unat (m_tail q) - 4"
  have p: "unat (m_buffer_len q - m_tail q - 4) = p"
    using c w by (subst unat_diff_word) (auto simp: word_le_nat_alt p_def)
  have np: "unat (n - (m_buffer_len q - m_tail q - 4)) = length msg - p"
    using c p w by (subst unat_diff_word) (auto simp: word_le_nat_alt p_def)
  have "mem_write (m_buffer q) (unat (m_tail q)) (le32 n) = Some (ring_put (m_buffer q) (unat (m_tail q)) (le32 n))"
    using wr [of "unat (m_tail q)" "[]" "le32 n"] c w by simp
  moreover have "mem_write (ring_put (m_buffer q) (unat (m_tail q)) (le32 n)) (unat (m_tail q) + 4) (take p msg)
      = Some (ring_put (m_buffer q) (unat (m_tail q)) (le32 n @ take p msg))"
    using c w by (intro wr) (auto simp: p_def)
  moreover have "mem_write (ring_put (m_buffer q) (unat (m_tail q)) (le32 n @ take p msg)) 0 (drop p msg)
      = Some (ring_put (m_buffer q) (unat (m_tail q)) ((le32 n @ take p msg) @ drop p msg))"
    using c w by (intro wr) (auto simp: p_def min_def)
  ultimately show "EnQueue_copy q msg n =
      Some (ring_put (m_buffer q) (unat (m_tail q)) (le32 n @ msg), m_tail q + (n + 4) - m_buffer_len q)"
    using c w p np by (simp add: EnQueue_copy_def Let_def word_le_nat_alt mem_read_in p_def add.assoc)
  have "unat (m_tail q + (n + 4)) = unat (m_tail q) + (length msg + 4)"
    using w by (subst unat_add_small) auto
  then show "unat (m_tail q + (n + 4) - m_buffer_len q) = unat (m_tail q) + (length msg + 4) - unat (m_buffer_len q)"
    using c w by (subst unat_diff_word) (auto simp: word_le_nat_alt)
qed

lemma copy_split_prefix:
  assumes f: "fits q msg n" and c: "length (m_buffer q) - unat (m_tail q) < 4"
  shows "EnQueue_copy q msg n =
    Some (ring_put (m_buffer q) (unat (m_tail q)) (le32 n @ msg), 4 - (m_buffer_len q - m_tail q) + n)"
    and "unat (4 - (m_buffer_len q - m_tail q) + n) = unat (m_tail q) + (length msg + 4) - unat (m_buffer_len q)"
proof -
  note w = fits_nat [OF f]
  note wr = mem_write_ring_append [where buf = "m_buffer q" and t = "unat (m_tail q)"]
  define r where "r = length (m_buffer q) - unat (m_tail q)"
  have r: "unat (m_buffer_len q) - unat (m_tail q) = r" "r < 4" "r < length msg + 4"
    using c w by (auto simp: r_def)
  have s: "unat (4 - (m_buffer_len q - m_tail q)) = 4 - r"
    using c w by (subst unat_diff_word) (auto simp: word_le_nat_alt r_def)
  have "mem_write (m_buffer q) (unat (m_tail q)) (take r (le32 n))
      = Some (ring_put (m_buffer q) (unat (m_tail q)) (take r (le32 n)))"
    using wr [of "unat (m_tail q)" "[]" "take r (le32 n)"] c w by (simp add: r_def)
  moreover have "mem_write (ring_put (m_buffer q) (unat (m_tail q)) (take r (le32 n))) 0 (drop r (le32 n))
      = Some (ring_put (m_buffer q) (unat (m_tail q)) (take r (le32 n) @ drop r (le32 n)))"
    using c w by (intro wr) (auto simp: r_def)
  moreover have "mem_write (ring_put (m_buffer q) (unat (m_tail q)) (le32 n)) (4 - r) msg
      = Some (ring_put (m_buffer q) (unat (m_tail q)) (le32 n @ msg))"
  proof (rule wr)
    have "unat (m_tail q) + 4 = 4 - r + length (m_buffer q)" using c w by (simp add: r_def)
    then show "(4 - r) mod length (m_buffer q) = (unat (m_tail q) + length (le32 n)) mod length (m_buffer q)"
      by simp
  qed (use c w in \<open>auto simp: r_def\<close>)
  ultimately show "EnQueue_copy q msg n =
      Some (ring_put (m_buffer q) (unat (m_tail q)) (le32 n @ msg), 4 - (m_buffer_len q - m_tail q) + n)"
    using r w s by (simp add: EnQueue_copy_def Let_def word_le_nat_alt mem_read_in)
  show "unat (4 - (m_buffer_len q - m_tail q) + n) = unat (m_tail q) + (length msg + 4) - unat (m_buffer_len q)"
    using c w s by (subst unat_add_small) (auto simp: r_def)
qed

lemma EnQueue_copy_eq:
  assumes f: "fits q msg n"
  shows "\<exists>x. EnQueue_copy q msg n = Some (ring_put (m_buffer q) (unat (m_tail q)) (le32 n @ msg), x) \<and>
    (if x \<ge> m_buffer_len q then 0 else x)
      = of_nat ((unat (m_tail q) + (length msg + 4)) mod unat (m_buffer_len q))"
proof -
  note w = fits_nat [OF f]
  have wrap: "(v - unat (m_buffer_len q)) mod unat (m_buffer_len q) = v mod unat (m_buffer_len q)"
    if "unat (m_buffer_len q) \<le> v" for v
    using that by (rule le_mod_geq [symmetric])
  consider "length msg + 4 \<le> length (m_buffer q) - unat (m_tail q)"
    | "length (m_buffer q) - unat (m_tail q) < length msg + 4" "4 \<le> length (m_buffer q) - unat (m_tail q)"
    | "length (m_buffer q) - unat (m_tail q) < 4" by linarith
  then show ?thesis
  proof cases
    case 1
    show ?thesis
      using copy_one_piece [OF f 1] index_norm [OF copy_one_piece(2) [OF f 1]] 1 w by fastforce
  next
    case 2
    have "(if m_tail q + (n + 4) - m_buffer_len q \<ge> m_buffer_len q then 0
        else m_tail q + (n + 4) - m_buffer_len q)
      = of_nat ((unat (m_tail q) + (length msg + 4) - unat (m_buffer_len q)) mod unat (m_buffer_len q))"
      using w by (intro index_norm [OF copy_split_data(2) [OF f 2]]) auto
    with copy_split_data(1) [OF f 2] show ?thesis using 2 w by (subst (asm) wrap) auto
  next
    case 3
    have "(if 4 - (m_buffer_len q - m_tail q) + n \<ge> m_buffer_len q then 0
        else 4 - (m_buffer_len q - m_tail q) + n)
      = of_nat ((unat (m_tail q) + (length msg + 4) - unat (m_buffer_len q)) mod unat (m_buffer_len q))"
      using w by (intro index_norm [OF copy_split_prefix(2) [OF f 3]]) auto
    with copy_split_prefix(1) [OF f 3] show ?thesis using 3 w by (subst (asm) wrap) auto
  qed
qed

lemma free_len_nat:
  assumes "nq_wf q"
  shows "unat (if m_head q > m_tail q then m_head q - m_tail q else m_head q + m_buffer_len q - m_tail q)
    = unat (m_buffer_len q) - nq_used q"
proof (cases "m_head q > m_tail q")
  case True
  then show ?thesis
    using nq_wf_nat [OF assms]
    by (simp add: unat_diff_word nq_used_def word_less_nat_alt word_le_nat_alt)
next
  case False
  have s: "unat (m_head q + m_buffer_len q) = unat (m_head q) + unat (m_buffer_len q)"
    using nq_wf_nat [OF assms] by (subst unat_add_small) auto
  then have "m_tail q \<le> m_head q + m_buffer_len q"
    using nq_wf_nat [OF assms] by (simp add: word_le_nat_alt)
  then show ?thesis
    using False nq_wf_nat [OF assms] s
    by (simp add: unat_diff_word nq_used_def word_less_nat_alt word_le_nat_alt)
qed

text \<open>
  \<open>EnQueue\<close> on a well-formed queue: it refuses a message when the frame would not leave one byte
  free, otherwise it writes the frame behind the contents.
\<close>

lemma EnQueue_eq:
  assumes wf: "nq_wf q" and len: "unat n = length msg" "length msg + 4 < 2 ^ 32"
  shows "EnQueue q msg n =
    (if unat (m_buffer_len q) - nq_used q \<le> length msg + 4 then Some (-1, q)
     else Some (0, pipe_write (put_frame q msg n)))"
proof -
  have total: "unat (n + 4) = length msg + 4"
    using len by (subst unat_add_small) auto
  show ?thesis
  proof (cases "unat (m_buffer_len q) - nq_used q \<le> length msg + 4")
    case True
    then show ?thesis
      unfolding EnQueue_def Let_def word_le_nat_alt free_len_nat [OF wf] total by simp
  next
    case False
    then have "fits q msg n" using wf len by (auto simp: fits_def)
    from EnQueue_copy_eq [OF this] False show ?thesis
      unfolding EnQueue_def Let_def free_len_nat [OF wf] word_le_nat_alt total
      by (auto simp: put_frame_def)
  qed
qed

section \<open>What \<open>DeQueue\<close> does\<close>

lemma DeQueue_prefix_eq:
  assumes wf: "nq_wf q" and four: "4 < length (m_buffer q)"
  shows "\<exists>nxt. DeQueue_prefix q = Some (of_le32 (ring_get (m_buffer q) (unat (m_head q)) 4), nxt) \<and>
    unat nxt = (unat (m_head q) + 4) mod length (m_buffer q)"
proof (cases "unat (m_head q) + 4 \<ge> unat (m_buffer_len q)")
  case True
  note w = nq_wf_nat [OF wf]
  define r where "r = unat (m_buffer_len q) - unat (m_head q)"
  have f: "unat (m_buffer_len q - m_head q) = r"
    using w by (subst unat_diff_word) (auto simp: word_le_nat_alt r_def)
  have s: "unat (4 - (m_buffer_len q - m_head q)) = 4 - r"
    using True w f by (subst unat_diff_word) (auto simp: word_le_nat_alt r_def)
  have "ring_get (m_buffer q) (unat (m_head q)) 4
      = take r (drop (unat (m_head q)) (m_buffer q)) @ take (4 - r) (m_buffer q)"
    using True w four by (subst ring_get_wrap) (auto simp: r_def intro: arg_cong [where f = "\<lambda>k. take k (m_buffer q)"])
  moreover have "(unat (m_head q) + 4) mod unat (m_buffer_len q) = 4 - r"
    using True w four by (subst ring_mod) (auto simp: r_def)
  ultimately show ?thesis
    using True w four by (auto simp: DeQueue_prefix_def Let_def f s mem_read_in r_def)
next
  case False
  note w = nq_wf_nat [OF wf]
  have "unat (m_head q + 4) = unat (m_head q) + 4"
    using False w by (subst unat_add_small) auto
  then show ?thesis
    using False w by (auto simp: DeQueue_prefix_def Let_def mem_read_in ring_get_flat)
qed

lemma DeQueue_copy_eq:
  assumes wf: "nq_wf q" and n: "unat nxt < length (m_buffer q)" "unat real_len < length (m_buffer q)"
  shows "\<exists>x. DeQueue_copy q nxt real_len = Some (ring_get (m_buffer q) (unat nxt) (unat real_len), x) \<and>
    (if x \<ge> m_buffer_len q then 0 else x) = of_nat ((unat nxt + unat real_len) mod unat (m_buffer_len q))"
proof -
  note w = nq_wf_nat [OF wf]
  have s: "unat (nxt + real_len) = unat nxt + unat real_len"
    using w n by (subst unat_add_small) auto
  show ?thesis
  proof (cases "nxt + real_len \<le> m_buffer_len q")
    case True
    then show ?thesis
      using w n s index_norm [OF s, of "m_buffer_len q"]
      by (auto simp: DeQueue_copy_def mem_read_in ring_get_flat word_le_nat_alt)
  next
    case False
    have f: "unat (m_buffer_len q - nxt) = unat (m_buffer_len q) - unat nxt"
      using w n by (subst unat_diff_word) (auto simp: word_le_nat_alt)
    have l: "unat (real_len - (m_buffer_len q - nxt)) = unat nxt + unat real_len - unat (m_buffer_len q)"
      using False w n f s by (subst unat_diff_word) (auto simp: word_le_nat_alt)
    have "(unat nxt + unat real_len - unat (m_buffer_len q)) mod unat (m_buffer_len q)
        = (unat nxt + unat real_len) mod unat (m_buffer_len q)"
      using False s by (intro le_mod_geq [symmetric]) (simp add: word_le_nat_alt)
    moreover have "ring_get (m_buffer q) (unat nxt) (unat real_len)
        = drop (unat nxt) (m_buffer q) @ take (unat nxt + unat real_len - unat (m_buffer_len q)) (m_buffer q)"
      using False w n s by (subst ring_get_wrap) (auto simp: word_le_nat_alt)
    ultimately show ?thesis
      using False w n s f l index_norm [OF l, of "m_buffer_len q"]
      by (auto simp: DeQueue_copy_def Let_def mem_read_in)
  qed
qed

lemma used_len_nat:
  assumes "nq_wf q" "m_head q \<noteq> m_tail q"
  shows "unat (if m_tail q > m_head q then m_tail q - m_head q else m_tail q + m_buffer_len q - m_head q)
    = nq_used q"
proof (cases "m_tail q > m_head q")
  case True
  then show ?thesis by (simp add: unat_diff_word nq_used_def)
next
  case False
  have s: "unat (m_tail q + m_buffer_len q) = unat (m_tail q) + unat (m_buffer_len q)"
    using nq_wf_nat [OF assms(1)] by (subst unat_add_small) auto
  then have "m_head q \<le> m_tail q + m_buffer_len q"
    using nq_wf_nat [OF assms(1)] by (simp add: word_le_nat_alt)
  then show ?thesis using False assms(2) s by (auto simp: unat_diff_word nq_used_def)
qed

definition drop_frame :: "net_queue \<Rightarrow> nat \<Rightarrow> net_queue" where
  "drop_frame q n = q\<lparr>m_head := of_nat ((unat (m_head q) + (n + 4)) mod unat (m_buffer_len q))\<rparr>"

text \<open>
  \<open>DeQueue\<close> on a well-formed queue that is not empty, by the length prefix in front of its contents.
\<close>

lemma DeQueue_eq:
  assumes wf: "nq_wf q" and ne: "m_head q \<noteq> m_tail q" and four: "4 < length (m_buffer q)"
    and r: "r = of_le32 (ring_get (m_buffer q) (unat (m_head q)) 4)"
    and sz: "4 \<le> unat buf_size" and used: "unat r + 4 \<le> nq_used q"
  shows "DeQueue q buf_size =
    (if unat buf_size < unat r + 4 then Some (-3, Some (r + 4), [], q)
     else Some (0, Some r,
       ring_get (m_buffer q) ((unat (m_head q) + 4) mod length (m_buffer q)) (unat r),
       pipe_read (drop_frame q (unat r))))"
proof -
  note w = nq_wf_nat [OF wf]
  obtain nxt where p: "DeQueue_prefix q = Some (r, nxt)"
    and nxt: "unat nxt = (unat (m_head q) + 4) mod length (m_buffer q)"
    using DeQueue_prefix_eq [OF wf four] r by auto
  have rl: "unat r < length (m_buffer q)" using used nq_used_less [OF wf] w by simp
  have nl: "unat nxt < length (m_buffer q)" using nxt w by simp
  obtain x where c: "DeQueue_copy q nxt r = Some (ring_get (m_buffer q) (unat nxt) (unat r), x)"
    and x: "(if x \<ge> m_buffer_len q then 0 else x) = of_nat ((unat nxt + unat r) mod unat (m_buffer_len q))"
    using DeQueue_copy_eq [OF wf nl rl] by auto
  have "(unat nxt + unat r) mod unat (m_buffer_len q)
      = (unat (m_head q) + (unat r + 4)) mod unat (m_buffer_len q)"
    unfolding nxt w(1) mod_add_left_eq by (simp add: ac_simps)
  with x show ?thesis
    using sz used unfolding DeQueue_def Let_def used_len_nat [OF wf ne]
    by (simp add: ne p c nxt drop_frame_def)
qed

section \<open>Contents: the queue as a list of messages\<close>

lemma nq_used_unique:
  assumes "nq_wf q" "unat (m_tail q) = (unat (m_head q) + u) mod unat (m_buffer_len q)"
    "u < unat (m_buffer_len q)"
  shows "nq_used q = u"
  using nq_wf_nat [OF assms(1)] assms
  by (auto simp: nq_used_def word_le_nat_alt ring_mod split: if_splits)

lemma of_nat_mod_less:
  assumes "0 < unat len"
  shows "unat (of_nat (v mod unat len) :: u32) = v mod unat len" "of_nat (v mod unat len) < (len :: u32)"
proof -
  have "v mod unat len < unat len" using assms by simp
  moreover have "unat len < 2 ^ LENGTH(32)" by (rule unsigned_less)
  ultimately show u: "unat (of_nat (v mod unat len) :: u32) = v mod unat len"
    by (intro unat_of_nat_small) simp
  then show "of_nat (v mod unat len) < (len :: u32)"
    using \<open>v mod unat len < unat len\<close> by (simp add: word_less_nat_alt)
qed

lemma put_frame_rel:
  assumes "nq_wf q" "unat n = length msg" "length msg + 4 < unat (m_buffer_len q) - nq_used q"
  shows "nq_wf (put_frame q msg n)" "nq_used (put_frame q msg n) = nq_used q + (length msg + 4)"
    "nq_bytes (put_frame q msg n) = nq_bytes q @ le32 n @ msg"
proof -
  note w = nq_wf_nat [OF assms(1)] and m = of_nat_mod_less [OF nq_wf_nat(5) [OF assms(1)]]
  show wf': "nq_wf (put_frame q msg n)"
    using assms w m by (auto simp: nq_wf_def put_frame_def)
  show u': "nq_used (put_frame q msg n) = nq_used q + (length msg + 4)"
    using wf' assms nq_tail [OF assms(1)]
    by (intro nq_used_unique) (auto simp: put_frame_def m mod_add_left_eq add.assoc)
  show "nq_bytes (put_frame q msg n) = nq_bytes q @ le32 n @ msg"
    using ring_get_put_append [of "unat (m_head q)" "m_buffer q" "nq_used q" "le32 n @ msg"] assms w u'
    by (simp add: nq_bytes_def put_frame_def nq_tail ac_simps)
qed

lemma drop_frame_rel:
  assumes "nq_wf q" "n + 4 \<le> nq_used q"
  shows "nq_wf (drop_frame q n)" "nq_used (drop_frame q n) = nq_used q - (n + 4)"
    "nq_bytes (drop_frame q n) = drop (n + 4) (nq_bytes q)"
proof -
  note w = nq_wf_nat [OF assms(1)] and m = of_nat_mod_less [OF nq_wf_nat(5) [OF assms(1)]]
  show wf': "nq_wf (drop_frame q n)"
    using assms w m by (auto simp: nq_wf_def drop_frame_def)
  have "((unat (m_head q) + (n + 4)) mod unat (m_buffer_len q) + (nq_used q - (n + 4))) mod unat (m_buffer_len q)
      = unat (m_tail q)"
    unfolding mod_add_left_eq nq_tail [OF assms(1)] using assms(2) by simp
  then show u': "nq_used (drop_frame q n) = nq_used q - (n + 4)"
    using nq_used_less [OF assms(1)] by (intro nq_used_unique [OF wf']) (simp_all add: drop_frame_def m)
  have "ring_get (m_buffer q) (unat (m_head q)) ((n + 4) + (nq_used q - (n + 4)))
      = ring_get (m_buffer q) (unat (m_head q)) (n + 4) @ nq_bytes (drop_frame q n)"
    unfolding ring_get_add by (simp add: nq_bytes_def u') (simp add: drop_frame_def m w)
  then show "nq_bytes (drop_frame q n) = drop (n + 4) (nq_bytes q)"
    using assms by (simp add: nq_bytes_def)
qed

text \<open>The message operations a client sees: \<open>Push\<close> and \<open>Pop\<close> with a buffer as large as the queue.\<close>

definition nq_push :: "net_queue \<Rightarrow> u8 list \<Rightarrow> (bool \<times> net_queue) option" where
  "nq_push q msg = map_option (\<lambda>(ret, q'). (ret = 0, q')) (Push True q msg (of_nat (length msg)))"

definition nq_pop :: "net_queue \<Rightarrow> (u8 list option \<times> net_queue) option" where
  "nq_pop q = map_option (\<lambda>(ret, len, bs, q'). (if ret = 0 then Some bs else None, q')) (Pop True q (m_buffer_len q))"

lemma nq_rel_frame:
  "nq_rel (pipe_write q) ms = nq_rel q ms" "nq_rel (pipe_read q) ms = nq_rel q ms"
  "nq_rel (q\<lparr>m_enqueue_num := a\<rparr>) ms = nq_rel q ms" "nq_rel (q\<lparr>m_dequeue_num := b\<rparr>) ms = nq_rel q ms"
  by (simp_all add: nq_rel_def nq_wf_def nq_bytes_def nq_used_def)

lemma nq_used_bytes: "length (nq_bytes q) = nq_used q"
  by (simp add: nq_bytes_def)

lemma Push_rel:
  assumes rel: "nq_rel q ms" and len: "length msg + 4 < 2 ^ 32"
  shows "if unat (m_buffer_len q) - nq_used q \<le> length msg + 4
    then Push True q msg (of_nat (length msg)) = Some (-1, q)
    else \<exists>q'. Push True q msg (of_nat (length msg)) = Some (0, q') \<and> nq_rel q' (ms @ [msg])"
proof -
  have wf: "nq_wf q" using rel by (simp add: nq_rel_def)
  have n: "unat (of_nat (length msg) :: u32) = length msg" using len by (simp add: unat_of_nat_small)
  show ?thesis
  proof (cases "unat (m_buffer_len q) - nq_used q \<le> length msg + 4")
    case True
    then show ?thesis by (simp add: Push_def EnQueue_eq [OF wf n len])
  next
    case False
    then have "nq_rel (put_frame q msg (of_nat (length msg))) (ms @ [msg])"
      using rel put_frame_rel [OF wf n] by (simp add: nq_rel_def frame_def)
    with False show ?thesis
      by (simp add: Push_def EnQueue_eq [OF wf n len] nq_rel_frame)
  qed
qed

lemma Pop_nil_rel:
  assumes rel: "nq_rel q []"
  shows "\<exists>q'. Pop True q sz = Some (-1, Some 0, [], q') \<and> nq_rel q' []"
proof -
  have "nq_used q = 0" using rel nq_used_bytes [of q] by (simp add: nq_rel_def)
  then have "m_head q = m_tail q" using rel by (simp add: nq_rel_def nq_used_0)
  then show ?thesis using rel by (simp add: Pop_def DeQueue_def Let_def nq_rel_frame)
qed

lemma Pop_cons_rel:
  assumes rel: "nq_rel q (msg # ms)" and size: "4 \<le> unat sz"
  shows "if unat sz < length msg + 4
    then Pop True q sz = Some (-3, Some (of_nat (length msg + 4)), [], q)
    else \<exists>q'. Pop True q sz = Some (0, Some (of_nat (length msg)), msg, q') \<and> nq_rel q' ms"
proof -
  have wf: "nq_wf q" and b: "nq_bytes q = le32 (of_nat (length msg)) @ msg @ concat (map frame ms)"
    using rel by (auto simp: nq_rel_def frame_def)
  note w = nq_wf_nat [OF wf]
  have used: "nq_used q = length msg + 4 + length (concat (map frame ms))"
    using nq_used_bytes [of q] unfolding b by simp
  have ne: "m_head q \<noteq> m_tail q" using used nq_used_0 [OF wf] by auto
  have four: "4 < length (m_buffer q)" using used nq_used_less [OF wf] w by simp
  define r :: u32 where "r = of_nat (length msg)"
  have ur: "unat r = length msg"
    using used nq_used_less [OF wf] w unfolding r_def by (intro unat_of_nat_small) linarith
  have parts: "ring_get (m_buffer q) (unat (m_head q)) (4 + (length msg + length (concat (map frame ms))))
      = le32 r @ msg @ concat (map frame ms)"
    using b by (simp add: nq_bytes_def used r_def ac_simps)
  have pre: "ring_get (m_buffer q) (unat (m_head q)) 4 = le32 r"
    and msg: "ring_get (m_buffer q) ((unat (m_head q) + 4) mod length (m_buffer q)) (length msg) = msg"
    using parts by (auto simp: ring_get_add)
  have D: "DeQueue q sz =
    (if unat sz < length msg + 4 then Some (-3, Some (r + 4), [], q)
     else Some (0, Some r, msg, pipe_read (drop_frame q (length msg))))"
    using DeQueue_eq [OF wf ne four _ size, of r] used by (simp add: pre ur msg)
  have "nq_rel (drop_frame q (length msg)) ms"
    using drop_frame_rel [OF wf, of "length msg"] used b by (simp add: nq_rel_def)
  with D show ?thesis by (simp add: Pop_def r_def nq_rel_frame add.commute)
qed

interpretation nq: message_queue nq_rel "\<lambda>m. length m + 4 < 2 ^ 32" nq_push nq_pop
proof unfold_locales
  fix q ms and m :: "u8 list"
  assume "nq_rel q ms" "length m + 4 < 2 ^ 32"
  from Push_rel [OF this] \<open>nq_rel q ms\<close>
  show "\<exists>b q'. nq_push q m = Some (b, q') \<and> nq_rel q' (if b then ms @ [m] else ms)"
    by (auto simp: nq_push_def split: if_splits)
next
  fix q assume "nq_rel q []"
  from Pop_nil_rel [OF this, of "m_buffer_len q"] obtain q' where
    "Pop True q (m_buffer_len q) = Some (-1, Some 0, [], q')" "nq_rel q' []" by blast
  then show "\<exists>q'. nq_pop q = Some (None, q') \<and> nq_rel q' []"
    by (intro exI [of _ q']) (simp add: nq_pop_def)
next
  fix q ms and m :: "u8 list"
  assume rel: "nq_rel q (m # ms)"
  then have "length m + 4 < unat (m_buffer_len q)"
    using nq_used_less [of q] nq_used_bytes [of q] by (simp add: nq_rel_def)
  with Pop_cons_rel [OF rel, of "m_buffer_len q"]
  show "\<exists>q'. nq_pop q = Some (Some m, q') \<and> nq_rel q' ms"
    by (auto simp: nq_pop_def)
qed

section \<open>Properties\<close>

lemma CNetQueue_rel:
  assumes "length junk = unat len" "0 < unat len" "unat len \<le> 2 ^ 31"
  shows "nq_rel (CNetQueue rlock wlock len cap junk) []"
  using assms by (auto simp: nq_rel_def nq_wf_def nq_bytes_def nq_used_def CNetQueue_def word_less_nat_alt)

text \<open>
  C1: Starting from the constructor, no sequence of \<open>Push\<close> and \<open>Pop\<close> calls (messages whose length
  plus prefix fits 32 bits) leaves the buffer, trips the assert or faults; the messages that were accepted
  are exactly those already delivered followed by those still held, in order and byte for byte.
\<close>

theorem nq_fifo:
  assumes "length junk = unat len" "0 < unat len" "unat len \<le> 2 ^ 31"
    and "\<And>m. QPush m \<in> set ops \<Longrightarrow> length m + 4 < 2 ^ 32"
  shows "\<exists>ins outs q' rest.
    queue_run nq_push nq_pop (CNetQueue rlock wlock len cap junk) ops = Some (ins, outs, q') \<and>
    nq_rel q' rest \<and> ins = outs @ rest"
  using nq.run_fifo [OF CNetQueue_rel [OF assms(1-3)] assms(4)] by auto

theorem nq_fifo_witness:
  "\<exists>ins outs q' rest.
    queue_run nq_push nq_pop (CNetQueue False True 16 65536 (replicate 16 0))
      [QPush [1, 2, 3], QPush [4, 5, 6, 7], QPop, QPush [8, 9], QPop, QPop, QPop] = Some (ins, outs, q') \<and>
    nq_rel q' rest \<and> ins = outs @ rest"
  by (rule nq_fifo) auto

text \<open>
  \<open>Push\<close> accepts a message exactly when its frame leaves at least one byte of the buffer free; then the
  message is appended to the contents and the counter of pushed messages grows, otherwise the call
  returns -1 and changes nothing.
\<close>

theorem Push_accepts:
  assumes "nq_rel q ms" "length msg + 4 < 2 ^ 32"
  shows "case Push True q msg (of_nat (length msg)) of
      None \<Rightarrow> False
    | Some (ret, q') \<Rightarrow>
        if length (concat (map frame ms)) + (length msg + 4) < unat (m_buffer_len q)
        then ret = 0 \<and> nq_rel q' (ms @ [msg]) \<and> m_enqueue_num q' = m_enqueue_num q + 1
        else ret = -1 \<and> q' = q"
proof -
  have wf: "nq_wf q" using assms(1) by (simp add: nq_rel_def)
  have n: "unat (of_nat (length msg) :: u32) = length msg" using assms(2) by (simp add: unat_of_nat_small)
  have u: "nq_used q = length (concat (map frame ms))"
    using assms(1) nq_used_bytes [of q] by (simp add: nq_rel_def)
  have e: "m_enqueue_num (pipe_write (put_frame q msg k)) = m_enqueue_num q" for k
    by (simp add: put_frame_def pipe_write_def)
  show ?thesis
    using Push_rel [OF assms] nq_used_less [OF wf]
    by (auto simp: Push_def EnQueue_eq [OF wf n assms(2)] u e split: if_splits)
qed

theorem Push_accepts_witness:
  "case Push True (CNetQueue False True 8 1 (replicate 8 0)) [7, 7, 7] (of_nat (length [7, 7, 7 :: u8])) of
      None \<Rightarrow> False
    | Some (ret, q') \<Rightarrow>
        if length (concat (map frame [])) + (length [7, 7, 7 :: u8] + 4)
             < unat (m_buffer_len (CNetQueue False True 8 1 (replicate 8 0)))
        then ret = 0 \<and> nq_rel q' ([] @ [[7, 7, 7]])
          \<and> m_enqueue_num q' = m_enqueue_num (CNetQueue False True 8 1 (replicate 8 0)) + 1
        else ret = -1 \<and> q' = CNetQueue False True 8 1 (replicate 8 0)"
  by (rule Push_accepts) (auto intro!: CNetQueue_rel)

text \<open>
  A \<open>Pop\<close> whose buffer cannot hold the oldest message with its prefix returns -3, reports that
  size through \<open>data_len\<close> and leaves the queue as it was; with a large enough buffer it delivers the
  message and the queue holds the rest.
\<close>

theorem Pop_oldest:
  assumes "nq_rel q (msg # ms)" "4 \<le> unat sz"
  shows "if unat sz < length msg + 4
    then Pop True q sz = Some (-3, Some (of_nat (length msg + 4)), [], q)
    else \<exists>q'. Pop True q sz = Some (0, Some (of_nat (length msg)), msg, q') \<and> nq_rel q' ms"
  by (rule Pop_cons_rel [OF assms])

definition nq_example :: net_queue where
  \<comment> \<open>eight bytes of buffer holding the message \<open>5 6\<close>, its length prefix split at the end\<close>
  "nq_example = \<lparr>m_buffer = [0, 0, 5, 6, 0, 0, 2, 0], m_buffer_len = 8, m_wlock = False, m_rlock = False,
     m_head = 6, m_tail = 4, m_dequeue_num = 0, m_enqueue_num = 1, m_pipe = 1, m_pipe_cap = 1\<rparr>"

lemma nq_example_rel: "nq_rel nq_example [[5, 6]]"
  by (simp add: nq_rel_def nq_wf_def nq_bytes_def nq_used_def ring_get_def frame_def le32_def
      nq_example_def upt_rec)

theorem Pop_oldest_witness:
  "if unat (5 :: u32) < length [5, 6 :: u8] + 4
    then Pop True nq_example 5 = Some (-3, Some (of_nat (length [5, 6 :: u8] + 4)), [], nq_example)
    else \<exists>q'. Pop True nq_example 5 = Some (0, Some (of_nat (length [5, 6 :: u8])), [5, 6], q') \<and> nq_rel q' []"
  by (rule Pop_oldest [OF nq_example_rel]) simp

lemma copy_too_long:
  assumes "length m < n"
  shows "(do { b \<leftarrow> mem_write m i x; d \<leftarrow> mem_read data 0 n; b \<leftarrow> mem_write b j d; Some (b, t) }) = None"
proof -
  have "mem_write b j d = None" if "mem_write m i x = Some b" "mem_read data 0 n = Some d" for b d
    using length_mem_write [OF that(1)] length_mem_read [OF that(2)] assms by (simp add: mem_write_def)
  then show ?thesis by (auto split: bind_split)
qed

lemma copy_split_too_long:
  assumes "length m < n"
  shows "(do { b \<leftarrow> mem_write m i x; l \<leftarrow> mem_read pre k e; b \<leftarrow> mem_write b 0 l;
      d \<leftarrow> mem_read data 0 n; b \<leftarrow> mem_write b j d; Some (b, t) }) = None"
proof -
  have "mem_write b' j d = None"
    if "mem_write m i x = Some b" "mem_write b 0 l = Some b'" "mem_read data 0 n = Some d" for b b' l d
    using length_mem_write [OF that(1)] length_mem_write [OF that(2)] length_mem_read [OF that(3)] assms by (simp add: mem_write_def)
  then show ?thesis by (auto split: bind_split)
qed

text \<open>
  The length check of \<open>EnQueue\<close> is done modulo \<open>2 ^ 32\<close>: a \<open>data_len\<close> within four of the
  \<open>uint32_t\<close> limit passes it as soon as four bytes are free, and the copy then always leaves the buffer
  (or the caller's data), for every queue.
\<close>

theorem EnQueue_length_overflow:
  assumes wf: "nq_wf q" and n: "2 ^ 32 - 4 \<le> unat n" and free: "4 \<le> unat (m_buffer_len q) - nq_used q"
  shows "EnQueue q data n = None"
proof -
  note w = nq_wf_nat [OF wf]
  have "unat n < 2 ^ LENGTH(32)" by (rule unsigned_less)
  then have total: "unat (n + 4) < 4"
    using n by (simp add: unat_word_ariths ring_mod)
  have tl: "unat (m_buffer_len q - m_tail q) = unat (m_buffer_len q) - unat (m_tail q)"
    using w by (subst unat_diff_word) (auto simp: word_le_nat_alt)
  have big: "length (m_buffer q) < unat n" using w n by simp
  have "EnQueue_copy q data n = None"
  proof (cases "m_buffer_len q - m_tail q \<ge> n + 4")
    case True
    then show ?thesis by (simp add: EnQueue_copy_def Let_def copy_too_long [OF big])
  next
    case False
    then have "\<not> 4 \<le> unat (m_buffer_len q - m_tail q)" using total by (simp add: word_le_nat_alt)
    then show ?thesis using False by (simp add: EnQueue_copy_def Let_def copy_split_too_long [OF big])
  qed
  then show ?thesis
    using total free unfolding EnQueue_def Let_def word_le_nat_alt free_len_nat [OF wf] by simp
qed

theorem EnQueue_length_overflow_witness:
  "EnQueue (CNetQueue False False 8 1 (replicate 8 0)) [] 4294967295 = None"
  by (rule EnQueue_length_overflow) (simp_all add: nq_wf_def nq_used_def CNetQueue_def)

end
