(* ===== verification/CString.thy ===== *)
theory CString
  imports Prelude
begin

text \<open>
  The parts of the C and C++ standard library that the text-processing code uses: \<open>std::string\<close> as a
  list of characters, \<open>find\<close> and \<open>substr\<close> with \<open>npos\<close> as \<open>None\<close>, the character classes
  of the C locale, \<open>atoi\<close> and decimal printing. \<open>substr\<close> with a position behind the end throws
  \<open>std::out_of_range\<close>, which is \<open>None\<close>.
\<close>

section \<open>Characters\<close>

definition uchar :: "char \<Rightarrow> nat" where
  "uchar c = of_char c"

definition schar :: "char \<Rightarrow> int" where
  \<comment> \<open>the value of a (signed) \<open>char\<close>\<close>
  "schar c = (if uchar c < 128 then int (uchar c) else int (uchar c) - 256)"

definition chr :: "nat \<Rightarrow> char" where
  \<comment> \<open>conversion of an integer to \<open>char\<close>: the low eight bits\<close>
  "chr n = char_of n"

lemma uchar_less [simp]: "uchar c < 256"
  by (simp add: uchar_def)

lemma chr_uchar [simp]: "chr (uchar c) = c"
  by (simp add: chr_def uchar_def)

lemma uchar_chr: "uchar (chr n) = n mod 256"
  by (simp add: chr_def uchar_def)

lemma uchar_inj [simp]: "uchar a = uchar b \<longleftrightarrow> a = b"
  by (metis chr_uchar)

definition c_isdigit :: "char \<Rightarrow> bool" where
  "c_isdigit c \<longleftrightarrow> 48 \<le> uchar c \<and> uchar c \<le> 57"

definition c_isupper :: "char \<Rightarrow> bool" where
  "c_isupper c \<longleftrightarrow> 65 \<le> uchar c \<and> uchar c \<le> 90"

definition c_islower :: "char \<Rightarrow> bool" where
  "c_islower c \<longleftrightarrow> 97 \<le> uchar c \<and> uchar c \<le> 122"

definition c_isalnum :: "char \<Rightarrow> bool" where
  "c_isalnum c \<longleftrightarrow> c_isdigit c \<or> c_isupper c \<or> c_islower c"

definition c_isspace :: "char \<Rightarrow> bool" where
  "c_isspace c \<longleftrightarrow> uchar c = 32 \<or> (9 \<le> uchar c \<and> uchar c \<le> 13)"

definition c_toupper :: "char \<Rightarrow> char" where
  "c_toupper c = (if c_islower c then chr (uchar c - 32) else c)"

section \<open>Strings\<close>

definition c_str :: "string \<Rightarrow> string" where
  \<comment> \<open>what a reader of the NUL-terminated \<open>s.c_str()\<close> sees\<close>
  "c_str s = takeWhile (\<lambda>c. uchar c \<noteq> 0) s"

fun find_sub :: "'a list \<Rightarrow> 'a list \<Rightarrow> nat option" where
  "find_sub pat [] = (if pat = [] then Some 0 else None)"
| "find_sub pat (x # xs) =
     (if take (length pat) (x # xs) = pat then Some 0 else map_option Suc (find_sub pat xs))"

definition str_find :: "'a list \<Rightarrow> 'a list \<Rightarrow> nat \<Rightarrow> nat option" where
  \<comment> \<open>\<open>s.find(pat, pos)\<close>\<close>
  "str_find s pat pos = (if pos \<le> length s then map_option ((+) pos) (find_sub pat (drop pos s)) else None)"

definition str_rfind :: "'a list \<Rightarrow> 'a list \<Rightarrow> nat option" where
  \<comment> \<open>\<open>s.rfind(pat)\<close>: the last occurrence\<close>
  "str_rfind s pat = map_option (\<lambda>i. length s - length pat - i) (find_sub (rev pat) (rev s))"

definition find_last_of :: "'a list \<Rightarrow> 'a list \<Rightarrow> nat option" where
  \<comment> \<open>\<open>s.find_last_of(set)\<close>\<close>
  "find_last_of s cs =
     (let k = length (takeWhile (\<lambda>c. c \<notin> set cs) (rev s)) in if k < length s then Some (length s - 1 - k) else None)"

definition substr :: "'a list \<Rightarrow> nat \<Rightarrow> nat \<Rightarrow> 'a list option" where
  "substr s pos n = (if pos \<le> length s then Some (take n (drop pos s)) else None)"

definition substr_from :: "'a list \<Rightarrow> nat \<Rightarrow> 'a list option" where
  "substr_from s pos = (if pos \<le> length s then Some (drop pos s) else None)"

lemma find_sub_nil [simp]: "find_sub [] s = Some 0"
  by (cases s) simp_all

lemma find_sub_SomeD:
  "find_sub pat s = Some i \<Longrightarrow> \<exists>a b. s = a @ pat @ b \<and> length a = i \<and> (\<forall>j < i. \<not> prefix pat (drop j s))"
proof (induction s arbitrary: i)
  case Nil
  then show ?case by (auto split: if_splits)
next
  case (Cons x xs)
  show ?case
  proof (cases "take (length pat) (x # xs) = pat")
    case True
    then have "i = 0" using Cons.prems by auto
    moreover have "x # xs = [] @ pat @ drop (length pat) (x # xs)"
      using True by (metis append_Nil append_take_drop_id)
    ultimately show ?thesis by blast
  next
    case False
    with Cons.prems obtain k where k: "find_sub pat xs = Some k" "i = Suc k" by auto
    from Cons.IH [OF k(1)] obtain a b where ab: "xs = a @ pat @ b" "length a = k"
      "\<forall>j < k. \<not> prefix pat (drop j xs)" by blast
    have "\<not> prefix pat (drop j (x # xs))" if "j < i" for j
      using that ab(3) k(2) False by (cases j) (auto simp: prefix_def)
    then show ?thesis
      using ab k(2) by (intro exI [of _ "x # a"] exI [of _ b]) auto
  qed
qed

lemma find_sub_NoneD: "find_sub pat s = None \<Longrightarrow> \<not> sublist pat s"
proof (induction s)
  case Nil
  then show ?case by (auto split: if_splits)
next
  case (Cons x xs)
  then have t: "take (length pat) (x # xs) \<noteq> pat" and "find_sub pat xs = None"
    by (auto split: if_splits)
  then have "\<not> sublist pat xs" using Cons.IH by blast
  moreover have "\<not> prefix pat (x # xs)" using t by (auto simp: prefix_def)
  ultimately show ?case by (simp add: sublist_Cons_right)
qed

lemma find_sub_Some_le: "find_sub pat s = Some i \<Longrightarrow> i + length pat \<le> length s"
  using find_sub_SomeD by fastforce

lemma find_sub_first:
  assumes "\<forall>j < length a. \<not> prefix pat (drop j (a @ pat @ b))"
  shows "find_sub pat (a @ pat @ b) = Some (length a)"
  using assms
proof (induction a)
  case Nil
  show ?case
  proof (cases "pat @ b")
    case (Cons y ys)
    then have "take (length pat) (y # ys) = pat" by (metis append_eq_conv_conj)
    with Cons show ?thesis by simp
  qed simp
next
  case (Cons x a)
  have "\<forall>j < length a. \<not> prefix pat (drop j (a @ pat @ b))"
  proof (intro allI impI)
    fix j assume "j < length a"
    then show "\<not> prefix pat (drop j (a @ pat @ b))" using Cons.prems [rule_format, of "Suc j"] by simp
  qed
  moreover have "\<not> prefix pat ((x # a) @ pat @ b)"
    using Cons.prems [rule_format, of 0] by simp
  then have "take (length pat) ((x # a) @ pat @ b) \<noteq> pat"
    by (metis take_is_prefix)
  ultimately show ?case using Cons.IH by simp
qed

lemma find_sub_char: "c \<notin> set a \<Longrightarrow> find_sub [c] (a @ c # b) = Some (length a)"
  by (induction a) auto

lemma find_sub_char_None: "find_sub [c] s = None \<longleftrightarrow> c \<notin> set s"
  by (induction s) auto

lemma find_sub_char_eq:
  "find_sub [c] s = (if c \<in> set s then Some (length (takeWhile (\<lambda>x. x \<noteq> c) s)) else None)"
  by (induction s) auto

lemma str_find_0 [simp]: "str_find s pat 0 = find_sub pat s"
  by (cases "find_sub pat s") (simp_all add: str_find_def)

section \<open>Numbers and text\<close>

definition digit_char :: "nat \<Rightarrow> char" where
  "digit_char d = chr (48 + d)"

fun show_nat :: "nat \<Rightarrow> string" where
  "show_nat n = (if n < 10 then [digit_char n] else show_nat (n div 10) @ [digit_char (n mod 10)])"

declare show_nat.simps [simp del]

definition show_int :: "int \<Rightarrow> string" where
  "show_int i = (if i < 0 then CHR ''-'' # show_nat (nat (- i)) else show_nat (nat i))"

definition digits_value :: "string \<Rightarrow> nat" where
  "digits_value s = foldl (\<lambda>v c. v * 10 + (uchar c - 48)) 0 s"

definition wrap32 :: "int \<Rightarrow> int" where
  \<comment> \<open>conversion to \<open>int\<close>\<close>
  "wrap32 i = (i + 2 ^ 31) mod 2 ^ 32 - 2 ^ 31"

definition clamp_long :: "int \<Rightarrow> int" where
  "clamp_long i = max (- (2 ^ 63)) (min (2 ^ 63 - 1) i)"

definition strtol10 :: "string \<Rightarrow> int" where
  "strtol10 str =
     (let s = dropWhile c_isspace (c_str str);
          neg = (s \<noteq> [] \<and> hd s = CHR ''-'');
          s' = (if s \<noteq> [] \<and> (hd s = CHR ''-'' \<or> hd s = CHR ''+'') then tl s else s);
          v = int (digits_value (takeWhile c_isdigit s'))
      in clamp_long (if neg then - v else v))"

definition c_atoi :: "string \<Rightarrow> int" where
  \<comment> \<open>\<open>atoi\<close> is \<open>(int) strtol(s, NULL, 10)\<close>\<close>
  "c_atoi s = wrap32 (strtol10 s)"

lemma uchar_digit_char: "d < 10 \<Longrightarrow> uchar (digit_char d) = 48 + d"
  by (simp add: digit_char_def uchar_chr)

lemma digits_value_snoc: "digits_value (s @ [c]) = digits_value s * 10 + (uchar c - 48)"
  by (simp add: digits_value_def)

lemma show_nat_digits: "list_all c_isdigit (show_nat n) \<and> show_nat n \<noteq> [] \<and> digits_value (show_nat n) = n"
proof (induction n rule: show_nat.induct)
  case (1 n)
  show ?case
  proof (cases "n < 10")
    case True
    then show ?thesis
      by (simp add: show_nat.simps [of n] c_isdigit_def uchar_digit_char digits_value_def)
  next
    case False
    with 1 have IH: "list_all c_isdigit (show_nat (n div 10))" "digits_value (show_nat (n div 10)) = n div 10"
      by auto
    have "n mod 10 < 10" by simp
    with False IH show ?thesis
      by (subst (1 2 3) show_nat.simps) (simp add: c_isdigit_def uchar_digit_char digits_value_snoc)
  qed
qed

lemma c_isdigit_not: "c_isdigit c \<Longrightarrow> \<not> c_isspace c \<and> c \<noteq> CHR ''-'' \<and> c \<noteq> CHR ''+'' \<and> uchar c \<noteq> 0"
  by (auto simp: c_isdigit_def c_isspace_def uchar_def)

lemma takeWhile_digits:
  assumes "list_all c_isdigit s" "t = [] \<or> \<not> c_isdigit (hd t)"
  shows "takeWhile c_isdigit (s @ t) = s"
  using assms by (induction s) (cases t; auto)+

lemma c_str_digits: "list_all c_isdigit s \<Longrightarrow> c_str s = s"
  by (induction s) (auto simp: c_str_def dest: c_isdigit_not)

lemma strtol10_show_int:
  assumes "- (2 ^ 63) \<le> i" "i < 2 ^ 63"
  shows "strtol10 (show_int i) = i"
proof -
  define n where "n = nat \<bar>i\<bar>"
  obtain d ds where ds: "show_nat n = d # ds" and dd: "list_all c_isdigit (d # ds)"
    and v: "digits_value (d # ds) = n"
    using show_nat_digits [of n] by (cases "show_nat n") auto
  have tw: "takeWhile c_isdigit (d # ds) = d # ds" "c_str (d # ds) = d # ds"
    using takeWhile_digits [OF dd, of "[]"] c_str_digits [OF dd] by auto
  have nd: "\<not> c_isspace d" "d \<noteq> CHR ''-''" "d \<noteq> CHR ''+''" using dd c_isdigit_not by auto
  show ?thesis
  proof (cases "i < 0")
    case True
    then have "show_int i = CHR ''-'' # d # ds" by (simp add: show_int_def n_def flip: ds)
    moreover have "\<not> c_isspace CHR ''-''" "c_str (CHR ''-'' # d # ds) = CHR ''-'' # d # ds"
      using tw(2) by (auto simp: c_isspace_def uchar_def c_str_def)
    ultimately show ?thesis
      using True assms tw v by (simp add: strtol10_def Let_def n_def clamp_long_def)
  next
    case False
    then have "show_int i = d # ds" by (simp add: show_int_def n_def flip: ds)
    then show ?thesis
      using False assms tw nd v by (simp add: strtol10_def Let_def n_def clamp_long_def)
  qed
qed

lemma wrap32_id: "- (2 ^ 31) \<le> i \<Longrightarrow> i < 2 ^ 31 \<Longrightarrow> wrap32 i = i"
  by (simp add: wrap32_def)

lemma c_atoi_show_int: "- (2 ^ 31) \<le> i \<Longrightarrow> i < 2 ^ 31 \<Longrightarrow> c_atoi (show_int i) = i"
  by (simp add: c_atoi_def strtol10_show_int wrap32_id)

section \<open>Ordered maps\<close>

text \<open>
  A \<open>std::map\<close> with keys of type \<open>std::string\<close> is the list of its entries in the order of the keys.
\<close>

fun str_less :: "string \<Rightarrow> string \<Rightarrow> bool" where
  \<comment> \<open>the order of \<open>std::string\<close>\<close>
  "str_less _ [] \<longleftrightarrow> False"
| "str_less [] (y # ys) \<longleftrightarrow> True"
| "str_less (x # xs) (y # ys) \<longleftrightarrow> uchar x < uchar y \<or> (x = y \<and> str_less xs ys)"

fun map_put :: "string \<Rightarrow> 'a \<Rightarrow> (string \<times> 'a) list \<Rightarrow> (string \<times> 'a) list" where
  \<comment> \<open>\<open>m[k] = v\<close> on a \<open>std::map\<close>\<close>
  "map_put k v [] = [(k, v)]"
| "map_put k v ((k', v') # m) =
     (if k = k' then (k, v) # m else if str_less k k' then (k, v) # (k', v') # m else (k', v') # map_put k v m)"

definition map_get :: "'a \<Rightarrow> string \<Rightarrow> (string \<times> 'a) list \<Rightarrow> 'a \<times> (string \<times> 'a) list" where
  \<comment> \<open>reading \<open>m[k]\<close>: a missing key is inserted with the default value\<close>
  "map_get def k m = (case map_of m k of Some v \<Rightarrow> (v, m) | None \<Rightarrow> (def, map_put k def m))"

lemma str_less_irrefl [simp]: "\<not> str_less s s"
  by (induction s) auto

lemma str_less_asym: "str_less s t \<Longrightarrow> \<not> str_less t s"
  by (induction s t rule: str_less.induct) auto

lemma str_less_trans: "str_less s t \<Longrightarrow> str_less t u \<Longrightarrow> str_less s u"
proof (induction s t arbitrary: u rule: str_less.induct)
  case (2 y ys)
  then show ?case by (cases u) auto
next
  case (3 x xs y ys)
  then show ?case by (cases u) auto
qed simp

lemma str_less_linear: "s = t \<or> str_less s t \<or> str_less t s"
proof (induction s t rule: str_less.induct)
  case (1 s)
  then show ?case by (cases s) auto
next
  case (3 x xs y ys)
  then show ?case using uchar_inj [of x y] by (cases "uchar x" "uchar y" rule: linorder_cases) auto
qed simp

lemma keys_put: "fst ` set (map_put k v m) = insert k (fst ` set m)"
proof (induction m)
  case (Cons x m)
  then show ?case by (cases x) (simp add: insert_commute)
qed simp

lemma map_put_sorted:
  "sorted_wrt str_less (map fst m) \<Longrightarrow>
    sorted_wrt str_less (map fst (map_put k v m)) \<and> map_of (map_put k v m) = (map_of m)(k \<mapsto> v)"
proof (induction m)
  case (Cons x m)
  obtain k' v' where x: "x = (k', v')" by (cases x)
  have s: "\<forall>y \<in> fst ` set m. str_less k' y" using Cons.prems x by auto
  consider "k = k'" | "str_less k k'" "k \<noteq> k'" | "str_less k' k" "k \<noteq> k'" using str_less_linear [of k k'] by blast
  then show ?case
  proof cases
    case 2
    then have "\<forall>y \<in> fst ` set m. str_less k y" using s str_less_trans by blast
    then show ?thesis using 2 Cons.prems x by (auto simp: map_of_eq_None_iff fun_upd_twist)
  next
    case 3
    then show ?thesis using Cons s x keys_put [of k v m]
      by (auto simp: fun_upd_twist dest: str_less_asym simp flip: set_map)
  qed (use Cons.prems x in auto)
qed simp

definition put_all :: "(string \<times> 'a) list \<Rightarrow> (string \<times> 'a) list \<Rightarrow> (string \<times> 'a) list" where
  "put_all ms m = foldl (\<lambda>m (k, v). map_put k v m) m ms"

lemma map_put_last: "\<forall>k' \<in> fst ` set m. str_less k' k \<Longrightarrow> map_put k v m = m @ [(k, v)]"
  by (induction m) (auto dest: str_less_asym)

lemma put_all_sorted:
  "sorted_wrt str_less (map fst (m @ ms)) \<Longrightarrow> put_all ms m = m @ ms"
proof (induction ms arbitrary: m)
  case (Cons x ms)
  obtain k v where x: "x = (k, v)" by (cases x)
  have "map_put k v m = m @ [(k, v)]"
    using Cons.prems x by (intro map_put_last) (auto simp: sorted_wrt_append)
  moreover have "put_all ms (m @ [(k, v)]) = (m @ [(k, v)]) @ ms"
    using Cons.prems x by (intro Cons.IH) simp
  ultimately show ?case by (simp add: put_all_def x)
qed (simp add: put_all_def)

section \<open>Text files\<close>

fun file_lines :: "string \<Rightarrow> string list \<times> string" where
  \<comment> \<open>what \<open>getline\<close> finds in a file: the terminated lines, and the rest behind the last line feed\<close>
  "file_lines [] = ([], [])"
| "file_lines (c # s) =
     (case file_lines s of (ls, r) \<Rightarrow>
       if c = CHR 0x0A then ([] # ls, r)
       else (case ls of [] \<Rightarrow> ([], c # r) | l # ls \<Rightarrow> ((c # l) # ls, r)))"

lemma file_lines_line:
  "CHR 0x0A \<notin> set l \<Longrightarrow> file_lines (l @ CHR 0x0A # s) = (l # fst (file_lines s), snd (file_lines s))"
  by (induction l) (auto split: prod.splits)

lemma file_lines_rest: "CHR 0x0A \<notin> set l \<Longrightarrow> file_lines l = ([], l)"
  by (induction l) auto

lemma file_lines_concat:
  "\<forall>l \<in> set ls. CHR 0x0A \<notin> set l \<Longrightarrow> CHR 0x0A \<notin> set r \<Longrightarrow> file_lines (concat (map (\<lambda>l. l @ [CHR 0x0A]) ls) @ r) = (ls, r)"
  by (induction ls) (simp_all add: file_lines_line file_lines_rest)

end
