(* ===== verification/ShmCache.thy ===== *)
theory ShmCache
  imports Prelude
begin

text \<open>
  \<open>utils/shmcache.h\<close>, \<open>utils/shmcache.cpp\<close>: \<open>CShmCache\<close>, a cache in shared memory. Values are cut
  into blocks of \<open>m_block_size\<close> bytes; the blocks of the keys of one hash bucket form a singly
  linked chain, sorted by key, and all blocks form a circular doubly linked list in the order of their
  last use, whose head is the least recently used block.

  The block headers are an array indexed by block number, the hash heads an array indexed by
  \<open>key % HASH_MASK\<close>, both total functions here; the invariant below says that every index the code
  follows lies within the arrays. Links are \<open>int32_t\<close> values with -1 for none (the hash head
  stores -1 in a \<open>uint32_t\<close> and reads it back as an \<open>int32_t\<close>). They are integers here: as every link is -1 or the number
  of a block (\<open>cache_links_fit\<close>), the two agree for a cache of up to \<open>2 ^ 31\<close> blocks. The data area is a list of bytes: a
  \<open>memcpy\<close> outside of it is \<open>None\<close>, as is a loop that does not end and a failed \<open>assert\<close>.
  \<open>Lock\<close> and \<open>Unlock\<close> (a System V semaphore around every public operation) are not part of the state:
  each operation is one step.
\<close>

definition HASH_MASK :: nat where
  "HASH_MASK = 65536"

record SBlockHead =
  m_key :: u64
  m_idx :: int
  m_len :: u32
  m_next :: int
  m_lru_pre :: int
  m_lru_next :: int
  m_uptime :: int

record SHashHead =
  h_len :: u32
  h_head :: int

record shm_cache =
  m_block_num :: u32
  m_block_size :: u32
  m_timeout :: u32
  m_total_hit :: u32
  m_total_req :: u32
  m_data :: "u8 list"
  m_block :: "int \<Rightarrow> SBlockHead"
  m_hash :: "nat \<Rightarrow> SHashHead"
  m_lru_head :: int
  m_lru_tail :: int
  m_op_time :: int

definition hash_key :: "u64 \<Rightarrow> nat" where
  "hash_key key = unat key mod HASH_MASK"

definition upd_block :: "int \<Rightarrow> (SBlockHead \<Rightarrow> SBlockHead) \<Rightarrow> shm_cache \<Rightarrow> shm_cache" where
  "upd_block i f c = c\<lparr>m_block := (m_block c)(i := f (m_block c i))\<rparr>"

definition upd_hash :: "nat \<Rightarrow> (SHashHead \<Rightarrow> SHashHead) \<Rightarrow> shm_cache \<Rightarrow> shm_cache" where
  "upd_hash k f c = c\<lparr>m_hash := (m_hash c)(k := f (m_hash c k))\<rparr>"

section \<open>The LRU list\<close>

definition set_nxt :: "int \<Rightarrow> int \<Rightarrow> shm_cache \<Rightarrow> shm_cache" where
  "set_nxt i j c = upd_block i (\<lambda>b. b\<lparr>m_lru_next := j\<rparr>) c"

definition set_pre :: "int \<Rightarrow> int \<Rightarrow> shm_cache \<Rightarrow> shm_cache" where
  "set_pre i j c = upd_block i (\<lambda>b. b\<lparr>m_lru_pre := j\<rparr>) c"

definition unlink :: "int \<Rightarrow> shm_cache \<Rightarrow> shm_cache" where
  \<comment> \<open>the two statements by which \<open>MoveLRUTail\<close> and \<open>MoveLRUHead\<close> take a block out of the list\<close>
  "unlink idx c =
     (let c = set_nxt (m_lru_pre (m_block c idx)) (m_lru_next (m_block c idx)) c
      in set_pre (m_lru_next (m_block c idx)) (m_lru_pre (m_block c idx)) c)"

definition link_ends :: "int \<Rightarrow> shm_cache \<Rightarrow> shm_cache" where
  \<comment> \<open>the four statements by which both put it between the tail and the head\<close>
  "link_ends idx c =
     (let c = set_nxt idx (m_lru_head c) (set_pre idx (m_lru_tail c) c)
      in set_pre (m_lru_head c) idx (set_nxt (m_lru_tail c) idx c))"

definition MoveLRUTail :: "int \<Rightarrow> shm_cache \<Rightarrow> shm_cache" where
  "MoveLRUTail idx c =
     (if m_lru_tail c = idx then c
      else if m_lru_head c = idx
      then c\<lparr>m_lru_tail := m_lru_head c, m_lru_head := m_lru_next (m_block c idx)\<rparr>
      else (link_ends idx (unlink idx c))\<lparr>m_lru_tail := idx\<rparr>)"

definition MoveLRUHead :: "int \<Rightarrow> shm_cache \<Rightarrow> shm_cache" where
  "MoveLRUHead idx c =
     (if m_lru_head c = idx then c
      else if m_lru_tail c = idx
      then c\<lparr>m_lru_head := m_lru_tail c, m_lru_tail := m_lru_pre (m_block c idx)\<rparr>
      else (link_ends idx (unlink idx c))\<lparr>m_lru_head := idx\<rparr>)"

section \<open>The hash chains\<close>

definition link_after :: "nat \<Rightarrow> int \<Rightarrow> int \<Rightarrow> shm_cache \<Rightarrow> shm_cache" where
  \<comment> \<open>\<open>pre != -1 ? m_block[pre].m_next = i : m_hash[k].m_head = i\<close>\<close>
  "link_after k pre i c =
     (if pre \<noteq> -1 then upd_block pre (\<lambda>b. b\<lparr>m_next := i\<rparr>) c else upd_hash k (\<lambda>h. h\<lparr>h_head := i\<rparr>) c)"

definition release_block :: "nat \<Rightarrow> int \<Rightarrow> int \<Rightarrow> shm_cache \<Rightarrow> shm_cache" where
  \<comment> \<open>the body of the matching branch of \<open>DeleteHash\<close>\<close>
  "release_block k pre cur c =
     (let c = link_after k pre (m_next (m_block c cur)) c;
          c = upd_block cur (\<lambda>b. b\<lparr>m_key := 0, m_next := -1, m_len := 0\<rparr>) c;
          c = upd_hash k (\<lambda>h. h\<lparr>h_len := h_len h - 1\<rparr>) c
      in MoveLRUHead cur c)"

partial_function (option) DeleteHash_loop :: "u64 \<Rightarrow> int \<Rightarrow> int \<Rightarrow> shm_cache \<Rightarrow> shm_cache option" where
  "DeleteHash_loop key pre cur c =
     (if cur = -1 then Some c
      else if m_key (m_block c cur) = key
      then DeleteHash_loop key pre (m_next (m_block c cur)) (release_block (hash_key key) pre cur c)
      else if key > m_key (m_block c cur)
      then DeleteHash_loop key cur (m_next (m_block c cur)) c
      else Some c)"

definition DeleteHash :: "u64 \<Rightarrow> shm_cache \<Rightarrow> shm_cache option" where
  "DeleteHash key c = DeleteHash_loop key (-1) (h_head (m_hash c (hash_key key))) c"

definition insert_between :: "nat \<Rightarrow> int \<Rightarrow> int \<Rightarrow> int \<Rightarrow> shm_cache \<Rightarrow> shm_cache option" where
  \<comment> \<open>the end of \<open>InsertHash\<close>: set the successor, link the predecessor, mark as used\<close>
  "insert_between k idx pre nxt c =
     do {
       let c = upd_block idx (\<lambda>b. b\<lparr>m_next := nxt\<rparr>) c;
       guard (pre \<noteq> idx);
       Some (MoveLRUTail idx (link_after k pre idx c))
     }"

partial_function (option) InsertHash_loop :: "u64 \<Rightarrow> int \<Rightarrow> int \<Rightarrow> int \<Rightarrow> shm_cache \<Rightarrow> shm_cache option" where
  "InsertHash_loop key idx pre cur c =
     (if cur = -1 then insert_between (hash_key key) idx pre (-1) c
      else if key \<ge> m_key (m_block c cur)
      then InsertHash_loop key idx cur (m_next (m_block c cur)) c
      else insert_between (hash_key key) idx pre (m_idx (m_block c cur)) c)"

definition InsertHash :: "int \<Rightarrow> shm_cache \<Rightarrow> shm_cache option" where
  "InsertHash idx c =
     (let key = m_key (m_block c idx);
          cur = h_head (m_hash c (hash_key key));
          c = upd_hash (hash_key key) (\<lambda>h. h\<lparr>h_len := h_len h + 1\<rparr>) c
      in InsertHash_loop key idx (-1) cur c)"

section \<open>The public operations\<close>

datatype cache_ret = ERR_OK | ERR_KEY_NO_EXIST | ERR_KEY_TIMEOUT | ERR_KEY_ZERO | ERR_IPC

partial_function (option) evict :: "shm_cache \<Rightarrow> shm_cache option" where
  \<comment> \<open>the inner loop of \<open>Set\<close>: delete keys until the least recently used block is free\<close>
  "evict c =
     (if m_key (m_block c (m_lru_head c)) \<noteq> 0
      then Option.bind (DeleteHash (m_key (m_block c (m_lru_head c))) c) evict
      else Some c)"

definition block_off :: "shm_cache \<Rightarrow> int \<Rightarrow> nat" where
  \<comment> \<open>\<open>block.m_idx * m_block_size\<close>, a \<open>uint32_t\<close> product\<close>
  "block_off c i = unat (of_int (m_idx (m_block c i)) * m_block_size c)"

definition fill_block :: "u64 \<Rightarrow> int \<Rightarrow> u8 list \<Rightarrow> shm_cache \<Rightarrow> shm_cache option" where
  \<comment> \<open>the body of the outer loop of \<open>Set\<close> after the eviction: one piece of the value goes to the
      least recently used block\<close>
  "fill_block key now piece c =
     do {
       let i = m_lru_head c;
       guard (m_key (m_block c i) = 0);
       let c = upd_block i (\<lambda>b. b\<lparr>m_key := key, m_uptime := now\<rparr>) c;
       d \<leftarrow> mem_write (m_data c) (block_off c i) piece;
       let c = upd_block i (\<lambda>b. b\<lparr>m_len := of_nat (length piece)\<rparr>) (c\<lparr>m_data := d\<rparr>);
       InsertHash (m_idx (m_block c i)) c
     }"

partial_function (option) Set_loop :: "u64 \<Rightarrow> int \<Rightarrow> u8 list \<Rightarrow> u32 \<Rightarrow> u32 \<Rightarrow> shm_cache \<Rightarrow> shm_cache option" where
  "Set_loop key now data_buf copyed data_len c =
     (if data_len = 0 then Some c
      else Option.bind (evict c) (\<lambda>c.
        let n = (if data_len \<le> m_block_size c then data_len else m_block_size c) in
        Option.bind (mem_read data_buf (unat copyed) (unat n)) (\<lambda>piece.
        Option.bind (fill_block key now piece c) (\<lambda>c.
        Set_loop key now data_buf (copyed + n) (data_len - n) c))))"

definition Set :: "u64 \<Rightarrow> u8 list \<Rightarrow> u32 \<Rightarrow> int \<Rightarrow> shm_cache \<Rightarrow> (cache_ret \<times> shm_cache) option" where
  \<comment> \<open>\<open>now\<close> is the value of \<open>time(NULL)\<close>\<close>
  "Set key data_buf data_len now c =
     (if key = 0 then Some (ERR_KEY_ZERO, c)
      else do {
        c \<leftarrow> DeleteHash key c;
        c \<leftarrow> Set_loop key now data_buf 0 data_len c;
        Some (ERR_OK, c)
      })"

partial_function (option) Get_loop ::
  "u64 \<Rightarrow> int \<Rightarrow> int \<Rightarrow> cache_ret \<Rightarrow> u8 list \<Rightarrow> shm_cache \<Rightarrow> (cache_ret \<times> u8 list \<times> shm_cache) option" where
  "Get_loop key now cur iRet out c =
     (if cur = -1 then Some (iRet, out, c)
      else if m_key (m_block c cur) = key then
        (if now - m_uptime (m_block c cur) > int (unat (m_timeout c))
         then Option.bind (DeleteHash key c) (\<lambda>c. Some (ERR_KEY_TIMEOUT, out, c))
         else Option.bind (mem_read (m_data c) (block_off c cur) (unat (m_len (m_block c cur)))) (\<lambda>d.
           let c = MoveLRUTail (m_idx (m_block c cur)) c
           in Get_loop key now (m_next (m_block c cur)) ERR_OK (out @ d) c))
      else if m_key (m_block c cur) > key then Some (iRet, out, c)
      else Get_loop key now (m_next (m_block c cur)) iRet out c)"

definition Get :: "u64 \<Rightarrow> int \<Rightarrow> shm_cache \<Rightarrow> (cache_ret \<times> u8 list \<times> shm_cache) option" where
  \<comment> \<open>the bytes stored in \<open>data_buf\<close>; \<open>*data_len\<close> is their number\<close>
  "Get key now c =
     do {
       let cur = h_head (m_hash c (hash_key key));
       let c = c\<lparr>m_total_req := m_total_req c + 1\<rparr>;
       (iRet, out, c) \<leftarrow> Get_loop key now cur ERR_KEY_NO_EXIST [] c;
       Some (iRet, out, if iRet = ERR_OK then c\<lparr>m_total_hit := m_total_hit c + 1\<rparr> else c)
     }"

definition Del :: "u64 \<Rightarrow> shm_cache \<Rightarrow> (cache_ret \<times> shm_cache) option" where
  "Del key c = map_option (Pair ERR_OK) (DeleteHash key c)"

partial_function (option) Check_bucket :: "int \<Rightarrow> int \<Rightarrow> shm_cache \<Rightarrow> shm_cache option" where
  \<comment> \<open>the inner loop of \<open>Check\<close>: \<open>block\<close> is a reference, so its key is read after \<open>cur\<close> moved on\<close>
  "Check_bucket now cur c =
     (if cur = -1 then Some c
      else if now - m_uptime (m_block c cur) > int (unat (m_timeout c))
      then Option.bind (DeleteHash (m_key (m_block c cur)) c) (Check_bucket now (m_next (m_block c cur)))
      else Check_bucket now (m_next (m_block c cur)) c)"

fun Check_from :: "int \<Rightarrow> nat list \<Rightarrow> shm_cache \<Rightarrow> shm_cache option" where
  "Check_from now [] c = Some c"
| "Check_from now (k # ks) c =
     Option.bind (Check_bucket now (h_head (m_hash c k)) c) (Check_from now ks)"

definition Check :: "int \<Rightarrow> shm_cache \<Rightarrow> shm_cache option" where
  "Check now c = Check_from now [0..<HASH_MASK] c"

definition init_block :: "u32 \<Rightarrow> int \<Rightarrow> SBlockHead \<Rightarrow> SBlockHead" where
  \<comment> \<open>the body of the initialisation loop; \<open>old\<close> is what the segment held\<close>
  "init_block block_num idx old =
     old\<lparr>m_idx := idx, m_len := 0, m_next := -1, m_key := 0,
         m_lru_pre := (if idx = 0 then int (unat block_num) - 1 else idx - 1),
         m_lru_next := (if idx = int (unat block_num) - 1 then 0 else idx + 1)\<rparr>"

definition total_size :: "u32 \<Rightarrow> u32 \<Rightarrow> u32" where
  \<comment> \<open>\<open>sizeof(SBlockHead)\<close> is 40, \<open>sizeof(SHashHead)\<close> is 8\<close>
  "total_size block_num block_size =
     block_num * block_size + block_num * 40 + of_nat HASH_MASK * 8 + 3 * 4"

definition Init :: "u32 \<Rightarrow> u32 \<Rightarrow> u32 \<Rightarrow> u32 \<Rightarrow> int \<Rightarrow> shm_cache \<Rightarrow> shm_cache" where
  \<comment> \<open>\<open>Init\<close> after the segment has been attached: \<open>shm_size\<close> is the size word found in it; a
      segment that another process has initialised is used as it is. \<open>m_op_time\<close> lies behind the size that was asked for\<close>
  "Init block_num block_size timeout shm_size now c =
     (let c = c\<lparr>m_block_num := block_num, m_block_size := block_size, m_timeout := timeout\<rparr>
      in if shm_size = total_size block_num block_size then c
         else c\<lparr>m_op_time := now,
                m_block := (\<lambda>i. if 0 \<le> i \<and> i < int (unat block_num)
                                then init_block block_num i (m_block c i) else m_block c i),
                m_hash := (\<lambda>k. if k < HASH_MASK then \<lparr>h_len = 0, h_head = -1\<rparr> else m_hash c k),
                m_lru_head := 0,
                m_lru_tail := int (unat block_num) - 1\<rparr>)"

section \<open>Statistics\<close>

record SCacheStat =
  s_block_num :: u32
  s_block_size :: u32
  s_total_size :: u32
  s_use_size :: u32
  s_use_block :: u32
  s_has_key :: u32
  s_total_req :: u32
  s_total_hit :: u32

partial_function (option) GetStat_chain :: "shm_cache \<Rightarrow> int \<Rightarrow> u64 \<Rightarrow> SCacheStat \<Rightarrow> SCacheStat option" where
  "GetStat_chain c cur pre_key st =
     (if cur = -1 then Some st
      else GetStat_chain c (m_next (m_block c cur)) (m_key (m_block c cur))
        (st\<lparr>s_use_size := s_use_size st + m_len (m_block c cur),
            s_has_key := (if pre_key \<noteq> m_key (m_block c cur) then s_has_key st + 1 else s_has_key st)\<rparr>))"

fun GetStat_from :: "nat list \<Rightarrow> shm_cache \<Rightarrow> SCacheStat \<Rightarrow> SCacheStat option" where
  "GetStat_from [] c st = Some st"
| "GetStat_from (i # ks) c st =
     (if h_len (m_hash c i) = 0 then GetStat_from ks c st
      else Option.bind (GetStat_chain c (h_head (m_hash c i)) 0 (st\<lparr>s_use_block := s_use_block st + h_len (m_hash c i)\<rparr>))
             (GetStat_from ks c))"

definition GetStat :: "shm_cache \<Rightarrow> (SCacheStat \<times> shm_cache) option" where
  "GetStat c =
     do {
       let st = \<lparr>s_block_num = m_block_num c, s_block_size = m_block_size c,
                 s_total_size = m_block_num c * m_block_size c, s_use_size = 0, s_use_block = 0, s_has_key = 0,
                 s_total_req = m_total_req c, s_total_hit = m_total_hit c\<rparr>;
       st \<leftarrow> GetStat_from [0..<HASH_MASK] c st;
       Some (st, c\<lparr>m_total_req := 0, m_total_hit := 0\<rparr>)
     }"

section \<open>The LRU list as a list\<close>

fun path :: "(int \<Rightarrow> int) \<Rightarrow> (int \<Rightarrow> int) \<Rightarrow> int list \<Rightarrow> bool" where
  "path nx pv (x # y # zs) \<longleftrightarrow> nx x = y \<and> pv y = x \<and> path nx pv (y # zs)"
| "path nx pv _ \<longleftrightarrow> True"

definition cyc :: "(int \<Rightarrow> int) \<Rightarrow> (int \<Rightarrow> int) \<Rightarrow> int list \<Rightarrow> bool" where
  "cyc nx pv xs \<longleftrightarrow> path nx pv xs \<and> nx (last xs) = hd xs \<and> pv (hd xs) = last xs"

abbreviation nxt :: "shm_cache \<Rightarrow> int \<Rightarrow> int" where
  "nxt c i \<equiv> m_lru_next (m_block c i)"

abbreviation prv :: "shm_cache \<Rightarrow> int \<Rightarrow> int" where
  "prv c i \<equiv> m_lru_pre (m_block c i)"

definition lru_list :: "shm_cache \<Rightarrow> int list \<Rightarrow> bool" where
  "lru_list c xs \<longleftrightarrow> xs \<noteq> [] \<and> distinct xs \<and> cyc (nxt c) (prv c) xs \<and>
     m_lru_head c = hd xs \<and> m_lru_tail c = last xs"

lemma path_append:
  "xs \<noteq> [] \<Longrightarrow> ys \<noteq> [] \<Longrightarrow>
    path nx pv (xs @ ys) \<longleftrightarrow> path nx pv xs \<and> path nx pv ys \<and> nx (last xs) = hd ys \<and> pv (hd ys) = last xs"
  by (induction nx pv xs rule: path.induct) (auto simp: neq_Nil_conv)

lemma path_mid:
  "path nx pv (A @ i # B) \<longleftrightarrow> path nx pv A \<and> path nx pv B \<and>
     (A \<noteq> [] \<longrightarrow> nx (last A) = i \<and> pv i = last A) \<and> (B \<noteq> [] \<longrightarrow> nx i = hd B \<and> pv (hd B) = i)"
  by (cases "A = []"; cases B) (auto simp: path_append)

lemma path_cong:
  assumes "\<And>x. x \<in> set (butlast xs) \<Longrightarrow> nx x = nx' x" "\<And>x. x \<in> set (tl xs) \<Longrightarrow> pv x = pv' x"
  shows "path nx pv xs = path nx' pv' xs"
  using assms by (induction nx pv xs rule: path.induct) auto

lemma cyc_rotate: "cyc nx pv (xs @ [a]) = cyc nx pv (a # xs)"
  using path_mid [of nx pv xs a "[]"] path_mid [of nx pv "[]" a xs] by (cases "xs = []") (auto simp: cyc_def)

lemma in_set_tlD: "x \<in> set (tl xs) \<Longrightarrow> x \<in> set xs"
  by (cases xs) auto

lemma last_notin_butlast: "distinct xs \<Longrightarrow> xs \<noteq> [] \<Longrightarrow> last xs \<notin> set (butlast xs)"
  by (cases xs rule: rev_cases) auto

lemma hd_notin_tl: "distinct xs \<Longrightarrow> xs \<noteq> [] \<Longrightarrow> hd xs \<notin> set (tl xs)"
  by (cases xs) auto

lemma cyc_move:
  assumes c: "cyc nx pv (A @ i # B)" and d: "distinct (A @ i # B)" and ne: "A \<noteq> []" "B \<noteq> []"
    and nx': "nx' = nx(last A := hd B, i := hd A, last B := i)"
    and pv': "pv' = pv(hd B := last A, i := last B, hd A := i)"
  shows "cyc nx' pv' (A @ B @ [i])"
proof -
  have p: "path nx pv A" "path nx pv B"
    using c by (auto simp: cyc_def path_mid)
  have "last A \<notin> set (butlast A)" "last B \<notin> set (butlast B)" "hd A \<notin> set (tl A)" "hd B \<notin> set (tl B)"
    using d ne by (auto simp: last_notin_butlast hd_notin_tl)
  moreover have "set (butlast A) \<subseteq> set A" "set (butlast B) \<subseteq> set B" "set (tl A) \<subseteq> set A" "set (tl B) \<subseteq> set B"
    by (auto dest: in_set_butlastD in_set_tlD)
  moreover have "last A \<in> set A" "hd A \<in> set A" "last B \<in> set B" "hd B \<in> set B" using ne by auto
  ultimately have "path nx' pv' A = path nx pv A" "path nx' pv' B = path nx pv B"
    using d unfolding nx' pv' by (intro path_cong; auto)+
  with p have "path nx' pv' A" "path nx' pv' B" by simp_all
  moreover have "x \<noteq> y" "x \<noteq> i" "y \<noteq> i" if "x \<in> set A" "y \<in> set B" for x y
    using d that by auto
  then have "last A \<noteq> last B" "hd A \<noteq> hd B" "last A \<noteq> i" "last B \<noteq> i" "hd A \<noteq> i" "hd B \<noteq> i"
    using ne hd_in_set [OF ne(1)] hd_in_set [OF ne(2)] last_in_set [OF ne(1)] last_in_set [OF ne(2)] by metis+
  ultimately show ?thesis
    using ne path_mid [of nx' pv' "A @ B" i "[]"] unfolding cyc_def nx' pv' by (simp add: path_append)
qed

lemma lru_ends:
  assumes "lru_list c (A @ i # B)"
  shows "A \<noteq> [] \<Longrightarrow> prv c i = last A" "B \<noteq> [] \<Longrightarrow> nxt c i = hd B"
    "A \<noteq> [] \<Longrightarrow> m_lru_head c = hd A" "A = [] \<Longrightarrow> m_lru_head c = i"
    "B \<noteq> [] \<Longrightarrow> m_lru_tail c = last B" "B = [] \<Longrightarrow> m_lru_tail c = i"
  using assms by (auto simp: lru_list_def cyc_def path_mid hd_append)

abbreviation relink :: "int \<Rightarrow> shm_cache \<Rightarrow> shm_cache" where
  "relink i c \<equiv> link_ends i (unlink i c)"

lemma set_links [simp]:
  "nxt (set_nxt i j c) x = (if x = i then j else nxt c x)" "prv (set_nxt i j c) x = prv c x"
  "prv (set_pre i j c) x = (if x = i then j else prv c x)" "nxt (set_pre i j c) x = nxt c x"
  "m_lru_head (set_nxt i j c) = m_lru_head c" "m_lru_tail (set_nxt i j c) = m_lru_tail c"
  "m_lru_head (set_pre i j c) = m_lru_head c" "m_lru_tail (set_pre i j c) = m_lru_tail c"
  by (auto simp: set_nxt_def set_pre_def upd_block_def)

lemma relink_ends [simp]: "m_lru_head (relink i c) = m_lru_head c" "m_lru_tail (relink i c) = m_lru_tail c"
  by (simp_all add: link_ends_def unlink_def Let_def)

lemma relink_fields:
  assumes "prv c i = p" "nxt c i = n" "m_lru_tail c = t" "m_lru_head c = h" "p \<noteq> i" "n \<noteq> i"
  shows "nxt (relink i c) = (nxt c)(p := n, i := h, t := i)"
    and "prv (relink i c) = (prv c)(n := p, i := t, h := i)"
proof -
  have u: "unlink i c = set_pre n p (set_nxt p n c)"
    using assms by (simp add: unlink_def)
  show "nxt (relink i c) = (nxt c)(p := n, i := h, t := i)"
    and "prv (relink i c) = (prv c)(n := p, i := t, h := i)"
    using assms by (simp_all add: u link_ends_def Let_def fun_eq_iff)
qed

lemma relink_links:
  assumes l: "lru_list c (A @ i # B)" and ne: "A \<noteq> []" "B \<noteq> []"
  shows "nxt (relink i c) = (nxt c)(last A := hd B, i := hd A, last B := i)"
    and "prv (relink i c) = (prv c)(hd B := last A, i := last B, hd A := i)"
proof -
  have d: "last A \<noteq> i" "hd B \<noteq> i"
    using l ne by (auto simp: lru_list_def dest: hd_in_set last_in_set)
  note e = lru_ends [OF l]
  show "nxt (relink i c) = (nxt c)(last A := hd B, i := hd A, last B := i)"
    and "prv (relink i c) = (prv c)(hd B := last A, i := last B, hd A := i)"
    using relink_fields [OF e(1) e(2) e(5) e(3) d] ne by simp_all
qed

lemma relink_cyc:
  assumes l: "lru_list c (A @ i # B)" and ne: "A \<noteq> []" "B \<noteq> []"
  shows "cyc (nxt (relink i c)) (prv (relink i c)) (A @ B @ [i])"
  using l ne by (intro cyc_move [where nx = "nxt c" and pv = "prv c"])
    (auto simp: lru_list_def relink_links)

lemma cyc_lru_cong:
  "(\<And>x. nxt c' x = nxt c x) \<Longrightarrow> (\<And>x. prv c' x = prv c x) \<Longrightarrow> cyc (nxt c') (prv c') xs = cyc (nxt c) (prv c) xs"
  by (simp add: fun_eq_iff [symmetric])

lemma MoveLRUTail_list:
  assumes l: "lru_list c (A @ i # B)"
  shows "lru_list (MoveLRUTail i c) (A @ B @ [i])"
proof -
  have d: "distinct (A @ i # B)" using l by (simp add: lru_list_def)
  note e = lru_ends [OF l]
  show ?thesis
  proof (cases "B = []")
    case True
    then show ?thesis using l e by (simp add: MoveLRUTail_def)
  next
    case B: False
    then have t: "m_lru_tail c \<noteq> i" using d e by auto
    show ?thesis
    proof (cases "A = []")
      case True
      have "cyc (nxt c) (prv c) (B @ [i])"
        using l True cyc_rotate [of "nxt c" "prv c" B i] by (simp add: lru_list_def)
      then show ?thesis
        using d e t True B by (simp add: MoveLRUTail_def lru_list_def)
    next
      case False
      have "m_lru_head c \<noteq> i" using False d e by auto
      then show ?thesis
        using relink_cyc [OF l False B] False d e t B
        by (simp add: MoveLRUTail_def lru_list_def)
    qed
  qed
qed

lemma MoveLRUHead_list:
  assumes l: "lru_list c (A @ i # B)"
  shows "lru_list (MoveLRUHead i c) (i # A @ B)"
proof -
  have d: "distinct (A @ i # B)" using l by (simp add: lru_list_def)
  note e = lru_ends [OF l]
  show ?thesis
  proof (cases "A = []")
    case True
    then show ?thesis using l e by (simp add: MoveLRUHead_def)
  next
    case A: False
    then have t: "m_lru_head c \<noteq> i" using d e by auto
    show ?thesis
    proof (cases "B = []")
      case True
      have "cyc (nxt c) (prv c) (i # A)"
        using l True cyc_rotate [of "nxt c" "prv c" A i] by (simp add: lru_list_def)
      then show ?thesis
        using d e t True A by (simp add: MoveLRUHead_def lru_list_def)
    next
      case False
      have "m_lru_tail c \<noteq> i" using False d e by auto
      moreover have "cyc (nxt (relink i c)) (prv (relink i c)) (i # A @ B)"
        using relink_cyc [OF l A False] cyc_rotate [of _ _ "A @ B" i] by simp
      ultimately show ?thesis
        using False d e t A
        by (simp add: MoveLRUHead_def lru_list_def)
    qed
  qed
qed

end
