(* ===== verification/MemFile.thy ===== *)
theory MemFile
  imports CString
begin

text \<open>
  \<open>utils/memfile.h\<close>, \<open>utils/memfile.cpp\<close>: \<open>MemFile\<close>, a file in memory made of a chain of blocks of
  \<open>BLOCKSIZE\<close> bytes. The blocks live in a store, a list indexed by the address \<open>new\<close> returned (blocks
  are never freed while the file is in use, so a new block goes to the end); \<open>next\<close> is the address
  of the successor or \<open>None\<close> for \<open>NULL\<close>. \<open>size_t\<close> differences and products wrap at \<open>2 ^ 64\<close>,
  which is written out. An access outside of a block or through \<open>NULL\<close> is \<open>None\<close>.
\<close>

definition BLOCKSIZE :: nat where
  "BLOCKSIZE = 32768"

lemma BLOCKSIZE_pos [simp]: "0 < BLOCKSIZE" "BLOCKSIZE \<noteq> 0"
  by (simp_all add: BLOCKSIZE_def)

record block_t =
  b_next :: "nat option"
  b_data :: "u8 list"

record mem_file =
  m_heap :: "block_t list"
  m_base :: nat
  m_current_read :: "nat option"
  m_current_write :: nat
  m_current_write_nr :: int
  m_read_ptr :: nat
  m_write_ptr :: nat
  m_b_read_caused_eof :: bool

definition new_block :: block_t where
  \<comment> \<open>the bytes of a new block are not initialised; no operation on a sound file returns them\<close>
  "new_block = \<lparr>b_next = None, b_data = replicate BLOCKSIZE 0\<rparr>"

definition MemFile_new :: mem_file where
  "MemFile_new = \<lparr>m_heap = [new_block], m_base = 0, m_current_read = Some 0, m_current_write = 0,
     m_current_write_nr = 0, m_read_ptr = 0, m_write_ptr = 0, m_b_read_caused_eof = False\<rparr>"

definition ResetRead :: "mem_file \<Rightarrow> mem_file" where
  "ResetRead f = f\<lparr>m_read_ptr := 0, m_current_read := Some (m_base f)\<rparr>"

definition ResetWrite :: "mem_file \<Rightarrow> mem_file" where
  "ResetWrite f = f\<lparr>m_write_ptr := 0, m_current_write := m_base f, m_current_write_nr := 0\<rparr>"

definition Size :: "mem_file \<Rightarrow> nat" where
  "Size f = m_write_ptr f"

definition Eof :: "mem_file \<Rightarrow> bool" where
  "Eof f = m_b_read_caused_eof f"

section \<open>Writing\<close>

definition append_block :: "mem_file \<Rightarrow> mem_file" where
  \<comment> \<open>\<open>block_t *next = new block_t; m_current_write->next = next; ...\<close>\<close>
  "append_block f = f\<lparr>
     m_heap := (m_heap f)[m_current_write f := (m_heap f ! m_current_write f)\<lparr>b_next := Some (length (m_heap f))\<rparr>]
               @ [new_block],
     m_current_write := length (m_heap f), m_current_write_nr := m_current_write_nr f + 1\<rparr>"

definition advance_write :: "mem_file \<Rightarrow> mem_file" where
  "advance_write f =
     (case b_next (m_heap f ! m_current_write f) of
        Some n \<Rightarrow> f\<lparr>m_current_write := n, m_current_write_nr := m_current_write_nr f + 1\<rparr>
      | None \<Rightarrow> append_block f)"

definition store :: "mem_file \<Rightarrow> nat \<Rightarrow> u8 list \<Rightarrow> mem_file option" where
  \<comment> \<open>\<open>memcpy(m_current_write->data + off, ...); m_write_ptr += n\<close>\<close>
  "store f off xs = do {
     d \<leftarrow> mem_write (b_data (m_heap f ! m_current_write f)) off xs;
     Some (f\<lparr>m_heap := (m_heap f)[m_current_write f := (m_heap f ! m_current_write f)\<lparr>b_data := d\<rparr>],
             m_write_ptr := m_write_ptr f + length xs\<rparr>)
   }"

function Fwrite_loop :: "u8 list \<Rightarrow> nat \<Rightarrow> nat \<Rightarrow> mem_file \<Rightarrow> mem_file option" where
  "Fwrite_loop ptr sz1 sz2 f =
     (if sz2 > BLOCKSIZE then do {
        xs \<leftarrow> mem_read ptr sz1 BLOCKSIZE;
        f \<leftarrow> store (advance_write f) 0 xs;
        Fwrite_loop ptr (sz1 + BLOCKSIZE) (sz2 - BLOCKSIZE) f
      } else do {
        xs \<leftarrow> mem_read ptr sz1 sz2;
        store (advance_write f) 0 xs
      })"
  by auto
termination by (relation "measure (\<lambda>(_, _, sz2, _). sz2)") (auto simp: BLOCKSIZE_def)

declare Fwrite_loop.simps [simp del]

definition Fwrite :: "u8 list \<Rightarrow> nat \<Rightarrow> nat \<Rightarrow> mem_file \<Rightarrow> (nat \<times> mem_file) option" where
  "Fwrite ptr width nmemb f =
     (let p = m_write_ptr f mod BLOCKSIZE;
          i = wrap32 (int (m_write_ptr f));
          nr = (if i < 0 then - ((- i) div int BLOCKSIZE) else i div int BLOCKSIZE);
          sz = (width * nmemb) mod 2 ^ 64;
          f = (if m_current_write_nr f < nr then append_block f else f)
      in if p + sz \<le> BLOCKSIZE
         then do { xs \<leftarrow> mem_read ptr 0 sz; f \<leftarrow> store f p xs; Some (sz, f) }
         else do {
           let sz1 = BLOCKSIZE - p;
           xs \<leftarrow> mem_read ptr 0 sz1;
           f \<leftarrow> store f p xs;
           f \<leftarrow> Fwrite_loop ptr sz1 (sz - sz1) f;
           Some (sz, f)
         })"

definition Fprintf :: "u8 list \<Rightarrow> mem_file \<Rightarrow> mem_file option" where
  \<comment> \<open>the argument is the text \<open>vsnprintf\<close> formats, cut to the size of its buffer\<close>
  "Fprintf text f =
     (let tmp = takeWhile (\<lambda>c. c \<noteq> 0) (take (BLOCKSIZE - 1) text)
      in map_option snd (Fwrite tmp 1 (length tmp) f))"

section \<open>Reading\<close>

definition fetch :: "mem_file \<Rightarrow> nat \<Rightarrow> nat \<Rightarrow> (u8 list \<times> mem_file) option" where
  \<comment> \<open>\<open>memcpy(..., m_current_read->data + off, n); m_read_ptr += n\<close>\<close>
  "fetch f off n = do {
     r \<leftarrow> m_current_read f;
     xs \<leftarrow> mem_read (b_data (m_heap f ! r)) off n;
     Some (xs, f\<lparr>m_read_ptr := m_read_ptr f + n\<rparr>)
   }"

definition advance_read :: "mem_file \<Rightarrow> mem_file option option" where
  \<comment> \<open>\<open>None\<close> is a fault, \<open>Some None\<close> says that there is no next block\<close>
  "advance_read f = do {
     r \<leftarrow> m_current_read f;
     Some (map_option (\<lambda>n. f\<lparr>m_current_read := Some n\<rparr>) (b_next (m_heap f ! r)))
   }"

function Fread_loop :: "nat \<Rightarrow> nat \<Rightarrow> u8 list \<Rightarrow> mem_file \<Rightarrow> (u8 list \<times> mem_file) option" where
  "Fread_loop sz1 sz2 out f =
     (if sz2 > BLOCKSIZE then
        (case advance_read f of
           None \<Rightarrow> None
         | Some None \<Rightarrow> Some (out, f)
         | Some (Some f) \<Rightarrow> do {
             (xs, f) \<leftarrow> fetch f 0 BLOCKSIZE;
             Fread_loop (sz1 + BLOCKSIZE) (sz2 - BLOCKSIZE) (out @ xs) f
           })
      else
        (case advance_read f of
           None \<Rightarrow> None
         | Some None \<Rightarrow> Some (out, f)
         | Some (Some f) \<Rightarrow> do { (xs, f) \<leftarrow> fetch f 0 sz2; Some (out @ xs, f) }))"
  by auto
termination by (relation "measure (\<lambda>(_, sz2, _, _). sz2)") (auto simp: BLOCKSIZE_def)

declare Fread_loop.simps [simp del]

definition Fread :: "nat \<Rightarrow> nat \<Rightarrow> mem_file \<Rightarrow> (u8 list \<times> mem_file) option" where
  \<comment> \<open>the bytes stored at \<open>ptr\<close>; the returned size is their number\<close>
  "Fread width nmemb f =
     (let p = m_read_ptr f mod BLOCKSIZE;
          sz = (width * nmemb) mod 2 ^ 64;
          available = (m_write_ptr f + 2 ^ 64 - m_read_ptr f) mod 2 ^ 64;
          f = (if sz > available then f\<lparr>m_b_read_caused_eof := True\<rparr> else f);
          sz = (if sz > available then available else sz)
      in if sz = 0 then Some ([], f)
         else if p + sz < BLOCKSIZE then fetch f p sz
         else do {
           let sz1 = BLOCKSIZE - p;
           (xs, f) \<leftarrow> fetch f p sz1;
           Fread_loop sz1 (sz - sz1) xs f
         })"

partial_function (option) Fgets_loop :: "int \<Rightarrow> u8 list \<Rightarrow> mem_file \<Rightarrow> (u8 list \<times> mem_file) option" where
  "Fgets_loop lim s f =
     (if int (length s) < lim - 1 \<and> \<not> Eof f
      then Option.bind (Fread 1 1 f) (\<lambda>(c, f).
        if c \<noteq> [] then (if hd c = 10 then Some (s, f) else Fgets_loop lim (s @ c) f)
        else Fgets_loop lim s f)
      else Some (s, f))"

definition Fgets :: "int \<Rightarrow> mem_file \<Rightarrow> (u8 list \<times> mem_file) option" where
  \<comment> \<open>the characters before the NUL stored in \<open>s\<close>\<close>
  "Fgets lim f = Fgets_loop lim [] f"

section \<open>Loading and saving\<close>

function Load_loop :: "u8 list \<Rightarrow> mem_file \<Rightarrow> mem_file option" where
  \<comment> \<open>the file on disk is read in pieces of \<open>BLOCKSIZE\<close> bytes\<close>
  "Load_loop disk f =
     (let slask = take BLOCKSIZE disk
      in if slask = [] then Some f
         else Option.bind (Fwrite slask 1 (length slask) f) (\<lambda>(_, f). Load_loop (drop BLOCKSIZE disk) f))"
  by auto
termination by (relation "measure (\<lambda>(disk, _). length disk)") (auto simp: BLOCKSIZE_def)

declare Load_loop.simps [simp del]

definition Load :: "u8 list option \<Rightarrow> mem_file \<Rightarrow> (bool \<times> mem_file) option" where
  \<comment> \<open>the argument is the content of the file \<open>path\<close>, \<open>None\<close> if it cannot be opened\<close>
  "Load disk f =
     (let f = ResetWrite f
      in case disk of
           None \<Rightarrow> Some (False, f)
         | Some d \<Rightarrow> map_option (Pair True)
             (Load_loop d (f\<lparr>m_current_read := Some (m_base f), m_current_write := m_base f\<rparr>)))"

definition MemFile_path :: "u8 list option \<Rightarrow> mem_file option" where
  "MemFile_path disk = map_option snd (Load disk (MemFile_new\<lparr>m_current_read := None\<rparr>))"

partial_function (option) Save_loop :: "u8 list \<Rightarrow> mem_file \<Rightarrow> (u8 list \<times> mem_file) option" where
  "Save_loop disk f =
     Option.bind (Fread 1 BLOCKSIZE f) (\<lambda>(xs, f). if xs = [] then Some (disk, f) else Save_loop (disk @ xs) f)"

definition Save :: "bool \<Rightarrow> mem_file \<Rightarrow> (u8 list option \<times> mem_file) option" where
  \<comment> \<open>whether the file could be opened; the bytes written to it\<close>
  "Save opened f = (if opened then map_option (map_prod Some id) (Save_loop [] (ResetRead f)) else Some (None, f))"

section \<open>The chain and its content\<close>

definition flat :: "mem_file \<Rightarrow> nat list \<Rightarrow> u8 list" where
  "flat f cs = concat (map (\<lambda>a. b_data (m_heap f ! a)) cs)"

definition chain_ok :: "mem_file \<Rightarrow> nat list \<Rightarrow> bool" where
  "chain_ok f cs \<longleftrightarrow> cs \<noteq> [] \<and> cs ! 0 = m_base f \<and> distinct cs \<and>
     (\<forall>j < length cs. cs ! j < length (m_heap f) \<and> length (b_data (m_heap f ! (cs ! j))) = BLOCKSIZE \<and>
        b_next (m_heap f ! (cs ! j)) = (if Suc j < length cs then Some (cs ! Suc j) else None))"

definition file_ok :: "mem_file \<Rightarrow> nat list \<Rightarrow> u8 list \<Rightarrow> bool" where
  \<comment> \<open>the file holds the bytes \<open>s\<close> in the chain \<open>cs\<close>\<close>
  "file_ok f cs s \<longleftrightarrow> chain_ok f cs \<and> (\<exists>n < length cs. m_current_write_nr f = int n \<and> m_current_write f = cs ! n \<and>
       n * BLOCKSIZE \<le> m_write_ptr f \<and> m_write_ptr f \<le> Suc n * BLOCKSIZE) \<and>
     s = take (m_write_ptr f) (flat f cs) \<and> m_write_ptr f < 2 ^ 31"

definition reader_ok :: "mem_file \<Rightarrow> nat list \<Rightarrow> bool" where
  "reader_ok f cs \<longleftrightarrow> m_read_ptr f \<le> m_write_ptr f \<and>
     (m_read_ptr f < m_write_ptr f \<longrightarrow> m_current_read f = Some (cs ! (m_read_ptr f div BLOCKSIZE)))"

definition reader_sync :: "mem_file \<Rightarrow> nat list \<Rightarrow> bool" where
  \<comment> \<open>the reader also stands in the block that the next byte will be written to\<close>
  "reader_sync f cs \<longleftrightarrow> m_read_ptr f \<le> m_write_ptr f \<and>
     int (m_read_ptr f div BLOCKSIZE) \<le> m_current_write_nr f \<and>
     m_current_read f = Some (cs ! (m_read_ptr f div BLOCKSIZE))"

lemma length_flat: "chain_ok f cs \<Longrightarrow> length (flat f cs) = length cs * BLOCKSIZE"
proof -
  assume "chain_ok f cs"
  then have "map (length \<circ> (\<lambda>a. b_data (m_heap f ! a))) cs = replicate (length cs) BLOCKSIZE"
    by (intro nth_equalityI) (auto simp: chain_ok_def)
  then show ?thesis by (simp add: flat_def length_concat sum_list_replicate o_def)
qed

lemma concat_block:
  assumes "\<forall>b \<in> set bs. length b = B" "n < length bs"
  shows "take (n * B) (concat bs) = concat (take n bs)" "drop (n * B) (concat bs) = concat (drop n bs)"
    and "drop (n * B) (concat bs) = bs ! n @ drop (Suc n * B) (concat bs)"
proof -
  have g: "take (n * B) (concat bs) = concat (take n bs) \<and> drop (n * B) (concat bs) = concat (drop n bs)"
    if "\<forall>b \<in> set bs. length b = B" for n and bs :: "'b list list"
    using that
  proof (induction n arbitrary: bs)
    case (Suc n)
    show ?case
    proof (cases bs)
      case (Cons b bs')
      then have "length b = B" using Suc.prems by simp
      moreover have "take (n * B) (concat bs') = concat (take n bs') \<and> drop (n * B) (concat bs') = concat (drop n bs')"
        using Suc.IH Suc.prems Cons by simp
      ultimately show ?thesis using Cons by (simp add: take_append drop_append)
    qed simp
  qed simp
  show "take (n * B) (concat bs) = concat (take n bs)" "drop (n * B) (concat bs) = concat (drop n bs)"
    using g assms by auto
  have "drop (n * B) (concat bs) = concat (drop n bs)" "drop (Suc n * B) (concat bs) = concat (drop (Suc n) bs)"
    using g [of bs n] g [of bs "Suc n"] assms by auto
  then show "drop (n * B) (concat bs) = bs ! n @ drop (Suc n * B) (concat bs)"
    using assms(2) by (simp add: Cons_nth_drop_Suc [symmetric])
qed

lemma flat_block:
  assumes "chain_ok f cs" "n < length cs" "off + k \<le> BLOCKSIZE"
  shows "take k (drop off (b_data (m_heap f ! (cs ! n)))) = take k (drop (n * BLOCKSIZE + off) (flat f cs))"
proof -
  let ?bs = "map (\<lambda>a. b_data (m_heap f ! a)) cs"
  have "\<forall>b \<in> set ?bs. length b = BLOCKSIZE"
    using assms(1) by (auto simp: chain_ok_def in_set_conv_nth)
  moreover from this have l: "length (?bs ! n) = BLOCKSIZE" using assms(2) nth_mem [of n ?bs] by auto
  ultimately have "drop (n * BLOCKSIZE) (flat f cs) = ?bs ! n @ drop (Suc n * BLOCKSIZE) (flat f cs)"
    using concat_block(3) [of ?bs BLOCKSIZE n] assms(2) by (simp add: flat_def)
  then have "drop (n * BLOCKSIZE + off) (flat f cs) = drop off (?bs ! n @ drop (Suc n * BLOCKSIZE) (flat f cs))"
    by (metis add.commute drop_drop)
  then show ?thesis
    using assms l by (simp add: take_append)
qed

lemma flat_update:
  assumes c: "chain_ok f cs" and n: "n < length cs" and k: "off + length xs \<le> BLOCKSIZE"
    and d: "d = take off (b_data (m_heap f ! (cs ! n))) @ xs @ drop (off + length xs) (b_data (m_heap f ! (cs ! n)))"
    and h: "m_heap f' = (m_heap f)[cs ! n := (m_heap f ! (cs ! n))\<lparr>b_data := d\<rparr>]"
  shows "flat f' cs = take (n * BLOCKSIZE + off) (flat f cs) @ xs @ drop (n * BLOCKSIZE + off + length xs) (flat f cs)"
proof -
  let ?bs = "map (\<lambda>a. b_data (m_heap f ! a)) cs"
  have dist: "distinct cs" and le: "cs ! n < length (m_heap f)" using c n by (auto simp: chain_ok_def)
  have b: "\<forall>b \<in> set ?bs. length b = BLOCKSIZE"
    using c by (auto simp: chain_ok_def in_set_conv_nth)
  have l: "length (b_data (m_heap f ! (cs ! n))) = BLOCKSIZE" using c n by (simp add: chain_ok_def)
  have "map (\<lambda>a. b_data (m_heap f' ! a)) cs = ?bs[n := d]"
    using n dist le by (intro nth_equalityI) (auto simp: h nth_list_update nth_eq_iff_index_eq)
  then have "flat f' cs = concat (take n ?bs) @ d @ concat (drop (Suc n) ?bs)"
    using n by (simp add: flat_def upd_conv_take_nth_drop)
  also have "concat (take n ?bs) = take (n * BLOCKSIZE) (flat f cs)"
    using concat_block(1) [OF b, of n] n by (simp add: flat_def)
  also have "concat (drop (Suc n) ?bs) = drop (Suc n * BLOCKSIZE) (flat f cs)"
  proof (cases "Suc n < length cs")
    case True
    then show ?thesis using concat_block(2) [OF b, of "Suc n"] by (simp add: flat_def)
  next
    case False
    then have "length cs = Suc n" using n by simp
    then show ?thesis using length_flat [OF c] by simp
  qed
  also have "take (n * BLOCKSIZE) (flat f cs) @ d @ drop (Suc n * BLOCKSIZE) (flat f cs) =
    take (n * BLOCKSIZE + off) (flat f cs) @ xs @ drop (n * BLOCKSIZE + off + length xs) (flat f cs)"
  proof -
    have e: "drop (n * BLOCKSIZE) (flat f cs) = b_data (m_heap f ! (cs ! n)) @ drop (Suc n * BLOCKSIZE) (flat f cs)"
      using concat_block(3) [OF b, of n] n by (simp add: flat_def)
    have "take (n * BLOCKSIZE + off) (flat f cs) =
        take (n * BLOCKSIZE) (flat f cs) @ take off (b_data (m_heap f ! (cs ! n)))"
      unfolding take_add e using k l by simp
    moreover have "drop (n * BLOCKSIZE + off + length xs) (flat f cs) =
        drop (off + length xs) (b_data (m_heap f ! (cs ! n))) @ drop (Suc n * BLOCKSIZE) (flat f cs)"
    proof -
      have "drop (n * BLOCKSIZE + off + length xs) (flat f cs) = drop (off + length xs) (drop (n * BLOCKSIZE) (flat f cs))"
        by (simp add: ac_simps)
      then show ?thesis unfolding e using k l by simp
    qed
    ultimately show ?thesis by (simp add: d)
  qed
  finally show ?thesis .
qed

section \<open>Writing appends\<close>

definition write_step :: "mem_file \<Rightarrow> nat list \<Rightarrow> mem_file \<Rightarrow> nat list \<Rightarrow> bool" where
  \<comment> \<open>what a writer leaves to the reader\<close>
  "write_step f cs f' cs' \<longleftrightarrow> m_read_ptr f' = m_read_ptr f \<and> m_current_read f' = m_current_read f \<and>
     m_b_read_caused_eof f' = m_b_read_caused_eof f \<and> m_base f' = m_base f \<and>
     m_current_write_nr f \<le> m_current_write_nr f' \<and> m_write_ptr f \<le> m_write_ptr f' \<and>
     (\<forall>j. int j \<le> m_current_write_nr f \<longrightarrow> cs' ! j = cs ! j)"

lemma write_step_refl [simp]: "write_step f cs f cs"
  by (simp add: write_step_def)

lemma write_step_trans: "write_step f cs f' cs' \<Longrightarrow> write_step f' cs' f'' cs'' \<Longrightarrow> write_step f cs f'' cs''"
  by (auto simp: write_step_def)

lemma write_step_sync: "write_step f cs f' cs' \<Longrightarrow> reader_sync f cs \<Longrightarrow> reader_sync f' cs'"
  by (auto simp: write_step_def reader_sync_def)

lemma chain_ok_take:
  assumes "chain_ok f cs" "n < length cs" "w \<le> Suc n * BLOCKSIZE"
    "\<And>j. j \<le> n \<Longrightarrow> cs' ! j = cs ! j" "n < length cs'"
    "\<And>j. j \<le> n \<Longrightarrow> b_data (m_heap f' ! (cs ! j)) = b_data (m_heap f ! (cs ! j))"
  shows "take w (flat f' cs') = take w (flat f cs)"
proof -
  have t: "take (Suc n) cs' = take (Suc n) cs"
    using assms(2,4,5) by (intro nth_equalityI) auto
  have "\<forall>a \<in> set (take (Suc n) cs). b_data (m_heap f' ! a) = b_data (m_heap f ! a)"
    using assms(2,6) by (auto simp: in_set_conv_nth)
  then have m: "flat f' (take (Suc n) cs') = flat f (take (Suc n) cs)"
    using t by (simp add: flat_def cong: map_cong)
  have "map (length \<circ> (\<lambda>a. b_data (m_heap f ! a))) (take (Suc n) cs) = replicate (Suc n) BLOCKSIZE"
    using assms(1,2) by (intro nth_equalityI) (auto simp: chain_ok_def simp del: replicate_Suc)
  then have l: "length (flat f (take (Suc n) cs)) = Suc n * BLOCKSIZE"
    by (simp only: flat_def length_concat map_map sum_list_replicate of_nat_id)
  have "flat f cs = flat f (take (Suc n) cs) @ flat f (drop (Suc n) cs)"
    by (metis append_take_drop_id concat_append flat_def map_append)
  moreover have "flat f' cs' = flat f' (take (Suc n) cs') @ flat f' (drop (Suc n) cs')"
    by (metis append_take_drop_id concat_append flat_def map_append)
  ultimately show ?thesis using m l assms(3) by simp
qed

lemma append_block_ok:
  assumes f: "file_ok f cs s" and n: "m_current_write_nr f = int n" and w: "m_write_ptr f = Suc n * BLOCKSIZE"
  defines "cs' \<equiv> take (Suc n) cs @ [length (m_heap f)]"
  shows "file_ok (append_block f) cs' s" "write_step f cs (append_block f) cs'"
    "m_write_ptr (append_block f) = m_write_ptr f" "m_current_write_nr (append_block f) = int (Suc n)"
proof -
  have c: "chain_ok f cs" and nl: "n < length cs" and cw: "m_current_write f = cs ! n"
    using f n by (auto simp: file_ok_def)
  have lt: "cs ! j < length (m_heap f)" if "j < length cs" for j
    using c that by (simp add: chain_ok_def)
  have dist: "distinct cs" using c by (simp add: chain_ok_def)
  have nth: "cs' ! j = (if j \<le> n then cs ! j else length (m_heap f))" if "j \<le> Suc n" for j
    using that nl by (auto simp: cs'_def nth_append min_def)
  have len: "length cs' = Suc (Suc n)" using nl by (simp add: cs'_def)
  have h: "m_heap (append_block f) ! a =
      (if a = cs ! n then (m_heap f ! a)\<lparr>b_next := Some (length (m_heap f))\<rparr> else m_heap f ! a)"
    if "a < length (m_heap f)" for a
    using that by (simp add: append_block_def cw nth_append)
  have h': "m_heap (append_block f) ! length (m_heap f) = new_block"
    "length (m_heap (append_block f)) = Suc (length (m_heap f))"
    by (simp_all add: append_block_def nth_append)
  have "set (take (Suc n) cs) \<subseteq> {..<length (m_heap f)}"
    using lt by (auto simp: in_set_conv_nth)
  then have "distinct cs'" using dist by (auto simp: cs'_def)
  moreover have "cs' ! j < length (m_heap (append_block f)) \<and>
      length (b_data (m_heap (append_block f) ! (cs' ! j))) = BLOCKSIZE \<and>
      b_next (m_heap (append_block f) ! (cs' ! j)) = (if Suc j < length cs' then Some (cs' ! Suc j) else None)"
    if "j < length cs'" for j
  proof (cases "j \<le> n")
    case True
    then have j: "cs' ! j = cs ! j" "cs ! j < length (m_heap f)" "j < length cs"
      using nth lt nl by auto
    have e: "cs ! j = cs ! n \<longleftrightarrow> j = n" using dist True nl by (simp add: nth_eq_iff_index_eq)
    have "cs' ! Suc j = (if j = n then length (m_heap f) else cs ! Suc j)"
      using nth [of "Suc j"] True by auto
    moreover have "length (b_data (m_heap f ! (cs ! j))) = BLOCKSIZE"
      "j < n \<Longrightarrow> b_next (m_heap f ! (cs ! j)) = Some (cs ! Suc j)"
      using c j(3) nl by (auto simp: chain_ok_def)
    ultimately show ?thesis
      using True j len h [OF j(2)] h'(2) e by auto
  next
    case False
    then have "j = Suc n" using that len by simp
    then show ?thesis using nth [of "Suc n"] len h' by (simp add: new_block_def)
  qed
  moreover have "cs' ! 0 = m_base (append_block f)"
    using c nth [of 0] by (simp add: chain_ok_def append_block_def)
  ultimately have c': "chain_ok (append_block f) cs'"
    using len by (auto simp: chain_ok_def)
  have "b_data (m_heap (append_block f) ! (cs ! j)) = b_data (m_heap f ! (cs ! j))" if "j \<le> n" for j
    using h [OF lt [of j]] that nl by simp
  then have "take (m_write_ptr f) (flat (append_block f) cs') = take (m_write_ptr f) (flat f cs)"
    using nth len nl w by (intro chain_ok_take [OF c nl]) auto
  then show "file_ok (append_block f) cs' s"
    using c' f n w nth [of "Suc n"] len unfolding file_ok_def
    by (intro conjI exI [of _ "Suc n"]) (simp_all add: append_block_def)
  show "write_step f cs (append_block f) cs'"
    using n nth by (auto simp: write_step_def append_block_def)
qed (use n in \<open>simp_all add: append_block_def\<close>)

lemma advance_write_ok:
  assumes f: "file_ok f cs s" and n: "m_current_write_nr f = int n" and w: "m_write_ptr f = Suc n * BLOCKSIZE"
  obtains cs' where "file_ok (advance_write f) cs' s" "write_step f cs (advance_write f) cs'"
    "m_write_ptr (advance_write f) = m_write_ptr f" "m_current_write_nr (advance_write f) = int (Suc n)"
proof (cases "Suc n < length cs")
  case False
  then have "b_next (m_heap f ! m_current_write f) = None"
    using f n by (auto simp: file_ok_def chain_ok_def)
  then have "advance_write f = append_block f" by (simp add: advance_write_def)
  then show ?thesis using append_block_ok [OF f n w] that by metis
next
  case True
  then have "b_next (m_heap f ! m_current_write f) = Some (cs ! Suc n)"
    using f n by (auto simp: file_ok_def chain_ok_def)
  then have a: "advance_write f = f\<lparr>m_current_write := cs ! Suc n, m_current_write_nr := int (Suc n)\<rparr>"
    using n by (simp add: advance_write_def)
  have "flat (advance_write f) cs = flat f cs" "chain_ok (advance_write f) cs = chain_ok f cs"
    by (simp_all add: a flat_def chain_ok_def)
  then have "file_ok (advance_write f) cs s"
    using f True w unfolding file_ok_def by (intro conjI exI [of _ "Suc n"]) (auto simp: a)
  moreover have "write_step f cs (advance_write f) cs" using n by (simp add: a write_step_def)
  ultimately show ?thesis using that by (simp add: a)
qed

lemma store_ok:
  assumes f: "file_ok f cs s" and n: "m_current_write_nr f = int n" and w: "m_write_ptr f = n * BLOCKSIZE + off"
    and k: "off + length xs \<le> BLOCKSIZE" and l: "m_write_ptr f + length xs < 2 ^ 31"
  obtains f' where "store f off xs = Some f'" "file_ok f' cs (s @ xs)" "write_step f cs f' cs"
    "m_write_ptr f' = m_write_ptr f + length xs" "m_current_write_nr f' = int n"
proof -
  have c: "chain_ok f cs" and nl: "n < length cs" and cw: "m_current_write f = cs ! n"
    and s: "s = take (m_write_ptr f) (flat f cs)"
    using f n by (auto simp: file_ok_def)
  let ?b = "m_heap f ! (cs ! n)"
  have lb: "length (b_data ?b) = BLOCKSIZE" and le: "cs ! n < length (m_heap f)"
    using c nl by (auto simp: chain_ok_def)
  define d where "d = take off (b_data ?b) @ xs @ drop (off + length xs) (b_data ?b)"
  define f' where "f' = f\<lparr>m_heap := (m_heap f)[cs ! n := ?b\<lparr>b_data := d\<rparr>], m_write_ptr := m_write_ptr f + length xs\<rparr>"
  have st: "store f off xs = Some f'"
    using k lb by (simp add: store_def cw mem_write_in d_def f'_def)
  have fl: "flat f' cs = take (m_write_ptr f) (flat f cs) @ xs @ drop (m_write_ptr f + length xs) (flat f cs)"
    using flat_update [OF c nl k d_def, of f'] w by (simp add: f'_def)
  have ld: "length d = BLOCKSIZE" using k lb by (simp add: d_def)
  have c': "chain_ok f' cs"
    using c le ld by (auto simp: chain_ok_def f'_def nth_list_update)
  have "m_write_ptr f \<le> length (flat f cs)"
    using length_flat [OF c] nl f n mult_le_mono1 [of "Suc n" "length cs" BLOCKSIZE]
    by (auto simp: file_ok_def)
  then have "s @ xs = take (m_write_ptr f') (flat f' cs)"
    unfolding fl s by (simp add: f'_def)
  moreover have "m_write_ptr f' = m_write_ptr f + length xs" "m_current_write_nr f' = int n" "m_current_write f' = cs ! n"
    using n cw by (simp_all add: f'_def)
  moreover from this have "file_ok f' cs (s @ xs)"
    using c' nl l w k \<open>s @ xs = _\<close> unfolding file_ok_def by auto
  moreover have "write_step f cs f' cs" by (simp add: write_step_def f'_def)
  ultimately show ?thesis using that st by blast
qed

lemma Fwrite_loop_ok:
  assumes "file_ok f cs s" "m_current_write_nr f = int n" "m_write_ptr f = Suc n * BLOCKSIZE"
    and "sz1 + sz2 \<le> length ptr" "m_write_ptr f + sz2 < 2 ^ 31"
  shows "\<exists>f' cs'. Fwrite_loop ptr sz1 sz2 f = Some f' \<and> file_ok f' cs' (s @ take sz2 (drop sz1 ptr)) \<and>
    write_step f cs f' cs' \<and> m_write_ptr f' = m_write_ptr f + sz2"
  using assms
proof (induction ptr sz1 sz2 f arbitrary: cs s n rule: Fwrite_loop.induct)
  case (1 ptr sz1 sz2 f)
  let ?k = "min sz2 BLOCKSIZE"
  define xs where "xs = take ?k (drop sz1 ptr)"
  have lx: "length xs = ?k" using 1(5) by (simp add: xs_def)
  obtain cs1 where a: "file_ok (advance_write f) cs1 s" "write_step f cs (advance_write f) cs1"
      "m_write_ptr (advance_write f) = m_write_ptr f" "m_current_write_nr (advance_write f) = int (Suc n)"
    using advance_write_ok [OF 1(2,3,4)] by metis
  have w0: "m_write_ptr (advance_write f) = Suc n * BLOCKSIZE + 0" using a(3) 1(4) by simp
  have "m_write_ptr (advance_write f) + length xs < 2 ^ 31" using a(3) 1(6) lx by simp
  then obtain f1 where b: "store (advance_write f) 0 xs = Some f1" "file_ok f1 cs1 (s @ xs)"
      "write_step (advance_write f) cs1 f1 cs1" "m_write_ptr f1 = m_write_ptr f + ?k"
      "m_current_write_nr f1 = int (Suc n)"
    using store_ok [OF a(1,4) w0, of xs] a(3) lx by auto
  have st: "write_step f cs f1 cs1" using a(2) b(3) by (rule write_step_trans)
  show ?case
  proof (cases "sz2 > BLOCKSIZE")
    case False
    then have "Fwrite_loop ptr sz1 sz2 f = Some f1"
      using b(1) 1(5) by (simp add: Fwrite_loop.simps [of ptr sz1 sz2 f] mem_read_in xs_def)
    then show ?thesis using b st False by (auto simp: xs_def)
  next
    case True
    then have r: "mem_read ptr sz1 BLOCKSIZE = Some xs"
      using 1(5) by (simp add: mem_read_in xs_def)
    have "m_write_ptr f1 = Suc (Suc n) * BLOCKSIZE" using b(4) 1(4) True by simp
    then obtain f2 cs2 where h: "Fwrite_loop ptr (sz1 + BLOCKSIZE) (sz2 - BLOCKSIZE) f1 = Some f2"
      "file_ok f2 cs2 ((s @ xs) @ take (sz2 - BLOCKSIZE) (drop (sz1 + BLOCKSIZE) ptr))"
      "write_step f1 cs1 f2 cs2" "m_write_ptr f2 = m_write_ptr f1 + (sz2 - BLOCKSIZE)"
      using 1(1) [OF True r b(1) b(2,5)] b(4) 1(5,6) True by auto
    have "Fwrite_loop ptr sz1 sz2 f = Some f2"
      using True r b(1) h(1) by (simp add: Fwrite_loop.simps [of ptr sz1 sz2 f])
    moreover have "xs @ take (sz2 - BLOCKSIZE) (drop (sz1 + BLOCKSIZE) ptr) = take sz2 (drop sz1 ptr)"
      using True by (metis (no_types) add.commute add_diff_inverse_nat drop_drop less_imp_le min.absorb2 not_less take_add xs_def)
    ultimately show ?thesis
      using h st b(4) True write_step_trans [OF st h(3)] by auto
  qed
qed

lemma Fwrite_ok:
  assumes f: "file_ok f cs s" and l: "width * nmemb \<le> length ptr" "length s + width * nmemb < 2 ^ 31"
  shows "\<exists>f' cs'. Fwrite ptr width nmemb f = Some (width * nmemb, f') \<and>
    file_ok f' cs' (s @ take (width * nmemb) ptr) \<and> write_step f cs f' cs' \<and>
    m_write_ptr f' = m_write_ptr f + width * nmemb"
proof -
  define sz where "sz = width * nmemb"
  obtain n where n: "n < length cs" "m_current_write_nr f = int n" "n * BLOCKSIZE \<le> m_write_ptr f"
      "m_write_ptr f \<le> Suc n * BLOCKSIZE"
    and c: "chain_ok f cs" and s: "s = take (m_write_ptr f) (flat f cs)" and w31: "m_write_ptr f < 2 ^ 31"
    using f by (auto simp: file_ok_def)
  have ls: "length s = m_write_ptr f"
    using s n mult_le_mono1 [of "Suc n" "length cs" BLOCKSIZE] by (auto simp: length_flat [OF c])
  have i: "wrap32 (int (m_write_ptr f)) = int (m_write_ptr f)"
    using w31 by (simp add: wrap32_id)
  define w where "w = m_write_ptr f"
  define g where "g = (if int n < int w div int BLOCKSIZE then append_block f else f)"
  have step0: "\<exists>cs1 m. file_ok g cs1 s \<and> write_step f cs g cs1 \<and> m_write_ptr g = w \<and>
      m_current_write_nr g = int m \<and> w = m * BLOCKSIZE + w mod BLOCKSIZE"
  proof (cases "w = Suc n * BLOCKSIZE")
    case True
    then have "g = append_block f" by (simp add: g_def flip: zdiv_int)
    then show ?thesis
      using append_block_ok [OF f n(2)] True w_def by (intro exI [of _ "take (Suc n) cs @ [length (m_heap f)]"] exI [of _ "Suc n"]) auto
  next
    case False
    then have "w div BLOCKSIZE = n" using n w_def by (intro div_nat_eqI) (auto simp: mult.commute)
    then have "g = f" "w = n * BLOCKSIZE + w mod BLOCKSIZE" by (auto simp: g_def simp flip: zdiv_int)
    then show ?thesis using f n(2) w_def by auto
  qed
  then obtain cs1 m where g: "file_ok g cs1 s" "write_step f cs g cs1" "m_write_ptr g = w"
      "m_current_write_nr g = int m" "w = m * BLOCKSIZE + w mod BLOCKSIZE" by blast
  then have gw: "m_write_ptr g = m * BLOCKSIZE + w mod BLOCKSIZE" by simp
  have sz64: "(width * nmemb) mod 2 ^ 64 = sz" using l by (simp add: sz_def)
  have F: "Fwrite ptr width nmemb f =
      (if w mod BLOCKSIZE + sz \<le> BLOCKSIZE
       then do { xs \<leftarrow> mem_read ptr 0 sz; f \<leftarrow> store g (w mod BLOCKSIZE) xs; Some (sz, f) }
       else do { xs \<leftarrow> mem_read ptr 0 (BLOCKSIZE - w mod BLOCKSIZE);
                 f \<leftarrow> store g (w mod BLOCKSIZE) xs;
                 f \<leftarrow> Fwrite_loop ptr (BLOCKSIZE - w mod BLOCKSIZE) (sz - (BLOCKSIZE - w mod BLOCKSIZE)) f;
                 Some (sz, f) })"
    unfolding Fwrite_def Let_def sz64 using n(2) i by (simp add: g_def w_def)
  show ?thesis
  proof (cases "w mod BLOCKSIZE + sz \<le> BLOCKSIZE")
    case True
    obtain f' where f': "store g (w mod BLOCKSIZE) (take sz ptr) = Some f'" "file_ok f' cs1 (s @ take sz ptr)"
      "write_step g cs1 f' cs1" "m_write_ptr f' = m_write_ptr g + sz"
      using store_ok [OF g(1,4) gw, of "take sz ptr"] True l ls g(3) w_def by (auto simp: sz_def)
    have "mem_read ptr 0 sz = Some (take sz ptr)" using l by (simp add: mem_read_in sz_def)
    then have "Fwrite ptr width nmemb f = Some (sz, f')" using F True f'(1) by simp
    then show ?thesis
      using f'(2,4) write_step_trans [OF g(2) f'(3)] g(3)
      by (intro exI [of _ f'] exI [of _ cs1]) (simp add: sz_def [symmetric] w_def)
  next
    case False
    define k where "k = BLOCKSIZE - w mod BLOCKSIZE"
    have k: "w mod BLOCKSIZE + k = BLOCKSIZE" "k \<le> sz" using False by (auto simp: k_def)
    obtain f1 where f1: "store g (w mod BLOCKSIZE) (take k ptr) = Some f1" "file_ok f1 cs1 (s @ take k ptr)"
      "write_step g cs1 f1 cs1" "m_write_ptr f1 = m_write_ptr g + k" "m_current_write_nr f1 = int m"
      using store_ok [OF g(1,4) gw, of "take k ptr"] k l ls g(3) w_def by (auto simp: sz_def)
    have f1w: "m_write_ptr f1 = Suc m * BLOCKSIZE" using f1(4) g(3,5) k by simp
    have pre: "k + (sz - k) \<le> length ptr" "m_write_ptr f1 + (sz - k) < 2 ^ 31"
      using k(2) l ls f1(4) g(3) by (auto simp: sz_def w_def)
    from Fwrite_loop_ok [OF f1(2,5) f1w pre] obtain f2 cs2 where f2: "Fwrite_loop ptr k (sz - k) f1 = Some f2"
        "file_ok f2 cs2 ((s @ take k ptr) @ take (sz - k) (drop k ptr))"
        "write_step f1 cs1 f2 cs2" "m_write_ptr f2 = m_write_ptr f1 + (sz - k)"
      by blast
    have "take k ptr @ take (sz - k) (drop k ptr) = take sz ptr"
      using k(2) by (metis le_add_diff_inverse take_add)
    moreover have "write_step f cs f2 cs2"
      using g(2) f1(3) f2(3) write_step_trans by blast
    moreover have "mem_read ptr 0 k = Some (take k ptr)" using k l by (simp add: mem_read_in sz_def)
    moreover from this have "Fwrite ptr width nmemb f = Some (sz, f2)"
      using F [folded k_def] False f1(1) f2(1) by simp
    ultimately show ?thesis
      using f1(4) f2 k g(3) by (intro exI [of _ f2] exI [of _ cs2]) (simp add: sz_def [symmetric] w_def)
  qed
qed

section \<open>Reading returns what was written\<close>

definition read_step :: "mem_file \<Rightarrow> mem_file \<Rightarrow> bool" where
  \<comment> \<open>what a reader leaves alone\<close>
  "read_step f f' \<longleftrightarrow> m_heap f' = m_heap f \<and> m_base f' = m_base f \<and> m_current_write f' = m_current_write f \<and>
     m_current_write_nr f' = m_current_write_nr f \<and> m_write_ptr f' = m_write_ptr f"

lemma read_step_ok: "read_step f f' \<Longrightarrow> file_ok f' cs s = file_ok f cs s"
  by (simp add: read_step_def file_ok_def chain_ok_def flat_def)

lemma read_step_trans: "read_step f f' \<Longrightarrow> read_step f' f'' \<Longrightarrow> read_step f f''"
  by (simp add: read_step_def)

lemma length_content: "file_ok f cs s \<Longrightarrow> length s = m_write_ptr f \<and> m_write_ptr f \<le> length cs * BLOCKSIZE"
proof -
  assume f: "file_ok f cs s"
  then obtain n where "n < length cs" "m_write_ptr f \<le> Suc n * BLOCKSIZE" and c: "chain_ok f cs"
    by (auto simp: file_ok_def)
  moreover from this have "Suc n * BLOCKSIZE \<le> length cs * BLOCKSIZE" by (intro mult_le_mono1) simp
  ultimately show ?thesis
    using f by (auto simp: file_ok_def length_flat [OF c])
qed

lemma fetch_ok:
  assumes f: "file_ok f cs s" and r: "m_current_read f = Some (cs ! j)" "j < length cs"
    and k: "off + k \<le> BLOCKSIZE" "j * BLOCKSIZE + off + k \<le> m_write_ptr f"
  shows "fetch f off k = Some (take k (drop (j * BLOCKSIZE + off) s), f\<lparr>m_read_ptr := m_read_ptr f + k\<rparr>)"
proof -
  have c: "chain_ok f cs" and s: "s = take (m_write_ptr f) (flat f cs)" using f by (auto simp: file_ok_def)
  have "length (b_data (m_heap f ! (cs ! j))) = BLOCKSIZE" using c r by (simp add: chain_ok_def)
  then have "mem_read (b_data (m_heap f ! (cs ! j))) off k = Some (take k (drop (j * BLOCKSIZE + off) (flat f cs)))"
    using flat_block [OF c r(2) k(1)] k(1) by (simp add: mem_read_in)
  moreover have "take k (drop (j * BLOCKSIZE + off) s) = take k (drop (j * BLOCKSIZE + off) (flat f cs))"
    using k(2) unfolding s by (simp add: drop_take min_def)
  ultimately show ?thesis using r by (simp add: fetch_def)
qed

lemma advance_read_ok:
  assumes "file_ok f cs s" "m_current_read f = Some (cs ! j)" "j < length cs"
  shows "advance_read f = Some (if Suc j < length cs then Some (f\<lparr>m_current_read := Some (cs ! Suc j)\<rparr>) else None)"
  using assms by (auto simp: advance_read_def file_ok_def chain_ok_def)

lemma Fread_loop_ok:
  assumes "file_ok f cs s" "m_current_read f = Some (cs ! j)" "j < length cs"
    and "m_read_ptr f = Suc j * BLOCKSIZE" "m_read_ptr f + sz2 \<le> m_write_ptr f"
  shows "\<exists>f'. Fread_loop sz1 sz2 out f = Some (out @ take sz2 (drop (m_read_ptr f) s), f') \<and> read_step f f' \<and>
    m_b_read_caused_eof f' = m_b_read_caused_eof f \<and> m_read_ptr f' = m_read_ptr f + sz2 \<and>
    (let j' = j + (if sz2 \<le> BLOCKSIZE then 1 else (sz2 + BLOCKSIZE - 1) div BLOCKSIZE)
     in j' < length cs \<longrightarrow> m_current_read f' = Some (cs ! j'))"
  using assms
proof (induction sz1 sz2 out f arbitrary: j rule: Fread_loop.induct)
  case (1 sz1 sz2 out f)
  note f = 1(2) and r = 1(3,4) and rp = 1(5) and w = 1(6)
  have wl: "m_write_ptr f \<le> length cs * BLOCKSIZE" using length_content [OF f] by simp
  have a: "advance_read f = Some (if Suc j < length cs then Some (f\<lparr>m_current_read := Some (cs ! Suc j)\<rparr>) else None)"
    using advance_read_ok [OF f r] .
  define g where "g = f\<lparr>m_current_read := Some (cs ! Suc j)\<rparr>"
  have fg: "read_step f g" by (simp add: g_def read_step_def)
  then have g: "file_ok g cs s" "read_step f g" using f read_step_ok [OF fg] by simp_all
  have sz0: "sz2 = 0" if "\<not> Suc j < length cs"
  proof -
    have "length cs * BLOCKSIZE \<le> Suc j * BLOCKSIZE" using that by (intro mult_le_mono1) simp
    then show ?thesis using rp w wl by simp
  qed
  show ?case
  proof (cases "sz2 > BLOCKSIZE")
    case False
    show ?thesis
    proof (cases "Suc j < length cs")
      case True
      have "fetch g 0 sz2 = Some (take sz2 (drop (Suc j * BLOCKSIZE) s), g\<lparr>m_read_ptr := m_read_ptr g + sz2\<rparr>)"
        using fetch_ok [OF g(1), of "Suc j" 0 sz2] True False rp w by (simp add: g_def)
      then show ?thesis
        using False True a rp by (simp add: Fread_loop.simps [of sz1 sz2 out f] g_def read_step_def)
    next
      case N: False
      then have z: "sz2 = 0" by (rule sz0)
      have "Fread_loop sz1 sz2 out f = Some (out, f)"
        using a N False by (simp add: Fread_loop.simps [of sz1 sz2 out f])
      then show ?thesis
        using N z by (intro exI [of _ f]) (simp add: read_step_def)
    qed
  next
    case True
    then have j: "Suc j < length cs" using sz0 by (cases "Suc j < length cs") auto
    define h where "h = g\<lparr>m_read_ptr := m_read_ptr g + BLOCKSIZE\<rparr>"
    have fe: "fetch g 0 BLOCKSIZE = Some (take BLOCKSIZE (drop (Suc j * BLOCKSIZE) s), h)"
      using fetch_ok [OF g(1), of "Suc j" 0 BLOCKSIZE] True j rp w by (simp add: g_def h_def)
    have h: "file_ok h cs s" "read_step f h" "m_current_read h = Some (cs ! Suc j)"
      "m_read_ptr h = Suc (Suc j) * BLOCKSIZE" "m_write_ptr h = m_write_ptr f"
      "m_b_read_caused_eof h = m_b_read_caused_eof f"
      using g rp read_step_ok [of g h] by (simp_all add: h_def g_def read_step_def)
    have w': "m_read_ptr h + (sz2 - BLOCKSIZE) \<le> m_write_ptr h" using h rp w True by simp
    let ?xs = "take BLOCKSIZE (drop (Suc j * BLOCKSIZE) s)"
    have IH: "\<exists>f'. Fread_loop (sz1 + BLOCKSIZE) (sz2 - BLOCKSIZE) (out @ ?xs) h =
        Some ((out @ ?xs) @ take (sz2 - BLOCKSIZE) (drop (m_read_ptr h) s), f') \<and> read_step h f' \<and>
      m_b_read_caused_eof f' = m_b_read_caused_eof h \<and> m_read_ptr f' = m_read_ptr h + (sz2 - BLOCKSIZE) \<and>
      (let j' = Suc j + (if sz2 - BLOCKSIZE \<le> BLOCKSIZE then 1 else (sz2 - BLOCKSIZE + BLOCKSIZE - 1) div BLOCKSIZE)
       in j' < length cs \<longrightarrow> m_current_read f' = Some (cs ! j'))"
      using a j True fe by (intro "1.IH" [OF _ _ _ _ _ h(1,3) j h(4) w']) (auto simp: g_def)
    then obtain f' where f': "Fread_loop (sz1 + BLOCKSIZE) (sz2 - BLOCKSIZE) (out @ ?xs) h =
        Some ((out @ ?xs) @ take (sz2 - BLOCKSIZE) (drop (m_read_ptr h) s), f')" "read_step h f'"
      "m_b_read_caused_eof f' = m_b_read_caused_eof h" "m_read_ptr f' = m_read_ptr h + (sz2 - BLOCKSIZE)"
      "let j' = Suc j + (if sz2 - BLOCKSIZE \<le> BLOCKSIZE then 1 else (sz2 - BLOCKSIZE + BLOCKSIZE - 1) div BLOCKSIZE)
       in j' < length cs \<longrightarrow> m_current_read f' = Some (cs ! j')" by blast
    have e: "Fread_loop sz1 sz2 out f = Fread_loop (sz1 + BLOCKSIZE) (sz2 - BLOCKSIZE) (out @ ?xs) h"
      using True a j fe by (simp add: Fread_loop.simps [of sz1 sz2 out f] g_def)
    have tk: "?xs @ take (sz2 - BLOCKSIZE) (drop (m_read_ptr h) s) = take sz2 (drop (m_read_ptr f) s)"
    proof -
      have "drop (m_read_ptr h) s = drop BLOCKSIZE (drop (Suc j * BLOCKSIZE) s)" using h(4) by (simp add: ac_simps)
      then show ?thesis
        using True rp by (metis le_add_diff_inverse less_imp_le take_add)
    qed
    have dv: "Suc j + (if sz2 - BLOCKSIZE \<le> BLOCKSIZE then 1 else (sz2 - BLOCKSIZE + BLOCKSIZE - 1) div BLOCKSIZE) =
      j + (sz2 + BLOCKSIZE - 1) div BLOCKSIZE"
    proof (cases "sz2 - BLOCKSIZE \<le> BLOCKSIZE")
      case le: True
      have "(sz2 + BLOCKSIZE - 1) div BLOCKSIZE = 2"
        using le True by (intro div_nat_eqI) auto
      then show ?thesis using le by simp
    next
      case False
      then have "(sz2 + BLOCKSIZE - 1) div BLOCKSIZE = Suc ((sz2 - 1) div BLOCKSIZE)"
        using div_add_self2 [of BLOCKSIZE "sz2 - 1"] by (simp add: BLOCKSIZE_def)
      then show ?thesis using False by simp
    qed
    have cr: "let j' = j + (sz2 + BLOCKSIZE - 1) div BLOCKSIZE in j' < length cs \<longrightarrow> m_current_read f' = Some (cs ! j')"
      using f'(5) by (simp only: dv)
    have b: "\<not> sz2 \<le> BLOCKSIZE" using True by simp
    show ?thesis
      unfolding if_not_P [OF b] using f'(1-4) e tk True h cr read_step_trans [OF h(2) f'(2)] rp
      by (intro exI [of _ f']) simp
  qed
qed

lemma Fread_ok:
  assumes f: "file_ok f cs s" and r: "reader_ok f cs" and l: "width * nmemb < 2 ^ 64"
  defines "p \<equiv> m_read_ptr f mod BLOCKSIZE" and "j \<equiv> m_read_ptr f div BLOCKSIZE"
    and "k \<equiv> min (width * nmemb) (m_write_ptr f - m_read_ptr f)"
  obtains f' where "Fread width nmemb f = Some (take (width * nmemb) (drop (m_read_ptr f) s), f')"
    "read_step f f'" "m_read_ptr f' = m_read_ptr f + k"
    "m_b_read_caused_eof f' \<longleftrightarrow> m_b_read_caused_eof f \<or> m_write_ptr f - m_read_ptr f < width * nmemb"
    "p + k < BLOCKSIZE \<Longrightarrow> m_current_read f' = m_current_read f"
    "p + k \<ge> BLOCKSIZE \<Longrightarrow> k \<noteq> 0 \<Longrightarrow> j + max 1 ((p + k - 1) div BLOCKSIZE) < length cs \<Longrightarrow>
       m_current_read f' = Some (cs ! (j + max 1 ((p + k - 1) div BLOCKSIZE)))"
proof -
  define av where "av = m_write_ptr f - m_read_ptr f"
  have rw: "m_read_ptr f \<le> m_write_ptr f" using r by (simp add: reader_ok_def)
  have w31: "m_write_ptr f < 2 ^ 31" using f by (simp add: file_ok_def)
  have len: "length s = m_write_ptr f" "m_write_ptr f \<le> length cs * BLOCKSIZE" using length_content [OF f] by auto
  have sz64: "(width * nmemb) mod 2 ^ 64 = width * nmemb" using l by simp
  have av64: "(m_write_ptr f + 2 ^ 64 - m_read_ptr f) mod 2 ^ 64 = av"
    using rw w31 by (simp add: av_def mod_if)
  define g where "g = (if width * nmemb > av then f\<lparr>m_b_read_caused_eof := True\<rparr> else f)"
  have fg: "read_step f g" by (simp add: g_def read_step_def)
  have g: "file_ok g cs s" "m_read_ptr g = m_read_ptr f" "m_write_ptr g = m_write_ptr f" "m_current_read g = m_current_read f"
    "m_b_read_caused_eof g \<longleftrightarrow> m_b_read_caused_eof f \<or> av < width * nmemb"
    using read_step_ok [OF fg] f by (auto simp: g_def)
  have kk: "(if width * nmemb > av then av else width * nmemb) = k" by (simp add: k_def av_def)
  have F: "Fread width nmemb f = (if k = 0 then Some ([], g)
         else if p + k < BLOCKSIZE then fetch g p k
         else do { (xs, f) \<leftarrow> fetch g p (BLOCKSIZE - p); Fread_loop (BLOCKSIZE - p) (k - (BLOCKSIZE - p)) xs f })"
    unfolding Fread_def Let_def sz64 av64 kk by (simp add: g_def p_def)
  have tk: "take (width * nmemb) (drop (m_read_ptr f) s) = take k (drop (m_read_ptr f) s)"
    using len by (simp add: k_def min_def)
  have rp: "m_read_ptr f = j * BLOCKSIZE + p" by (simp add: j_def p_def)
  show ?thesis
  proof (cases "k = 0")
    case True
    then show ?thesis using that F tk fg g by (simp add: av_def)
  next
    case False
    then have lt: "m_read_ptr f < m_write_ptr f" by (auto simp: k_def)
    then have cr: "m_current_read g = Some (cs ! j)" using r g by (simp add: reader_ok_def j_def)
    have jl: "j < length cs"
      using lt len rp by (metis add_lessD1 leD le_less_linear less_le_trans mult_le_mono1)
    have kw: "j * BLOCKSIZE + p + k \<le> m_write_ptr g" using rp g lt by (simp add: k_def)
    show ?thesis
    proof (cases "p + k < BLOCKSIZE")
      case True
      then have "fetch g p k = Some (take k (drop (j * BLOCKSIZE + p) s), g\<lparr>m_read_ptr := m_read_ptr g + k\<rparr>)"
        using fetch_ok [OF g(1) cr jl _ kw] by simp
      then show ?thesis
        using that [of "g\<lparr>m_read_ptr := m_read_ptr g + k\<rparr>"] F tk fg g True False
        by (simp add: av_def rp read_step_def)
    next
      case p: False
      let ?k1 = "BLOCKSIZE - p"
      have pl: "p < BLOCKSIZE" by (simp add: p_def)
      have fe: "fetch g p ?k1 = Some (take ?k1 (drop (j * BLOCKSIZE + p) s), g\<lparr>m_read_ptr := m_read_ptr g + ?k1\<rparr>)"
        using fetch_ok [OF g(1) cr jl, of p ?k1] kw p pl by simp
      define h where "h = g\<lparr>m_read_ptr := m_read_ptr g + ?k1\<rparr>"
      have gh: "read_step g h" by (simp add: h_def read_step_def)
      have h: "file_ok h cs s" "m_current_read h = Some (cs ! j)" "m_read_ptr h = Suc j * BLOCKSIZE"
        "m_read_ptr h + (k - ?k1) \<le> m_write_ptr h" "m_b_read_caused_eof h = m_b_read_caused_eof g"
        using read_step_ok [OF gh] g cr rp kw p pl by (auto simp: h_def)
      obtain f' where f': "Fread_loop ?k1 (k - ?k1) (take ?k1 (drop (j * BLOCKSIZE + p) s)) h =
          Some (take ?k1 (drop (j * BLOCKSIZE + p) s) @ take (k - ?k1) (drop (m_read_ptr h) s), f')"
        "read_step h f'" "m_b_read_caused_eof f' = m_b_read_caused_eof h" "m_read_ptr f' = m_read_ptr h + (k - ?k1)"
        "let j' = j + (if k - ?k1 \<le> BLOCKSIZE then 1 else (k - ?k1 + BLOCKSIZE - 1) div BLOCKSIZE)
         in j' < length cs \<longrightarrow> m_current_read f' = Some (cs ! j')"
        using Fread_loop_ok [OF h(1,2) jl h(3,4)] by metis
      have m: "(if k - ?k1 \<le> BLOCKSIZE then 1 else (k - ?k1 + BLOCKSIZE - 1) div BLOCKSIZE) =
          max 1 ((p + k - 1) div BLOCKSIZE)"
      proof -
        have e: "k - ?k1 + BLOCKSIZE = p + k" using p pl by simp
        show ?thesis
        proof (cases "k - ?k1 \<le> BLOCKSIZE")
          case True
          then have "p + k - 1 < 2 * BLOCKSIZE" using e False by simp
          then have "(p + k - 1) div BLOCKSIZE < 2" by (simp add: less_mult_imp_div_less)
          then show ?thesis using True by simp
        next
          case False
          then have "1 * BLOCKSIZE \<le> p + k - 1" using e by simp
          then have "1 \<le> (p + k - 1) div BLOCKSIZE" by (simp add: less_eq_div_iff_mult_less_eq)
          then show ?thesis using False e by (simp add: add.commute)
        qed
      qed
      have "take ?k1 (drop (j * BLOCKSIZE + p) s) @ take (k - ?k1) (drop (m_read_ptr h) s) = take k (drop (m_read_ptr f) s)"
      proof -
        have "drop (m_read_ptr h) s = drop ?k1 (drop (j * BLOCKSIZE + p) s)" using g(2) by (simp add: h_def rp add.commute)
        moreover have "k = ?k1 + (k - ?k1)" using p pl by simp
        ultimately show ?thesis unfolding rp by (metis take_add)
      qed
      then have "Fread width nmemb f = Some (take k (drop (m_read_ptr f) s), f')"
        using F False p fe f'(1) by (simp add: h_def)
      moreover have "read_step f f'" using fg gh f'(2) read_step_trans by blast
      moreover have "m_read_ptr f' = m_read_ptr f + k" using f'(4) p pl g(2) by (simp add: h_def)
      ultimately show ?thesis
        using that [of f'] tk f'(3) f'(5) [unfolded m Let_def] h(5) g(5) p by (simp add: av_def)
    qed
  qed
qed

lemma Fread_seq:
  assumes f: "file_ok f cs s" and r: "reader_ok f cs" and l: "width * nmemb < 2 ^ 64"
    and b: "m_read_ptr f mod BLOCKSIZE + min (width * nmemb) (m_write_ptr f - m_read_ptr f) \<le> BLOCKSIZE \<or>
      (m_read_ptr f + min (width * nmemb) (m_write_ptr f - m_read_ptr f)) mod BLOCKSIZE \<noteq> 0"
  obtains f' where "Fread width nmemb f = Some (take (width * nmemb) (drop (m_read_ptr f) s), f')"
    "file_ok f' cs s" "reader_ok f' cs" "read_step f f'"
    "m_read_ptr f' = m_read_ptr f + min (width * nmemb) (m_write_ptr f - m_read_ptr f)"
    "m_b_read_caused_eof f' \<longleftrightarrow> m_b_read_caused_eof f \<or> m_write_ptr f - m_read_ptr f < width * nmemb"
proof -
  define p where "p = m_read_ptr f mod BLOCKSIZE"
  define j where "j = m_read_ptr f div BLOCKSIZE"
  define k where "k = min (width * nmemb) (m_write_ptr f - m_read_ptr f)"
  obtain f' where f': "Fread width nmemb f = Some (take (width * nmemb) (drop (m_read_ptr f) s), f')"
    "read_step f f'" "m_read_ptr f' = m_read_ptr f + k"
    "m_b_read_caused_eof f' \<longleftrightarrow> m_b_read_caused_eof f \<or> m_write_ptr f - m_read_ptr f < width * nmemb"
    "p + k < BLOCKSIZE \<Longrightarrow> m_current_read f' = m_current_read f"
    "p + k \<ge> BLOCKSIZE \<Longrightarrow> k \<noteq> 0 \<Longrightarrow> j + max 1 ((p + k - 1) div BLOCKSIZE) < length cs \<Longrightarrow>
       m_current_read f' = Some (cs ! (j + max 1 ((p + k - 1) div BLOCKSIZE)))"
    using Fread_ok [OF f r l] unfolding p_def j_def k_def by metis
  have pl: "p < BLOCKSIZE" by (simp add: p_def)
  have rp: "m_read_ptr f = j * BLOCKSIZE + p" by (simp add: j_def p_def)
  have mw: "(m_read_ptr f + k) mod BLOCKSIZE = (p + k) mod BLOCKSIZE" by (simp add: rp add.assoc)
  have dv: "(m_read_ptr f + k) div BLOCKSIZE = j + (p + k) div BLOCKSIZE" by (simp add: rp add.assoc)
  have "reader_ok f' cs"
  proof -
    have le: "m_read_ptr f' \<le> m_write_ptr f'"
      using r f'(2,3) by (auto simp: reader_ok_def read_step_def k_def min_def)
    have "m_current_read f' = Some (cs ! ((m_read_ptr f + k) div BLOCKSIZE))" if lt: "m_read_ptr f + k < m_write_ptr f"
    proof (cases "p + k < BLOCKSIZE")
      case True
      then show ?thesis using f'(5) r lt dv by (simp add: reader_ok_def j_def)
    next
      case False
      have m: "max 1 ((p + k - 1) div BLOCKSIZE) = (p + k) div BLOCKSIZE"
      proof (cases "p + k = BLOCKSIZE")
        case True
        then have "(p + k - 1) div BLOCKSIZE = 0" "(p + k) div BLOCKSIZE = 1" by (simp_all add: BLOCKSIZE_def)
        then show ?thesis by simp
      next
        case ne: False
        then have nz: "(p + k) mod BLOCKSIZE \<noteq> 0" using b False mw by (simp add: p_def k_def)
        define q where "q = (p + k) div BLOCKSIZE"
        define u where "u = (p + k) mod BLOCKSIZE"
        have "p + k = q * BLOCKSIZE + u" "0 < u" "u < BLOCKSIZE" using nz by (simp_all add: q_def u_def)
        then have "(p + k - 1) div BLOCKSIZE = q" by (intro div_nat_eqI) (auto simp: mult.commute)
        moreover have "1 \<le> q" using False by (simp add: q_def less_eq_div_iff_mult_less_eq)
        ultimately show ?thesis by (simp add: q_def)
      qed
      have "(j + (p + k) div BLOCKSIZE) * BLOCKSIZE \<le> m_read_ptr f + k"
        unfolding dv [symmetric] by simp
      then have "(j + (p + k) div BLOCKSIZE) * BLOCKSIZE < length cs * BLOCKSIZE"
        using lt length_content [OF f] by linarith
      then have "j + (p + k) div BLOCKSIZE < length cs" by simp
      then show ?thesis using f'(6) False m dv pl by auto
    qed
    then show ?thesis using le f'(2,3) by (simp add: reader_ok_def read_step_def)
  qed
  moreover have "file_ok f' cs s" using read_step_ok [OF f'(2)] f by simp
  ultimately show ?thesis using that [of f'] f'(1-4) by (simp add: k_def)
qed

section \<open>Lines, loading and saving\<close>

lemma Fread_1:
  assumes "file_ok f cs s" "reader_ok f cs"
  shows "\<exists>f'. Fread 1 1 f = Some (take 1 (drop (m_read_ptr f) s), f') \<and> file_ok f' cs s \<and> reader_ok f' cs \<and>
    m_read_ptr f' = m_read_ptr f + min 1 (m_write_ptr f - m_read_ptr f) \<and>
    (m_b_read_caused_eof f' \<longleftrightarrow> m_b_read_caused_eof f \<or> m_write_ptr f - m_read_ptr f < 1)"
proof -
  have "m_read_ptr f mod BLOCKSIZE < BLOCKSIZE" by simp
  then have b: "m_read_ptr f mod BLOCKSIZE + min (1 * 1) (m_write_ptr f - m_read_ptr f) \<le> BLOCKSIZE"
    by linarith
  show ?thesis
    by (rule Fread_seq [OF assms, of 1 1]) (use b in simp_all)
qed

lemma Fgets_loop_ok:
  assumes "file_ok f cs s" "reader_ok f cs" "\<not> Eof f"
  shows "\<exists>f'. Fgets_loop lim acc f =
    Some (acc @ takeWhile (\<lambda>c. c \<noteq> 10) (take (nat (lim - 1) - length acc) (drop (m_read_ptr f) s)), f')"
  using assms
proof (induction "drop (m_read_ptr f) s" arbitrary: acc f)
  case Nil
  show ?case
  proof (cases "int (length acc) < lim - 1")
    case True
    have w: "m_write_ptr f \<le> m_read_ptr f" using Nil(1) length_content [OF Nil(2)] by simp
    obtain f' where f': "Fread 1 1 f = Some ([], f')" "m_b_read_caused_eof f'"
      using Fread_1 [OF Nil(2,3)] w by (auto simp flip: Nil(1))
    from f'(2) have "Fgets_loop lim acc f' = Some (acc, f')"
      by (simp add: Fgets_loop.simps [of lim acc f'] Eof_def)
    then have "Fgets_loop lim acc f = Some (acc, f')"
      using True Nil(4) f' by (simp add: Fgets_loop.simps [of lim acc f])
    then show ?thesis using Nil(1) by (simp flip: Nil(1))
  next
    case False
    then have "Fgets_loop lim acc f = Some (acc, f)" by (simp add: Fgets_loop.simps [of lim acc f])
    then show ?thesis by (simp flip: Nil(1))
  qed
next
  case (Cons c rest)
  show ?case
  proof (cases "int (length acc) < lim - 1")
    case False
    then have "Fgets_loop lim acc f = Some (acc, f)" by (simp add: Fgets_loop.simps [of lim acc f])
    moreover have "nat (lim - 1) - length acc = 0" using False by simp
    ultimately show ?thesis by simp
  next
    case True
    have lt: "m_read_ptr f < m_write_ptr f"
      using Cons(2) length_content [OF Cons(3)] by (metis drop_eq_Nil leI list.distinct(1))
    obtain f' where f': "Fread 1 1 f = Some ([c], f')" "file_ok f' cs s" "reader_ok f' cs"
        "m_read_ptr f' = m_read_ptr f + 1" "m_b_read_caused_eof f' \<longleftrightarrow> m_b_read_caused_eof f"
      using Fread_1 [OF Cons(3,4)] lt by (auto simp flip: Cons(2))
    have rest: "rest = drop (m_read_ptr f') s"
      using Cons(2) f'(4) by (metis add.commute drop_drop drop_Suc_Cons drop_0 plus_1_eq_Suc)
    have n: "nat (lim - 1) - length acc = Suc (nat (lim - 1) - length (acc @ [c]))" using True by simp
    show ?thesis
    proof (cases "c = 10")
      case c: True
      then have "Fgets_loop lim acc f = Some (acc, f')"
        using True Cons(5) f'(1) by (simp add: Fgets_loop.simps [of lim acc f])
      then show ?thesis using c n by (simp flip: Cons(2))
    next
      case c: False
      have "Fgets_loop lim acc f = Fgets_loop lim (acc @ [c]) f'"
        using True c Cons(5) f'(1) by (simp add: Fgets_loop.simps [of lim acc f])
      moreover have "\<not> Eof f'" using Cons(5) f'(5) by (simp add: Eof_def)
      then obtain f'' where "Fgets_loop lim (acc @ [c]) f' = Some ((acc @ [c]) @
          takeWhile (\<lambda>c. c \<noteq> 10) (take (nat (lim - 1) - length (acc @ [c])) (drop (m_read_ptr f') s)), f'')"
        using Cons(1) [OF rest f'(2,3)] by blast
      ultimately show ?thesis using c n by (simp flip: Cons(2) rest)
    qed
  qed
qed

lemma Load_loop_ok:
  assumes "file_ok f cs s" "length s + length d < 2 ^ 31"
  shows "\<exists>f' cs'. Load_loop d f = Some f' \<and> file_ok f' cs' (s @ d) \<and> write_step f cs f' cs'"
  using assms
proof (induction d f arbitrary: cs s rule: Load_loop.induct)
  case (1 d f)
  let ?x = "take BLOCKSIZE d"
  show ?case
  proof (cases "d = []")
    case True
    then have "Load_loop d f = Some f" using Load_loop.simps [of d f] by simp
    then show ?thesis using 1(2) True by (auto intro: exI [of _ cs])
  next
    case False
    then have x: "?x \<noteq> []" by (simp add: BLOCKSIZE_def)
    define x where "x = ?x"
    have "length x \<le> length d" by (simp add: x_def)
    then have "1 * length x \<le> length x" "length s + 1 * length x < 2 ^ 31" using 1(3) by auto
    from Fwrite_ok [OF 1(2) this] have "\<exists>f1 cs1. Fwrite x 1 (length x) f = Some (length x, f1) \<and>
        file_ok f1 cs1 (s @ x) \<and> write_step f cs f1 cs1" by auto
    then obtain f1 cs1 where f1: "Fwrite ?x 1 (length ?x) f = Some (length ?x, f1)" "file_ok f1 cs1 (s @ ?x)"
        "write_step f cs f1 cs1" unfolding x_def by blast
    have "length (s @ ?x) + length (drop BLOCKSIZE d) = length s + length d" by simp
    then have l: "length (s @ ?x) + length (drop BLOCKSIZE d) < 2 ^ 31" using 1(3) by simp
    obtain f2 cs2 where f2: "Load_loop (drop BLOCKSIZE d) f1 = Some f2" "file_ok f2 cs2 ((s @ ?x) @ drop BLOCKSIZE d)"
        "write_step f1 cs1 f2 cs2"
      using 1(1) [OF refl x f1(1) refl f1(2) l] by blast
    have "Load_loop d f = Some f2"
      using x f1(1) f2(1) by (simp add: Load_loop.simps [of d f] Let_def)
    then show ?thesis using f2 write_step_trans [OF f1(3) f2(3)] by auto
  qed
qed

lemma Save_loop_ok:
  assumes "file_ok f cs s" "reader_ok f cs" "m_read_ptr f mod BLOCKSIZE = 0 \<or> m_read_ptr f = m_write_ptr f"
  shows "\<exists>f'. Save_loop disk f = Some (disk @ drop (m_read_ptr f) s, f') \<and> file_ok f' cs s"
  using assms
proof (induction "m_write_ptr f - m_read_ptr f" arbitrary: f disk rule: less_induct)
  case less
  let ?k = "min (1 * BLOCKSIZE) (m_write_ptr f - m_read_ptr f)"
  have len: "length s = m_write_ptr f" using length_content [OF less(2)] by simp
  have b: "m_read_ptr f mod BLOCKSIZE + ?k \<le> BLOCKSIZE" using less(4) by auto
  have B64: "1 * BLOCKSIZE < 2 ^ 64" by (simp add: BLOCKSIZE_def)
  obtain f' where f': "Fread 1 BLOCKSIZE f = Some (take (1 * BLOCKSIZE) (drop (m_read_ptr f) s), f')"
    "file_ok f' cs s" "reader_ok f' cs" "read_step f f'" "m_read_ptr f' = m_read_ptr f + ?k"
    by (rule Fread_seq [OF less(2,3) B64]) (use b in auto)
  show ?case
  proof (cases "m_read_ptr f < m_write_ptr f")
    case False
    then have "take (1 * BLOCKSIZE) (drop (m_read_ptr f) s) = []" "drop (m_read_ptr f) s = []" using len by auto
    then show ?thesis using f' by (simp add: Save_loop.simps [of disk f])
  next
    case True
    then have x: "take (1 * BLOCKSIZE) (drop (m_read_ptr f) s) \<noteq> []" using len by (simp add: BLOCKSIZE_def)
    have w: "m_write_ptr f' = m_write_ptr f" using f'(4) by (simp add: read_step_def)
    have al: "m_read_ptr f' mod BLOCKSIZE = 0 \<or> m_read_ptr f' = m_write_ptr f'"
      using f'(5) less(4) True w by (auto simp: min_def)
    have lt: "m_write_ptr f' - m_read_ptr f' < m_write_ptr f - m_read_ptr f"
      unfolding w f'(5) using True by (intro diff_less_mono2) auto
    obtain f'' where "Save_loop (disk @ take (1 * BLOCKSIZE) (drop (m_read_ptr f) s)) f' =
        Some ((disk @ take (1 * BLOCKSIZE) (drop (m_read_ptr f) s)) @ drop (m_read_ptr f') s, f'')" "file_ok f'' cs s"
      using less(1) [OF lt f'(2,3) al] by blast
    moreover have "take (1 * BLOCKSIZE) (drop (m_read_ptr f) s) @ drop (m_read_ptr f') s = drop (m_read_ptr f) s"
    proof (cases "BLOCKSIZE \<le> m_write_ptr f - m_read_ptr f")
      case True
      then show ?thesis using f'(5) by (simp add: min_def add.commute flip: drop_drop)
    next
      case False
      then show ?thesis using f'(5) len by (simp add: min_def)
    qed
    ultimately show ?thesis using f'(1) x by (simp add: Save_loop.simps [of disk f])
  qed
qed

lemma new_ok: "file_ok MemFile_new [0] []" "reader_sync MemFile_new [0]"
  by (auto simp: file_ok_def chain_ok_def MemFile_new_def new_block_def reader_sync_def)

lemma reset_ok:
  assumes "file_ok f cs s" "m_base f = cs ! 0"
  shows "file_ok (ResetRead f) cs s" "reader_sync (ResetRead f) cs" "reader_ok (ResetRead f) cs"
proof -
  have "read_step f (ResetRead f)" by (simp add: read_step_def ResetRead_def)
  then show "file_ok (ResetRead f) cs s" using read_step_ok assms by blast
  show "reader_sync (ResetRead f) cs" "reader_ok (ResetRead f) cs"
    using assms by (auto simp: reader_sync_def reader_ok_def ResetRead_def file_ok_def)
qed

lemma base_ok: "file_ok f cs s \<Longrightarrow> m_base f = cs ! 0"
  by (simp add: file_ok_def chain_ok_def)

lemma MemFile_path_ok:
  assumes "length d < 2 ^ 31"
  shows "\<exists>f cs. MemFile_path (Some d) = Some f \<and> file_ok f cs d \<and> reader_sync f cs \<and> \<not> Eof f \<and>
    m_read_ptr f = 0"
proof -
  have g: "ResetWrite (MemFile_new\<lparr>m_current_read := None\<rparr>)
      \<lparr>m_current_read := Some (m_base (ResetWrite (MemFile_new\<lparr>m_current_read := None\<rparr>))),
       m_current_write := m_base (ResetWrite (MemFile_new\<lparr>m_current_read := None\<rparr>))\<rparr> = MemFile_new"
    by (simp add: ResetWrite_def MemFile_new_def)
  obtain f cs where f: "Load_loop d MemFile_new = Some f" "file_ok f cs ([] @ d)" "write_step MemFile_new [0] f cs"
    using Load_loop_ok [OF new_ok(1), of d] assms by auto
  have "MemFile_path (Some d) = Some f"
    unfolding MemFile_path_def Load_def Let_def option.case g f(1) by simp
  moreover have "\<not> Eof f" "m_read_ptr f = 0" using f(3) by (simp_all add: write_step_def Eof_def MemFile_new_def)
  ultimately show ?thesis using f(2) write_step_sync [OF f(3) new_ok(2)] by auto
qed

section \<open>Properties\<close>

text \<open>
  C9: \<open>Fwrite\<close> on a sound memory file holding the bytes \<open>s\<close> stores the whole argument, whatever the
  position within the blocks and however many blocks it needs: it reports \<open>width * nmemb\<close> bytes, the
  file then holds \<open>s\<close> followed by them, and a reader in step with the file stays in step. (The file
  must stay below 2 GB, since the block number is computed from \<open>(int)m_write_ptr\<close>.)
\<close>
theorem Fwrite_appends:
  assumes "file_ok f cs s" and "width * nmemb \<le> length ptr" and "length s + width * nmemb < 2 ^ 31"
  shows "\<exists>f' cs'. Fwrite ptr width nmemb f = Some (width * nmemb, f') \<and>
    file_ok f' cs' (s @ take (width * nmemb) ptr) \<and> (reader_sync f cs \<longrightarrow> reader_sync f' cs') \<and>
    Size f' = Size f + width * nmemb"
  using Fwrite_ok [OF assms] write_step_sync unfolding Size_def by blast

theorem Fwrite_appends_witness:
  "\<exists>f' cs'. Fwrite [1, 2, 3] 1 3 MemFile_new = Some (3, f') \<and> file_ok f' cs' [1, 2, 3]"
  using Fwrite_appends [OF new_ok(1), of 1 3 "[1, 2, 3]"] by auto

text \<open>
  \<open>Fread\<close> on a sound memory file returns the next \<open>width * nmemb\<close> bytes after the read position,
  or all that is left when there are fewer, and sets the end-of-file flag exactly in the second case;
  the reader is in step again unless the read crossed a block and ended exactly at the end of another.
\<close>
theorem Fread_next:
  assumes "file_ok f cs s" and "reader_ok f cs" and "width * nmemb < 2 ^ 64"
  shows "\<exists>f'. Fread width nmemb f = Some (take (width * nmemb) (drop (m_read_ptr f) s), f') \<and>
    file_ok f' cs s \<and> m_read_ptr f' = m_read_ptr f + min (width * nmemb) (length s - m_read_ptr f) \<and>
    (Eof f' \<longleftrightarrow> Eof f \<or> length s - m_read_ptr f < width * nmemb) \<and>
    (m_read_ptr f mod BLOCKSIZE + width * nmemb \<le> BLOCKSIZE \<or> m_read_ptr f' mod BLOCKSIZE \<noteq> 0 \<longrightarrow> reader_ok f' cs)"
proof -
  have len: "length s = m_write_ptr f" using length_content [OF assms(1)] by simp
  let ?k = "min (width * nmemb) (m_write_ptr f - m_read_ptr f)"
  obtain f' where f': "Fread width nmemb f = Some (take (width * nmemb) (drop (m_read_ptr f) s), f')"
    "read_step f f'" "m_read_ptr f' = m_read_ptr f + ?k"
    "m_b_read_caused_eof f' \<longleftrightarrow> m_b_read_caused_eof f \<or> m_write_ptr f - m_read_ptr f < width * nmemb"
    by (rule Fread_ok [OF assms]) blast
  have "reader_ok f' cs" if "m_read_ptr f mod BLOCKSIZE + width * nmemb \<le> BLOCKSIZE \<or> m_read_ptr f' mod BLOCKSIZE \<noteq> 0"
  proof -
    have "m_read_ptr f mod BLOCKSIZE + ?k \<le> BLOCKSIZE \<or> (m_read_ptr f + ?k) mod BLOCKSIZE \<noteq> 0"
      using that f'(3) by auto
    then show ?thesis
      by (rule Fread_seq [OF assms]) (use f'(1) in simp)
  qed
  then show ?thesis
    using f' read_step_ok [OF f'(2)] assms(1) len by (simp add: Eof_def)
qed

lemma file_example:
  obtains f cs where "MemFile_path (Some [104, 105, 10, 33]) = Some f" "file_ok f cs [104, 105, 10, 33]" "reader_ok f cs"
    "\<not> Eof f" "m_read_ptr f = 0"
  using MemFile_path_ok [of "[104, 105, 10, 33]"] by (auto simp: reader_ok_def reader_sync_def)

theorem Fread_next_witness:
  "\<exists>f f'. MemFile_path (Some [104, 105, 10, 33]) = Some f \<and> Fread 1 3 f = Some ([104, 105, 10], f') \<and> \<not> Eof f'"
proof (rule file_example)
  fix f cs assume "MemFile_path (Some [104, 105, 10, 33]) = Some f" "file_ok f cs [104, 105, 10, 33]" "reader_ok f cs"
    "\<not> Eof f" "m_read_ptr f = 0"
  with Fread_next [of f cs "[104, 105, 10, 33]" 1 3] show ?thesis by auto
qed

text \<open>
  a read that crosses a block boundary and ends exactly at the end of a block leaves the reader in
  the block it has just read: after two blocks have been read from the start, the next \<open>Fread\<close> returns
  the bytes of the second block once more, not those at the read position.
\<close>
theorem Fread_rereads_block:
  assumes "2 * BLOCKSIZE + k \<le> length s" and "length s < 2 ^ 31" and "k < BLOCKSIZE"
  shows "do { f \<leftarrow> MemFile_path (Some s); (xs, f) \<leftarrow> Fread 1 (2 * BLOCKSIZE) f; (ys, f) \<leftarrow> Fread 1 k f; Some (xs, ys) } =
    Some (take (2 * BLOCKSIZE) s, take k (drop BLOCKSIZE s))"
proof -
  obtain f cs where f: "MemFile_path (Some s) = Some f" "file_ok f cs s" "reader_ok f cs" "m_read_ptr f = 0"
    using MemFile_path_ok [OF assms(2)] by (auto simp: reader_sync_def reader_ok_def)
  have len: "length s = m_write_ptr f" "m_write_ptr f \<le> length cs * BLOCKSIZE" using length_content [OF f(2)] by auto
  have "2 * BLOCKSIZE \<le> length cs * BLOCKSIZE" using len assms(1) by linarith
  then have cl: "1 < length cs" by simp
  have B: "1 * (2 * BLOCKSIZE) < 2 ^ 64" "min (1 * (2 * BLOCKSIZE)) (m_write_ptr f - m_read_ptr f) = 2 * BLOCKSIZE"
    "(2 * BLOCKSIZE - 1) div BLOCKSIZE = 1"
    using len assms(1) f(4) by (simp_all add: BLOCKSIZE_def)
  show ?thesis
  proof (rule Fread_ok [OF f(2,3) B(1)], goal_cases)
    case (1 f')
    have cr: "m_current_read f' = Some (cs ! 1)" using 1(6) B f(4) cl by simp
    have f': "file_ok f' cs s" "m_read_ptr f' = 2 * BLOCKSIZE" "m_write_ptr f' = m_write_ptr f"
      using read_step_ok [OF 1(2)] f(2,4) 1(2,3) B by (simp_all add: read_step_def)
    have k64: "(1 * k) mod 2 ^ 64 = k" using assms(3) by (simp add: BLOCKSIZE_def)
    have av: "(m_write_ptr f' + 2 ^ 64 - m_read_ptr f') mod 2 ^ 64 = m_write_ptr f - 2 * BLOCKSIZE"
      using f' assms(1,2) len by (simp add: mod_if)
    have "\<not> k > m_write_ptr f - 2 * BLOCKSIZE" using assms(1) len by simp
    then have "Fread 1 k f' = (if k = 0 then Some ([], f') else fetch f' 0 k)"
      unfolding Fread_def Let_def k64 av using f'(2) assms(3) by simp
    moreover have "fetch f' 0 k = Some (take k (drop BLOCKSIZE s), f'\<lparr>m_read_ptr := m_read_ptr f' + k\<rparr>)"
      using fetch_ok [OF f'(1) cr cl, of 0 k] assms(1,3) len f'(3) by simp
    ultimately show ?case using f(1,4) 1(1) by auto
  qed
qed

theorem Fread_rereads_block_witness:
  "\<exists>s. do { f \<leftarrow> MemFile_path (Some s); (xs, f) \<leftarrow> Fread 1 (2 * BLOCKSIZE) f; (ys, f) \<leftarrow> Fread 1 1 f; Some ys } = Some [2] \<and>
     drop (2 * BLOCKSIZE) s = [3]"
proof -
  define s :: "u8 list" where "s = replicate BLOCKSIZE 1 @ replicate BLOCKSIZE 2 @ [3]"
  obtain m where m: "BLOCKSIZE = Suc m" using BLOCKSIZE_pos(1) gr0_conv_Suc by blast
  have s: "length s = 2 * BLOCKSIZE + 1" "take 1 (drop BLOCKSIZE s) = [2]" "drop (2 * BLOCKSIZE) s = [3]"
    by (simp_all add: s_def m)
  have "2 * BLOCKSIZE + 1 \<le> length s" "length s < 2 ^ 31" "1 < BLOCKSIZE"
    unfolding s by (simp_all add: BLOCKSIZE_def)
  from Fread_rereads_block [OF this] show ?thesis
    using s(2,3) by (intro exI [of _ s]) (auto simp: bind_eq_Some_conv)
qed

text \<open>
  C27: loading a file from disk (of less than 2 GB) and saving it again writes exactly its bytes; both
  loops end.
\<close>
theorem Load_Save:
  assumes "length d < 2 ^ 31"
  shows "\<exists>f f'. MemFile_path (Some d) = Some f \<and> Save True f = Some (Some d, f')"
proof -
  obtain f cs where f: "MemFile_path (Some d) = Some f" "file_ok f cs d"
    using MemFile_path_ok [OF assms] by auto
  note r = reset_ok [OF f(2) base_ok [OF f(2)]]
  have "m_read_ptr (ResetRead f) = 0" by (simp add: ResetRead_def)
  then obtain f' where "Save_loop [] (ResetRead f) = Some (d, f')"
    using Save_loop_ok [OF r(1,3), of "[]"] by auto
  then show ?thesis using f(1) by (simp add: Save_def)
qed

theorem Load_Save_witness:
  "\<exists>f f'. MemFile_path (Some [104, 105]) = Some f \<and> Save True f = Some (Some [104, 105], f')"
  by (rule Load_Save) simp

lemma Fgets_ok:
  assumes "file_ok f cs s" and "reader_ok f cs"
  shows "\<exists>f'. Fgets lim f = Some (if Eof f then []
      else takeWhile (\<lambda>c. c \<noteq> 10) (take (nat (lim - 1)) (drop (m_read_ptr f) s)), f')"
    and "Eof f \<Longrightarrow> map_option fst (Fgets lim (ResetRead f)) = Some []"
proof -
  show "\<exists>f'. Fgets lim f = Some (if Eof f then []
      else takeWhile (\<lambda>c. c \<noteq> 10) (take (nat (lim - 1)) (drop (m_read_ptr f) s)), f')"
    using Fgets_loop_ok [OF assms, of lim "[]"] by (auto simp: Fgets_def Fgets_loop.simps [of lim "[]" f])
  show "map_option fst (Fgets lim (ResetRead f)) = Some []" if "Eof f"
  proof -
    have "Eof (ResetRead f)" using that by (simp add: Eof_def ResetRead_def)
    then show ?thesis by (simp add: Fgets_def Fgets_loop.simps [of lim "[]" "ResetRead f"])
  qed
qed

text \<open>
  \<open>Fgets\<close> returns the characters up to the next newline, the end of the file or \<open>size - 1\<close>
  characters, as long as no read has hit the end of the file; once one has, \<open>ResetRead\<close> does not
  clear the flag and every later \<open>Fgets\<close> returns the empty string.
\<close>
theorem Fgets_line:
  assumes "file_ok f cs s" and "reader_ok f cs"
  shows "(\<exists>f'. Fgets lim f = Some (if Eof f then []
      else takeWhile (\<lambda>c. c \<noteq> 10) (take (nat (lim - 1)) (drop (m_read_ptr f) s)), f')) \<and>
    (Eof f \<longrightarrow> map_option fst (Fgets lim (ResetRead f)) = Some [])"
  using Fgets_ok [OF assms] by blast

theorem Fgets_line_witness:
  "\<exists>f f'. MemFile_path (Some [104, 105, 10, 33]) = Some f \<and> Fgets 10 f = Some ([104, 105], f')"
proof (rule file_example)
  fix f cs assume "MemFile_path (Some [104, 105, 10, 33]) = Some f" "file_ok f cs [104, 105, 10, 33]" "reader_ok f cs"
    "\<not> Eof f" "m_read_ptr f = 0"
  with Fgets_line [of f cs "[104, 105, 10, 33]" 10] show ?thesis by (auto simp: take_Cons')
qed

end
