(* ===== verification/Digest.thy ===== *)
theory Digest
  imports Prelude
begin

text \<open>
  What the two message digests share: a message is cut into blocks of 64 bytes that a compression
  function folds into the state, and a context that is fed a message in pieces represents the bytes
  fed so far (the locale \<open>incremental_digest\<close>). Also the hexadecimal output of bytes and words.
\<close>

fun fold_blocks :: "('s \<Rightarrow> u8 list \<Rightarrow> 's) \<Rightarrow> 's \<Rightarrow> u8 list \<Rightarrow> 's" where
  "fold_blocks f s xs = (if length xs < 64 then s else fold_blocks f (f s (take 64 xs)) (drop 64 xs))"

declare fold_blocks.simps [simp del]

definition tail_bytes :: "u8 list \<Rightarrow> u8 list" where
  \<comment> \<open>the bytes after the last full block\<close>
  "tail_bytes xs = drop (64 * (length xs div 64)) xs"

lemma fold_blocks_short [simp]: "length xs < 64 \<Longrightarrow> fold_blocks f s xs = s"
  by (simp add: fold_blocks.simps)

lemma fold_blocks_block: "length b = 64 \<Longrightarrow> fold_blocks f s (b @ xs) = fold_blocks f (f s b) xs"
  by (subst fold_blocks.simps) simp

lemma fold_blocks_append:
  "64 dvd length xs \<Longrightarrow> fold_blocks f s (xs @ ys) = fold_blocks f (fold_blocks f s xs) ys"
proof (induction f s xs rule: fold_blocks.induct)
  case (1 f s xs)
  show ?case
  proof (cases "length xs < 64")
    case True
    then have "xs = []" using 1(2) by (auto dest: dvd_imp_le)
    then show ?thesis by simp
  next
    case False
    then have "xs = take 64 xs @ drop 64 xs" "length (take 64 xs) = 64" by simp_all
    moreover have "64 dvd length (drop 64 xs)" using 1(2) False by (simp add: dvd_diff_nat)
    ultimately show ?thesis
      using 1(1) [OF False] by (metis append.assoc fold_blocks_block)
  qed
qed

lemma tail_bytes_length: "length (tail_bytes xs) = length xs mod 64"
  by (simp add: tail_bytes_def minus_mult_div_eq_mod)

lemma tail_split: "\<exists>ys. xs = ys @ tail_bytes xs \<and> 64 dvd length ys"
proof -
  have "length (take (64 * (length xs div 64)) xs) = 64 * (length xs div 64)"
    using times_div_less_eq_dividend [of 64 "length xs"] unfolding length_take by (rule min_absorb2)
  then show ?thesis
    unfolding tail_bytes_def by (metis append_take_drop_id dvd_triv_left)
qed

lemma tail_append_eq: "64 dvd length ys \<Longrightarrow> tail_bytes (ys @ xs) = tail_bytes xs"
  by (auto simp: tail_bytes_def elim!: dvdE)

lemma tail_short [simp]: "length xs < 64 \<Longrightarrow> tail_bytes xs = xs"
  by (simp add: tail_bytes_def)

lemma tail_append: "tail_bytes (xs @ ys) = tail_bytes (tail_bytes xs @ ys)"
  using tail_split [of xs] tail_append_eq by (metis append.assoc)

lemma fold_blocks_tail:
  "fold_blocks f s (xs @ ys) = fold_blocks f (fold_blocks f s xs) (tail_bytes xs @ ys)"
proof -
  obtain zs where z: "xs = zs @ tail_bytes xs" "64 dvd length zs" using tail_split by blast
  have "fold_blocks f s xs = fold_blocks f (fold_blocks f s zs) (tail_bytes xs)"
    using z fold_blocks_append by metis
  moreover have "length (tail_bytes xs) < 64" by (simp add: tail_bytes_length)
  ultimately have "fold_blocks f s xs = fold_blocks f s zs" by simp
  then show ?thesis using z fold_blocks_append by (metis append.assoc)
qed

section \<open>Feeding a message in pieces\<close>

fun feed_all :: "('c \<Rightarrow> u8 list \<Rightarrow> 'c option) \<Rightarrow> 'c \<Rightarrow> u8 list list \<Rightarrow> 'c option" where
  "feed_all feed c [] = Some c"
| "feed_all feed c (x # xs) = Option.bind (feed c x) (\<lambda>c. feed_all feed c xs)"

locale incremental_digest =
  fixes rep :: "'c \<Rightarrow> u8 list \<Rightarrow> bool"
    and piece_ok :: "u8 list \<Rightarrow> bool"
    and feed :: "'c \<Rightarrow> u8 list \<Rightarrow> 'c option"
    and finish :: "'c \<Rightarrow> 'd option"
    and digest_of :: "u8 list \<Rightarrow> 'd"
  assumes feed: "rep c m \<Longrightarrow> piece_ok x \<Longrightarrow> \<exists>c'. feed c x = Some c' \<and> rep c' (m @ x)"
    and finish: "rep c m \<Longrightarrow> finish c = Some (digest_of m)"
begin

lemma feed_all_rep: "rep c m \<Longrightarrow> \<forall>x \<in> set xs. piece_ok x \<Longrightarrow> \<exists>c'. feed_all feed c xs = Some c' \<and> rep c' (m @ concat xs)"
proof (induction xs arbitrary: c m)
  case (Cons x xs)
  then obtain c' where "feed c x = Some c'" "rep c' (m @ x)" using feed by force
  then show ?case using Cons.IH [of c' "m @ x"] Cons.prems by simp
qed simp

lemma any_pieces:
  "rep c m \<Longrightarrow> \<forall>x \<in> set xs. piece_ok x \<Longrightarrow> Option.bind (feed_all feed c xs) finish = Some (digest_of (m @ concat xs))"
  using feed_all_rep finish by fastforce

end

section \<open>Words and bit counts\<close>

lemma rotl_shift:
  fixes x :: u32
  shows "0 < n \<Longrightarrow> n < 32 \<Longrightarrow> push_bit n x OR drop_bit (32 - n) x = word_rotl n x"
proof (rule bit_word_eqI)
  fix m assume n: "0 < n" "n < 32" and "m < LENGTH(32)"
  then have m: "m < 32" by simp
  have r: "bit (word_rotl n x) m = bit x ((m + (32 - n)) mod 32)"
    using n m by (simp add: bit_word_rotl_iff)
  have l: "bit (push_bit n x OR drop_bit (32 - n) x) m = (n \<le> m \<and> bit x (m - n) \<or> bit x (32 - n + m))"
    using m by (simp add: bit_simps)
  show "bit (push_bit n x OR drop_bit (32 - n) x) m = bit (word_rotl n x) m"
  proof (cases "n \<le> m")
    case True
    then have "(m + (32 - n)) mod 32 = m - n" using n m by (auto simp: mod_if)
    moreover have "\<not> bit x (32 - n + m)" using True n bit_imp_le_length [of x "32 - n + m"] by auto
    ultimately show ?thesis using l r True by simp
  next
    case False
    then have "(m + (32 - n)) mod 32 = 32 - n + m" using n m by (auto simp: mod_if)
    then show ?thesis using l r False by simp
  qed
qed

lemma unat_of_nat32: "n < 2 ^ 32 \<Longrightarrow> unat (of_nat n :: u32) = n"
  by (simp add: unat_of_nat take_bit_nat_eq_self_iff)

lemma count_lo: "of_nat (8 * n) + push_bit 3 (of_nat k :: u32) = of_nat (8 * (n + k))"
  by (simp add: push_bit_eq_mult distrib_left)

lemma count_hi:
  assumes "k < 2 ^ 32"
  shows "(of_nat (8 * n div 2 ^ 32) + (if (of_nat (8 * (n + k)) :: u32) < push_bit 3 (of_nat k) then 1 else 0))
      + drop_bit 29 (of_nat k) = (of_nat (8 * (n + k) div 2 ^ 32) :: u32)"
proof -
  define W :: nat where "W = 2 ^ 32"
  have W: "W = 4294967296" by (simp add: W_def)
  define a where "a = 8 * n mod W"
  define b where "b = 8 * k mod W"
  have lo: "unat (of_nat (8 * (n + k)) :: u32) = (a + b) mod W"
    unfolding unat_of_nat a_def b_def mod_add_eq by (simp add: W distrib_left)
  have "push_bit 3 (of_nat k :: u32) = of_nat (8 * k)" by (simp add: push_bit_eq_mult)
  then have sh: "unat (push_bit 3 (of_nat k :: u32)) = b"
    by (simp only: unat_of_nat b_def W_def) simp
  have hi: "drop_bit 29 (of_nat k :: u32) = of_nat (8 * k div W)"
  proof -
    have "unat (drop_bit 29 (of_nat k :: u32)) = k div 2 ^ 29"
      using assms unfolding drop_bit_eq_div unat_div by (simp add: unat_of_nat32)
    moreover have "8 * k div W = k div 2 ^ 29" by (simp add: W)
    moreover have "k div 2 ^ 29 < 2 ^ 32" using assms by (simp add: div_less_dividend le_less_trans [OF div_le_dividend])
    ultimately show ?thesis by (simp add: word_unat_eq_iff unat_of_nat32)
  qed
  have l: "(of_nat (8 * (n + k)) :: u32) < push_bit 3 (of_nat k) \<longleftrightarrow> (a + b) mod W < b"
    unfolding word_less_nat_alt lo sh ..
  have "a < W" "b < W" by (simp_all add: a_def b_def W)
  then have c: "(a + b) mod W < b \<longleftrightarrow> W \<le> a + b"
    by (auto simp: mod_if)
  have "8 * n = W * (8 * n div W) + a" "8 * k = W * (8 * k div W) + b" by (simp_all add: a_def b_def)
  then have "8 * (n + k) = W * (8 * n div W + 8 * k div W) + (a + b)"
    unfolding distrib_left by linarith
  moreover have "(W * q + (a + b)) div W = q + (a + b) div W" for q by (simp add: W)
  ultimately have "8 * (n + k) div W = 8 * n div W + 8 * k div W + (a + b) div W" by metis
  moreover have "(a + b) div W = 1" if "W \<le> a + b"
    using \<open>a < W\<close> \<open>b < W\<close> that by (intro div_nat_eqI) auto
  then have "(a + b) div W = (if W \<le> a + b then 1 else 0)" by simp
  ultimately have "8 * (n + k) div W = 8 * n div W + 8 * k div W + (if W \<le> a + b then 1 else 0)" by simp
  then show ?thesis
    unfolding W_def [symmetric] l c hi by (simp del: of_nat_mult of_nat_add add: of_nat_add [symmetric])
qed

section \<open>Hexadecimal output\<close>

definition hex_digit :: "nat \<Rightarrow> char" where
  "hex_digit d = ''0123456789abcdef'' ! d"

definition hex_byte :: "u8 \<Rightarrow> string" where
  \<comment> \<open>\<open>%02x\<close>\<close>
  "hex_byte b = [hex_digit (unat b div 16), hex_digit (unat b mod 16)]"

definition hex_word :: "u32 \<Rightarrow> string" where
  \<comment> \<open>\<open>%08x\<close>\<close>
  "hex_word w = map (\<lambda>i. hex_digit (unat w div 16 ^ i mod 16)) [7, 6, 5, 4, 3, 2, 1, 0]"

section \<open>Bytes and numbers\<close>

text \<open>The byte orders and the hexadecimal text as the published algorithms speak of them, independent of how the code computes them.\<close>

definition be_number :: "u8 list \<Rightarrow> nat" where
  \<comment> \<open>the most significant byte first\<close>
  "be_number bs = foldl (\<lambda>n b. 256 * n + unat b) 0 bs"

definition be_bytes :: "nat \<Rightarrow> nat \<Rightarrow> u8 list" where
  "be_bytes k n = map (\<lambda>i. of_nat (n div 256 ^ i)) (rev [0..<k])"

definition nibble :: "nat \<Rightarrow> char" where
  "nibble d = (if d < 10 then char_of (48 + d) else char_of (87 + d))"

definition hex_text :: "u8 list \<Rightarrow> string" where
  "hex_text bs = concat (map (\<lambda>b. [nibble (unat b div 16), nibble (unat b mod 16)]) bs)"

lemma length_be_bytes [simp]: "length (be_bytes k n) = k"
  by (simp add: be_bytes_def)

lemma be_bytes_4: "be_bytes 4 n = [of_nat (n div 2 ^ 24), of_nat (n div 2 ^ 16), of_nat (n div 2 ^ 8), of_nat n]"
proof -
  have "rev [0..<4] = [3, 2, 1, 0 :: nat]" by code_simp
  then show ?thesis unfolding be_bytes_def by simp
qed

lemma be_bytes_8:
  "be_bytes 8 n = [of_nat (n div 2 ^ 56), of_nat (n div 2 ^ 48), of_nat (n div 2 ^ 40), of_nat (n div 2 ^ 32)] @ be_bytes 4 n"
proof -
  have "rev [0..<8] = [7, 6, 5, 4, 3, 2, 1, 0 :: nat]" by code_simp
  then show ?thesis unfolding be_bytes_4 unfolding be_bytes_def by simp
qed

lemma disjoint_or: "(\<And>n. \<not> bit a n \<or> \<not> bit b n) \<Longrightarrow> a OR b = a + (b :: u32)"
  by (simp add: disjunctive_add)

lemma word_of_bytes:
  "of_nat (be_number [a, b, c, d]) = (push_bit 24 (ucast a) OR push_bit 16 (ucast b) OR push_bit 8 (ucast c) OR ucast d :: u32)"
proof -
  have small: "bit (ucast x :: u32) n \<Longrightarrow> n < 8" for x :: u8 and n
    by (auto simp: bit_simps dest: bit_imp_le_length)
  have "push_bit 8 (ucast c) OR ucast d = push_bit 8 (ucast c) + (ucast d :: u32)"
    by (rule disjoint_or) (auto simp: bit_push_bit_iff dest: small)
  moreover have "push_bit 16 (ucast b) OR (push_bit 8 (ucast c) OR ucast d) = push_bit 16 (ucast b) + (push_bit 8 (ucast c) OR ucast d :: u32)"
    by (rule disjoint_or) (auto simp: bit_push_bit_iff bit_or_iff dest!: small)
  moreover have "push_bit 24 (ucast a) OR (push_bit 16 (ucast b) OR (push_bit 8 (ucast c) OR ucast d)) =
      push_bit 24 (ucast a) + (push_bit 16 (ucast b) OR (push_bit 8 (ucast c) OR ucast d) :: u32)"
    by (rule disjoint_or) (auto simp: bit_push_bit_iff bit_or_iff dest!: small)
  ultimately have "(push_bit 24 (ucast a) OR push_bit 16 (ucast b) OR push_bit 8 (ucast c) OR ucast d :: u32) =
      2 ^ 24 * ucast a + 2 ^ 16 * ucast b + 2 ^ 8 * ucast c + ucast d"
    by (simp add: or.assoc push_bit_eq_mult mult.commute)
  moreover have "of_nat (be_number [a, b, c, d]) = 256 * (256 * (256 * ucast a + ucast b) + ucast c) + (ucast d :: u32)"
    by (simp add: be_number_def)
  ultimately show ?thesis by (simp add: distrib_left flip: mult.assoc)
qed

lemma byte_of_number: "k \<le> 24 \<Longrightarrow> (ucast (drop_bit k (of_nat n :: u32)) :: u8) = of_nat (n div 2 ^ k)"
  by (rule bit_word_eqI) (auto simp: bit_simps drop_bit_eq_div [symmetric])

lemma and_byte: "(ucast (w AND 0xFF :: u32) :: u8) = ucast w"
proof (rule bit_word_eqI)
  fix n assume "n < LENGTH(8)"
  then have "n < 8" by simp
  moreover have "(0xFF :: u32) = mask 8" by (simp add: mask_eq_exp_minus_1)
  ultimately have "bit (0xFF :: u32) n" by (simp only: bit_mask_iff) simp
  then show "bit (ucast (w AND 0xFF :: u32) :: u8) n = bit (ucast w :: u8) n" using \<open>n < 8\<close> by (simp only: bit_ucast_iff bit_and_iff) simp
qed

lemma nibble_digit: "d < 16 \<Longrightarrow> nibble d = hex_digit d"
proof -
  have "list_all (\<lambda>d. nibble d = hex_digit d) [0..<16]" by code_simp
  then show "d < 16 \<Longrightarrow> nibble d = hex_digit d" by (simp add: list_all_iff del: upt_rec_numeral)
qed

lemma hex_byte_text: "hex_byte b = hex_text [b]"
proof -
  have "unat b < 2 ^ 8" using unsigned_less [of b] by simp
  then show ?thesis by (simp add: hex_byte_def hex_text_def nibble_digit less_mult_imp_div_less)
qed

lemma hex_bytes_text: "concat (map hex_byte bs) = hex_text bs"
  unfolding hex_byte_text by (simp add: hex_text_def)

lemma hex_word_text: "hex_word w = hex_text (be_bytes 4 (unat w))"
proof -
  have u: "unat (of_nat n :: u8) = n mod 256" for n by (simp add: unat_of_nat)
  moreover from this [of "unat w"] have "unat (ucast w :: u8) = unat w mod 256" by simp
  moreover have "n mod 256 = 16 * (n div 16 mod 16) + n mod 16" for n :: nat
    using mod_mult2_eq [of n 16 16] by simp
  then have "n mod 256 div 16 = n div 16 mod 16" "n mod 256 mod 16 = n mod 16" for n :: nat by simp_all
  moreover have "rev [0..<4] = [3, 2, 1, 0 :: nat]" by code_simp
  ultimately show ?thesis
    by (simp add: hex_word_def hex_text_def be_bytes_def nibble_digit div_mult2_eq [symmetric] comp_def)
qed

lemma fold_blocks_cong: "(\<And>s b. length b = 64 \<Longrightarrow> f s b = g s b) \<Longrightarrow> fold_blocks f s xs = fold_blocks g s xs"
proof (induction f s xs rule: fold_blocks.induct)
  case (1 f s xs)
  then show ?case by (simp add: fold_blocks.simps [of f s xs] fold_blocks.simps [of g s xs])
qed

end
