(* ===== verification/MD5.thy ===== *)
theory MD5
  imports Digest CString
begin

text \<open>
  \<open>utils/md5.h\<close>, \<open>utils/md5.cpp\<close>: the class \<open>MD5\<close>. \<open>uint4\<close> values are 32-bit words, whose addition
  wraps. A context is a record of the class's fields; the buffer of a new object is not initialised,
  so \<open>init\<close> works on a context with any buffer. The 64 calls of \<open>transform\<close> are a list, one entry per
  line of the source, that is run from the left.
\<close>

section \<open>The compression function\<close>

definition S11 :: nat where "S11 = 7"

definition S12 :: nat where "S12 = 12"

definition S13 :: nat where "S13 = 17"

definition S14 :: nat where "S14 = 22"

definition S21 :: nat where "S21 = 5"

definition S22 :: nat where "S22 = 9"

definition S23 :: nat where "S23 = 14"

definition S24 :: nat where "S24 = 20"

definition S31 :: nat where "S31 = 4"

definition S32 :: nat where "S32 = 11"

definition S33 :: nat where "S33 = 16"

definition S34 :: nat where "S34 = 23"

definition S41 :: nat where "S41 = 6"

definition S42 :: nat where "S42 = 10"

definition S43 :: nat where "S43 = 15"

definition S44 :: nat where "S44 = 21"

definition F1 :: "u32 \<Rightarrow> u32 \<Rightarrow> u32 \<Rightarrow> u32" where
  "F1 x y z = (x AND y) OR (NOT x AND z)"

definition G1 :: "u32 \<Rightarrow> u32 \<Rightarrow> u32 \<Rightarrow> u32" where
  "G1 x y z = (x AND z) OR (y AND NOT z)"

definition H1 :: "u32 \<Rightarrow> u32 \<Rightarrow> u32 \<Rightarrow> u32" where
  "H1 x y z = x XOR y XOR z"

definition I1 :: "u32 \<Rightarrow> u32 \<Rightarrow> u32 \<Rightarrow> u32" where
  "I1 x y z = y XOR (x OR NOT z)"

definition rotate_left :: "u32 \<Rightarrow> nat \<Rightarrow> u32" where
  "rotate_left x n = push_bit n x OR drop_bit (32 - n) x"

text \<open>The new value of the first argument, which the code passes by reference.\<close>

definition FF1 :: "u32 \<Rightarrow> u32 \<Rightarrow> u32 \<Rightarrow> u32 \<Rightarrow> u32 \<Rightarrow> nat \<Rightarrow> u32 \<Rightarrow> u32" where
  "FF1 a b c d x s ac = rotate_left (a + F1 b c d + x + ac) s + b"

definition GG1 :: "u32 \<Rightarrow> u32 \<Rightarrow> u32 \<Rightarrow> u32 \<Rightarrow> u32 \<Rightarrow> nat \<Rightarrow> u32 \<Rightarrow> u32" where
  "GG1 a b c d x s ac = rotate_left (a + G1 b c d + x + ac) s + b"

definition HH1 :: "u32 \<Rightarrow> u32 \<Rightarrow> u32 \<Rightarrow> u32 \<Rightarrow> u32 \<Rightarrow> nat \<Rightarrow> u32 \<Rightarrow> u32" where
  "HH1 a b c d x s ac = rotate_left (a + H1 b c d + x + ac) s + b"

definition II1 :: "u32 \<Rightarrow> u32 \<Rightarrow> u32 \<Rightarrow> u32 \<Rightarrow> u32 \<Rightarrow> nat \<Rightarrow> u32 \<Rightarrow> u32" where
  "II1 a b c d x s ac = rotate_left (a + I1 b c d + x + ac) s + b"

type_synonym md5_state = "u32 \<times> u32 \<times> u32 \<times> u32"

datatype var = Va | Vb | Vc | Vd

type_synonym md5_call = "(u32 \<Rightarrow> u32 \<Rightarrow> u32 \<Rightarrow> u32 \<Rightarrow> u32 \<Rightarrow> nat \<Rightarrow> u32 \<Rightarrow> u32) \<times> var \<times> nat \<times> nat \<times> u32"

fun run_call :: "u32 list \<Rightarrow> md5_state \<Rightarrow> md5_call \<Rightarrow> md5_state" where
  \<comment> \<open>\<open>f(v, ., ., ., x[k], s, ac)\<close>, the other variables following \<open>v\<close> in the order a, b, c, d, a, ...\<close>
  "run_call x (a, b, c, d) (f, Va, k, s, ac) = (f a b c d (x ! k) s ac, b, c, d)"
| "run_call x (a, b, c, d) (f, Vd, k, s, ac) = (a, b, c, f d a b c (x ! k) s ac)"
| "run_call x (a, b, c, d) (f, Vc, k, s, ac) = (a, b, f c d a b (x ! k) s ac, d)"
| "run_call x (a, b, c, d) (f, Vb, k, s, ac) = (a, f b c d a (x ! k) s ac, c, d)"

definition transform_calls :: "md5_call list" where
  "transform_calls = [
     (FF1, Va, 0, S11, 0xd76aa478), (FF1, Vd, 1, S12, 0xe8c7b756),
     (FF1, Vc, 2, S13, 0x242070db), (FF1, Vb, 3, S14, 0xc1bdceee),
     (FF1, Va, 4, S11, 0xf57c0faf), (FF1, Vd, 5, S12, 0x4787c62a),
     (FF1, Vc, 6, S13, 0xa8304613), (FF1, Vb, 7, S14, 0xfd469501),
     (FF1, Va, 8, S11, 0x698098d8), (FF1, Vd, 9, S12, 0x8b44f7af),
     (FF1, Vc, 10, S13, 0xffff5bb1), (FF1, Vb, 11, S14, 0x895cd7be),
     (FF1, Va, 12, S11, 0x6b901122), (FF1, Vd, 13, S12, 0xfd987193),
     (FF1, Vc, 14, S13, 0xa679438e), (FF1, Vb, 15, S14, 0x49b40821),
     (GG1, Va, 1, S21, 0xf61e2562), (GG1, Vd, 6, S22, 0xc040b340),
     (GG1, Vc, 11, S23, 0x265e5a51), (GG1, Vb, 0, S24, 0xe9b6c7aa),
     (GG1, Va, 5, S21, 0xd62f105d), (GG1, Vd, 10, S22, 0x2441453),
     (GG1, Vc, 15, S23, 0xd8a1e681), (GG1, Vb, 4, S24, 0xe7d3fbc8),
     (GG1, Va, 9, S21, 0x21e1cde6), (GG1, Vd, 14, S22, 0xc33707d6),
     (GG1, Vc, 3, S23, 0xf4d50d87), (GG1, Vb, 8, S24, 0x455a14ed),
     (GG1, Va, 13, S21, 0xa9e3e905), (GG1, Vd, 2, S22, 0xfcefa3f8),
     (GG1, Vc, 7, S23, 0x676f02d9), (GG1, Vb, 12, S24, 0x8d2a4c8a),
     (HH1, Va, 5, S31, 0xfffa3942), (HH1, Vd, 8, S32, 0x8771f681),
     (HH1, Vc, 11, S33, 0x6d9d6122), (HH1, Vb, 14, S34, 0xfde5380c),
     (HH1, Va, 1, S31, 0xa4beea44), (HH1, Vd, 4, S32, 0x4bdecfa9),
     (HH1, Vc, 7, S33, 0xf6bb4b60), (HH1, Vb, 10, S34, 0xbebfbc70),
     (HH1, Va, 13, S31, 0x289b7ec6), (HH1, Vd, 0, S32, 0xeaa127fa),
     (HH1, Vc, 3, S33, 0xd4ef3085), (HH1, Vb, 6, S34, 0x4881d05),
     (HH1, Va, 9, S31, 0xd9d4d039), (HH1, Vd, 12, S32, 0xe6db99e5),
     (HH1, Vc, 15, S33, 0x1fa27cf8), (HH1, Vb, 2, S34, 0xc4ac5665),
     (II1, Va, 0, S41, 0xf4292244), (II1, Vd, 7, S42, 0x432aff97),
     (II1, Vc, 14, S43, 0xab9423a7), (II1, Vb, 5, S44, 0xfc93a039),
     (II1, Va, 12, S41, 0x655b59c3), (II1, Vd, 3, S42, 0x8f0ccc92),
     (II1, Vc, 10, S43, 0xffeff47d), (II1, Vb, 1, S44, 0x85845dd1),
     (II1, Va, 8, S41, 0x6fa87e4f), (II1, Vd, 15, S42, 0xfe2ce6e0),
     (II1, Vc, 6, S43, 0xa3014314), (II1, Vb, 13, S44, 0x4e0811a1),
     (II1, Va, 4, S41, 0xf7537e82), (II1, Vd, 11, S42, 0xbd3af235),
     (II1, Vc, 2, S43, 0x2ad7d2bb), (II1, Vb, 9, S44, 0xeb86d391)]"

fun decode :: "u8 list \<Rightarrow> u32 list" where
  "decode (a # b # c # d # r) =
     (ucast a OR push_bit 8 (ucast b) OR push_bit 16 (ucast c) OR push_bit 24 (ucast d)) # decode r"
| "decode _ = []"

fun encode :: "u32 list \<Rightarrow> u8 list" where
  "encode (w # r) = [ucast (w AND 0xff), ucast (drop_bit 8 w AND 0xff), ucast (drop_bit 16 w AND 0xff),
     ucast (drop_bit 24 w AND 0xff)] @ encode r"
| "encode [] = []"

fun add_state :: "md5_state \<Rightarrow> md5_state \<Rightarrow> md5_state" where
  "add_state (s0, s1, s2, s3) (a, b, c, d) = (s0 + a, s1 + b, s2 + c, s3 + d)"

definition transform :: "md5_state \<Rightarrow> u8 list \<Rightarrow> md5_state" where
  "transform state block = add_state state (foldl (run_call (decode block)) state transform_calls)"

section \<open>The context\<close>

record md5 =
  finalized :: bool
  buffer :: "u8 list"
  count0 :: u32
  count1 :: u32
  state :: md5_state
  digest :: "u8 list"

definition init :: "md5 \<Rightarrow> md5" where
  "init c = c\<lparr>finalized := False, count0 := 0, count1 := 0,
     state := (0x67452301, 0xefcdab89, 0x98badcfe, 0x10325476)\<rparr>"

partial_function (option) update_loop :: "u8 list \<Rightarrow> u32 \<Rightarrow> u32 \<Rightarrow> md5_state \<Rightarrow> (u32 \<times> md5_state) option" where
  "update_loop input len i st =
     (if i + 64 \<le> len
      then Option.bind (mem_read input (unat i) 64) (\<lambda>b. update_loop input len (i + 64) (transform st b))
      else Some (i, st))"

declare update_loop.simps [code]

definition update :: "u8 list \<Rightarrow> u32 \<Rightarrow> md5 \<Rightarrow> md5 option" where
  "update input len c =
     (let index = unat (count0 c div 8 mod 64);
          c = c\<lparr>count0 := count0 c + push_bit 3 len\<rparr>;
          c = (if count0 c < push_bit 3 len then c\<lparr>count1 := count1 c + 1\<rparr> else c);
          c = c\<lparr>count1 := count1 c + drop_bit 29 len\<rparr>;
          firstpart = 64 - of_nat index
      in if len \<ge> firstpart then do {
           b \<leftarrow> mem_read input 0 (unat firstpart);
           buf \<leftarrow> mem_write (buffer c) index b;
           (i, st) \<leftarrow> update_loop input len firstpart (transform (state c) buf);
           b \<leftarrow> mem_read input (unat i) (unat (len - i));
           buf \<leftarrow> mem_write buf 0 b;
           Some (c\<lparr>buffer := buf, state := st\<rparr>)
         } else do {
           b \<leftarrow> mem_read input 0 (unat len);
           buf \<leftarrow> mem_write (buffer c) index b;
           Some (c\<lparr>buffer := buf\<rparr>)
         })"

definition padding :: "u8 list" where
  "padding = 0x80 # replicate 63 0"

definition words_of_state :: "md5_state \<Rightarrow> u32 list" where
  "words_of_state s = (case s of (a, b, c, d) \<Rightarrow> [a, b, c, d])"

definition finalize :: "md5 \<Rightarrow> md5 option" where
  "finalize c =
     (if finalized c then Some c
      else do {
        let bits = encode [count0 c, count1 c];
        let index = count0 c div 8 mod 64;
        let padLen = (if index < 56 then 56 - index else 120 - index);
        c \<leftarrow> update padding padLen c;
        c \<leftarrow> update bits 8 c;
        Some (c\<lparr>digest := encode (words_of_state (state c)), buffer := replicate 64 0,
                count0 := 0, count1 := 0, finalized := True\<rparr>)
      })"

definition hexdigest :: "md5 \<Rightarrow> string" where
  "hexdigest c = (if finalized c then concat (map hex_byte (take 16 (digest c))) else [])"

definition MD5_text :: "u8 list \<Rightarrow> md5 \<Rightarrow> md5 option" where
  \<comment> \<open>the constructor from a text; the argument \<open>c\<close> is the memory the object is built in\<close>
  "MD5_text text c = do {
     c \<leftarrow> update text (of_nat (length text)) (init c);
     finalize c
   }"

definition DigestHex :: "u8 list \<Rightarrow> md5 \<Rightarrow> string option" where
  "DigestHex str c = map_option hexdigest (MD5_text str c)"

definition Digest64 :: "u8 list \<Rightarrow> md5 \<Rightarrow> u64 option" where
  \<comment> \<open>the first eight bytes of the digest, read as a little-endian number\<close>
  "Digest64 str c = map_option (\<lambda>c. case decode (take 8 (digest c)) of
       [lo, hi] \<Rightarrow> ucast lo OR push_bit 32 (ucast hi) | _ \<Rightarrow> 0) (MD5_text str c)"

section \<open>The digest of RFC 1321\<close>

definition rfc_K :: "u32 list" where
  "rfc_K = [
     0xd76aa478, 0xe8c7b756, 0x242070db, 0xc1bdceee, 0xf57c0faf, 0x4787c62a, 0xa8304613, 0xfd469501,
     0x698098d8, 0x8b44f7af, 0xffff5bb1, 0x895cd7be, 0x6b901122, 0xfd987193, 0xa679438e, 0x49b40821,
     0xf61e2562, 0xc040b340, 0x265e5a51, 0xe9b6c7aa, 0xd62f105d, 0x2441453, 0xd8a1e681, 0xe7d3fbc8,
     0x21e1cde6, 0xc33707d6, 0xf4d50d87, 0x455a14ed, 0xa9e3e905, 0xfcefa3f8, 0x676f02d9, 0x8d2a4c8a,
     0xfffa3942, 0x8771f681, 0x6d9d6122, 0xfde5380c, 0xa4beea44, 0x4bdecfa9, 0xf6bb4b60, 0xbebfbc70,
     0x289b7ec6, 0xeaa127fa, 0xd4ef3085, 0x4881d05, 0xd9d4d039, 0xe6db99e5, 0x1fa27cf8, 0xc4ac5665,
     0xf4292244, 0x432aff97, 0xab9423a7, 0xfc93a039, 0x655b59c3, 0x8f0ccc92, 0xffeff47d, 0x85845dd1,
     0x6fa87e4f, 0xfe2ce6e0, 0xa3014314, 0x4e0811a1, 0xf7537e82, 0xbd3af235, 0x2ad7d2bb, 0xeb86d391]"

definition rfc_fn :: "nat \<Rightarrow> u32 \<Rightarrow> u32 \<Rightarrow> u32 \<Rightarrow> u32" where
  "rfc_fn i b c d =
     (if i < 16 then (b AND c) OR (NOT b AND d) else if i < 32 then (b AND d) OR (c AND NOT d)
      else if i < 48 then b XOR c XOR d else c XOR (b OR NOT d))"

definition rfc_idx :: "nat \<Rightarrow> nat" where
  "rfc_idx i = (if i < 16 then i else if i < 32 then 5 * i + 1 else if i < 48 then 3 * i + 5 else 7 * i) mod 16"

definition rfc_shift :: "nat \<Rightarrow> nat" where
  "rfc_shift i = [[7, 12, 17, 22], [5, 9, 14, 20], [4, 11, 16, 23], [6, 10, 15, 21]] ! (i div 16) ! (i mod 4)"

definition rfc_step :: "u32 list \<Rightarrow> md5_state \<Rightarrow> nat \<Rightarrow> md5_state" where
  "rfc_step x s i = (case s of (a, b, c, d) \<Rightarrow>
     (d, word_rotl (rfc_shift i) (a + rfc_fn i b c d + x ! rfc_idx i + rfc_K ! i) + b, b, c))"

definition rfc_words :: "u8 list \<Rightarrow> u32 list" where
  \<comment> \<open>the least significant byte of a word comes first\<close>
  "rfc_words block = map (\<lambda>k. of_nat (be_number (rev (take 4 (drop (4 * k) block))))) [0..<16]"

definition rfc_compress :: "md5_state \<Rightarrow> u8 list \<Rightarrow> md5_state" where
  "rfc_compress s block =
     (case foldl (rfc_step (rfc_words block)) s [0..<64] of (a', b', c', d') \<Rightarrow>
        case s of (a, b, c, d) \<Rightarrow> (a + a', b + b', c + c', d + d'))"

definition rfc_pad :: "u8 list \<Rightarrow> u8 list" where
  "rfc_pad m = m @ [0x80] @ replicate ((119 - length m mod 64) mod 64) 0 @
     rev (be_bytes 8 (8 * length m))"

definition rfc_md5 :: "u8 list \<Rightarrow> u8 list" where
  "rfc_md5 m =
     (case fold_blocks rfc_compress (0x67452301, 0xefcdab89, 0x98badcfe, 0x10325476) (rfc_pad m) of (a, b, c, d) \<Rightarrow>
        concat (map (\<lambda>w. rev (be_bytes 4 (unat w))) [a, b, c, d]))"

section \<open>The compression function is that of the RFC\<close>

definition var_of :: "nat \<Rightarrow> var" where
  "var_of i = [Va, Vd, Vc, Vb] ! (i mod 4)"

definition call_fn :: "nat \<Rightarrow> u32 \<Rightarrow> u32 \<Rightarrow> u32 \<Rightarrow> u32 \<Rightarrow> u32 \<Rightarrow> nat \<Rightarrow> u32 \<Rightarrow> u32" where
  "call_fn i = [FF1, GG1, HH1, II1] ! (i div 16)"

lemma transform_calls_table:
  "transform_calls = map (\<lambda>i. (call_fn i, var_of i, rfc_idx i, rfc_shift i, rfc_K ! i)) [0..<64]"
  by (simp add: transform_calls_def upt_rec call_fn_def var_of_def rfc_idx_def rfc_shift_def rfc_K_def S11_def S12_def S13_def S14_def S21_def S22_def S23_def S24_def S31_def S32_def S33_def S34_def S41_def S42_def S43_def S44_def)

fun rot_state :: "nat \<Rightarrow> md5_state \<Rightarrow> md5_state" where
  \<comment> \<open>the variables of the code after \<open>i\<close> calls, in the order of the RFC\<close>
  "rot_state i (a, b, c, d) =
     (if i mod 4 = 0 then (a, b, c, d) else if i mod 4 = 1 then (d, a, b, c)
      else if i mod 4 = 2 then (c, d, a, b) else (b, c, d, a))"

lemma rotate_left_rotl: "0 < n \<Longrightarrow> n < 32 \<Longrightarrow> rotate_left x n = word_rotl n x"
  by (simp add: rotate_left_def rotl_shift)

lemma call_fn_eq:
  assumes "i < 64" "0 < s" "s < 32"
  shows "call_fn i a b c d x s ac = word_rotl s (a + rfc_fn i b c d + x + ac) + b"
proof -
  have "i div 16 = 0 \<or> i div 16 = 1 \<or> i div 16 = 2 \<or> i div 16 = 3" using assms by auto
  moreover have "i < 16 \<longleftrightarrow> i div 16 = 0" "i < 32 \<longleftrightarrow> i div 16 \<le> 1" "i < 48 \<longleftrightarrow> i div 16 \<le> 2" by auto
  ultimately show ?thesis
    using assms by (auto simp: call_fn_def rfc_fn_def rotate_left_rotl FF1_def GG1_def HH1_def II1_def
      F1_def G1_def H1_def I1_def numeral_2_eq_2 numeral_3_eq_3)
qed

lemma rfc_shift_range: "i < 64 \<Longrightarrow> 0 < rfc_shift i \<and> rfc_shift i < 32"
proof -
  assume "i < 64"
  then have "i div 16 = 0 \<or> i div 16 = 1 \<or> i div 16 = 2 \<or> i div 16 = 3" by auto
  moreover have "i mod 4 = 0 \<or> i mod 4 = 1 \<or> i mod 4 = 2 \<or> i mod 4 = 3" by auto
  ultimately show ?thesis by (auto simp: rfc_shift_def numeral_2_eq_2 numeral_3_eq_3)
qed

lemma run_call_step:
  assumes "i < 64"
  shows "rot_state (Suc i) (run_call x s (call_fn i, var_of i, rfc_idx i, rfc_shift i, rfc_K ! i)) =
    rfc_step x (rot_state i s) i"
proof -
  obtain a b c d where s: "s = (a, b, c, d)" by (cases s) auto
  have "i mod 4 = 0 \<or> i mod 4 = 1 \<or> i mod 4 = 2 \<or> i mod 4 = 3" by auto
  then show ?thesis
    using call_fn_eq [OF assms, of "rfc_shift i"] rfc_shift_range [OF assms]
    by (elim disjE) (simp_all add: s var_of_def rfc_step_def mod_Suc)
qed

lemma length_decode: "length (decode b) = length b div 4"
  by (induction b rule: decode.induct) simp_all

lemma decode_nth: "k < length b div 4 \<Longrightarrow> decode b ! k = of_nat (be_number (rev (take 4 (drop (4 * k) b))))"
proof (induction b arbitrary: k rule: decode.induct)
  case (1 a b c d r)
  show ?case
  proof (cases k)
    case 0
    then show ?thesis using word_of_bytes [of d c b a] by (simp add: ac_simps)
  next
    case (Suc j)
    have "drop (4 * k) (a # b # c # d # r) = drop (4 * j) r" using Suc by (simp add: numeral_eq_Suc)
    then show ?thesis using 1 Suc by simp
  qed
qed auto

lemma decode_rfc: "length b = 64 \<Longrightarrow> decode b = rfc_words b"
  by (intro nth_equalityI) (simp_all add: rfc_words_def length_decode decode_nth del: upt_rec_numeral)

lemma encode_word: "encode [w] = rev (be_bytes 4 (unat w))"
proof -
  have "ucast (drop_bit k w) = (of_nat (unat w div 2 ^ k) :: u8)" if "k \<le> 24" for k
    using byte_of_number [OF that, of "unat w"] by simp
  from this [of 0] this [of 8] this [of 16] this [of 24] show ?thesis
    by (simp add: and_byte be_bytes_4)
qed

lemma encode_number: "encode [of_nat n, of_nat (n div 2 ^ 32)] = rev (be_bytes 8 n)"
proof -
  have "n div 2 ^ 32 div 2 ^ k = n div 2 ^ (32 + k)" for k by (simp add: div_mult2_eq [symmetric] power_add)
  from this [of 8] this [of 16] this [of 24] show ?thesis
    using byte_of_number [of 0 n] byte_of_number [of 8 n] byte_of_number [of 16 n] byte_of_number [of 24 n]
      byte_of_number [of 0 "n div 2 ^ 32"] byte_of_number [of 8 "n div 2 ^ 32"] byte_of_number [of 16 "n div 2 ^ 32"] byte_of_number [of 24 "n div 2 ^ 32"]
    by (simp add: and_byte be_bytes_8 be_bytes_4)
qed

lemma transform_rfc:
  assumes "length block = 64"
  shows "transform s block = rfc_compress s block"
proof -
  let ?c = "\<lambda>i. (call_fn i, var_of i, rfc_idx i, rfc_shift i, rfc_K ! i)"
  have "n \<le> 64 \<Longrightarrow> rot_state n (foldl (run_call x) s (map ?c [0..<n])) = foldl (rfc_step x) s [0..<n]" for n x
  proof (induction n)
    case 0
    show ?case by (cases s) simp
  next
    case (Suc n)
    then show ?case by (simp del: rot_state.simps add: run_call_step)
  qed
  from this [of 64] have "rot_state 64 (foldl (run_call (decode block)) s transform_calls) =
      foldl (rfc_step (decode block)) s [0..<64]"
    by (simp only: transform_calls_table)
  moreover have "rot_state 64 t = t" for t by (cases t) simp
  ultimately show ?thesis by (simp add: transform_def rfc_compress_def decode_rfc [OF assms] split: prod.splits)
qed

section \<open>Coding of words\<close>

lemma encode_le32: "encode (w # r) = le32 w @ encode r"
proof -
  have m: "(255 :: u32) = mask 8" by (simp add: mask_eq_exp_minus_1)
  have "ucast (v AND mask 8) = (ucast v :: u8)" for v :: u32
    by (intro bit_word_eqI) (auto simp: bit_simps)
  then show ?thesis unfolding encode.simps m by (simp add: le32_def)
qed

lemma decode_le32: "length b = 4 \<Longrightarrow> decode (b @ r) = of_le32 b # decode r"
  by (auto simp: length_Suc_conv numeral_eq_Suc)

lemma decode_encode_words: "decode (encode ws) = ws"
  by (induction ws) (simp_all add: encode_le32 decode_le32 del: encode.simps(1))

lemma length_encode [simp]: "length (encode ws) = 4 * length ws"
  by (induction ws) simp_all

lemma le32_of_le32: "length b = 4 \<Longrightarrow> le32 (of_le32 b) = b"
proof -
  have "ucast (ucast a OR push_bit 8 (ucast b) OR push_bit 16 (ucast c) OR push_bit 24 (ucast d) :: u32) = a"
    "ucast (drop_bit 8 (ucast a OR push_bit 8 (ucast b) OR push_bit 16 (ucast c) OR push_bit 24 (ucast d) :: u32)) = b"
    "ucast (drop_bit 16 (ucast a OR push_bit 8 (ucast b) OR push_bit 16 (ucast c) OR push_bit 24 (ucast d) :: u32)) = c"
    "ucast (drop_bit 24 (ucast a OR push_bit 8 (ucast b) OR push_bit 16 (ucast c) OR push_bit 24 (ucast d) :: u32)) = d"
    for a b c d :: u8
    by (rule bit_word_eqI; auto simp: bit_simps dest: bit_imp_le_length)+
  moreover assume "length b = 4"
  ultimately show ?thesis by (auto simp: le32_def length_Suc_conv numeral_eq_Suc)
qed

lemma encode_decode: "4 dvd length bs \<Longrightarrow> encode (decode bs) = bs"
proof (induction bs rule: decode.induct)
  case (1 a b c d r)
  have "4 dvd length r" using 1(2) by simp presburger
  then have "encode (decode r) = r" by (rule 1(1))
  moreover have "decode (a # b # c # d # r) = of_le32 [a, b, c, d] # decode r" by simp
  ultimately show ?case using le32_of_le32 [of "[a, b, c, d]"] by (simp only: encode_le32) simp
qed (auto dest: dvd_imp_le)

section \<open>The context represents the bytes it was fed\<close>

definition md5_iv :: md5_state where
  "md5_iv = (0x67452301, 0xefcdab89, 0x98badcfe, 0x10325476)"

definition md5_rep :: "md5 \<Rightarrow> u8 list \<Rightarrow> bool" where
  "md5_rep c m \<longleftrightarrow> \<not> finalized c \<and> length (buffer c) = 64 \<and>
     count0 c = of_nat (8 * length m) \<and> count1 c = of_nat (8 * length m div 2 ^ 32) \<and>
     state c = fold_blocks transform md5_iv m \<and> take (length m mod 64) (buffer c) = tail_bytes m"

definition md5_piece :: "u8 list \<Rightarrow> bool" where
  \<comment> \<open>pieces whose loop counter does not wrap\<close>
  "md5_piece x \<longleftrightarrow> length x < 2 ^ 32 - 64"

lemma index_of_count: "unat (of_nat (8 * n) div 8 mod 64 :: u32) = n mod 64"
proof -
  have "unat (of_nat (8 * n) :: u32) = 8 * n mod 2 ^ 32" by (simp only: unat_of_nat) simp
  then have "unat (of_nat (8 * n) div 8 mod 64 :: u32) = (8 * n mod (8 * 2 ^ 29)) div 8 mod 64"
    by (simp add: unat_div unat_mod)
  also have "\<dots> = n mod 2 ^ 29 mod (64 :: nat)"
    by (simp only: mult_mod_right [symmetric]) simp
  also have "\<dots> = n mod 64" by (rule mod_mod_cancel) simp
  finally show ?thesis .
qed

lemma mem_read_take: "i + n \<le> k \<Longrightarrow> k \<le> length y \<Longrightarrow> mem_read y i n = mem_read (take k y) i n"
  by (simp add: mem_read_def drop_take min_def)

lemma update_loop_run:
  assumes y: "unat len \<le> length y" "x = take (unat len) y" and l: "unat len < 2 ^ 32 - 64" and i: "unat i \<le> unat len"
  shows "\<exists>i'. update_loop y len i st = Some (i', fold_blocks transform st (drop (unat i) x)) \<and>
    unat i' \<le> unat len \<and> drop (unat i') x = tail_bytes (drop (unat i) x)"
  using i
proof (induction "unat len - unat i" arbitrary: i st rule: less_induct)
  case less
  have i64: "unat (i + 64) = unat i + 64"
    using less(2) l by (simp add: unat_add_lem [THEN iffD1])
  have lx: "length x = unat len" using y by simp
  show ?case
  proof (cases "unat i + 64 \<le> unat len")
    case False
    then have "update_loop y len i st = Some (i, st)"
      using i64 by (simp add: update_loop.simps [of y len i st] word_le_nat_alt)
    then show ?thesis using False less(2) lx by simp
  next
    case True
    have "mem_read y (unat i) 64 = Some (take 64 (drop (unat i) x))"
      using mem_read_take [OF True y(1)] True lx by (simp add: y(2) [symmetric] mem_read_in)
    then have "update_loop y len i st = update_loop y len (i + 64) (transform st (take 64 (drop (unat i) x)))"
      using True i64 by (simp add: update_loop.simps [of y len i st] word_le_nat_alt)
    moreover have "unat len - unat (i + 64) < unat len - unat i" "unat (i + 64) \<le> unat len"
      using i64 True by auto
    then obtain i' where "update_loop y len (i + 64) (transform st (take 64 (drop (unat i) x))) =
        Some (i', fold_blocks transform (transform st (take 64 (drop (unat i) x))) (drop (unat (i + 64)) x))"
      "unat i' \<le> unat len" "drop (unat i') x = tail_bytes (drop (unat (i + 64)) x)"
      using less(1) by blast
    moreover have s: "drop (unat i) x = take 64 (drop (unat i) x) @ drop (unat (i + 64)) x"
      using i64 by (metis add.commute append_take_drop_id drop_drop)
    moreover have l: "length (take 64 (drop (unat i) x)) = 64" using True lx by simp
    ultimately show ?thesis
      by (metis fold_blocks_block tail_append_eq dvd_refl)
  qed
qed

lemma update_feed:
  assumes r: "md5_rep c m" and y: "k \<le> length y" "x = take k y" and x: "md5_piece x"
  shows "\<exists>c'. update y (of_nat k) c = Some c' \<and> md5_rep c' (m @ x)"
proof -
  define n where "n = length m"
  have k_def: "k = length x" using y by simp
  define idx where "idx = n mod 64"
  have kl: "k < 2 ^ 32 - 64" using x by (simp add: md5_piece_def k_def)
  have uk: "unat (of_nat k :: u32) = k" using kl by (intro unat_of_nat32) simp
  have c: "length (buffer c) = 64" "count0 c = of_nat (8 * n)" "count1 c = of_nat (8 * n div 2 ^ 32)"
    "state c = fold_blocks transform md5_iv m" "take idx (buffer c) = tail_bytes m" "\<not> finalized c"
    using r by (auto simp: md5_rep_def n_def idx_def)
  have idx: "unat (count0 c div 8 mod 64) = idx" unfolding c(2) idx_def by (rule index_of_count)
  have i64: "idx < 64" by (simp add: idx_def)
  have "(64 - of_nat idx :: u32) = of_nat (64 - idx)" using i64 by (simp add: of_nat_diff)
  then have fp: "unat (64 - of_nat idx :: u32) = 64 - idx" by (simp add: unat_of_nat32)
  define P where "P = push_bit 3 (of_nat k :: u32)"
  define D where "D = drop_bit 29 (of_nat k :: u32)"
  define S where "S = (of_nat (8 * (n + k)) :: u32)"
  define T where "T = (of_nat (8 * (n + k) div 2 ^ 32) :: u32)"
  define d where "d = c\<lparr>count0 := S, count1 := T\<rparr>"
  have "count0 c + P = S" "count1 c + (if S < P then 1 else 0) + D = T"
    using count_hi [of k n] kl unfolding P_def D_def S_def T_def c(2,3) count_lo by simp_all
  then have d: "(let c = c\<lparr>count0 := count0 c + push_bit 3 (of_nat k)\<rparr>;
               c = (if count0 c < push_bit 3 (of_nat k) then c\<lparr>count1 := count1 c + 1\<rparr> else c)
           in c\<lparr>count1 := count1 c + drop_bit 29 (of_nat k)\<rparr>) = d"
    unfolding P_def [symmetric] D_def [symmetric] d_def by (auto simp: Let_def add.assoc)
  have U: "update y (of_nat k) c =
     (if (of_nat k :: u32) \<ge> 64 - of_nat idx then do {
           b \<leftarrow> mem_read y 0 (unat (64 - of_nat idx :: u32));
           buf \<leftarrow> mem_write (buffer d) idx b;
           (i, st) \<leftarrow> update_loop y (of_nat k) (64 - of_nat idx) (transform (state d) buf);
           b \<leftarrow> mem_read y (unat i) (unat (of_nat k - i));
           buf \<leftarrow> mem_write buf 0 b;
           Some (d\<lparr>buffer := buf, state := st\<rparr>)
         } else do {
           b \<leftarrow> mem_read y 0 (unat (of_nat k :: u32));
           buf \<leftarrow> mem_write (buffer d) idx b;
           Some (d\<lparr>buffer := buf\<rparr>)
         })"
    by (simp only: update_def Let_def idx d [unfolded Let_def])
  have db: "buffer d = buffer c" "state d = state c" by (simp_all add: d_def)
  have tl: "length (tail_bytes m) = idx" by (simp add: tail_bytes_length idx_def n_def)
  have fold: "fold_blocks transform md5_iv (m @ x) = fold_blocks transform (state c) (tail_bytes m @ x)"
    unfolding c(4) by (rule fold_blocks_tail)
  have tail: "tail_bytes (m @ x) = tail_bytes (tail_bytes m @ x)" by (rule tail_append)
  have lt: "length (tail_bytes (m @ x)) = (n + k) mod 64" by (simp add: tail_bytes_length n_def k_def)
  show ?thesis
  proof (cases "64 - idx \<le> k")
    case False
    then have ge: "\<not> (of_nat k :: u32) \<ge> 64 - of_nat idx" by (simp add: word_le_nat_alt fp uk)
    have w: "mem_write (buffer c) idx x = Some (take idx (buffer c) @ x @ drop (idx + k) (buffer c))"
      using False c(1) by (simp add: mem_write_in k_def)
    have e: "update y (of_nat k) c = Some (d\<lparr>buffer := take idx (buffer c) @ x @ drop (idx + k) (buffer c)\<rparr>)"
      using ge w y mem_read_take [of 0 k k y] unfolding U uk db by (simp add: mem_read_in)
    have sh: "length (tail_bytes m @ x) < 64" using False tl by (simp add: k_def)
    have "(n + k) mod 64 = idx + k" using False i64 by (simp add: idx_def mod_add_left_eq [of n 64 k, symmetric] del: mod_add_left_eq)
    then have "md5_rep (d\<lparr>buffer := take idx (buffer c) @ x @ drop (idx + k) (buffer c)\<rparr>) (m @ x)"
      using c False fold tail sh tl i64 by (simp add: md5_rep_def d_def n_def [symmetric] k_def [symmetric] S_def T_def)
    then show ?thesis using e by (auto simp: k_def)
  next
    case True
    then have ge: "(of_nat k :: u32) \<ge> 64 - of_nat idx" by (simp add: word_le_nat_alt fp uk)
    define buf where "buf = take idx (buffer c) @ take (64 - idx) x"
    have lb: "length buf = 64" using True i64 c(1) by (simp add: buf_def k_def)
    have w: "mem_write (buffer c) idx (take (64 - idx) x) = Some buf"
      using True c(1) i64 by (simp add: mem_write_in k_def buf_def)
    have "unat (64 - of_nat idx :: u32) \<le> unat (of_nat k :: u32)" using fp uk True by simp
    then obtain i where i: "update_loop y (of_nat k) (64 - of_nat idx) (transform (state c) buf) =
        Some (i, fold_blocks transform (transform (state c) buf) (drop (64 - idx) x))"
      "unat i \<le> k" "drop (unat i) x = tail_bytes (drop (64 - idx) x)"
      using update_loop_run [of "of_nat k" y x "64 - of_nat idx" "transform (state c) buf"] uk kl fp y by auto
    have b: "tail_bytes m @ x = buf @ drop (64 - idx) x" by (simp add: buf_def c(5))
    have f2: "fold_blocks transform md5_iv (m @ x) = fold_blocks transform (transform (state c) buf) (drop (64 - idx) x)"
      unfolding fold b by (rule fold_blocks_block [OF lb])
    have t2: "tail_bytes (m @ x) = tail_bytes (drop (64 - idx) x)"
      unfolding tail b using tail_append_eq [of buf] lb by simp
    define r where "r = drop (unat i) x"
    have lr: "length r = (n + k) mod 64" using i(3) t2 lt by (simp add: r_def)
    have ui: "unat (of_nat k - i) = k - unat i" using i(2) uk by (simp add: unat_sub word_le_nat_alt)
    have rd: "mem_read y (unat i) (unat (of_nat k - i)) = Some r"
    proof -
      have "mem_read y (unat i) (k - unat i) = mem_read x (unat i) (k - unat i)"
        unfolding y(2) using i(2) y(1) by (intro mem_read_take) auto
      also have "\<dots> = Some r" using i(2) by (simp add: mem_read_in r_def k_def)
      finally show ?thesis unfolding ui .
    qed
    have wr: "mem_write buf 0 r = Some (r @ drop (length r) buf)"
      using lb lr by (simp add: mem_write_in less_imp_le)
    have rd0: "mem_read y 0 (64 - idx) = Some (take (64 - idx) x)"
    proof -
      have "mem_read y 0 (64 - idx) = mem_read x 0 (64 - idx)"
        unfolding y(2) using True y(1) by (intro mem_read_take) auto
      also have "\<dots> = Some (take (64 - idx) x)" using True by (simp add: mem_read_in k_def)
      finally show ?thesis .
    qed
    have e: "update y (of_nat k) c =
        Some (d\<lparr>buffer := r @ drop (length r) buf, state := fold_blocks transform md5_iv (m @ x)\<rparr>)"
      using ge w rd0 i(1) rd wr unfolding U fp db f2 by simp
    have "md5_rep (d\<lparr>buffer := r @ drop (length r) buf, state := fold_blocks transform md5_iv (m @ x)\<rparr>) (m @ x)"
      using c lb lr i(3) t2 by (simp add: md5_rep_def d_def n_def k_def r_def less_imp_le S_def T_def)
    then show ?thesis using e by (auto simp: k_def)
  qed
qed

lemma init_rep: "length (buffer c) = 64 \<Longrightarrow> md5_rep (init c) []"
  by (simp add: md5_rep_def init_def md5_iv_def)

lemma bits_piece: "md5_piece (encode [w1, w2])" "length (encode [w1, w2]) = 8"
  by (simp_all add: md5_piece_def)

definition md5_digest :: "u8 list \<Rightarrow> u8 list" where
  "md5_digest m = encode (words_of_state (fold_blocks transform md5_iv (rfc_pad m)))"

lemma finalize_digest:
  assumes r: "md5_rep c m"
  shows "\<exists>c'. finalize c = Some c' \<and> finalized c' \<and> digest c' = md5_digest m"
proof -
  define n where "n = length m"
  define idx where "idx = n mod 64"
  define k where "k = (if idx < 56 then 56 - idx else 120 - idx)"
  define bits where "bits = encode [of_nat (8 * n), of_nat (8 * n div 2 ^ 32)]"
  have i64: "idx < 64" by (simp add: idx_def)
  have c: "\<not> finalized c" "count0 c = of_nat (8 * n)" "count1 c = of_nat (8 * n div 2 ^ 32)"
    using r by (auto simp: md5_rep_def n_def)
  have k: "k = Suc ((119 - idx) mod 64)" "k \<le> 64" using i64 by (auto simp: k_def mod_if)
  have i: "unat (of_nat (8 * n) div 8 mod 64 :: u32) = idx" unfolding idx_def by (rule index_of_count)
  then have iw: "(of_nat (8 * n) div 8 mod 64 :: u32) = of_nat idx" using i64 by (simp add: word_unat_eq_iff unat_of_nat32)
  have pl: "(if (of_nat (8 * n) div 8 mod 64 :: u32) < 56 then 56 - of_nat (8 * n) div 8 mod 64
      else 120 - of_nat (8 * n) div 8 mod 64) = (of_nat k :: u32)"
    using i64 unfolding iw by (simp add: k_def word_less_nat_alt unat_of_nat32 of_nat_diff)
  have p: "take k padding = 0x80 # replicate ((119 - idx) mod 64) 0"
    unfolding k(1) padding_def by (simp add: take_replicate min_def)
  have "md5_piece (take k padding)" using k by (simp add: md5_piece_def padding_def)
  then obtain c1 where c1: "update padding (of_nat k) c = Some c1" "md5_rep c1 (m @ take k padding)"
    using update_feed [OF r, of k padding] k(2) by (auto simp: padding_def)
  have "md5_piece bits" "length bits = 8" by (simp_all add: bits_def md5_piece_def)
  then obtain c2 where c2: "update bits 8 c1 = Some c2" "md5_rep c2 ((m @ take k padding) @ bits)"
    using update_feed [OF c1(2), of 8 bits bits] by auto
  have pad: "(m @ take k padding) @ bits = rfc_pad m"
    unfolding p bits_def rfc_pad_def encode_number by (simp add: n_def idx_def)
  have "state c2 = fold_blocks transform md5_iv (rfc_pad m)"
    using c2(2) unfolding pad by (simp add: md5_rep_def)
  then show ?thesis
    using c c1(1) c2(1) unfolding finalize_def c(2,3) Let_def pl bits_def [symmetric]
    by (simp add: md5_digest_def)
qed

lemma length_md5_digest: "length (md5_digest m) = 16"
  by (simp add: md5_digest_def words_of_state_def split: prod.splits)

lemma DigestHex_digest:
  assumes "length str < 2 ^ 32 - 64" and "length (buffer c) = 64"
  shows "DigestHex str c = Some (concat (map hex_byte (md5_digest str)))"
proof -
  have "md5_piece str" using assms(1) by (simp add: md5_piece_def)
  then obtain c1 where c1: "update str (of_nat (length str)) (init c) = Some c1" "md5_rep c1 ([] @ str)"
    using update_feed [OF init_rep [OF assms(2)] le_refl _] by (metis take_all_iff le_refl)
  obtain c2 where "finalize c1 = Some c2" "finalized c2" "digest c2 = md5_digest str"
    using finalize_digest [OF c1(2)] by auto
  then show ?thesis
    using c1(1) length_md5_digest [of str] by (simp add: DigestHex_def MD5_text_def hexdigest_def)
qed

section \<open>Properties\<close>

definition md5_feed :: "md5 \<Rightarrow> u8 list \<Rightarrow> md5 option" where
  "md5_feed c x = update x (of_nat (length x)) c"

definition md5_finish :: "md5 \<Rightarrow> string option" where
  "md5_finish c = map_option hexdigest (finalize c)"

lemma md5_digest_rfc: "md5_digest m = rfc_md5 m"
proof -
  have e: "encode [a, b, c, d] = encode [a] @ encode [b] @ encode [c] @ encode [d]" for a b c d by simp
  have "fold_blocks transform s xs = fold_blocks rfc_compress s xs" for s xs by (rule fold_blocks_cong) (rule transform_rfc)
  moreover obtain a b c d where "fold_blocks rfc_compress (0x67452301, 0xefcdab89, 0x98badcfe, 0x10325476) (rfc_pad m) = (a, b, c, d)"
    by (metis prod_cases4)
  ultimately show ?thesis
    unfolding md5_digest_def rfc_md5_def md5_iv_def words_of_state_def
    by (simp only: prod.case e) (simp only: encode_word list.map concat.simps append_Nil2)
qed

interpretation md5: incremental_digest md5_rep md5_piece md5_feed md5_finish "\<lambda>m. hex_text (rfc_md5 m)"
proof unfold_locales
  show "\<exists>c'. md5_feed c x = Some c' \<and> md5_rep c' (m @ x)" if "md5_rep c m" "md5_piece x" for c m x
    using update_feed [OF that(1) le_refl _ that(2)] by (simp add: md5_feed_def)
  show "md5_finish c = Some (hex_text (rfc_md5 m))" if "md5_rep c m" for c m
    using finalize_digest [OF that]
    by (auto simp: md5_finish_def hexdigest_def hex_bytes_text md5_digest_rfc rfc_md5_def words_of_state_def split: prod.splits)
qed

text \<open>
  C4: whatever pieces, each shorter than 4 GB - 64 bytes, are passed to \<open>update\<close>, \<open>hexdigest\<close> after \<open>finalize\<close> is the hexadecimal
  text of the MD5 digest that RFC 1321 defines for their concatenation, so it does not depend on how the message is cut.
  (The algorithm is stated by its loop over the tables of constants, with the message padded first and its own byte order.
  The contents of the buffer may depend on the cutting.)
\<close>
theorem md5_any_pieces:
  assumes "length (buffer c) = 64" and "\<forall>x \<in> set xs. length x < 2 ^ 32 - 64"
  shows "Option.bind (feed_all (\<lambda>c x. update x (of_nat (length x)) c) (init c) xs)
      (\<lambda>c. map_option hexdigest (finalize c)) = Some (hex_text (rfc_md5 (concat xs)))"
proof -
  have p: "\<forall>x \<in> set xs. md5_piece x" using assms(2) by (simp add: md5_piece_def)
  have "md5_feed = (\<lambda>c x. update x (of_nat (length x)) c)" "md5_finish = (\<lambda>c. map_option hexdigest (finalize c))"
    by (simp_all add: fun_eq_iff md5_feed_def md5_finish_def)
  then show ?thesis
    using md5.any_pieces [OF init_rep [OF assms(1)] p] by simp
qed

definition md5_memory :: md5 where
  "md5_memory = \<lparr>finalized = False, buffer = replicate 64 0xff, count0 = 0, count1 = 0, state = (0, 0, 0, 0), digest = []\<rparr>"

theorem md5_any_pieces_witness:
  "Option.bind (feed_all (\<lambda>c x. update x (of_nat (length x)) c) (init md5_memory) [[1, 2], [], [3]])
      (\<lambda>c. map_option hexdigest (finalize c)) = Some (hex_text (rfc_md5 [1, 2, 3]))"
  using md5_any_pieces [of md5_memory "[[1, 2], [], [3]]"] by (simp add: md5_memory_def)

text \<open>
  \<open>DigestHex\<close> of a text below 4 GB is its RFC 1321 digest in hexadecimal, whatever the memory the
  object was built in held.
\<close>
theorem DigestHex_rfc:
  assumes "length str < 2 ^ 32 - 64" and "length (buffer c) = 64"
  shows "DigestHex str c = Some (hex_text (rfc_md5 str))"
  using DigestHex_digest [OF assms] by (simp add: md5_digest_rfc hex_bytes_text)

theorem DigestHex_rfc_witness: "DigestHex [97, 98, 99] md5_memory = Some (hex_text (rfc_md5 [97, 98, 99]))"
  using DigestHex_rfc [of "[97, 98, 99]" md5_memory] by (simp add: md5_memory_def)

text \<open>
  The code computes the digest that RFC 1321 publishes for the message of the three letters abc.
\<close>
theorem DigestHex_vector:
  "DigestHex [97, 98, 99] md5_memory = Some ''900150983cd24fb0d6963f7d28e17f72''"
  by code_simp

end
