(* ===== verification/SHA1.thy ===== *)
theory SHA1
  imports Digest CString
begin

text \<open>
  \<open>utils/sha1.h\<close>, \<open>utils/sha1.cpp\<close>: the class \<open>SHA1\<close>. \<open>unsigned\<close> values are 32-bit words, so the masks
  with \<open>0xFFFFFFFF\<close> of the source are kept where it writes them. The input of \<open>SHA_GO\<close> is the bytes
  before the NUL; \<open>nInputLen\<close> and \<open>pos\<close> are \<open>int\<close>s, and \<open>None\<close> is the overflow of \<open>pos\<close>, which is undefined.
\<close>

type_synonym sha1_state = "u32 \<times> u32 \<times> u32 \<times> u32 \<times> u32"

record sha1 =
  H :: sha1_state
  Length_Low :: u32
  Length_High :: u32
  Message_Block :: "u8 list"
  Message_Block_Index :: nat

definition SHAInit :: "sha1 \<Rightarrow> sha1" where
  "SHAInit c = c\<lparr>Length_Low := 0, Length_High := 0, Message_Block_Index := 0,
     H := (0x67452301, 0xEFCDAB89, 0x98BADCFE, 0x10325476, 0xC3D2E1F0)\<rparr>"

definition CircularShift :: "nat \<Rightarrow> u32 \<Rightarrow> u32" where
  "CircularShift bits word = (push_bit bits word AND 0xFFFFFFFF) OR drop_bit (32 - bits) (word AND 0xFFFFFFFF)"

definition AddDataLen :: "nat \<Rightarrow> sha1 \<Rightarrow> sha1" where
  "AddDataLen nDealDataLen c =
     (let c = c\<lparr>Message_Block_Index := nDealDataLen, Length_Low := Length_Low c + push_bit 3 (of_nat nDealDataLen)\<rparr>;
          c = (if Length_Low c < push_bit 3 (of_nat nDealDataLen) then c\<lparr>Length_High := Length_High c + 1\<rparr> else c)
      in c\<lparr>Length_High := Length_High c + drop_bit 29 (of_nat nDealDataLen)\<rparr>)"

section \<open>The compression function\<close>

definition K :: "u32 list" where
  "K = [0x5A827999, 0x6ED9EBA1, 0x8F1BBCDC, 0xCA62C1D6]"

definition block_word :: "u8 list \<Rightarrow> nat \<Rightarrow> u32" where
  "block_word b t = push_bit 24 (ucast (b ! (t * 4))) OR push_bit 16 (ucast (b ! (t * 4 + 1))) OR
     push_bit 8 (ucast (b ! (t * 4 + 2))) OR ucast (b ! (t * 4 + 3))"

definition word_sequence :: "u8 list \<Rightarrow> u32 list" where
  \<comment> \<open>the array \<open>W\<close> after the first two loops\<close>
  "word_sequence b =
     foldl (\<lambda>W t. W @ [CircularShift 1 (W ! (t - 3) XOR W ! (t - 8) XOR W ! (t - 14) XOR W ! (t - 16))])
       (map (block_word b) [0..<16]) [16..<80]"

definition sha_step :: "(u32 \<Rightarrow> u32 \<Rightarrow> u32 \<Rightarrow> u32) \<Rightarrow> u32 \<Rightarrow> u32 list \<Rightarrow> sha1_state \<Rightarrow> nat \<Rightarrow> sha1_state" where
  \<comment> \<open>the body of the four round loops, which differ in the function of B, C, D and the constant\<close>
  "sha_step f k W s t = (case s of (A, B, C, D, E) \<Rightarrow>
     let temp = CircularShift 5 A + f B C D + E + W ! t + k;
         temp = temp AND 0xFFFFFFFF
     in (temp, A, CircularShift 30 B, C, D))"

definition compress :: "sha1_state \<Rightarrow> u8 list \<Rightarrow> sha1_state" where
  "compress h b =
     (let W = word_sequence b;
          s = foldl (sha_step (\<lambda>B C D. (B AND C) OR (NOT B AND D)) (K ! 0) W) h [0..<20];
          s = foldl (sha_step (\<lambda>B C D. B XOR C XOR D) (K ! 1) W) s [20..<40];
          s = foldl (sha_step (\<lambda>B C D. (B AND C) OR (B AND D) OR (C AND D)) (K ! 2) W) s [40..<60];
          s = foldl (sha_step (\<lambda>B C D. B XOR C XOR D) (K ! 3) W) s [60..<80]
      in case h of (h0, h1, h2, h3, h4) \<Rightarrow> case s of (A, B, C, D, E) \<Rightarrow>
           ((h0 + A) AND 0xFFFFFFFF, (h1 + B) AND 0xFFFFFFFF, (h2 + C) AND 0xFFFFFFFF,
            (h3 + D) AND 0xFFFFFFFF, (h4 + E) AND 0xFFFFFFFF))"

definition ProcessMessageBlock :: "sha1 \<Rightarrow> sha1" where
  "ProcessMessageBlock c = c\<lparr>H := compress (H c) (Message_Block c)\<rparr>"

section \<open>Padding\<close>

definition put_byte :: "u8 \<Rightarrow> sha1 \<Rightarrow> sha1" where
  \<comment> \<open>\<open>Message_Block[Message_Block_Index++] = b\<close>\<close>
  "put_byte b c = c\<lparr>Message_Block := (Message_Block c)[Message_Block_Index c := b],
                    Message_Block_Index := Message_Block_Index c + 1\<rparr>"

function fill_zeros :: "nat \<Rightarrow> sha1 \<Rightarrow> sha1" where
  \<comment> \<open>\<open>while (Message_Block_Index < n) Message_Block[Message_Block_Index++] = 0\<close>\<close>
  "fill_zeros n c = (if Message_Block_Index c < n then fill_zeros n (put_byte 0 c) else c)"
  by auto
termination by (relation "measure (\<lambda>(n, c). n - Message_Block_Index c)") (auto simp: put_byte_def)

declare fill_zeros.simps [simp del]

definition length_bytes :: "u32 \<Rightarrow> u32 \<Rightarrow> u8 list" where
  \<comment> \<open>what is stored at \<open>Message_Block[56..63]\<close>\<close>
  "length_bytes hi lo = map (\<lambda>w. ucast (w AND 0xFF))
     [drop_bit 24 hi, drop_bit 16 hi, drop_bit 8 hi, hi, drop_bit 24 lo, drop_bit 16 lo, drop_bit 8 lo, lo]"

definition PadMessage :: "sha1 \<Rightarrow> sha1" where
  "PadMessage c =
     (let c = (if Message_Block_Index c > 55
               then fill_zeros 56 (ProcessMessageBlock (fill_zeros 64 (put_byte 0x80 c)))
               else fill_zeros 56 (put_byte 0x80 c));
          c = c\<lparr>Message_Block := take 56 (Message_Block c) @ length_bytes (Length_High c) (Length_Low c)
                 @ drop 64 (Message_Block c)\<rparr>
      in ProcessMessageBlock c)"

section \<open>The digest of a string\<close>

definition load_block :: "u8 list \<Rightarrow> sha1 \<Rightarrow> sha1" where
  \<comment> \<open>\<open>memset\<close> of the block, then \<open>memcpy\<close> of the input into it\<close>
  "load_block xs c = c\<lparr>Message_Block := xs @ replicate (64 - length xs) 0\<rparr>"

function SHA_loop :: "u8 list \<Rightarrow> int \<Rightarrow> int \<Rightarrow> sha1 \<Rightarrow> sha1 option" where
  "SHA_loop input nInputLen pos c =
     (if pos \<le> nInputLen then
        (let c = (if nInputLen - pos \<ge> 64
               then AddDataLen 0 (ProcessMessageBlock (AddDataLen 64 (load_block (take 64 (drop (nat pos) input)) c)))
               else PadMessage (AddDataLen (nat (nInputLen - pos)) (load_block (take (nat (nInputLen - pos)) (drop (nat pos) input)) c)))
         in if pos + 64 < 2 ^ 31 then SHA_loop input nInputLen (pos + 64) c else None)
      else Some c)"
  by auto
termination by (relation "measure (\<lambda>(input, n, pos, _). nat (n + 1 - pos))") auto

declare SHA_loop.simps [simp del]

definition hex_state :: "sha1_state \<Rightarrow> string" where
  "hex_state h = (case h of (h0, h1, h2, h3, h4) \<Rightarrow> concat (map hex_word [h0, h1, h2, h3, h4]))"

definition SHA_GO :: "u8 list \<Rightarrow> sha1 \<Rightarrow> (string \<times> sha1) option" where
  \<comment> \<open>the 40 characters stored before the NUL at \<open>lpSHACode_Output\<close>; neither pointer is null, and the bytes behind a NUL are not
      looked at\<close>
  "SHA_GO lpData_Input c =
     (let str = takeWhile (\<lambda>b. b \<noteq> 0) lpData_Input;
          nInputLen = wrap32 (int (length str))
      in map_option (\<lambda>c. (hex_state (H c), c)) (SHA_loop str nInputLen 0 (SHAInit c)))"

definition Sha1 :: "u8 list \<Rightarrow> sha1 \<Rightarrow> string option" where
  \<comment> \<open>a new object in the memory \<open>c\<close>, whose constructor calls \<open>SHAInit\<close>\<close>
  "Sha1 str c = map_option fst (SHA_GO str (SHAInit c))"

section \<open>The digest of FIPS 180-1\<close>

definition fips_f :: "nat \<Rightarrow> u32 \<Rightarrow> u32 \<Rightarrow> u32 \<Rightarrow> u32" where
  "fips_f t b c d =
     (if t < 20 then (b AND c) OR (NOT b AND d) else if 40 \<le> t \<and> t < 60 then (b AND c) OR (b AND d) OR (c AND d)
      else b XOR c XOR d)"

definition fips_K :: "nat \<Rightarrow> u32" where
  "fips_K t = (if t < 20 then 0x5A827999 else if t < 40 then 0x6ED9EBA1 else if t < 60 then 0x8F1BBCDC else 0xCA62C1D6)"

definition fips_W :: "u8 list \<Rightarrow> u32 list" where
  "fips_W b = foldl (\<lambda>W t. W @ [word_rotl 1 (W ! (t - 3) XOR W ! (t - 8) XOR W ! (t - 14) XOR W ! (t - 16))])
     (map (\<lambda>t. of_nat (be_number (take 4 (drop (4 * t) b)))) [0..<16]) [16..<80]"

definition fips_compress :: "sha1_state \<Rightarrow> u8 list \<Rightarrow> sha1_state" where
  "fips_compress h b =
     (case h of (h0, h1, h2, h3, h4) \<Rightarrow>
      case foldl (\<lambda>(a, b', c, d, e) t. (word_rotl 5 a + fips_f t b' c d + e + fips_W b ! t + fips_K t, a, word_rotl 30 b', c, d))
        h [0..<80] of (a, b, c, d, e) \<Rightarrow> (h0 + a, h1 + b, h2 + c, h3 + d, h4 + e))"

definition fips_pad :: "u8 list \<Rightarrow> u8 list" where
  "fips_pad m = m @ [0x80] @ replicate ((119 - length m mod 64) mod 64) 0 @
     be_bytes 8 (8 * length m)"

definition sha1_iv :: sha1_state where
  "sha1_iv = (0x67452301, 0xEFCDAB89, 0x98BADCFE, 0x10325476, 0xC3D2E1F0)"

definition fips_bytes :: "sha1_state \<Rightarrow> u8 list" where
  "fips_bytes h = (case h of (h0, h1, h2, h3, h4) \<Rightarrow> concat (map (\<lambda>w. be_bytes 4 (unat w)) [h0, h1, h2, h3, h4]))"

definition fips_sha1 :: "u8 list \<Rightarrow> u8 list" where
  "fips_sha1 m = fips_bytes (fold_blocks fips_compress sha1_iv (fips_pad m))"

lemma hex_state_fips: "hex_state h = hex_text (fips_bytes h)"
  by (simp add: hex_state_def fips_bytes_def hex_word_text split: prod.splits) (simp add: hex_text_def)

lemma block_word_fips: "length b = 64 \<Longrightarrow> t < 16 \<Longrightarrow> block_word b t = of_nat (be_number (take 4 (drop (4 * t) b)))"
proof -
  assume b: "length b = 64" "t < 16"
  then have "take 4 (drop (4 * t) b) = [b ! (t * 4), b ! (t * 4 + 1), b ! (t * 4 + 2), b ! (t * 4 + 3)]"
    by (intro nth_equalityI) (auto simp: less_Suc_eq numeral_eq_Suc mult.commute)
  then show ?thesis using word_of_bytes by (simp only: block_word_def or.assoc)
qed

lemma length_bytes_fips: "length_bytes (of_nat (n div 2 ^ 32)) (of_nat n) = be_bytes 8 n"
proof -
  have "n div 2 ^ 32 div 2 ^ k = n div 2 ^ (32 + k)" for k by (simp add: div_mult2_eq [symmetric] power_add)
  from this [of 8] this [of 16] this [of 24] show ?thesis
    using byte_of_number [of 0 n] byte_of_number [of 8 n] byte_of_number [of 16 n] byte_of_number [of 24 n]
      byte_of_number [of 0 "n div 2 ^ 32"] byte_of_number [of 8 "n div 2 ^ 32"] byte_of_number [of 16 "n div 2 ^ 32"] byte_of_number [of 24 "n div 2 ^ 32"]
    by (simp add: length_bytes_def and_byte be_bytes_8 be_bytes_4)
qed

lemma and_all_ones: "x AND 0xFFFFFFFF = (x :: u32)"
proof -
  have "(0xFFFFFFFF :: u32) = - 1" by simp
  then show ?thesis by (simp only: and.right_neutral)
qed

lemma CircularShift_rotl: "0 < n \<Longrightarrow> n < 32 \<Longrightarrow> CircularShift n x = word_rotl n x"
  by (simp add: CircularShift_def and_all_ones rotl_shift)

lemma compress_fips:
  assumes "length b = 64"
  shows "compress h b = fips_compress h b"
proof -
  define W where "W = word_sequence b"
  define g where "g = (\<lambda>(a, b, c, d, e) t. (word_rotl 5 a + fips_f t b c d + e + W ! t + fips_K t, a, word_rotl 30 b, c, d))"
  have "map (\<lambda>t. of_nat (be_number (take 4 (drop (4 * t) b)))) [0..<16] = map (block_word b) [0..<16]"
    using block_word_fips [OF assms] by (intro map_cong refl) (simp del: upt_rec_numeral)
  then have W: "fips_W b = W" unfolding fips_W_def W_def word_sequence_def by (simp only:) (simp add: CircularShift_rotl del: upt_rec_numeral)
  have st: "sha_step f k W s t = g s t" if "fips_f t = f" "fips_K t = k" for f k s t
    using that by (cases s) (auto simp: sha_step_def g_def and_all_ones CircularShift_rotl Let_def)
  have r: "foldl (sha_step f k W) s [i..<j] = foldl g s [i..<j]"
    if "\<And>t. i \<le> t \<Longrightarrow> t < j \<Longrightarrow> fips_f t = f \<and> fips_K t = k" for f k s i j
    using that st by (intro foldl_cong) auto
  have s: "foldl (sha_step (\<lambda>B C D. (B AND C) OR (NOT B AND D)) (K ! 0) W) s [0..<20] = foldl g s [0..<20]"
    "foldl (sha_step (\<lambda>B C D. B XOR C XOR D) (K ! 1) W) s [20..<40] = foldl g s [20..<40]"
    "foldl (sha_step (\<lambda>B C D. (B AND C) OR (B AND D) OR (C AND D)) (K ! 2) W) s [40..<60] = foldl g s [40..<60]"
    "foldl (sha_step (\<lambda>B C D. B XOR C XOR D) (K ! 3) W) s [60..<80] = foldl g s [60..<80]" for s
    by (rule r; simp add: fips_f_def fips_K_def K_def fun_eq_iff)+
  have "[0..<80] = [0..<20] @ [20..<40] @ [40..<60] @ [60..<80::nat]"
    using upt_add_eq_append [of 0 60 20] upt_add_eq_append [of 0 40 20] upt_add_eq_append [of 0 20 20] by (simp del: upt_rec_numeral)
  then have "foldl g h [0..<80] = foldl g (foldl g (foldl g (foldl g h [0..<20]) [20..<40]) [40..<60]) [60..<80]"
    by (simp only: foldl_append)
  then show ?thesis
    unfolding compress_def fips_compress_def Let_def W_def [symmetric] W s g_def [symmetric]
    by (simp add: and_all_ones del: upt_rec_numeral split: prod.splits)
qed

section \<open>What the loop computes\<close>

lemma fill_zeros_eq:
  assumes "Message_Block_Index c \<le> n" "n \<le> length (Message_Block c)"
  shows "fill_zeros n c = c\<lparr>Message_Block := take (Message_Block_Index c) (Message_Block c) @
      replicate (n - Message_Block_Index c) 0 @ drop n (Message_Block c), Message_Block_Index := n\<rparr>"
  using assms
proof (induction n c rule: fill_zeros.induct)
  case (1 n c)
  show ?case
  proof (cases "Message_Block_Index c < n")
    case False
    then show ?thesis using 1(2) by (simp add: fill_zeros.simps [of n c])
  next
    case True
    let ?i = "Message_Block_Index c"
    have p: "Message_Block_Index (put_byte 0 c) = Suc ?i" "length (Message_Block (put_byte 0 c)) = length (Message_Block c)"
      by (simp_all add: put_byte_def)
    have il: "?i < length (Message_Block c)" using True 1(3) by simp
    have "take (Suc ?i) (Message_Block (put_byte 0 c)) = take ?i (Message_Block c) @ [0]"
      using il by (simp add: put_byte_def take_Suc_conv_app_nth)
    moreover have "drop n (Message_Block (put_byte 0 c)) = drop n (Message_Block c)"
      using True by (simp add: put_byte_def)
    moreover have "replicate (n - ?i) 0 = (0 :: u8) # replicate (n - Suc ?i) 0"
      using True by (metis Suc_diff_Suc replicate_Suc)
    ultimately show ?thesis
      using 1(1) [OF True] p True 1(3) by (simp add: fill_zeros.simps [of n c]) (simp add: put_byte_def)
  qed
qed

lemma fill_zeros_done: "n \<le> Message_Block_Index c \<Longrightarrow> fill_zeros n c = c"
  by (simp add: fill_zeros.simps [of n c])

definition counted :: "sha1 \<Rightarrow> nat \<Rightarrow> bool" where
  "counted c n \<longleftrightarrow> Length_Low c = of_nat (8 * n) \<and> Length_High c = of_nat (8 * n div 2 ^ 32)"

lemma AddDataLen_counted:
  assumes "counted c n" "k < 2 ^ 32"
  shows "counted (AddDataLen k c) (n + k)" "H (AddDataLen k c) = H c"
    "Message_Block (AddDataLen k c) = Message_Block c" "Message_Block_Index (AddDataLen k c) = k"
proof -
  define P where "P = push_bit 3 (of_nat k :: u32)"
  define D where "D = drop_bit 29 (of_nat k :: u32)"
  define S where "S = (of_nat (8 * (n + k)) :: u32)"
  define T where "T = (of_nat (8 * (n + k) div 2 ^ 32) :: u32)"
  have c: "Length_Low c = of_nat (8 * n)" "Length_High c = of_nat (8 * n div 2 ^ 32)"
    using assms by (auto simp: counted_def)
  have "Length_Low c + P = S" "Length_High c + (if S < P then 1 else 0) + D = T"
    using count_hi [OF assms(2), of n] unfolding P_def D_def S_def T_def c count_lo by simp_all
  then have "AddDataLen k c = c\<lparr>Message_Block_Index := k, Length_Low := S, Length_High := T\<rparr>"
    unfolding AddDataLen_def P_def [symmetric] D_def [symmetric] by (auto simp: Let_def add.assoc)
  then show "counted (AddDataLen k c) (n + k)" "H (AddDataLen k c) = H c"
    "Message_Block (AddDataLen k c) = Message_Block c" "Message_Block_Index (AddDataLen k c) = k"
    by (simp_all add: counted_def S_def T_def)
qed

definition last_blocks :: "u8 list \<Rightarrow> u8 list" where
  \<comment> \<open>the bytes that \<open>PadMessage\<close> passes to the compression function for the message \<open>m\<close>\<close>
  "last_blocks m =
     (let r = length m mod 64;
          len = length_bytes (of_nat (8 * length m div 2 ^ 32)) (of_nat (8 * length m))
      in if r \<le> 55 then tail_bytes m @ [0x80] @ replicate (55 - r) 0 @ len
         else tail_bytes m @ [0x80] @ replicate (63 - r) 0 @ take 56 (tail_bytes m @ [0x80]) @ len)"

lemma length_length_bytes [simp]: "length (length_bytes hi lo) = 8"
  by (simp add: length_bytes_def)

lemma PadMessage_last:
  assumes c: "counted c (length m)" and i: "Message_Block_Index c = length m mod 64"
    and b: "Message_Block c = tail_bytes m @ replicate (64 - length m mod 64) 0"
  shows "H (PadMessage c) = fold_blocks compress (H c) (last_blocks m)"
proof -
  define r where "r = length m mod 64"
  define X where "X = tail_bytes m"
  define len where "len = length_bytes (of_nat (8 * length m div 2 ^ 32)) (of_nat (8 * length m))"
  have X: "length X = r" "r < 64" by (simp_all add: X_def tail_bytes_length r_def)
  have L: "length_bytes (Length_High c) (Length_Low c) = len"
    using c by (simp add: len_def counted_def)
  have "64 - r = Suc (63 - r)" using X(2) by simp
  then have "replicate (64 - r) 0 = (0 :: u8) # replicate (63 - r) 0" by (simp only: replicate_Suc)
  then have p: "put_byte 0x80 c = c\<lparr>Message_Block := X @ 0x80 # replicate (63 - r) 0, Message_Block_Index := Suc r\<rparr>"
    unfolding put_byte_def i b r_def [symmetric] X_def [symmetric] using X by (simp add: list_update_append)
  show ?thesis
  proof (cases "r \<le> 55")
    case True
    have r8: "63 - r = (55 - r) + 8" using True by simp
    have "take (Suc r) (X @ 0x80 # replicate (63 - r) 0) = X @ [0x80]" using X by simp
    moreover have "drop 56 (X @ 0x80 # replicate (63 - r) 0) = replicate 8 (0 :: u8)"
    proof -
      have "56 - r = Suc (55 - r)" using True by simp
      then show ?thesis using X True by simp
    qed
    moreover have "replicate (63 - r) 0 = replicate (55 - r) (0 :: u8) @ replicate 8 0"
      unfolding r8 by (rule replicate_add)
    ultimately have f: "fill_zeros 56 (put_byte 0x80 c) =
        c\<lparr>Message_Block := X @ 0x80 # replicate (63 - r) 0, Message_Block_Index := 56\<rparr>"
      unfolding p using True X by (subst fill_zeros_eq) simp_all
    have "PadMessage c = ProcessMessageBlock (c\<lparr>Message_Block_Index := 56, Message_Block := (X @ 0x80 # replicate (55 - r) 0) @ len\<rparr>)"
    proof -
      have "take 56 (X @ 0x80 # replicate (63 - r) 0) = X @ 0x80 # replicate (55 - r) (0 :: u8)"
      proof -
        have "56 - r = Suc (55 - r)" using True by simp
        then show ?thesis using X True by simp
      qed
      then show ?thesis
        unfolding PadMessage_def f i r_def [symmetric] using True X L by simp
    qed
    then show ?thesis
      using True X fold_blocks_block [of "X @ 0x80 # replicate (55 - r) 0 @ len" compress "H c" "[]"]
      by (simp add: ProcessMessageBlock_def last_blocks_def r_def X_def len_def)
  next
    case False
    define B where "B = X @ 0x80 # replicate (63 - r) 0"
    have B: "length B = 64" using X False by (simp add: B_def)
    have f: "fill_zeros 64 (put_byte 0x80 c) = c\<lparr>Message_Block := B, Message_Block_Index := 64\<rparr>"
      unfolding p using X by (subst fill_zeros_eq) (auto simp: B_def)
    have "PadMessage c = ProcessMessageBlock (c\<lparr>H := compress (H c) B, Message_Block := take 56 B @ len, Message_Block_Index := 64\<rparr>)"
      unfolding PadMessage_def f i r_def [symmetric] using False B L
      by (simp add: ProcessMessageBlock_def fill_zeros_done)
    moreover have "take 56 B = take 56 (X @ [0x80])"
      using False X by (simp add: B_def)
    moreover have "length (take 56 B @ len) = 64" using B by (simp add: len_def)
    ultimately show ?thesis
      using False X fold_blocks_block [of B compress "H c" "take 56 B @ len"] B
        fold_blocks_block [of "take 56 B @ len" compress "compress (H c) B" "[]"]
      by (simp add: ProcessMessageBlock_def last_blocks_def r_def X_def len_def B_def)
  qed
qed

lemma SHA_loop_run:
  assumes "64 dvd pos" "pos \<le> length m" "counted c pos" "length m < 2 ^ 31 - 64"
    and "H c = fold_blocks compress h (take pos m)"
  shows "\<exists>c'. SHA_loop m (int (length m)) (int pos) c = Some c' \<and> H c' = fold_blocks compress (fold_blocks compress h m) (last_blocks m)"
  using assms
proof (induction "length m - pos" arbitrary: pos c rule: less_induct)
  case less
  define r where "r = length m mod 64"
  have small: "int pos + 64 < 2 ^ 31" using less.prems(2,4) by simp
  show ?case
  proof (cases "length m - pos \<ge> 64")
    case True
    let ?b = "take 64 (drop pos m)"
    let ?c = "AddDataLen 0 (ProcessMessageBlock (AddDataLen 64 (load_block ?b c)))"
    have lb: "length ?b = 64" using True by simp
    have c1: "counted (load_block ?b c) pos" using less.prems(3) by (simp add: counted_def load_block_def)
    note a = AddDataLen_counted [OF c1, of 64]
    have c2: "counted (ProcessMessageBlock (AddDataLen 64 (load_block ?b c))) (pos + 64)"
      using a(1) by (simp add: counted_def ProcessMessageBlock_def)
    note a0 = AddDataLen_counted [OF c2, of 0]
    have H: "H ?c = compress (H c) ?b"
      using a a0 lb by (simp add: ProcessMessageBlock_def load_block_def)
    have "take (pos + 64) m = take pos m @ ?b" by (rule take_add)
    then have Hc: "H ?c = fold_blocks compress h (take (pos + 64) m)"
      using H less.prems(1,2,5) fold_blocks_append [of "take pos m" compress h ?b] fold_blocks_block [OF lb, of compress _ "[]"]
      by (simp add: min_absorb2)
    have "64 dvd pos + 64" "pos + 64 \<le> length m" using less.prems(1) True by auto
    moreover have "counted ?c (pos + 64)" using a0(1) by simp
    moreover have "length m - (pos + 64) < length m - pos" using True by simp
    ultimately obtain c' where c': "SHA_loop m (int (length m)) (int (pos + 64)) ?c = Some c'"
        "H c' = fold_blocks compress (fold_blocks compress h m) (last_blocks m)"
      using less.hyps [of "pos + 64" ?c] less.prems(4) Hc by blast
    have "64 \<le> int (length m) - int pos" using True by simp
    then have "SHA_loop m (int (length m)) (int pos) c = SHA_loop m (int (length m)) (int (pos + 64)) ?c"
      using small by (simp add: SHA_loop.simps [of m _ "int pos" c] Let_def)
    then show ?thesis using c' by simp
  next
    case False
    let ?c = "AddDataLen (length m - pos) (load_block (drop pos m) c)"
    have e: "length m = pos + (length m - pos)" "length m - pos < 64" using less.prems(2) False by auto
    obtain q where "pos = 64 * q" using less.prems(1) by (elim dvdE)
    then have r: "length m - pos = r" "pos = 64 * (length m div 64)" using e unfolding r_def
      by (metis mod_less mod_mult_self4, metis div_mult_self4 add.right_neutral div_less zero_neq_numeral)
    have t: "drop pos m = tail_bytes m" by (simp add: tail_bytes_def flip: r(2))
    have c1: "counted (load_block (drop pos m) c) pos" using less.prems(3) by (simp add: counted_def load_block_def)
    have "length m - pos < 2 ^ 32" using e by simp
    note a = AddDataLen_counted [OF c1 this]
    have H: "H ?c = fold_blocks compress h m"
    proof -
      have "fold_blocks compress h (take pos m @ drop pos m) = fold_blocks compress (fold_blocks compress h (take pos m)) (drop pos m)"
        using less.prems(1,2) by (intro fold_blocks_append) (simp add: min_absorb2)
      then show ?thesis using a(2) less.prems(5) e(2) by (simp add: load_block_def)
    qed
    have p: "H (PadMessage ?c) = fold_blocks compress (H ?c) (last_blocks m)"
      using a e(1) r(1) t by (intro PadMessage_last) (auto simp: load_block_def r_def tail_bytes_length)
    have "\<not> int pos + 64 \<le> int (length m)" using e by simp
    then have "SHA_loop m (int (length m)) (int pos + 64) (PadMessage ?c) = Some (PadMessage ?c)"
      by (simp add: SHA_loop.simps [of m _ "int pos + 64"])
    moreover have "int pos \<le> int (length m)" "\<not> 64 \<le> int (length m) - int pos" "nat (int (length m) - int pos) = length m - pos"
      using less.prems(2) e by auto
    ultimately have "SHA_loop m (int (length m)) (int pos) c = Some (PadMessage ?c)"
      using small by (simp add: SHA_loop.simps [of m _ "int pos" c] Let_def)
    then show ?thesis using p H by simp
  qed
qed

lemma init_counted: "counted (SHAInit c) 0" "H (SHAInit c) = sha1_iv"
  by (simp_all add: counted_def SHAInit_def sha1_iv_def)

lemma SHA_GO_eq:
  assumes "0 \<notin> set m" "length m < 2 ^ 31 - 64"
  shows "map_option fst (SHA_GO m c) = Some (hex_text (fips_bytes (fold_blocks fips_compress (fold_blocks fips_compress sha1_iv m) (last_blocks m))))"
proof -
  have tw: "takeWhile (\<lambda>b. b \<noteq> 0) m = m" using assms(1) by (auto simp: takeWhile_eq_all_conv)
  have fb: "fold_blocks compress s xs = fold_blocks fips_compress s xs" for s xs by (rule fold_blocks_cong) (rule compress_fips)
  obtain c' where "SHA_loop m (int (length m)) 0 (SHAInit c) = Some c'"
      "H c' = fold_blocks compress (fold_blocks compress sha1_iv m) (last_blocks m)"
    using SHA_loop_run [of 0 m "SHAInit c" sha1_iv] init_counted assms(2) by auto
  moreover have "wrap32 (int (length m)) = int (length m)" using assms(2) by (intro wrap32_id) auto
  ultimately show ?thesis
    unfolding SHA_GO_def Let_def tw by (simp add: fb hex_state_fips)
qed

section \<open>Properties\<close>

text \<open>
  C12: for a string shorter than 2 GB - 64 bytes whose length modulo 64 is at most 55, \<open>SHA_GO\<close> returns and stores the hexadecimal
  text of the SHA-1 digest that FIPS 180-1 defines for it (with a single loop over the 80 steps, the message padded first, and
  its own definition of the byte order).
\<close>
theorem SHA_GO_fips:
  assumes "0 \<notin> set m" and "length m < 2 ^ 31 - 64" and "length m mod 64 \<le> 55"
  shows "map_option fst (SHA_GO m c) = Some (hex_text (fips_sha1 m))"
proof -
  have "119 - length m mod 64 = 55 - length m mod 64 + 64" using assms(3) by simp
  then have z: "(119 - length m mod 64) mod 64 = 55 - length m mod 64" by (simp only: mod_add_self2) simp
  have "fips_pad m = m @ drop (length (tail_bytes m)) (last_blocks m)"
    unfolding fips_pad_def last_blocks_def z length_bytes_fips using assms(3) by (simp add: Let_def)
  moreover have "last_blocks m = tail_bytes m @ drop (length (tail_bytes m)) (last_blocks m)"
    using assms(3) by (simp add: last_blocks_def Let_def)
  ultimately have "fold_blocks fips_compress sha1_iv (fips_pad m) =
      fold_blocks fips_compress (fold_blocks fips_compress sha1_iv m) (last_blocks m)"
    using fold_blocks_tail [of fips_compress sha1_iv m "drop (length (tail_bytes m)) (last_blocks m)"] by simp
  then show ?thesis
    using SHA_GO_eq [OF assms(1,2), of c] by (simp add: fips_sha1_def)
qed

definition sha1_memory :: sha1 where
  "sha1_memory = \<lparr>H = (0, 0, 0, 0, 0), Length_Low = 0, Length_High = 0, Message_Block = replicate 64 0xff, Message_Block_Index = 7\<rparr>"

theorem SHA_GO_fips_witness: "map_option fst (SHA_GO [97, 98, 99] sha1_memory) = Some (hex_text (fips_sha1 [97, 98, 99]))"
  by (rule SHA_GO_fips) simp_all

lemma SHA_GO_second_block:
  assumes "0 \<notin> set m" and "length m < 2 ^ 31 - 64" and "56 \<le> length m mod 64"
  shows "map_option fst (SHA_GO m c) = Some (hex_text (fips_bytes (fold_blocks fips_compress sha1_iv
      (m @ [0x80] @ replicate (63 - length m mod 64) 0 @ take 56 (tail_bytes m @ [0x80]) @ be_bytes 8 (8 * length m)))))"
    and "fips_pad m = m @ [0x80] @ replicate (63 - length m mod 64) 0 @ replicate 56 0 @ be_bytes 8 (8 * length m)"
    and "take 56 (tail_bytes m @ [0x80]) \<noteq> replicate 56 0"
proof -
  define r where "r = length m mod 64"
  define len where "len = be_bytes 8 (8 * length m)"
  have r: "56 \<le> r" "r < 64" using assms(3) by (simp_all add: r_def)
  have lb: "last_blocks m = tail_bytes m @ [0x80] @ replicate (63 - r) 0 @ take 56 (tail_bytes m @ [0x80]) @ len"
    using r unfolding last_blocks_def Let_def r_def [symmetric] length_bytes_fips len_def by simp
  show "map_option fst (SHA_GO m c) = Some (hex_text (fips_bytes (fold_blocks fips_compress sha1_iv
      (m @ [0x80] @ replicate (63 - length m mod 64) 0 @ take 56 (tail_bytes m @ [0x80]) @ be_bytes 8 (8 * length m)))))"
    unfolding SHA_GO_eq [OF assms(1,2)] r_def [symmetric] len_def [symmetric]
    unfolding lb by (simp only: fold_blocks_tail [of fips_compress sha1_iv m])
  have "119 - r = 63 - r + 56" "63 - r + 56 < 64" using r by simp_all
  then have "(119 - r) mod 64 = 63 - r + 56" by (metis mod_less)
  then show "fips_pad m = m @ [0x80] @ replicate (63 - length m mod 64) 0 @ replicate 56 0 @ be_bytes 8 (8 * length m)"
    unfolding fips_pad_def r_def [symmetric] len_def [symmetric] by (simp only: replicate_add append_assoc)
  have l: "length (tail_bytes m) = r" by (simp add: tail_bytes_length r_def)
  then have "tail_bytes m ! 0 \<in> set (tail_bytes m)" using r by (intro nth_mem) simp
  moreover have "set (tail_bytes m) \<subseteq> set m" unfolding tail_bytes_def by (rule set_drop_subset)
  ultimately have "tail_bytes m ! 0 \<noteq> 0" using assms(1) by (metis subsetD)
  moreover have "take 56 (tail_bytes m @ [0x80]) ! 0 = tail_bytes m ! 0" using l r by (simp add: nth_append)
  moreover have "replicate 56 0 ! 0 = (0 :: u8)" by (rule nth_replicate) simp
  ultimately show "take 56 (tail_bytes m @ [0x80]) \<noteq> replicate 56 0" by metis
qed

text \<open>
  for a string whose length modulo 64 is 56 or more the padding needs a second block. FIPS fills it
  with zeros before the length; \<open>PadMessage\<close> does not reset \<open>Message_Block_Index\<close> before its second
  loop, so the block keeps the first 56 bytes of the previous one and the digest is that of other data.
\<close>
theorem SHA_GO_two_blocks:
  assumes "0 \<notin> set m" and "length m < 2 ^ 31 - 64" and "56 \<le> length m mod 64"
  shows "let pad = m @ [0x80] @ replicate (63 - length m mod 64) 0; len = be_bytes 8 (8 * length m)
    in map_option fst (SHA_GO m c) = Some (hex_text (fips_bytes (fold_blocks fips_compress sha1_iv (pad @ take 56 (tail_bytes m @ [0x80]) @ len)))) \<and>
       fips_pad m = pad @ replicate 56 0 @ len \<and>
       pad @ take 56 (tail_bytes m @ [0x80]) @ len \<noteq> fips_pad m"
  using SHA_GO_second_block [OF assms] by (simp add: Let_def)

theorem SHA_GO_two_blocks_witness:
  "fips_pad (replicate 56 1) \<noteq> replicate 56 1 @ [0x80] @ replicate 7 0 @ replicate 56 1 @ be_bytes 8 448"
  using SHA_GO_two_blocks [of "replicate 56 1"] by (simp add: tail_bytes_def Let_def)

text \<open>
  A string of 2 GB - 64 bytes or more, still below 2 GB: \<open>pos\<close> overflows after the last block.
\<close>
lemma SHA_loop_overflow:
  assumes "pos \<le> n" and "2 ^ 31 - 64 \<le> n" and "n < 2 ^ 31" and "64 dvd pos"
  shows "SHA_loop input n pos c = None"
  using assms
proof (induction input n pos c rule: SHA_loop.induct)
  case (1 input n pos c)
  show ?case
  proof (cases "pos + 64 < 2 ^ 31")
    case True
    obtain q where "pos = 64 * q" using 1(5) by (elim dvdE)
    then have "pos + 64 \<le> 2 ^ 31 - 64" using True by simp
    then have "pos + 64 \<le> n" using 1(3) by simp
    moreover have "64 dvd pos + 64" using 1(5) by simp
    ultimately show ?thesis using 1(1) [OF 1(2) refl True] 1(2,3,4) True by (simp add: SHA_loop.simps [of input n pos c] Let_def)
  next
    case False
    then show ?thesis using 1(2) by (simp add: SHA_loop.simps [of input n pos c] Let_def)
  qed
qed

theorem SHA_GO_overflow:
  assumes "0 \<notin> set m" and "2 ^ 31 - 64 \<le> length m" and "length m < 2 ^ 31"
  shows "SHA_GO m c = None"
proof -
  have tw: "takeWhile (\<lambda>b. b \<noteq> 0) m = m" using assms(1) by (auto simp: takeWhile_eq_all_conv)
  have "wrap32 (int (length m)) = int (length m)" using assms(3) by (intro wrap32_id) auto
  then show ?thesis using SHA_loop_overflow [of 0 "int (length m)" m] assms(2,3) by (simp add: SHA_GO_def tw Let_def)
qed

end
