(* ===== verification/StrEdit.thy ===== *)
theory StrEdit
  imports CString
begin

text \<open>
  \<open>utils/string.cpp\<close>, first part: the functions of \<open>StringUtility\<close> that trim, split, replace, remove,
  extract and quote. A \<open>std::string\<close> is a list of characters; positions are \<open>size_t\<close> values, with
  \<open>npos\<close> as \<open>None\<close> (lengths below \<open>2 ^ 31\<close>, so that the functions that keep a position in an \<open>int\<close>
  do not truncate it). A loop that does not end is \<open>None\<close>, and so is an exception of \<open>substr\<close> and a
  write outside of a buffer.
\<close>

definition blanks :: string where
  \<comment> \<open>\<open>" \r\n\t"\<close>\<close>
  "blanks = [CHR 0x20, CHR 0x0D, CHR 0x0A, CHR 0x09]"

definition separators :: string where
  \<comment> \<open>the set of \<open>IsSeparator\<close>\<close>
  "separators = [CHR 0x20, CHR 0x09, CHR 0x0D, CHR 0x0A] @ ''-_[](){}:.,=*&^%$#@!~?<>/|'' @ [CHR 0x27, CHR 0x22]"

definition IsSeparator :: "char \<Rightarrow> bool" where
  "IsSeparator c = (if find_sub [c] separators = None then False else True)"

section \<open>Trimming\<close>

fun begin_pos :: "string \<Rightarrow> string \<Rightarrow> nat" where
  \<comment> \<open>the first loop: the position of the first character that is not in the set\<close>
  "begin_pos t [] = 0"
| "begin_pos t (c # s) = (if find_sub [c] t = None then 0 else Suc (begin_pos t s))"

fun end_pos :: "string \<Rightarrow> string \<Rightarrow> nat \<Rightarrow> nat" where
  \<comment> \<open>the second loop, which stops at 0 without looking at the first character\<close>
  "end_pos t s 0 = 0"
| "end_pos t s (Suc n) = (if find_sub [s ! Suc n] t = None then Suc n else end_pos t s n)"

definition TrimBothSides :: "string \<Rightarrow> string \<Rightarrow> string" where
  "TrimBothSides strValue strTarget =
     (if length strValue \<le> 0 then []
      else let dwBeginPos = begin_pos strTarget strValue;
               dwEndPos = end_pos strTarget strValue (length strValue - 1)
           in if dwBeginPos > dwEndPos then []
              else take (dwEndPos - dwBeginPos + 1) (drop dwBeginPos strValue))"

definition TrimLeft :: "string \<Rightarrow> string \<Rightarrow> string" where
  "TrimLeft strValue strTarget =
     (if length strValue \<le> 0 then []
      else let dwBeginPos = begin_pos strTarget strValue
           in if dwBeginPos = length strValue - 1 then [] else drop dwBeginPos strValue)"

definition TrimRight :: "string \<Rightarrow> string \<Rightarrow> string" where
  "TrimRight strValue strTarget =
     (if length strValue \<le> 0 then []
      else let dwEndPos = end_pos strTarget strValue (length strValue - 1)
           in if dwEndPos = 0 then [] else take (dwEndPos + 1) strValue)"

lemma begin_pos_takeWhile: "begin_pos t s = length (takeWhile (\<lambda>c. c \<in> set t) s)"
  by (induction s) (auto simp: find_sub_char_None)

lemma begin_pos_le: "begin_pos t s \<le> length s"
  by (simp add: begin_pos_takeWhile length_takeWhile_le)

lemma end_pos_spec:
  "n < length s \<Longrightarrow> end_pos t s n \<le> n \<and> (\<forall>i. end_pos t s n < i \<and> i \<le> n \<longrightarrow> s ! i \<in> set t) \<and>
     (end_pos t s n = 0 \<or> s ! end_pos t s n \<notin> set t)"
proof (induction n)
  case (Suc n)
  then show ?case using le_Suc_eq by (auto simp: find_sub_char_None)
qed simp

section \<open>Splitting\<close>

lemma length_Trim: "length (TrimBothSides s t) \<le> length s"
  by (auto simp: TrimBothSides_def Let_def)

function split_loop :: "string \<Rightarrow> string \<Rightarrow> string list" where
  \<comment> \<open>the loop of \<open>SplitString\<close>, which is entered with a separator that is not empty\<close>
  "split_loop sp s =
     (if sp = [] then []
      else case find_sub sp s of
        Some nPos \<Rightarrow> take nPos s # split_loop sp (TrimBothSides (drop (nPos + length sp) s) blanks)
      | None \<Rightarrow> (let s = TrimBothSides s blanks in if s \<noteq> [] then [s] else []))"
  by auto
termination
proof (relation "measure (\<lambda>(_, s). length s)")
  fix sp s :: string and n
  assume "sp \<noteq> []" and f: "find_sub sp s = Some n"
  moreover have "n + length sp \<le> length s" using find_sub_Some_le [OF f] .
  moreover have "length (TrimBothSides (drop (n + length sp) s) blanks) \<le> length s - (n + length sp)"
    using length_Trim [of "drop (n + length sp) s" blanks] by simp
  moreover have "0 < length sp" using \<open>sp \<noteq> []\<close> by simp
  ultimately have "length (TrimBothSides (drop (n + length sp) s) blanks) < length s" by linarith
  then show "((sp, TrimBothSides (drop (n + length sp) s) blanks), sp, s) \<in> measure (\<lambda>(_, s). length s)" by simp
qed simp

declare split_loop.simps [simp del]

definition SplitString :: "string \<Rightarrow> string \<Rightarrow> string list" where
  "SplitString strMain strSpliter =
     (if strMain = [] \<or> strSpliter = [] then []
      else let strMainTemp = TrimBothSides strMain blanks
           in if strMainTemp = [] \<or> strSpliter = [] then [] else split_loop strSpliter strMainTemp)"

function SplitWords :: "string \<Rightarrow> string list" where
  \<comment> \<open>the second \<open>SplitString\<close>, which splits at separator characters\<close>
  "SplitWords strTemp =
     (if strTemp = [] then []
      else let rest = dropWhile IsSeparator strTemp;
               word = takeWhile (\<lambda>c. \<not> IsSeparator c) rest
           in if word \<noteq> [] then word # SplitWords (drop (length word) rest) else [])"
  by auto
termination
proof (relation "measure length")
  fix s :: string and rest word
  assume "s \<noteq> []" "rest = dropWhile IsSeparator s" "word = takeWhile (\<lambda>c. \<not> IsSeparator c) rest" "word \<noteq> []"
  then have "0 < length word" "length rest \<le> length s" "length word \<le> length rest"
    by (simp_all add: length_dropWhile_le length_takeWhile_le)
  then have "length (drop (length word) rest) < length s" unfolding length_drop by linarith
  then show "(drop (length word) rest, s) \<in> measure length" by simp
qed simp

declare SplitWords.simps [simp del]

section \<open>Replacing\<close>

partial_function (option) replace_loop :: "string \<Rightarrow> string \<Rightarrow> string \<Rightarrow> nat option \<Rightarrow> string option" where
  "replace_loop oldStr newStr strRet dwPos =
     (if dwPos = None then Some strRet
      else let p = the dwPos;
               strRet = (if length strRet \<ge> p + length oldStr
                         then take p strRet @ newStr @ drop (p + length oldStr) strRet else strRet)
           in replace_loop oldStr newStr strRet (str_find strRet oldStr (p + length newStr)))"

declare replace_loop.simps [code]

definition ReplaceStr :: "string \<Rightarrow> string \<Rightarrow> string \<Rightarrow> string option" where
  "ReplaceStr strValue oldStr newStr = replace_loop oldStr newStr strValue (find_sub oldStr strValue)"

definition ReplaceCharSet :: "string \<Rightarrow> string \<Rightarrow> string \<Rightarrow> string" where
  "ReplaceCharSet strOld strFromSet strToSet =
     concat (map (\<lambda>ch. case find_sub [ch] strFromSet of
                         None \<Rightarrow> [ch]
                       | Some dwPos \<Rightarrow> if dwPos < length strToSet then [strToSet ! dwPos] else []) strOld)"

fun ReplaceStrSet :: "string \<Rightarrow> (string \<times> string) list \<Rightarrow> string option" where
  \<comment> \<open>the map as the list of its entries in the order of the keys\<close>
  "ReplaceStrSet strRet [] = Some strRet"
| "ReplaceStrSet strRet ((k, v) # m) = Option.bind (ReplaceStr strRet k v) (\<lambda>s. ReplaceStrSet s m)"

section \<open>Removing\<close>

definition RemoveChar :: "string \<Rightarrow> char \<Rightarrow> string" where
  "RemoveChar strValue ch = filter (\<lambda>c. c \<noteq> ch) strValue"

definition separated :: "string \<Rightarrow> nat \<Rightarrow> nat \<Rightarrow> bool" where
  \<comment> \<open>\<open>bHasPreSeparator && bHasPostSeparator\<close>\<close>
  "separated strTemp dwPos n \<longleftrightarrow>
     (if 0 = dwPos then True else IsSeparator (strTemp ! (dwPos - 1))) \<and>
     (if dwPos + n \<ge> length strTemp then True else IsSeparator (strTemp ! (dwPos + n)))"

partial_function (option) remove_loop :: "string \<Rightarrow> bool \<Rightarrow> string \<Rightarrow> string \<Rightarrow> string option" where
  "remove_loop strSubStr bNeedSeparator strRet strTemp =
     (if find_sub strSubStr strTemp = None then Some (strRet @ strTemp)
      else let dwPos = the (find_sub strSubStr strTemp);
               n = length strSubStr;
               strRet = strRet @ (if bNeedSeparator \<and> \<not> separated strTemp dwPos n
                                  then take (dwPos + n) strTemp else take dwPos strTemp);
               strTemp = drop (dwPos + n) strTemp
           in if strTemp \<noteq> [] then remove_loop strSubStr bNeedSeparator strRet strTemp else Some strRet)"

definition RemoveStr :: "string \<Rightarrow> string \<Rightarrow> bool \<Rightarrow> string option" where
  "RemoveStr strRawData strSubStr bNeedSeparator = remove_loop strSubStr bNeedSeparator [] strRawData"

fun remove_each :: "string \<Rightarrow> string list \<Rightarrow> bool \<Rightarrow> string option" where
  "remove_each strTmp [] b = Some strTmp"
| "remove_each strTmp (x # xs) b = Option.bind (RemoveStr strTmp x b) (\<lambda>s. remove_each s xs b)"

definition RemoveStrSet :: "string \<Rightarrow> string list \<Rightarrow> bool \<Rightarrow> string option" where
  \<comment> \<open>the set as the list of its elements in ascending order; it is traversed from the end, and the
      iterator of an empty set is decremented\<close>
  "RemoveStrSet strRawData sStrSet bNeedSeparator =
     (if sStrSet = [] then None else remove_each strRawData (rev sStrSet) bNeedSeparator)"

function delete_loop :: "string \<Rightarrow> string \<Rightarrow> string \<Rightarrow> string \<Rightarrow> string" where
  "delete_loop strBegin strEnd strRet strTemp =
     (case (find_sub strBegin strTemp, find_sub strEnd strTemp) of
        (Some dwPosBegin, Some dwPosEnd) \<Rightarrow>
          if dwPosEnd > dwPosBegin
          then (let strRet = strRet @ take dwPosBegin strTemp; rest = drop (dwPosEnd + length strEnd) strTemp
                in if rest \<noteq> [] then delete_loop strBegin strEnd strRet rest else strRet)
          else strRet @ strTemp
      | _ \<Rightarrow> strRet @ strTemp)"
  by auto
termination
proof (relation "measure (\<lambda>(_, _, _, s). length s)", goal_cases)
  case (2 b e ret s x y p q ret' rest)
  then have "q + length e \<le> length s" "p < q" using find_sub_Some_le [of e s q] by auto
  then show ?case using 2 by auto
qed simp

declare delete_loop.simps [simp del]

definition DeleteSubstr :: "string \<Rightarrow> string \<Rightarrow> string \<Rightarrow> string" where
  "DeleteSubstr strRawData strBegin strEnd = delete_loop strBegin strEnd [] strRawData"

section \<open>Extracting\<close>

definition ExtractSubstr :: "string \<Rightarrow> string \<Rightarrow> string option" where
  \<comment> \<open>the \<open>size_t\<close> differences wrap\<close>
  "ExtractSubstr strInput strPattern =
     (if strPattern = [] \<or> strPattern = ''*'' then Some strInput
      else case find_sub ''*'' strPattern of
        None \<Rightarrow> Some strInput
      | Some pos \<Rightarrow>
          (let strLeft = take pos strPattern;
               strRight = drop (pos + 1) strPattern;
               leftPos = (if strLeft \<noteq> []
                          then case find_sub strLeft strInput of Some p \<Rightarrow> p + length strLeft | None \<Rightarrow> 0
                          else 0);
               rightPos = (if strRight \<noteq> []
                           then case str_rfind strInput strRight of Some p \<Rightarrow> int p - 1 | None \<Rightarrow> int (length strInput) - 1
                           else int (length strInput) - 1)
           in substr strInput leftPos (nat ((rightPos - int leftPos + 1) mod 2 ^ 64))))"

section \<open>Quoting\<close>

definition quote_char :: "char \<Rightarrow> string" where
  "quote_char c =
     (if c = CHR 0x0A then [CHR 0x5C, CHR ''n''] else if c = CHR 0x09 then [CHR 0x5C, CHR ''t'']
      else if c = CHR 0x0D then [CHR 0x5C, CHR ''r''] else if c = CHR 0x08 then [CHR 0x5C, CHR ''b'']
      else if c = CHR 0x27 then [CHR 0x5C, CHR 0x27] else if c = CHR 0x22 then [CHR 0x5C, CHR 0x22]
      else if c = CHR 0x5C then [CHR 0x5C, CHR 0x5C]
      else if uchar c \<ge> 32 then [c] else [CHR 0x20])"

definition QuoteWild :: "string \<Rightarrow> string option" where
  \<comment> \<open>the buffer has \<open>2 * size\<close> bytes, and the terminating 0 is stored in it as well\<close>
  "QuoteWild strRaw =
     (if 0 = length strRaw then Some []
      else do {
        let pcDest = concat (map quote_char (c_str strRaw));
        guard (length pcDest < length strRaw * 2);
        Some (c_str pcDest)
      })"

section \<open>Blanks and comments\<close>

definition find_last_not_of :: "string \<Rightarrow> char \<Rightarrow> nat \<Rightarrow> nat option" where
  \<comment> \<open>\<open>s.find_last_not_of(c, pos)\<close>\<close>
  "find_last_not_of s c pos =
     (let t = take (pos + 1) s; k = length (takeWhile (\<lambda>x. x = c) (rev t)) in if k < length t then Some (length t - 1 - k) else None)"

definition is_blank :: "char \<Rightarrow> bool" where
  \<comment> \<open>\<open>(*ptr > 0) && isspace(*ptr)\<close>\<close>
  "is_blank c \<longleftrightarrow> schar c > 0 \<and> c_isspace c"

fun blank_loop :: "bool \<Rightarrow> string \<Rightarrow> string" where
  \<comment> \<open>the characters stored in \<open>strRet\<close>\<close>
  "blank_loop bIsFirstSpace [] = []"
| "blank_loop bIsFirstSpace (c # s) =
     (if is_blank c
      then (if bIsFirstSpace then CHR '' '' # blank_loop False s else blank_loop bIsFirstSpace s)
      else c # blank_loop True s)"

definition SingleBlank :: "string \<Rightarrow> string" where
  "SingleBlank strRaw =
     (let out = blank_loop True (dropWhile is_blank (c_str strRaw));
          strRet = out @ replicate (length strRaw - length out) (CHR '' '')
      in case find_last_not_of strRet (CHR '' '') (length out) of
           Some a \<Rightarrow> take (a + 1) strRet
         | None \<Rightarrow> [])"

function strip_loop :: "bool \<Rightarrow> string \<Rightarrow> string" where
  \<comment> \<open>the rest of the input from \<open>ptr\<close> on; the result is what is appended to \<open>strNewFile\<close>\<close>
  "strip_loop bIsInsideComment s =
     (let (inside, s) =
        (if \<not> bIsInsideComment
         then (length s > 4 \<and> take 4 s = ''<!--'' \<and> c_isspace (s ! 4), s)
         else if length s > 2 \<and> take 3 s = ''-->'' then (False, drop 3 s) else (True, s))
      in if s = [] then []
         else (if \<not> inside then [hd s] else []) @ strip_loop inside (tl s))"
  by auto
termination by (relation "measure (\<lambda>(_, s). length s)") (auto split: if_splits)

declare strip_loop.simps [simp del]

definition StripComments :: "string \<Rightarrow> string" where
  "StripComments strRawFile = strip_loop False strRawFile"

section \<open>Trimming removes the characters of the set at the ends\<close>

definition strip :: "string \<Rightarrow> string \<Rightarrow> string" where
  "strip t s = rev (dropWhile (\<lambda>c. c \<in> set t) (rev (dropWhile (\<lambda>c. c \<in> set t) s)))"

definition rstrip :: "string \<Rightarrow> string \<Rightarrow> string" where
  "rstrip t s = rev (dropWhile (\<lambda>c. c \<in> set t) (rev s))"

lemma rstrip_snoc: "rstrip t (s @ [c]) = (if c \<in> set t then rstrip t s else s @ [c])"
  by (simp add: rstrip_def)

lemma rstrip_end:
  assumes "e < length s" "\<forall>i. e < i \<and> i < length s \<longrightarrow> s ! i \<in> set t" "s ! e \<notin> set t"
  shows "rstrip t s = take (Suc e) s"
  using assms
proof (induction s rule: rev_induct)
  case (snoc c s)
  show ?case
  proof (cases "e = length s")
    case True
    then show ?thesis using snoc.prems by (simp add: rstrip_snoc)
  next
    case False
    then have "e < length s" using snoc.prems(1) by simp
    moreover have "c \<in> set t" using snoc.prems(2) [rule_format, of "length s"] \<open>e < length s\<close> by simp
    moreover have "\<forall>i. e < i \<and> i < length s \<longrightarrow> s ! i \<in> set t"
    proof (intro allI impI)
      fix i assume "e < i \<and> i < length s"
      then show "s ! i \<in> set t" using snoc.prems(2) [rule_format, of i] by (simp add: nth_append)
    qed
    moreover have "s ! e \<notin> set t" using snoc.prems(3) \<open>e < length s\<close> by (simp add: nth_append)
    ultimately show ?thesis using snoc.IH by (simp add: rstrip_snoc)
  qed
qed simp

lemma rstrip_all: "set s \<subseteq> set t \<Longrightarrow> rstrip t s = []"
  by (induction s rule: rev_induct) (auto simp: rstrip_snoc, simp add: rstrip_def)

lemma rstrip_end_pos:
  assumes "s \<noteq> []"
  shows "rstrip t s = (if end_pos t s (length s - 1) = 0 \<and> s ! 0 \<in> set t then [] else take (Suc (end_pos t s (length s - 1))) s)"
proof -
  define e where "e = end_pos t s (length s - 1)"
  have l: "length s - 1 < length s" using assms by simp
  have e: "e < length s" "\<forall>i. e < i \<and> i < length s \<longrightarrow> s ! i \<in> set t" "e = 0 \<or> s ! e \<notin> set t"
    using end_pos_spec [OF l, of t] l unfolding e_def [symmetric] by auto
  show ?thesis
  proof (cases "s ! e \<in> set t")
    case True
    then have "e = 0" using e(3) by simp
    then have "\<forall>i < length s. s ! i \<in> set t" using e(2) True by (metis neq0_conv)
    then have "set s \<subseteq> set t" by (auto simp: in_set_conv_nth)
    then show ?thesis using \<open>e = 0\<close> True rstrip_all by (simp add: e_def)
  next
    case False
    then show ?thesis using rstrip_end [OF e(1,2) False] by (auto simp: e_def)
  qed
qed

lemma TrimRight_eq: "TrimRight s t = (if length (rstrip t s) \<le> 1 then [] else rstrip t s)"
proof (cases "s = []")
  case False
  define e where "e = end_pos t s (length s - 1)"
  have "e < length s" using end_pos_spec [of "length s - 1" s t] False unfolding e_def [symmetric] by (cases s) auto
  then show ?thesis
    using False unfolding TrimRight_def rstrip_end_pos [OF False] Let_def e_def [symmetric]
    by (auto simp: min_def)
qed (simp add: TrimRight_def rstrip_def)

lemma TrimLeft_eq:
  "TrimLeft s t = (let r = dropWhile (\<lambda>c. c \<in> set t) s in if length r = 1 then [] else r)"
proof (cases "s = []")
  case False
  have d: "dropWhile (\<lambda>c. c \<in> set t) s = drop (begin_pos t s) s"
    by (simp add: begin_pos_takeWhile dropWhile_eq_drop)
  have "length (drop (begin_pos t s) s) = 1 \<longleftrightarrow> begin_pos t s = length s - 1"
    using False begin_pos_le [of t s] by (cases s) auto
  then show ?thesis using False by (simp add: TrimLeft_def d Let_def)
qed (simp add: TrimLeft_def)

lemma Trim_strip: "TrimBothSides s t = strip t s"
proof (cases "s = []")
  case False
  define b where "b = begin_pos t s"
  define e where "e = end_pos t s (length s - 1)"
  have s: "strip t s = rstrip t (drop b s)"
    by (simp add: strip_def rstrip_def b_def begin_pos_takeWhile dropWhile_eq_drop)
  have T: "TrimBothSides s t = (if b > e then [] else take (e - b + 1) (drop b s))"
    using False by (simp add: TrimBothSides_def Let_def b_def e_def)
  have "length s - 1 < length s" using False by simp
  note es = end_pos_spec [OF this, of t, folded e_def]
  have eb: "s ! b \<notin> set t" if "b < length s"
    using that nth_length_takeWhile [of "\<lambda>c. c \<in> set t" s] by (simp add: b_def begin_pos_takeWhile)
  have bl: "s ! i \<in> set t" if "i < b" for i
    using that nth_mem [of i "takeWhile (\<lambda>c. c \<in> set t) s"] set_takeWhileD
    by (metis b_def begin_pos_takeWhile takeWhile_nth)
  show ?thesis
  proof (cases "b < length s")
    case False
    have "e < length s" using es \<open>s \<noteq> []\<close> by (cases s) auto
    then have "drop b s = []" "e < b" using False by simp_all
    then show ?thesis by (simp add: s T rstrip_def)
  next
    case True
    have be: "b \<le> e"
    proof (rule ccontr)
      assume "\<not> b \<le> e"
      then have "s ! b \<in> set t" using es True by auto
      then show False using eb True by simp
    qed
    have "s ! e \<notin> set t" using es be eb True by (cases "e = 0") auto
    then have "drop b s ! (e - b) \<notin> set t" using be True by simp
    moreover have "e - b < length (drop b s)" using es True be by auto
    moreover have "\<forall>i. e - b < i \<and> i < length (drop b s) \<longrightarrow> drop b s ! i \<in> set t"
    proof (intro allI impI)
      fix i assume "e - b < i \<and> i < length (drop b s)"
      then have "e < b + i \<and> b + i \<le> length s - 1" "drop b s ! i = s ! (b + i)" using True by auto
      then show "drop b s ! i \<in> set t" using es by metis
    qed
    ultimately have "rstrip t (drop b s) = take (Suc (e - b)) (drop b s)" by (intro rstrip_end) auto
    then show ?thesis using be by (simp add: s T)
  qed
qed (simp add: TrimBothSides_def strip_def)

lemma strip_id: "set s \<inter> set t = {} \<Longrightarrow> strip t s = s"
proof -
  assume d: "set s \<inter> set t = {}"
  have "dropWhile (\<lambda>c. c \<in> set t) u = u" if "set u = set s" for u
    using that d by (cases u) auto
  then show ?thesis by (simp add: strip_def)
qed

section \<open>Replacing\<close>

function replace_all :: "string \<Rightarrow> string \<Rightarrow> string \<Rightarrow> string" where
  \<comment> \<open>the specification: the occurrences found from the left, without overlap\<close>
  "replace_all oldStr newStr s =
     (case find_sub oldStr s of
        None \<Rightarrow> s
      | Some n \<Rightarrow> if oldStr = [] then s
                  else take n s @ newStr @ replace_all oldStr newStr (drop (n + length oldStr) s))"
  by auto
termination
proof (relation "measure (\<lambda>(_, _, s). length s)", goal_cases)
  case (2 oldStr newStr s n)
  then have "n + length oldStr \<le> length s" "0 < length oldStr" using find_sub_Some_le by auto
  then have "length (drop (n + length oldStr) s) < length s" unfolding length_drop by linarith
  then show ?case by simp
qed simp

declare replace_all.simps [simp del]

lemma str_find_append: "str_find (a @ s) pat (length a) = map_option ((+) (length a)) (find_sub pat s)"
  by (simp add: str_find_def)

lemma replace_loop_ok:
  "oldStr \<noteq> [] \<Longrightarrow> replace_loop oldStr newStr (a @ s) (map_option ((+) (length a)) (find_sub oldStr s)) =
     Some (a @ replace_all oldStr newStr s)"
proof (induction oldStr newStr s arbitrary: a rule: replace_all.induct)
  case (1 oldStr newStr s)
  show ?case
  proof (cases "find_sub oldStr s")
    case None
    then show ?thesis
      by (simp add: replace_all.simps [of oldStr newStr s] replace_loop.simps [of _ _ _ None])
  next
    case (Some n)
    then have n: "n + length oldStr \<le> length s" by (rule find_sub_Some_le)
    let ?a = "a @ take n s @ newStr"
    let ?s = "drop (n + length oldStr) s"
    have "replace_loop oldStr newStr (a @ s) (Some (length a + n)) =
        replace_loop oldStr newStr (?a @ ?s) (str_find (?a @ ?s) oldStr (length ?a))"
      using n by (subst replace_loop.simps) (simp add: Let_def min_absorb2 add.assoc)
    also have "\<dots> = Some (?a @ replace_all oldStr newStr ?s)"
      unfolding str_find_append using 1(1) [OF Some 1(2), of ?a] 1(2) by simp
    finally show ?thesis using Some 1(2) by (simp add: replace_all.simps [of oldStr newStr s])
  qed
qed

lemma replace_loop_empty:
  assumes "replace_loop oldStr newStr s p = Some r"
  shows "oldStr = [] \<longrightarrow> (\<forall>q. p = Some q \<longrightarrow> \<not> q \<le> length s)"
proof (rule replace_loop.raw_induct [where P = "\<lambda>oldStr newStr s p r. oldStr = [] \<longrightarrow> (\<forall>q. p = Some q \<longrightarrow> \<not> q \<le> length s)",
      OF _ assms], intro impI allI notI)
  fix rec oldStr newStr s p r q
  assume IH: "\<And>oldStr newStr s p r. rec oldStr newStr s p = Some r \<Longrightarrow>
      oldStr = [] \<longrightarrow> (\<forall>q. p = Some q \<longrightarrow> \<not> q \<le> length s)"
    and b: "(if p = None then Some s
      else let p = the p;
               s = (if length s \<ge> p + length oldStr then take p s @ newStr @ drop (p + length oldStr) s else s)
           in rec oldStr newStr s (str_find s oldStr (p + length newStr))) = Some r"
    and o: "oldStr = []" and p: "p = Some q" and q: "q \<le> length s"
  define s' where "s' = take q s @ newStr @ drop q s"
  have f: "str_find s' [] (q + length newStr) = Some (q + length newStr)" "q + length newStr \<le> length s'"
    using q by (auto simp: s'_def str_find_def)
  have "rec [] newStr s' (str_find s' [] (q + length newStr)) = Some r"
    using b q by (simp add: o p s'_def Let_def)
  from IH [OF this] f show False by simp
qed

lemma remove_loop_ok:
  "sub \<noteq> [] \<Longrightarrow> remove_loop sub False ret s = Some (ret @ replace_all sub [] s)"
proof (induction sub "[] :: string" s arbitrary: ret rule: replace_all.induct)
  case (1 sub s)
  show ?case
  proof (cases "find_sub sub s")
    case None
    then show ?thesis by (simp add: remove_loop.simps [of sub False ret s] replace_all.simps [of sub "[]" s])
  next
    case (Some n)
    have e: "replace_all sub [] [] = []" using 1(2) by (simp add: replace_all.simps [of sub "[]" "[]"])
    show ?thesis
      using 1(1) [OF Some 1(2)] Some 1(2) e
      by (simp add: remove_loop.simps [of sub False ret s] replace_all.simps [of sub "[]" s] Let_def)
  qed
qed

section \<open>Splitting\<close>

fun join_with :: "char \<Rightarrow> string list \<Rightarrow> string" where
  "join_with c [] = []"
| "join_with c [p] = p"
| "join_with c (p # ps) = p @ c # join_with c ps"

definition plain :: "char \<Rightarrow> string \<Rightarrow> bool" where
  \<comment> \<open>a piece without the separator and without blanks\<close>
  "plain c p \<longleftrightarrow> c \<notin> set p \<and> set p \<inter> set blanks = {}"

lemma join_plain: "\<forall>p \<in> set ps. plain c p \<Longrightarrow> c \<notin> set blanks \<Longrightarrow> set (join_with c ps) \<inter> set blanks = {}"
  by (induction c ps rule: join_with.induct) (auto simp: plain_def)

lemma split_join:
  "\<forall>p \<in> set ps. plain c p \<Longrightarrow> c \<notin> set blanks \<Longrightarrow> ps \<noteq> [] \<Longrightarrow> last ps \<noteq> [] \<Longrightarrow> split_loop [c] (join_with c ps) = ps"
proof (induction c ps rule: join_with.induct)
  case (2 c p)
  then have "find_sub [c] p = None" "TrimBothSides p blanks = p"
    by (auto simp: find_sub_char_None Trim_strip strip_id plain_def)
  then show ?case using 2 by (simp add: split_loop.simps)
next
  case (3 c p q ps)
  have "find_sub [c] (p @ c # join_with c (q # ps)) = Some (length p)"
    using 3(2) by (intro find_sub_char) (simp add: plain_def)
  moreover have "TrimBothSides (join_with c (q # ps)) blanks = join_with c (q # ps)"
    using join_plain [of "q # ps" c] 3(2,3) by (simp add: Trim_strip strip_id)
  ultimately show ?case
    using 3 by (simp add: split_loop.simps [of "[c]" "p @ c # _"])
qed simp

lemma SplitWords_concat:
  "concat (SplitWords s) = filter (\<lambda>c. \<not> IsSeparator c) s \<and>
   (\<forall>w \<in> set (SplitWords s). w \<noteq> [] \<and> (\<forall>c \<in> set w. \<not> IsSeparator c))"
proof (induction s rule: SplitWords.induct)
  case (1 s)
  define rest where "rest = dropWhile IsSeparator s"
  define word where "word = takeWhile (\<lambda>c. \<not> IsSeparator c) rest"
  have f: "filter (\<lambda>c. \<not> IsSeparator c) s = filter (\<lambda>c. \<not> IsSeparator c) rest"
  proof -
    have "filter (\<lambda>c. \<not> IsSeparator c) (takeWhile IsSeparator s) = []"
      by (auto simp: filter_empty_conv dest: set_takeWhileD)
    then show ?thesis
      unfolding rest_def by (metis append_Nil filter_append takeWhile_dropWhile_id)
  qed
  have w: "filter (\<lambda>c. \<not> IsSeparator c) word = word" "\<forall>c \<in> set word. \<not> IsSeparator c"
    unfolding word_def by (auto simp: filter_id_conv dest: set_takeWhileD)
  have r: "rest = word @ drop (length word) rest"
    unfolding word_def by (metis dropWhile_eq_drop takeWhile_dropWhile_id)
  show ?case
  proof (cases "word = []")
    case True
    then have "rest = []" unfolding word_def rest_def
      by (metis (full_types) dropWhile_eq_Nil_conv hd_dropWhile list.collapse list.distinct(1) takeWhile.simps(2))
    then show ?thesis
      using True f by (simp add: SplitWords.simps [of s] rest_def [symmetric] word_def [symmetric] Let_def)
  next
    case False
    then have s: "s \<noteq> []" by (auto simp: word_def rest_def)
    have "SplitWords s = word # SplitWords (drop (length word) rest)"
      using False s by (simp add: SplitWords.simps [of s] rest_def [symmetric] word_def [symmetric] Let_def)
    moreover have "filter (\<lambda>c. \<not> IsSeparator c) rest = word @ filter (\<lambda>c. \<not> IsSeparator c) (drop (length word) rest)"
      using r w(1) by (metis filter_append)
    ultimately show ?thesis
      using 1 [OF s rest_def word_def False] False f w(2) by auto
  qed
qed

section \<open>Quoting\<close>

definition needs_quote :: "char \<Rightarrow> bool" where
  "needs_quote c \<longleftrightarrow> c \<in> {CHR 0x0A, CHR 0x09, CHR 0x0D, CHR 0x08, CHR 0x27, CHR 0x22, CHR 0x5C}"

lemma length_quote_char: "length (quote_char c) = (if needs_quote c then 2 else 1)"
  by (auto simp: quote_char_def needs_quote_def)

lemma quote_no_nul: "uchar c \<noteq> 0 \<Longrightarrow> \<forall>x \<in> set (quote_char c). uchar x \<noteq> 0"
  by (auto simp: quote_char_def uchar_def)

lemma c_str_id: "\<forall>c \<in> set s. uchar c \<noteq> 0 \<Longrightarrow> c_str s = s"
  by (simp add: c_str_def takeWhile_eq_all_conv)

lemma length_quoted: "length (concat (map quote_char s)) = length s + length (filter needs_quote s)"
  by (induction s) (simp_all add: length_quote_char)

lemma filter_all: "length (filter P s) < length s \<longleftrightarrow> \<not> (\<forall>c \<in> set s. P c)"
  by (metis filter_id_conv length_filter_less less_irrefl)

section \<open>Properties\<close>

text \<open>
  \<open>TrimBothSides\<close> removes exactly the characters of the set at both ends. \<open>TrimLeft\<close> and
  \<open>TrimRight\<close> remove them at one end, except that they return the empty string when a single
  character would remain (\<open>TrimLeft\<close> compares with the last position, \<open>TrimRight\<close> with the first).
\<close>
theorem Trim_functions:
  "TrimBothSides s t = strip t s \<and>
   TrimLeft s t = (if length (dropWhile (\<lambda>c. c \<in> set t) s) = 1 then [] else dropWhile (\<lambda>c. c \<in> set t) s) \<and>
   TrimRight s t = (if length (rstrip t s) \<le> 1 then [] else rstrip t s)"
  by (simp_all add: Trim_strip TrimLeft_eq TrimRight_eq Let_def)

text \<open>
  C33: \<open>SplitString\<close> undoes joining: pieces without blanks and without the separator character, the last
  one not empty, come back as they are when they are joined by the separator and split again. (The
  code drops an empty last piece.)
\<close>
theorem SplitString_join:
  assumes "\<forall>p \<in> set ps. plain c p" and "c \<notin> set blanks" and "ps \<noteq> []" and "last ps \<noteq> []"
  shows "SplitString (join_with c ps) [c] = ps"
proof -
  have "last ps \<in> set ps" using assms(3) by simp
  moreover have "p \<in> set ps \<Longrightarrow> set p \<subseteq> set (join_with c ps)" for p
    by (induction c ps rule: join_with.induct) auto
  ultimately have "join_with c ps \<noteq> []" using assms(4) by fastforce
  moreover have "TrimBothSides (join_with c ps) blanks = join_with c ps"
    using join_plain [OF assms(1,2)] by (simp add: Trim_strip strip_id)
  ultimately show ?thesis using split_join [OF assms] by (simp add: SplitString_def)
qed

theorem SplitString_join_witness: "SplitString ''a,,bc'' '','' = [''a'', [], ''bc'']"
  using SplitString_join [of "[''a'', [], ''bc'']" "CHR '',''"] by (simp add: plain_def blanks_def)

text \<open>
  C32: \<open>ReplaceStr\<close> with a pattern that is not empty ends, and replaces the occurrences found from the
  left without overlap, not looking again at the text it has inserted; with an empty pattern it
  never returns.
\<close>
theorem ReplaceStr_spec:
  "ReplaceStr s oldStr newStr = (if oldStr = [] then None else Some (replace_all oldStr newStr s))"
proof (cases "oldStr = []")
  case True
  have "ReplaceStr s oldStr newStr \<noteq> Some r" for r
    using replace_loop_empty [of oldStr newStr s "Some 0" r] True by (auto simp: ReplaceStr_def)
  then show ?thesis using True by (cases "ReplaceStr s oldStr newStr") auto
next
  case False
  have "map_option ((+) (length ([] :: string))) (find_sub oldStr s) = find_sub oldStr s"
    by (cases "find_sub oldStr s") auto
  then show ?thesis
    using False replace_loop_ok [of oldStr newStr "[]" s] by (simp add: ReplaceStr_def)
qed

text \<open>
  \<open>QuoteWild\<close> of a text without NUL is the text with every special character quoted - unless all
  of its characters are special: then the terminating 0 is stored behind the end of the buffer of
  twice the length.
\<close>
theorem QuoteWild_spec:
  assumes "\<forall>c \<in> set s. uchar c \<noteq> 0" and "s \<noteq> []"
  shows "QuoteWild s = (if \<forall>c \<in> set s. needs_quote c then None else Some (concat (map quote_char s)))"
proof -
  have "c_str (concat (map quote_char s)) = concat (map quote_char s)"
    using assms(1) quote_no_nul by (intro c_str_id) auto
  moreover have "length (concat (map quote_char s)) < length s * 2 \<longleftrightarrow> \<not> (\<forall>c \<in> set s. needs_quote c)"
    using filter_all [of needs_quote s] by (simp add: length_quoted)
  ultimately show ?thesis
    using assms by (simp add: QuoteWild_def c_str_id guard_def)
qed

theorem QuoteWild_spec_witness:
  "QuoteWild [CHR ''a'', CHR 0x27] = Some [CHR ''a'', CHR 0x5C, CHR 0x27] \<and> QuoteWild [CHR 0x27, CHR 0x22] = None"
  using QuoteWild_spec [of "[CHR ''a'', CHR 0x27]"] QuoteWild_spec [of "[CHR 0x27, CHR 0x22]"]
  by (simp_all add: needs_quote_def quote_char_def uchar_def)

end
