(* ===== verification/StrClass.thy ===== *)
theory StrClass
  imports StrEdit
begin

text \<open>
  \<open>utils/string.cpp\<close>, second part: the classification and conversion functions of \<open>StringUtility\<close>.
  A \<open>char\<close> is signed where the source compares it with 0 or does arithmetic with it. Signed
  arithmetic that overflows wraps (\<open>wrap32\<close>), unsigned arithmetic is word arithmetic.
\<close>

section \<open>Characters\<close>

definition IsSpace :: "char \<Rightarrow> bool" where
  "IsSpace c \<longleftrightarrow> c = CHR '' '' \<or> c = CHR 0x09 \<or> c = CHR 0x0D \<or> c = CHR 0x0A"

definition between :: "char \<Rightarrow> char \<Rightarrow> char \<Rightarrow> bool" where
  \<comment> \<open>\<open>c >= a && c <= b\<close> on signed characters\<close>
  "between a c b \<longleftrightarrow> schar a \<le> schar c \<and> schar c \<le> schar b"

definition IsAlnum :: "char \<Rightarrow> bool" where
  "IsAlnum c = (if between (CHR ''a'') c (CHR ''z'') \<or> between (CHR ''A'') c (CHR ''Z'') \<or> between (CHR ''0'') c (CHR ''9'')
     then True else False)"

definition IsDigit :: "char \<Rightarrow> bool" where
  "IsDigit c = (if between (CHR ''0'') c (CHR ''9'') then True else False)"

definition IsAlpha :: "char \<Rightarrow> bool" where
  "IsAlpha c = (if between (CHR ''a'') c (CHR ''z'') \<or> between (CHR ''A'') c (CHR ''Z'') then True else False)"

definition CharToLower :: "char \<Rightarrow> char" where
  "CharToLower c = (if between (CHR ''A'') c (CHR ''Z'') then chr (uchar c + 32) else c)"

definition CharToUpper :: "char \<Rightarrow> char" where
  "CharToUpper c = (if between (CHR ''a'') c (CHR ''z'') then chr (uchar c - 32) else c)"

definition IsGbk :: "char \<Rightarrow> char \<Rightarrow> bool" where
  "IsGbk high low \<longleftrightarrow> (uchar high \<ge> 0x81 \<and> uchar high \<le> 0xfe) \<and>
     ((uchar low \<ge> 0x40 \<and> uchar low \<le> 0x7e) \<or> (uchar low \<ge> 0x80 \<and> uchar low \<le> 0xfe))"

lemma between_uchar: "uchar b < 128 \<Longrightarrow> uchar a < 128 \<Longrightarrow> between a c b \<longleftrightarrow> uchar a \<le> uchar c \<and> uchar c \<le> uchar b"
proof -
  assume u: "uchar b < 128" "uchar a < 128"
  show "between a c b \<longleftrightarrow> uchar a \<le> uchar c \<and> uchar c \<le> uchar b"
  proof (cases "uchar c < 128")
    case True
    then show ?thesis using u by (simp add: between_def schar_def)
  next
    case False
    have "int (uchar c) < 256" by (metis of_nat_less_iff of_nat_numeral uchar_less)
    moreover have "schar a = int (uchar a)" "schar c = int (uchar c) - 256" using u False by (simp_all add: schar_def)
    ultimately have "\<not> schar a \<le> schar c" by linarith
    then show ?thesis using u False by (simp add: between_def)
  qed
qed

lemma uchar_letters [simp]:
  "uchar CHR ''a'' = 97" "uchar CHR ''z'' = 122" "uchar CHR ''A'' = 65" "uchar CHR ''Z'' = 90"
  "uchar CHR ''0'' = 48" "uchar CHR ''9'' = 57" "uchar CHR ''F'' = 70" "uchar CHR ''f'' = 102"
  by (simp_all add: uchar_def)

section \<open>Case\<close>

fun ToLower :: "string \<Rightarrow> string" where
  "ToLower (c # d # s) = (if IsGbk c d then c # d # ToLower s else CharToLower c # ToLower (d # s))"
| "ToLower [c] = [CharToLower c]"
| "ToLower [] = []"

fun ToUpper :: "string \<Rightarrow> string" where
  "ToUpper (c # d # s) = (if IsGbk c d then c # d # ToUpper s else CharToUpper c # ToUpper (d # s))"
| "ToUpper [c] = [CharToUpper c]"
| "ToUpper [] = []"

section \<open>Predicates on strings\<close>

definition CmpNoCase :: "char \<Rightarrow> char \<Rightarrow> bool" where
  "CmpNoCase c1 c2 \<longleftrightarrow> c_toupper c1 = c_toupper c2"

fun search_by :: "('a \<Rightarrow> 'a \<Rightarrow> bool) \<Rightarrow> 'a list \<Rightarrow> 'a list \<Rightarrow> nat" where
  \<comment> \<open>\<open>std::search\<close>: the first position where the second list matches, else the length\<close>
  "search_by eq [] ys = 0"
| "search_by eq (x # xs) ys = (if list_all2 eq (take (length ys) (x # xs)) ys then 0 else Suc (search_by eq xs ys))"

definition FindNoCase :: "string \<Rightarrow> string \<Rightarrow> nat \<Rightarrow> nat option option" where
  \<comment> \<open>the outer \<open>None\<close>: the start iterator lies behind the end\<close>
  "FindNoCase strMain strSub nFrom =
     (if nFrom \<le> length strMain
      then Some (let pos = nFrom + search_by CmpNoCase (drop nFrom strMain) strSub
                 in if pos = length strMain then None else Some pos)
      else None)"

definition IsSubStrContained :: "string \<Rightarrow> string list \<Rightarrow> bool" where
  "IsSubStrContained strRawData sSubStr = list_ex (\<lambda>s. find_sub s strRawData \<noteq> None) sSubStr"

definition GetNextChar :: "string \<Rightarrow> nat \<Rightarrow> string" where
  "GetNextChar str dwCurPos =
     (if length str < dwCurPos + 1 then []
      else if schar (str ! dwCurPos) < 0 then take 2 (drop dwCurPos str) else take 1 (drop dwCurPos str))"

fun GetCharCount :: "string \<Rightarrow> nat" where
  "GetCharCount [] = 0"
| "GetCharCount (c # s) = Suc (if schar c < 0 then GetCharCount (tl s) else GetCharCount s)"

definition IsWhiteString :: "string \<Rightarrow> bool" where
  \<comment> \<open>\<open>pStr[size]\<close> is 0, which ends the loop\<close>
  "IsWhiteString pStr =
     (let i = length (takeWhile (\<lambda>c. c = CHR '' '' \<or> c = CHR 0x09) pStr) in if i \<ge> length pStr then True else False)"

definition IsEnglishString :: "string \<Rightarrow> bool \<Rightarrow> bool" where
  "IsEnglishString pStr bLowLineAsAlpha =
     list_all (\<lambda>c. if bLowLineAsAlpha then IsAlpha c \<or> c = CHR ''_'' else IsAlpha c) (c_str pStr)"

definition IsDigitString :: "string \<Rightarrow> bool" where
  "IsDigitString pStr = list_all IsDigit (c_str pStr)"

definition IsEnglishOrDigitString :: "string \<Rightarrow> bool" where
  "IsEnglishOrDigitString str = list_all (\<lambda>c. IsDigit c \<or> IsAlnum c) (c_str str)"

definition GetGB2312HanziIndex :: "string \<Rightarrow> int" where
  \<comment> \<open>for a string of two characters at least\<close>
  "GetGB2312HanziIndex str = (int (uchar (str ! 0)) - 176) * 94 + int (uchar (str ! 1)) - 161"

definition IsGB2312Hanzi :: "string \<Rightarrow> bool" where
  "IsGB2312Hanzi str =
     (if length str < 2 then False
      else let dwIndex = GetGB2312HanziIndex str in if dwIndex \<ge> 0 \<and> dwIndex < 6768 then True else False)"

fun hanzi_pairs :: "string \<Rightarrow> bool" where
  "hanzi_pairs (c # d # s) = (if \<not> IsGB2312Hanzi (c # d # s) then False else hanzi_pairs s)"
| "hanzi_pairs _ = True"

definition IsOnlyComposedOfGB2312Hanzi :: "string \<Rightarrow> bool" where
  "IsOnlyComposedOfGB2312Hanzi strWord = (if length strWord mod 2 \<noteq> 0 then False else hanzi_pairs strWord)"

section \<open>Numbers\<close>

definition SignedInt2Str :: "int \<Rightarrow> string" where
  "SignedInt2Str dwValue = show_int dwValue"

definition Int2Str :: "u32 \<Rightarrow> string" where
  "Int2Str dwValue = show_nat (unat dwValue)"

definition Char2Hex :: "char \<Rightarrow> string" where
  "Char2Hex ch =
     (let digit = (\<lambda>d. if d > 9 then chr (65 + d - 10) else chr (48 + d))
      in [CHR ''%'', digit (uchar ch div 16), digit (uchar ch mod 16)])"

definition Str2Int :: "string \<Rightarrow> int" where
  "Str2Int str = foldl (\<lambda>dwRet c. wrap32 (dwRet * 10 + schar c - 48)) 0 str"

definition Str2UInt :: "string \<Rightarrow> u32" where
  "Str2UInt str = foldl (\<lambda>dwRet c. dwRet * 10 + of_int (schar c) - 48) 0 str"

definition Str2ULongLong :: "string \<Rightarrow> u64" where
  "Str2ULongLong str = foldl (\<lambda>dwRet c. dwRet * 10 + of_int (schar c) - 48) 0 str"

definition hex_value :: "char \<Rightarrow> int" where
  "hex_value c =
     (if between (CHR ''A'') c (CHR ''F'') then schar c - 65 + 10
      else if between (CHR ''a'') c (CHR ''f'') then schar c - 97 + 10 else schar c - 48)"

definition HexStr2long :: "string \<Rightarrow> int" where
  "HexStr2long pcHex = foldl (\<lambda>dwRet c. wrap32 (dwRet * 16 + hex_value c)) 0 pcHex"

definition IsDigitIp :: "string \<Rightarrow> bool" where
  "IsDigitIp strIp =
     (let strList = SplitString strIp ''.''
      in if 4 \<noteq> length strList then False
         else list_all (\<lambda>s. \<not> (length s > 3 \<or> length s = 0) \<and> list_all (\<lambda>c. between (CHR ''0'') c (CHR ''9'')) s \<and>
                            \<not> Str2Int s > 255) strList)"

definition GetStrHashValue :: "string \<Rightarrow> u32" where
  "GetStrHashValue pcStr = foldl (\<lambda>h c. h * 31 + of_nat (uchar c)) 0 (c_str pcStr)"

section \<open>Converting to spaces\<close>

definition space_table :: string where
  \<comment> \<open>the table \<open>pc\<close>, whose last entry is the terminating 0 of the literal\<close>
  "space_table = ''1111111111111111111111111111111111100011111111110000000000111010'' @
     ''100000000000000000000000000000111011000000000000000000000000100'' @ [CHR 0x00]"

definition put_space :: "string \<Rightarrow> string" where
  \<comment> \<open>\<open>if (j>0 && pDest[j-1] != ' ') pDest[j++] = ' '\<close>\<close>
  "put_space dest = (if dest \<noteq> [] \<and> last dest \<noteq> CHR '' '' then dest @ [CHR '' ''] else dest)"

definition gbk_punct :: "nat \<Rightarrow> nat \<Rightarrow> bool" where
  "gbk_punct a b \<longleftrightarrow> (a = 0xa1 \<and> b \<ge> 0xa1) \<or> (a = 0xa3 \<and> b \<ge> 0xa1 \<and> b \<le> 0xc0) \<or> (a = 0xa9 \<and> b \<ge> 0x6f)"

fun convert_loop :: "string \<Rightarrow> string \<Rightarrow> string" where
  "convert_loop dest [] = dest"
| "convert_loop dest (a # s) =
     (if uchar a < 128
      then convert_loop (if space_table ! uchar a = CHR ''1'' then put_space dest else dest @ [CharToLower a]) s
      else case s of
             [] \<Rightarrow> dest
           | b # s \<Rightarrow> convert_loop (if gbk_punct (uchar a) (uchar b) then put_space dest else dest @ [a, b]) s)"

definition ConvertToSpace :: "string \<Rightarrow> string" where
  "ConvertToSpace str =
     (let dest = convert_loop [] str
      in if dest \<noteq> [] \<and> last dest = CHR '' '' then butlast dest else dest)"

section \<open>Abstracts\<close>

definition at :: "string \<Rightarrow> nat \<Rightarrow> char" where
  \<comment> \<open>\<open>s[i]\<close> for a position up to the end, where it is 0\<close>
  "at s i = (if i < length s then s ! i else CHR 0x00)"

function abstract_loop :: "string \<Rightarrow> nat \<Rightarrow> nat \<Rightarrow> nat" where
  "abstract_loop s dwLen dwOffset =
     (if dwOffset \<le> dwLen then
        (if schar (at s dwOffset) < 0
         then (if dwOffset + 2 \<le> dwLen then abstract_loop s dwLen (dwOffset + 2) else dwOffset)
         else if IsAlnum (at s dwOffset)
         then (let dwWordLen = 1 + length (takeWhile IsAlnum (drop (dwOffset + 1) s))
               in if dwWordLen > dwLen then dwLen
                  else if dwOffset + dwWordLen \<le> dwLen then abstract_loop s dwLen (dwOffset + dwWordLen)
                  else dwOffset)
         else if dwOffset + 1 \<le> dwLen then abstract_loop s dwLen (dwOffset + 1) else dwOffset)
      else dwOffset)"
  by auto
termination by (relation "measure (\<lambda>(_, n, i). n + 1 - i)") (auto split: if_splits)

declare abstract_loop.simps [simp del]

definition AbstractString :: "string \<Rightarrow> int \<Rightarrow> string" where
  "AbstractString strOldStr dwLen =
     (if dwLen \<le> 0 then [] else if strOldStr = [] then []
      else if nat dwLen \<ge> length strOldStr then strOldStr
      else take (abstract_loop strOldStr (nat dwLen) 0) strOldStr)"

section \<open>Numbers come back\<close>

lemma schar_digit: "d < 10 \<Longrightarrow> schar (digit_char d) = 48 + int d"
  by (simp add: schar_def uchar_digit_char)

lemma IsDigit_iff: "IsDigit c \<longleftrightarrow> c_isdigit c"
  by (simp add: IsDigit_def c_isdigit_def between_uchar)

lemma fold_show_nat:
  assumes "\<And>v d. d < 10 \<Longrightarrow> v * 10 + d \<le> n \<Longrightarrow> f (g v) (digit_char d) = g (v * 10 + d)" and "g 0 = z"
  shows "m \<le> n \<Longrightarrow> foldl f z (show_nat m) = g m"
proof (induction m rule: show_nat.induct)
  case (1 m)
  show ?case
  proof (cases "m < 10")
    case True
    then show ?thesis using assms(1) [of m 0] assms(2) 1(2) by (simp add: show_nat.simps [of m])
  next
    case False
    have "m div 10 * 10 + m mod 10 = m" by simp
    then show ?thesis
      using 1(1) [OF False] 1(2) assms(1) [of "m mod 10" "m div 10"] False by (simp add: show_nat.simps [of m])
  qed
qed

lemma Str2UInt_show: "Str2UInt (show_nat n) = of_nat n"
  unfolding Str2UInt_def
  by (rule fold_show_nat [where g = of_nat and n = n]) (simp_all add: schar_digit)

lemma Str2ULongLong_show: "Str2ULongLong (show_nat n) = of_nat n"
  unfolding Str2ULongLong_def
  by (rule fold_show_nat [where g = of_nat and n = n]) (simp_all add: schar_digit)

lemma Str2Int_show: "n < 2 ^ 31 \<Longrightarrow> Str2Int (show_nat n) = int n"
  unfolding Str2Int_def
  by (rule fold_show_nat [where g = int and n = n]) (simp_all add: schar_digit wrap32_id)

lemma length_show_nat: "n < 1000 \<Longrightarrow> length (show_nat n) \<le> 3 \<and> 0 < length (show_nat n)"
  by (simp add: show_nat.simps [of n] show_nat.simps [of "n div 10"] show_nat.simps [of "n div 10 div 10"])

lemma show_nat_isdigit: "c \<in> set (show_nat n) \<Longrightarrow> c_isdigit c"
  using show_nat_digits [of n] by (auto simp: list_all_iff)

lemma show_nat_plain: "plain (CHR ''.'') (show_nat n)"
  using show_nat_isdigit [of _ n] by (fastforce simp: plain_def blanks_def c_isdigit_def uchar_def)

lemma abstract_loop_le: "i \<le> n \<Longrightarrow> abstract_loop s n i \<le> n"
proof (induction s n i rule: abstract_loop.induct)
  case (1 s n i)
  then show ?case by (subst abstract_loop.simps) (auto simp: Let_def)
qed

lemma ToLower_hd: "c \<noteq> CHR ''A'' \<Longrightarrow> hd (ToLower (c # s)) = CharToLower c \<or> hd (ToLower (c # s)) = c"
  by (cases s) auto

lemma IsGbk_lower:
  assumes "\<not> IsGbk c d"
  shows "\<not> IsGbk (CharToLower c) d \<and> \<not> IsGbk (CharToLower c) (CharToLower d)"
  using assms by (auto simp: IsGbk_def CharToLower_def between_uchar uchar_chr)

lemma CharToLower_idem [simp]: "CharToLower (CharToLower c) = CharToLower c"
  by (auto simp: CharToLower_def between_uchar uchar_chr)

lemma ToLower_Cons: "\<exists>x t. ToLower (d # s) = x # t \<and> (x = d \<or> x = CharToLower d)"
  by (cases s) auto

lemma ToLower_idem: "ToLower (ToLower s) = ToLower s"
proof (induction s rule: ToLower.induct)
  case (1 c d s)
  show ?case
  proof (cases "IsGbk c d")
    case False
    obtain x t where x: "ToLower (d # s) = x # t" "x = d \<or> x = CharToLower d" using ToLower_Cons by blast
    then have "\<not> IsGbk (CharToLower c) x" using IsGbk_lower [OF False] by auto
    then show ?thesis using 1(2) [OF False] False x(1) by simp
  qed (use 1 in simp)
qed simp_all

section \<open>Properties\<close>

lemma Str2Int_parts:
  "Str2UInt (Int2Str w) = w"
  "0 \<le> i \<Longrightarrow> i < 2 ^ 31 \<Longrightarrow> Str2Int (SignedInt2Str i) = i"
  "Str2Int (SignedInt2Str (- 5)) = - 25"
proof -
  show "Str2UInt (Int2Str w) = w" by (simp add: Int2Str_def Str2UInt_show)
  show "Str2Int (SignedInt2Str i) = i" if "0 \<le> i" "i < 2 ^ 31"
    using that Str2Int_show [of "nat i"] by (simp add: SignedInt2Str_def show_int_def)
  show "Str2Int (SignedInt2Str (- 5)) = - 25"
  proof -
    have "schar (CHR ''-'') = 45" by (simp add: schar_def uchar_def)
    then show ?thesis
      by (simp add: SignedInt2Str_def show_int_def show_nat.simps Str2Int_def schar_digit wrap32_id)
  qed
qed

text \<open>
  the decimal text of an unsigned number is read back as the number by \<open>Str2UInt\<close>, at its full
  width; the text of an \<open>int\<close> is read back by \<open>Str2Int\<close> when it is not negative - the minus sign is
  taken for a digit of value -3, so -5 comes back as -25.
\<close>
theorem Str2Int_Int2Str:
  "Str2UInt (Int2Str w) = w \<and> (0 \<le> i \<and> i < 2 ^ 31 \<longrightarrow> Str2Int (SignedInt2Str i) = i) \<and>
   Str2Int (SignedInt2Str (- 5)) = - 25"
  using Str2Int_parts by blast

theorem Str2Int_Int2Str_witness: "Str2Int (SignedInt2Str 1234) = 1234"
  using Str2Int_Int2Str [of 0 1234] by simp

text \<open>
  The two hexadecimal digits that \<open>Char2Hex\<close> writes after the percent sign are read back by
  \<open>HexStr2long\<close> as the character's code.
\<close>
theorem HexStr2long_Char2Hex: "hd (Char2Hex c) = CHR ''%'' \<and> HexStr2long (tl (Char2Hex c)) = int (uchar c)"
proof -
  let ?d = "\<lambda>d. if d > 9 then chr (65 + d - 10) else chr (48 + d)"
  have v: "hex_value (?d d) = int d" if "d < 16" for d
    using that by (auto simp: hex_value_def between_uchar uchar_chr schar_def)
  have "uchar c < 16 * 16" by simp
  then have "uchar c div 16 < 16" "uchar c mod 16 < 16" by (auto intro: less_mult_imp_div_less)
  then have "hex_value (?d (uchar c div 16)) = int (uchar c div 16)" "hex_value (?d (uchar c mod 16)) = int (uchar c mod 16)"
    using v by blast+
  moreover have "int (uchar c div 16) * 16 + int (uchar c mod 16) = int (uchar c)"
    by (metis div_mult_mod_eq of_nat_add of_nat_mult of_nat_numeral)
  moreover have "wrap32 (int (uchar c div 16)) = int (uchar c div 16)" "wrap32 (int (uchar c)) = int (uchar c)"
  proof -
    have "uchar c div 16 < 2 ^ 31" "uchar c < 2 ^ 31"
      by (rule le_less_trans [OF div_le_dividend less_le_trans [OF uchar_less]], simp)
        (rule less_le_trans [OF uchar_less], simp)
    then show "wrap32 (int (uchar c div 16)) = int (uchar c div 16)" "wrap32 (int (uchar c)) = int (uchar c)"
      by (auto intro!: wrap32_id)
  qed
  ultimately show ?thesis by (simp add: Char2Hex_def HexStr2long_def Let_def)
qed

text \<open>
  \<open>IsDigitIp\<close> accepts the dotted decimal text of every four bytes.
\<close>
theorem IsDigitIp_quad:
  assumes "list_all (\<lambda>n. n \<le> 255) ns" and "length ns = 4"
  shows "IsDigitIp (join_with (CHR ''.'') (map show_nat ns))"
proof -
  have "SplitString (join_with (CHR ''.'') (map show_nat ns)) ''.'' = map show_nat ns"
  proof -
    have ne: "map show_nat ns \<noteq> []" using assms(2) by auto
    have "join_with (CHR ''.'') (map show_nat ns) \<noteq> []" "set (join_with (CHR ''.'') (map show_nat ns)) \<inter> set blanks = {}"
    proof -
      have "last (map show_nat ns) \<in> set (map show_nat ns)" using ne by (rule last_in_set)
      moreover have "p \<noteq> []" if "p \<in> set (map show_nat ns)" for p
        using that show_nat_digits by (metis imageE list.set_map)
      ultimately have l: "last (map show_nat ns) \<noteq> []" by blast
      have p: "\<forall>p \<in> set (map show_nat ns). plain (CHR ''.'') p" using show_nat_plain by auto
      have b: "CHR ''.'' \<notin> set blanks" by (simp add: blanks_def)
      show "set (join_with (CHR ''.'') (map show_nat ns)) \<inter> set blanks = {}" using join_plain [OF p b] .
      show "join_with (CHR ''.'') (map show_nat ns) \<noteq> []"
        using split_join [OF p b ne l] ne by (auto simp: split_loop.simps [of "''.''" "[]"] Trim_strip strip_def)
    qed
    then show ?thesis
      using split_join [of "map show_nat ns" "CHR ''.''"] ne show_nat_plain show_nat_digits
      by (simp add: SplitString_def Trim_strip strip_id blanks_def last_map)
  qed
  moreover have "\<not> (length (show_nat n) > 3 \<or> length (show_nat n) = 0) \<and>
      list_all (\<lambda>c. between (CHR ''0'') c (CHR ''9'')) (show_nat n) \<and> \<not> Str2Int (show_nat n) > 255" if "n \<le> 255" for n
    using that length_show_nat [of n] show_nat_isdigit [of _ n] Str2Int_show [of n]
    by (auto simp: list_all_iff between_uchar c_isdigit_def)
  ultimately show ?thesis using assms by (auto simp: IsDigitIp_def list_all_iff)
qed

theorem IsDigitIp_quad_witness: "IsDigitIp (join_with (CHR ''.'') (map show_nat [10, 0, 255, 7]))"
  by (rule IsDigitIp_quad) simp_all

text \<open>
  C22: \<open>AbstractString\<close> returns a prefix of the text of at most the given length.
\<close>
theorem AbstractString_prefix: "prefix (AbstractString s n) s \<and> (length (AbstractString s n) \<le> nat n)"
  using abstract_loop_le [of 0 "nat n" s] by (auto simp: AbstractString_def take_is_prefix min_def)

end
