(* ===== verification/CacheInv.thy ===== *)
theory CacheInv
  imports ShmCache
begin

text \<open>
  The invariant of \<open>CShmCache\<close> and the proof that every operation keeps it: the hash chains partition the
  used blocks by hash value and are sorted by key, the LRU list holds every block once with the free
  ones first, and all blocks of a key have the same time stamp. The ghost arguments \<open>B\<close> (the chain of
  every bucket) and \<open>lru\<close> (the LRU list) make these structures explicit.
\<close>

section \<open>The invariant\<close>

abbreviation ky :: "shm_cache \<Rightarrow> int \<Rightarrow> u64" where
  "ky c i \<equiv> m_key (m_block c i)"

abbreviation nx :: "shm_cache \<Rightarrow> int \<Rightarrow> int" where
  "nx c i \<equiv> m_next (m_block c i)"

definition blocks :: "shm_cache \<Rightarrow> int set" where
  "blocks c = {0..<int (unat (m_block_num c))}"

fun chain :: "(int \<Rightarrow> int) \<Rightarrow> int \<Rightarrow> int list \<Rightarrow> bool" where
  "chain f cur [] \<longleftrightarrow> cur = -1"
| "chain f cur (x # xs) \<longleftrightarrow> cur = x \<and> x \<noteq> -1 \<and> chain f (f x) xs"

definition shape_ok :: "shm_cache \<Rightarrow> bool" where
  "shape_ok c \<longleftrightarrow> 0 < unat (m_block_num c) \<and> 0 < unat (m_block_size c) \<and>
     unat (m_block_num c) * unat (m_block_size c) < 2 ^ 32 \<and>
     length (m_data c) = unat (m_block_num c) * unat (m_block_size c) \<and>
     (\<forall>i \<in> blocks c. m_idx (m_block c i) = i)"

definition bucket_ok :: "shm_cache \<Rightarrow> nat \<Rightarrow> int list \<Rightarrow> bool" where
  "bucket_ok c k xs \<longleftrightarrow> chain (nx c) (h_head (m_hash c k)) xs \<and> distinct xs \<and> sorted (map (ky c) xs) \<and>
     h_len (m_hash c k) = of_nat (length xs) \<and>
     set xs = {i \<in> blocks c. ky c i \<noteq> 0 \<and> hash_key (ky c i) = k}"

definition order_ok :: "shm_cache \<Rightarrow> int list \<Rightarrow> bool" where
  \<comment> \<open>the LRU list holds every block, the free ones first\<close>
  "order_ok c lru \<longleftrightarrow> set lru = blocks c \<and> lru_list c lru \<and> sorted_wrt (\<lambda>a b. ky c a \<noteq> 0 \<longrightarrow> ky c b \<noteq> 0) lru"

definition entry_ok :: "shm_cache \<Rightarrow> bool" where
  "entry_ok c \<longleftrightarrow> (\<forall>i \<in> blocks c. ky c i \<noteq> 0 \<longrightarrow> m_len (m_block c i) \<le> m_block_size c \<and>
     (\<forall>j \<in> blocks c. ky c j = ky c i \<longrightarrow> m_uptime (m_block c j) = m_uptime (m_block c i)))"

definition free_ok :: "shm_cache \<Rightarrow> bool" where
  "free_ok c \<longleftrightarrow> (\<forall>i \<in> blocks c. ky c i = 0 \<longrightarrow> nx c i = -1)"

definition cache_inv :: "shm_cache \<Rightarrow> (nat \<Rightarrow> int list) \<Rightarrow> int list \<Rightarrow> bool" where
  "cache_inv c B lru \<longleftrightarrow> shape_ok c \<and> (\<forall>k < HASH_MASK. bucket_ok c k (B k)) \<and> order_ok c lru \<and> entry_ok c \<and> free_ok c"

text \<open>The blocks of a key, and the value they hold.\<close>

definition entry :: "shm_cache \<Rightarrow> (nat \<Rightarrow> int list) \<Rightarrow> u64 \<Rightarrow> int list" where
  "entry c B key = filter (\<lambda>i. ky c i = key) (B (hash_key key))"

definition piece :: "shm_cache \<Rightarrow> int \<Rightarrow> u8 list" where
  "piece c i = take (unat (m_len (m_block c i))) (drop (nat i * unat (m_block_size c)) (m_data c))"

definition value_of :: "shm_cache \<Rightarrow> (nat \<Rightarrow> int list) \<Rightarrow> u64 \<Rightarrow> u8 list" where
  "value_of c B key = concat (map (piece c) (entry c B key))"

section \<open>What the list operations leave alone\<close>

lemma hash_key_less [simp]: "hash_key key < HASH_MASK"
  by (simp add: hash_key_def HASH_MASK_def)

lemma set_nxt_frame [simp]:
  "ky (set_nxt i j c) x = ky c x" "nx (set_nxt i j c) x = nx c x" "m_idx (m_block (set_nxt i j c) x) = m_idx (m_block c x)"
  "m_len (m_block (set_nxt i j c) x) = m_len (m_block c x)" "m_uptime (m_block (set_nxt i j c) x) = m_uptime (m_block c x)"
  "m_hash (set_nxt i j c) = m_hash c" "m_data (set_nxt i j c) = m_data c" "m_block_num (set_nxt i j c) = m_block_num c"
  "m_block_size (set_nxt i j c) = m_block_size c" "m_timeout (set_nxt i j c) = m_timeout c"
  "m_total_req (set_nxt i j c) = m_total_req c" "m_total_hit (set_nxt i j c) = m_total_hit c"
  by (simp_all add: set_nxt_def upd_block_def)

lemma set_pre_frame [simp]:
  "ky (set_pre i j c) x = ky c x" "nx (set_pre i j c) x = nx c x" "m_idx (m_block (set_pre i j c) x) = m_idx (m_block c x)"
  "m_len (m_block (set_pre i j c) x) = m_len (m_block c x)" "m_uptime (m_block (set_pre i j c) x) = m_uptime (m_block c x)"
  "m_hash (set_pre i j c) = m_hash c" "m_data (set_pre i j c) = m_data c" "m_block_num (set_pre i j c) = m_block_num c"
  "m_block_size (set_pre i j c) = m_block_size c" "m_timeout (set_pre i j c) = m_timeout c"
  "m_total_req (set_pre i j c) = m_total_req c" "m_total_hit (set_pre i j c) = m_total_hit c"
  by (simp_all add: set_pre_def upd_block_def)

lemma relink_frame [simp]:
  "ky (relink i c) x = ky c x" "nx (relink i c) x = nx c x" "m_idx (m_block (relink i c) x) = m_idx (m_block c x)"
  "m_len (m_block (relink i c) x) = m_len (m_block c x)" "m_uptime (m_block (relink i c) x) = m_uptime (m_block c x)"
  "m_hash (relink i c) = m_hash c" "m_data (relink i c) = m_data c" "m_block_num (relink i c) = m_block_num c"
  "m_block_size (relink i c) = m_block_size c" "m_timeout (relink i c) = m_timeout c"
  "m_total_req (relink i c) = m_total_req c" "m_total_hit (relink i c) = m_total_hit c"
  by (simp_all add: link_ends_def unlink_def Let_def)

lemma MoveLRUTail_frame [simp]:
  "ky (MoveLRUTail i c) x = ky c x" "nx (MoveLRUTail i c) x = nx c x"
  "m_idx (m_block (MoveLRUTail i c) x) = m_idx (m_block c x)"
  "m_len (m_block (MoveLRUTail i c) x) = m_len (m_block c x)"
  "m_uptime (m_block (MoveLRUTail i c) x) = m_uptime (m_block c x)"
  "m_hash (MoveLRUTail i c) = m_hash c" "m_data (MoveLRUTail i c) = m_data c"
  "m_block_num (MoveLRUTail i c) = m_block_num c" "m_block_size (MoveLRUTail i c) = m_block_size c"
  "m_timeout (MoveLRUTail i c) = m_timeout c"
  "m_total_req (MoveLRUTail i c) = m_total_req c" "m_total_hit (MoveLRUTail i c) = m_total_hit c"
  by (simp_all add: MoveLRUTail_def)

lemma MoveLRUHead_frame [simp]:
  "ky (MoveLRUHead i c) x = ky c x" "nx (MoveLRUHead i c) x = nx c x"
  "m_idx (m_block (MoveLRUHead i c) x) = m_idx (m_block c x)"
  "m_len (m_block (MoveLRUHead i c) x) = m_len (m_block c x)"
  "m_uptime (m_block (MoveLRUHead i c) x) = m_uptime (m_block c x)"
  "m_hash (MoveLRUHead i c) = m_hash c" "m_data (MoveLRUHead i c) = m_data c"
  "m_block_num (MoveLRUHead i c) = m_block_num c" "m_block_size (MoveLRUHead i c) = m_block_size c"
  "m_timeout (MoveLRUHead i c) = m_timeout c"
  "m_total_req (MoveLRUHead i c) = m_total_req c" "m_total_hit (MoveLRUHead i c) = m_total_hit c"
  by (simp_all add: MoveLRUHead_def)

lemma upd_block_block [simp]: "m_block (upd_block i f c) x = (if x = i then f (m_block c i) else m_block c x)"
  by (simp add: upd_block_def)

lemma upd_hash_hash [simp]: "m_hash (upd_hash k f c) x = (if x = k then f (m_hash c k) else m_hash c x)"
  by (simp add: upd_hash_def)

lemma upd_frame [simp]:
  "m_hash (upd_block i f c) = m_hash c" "m_block (upd_hash k g c) = m_block c"
  "m_data (upd_block i f c) = m_data c" "m_data (upd_hash k g c) = m_data c"
  "m_block_num (upd_block i f c) = m_block_num c" "m_block_num (upd_hash k g c) = m_block_num c"
  "m_block_size (upd_block i f c) = m_block_size c" "m_block_size (upd_hash k g c) = m_block_size c"
  "m_timeout (upd_block i f c) = m_timeout c" "m_timeout (upd_hash k g c) = m_timeout c"
  "m_total_req (upd_block i f c) = m_total_req c" "m_total_req (upd_hash k g c) = m_total_req c"
  "m_total_hit (upd_block i f c) = m_total_hit c" "m_total_hit (upd_hash k g c) = m_total_hit c"
  "m_lru_head (upd_block i f c) = m_lru_head c" "m_lru_head (upd_hash k g c) = m_lru_head c"
  "m_lru_tail (upd_block i f c) = m_lru_tail c" "m_lru_tail (upd_hash k g c) = m_lru_tail c"
  by (simp_all add: upd_block_def upd_hash_def)

lemma link_after_frame [simp]:
  "m_data (link_after k p i c) = m_data c" "m_block_num (link_after k p i c) = m_block_num c"
  "m_block_size (link_after k p i c) = m_block_size c" "m_timeout (link_after k p i c) = m_timeout c"
  "m_total_req (link_after k p i c) = m_total_req c" "m_total_hit (link_after k p i c) = m_total_hit c"
  "m_lru_head (link_after k p i c) = m_lru_head c" "m_lru_tail (link_after k p i c) = m_lru_tail c"
  "ky (link_after k p i c) x = ky c x" "m_idx (m_block (link_after k p i c) x) = m_idx (m_block c x)"
  "m_len (m_block (link_after k p i c) x) = m_len (m_block c x)"
  "m_uptime (m_block (link_after k p i c) x) = m_uptime (m_block c x)"
  "nxt (link_after k p i c) x = nxt c x" "prv (link_after k p i c) x = prv c x"
  "nx (link_after k p i c) x = (if p \<noteq> -1 \<and> x = p then i else nx c x)"
  "h_head (m_hash (link_after k p i c) y) = (if p = -1 \<and> y = k then i else h_head (m_hash c y))"
  "h_len (m_hash (link_after k p i c) y) = h_len (m_hash c y)"
  by (simp_all add: link_after_def)

lemma lru_list_cong:
  assumes "\<And>x. nxt c' x = nxt c x" "\<And>x. prv c' x = prv c x"
    "m_lru_head c' = m_lru_head c" "m_lru_tail c' = m_lru_tail c"
  shows "lru_list c' xs = lru_list c xs"
  using assms by (simp add: lru_list_def cyc_def path_cong [of xs "nxt c'" "nxt c" "prv c'" "prv c"])

lemma chain_cong: "(\<And>x. x \<in> set xs \<Longrightarrow> f x = g x) \<Longrightarrow> chain f cur xs = chain g cur xs"
  by (induction xs arbitrary: cur) auto

lemma chain_start: "chain f cur xs \<Longrightarrow> cur = (case xs of [] \<Rightarrow> -1 | x # _ \<Rightarrow> x)"
  by (cases xs) auto

lemma chain_not_minus: "chain f cur xs \<Longrightarrow> -1 \<notin> set xs"
  by (induction xs arbitrary: cur) auto


section \<open>Chain segments\<close>

fun lseg :: "(int \<Rightarrow> int) \<Rightarrow> int \<Rightarrow> int list \<Rightarrow> int \<Rightarrow> bool" where
  "lseg f h [] c \<longleftrightarrow> h = c"
| "lseg f h (x # xs) c \<longleftrightarrow> h = x \<and> x \<noteq> -1 \<and> lseg f (f x) xs c"

lemma chain_append: "chain f h (L @ X) \<longleftrightarrow> (\<exists>c. lseg f h L c \<and> chain f c X)"
  by (induction L arbitrary: h) auto

lemma lseg_last: "lseg f h L c \<Longrightarrow> L \<noteq> [] \<Longrightarrow> f (last L) = c \<and> last L \<noteq> -1"
  by (induction L arbitrary: h) auto

lemma lseg_cong: "(\<And>x. x \<in> set L \<Longrightarrow> f x = g x) \<Longrightarrow> lseg f h L c = lseg g h L c"
  by (induction L arbitrary: h) auto

lemma lseg_redirect:
  "lseg f h L c \<Longrightarrow> L \<noteq> [] \<Longrightarrow> distinct L \<Longrightarrow> \<forall>x \<in> set L. x \<noteq> last L \<longrightarrow> g x = f x \<Longrightarrow> g (last L) = d \<Longrightarrow> lseg g h L d"
proof (induction L arbitrary: h)
  case (Cons x L)
  then show ?case by (cases "L = []") auto
qed simp

lemma lseg_fun: "lseg f h L c \<Longrightarrow> lseg f h L c' \<Longrightarrow> c = c'"
  by (induction L arbitrary: h) auto

lemma chain_fun: "chain f h (L @ m # R) \<Longrightarrow> lseg f h L m \<and> m \<noteq> -1 \<and> chain f (f m) R"
  by (auto simp: chain_append)

text \<open>The predecessor that the loops carry along.\<close>

definition pre_of :: "int list \<Rightarrow> int" where
  "pre_of L = (if L = [] then -1 else last L)"

lemma pre_of_eq [simp]: "pre_of [] = -1" "pre_of (L @ [x]) = x"
  by (simp_all add: pre_of_def)

section \<open>Taking a block out of its chain\<close>

lemma release_fields:
  fixes c :: shm_cache and k :: nat and m :: int
  assumes "L = [] \<or> last L \<noteq> -1"
  defines "c' \<equiv> release_block k (pre_of L) m c"
  shows "ky c' x = (if x = m then 0 else ky c x)"
    "nx c' x = (if x = m then -1 else if L \<noteq> [] \<and> x = last L then nx c m else nx c x)"
    "m_idx (m_block c' x) = m_idx (m_block c x)"
    "m_len (m_block c' x) = (if x = m then 0 else m_len (m_block c x))"
    "m_uptime (m_block c' x) = m_uptime (m_block c x)"
    "h_head (m_hash c' y) = (if y = k \<and> L = [] then nx c m else h_head (m_hash c y))"
    "h_len (m_hash c' y) = (if y = k then h_len (m_hash c y) - 1 else h_len (m_hash c y))"
    "m_data c' = m_data c" "m_block_num c' = m_block_num c" "m_block_size c' = m_block_size c"
    "m_timeout c' = m_timeout c" "m_total_req c' = m_total_req c" "m_total_hit c' = m_total_hit c"
  using assms(1) by (auto simp: c'_def release_block_def Let_def pre_of_def)

lemma release_lru:
  assumes "lru_list c (U @ m # V)"
  shows "lru_list (release_block k p m c) (m # U @ V)"
  unfolding release_block_def Let_def
proof (rule MoveLRUHead_list)
  let ?c = "upd_hash k (\<lambda>h. h\<lparr>h_len := h_len h - 1\<rparr>)
     (upd_block m (\<lambda>b. b\<lparr>m_key := 0, m_next := - 1, m_len := 0\<rparr>) (link_after k p (m_next (m_block c m)) c))"
  have "lru_list ?c xs = lru_list c xs" for xs by (rule lru_list_cong) simp_all
  then show "lru_list ?c (U @ m # V)" using assms by simp
qed

lemma last_disjoint: "distinct (L @ R) \<Longrightarrow> x \<in> set R \<Longrightarrow> L \<noteq> [] \<Longrightarrow> x \<noteq> last L"
  by (metis disjoint_iff distinct_append last_in_set)

lemma release_chain:
  assumes "bucket_ok c k (L @ m # R)"
  shows "chain (nx (release_block k (pre_of L) m c)) (nx c m) R"
proof -
  let ?c = "release_block k (pre_of L) m c"
  have ch: "lseg (nx c) (h_head (m_hash c k)) L m" "m \<noteq> -1" "chain (nx c) (nx c m) R" and d: "distinct (L @ m # R)"
    using assms(1) chain_fun [of "nx c" _ L m R] by (auto simp: bucket_ok_def)
  have l: "L = [] \<or> last L \<noteq> -1" using lseg_last [OF ch(1)] by auto
  note f = release_fields [OF l, of k m c]
  show "chain (nx ?c) (nx c m) R"
  proof -
    have "nx ?c x = nx c x" if "x \<in> set R" for x
    proof -
      have "x \<noteq> m" using d that by auto
      moreover have "L \<noteq> [] \<Longrightarrow> x \<noteq> last L" using last_disjoint [of L "m # R"] d that by simp
      ultimately show ?thesis unfolding f by auto
    qed
    then show ?thesis using ch(3) chain_cong [of R "nx ?c" "nx c" "nx c m"] by simp
  qed
qed

lemma bucket_release:
  assumes "bucket_ok c k (L @ m # R)" and "m \<in> blocks c"
  shows "bucket_ok (release_block k (pre_of L) m c) k (L @ R)"
proof -
  let ?c = "release_block k (pre_of L) m c"
  have ch: "lseg (nx c) (h_head (m_hash c k)) L m" "m \<noteq> -1" "chain (nx c) (nx c m) R" and d: "distinct (L @ m # R)"
    using assms(1) chain_fun [of "nx c" _ L m R] by (auto simp: bucket_ok_def)
  have l: "L = [] \<or> last L \<noteq> -1" using lseg_last [OF ch(1)] by auto
  note f = release_fields [OF l, of k m c]
  have R: "chain (nx ?c) (nx c m) R" by (rule release_chain [OF assms(1)])
  have "chain (nx ?c) (h_head (m_hash ?c k)) (L @ R)"
  proof (cases "L = []")
    case True
    then show ?thesis using R f(6) [of k] by simp
  next
    case False
    have "m \<notin> set L" "last L \<noteq> m" using d False last_in_set [of L] by auto
    then have "lseg (nx ?c) (h_head (m_hash c k)) L (nx c m)"
      using lseg_redirect [OF ch(1) False, of "nx ?c" "nx c m"] d False by (auto simp: f)
    then show ?thesis using R False by (auto simp: chain_append f)
  qed
  moreover have "set (L @ R) = {i \<in> blocks ?c. ky ?c i \<noteq> 0 \<and> hash_key (ky ?c i) = k}"
  proof -
    have "set (L @ m # R) = {i \<in> blocks c. ky c i \<noteq> 0 \<and> hash_key (ky c i) = k}" using assms(1) by (simp add: bucket_ok_def)
    moreover have "set (L @ R) = set (L @ m # R) - {m}" using d by auto
    moreover have "blocks ?c = blocks c" by (simp add: blocks_def f)
    ultimately show ?thesis by (auto simp: f)
  qed
  moreover have "sorted (map (ky ?c) (L @ R))"
  proof -
    have e: "map (ky ?c) (L @ R) = map (ky c) (L @ R)" using d by (auto simp: f)
    have "sorted (map (ky c) (L @ m # R))" using assms(1) by (simp add: bucket_ok_def)
    then have "sorted (map (ky c) (L @ R))" by (auto simp: sorted_append)
    then show ?thesis unfolding e .
  qed
  moreover have "h_len (m_hash ?c k) = of_nat (length (L @ R))"
    using assms(1) by (simp add: f bucket_ok_def)
  ultimately show ?thesis using d by (simp add: bucket_ok_def)
qed

text \<open>What a deletion leaves alone.\<close>

definition frame :: "shm_cache \<Rightarrow> shm_cache \<Rightarrow> bool" where
  "frame c c' \<longleftrightarrow> m_data c' = m_data c \<and> m_block_num c' = m_block_num c \<and> m_block_size c' = m_block_size c \<and>
     m_timeout c' = m_timeout c \<and> m_total_req c' = m_total_req c \<and> m_total_hit c' = m_total_hit c \<and>
     (\<forall>x. m_idx (m_block c' x) = m_idx (m_block c x) \<and> m_uptime (m_block c' x) = m_uptime (m_block c x))"

lemma frame_refl [simp]: "frame c c"
  by (simp add: frame_def)

lemma frame_trans: "frame c1 c2 \<Longrightarrow> frame c2 c3 \<Longrightarrow> frame c1 c3"
  by (simp add: frame_def)

definition drops_key :: "u64 \<Rightarrow> shm_cache \<Rightarrow> shm_cache \<Rightarrow> bool" where
  \<comment> \<open>the blocks of \<open>key\<close> are free now, the others as before\<close>
  "drops_key key c c' \<longleftrightarrow> frame c c' \<and>
     (\<forall>x. ky c' x = (if ky c x = key \<and> x \<in> blocks c then 0 else ky c x) \<and>
          (ky c x \<noteq> key \<longrightarrow> m_len (m_block c' x) = m_len (m_block c x)))"

lemma inv_lru: "cache_inv c B lru \<Longrightarrow> set lru = blocks c \<and> distinct lru \<and> lru \<noteq> []"
  by (auto simp: cache_inv_def order_ok_def lru_list_def)

lemma inv_bucket: "cache_inv c B lru \<Longrightarrow> k < HASH_MASK \<Longrightarrow> bucket_ok c k (B k)"
  by (simp add: cache_inv_def)

lemma bucket_other:
  assumes "bucket_ok c k' xs" "h_head (m_hash c' k') = h_head (m_hash c k')" "h_len (m_hash c' k') = h_len (m_hash c k')"
    and "blocks c' = blocks c"
    and "\<And>x. x \<in> set xs \<Longrightarrow> nx c' x = nx c x \<and> ky c' x = ky c x"
    and "\<And>x. x \<in> blocks c \<Longrightarrow> x \<notin> set xs \<Longrightarrow> ky c' x = 0 \<or> hash_key (ky c' x) \<noteq> k'"
  shows "bucket_ok c' k' xs"
proof -
  have e: "map (ky c') xs = map (ky c) xs" using assms(5) by simp
  have "sorted (map (ky c) xs)" using assms(1) by (simp add: bucket_ok_def)
  then have "sorted (map (ky c') xs)" unfolding e .
  moreover have "chain (nx c') h xs = chain (nx c) h xs" for h using assms(5) by (intro chain_cong) simp
  ultimately show ?thesis using assms by (auto simp: bucket_ok_def)
qed

lemma sorted_wrt_remove: "sorted_wrt P (U @ m # V) \<Longrightarrow> sorted_wrt P (U @ V)"
  by (simp add: sorted_wrt_append)

lemma inv_release:
  assumes inv: "cache_inv c B lru" and k: "k < HASH_MASK" and b: "B k = L @ m # R" and lru: "lru = U @ m # V"
  defines "c' \<equiv> release_block k (pre_of L) m c"
  shows "cache_inv c' (B(k := L @ R)) (m # U @ V)"
    and "frame c c'" and "ky c' x = (if x = m then 0 else ky c x)"
    and "x \<noteq> m \<Longrightarrow> m_len (m_block c' x) = m_len (m_block c x)"
proof -
  have bk: "bucket_ok c k (L @ m # R)" using inv_bucket [OF inv k] b by simp
  then have m: "m \<in> blocks c" "ky c m \<noteq> 0" "hash_key (ky c m) = k" by (auto simp: bucket_ok_def)
  have "lseg (nx c) (h_head (m_hash c k)) L m"
    using bk chain_fun [of "nx c" "h_head (m_hash c k)" L m R] by (simp add: bucket_ok_def)
  then have l: "L = [] \<or> last L \<noteq> -1" using lseg_last by blast
  note f = release_fields [OF l, of k m c, folded c'_def]
  have bl: "blocks c' = blocks c" by (simp add: blocks_def f)
  show "frame c c'" by (simp add: frame_def f)
  show "ky c' x = (if x = m then 0 else ky c x)" by (simp add: f)
  show "x \<noteq> m \<Longrightarrow> m_len (m_block c' x) = m_len (m_block c x)" by (simp add: f)
  have other: "bucket_ok c' k' (B k')" if k': "k' < HASH_MASK" "k' \<noteq> k" for k'
  proof (rule bucket_other [OF inv_bucket [OF inv k'(1)]])
    have s: "set (B k') = {i \<in> blocks c. ky c i \<noteq> 0 \<and> hash_key (ky c i) = k'}"
      using inv_bucket [OF inv k'(1)] by (simp add: bucket_ok_def)
    have "last L \<in> set (L @ m # R)" if "L \<noteq> []" using that by simp
    then have "last L \<notin> set (B k')" if "L \<noteq> []" using that bk k'(2) s by (auto simp: bucket_ok_def)
    moreover have "m \<notin> set (B k')" using m(3) k'(2) s by auto
    ultimately show "nx c' x = nx c x \<and> ky c' x = ky c x" if "x \<in> set (B k')" for x
      using that by (auto simp: f)
    show "ky c' x = 0 \<or> hash_key (ky c' x) \<noteq> k'" if "x \<in> blocks c" "x \<notin> set (B k')" for x
      using that s by (auto simp: f)
  qed (use k'(2) bl in \<open>auto simp: f\<close>)
  have "bucket_ok c' k (L @ R)" using bucket_release [OF bk m(1)] by (simp add: c'_def)
  with other have "\<forall>k' < HASH_MASK. bucket_ok c' k' ((B(k := L @ R)) k')" by simp
  moreover have "order_ok c' (m # U @ V)"
  proof -
    have o: "order_ok c (U @ m # V)" using inv lru by (simp add: cache_inv_def)
    then have "lru_list c' (m # U @ V)" using release_lru by (simp add: order_ok_def c'_def)
    moreover have "distinct (U @ m # V)" using o by (simp add: order_ok_def lru_list_def)
    moreover have "sorted_wrt (\<lambda>a b. ky c' a \<noteq> 0 \<longrightarrow> ky c' b \<noteq> 0) (U @ V)"
    proof (rule sorted_wrt_mono_rel)
      show "sorted_wrt (\<lambda>a b. ky c a \<noteq> 0 \<longrightarrow> ky c b \<noteq> 0) (U @ V)"
        using o unfolding order_ok_def by (blast intro: sorted_wrt_remove)
    qed (use \<open>distinct (U @ m # V)\<close> in \<open>auto simp: f\<close>)
    then have "sorted_wrt (\<lambda>a b. ky c' a \<noteq> 0 \<longrightarrow> ky c' b \<noteq> 0) (m # U @ V)" by (simp add: f)
    moreover have "set (m # U @ V) = blocks c'" using o bl by (auto simp: order_ok_def)
    ultimately show ?thesis unfolding order_ok_def by blast
  qed
  moreover have "shape_ok c'" using inv bl by (auto simp: cache_inv_def shape_ok_def f)
  moreover have "entry_ok c'"
  proof -
    have e: "entry_ok c" using inv by (simp add: cache_inv_def)
    have "m_len (m_block c' i) \<le> m_block_size c'" if "i \<in> blocks c" "ky c' i \<noteq> 0" for i
      using e that by (auto simp: entry_ok_def f split: if_splits)
    moreover have "m_uptime (m_block c' j) = m_uptime (m_block c' i)"
      if a: "i \<in> blocks c" "ky c' i \<noteq> 0" "j \<in> blocks c" "ky c' j = ky c' i" for i j
    proof -
      have "ky c i \<noteq> 0" "ky c j = ky c i" using a by (auto simp: f split: if_splits)
      then show ?thesis using e a(1,3) unfolding entry_ok_def f by blast
    qed
    ultimately show ?thesis unfolding entry_ok_def bl by blast
  qed
  moreover have "free_ok c'"
  proof -
    have "ky c (last L) \<noteq> 0" if "L \<noteq> []"
    proof -
      have "set (L @ m # R) = {i \<in> blocks c. ky c i \<noteq> 0 \<and> hash_key (ky c i) = k}"
        using bk unfolding bucket_ok_def by blast
      moreover have "last L \<in> set (L @ m # R)" using that by simp
      ultimately show ?thesis by blast
    qed
    then show ?thesis using inv unfolding cache_inv_def free_ok_def bl by (auto simp: f)
  qed
  ultimately show "cache_inv c' (B(k := L @ R)) (m # U @ V)" by (simp add: cache_inv_def)
qed

section \<open>Deleting a key\<close>

lemma DeleteHash_loop_ok:
  assumes "cache_inv c B lru" and "B (hash_key key) = L @ X" and "\<forall>x \<in> set L. ky c x < key"
    and "chain (nx c) cur X"
  shows "\<exists>c'. DeleteHash_loop key (pre_of L) cur c = Some c' \<and>
    cache_inv c' (B(hash_key key := L @ filter (\<lambda>i. ky c i \<noteq> key) X))
      (rev (filter (\<lambda>i. ky c i = key) X) @ filter (\<lambda>i. i \<notin> set (filter (\<lambda>i. ky c i = key) X)) lru) \<and>
    frame c c' \<and> (\<forall>x. ky c' x = (if ky c x = key \<and> x \<in> set X then 0 else ky c x)) \<and>
    (\<forall>x. ky c x \<noteq> key \<longrightarrow> m_len (m_block c' x) = m_len (m_block c x))"
  using assms
proof (induction X arbitrary: c B lru L cur)
  case Nil
  then show ?case by (simp add: DeleteHash_loop.simps fun_upd_idem)
next
  case (Cons x X)
  let ?k = "hash_key key"
  note inv = Cons.prems(1)
  have bk: "bucket_ok c ?k (L @ x # X)" using inv_bucket [OF inv, of ?k] Cons.prems(2) by simp
  have x: "cur = x" "x \<noteq> -1" "chain (nx c) (nx c x) X" using Cons.prems(4) by auto
  have dist: "distinct (L @ x # X)" and srt: "sorted (map (ky c) (L @ x # X))" using bk by (auto simp: bucket_ok_def)
  consider (same) "ky c x = key" | (less) "ky c x < key" | (greater) "key < ky c x" by fastforce
  then show ?case
  proof cases
    case same
    define c1 where "c1 = release_block ?k (pre_of L) x c"
    have "x \<in> set lru" using inv_lru [OF inv] bk by (auto simp: bucket_ok_def)
    then obtain U V where lru: "lru = U @ x # V" by (meson split_list)
    note r = inv_release [OF inv _ Cons.prems(2) lru, folded c1_def]
    have inv1: "cache_inv c1 (B(?k := L @ X)) (x # U @ V)" using r(1) by simp
    have ky1: "ky c1 y = (if y = x then 0 else ky c y)" for y using r(3) by simp
    have len1: "m_len (m_block c1 y) = m_len (m_block c y)" if "y \<noteq> x" for y using r(4) that by simp
    have nx: "x \<notin> set L" "x \<notin> set X" using dist by auto
    define M where "M = filter (\<lambda>i. ky c i = key) X"
    have M: "filter (\<lambda>i. ky c1 i = key) X = M" "filter (\<lambda>i. ky c1 i \<noteq> key) X = filter (\<lambda>i. ky c i \<noteq> key) X"
      using nx(2) by (auto simp: M_def ky1 intro!: filter_cong)
    have "chain (nx c1) (nx c x) X" using release_chain [OF bk] by (simp add: c1_def)
    moreover have "\<forall>y \<in> set L. ky c1 y < key" using Cons.prems(3) nx(1) by (auto simp: ky1)
    ultimately obtain c' where c': "DeleteHash_loop key (pre_of L) (nx c x) c1 = Some c'"
      "cache_inv c' (B(?k := L @ filter (\<lambda>i. ky c i \<noteq> key) X)) (rev M @ filter (\<lambda>i. i \<notin> set M) (x # U @ V))"
      "frame c1 c'" "\<forall>y. ky c' y = (if ky c1 y = key \<and> y \<in> set X then 0 else ky c1 y)"
      "\<forall>y. ky c1 y \<noteq> key \<longrightarrow> m_len (m_block c' y) = m_len (m_block c1 y)"
      using Cons.IH [OF inv1 fun_upd_same, of "nx c x"] unfolding M fun_upd_upd by blast
    have "x \<notin> set M" "x \<notin> set (U @ V)" using nx(2) inv_lru [OF inv] lru by (auto simp: M_def)
    then have l: "rev M @ filter (\<lambda>i. i \<notin> set M) (x # U @ V) =
        rev (filter (\<lambda>i. ky c i = key) (x # X)) @ filter (\<lambda>i. i \<notin> set (filter (\<lambda>i. ky c i = key) (x # X))) lru"
    proof -
      have fx: "filter (\<lambda>i. ky c i = key) (x # X) = x # M" using same by (simp add: M_def)
      have "filter (\<lambda>i. i \<notin> set (x # M)) W = filter (\<lambda>i. i \<notin> set M) W" if "x \<notin> set W" for W
        using that by (intro filter_cong) auto
      from this [of U] this [of V] show ?thesis
        using \<open>x \<notin> set M\<close> \<open>x \<notin> set (U @ V)\<close> unfolding fx lru by simp
    qed
    have "DeleteHash_loop key (pre_of L) cur c = Some c'"
      using c'(1) x same by (simp add: DeleteHash_loop.simps [of key "pre_of L" x] c1_def)
    moreover have f2: "filter (\<lambda>i. ky c i \<noteq> key) (x # X) = filter (\<lambda>i. ky c i \<noteq> key) X" using same by simp
    moreover have "frame c c'" using frame_trans [OF r(2) c'(3)] by simp
    moreover have "ky c' y = (if ky c y = key \<and> y \<in> set (x # X) then 0 else ky c y)" for y
      using c'(4) [rule_format, of y] ky1 [of y] same nx(2) by (auto split: if_splits)
    moreover have "m_len (m_block c' y) = m_len (m_block c y)" if "ky c y \<noteq> key" for y
    proof -
      have "y \<noteq> x" using that same by auto
      then show ?thesis using c'(5) [rule_format, of y] ky1 [of y] len1 [of y] that by simp
    qed
    ultimately show ?thesis using c'(2) unfolding l f2 by blast
  next
    case less
    have ne: "ky c x \<noteq> key" using less by auto
    have e: "filter (\<lambda>i. ky c i \<noteq> key) (x # X) = x # filter (\<lambda>i. ky c i \<noteq> key) X"
      "filter (\<lambda>i. ky c i = key) (x # X) = filter (\<lambda>i. ky c i = key) X" using ne by simp_all
    have "\<exists>c'. DeleteHash_loop key (pre_of (L @ [x])) (nx c x) c = Some c' \<and>
      cache_inv c' (B(?k := (L @ [x]) @ filter (\<lambda>i. ky c i \<noteq> key) X))
        (rev (filter (\<lambda>i. ky c i = key) X) @ filter (\<lambda>i. i \<notin> set (filter (\<lambda>i. ky c i = key) X)) lru) \<and>
      frame c c' \<and> (\<forall>y. ky c' y = (if ky c y = key \<and> y \<in> set X then 0 else ky c y)) \<and>
      (\<forall>y. ky c y \<noteq> key \<longrightarrow> m_len (m_block c' y) = m_len (m_block c y))"
      by (rule Cons.IH [OF inv]) (use Cons.prems(2,3) less x in auto)
    then obtain c' where c': "DeleteHash_loop key x (nx c x) c = Some c'"
      "cache_inv c' (B(?k := L @ x # filter (\<lambda>i. ky c i \<noteq> key) X))
        (rev (filter (\<lambda>i. ky c i = key) X) @ filter (\<lambda>i. i \<notin> set (filter (\<lambda>i. ky c i = key) X)) lru)"
      "frame c c'" "\<forall>y. ky c' y = (if ky c y = key \<and> y \<in> set X then 0 else ky c y)"
      "\<forall>y. ky c y \<noteq> key \<longrightarrow> m_len (m_block c' y) = m_len (m_block c y)"
      by auto
    have "DeleteHash_loop key (pre_of L) cur c = Some c'"
      using c'(1) x less ne by (simp add: DeleteHash_loop.simps [of key "pre_of L" x])
    moreover have "\<forall>y. ky c' y = (if ky c y = key \<and> y \<in> set (x # X) then 0 else ky c y)"
      using c'(4) ne by auto
    ultimately show ?thesis using c'(2,3,5) unfolding e by blast
  next
    case greater
    then have "\<forall>y \<in> set (x # X). key < ky c y" using srt by (auto simp: sorted_append)
    then have no: "ky c y \<noteq> key" if "y \<in> set (x # X)" for y using that by auto
    then have e: "filter (\<lambda>i. ky c i \<noteq> key) (x # X) = x # X" "filter (\<lambda>i. ky c i = key) (x # X) = []"
      by (auto simp: filter_id_conv filter_empty_conv)
    have "B(?k := L @ x # X) = B" using Cons.prems(2) by (simp add: fun_upd_idem)
    moreover have "DeleteHash_loop key (pre_of L) cur c = Some c"
      using greater x by (auto simp: DeleteHash_loop.simps [of key "pre_of L" x])
    moreover have "\<forall>y. ky c y = (if ky c y = key \<and> y \<in> set (x # X) then 0 else ky c y)" using no by auto
    ultimately show ?thesis using inv unfolding e by simp
  qed
qed


lemma bucket_keys:
  assumes "cache_inv c B lru" "key \<noteq> 0"
  shows "set (entry c B key) = {i \<in> blocks c. ky c i = key}"
  using inv_bucket [OF assms(1), of "hash_key key"] assms(2) by (auto simp: entry_def bucket_ok_def)

lemma bucket_keys_0: "cache_inv c B lru \<Longrightarrow> entry c B 0 = []"
  using inv_bucket [of c B lru "hash_key 0"] by (auto simp: entry_def bucket_ok_def filter_empty_conv)

lemma DeleteHash_ok:
  assumes inv: "cache_inv c B lru"
  shows "\<exists>c'. DeleteHash key c = Some c' \<and>
    cache_inv c' (B(hash_key key := filter (\<lambda>i. ky c i \<noteq> key) (B (hash_key key))))
      (rev (entry c B key) @ filter (\<lambda>i. i \<notin> set (entry c B key)) lru) \<and> drops_key key c c'"
proof -
  let ?k = "hash_key key"
  have bk: "bucket_ok c ?k (B ?k)" using inv_bucket [OF inv] by simp
  then have "chain (nx c) (h_head (m_hash c ?k)) (B ?k)" by (simp add: bucket_ok_def)
  then obtain c' where c': "DeleteHash_loop key (pre_of []) (h_head (m_hash c ?k)) c = Some c'"
    "cache_inv c' (B(?k := [] @ filter (\<lambda>i. ky c i \<noteq> key) (B ?k))) (rev (entry c B key) @ filter (\<lambda>i. i \<notin> set (entry c B key)) lru)"
    "frame c c'" "\<forall>x. ky c' x = (if ky c x = key \<and> x \<in> set (B ?k) then 0 else ky c x)"
    "\<forall>x. ky c x \<noteq> key \<longrightarrow> m_len (m_block c' x) = m_len (m_block c x)"
    using DeleteHash_loop_ok [OF inv, of key "[]" "B ?k" "h_head (m_hash c ?k)"] unfolding entry_def by auto
  have s: "set (B ?k) = {i \<in> blocks c. ky c i \<noteq> 0 \<and> hash_key (ky c i) = ?k}" using bk by (simp add: bucket_ok_def)
  have ky: "ky c' x = (if ky c x = key \<and> x \<in> blocks c then 0 else ky c x)" for x
    using c'(4) [rule_format, of x] s by (cases "key = 0") auto
  then show ?thesis
    using c'(1,2,3,5) by (simp add: DeleteHash_def drops_key_def)
qed

section \<open>Inserting a block\<close>

definition start_of :: "int list \<Rightarrow> int" where
  "start_of xs = (case xs of [] \<Rightarrow> -1 | x # _ \<Rightarrow> x)"

lemma chain_start_of: "chain f cur xs \<Longrightarrow> cur = start_of xs"
  by (cases xs) (auto simp: start_of_def)

lemma InsertHash_loop_ok:
  assumes "chain (nx c) cur X" and "\<forall>x \<in> set X. m_idx (m_block c x) = x"
  shows "InsertHash_loop key i (pre_of L) cur c =
    insert_between (hash_key key) i (pre_of (L @ takeWhile (\<lambda>x. ky c x \<le> key) X)) (start_of (dropWhile (\<lambda>x. ky c x \<le> key) X)) c"
  using assms
proof (induction X arbitrary: L cur)
  case Nil
  then show ?case by (simp add: InsertHash_loop.simps start_of_def)
next
  case (Cons x X)
  then have x: "cur = x" "x \<noteq> -1" "chain (nx c) (nx c x) X" "m_idx (m_block c x) = x" by auto
  show ?case
  proof (cases "ky c x \<le> key")
    case True
    then show ?thesis
      using Cons.IH [of "nx c x" "L @ [x]"] Cons.prems(2) x by (simp add: InsertHash_loop.simps [of key i "pre_of L" x])
  next
    case False
    then show ?thesis using x by (simp add: InsertHash_loop.simps [of key i "pre_of L" x] start_of_def)
  qed
qed

lemma insert_fields:
  assumes "L = [] \<or> last L \<noteq> -1" and "pre_of L \<noteq> i" and "insert_between k i (pre_of L) s c = Some c'"
  shows "ky c' x = ky c x" "nx c' x = (if x = i then s else if L \<noteq> [] \<and> x = last L then i else nx c x)"
    "m_idx (m_block c' x) = m_idx (m_block c x)" "m_len (m_block c' x) = m_len (m_block c x)"
    "m_uptime (m_block c' x) = m_uptime (m_block c x)"
    "h_head (m_hash c' y) = (if y = k \<and> L = [] then i else h_head (m_hash c y))"
    "h_len (m_hash c' y) = h_len (m_hash c y)"
    "m_data c' = m_data c" "m_block_num c' = m_block_num c" "m_block_size c' = m_block_size c"
    "m_timeout c' = m_timeout c" "m_total_req c' = m_total_req c" "m_total_hit c' = m_total_hit c"
  using assms by (auto simp: insert_between_def Let_def pre_of_def split: if_splits)

lemma insert_lru:
  assumes "lru_list c (i # V)" and "insert_between k i p s c = Some c'"
  shows "lru_list c' (V @ [i])"
proof -
  let ?c = "link_after k p i (upd_block i (\<lambda>b. b\<lparr>m_next := s\<rparr>) c)"
  have "lru_list ?c xs = lru_list c xs" for xs by (rule lru_list_cong) simp_all
  then have "lru_list (MoveLRUTail i ?c) ([] @ V @ [i])" using assms(1) by (intro MoveLRUTail_list) simp
  then show ?thesis using assms(2) by (cases "p = i") (auto simp: insert_between_def Let_def)
qed


text \<open>A bucket with the free block \<open>i\<close>, now holding \<open>key\<close>, linked in between.\<close>

lemma bucket_insert:
  assumes b: "bucket_ok c k (L @ R)" and i: "i \<in> blocks c" "ky c i = 0" and key: "key \<noteq> 0" "hash_key key = k"
    and le: "\<forall>x \<in> set L. ky c x \<le> key" "\<forall>x \<in> set R. key < ky c x"
    and f: "\<And>x. ky c' x = (if x = i then key else ky c x)"
      "\<And>x. nx c' x = (if x = i then start_of R else if L \<noteq> [] \<and> x = last L then i else nx c x)"
      "h_head (m_hash c' k) = (if L = [] then i else h_head (m_hash c k))"
      "h_len (m_hash c' k) = h_len (m_hash c k) + 1" "blocks c' = blocks c"
  shows "bucket_ok c' k (L @ i # R)"
proof -
  have bo: "chain (nx c) (h_head (m_hash c k)) (L @ R)" "distinct (L @ R)" "sorted (map (ky c) (L @ R))"
    "h_len (m_hash c k) = of_nat (length (L @ R))"
    "set (L @ R) = {x \<in> blocks c. ky c x \<noteq> 0 \<and> hash_key (ky c x) = k}"
    using b by (auto simp: bucket_ok_def)
  obtain s where s: "lseg (nx c) (h_head (m_hash c k)) L s" "chain (nx c) s R" using bo(1) by (auto simp: chain_append)
  have i': "i \<notin> set (L @ R)" "i \<noteq> -1" using bo(5) i by (auto simp: blocks_def)
  have "s = start_of R" by (rule chain_start_of [OF s(2)])
  have R: "chain (nx c') (start_of R) R"
  proof -
    have "nx c' x = nx c x" if "x \<in> set R" for x
    proof -
      have "L \<noteq> [] \<Longrightarrow> x \<noteq> last L" using last_disjoint [OF bo(2) that] .
      then show ?thesis using i' that by (auto simp: f)
    qed
    then show ?thesis using s(2) \<open>s = start_of R\<close> chain_cong [of R "nx c'" "nx c"] by simp
  qed
  have "lseg (nx c') (h_head (m_hash c' k)) L i"
  proof (cases "L = []")
    case False
    have "last L \<in> set L" using False by simp
    then have "last L \<noteq> i" using i'(1) by auto
    then have "nx c' (last L) = i" using False by (simp add: f(2))
    moreover have "\<forall>x \<in> set L. x \<noteq> last L \<longrightarrow> nx c' x = nx c x" using i'(1) by (auto simp: f(2))
    moreover have "distinct L" using bo(2) by simp
    ultimately have "lseg (nx c') (h_head (m_hash c k)) L i" by (intro lseg_redirect [OF s(1) False])
    then show ?thesis using False f(3) by simp
  qed (use f(3) in simp)
  then have ch: "chain (nx c') (h_head (m_hash c' k)) (L @ i # R)"
    using R i' unfolding chain_append by (intro exI [of _ i]) (simp add: f(2))
  have e: "map (ky c') L = map (ky c) L" "map (ky c') R = map (ky c) R" using i' by (auto simp: f)
  have "sorted (map (ky c) L)" "sorted (map (ky c) R)" using bo(3) by (auto simp: sorted_append)
  then have "sorted (map (ky c') L)" "sorted (map (ky c') R)" unfolding e .
  moreover have "ky c' x \<le> key" if "x \<in> set L" for x using le(1) that by (simp add: f)
  moreover have "key < ky c' x" if "x \<in> set R" for x using le(2) that i' by (auto simp: f)
  ultimately have "sorted (map (ky c') (L @ i # R))"
    by (force simp: sorted_append f(1) [of i] intro: order_trans less_imp_le)
  moreover have "set (L @ i # R) = {x \<in> blocks c'. ky c' x \<noteq> 0 \<and> hash_key (ky c' x) = k}"
    using bo(5) i key by (auto simp: f)
  ultimately show ?thesis
    using ch bo(2,4) i' by (simp add: bucket_ok_def f)
qed


definition upto_key :: "shm_cache \<Rightarrow> u64 \<Rightarrow> int list \<Rightarrow> int list" where
  "upto_key c key = takeWhile (\<lambda>x. ky c x \<le> key)"

definition beyond_key :: "shm_cache \<Rightarrow> u64 \<Rightarrow> int list \<Rightarrow> int list" where
  "beyond_key c key = dropWhile (\<lambda>x. ky c x \<le> key)"

lemma upto_beyond: "upto_key c key xs @ beyond_key c key xs = xs"
  by (simp add: upto_key_def beyond_key_def)

lemma upto_le: "x \<in> set (upto_key c key xs) \<Longrightarrow> ky c x \<le> key"
  unfolding upto_key_def by (drule set_takeWhileD) simp

lemma beyond_less: "sorted (map (ky c) xs) \<Longrightarrow> x \<in> set (beyond_key c key xs) \<Longrightarrow> key < ky c x"
proof (induction xs)
  case (Cons y xs)
  then show ?case by (auto simp: beyond_key_def split: if_splits)
qed (simp add: beyond_key_def)

definition hold :: "int \<Rightarrow> u64 \<Rightarrow> int \<Rightarrow> u32 \<Rightarrow> u8 list \<Rightarrow> shm_cache \<Rightarrow> shm_cache" where
  \<comment> \<open>the cache with the block \<open>i\<close> filled but not yet linked\<close>
  "hold i key now n d c = upd_block i (\<lambda>b. b\<lparr>m_key := key, m_uptime := now, m_len := n\<rparr>) (c\<lparr>m_data := d\<rparr>)"

lemma hold_fields [simp]:
  "ky (hold i key now n d c) x = (if x = i then key else ky c x)" "nx (hold i key now n d c) x = nx c x"
  "m_idx (m_block (hold i key now n d c) x) = m_idx (m_block c x)"
  "m_len (m_block (hold i key now n d c) x) = (if x = i then n else m_len (m_block c x))"
  "m_uptime (m_block (hold i key now n d c) x) = (if x = i then now else m_uptime (m_block c x))"
  "m_hash (hold i key now n d c) = m_hash c" "m_data (hold i key now n d c) = d"
  "m_block_num (hold i key now n d c) = m_block_num c" "m_block_size (hold i key now n d c) = m_block_size c"
  "m_timeout (hold i key now n d c) = m_timeout c" "m_total_req (hold i key now n d c) = m_total_req c"
  "m_total_hit (hold i key now n d c) = m_total_hit c" "nxt (hold i key now n d c) x = nxt c x"
  "prv (hold i key now n d c) x = prv c x" "m_lru_head (hold i key now n d c) = m_lru_head c"
  "m_lru_tail (hold i key now n d c) = m_lru_tail c"
  by (simp_all add: hold_def upd_block_def)

definition holds :: "int \<Rightarrow> u64 \<Rightarrow> int \<Rightarrow> u32 \<Rightarrow> u8 list \<Rightarrow> shm_cache \<Rightarrow> shm_cache \<Rightarrow> bool" where
  \<comment> \<open>the cache \<open>c'\<close> is \<open>c\<close> with the block \<open>i\<close> filled and linked, seen from its fields\<close>
  "holds i key now n d c c' \<longleftrightarrow>
     m_data c' = d \<and> m_block_num c' = m_block_num c \<and> m_block_size c' = m_block_size c \<and>
     m_timeout c' = m_timeout c \<and> m_total_req c' = m_total_req c \<and> m_total_hit c' = m_total_hit c \<and>
     (\<forall>x. ky c' x = (if x = i then key else ky c x) \<and> m_idx (m_block c' x) = m_idx (m_block c x) \<and>
          m_len (m_block c' x) = (if x = i then n else m_len (m_block c x)) \<and>
          m_uptime (m_block c' x) = (if x = i then now else m_uptime (m_block c x)))"

lemma InsertHash_ok:
  fixes key :: u64
  assumes inv: "cache_inv c B (i # V)" and i: "ky c i = 0"
  defines "k \<equiv> hash_key key"
  defines "L \<equiv> upto_key c key (B k)" and "R \<equiv> beyond_key c key (B k)"
  shows "\<exists>c'. InsertHash i (hold i key now n d c) = Some c' \<and> holds i key now n d c c' \<and> lru_list c' (V @ [i]) \<and>
    (\<forall>x. nx c' x = (if x = i then start_of R else if L \<noteq> [] \<and> x = last L then i else nx c x)) \<and>
    (\<forall>y. h_head (m_hash c' y) = (if y = k \<and> L = [] then i else h_head (m_hash c y)) \<and>
         h_len (m_hash c' y) = (if y = k then h_len (m_hash c y) + 1 else h_len (m_hash c y)))"
proof -
  define c2 where "c2 = upd_hash k (\<lambda>h. h\<lparr>h_len := h_len h + 1\<rparr>) (hold i key now n d c)"
  have bk: "bucket_ok c k (B k)" using inv_bucket [OF inv] by (simp add: k_def)
  have LR: "L @ R = B k" by (simp add: L_def R_def upto_beyond)
  have ib: "i \<notin> set (B k)" using bk i by (auto simp: bucket_ok_def)
  have ch: "chain (nx c2) (h_head (m_hash c k)) (B k)"
    using bk chain_cong [of "B k" "nx c2" "nx c"] by (simp add: bucket_ok_def c2_def)
  have ix: "\<forall>x \<in> set (B k). m_idx (m_block c2 x) = x"
    using bk inv by (auto simp: bucket_ok_def cache_inv_def shape_ok_def c2_def)
  have "takeWhile (\<lambda>x. ky c2 x \<le> key) (B k) = L" "dropWhile (\<lambda>x. ky c2 x \<le> key) (B k) = R"
    unfolding L_def R_def upto_key_def beyond_key_def
    using ib by (auto simp: c2_def intro!: takeWhile_cong dropWhile_cong)
  then have "InsertHash i (hold i key now n d c) = insert_between k i (pre_of L) (start_of R) c2"
    using InsertHash_loop_ok [OF ch ix, of key i "[]"] by (simp add: InsertHash_def Let_def flip: k_def c2_def)
  moreover have l: "L = [] \<or> last L \<noteq> -1" and p: "pre_of L \<noteq> i"
  proof -
    have "i \<in> blocks c" using inv_lru [OF inv] by auto
    then have "-1 \<notin> set (B k)" "i \<noteq> -1" using bk by (auto simp: bucket_ok_def blocks_def)
    moreover have "L \<noteq> [] \<Longrightarrow> last L \<in> set (B k)" using LR by (metis UnI1 last_in_set set_append)
    ultimately show "L = [] \<or> last L \<noteq> -1" "pre_of L \<noteq> i" using ib by (auto simp: pre_of_def)
  qed
  moreover obtain c' where c': "insert_between k i (pre_of L) (start_of R) c2 = Some c'"
    using p by (simp add: insert_between_def Let_def)
  note f = insert_fields [OF l p c']
  have "lru_list c2 xs = lru_list c xs" for xs by (rule lru_list_cong) (simp_all add: c2_def)
  then have "lru_list c2 (i # V)" using inv by (simp add: cache_inv_def order_ok_def)
  from insert_lru [OF this c'] have "lru_list c' (V @ [i])" .
  ultimately show ?thesis
    using c' by (intro exI [of _ c']) (simp add: holds_def f, simp add: c2_def)
qed


lemma inv_insert:
  assumes inv: "cache_inv c B (i # V)" and i: "ky c i = 0" and key: "key \<noteq> 0"
    and n: "n \<le> m_block_size c" and d: "length d = length (m_data c)"
    and up: "\<forall>j \<in> blocks c. ky c j = key \<longrightarrow> m_uptime (m_block c j) = now"
  shows "\<exists>c'. InsertHash i (hold i key now n d c) = Some c' \<and> holds i key now n d c c' \<and>
    cache_inv c' (B(hash_key key := upto_key c key (B (hash_key key)) @ i # beyond_key c key (B (hash_key key)))) (V @ [i])"
proof -
  define k where "k = hash_key key"
  define L where "L = upto_key c key (B k)"
  define R where "R = beyond_key c key (B k)"
  obtain c' where c': "InsertHash i (hold i key now n d c) = Some c'" "holds i key now n d c c'" "lru_list c' (V @ [i])"
    "\<And>x. nx c' x = (if x = i then start_of R else if L \<noteq> [] \<and> x = last L then i else nx c x)"
    "\<And>y. h_head (m_hash c' y) = (if y = k \<and> L = [] then i else h_head (m_hash c y))"
    "\<And>y. h_len (m_hash c' y) = (if y = k then h_len (m_hash c y) + 1 else h_len (m_hash c y))"
    using InsertHash_ok [OF inv i, of key now n d] unfolding k_def L_def R_def by blast
  have bk: "bucket_ok c k (B k)" using inv_bucket [OF inv] by (simp add: k_def)
  have LR: "L @ R = B k" by (simp add: L_def R_def upto_beyond)
  have ib: "i \<in> blocks c" using inv_lru [OF inv] by auto
  have bl: "blocks c' = blocks c" using c'(2) by (simp add: blocks_def holds_def)
  have ky: "ky c' x = (if x = i then key else ky c x)" for x using c'(2) by (simp add: holds_def)
  have "bucket_ok c' k (L @ i # R)"
  proof (rule bucket_insert)
    show "bucket_ok c k (L @ R)" using bk LR by simp
    show "\<forall>x \<in> set L. ky c x \<le> key" using upto_le by (simp add: L_def)
    have "sorted (map (ky c) (B k))" using bk by (simp add: bucket_ok_def)
    then show "\<forall>x \<in> set R. key < ky c x" using beyond_less [of c "B k"] by (simp add: R_def)
    show "ky c' x = (if x = i then key else ky c x)" for x by (rule ky)
    show "nx c' x = (if x = i then start_of R else if L \<noteq> [] \<and> x = last L then i else nx c x)" for x by (rule c'(4))
    show "h_head (m_hash c' k) = (if L = [] then i else h_head (m_hash c k))" using c'(5) by simp
    show "h_len (m_hash c' k) = h_len (m_hash c k) + 1" using c'(6) by simp
  qed (use ib i key bl in \<open>simp_all add: k_def\<close>)
  moreover have "bucket_ok c' k' (B k')" if k': "k' < HASH_MASK" "k' \<noteq> k" for k'
  proof (rule bucket_other [OF inv_bucket [OF inv k'(1)] _ _ bl])
    have s: "set (B k') = {j \<in> blocks c. ky c j \<noteq> 0 \<and> hash_key (ky c j) = k'}"
      using inv_bucket [OF inv k'(1)] by (simp add: bucket_ok_def)
    have "last L \<in> set (B k)" if "L \<noteq> []" using that LR by (metis UnI1 last_in_set set_append)
    then have "last L \<notin> set (B k')" if "L \<noteq> []" using that bk s k'(2) by (auto simp: bucket_ok_def)
    moreover have "i \<notin> set (B k')" using s i by simp
    ultimately show "nx c' x = nx c x \<and> ky c' x = ky c x" if "x \<in> set (B k')" for x
      using that c'(4) [of x] ky [of x] by auto
    show "ky c' x = 0 \<or> hash_key (ky c' x) \<noteq> k'" if "x \<in> blocks c" "x \<notin> set (B k')" for x
      using that s ky [of x] k'(2) by (auto simp: k_def)
  qed (use k'(2) c'(5,6) in simp_all)
  ultimately have "\<forall>k' < HASH_MASK. bucket_ok c' k' ((B(k := L @ i # R)) k')" by simp
  moreover have "order_ok c' (V @ [i])"
  proof -
    have o: "order_ok c (i # V)" using inv by (simp add: cache_inv_def)
    then have iV: "i \<notin> set V" by (auto simp: order_ok_def lru_list_def)
    have "sorted_wrt (\<lambda>a b. ky c a \<noteq> 0 \<longrightarrow> ky c b \<noteq> 0) V" using o by (simp add: order_ok_def)
    then have "sorted_wrt (\<lambda>a b. ky c' a \<noteq> 0 \<longrightarrow> ky c' b \<noteq> 0) V"
      by (rule sorted_wrt_mono_rel [rotated]) (use iV in \<open>auto simp: ky\<close>)
    then have "sorted_wrt (\<lambda>a b. ky c' a \<noteq> 0 \<longrightarrow> ky c' b \<noteq> 0) (V @ [i])"
      using key by (simp add: sorted_wrt_append ky)
    moreover have "set (V @ [i]) = blocks c'" using o bl by (auto simp: order_ok_def)
    ultimately show ?thesis using c'(3) unfolding order_ok_def by blast
  qed
  moreover have "shape_ok c'"
    using inv bl c'(2) d by (auto simp: cache_inv_def shape_ok_def holds_def)
  moreover have "entry_ok c'"
  proof -
    have e: "entry_ok c" using inv by (simp add: cache_inv_def)
    have "m_len (m_block c' x) \<le> m_block_size c'" if "x \<in> blocks c" "ky c' x \<noteq> 0" for x
      using e that c'(2) n by (auto simp: entry_ok_def holds_def split: if_splits)
    moreover have "m_uptime (m_block c' y) = m_uptime (m_block c' x)"
      if a: "x \<in> blocks c" "ky c' x \<noteq> 0" "y \<in> blocks c" "ky c' y = ky c' x" for x y
    proof -
      have u: "m_uptime (m_block c' z) = (if z = i then now else m_uptime (m_block c z))" for z
        using c'(2) by (simp add: holds_def)
      have same: "ky c x \<noteq> 0 \<Longrightarrow> ky c y = ky c x \<Longrightarrow> m_uptime (m_block c y) = m_uptime (m_block c x)"
        using e a(1,3) unfolding entry_ok_def by blast
      show ?thesis
        using a up same by (cases "x = i"; cases "y = i") (auto simp: u ky)
    qed
    ultimately show ?thesis unfolding entry_ok_def bl by blast
  qed
  moreover have "free_ok c'"
  proof -
    have "ky c (last L) \<noteq> 0" if "L \<noteq> []"
    proof -
      have "last L \<in> set (B k)" using that LR by (metis UnI1 last_in_set set_append)
      then show ?thesis using bk by (simp add: bucket_ok_def)
    qed
    then show ?thesis using inv key unfolding cache_inv_def free_ok_def bl by (auto simp: c'(4) ky)
  qed
  ultimately show ?thesis
    using c'(1,2) unfolding k_def [symmetric] L_def [symmetric] R_def [symmetric]
    by (intro exI [of _ c']) (simp add: cache_inv_def)
qed

end
