(* ===== verification/CacheOps.thy ===== *)
theory CacheOps
  imports CacheInv
begin

text \<open>
  What the public operations of \<open>CShmCache\<close> do to the entries of the cache, and that they always return.
\<close>

section \<open>Entries\<close>

definition same_entry :: "u64 \<Rightarrow> shm_cache \<Rightarrow> (nat \<Rightarrow> int list) \<Rightarrow> shm_cache \<Rightarrow> (nat \<Rightarrow> int list) \<Rightarrow> bool" where
  \<comment> \<open>the entry of \<open>key\<close> is the same in both caches\<close>
  "same_entry key c B c' B' \<longleftrightarrow> entry c' B' key = entry c B key \<and> value_of c' B' key = value_of c B key \<and>
     (\<forall>i \<in> set (entry c B key). m_uptime (m_block c' i) = m_uptime (m_block c i))"

definition kept :: "u64 \<Rightarrow> shm_cache \<Rightarrow> (nat \<Rightarrow> int list) \<Rightarrow> shm_cache \<Rightarrow> (nat \<Rightarrow> int list) \<Rightarrow> bool" where
  \<comment> \<open>all other entries are the same or gone\<close>
  "kept key c B c' B' \<longleftrightarrow> (\<forall>k. k \<noteq> key \<longrightarrow> same_entry k c B c' B' \<or> entry c' B' k = [])"

definition kept_all :: "u64 \<Rightarrow> shm_cache \<Rightarrow> (nat \<Rightarrow> int list) \<Rightarrow> shm_cache \<Rightarrow> (nat \<Rightarrow> int list) \<Rightarrow> bool" where
  "kept_all key c B c' B' \<longleftrightarrow> (\<forall>k. k \<noteq> key \<longrightarrow> same_entry k c B c' B')"

lemma same_entry_trans: "same_entry k c B c1 B1 \<Longrightarrow> same_entry k c1 B1 c2 B2 \<Longrightarrow> same_entry k c B c2 B2"
  by (simp add: same_entry_def)

lemma same_entry_refl [simp]: "same_entry k c B c B"
  by (simp add: same_entry_def)

lemma kept_refl [simp]: "kept key c B c B"
  by (simp add: kept_def)

lemma kept_all_refl [simp]: "kept_all key c B c B"
  by (simp add: kept_all_def)

lemma kept_all_kept: "kept_all key c B c' B' \<Longrightarrow> kept key c B c' B'"
  by (simp add: kept_def kept_all_def)

lemma kept_trans: "kept key c B c1 B1 \<Longrightarrow> kept key c1 B1 c2 B2 \<Longrightarrow> kept key c B c2 B2"
  unfolding kept_def by (metis same_entry_def same_entry_trans)

lemma kept_all_trans: "kept_all key c B c1 B1 \<Longrightarrow> kept_all key c1 B1 c2 B2 \<Longrightarrow> kept_all key c B c2 B2"
  unfolding kept_all_def by (blast intro: same_entry_trans)

lemma kept_dropped:
  assumes "kept_all k0 c B c' B'" and "entry c' B' k0 = []"
  shows "kept key c B c' B'"
proof -
  have "same_entry k c B c' B' \<or> entry c' B' k = []" for k
    using assms unfolding kept_all_def by (cases "k = k0") simp_all
  then show ?thesis by (simp add: kept_def)
qed

definition sizes_eq :: "shm_cache \<Rightarrow> shm_cache \<Rightarrow> bool" where
  "sizes_eq c c' \<longleftrightarrow> m_block_num c' = m_block_num c \<and> m_block_size c' = m_block_size c \<and> m_timeout c' = m_timeout c"

lemma sizes_eq_refl [simp]: "sizes_eq c c"
  by (simp add: sizes_eq_def)

lemma sizes_eq_trans: "sizes_eq c c1 \<Longrightarrow> sizes_eq c1 c2 \<Longrightarrow> sizes_eq c c2"
  by (simp add: sizes_eq_def)

lemma sizes_eq_blocks: "sizes_eq c c' \<Longrightarrow> blocks c' = blocks c"
  by (simp add: sizes_eq_def blocks_def)

lemma frame_sizes: "frame c c' \<Longrightarrow> sizes_eq c c'"
  by (simp add: frame_def sizes_eq_def)

lemma same_entryI:
  assumes "entry c' B' k = entry c B k"
    and "\<And>i. i \<in> set (entry c B k) \<Longrightarrow> piece c' i = piece c i \<and> m_uptime (m_block c' i) = m_uptime (m_block c i)"
  shows "same_entry k c B c' B'"
proof -
  have "map (piece c') (entry c B k) = map (piece c) (entry c B k)" using assms(2) by (simp cong: map_cong)
  then have "value_of c' B' k = value_of c B k" unfolding value_of_def assms(1) by argo
  then show ?thesis using assms unfolding same_entry_def by blast
qed

lemma empty_same_entry: "entry c B k = [] \<Longrightarrow> entry c' B' k = [] \<Longrightarrow> same_entry k c B c' B'"
  by (simp add: same_entry_def value_of_def)

lemma entry_in:
  assumes "cache_inv c B lru" "i \<in> set (entry c B k)"
  shows "i \<in> blocks c" "ky c i = k" "k \<noteq> 0" "m_len (m_block c i) \<le> m_block_size c"
proof -
  show k: "k \<noteq> 0" using assms bucket_keys_0 by auto
  then show i: "i \<in> blocks c" "ky c i = k" using assms bucket_keys [OF assms(1), of k] by auto
  then show "m_len (m_block c i) \<le> m_block_size c" using assms(1) k by (auto simp: cache_inv_def entry_ok_def)
qed

lemma distinct_entry: "cache_inv c B lru \<Longrightarrow> distinct (entry c B k)"
  using inv_bucket [of c B lru "hash_key k"] by (auto simp: entry_def bucket_ok_def)

section \<open>Deletion\<close>

abbreviation without :: "u64 \<Rightarrow> shm_cache \<Rightarrow> (nat \<Rightarrow> int list) \<Rightarrow> nat \<Rightarrow> int list" where
  "without key c B \<equiv> B(hash_key key := filter (\<lambda>i. ky c i \<noteq> key) (B (hash_key key)))"

lemma drops_entries:
  assumes inv: "cache_inv c B lru" and inv': "cache_inv c' (without key c B) lru'" and d: "drops_key key c c'"
  shows "kept_all key c B c' (without key c B)" and "key \<noteq> 0 \<Longrightarrow> entry c' (without key c B) key = []"
proof -
  have k': "ky c' x = (if ky c x = key \<and> x \<in> blocks c then 0 else ky c x)" for x
    using d by (simp add: drops_key_def)
  have fr: "frame c c'" "ky c x \<noteq> key \<Longrightarrow> m_len (m_block c' x) = m_len (m_block c x)" for x
    using d by (auto simp: drops_key_def)
  have "same_entry k c B c' (without key c B)" if k: "k \<noteq> key" for k
  proof (cases "k = 0")
    case True
    then show ?thesis using bucket_keys_0 [OF inv] bucket_keys_0 [OF inv'] by (simp add: same_entry_def value_of_def)
  next
    case k0: False
    have e: "entry c' (without key c B) k = entry c B k"
      using k k0 by (auto simp: entry_def k' intro!: filter_cong)
    show ?thesis
    proof (rule same_entryI [OF e])
      fix i assume "i \<in> set (entry c B k)"
      then have "ky c i \<noteq> key" using entry_in(2) [OF inv] k by auto
      then show "piece c' i = piece c i \<and> m_uptime (m_block c' i) = m_uptime (m_block c i)"
        using fr by (simp add: piece_def frame_def)
    qed
  qed
  then show "kept_all key c B c' (without key c B)" by (simp add: kept_all_def)
  show "entry c' (without key c B) key = []" if "key \<noteq> 0"
    using that k' by (auto simp: entry_def filter_empty_conv)
qed


section \<open>Making room\<close>

lemma inv_nonempty: "cache_inv c B lru \<Longrightarrow> m_lru_head c = hd lru \<and> lru \<noteq> []"
  by (simp add: cache_inv_def order_ok_def lru_list_def)

definition victims :: "shm_cache \<Rightarrow> (nat \<Rightarrow> int list) \<Rightarrow> int list \<Rightarrow> int list" where
  \<comment> \<open>the LRU list once the blocks of the key of its head are free\<close>
  "victims c B lru = (let e = entry c B (ky c (hd lru)) in rev e @ filter (\<lambda>i. i \<notin> set e) lru)"

lemma evict_free: "cache_inv c B lru \<Longrightarrow> ky c (hd lru) = 0 \<Longrightarrow> evict c = Some c"
  using inv_nonempty [of c B lru] by (simp add: evict.simps)

lemma evict_used:
  assumes inv: "cache_inv c B lru" and u: "ky c (hd lru) \<noteq> 0"
  shows "\<exists>c'. evict c = Some c' \<and> cache_inv c' (without (ky c (hd lru)) c B) (victims c B lru) \<and>
    drops_key (ky c (hd lru)) c c' \<and> ky c' (hd (victims c B lru)) = 0"
proof -
  let ?h = "hd lru"
  obtain c' where c': "DeleteHash (ky c ?h) c = Some c'" "cache_inv c' (without (ky c ?h) c B) (victims c B lru)"
    "drops_key (ky c ?h) c c'"
    using DeleteHash_ok [OF inv, of "ky c ?h"] unfolding victims_def Let_def by blast
  have "?h \<in> blocks c" using inv_lru [OF inv] by (metis hd_in_set)
  then have "?h \<in> set (entry c B (ky c ?h))" using bucket_keys [OF inv u] by simp
  then have ne: "entry c B (ky c ?h) \<noteq> []" by auto
  have "hd (rev e @ w) = last e" if "e \<noteq> []" for e w :: "int list" using that by (simp add: hd_rev)
  then have "hd (victims c B lru) = last (entry c B (ky c ?h))" unfolding victims_def Let_def using ne by blast
  then have "hd (victims c B lru) \<in> set (entry c B (ky c ?h))" using ne by simp
  then have z: "ky c' (hd (victims c B lru)) = 0"
    using c'(3) entry_in [OF inv, of "hd (victims c B lru)" "ky c ?h"] by (simp add: drops_key_def)
  then have "evict c' = Some c'" by (rule evict_free [OF c'(2)])
  then have "evict c = Some c'" using c'(1) u inv_nonempty [OF inv] by (simp add: evict.simps [of c])
  then show ?thesis using c' z by blast
qed

section \<open>Filling a block\<close>

lemma shape:
  assumes "cache_inv c B lru"
  shows "0 < unat (m_block_size c)" "length (m_data c) = unat (m_block_num c) * unat (m_block_size c)"
    "unat (m_block_num c) * unat (m_block_size c) < 2 ^ 32" "i \<in> blocks c \<Longrightarrow> m_idx (m_block c i) = i"
  using assms by (auto simp: cache_inv_def shape_ok_def)

lemma block_off_ok:
  assumes inv: "cache_inv c B lru" and i: "i \<in> blocks c"
  shows "block_off c i = nat i * unat (m_block_size c)"
    and "nat i * unat (m_block_size c) + unat (m_block_size c) \<le> length (m_data c)"
proof -
  define j where "j = nat i"
  have j: "i = int j" "j < unat (m_block_num c)" using i unfolding blocks_def j_def by (auto simp: nat_less_iff)
  have "(j + 1) * unat (m_block_size c) \<le> unat (m_block_num c) * unat (m_block_size c)"
    using j by (intro mult_le_mono1) simp
  then show le: "nat i * unat (m_block_size c) + unat (m_block_size c) \<le> length (m_data c)"
    using shape(2) [OF inv] j by simp
  then have "j * unat (m_block_size c) < 2 ^ 32"
    using shape(2,3) [OF inv] j by simp
  moreover have "j < 2 ^ 32" using j(2) unsigned_less [of "m_block_num c", where ?'a = nat] by simp
  ultimately show "block_off c i = nat i * unat (m_block_size c)"
    using shape(4) [OF inv i] j by (simp add: block_off_def unat_word_ariths unat_of_nat take_bit_nat_eq_self)
qed

lemma write_length: "off + length p \<le> length d \<Longrightarrow> length (take off d @ p @ drop (off + length p) d) = length d"
  by simp

lemma piece_write_other:
  fixes d :: "u8 list"
  assumes "x \<noteq> i" "m \<le> s" "length p \<le> s" "i * s + length p \<le> length d"
  shows "take m (drop (x * s) (take (i * s) d @ p @ drop (i * s + length p) d)) = take m (drop (x * s) d)"
proof (rule nth_equalityI)
  show "length (take m (drop (x * s) (take (i * s) d @ p @ drop (i * s + length p) d))) = length (take m (drop (x * s) d))"
    unfolding length_take length_drop write_length [OF assms(4)] ..
  fix j assume "j < length (take m (drop (x * s) (take (i * s) d @ p @ drop (i * s + length p) d)))"
  then have j: "j < m" "x * s + j < length d"
    unfolding length_take length_drop write_length [OF assms(4)] by auto
  have "x * s + j < i * s \<or> i * s + s \<le> x * s + j"
  proof (cases "x < i")
    case True
    then have "(x + 1) * s \<le> i * s" by (intro mult_le_mono1) simp
    then show ?thesis using j(1) assms(2) by simp
  next
    case False
    then have "(i + 1) * s \<le> x * s" using assms(1) by (intro mult_le_mono1) simp
    then show ?thesis by simp
  qed
  moreover have "(take off d @ p @ drop (off + length p) d) ! y = d ! y"
    if "off + length p \<le> length d" "y < off \<or> off + length p \<le> y" for off y
    using that by (auto simp: nth_append)
  ultimately have "(take (i * s) d @ p @ drop (i * s + length p) d) ! (x * s + j) = d ! (x * s + j)"
    using assms(3,4) by auto
  then show "take m (drop (x * s) (take (i * s) d @ p @ drop (i * s + length p) d)) ! j = take m (drop (x * s) d) ! j"
    using j assms(4) by (simp del: drop_append take_append)
qed


abbreviation with_block :: "u64 \<Rightarrow> int \<Rightarrow> shm_cache \<Rightarrow> (nat \<Rightarrow> int list) \<Rightarrow> nat \<Rightarrow> int list" where
  "with_block key i c B \<equiv> B(hash_key key := upto_key c key (B (hash_key key)) @ i # beyond_key c key (B (hash_key key)))"

definition own_time :: "u64 \<Rightarrow> int \<Rightarrow> shm_cache \<Rightarrow> bool" where
  "own_time key now c \<longleftrightarrow> (\<forall>j \<in> blocks c. ky c j = key \<longrightarrow> m_uptime (m_block c j) = now)"

definition free_of :: "shm_cache \<Rightarrow> int list \<Rightarrow> int list" where
  "free_of c = filter (\<lambda>i. ky c i = 0)"

lemma entry_with:
  assumes inv: "cache_inv c B lru" and i: "ky c i = 0" "i \<in> blocks c" and key: "key \<noteq> 0"
    and ky: "\<And>x. ky c' x = (if x = i then key else ky c x)"
  shows "entry c' (with_block key i c B) key = entry c B key @ [i]"
    and "k \<noteq> key \<Longrightarrow> k \<noteq> 0 \<Longrightarrow> entry c' (with_block key i c B) k = entry c B k"
proof -
  let ?b = "B (hash_key key)"
  have bk: "bucket_ok c (hash_key j) (B (hash_key j))" for j using inv_bucket [OF inv] by simp
  then have ni: "i \<notin> set (B (hash_key j))" for j using i by (auto simp: bucket_ok_def)
  have s: "sorted (map (ky c) ?b)" using bk by (simp add: bucket_ok_def)
  have f: "filter (\<lambda>x. ky c' x = k) xs = filter (\<lambda>x. ky c x = k) xs" if "i \<notin> set xs" for k xs
    using that by (auto simp: ky intro!: filter_cong)
  have b: "set (upto_key c key ?b) \<subseteq> set ?b" "set (beyond_key c key ?b) \<subseteq> set ?b"
    using upto_beyond [of c key ?b] by (metis Un_upper1 set_append, metis Un_upper2 set_append)
  then have nu: "i \<notin> set (upto_key c key ?b)" "i \<notin> set (beyond_key c key ?b)" using ni by auto
  have "filter (\<lambda>x. ky c x = key) (beyond_key c key ?b) = []"
    using beyond_less [OF s] by (auto simp: filter_empty_conv)
  moreover have "filter P ?b = filter P (upto_key c key ?b) @ filter P (beyond_key c key ?b)" for P
    using upto_beyond [of c key ?b] by (metis filter_append)
  ultimately show "entry c' (with_block key i c B) key = entry c B key @ [i]"
    using nu by (simp add: entry_def f ky [of i])
  show "entry c' (with_block key i c B) k = entry c B k" if k: "k \<noteq> key" "k \<noteq> 0"
  proof (cases "hash_key k = hash_key key")
    case True
    have "filter P ?b = filter P (upto_key c key ?b) @ filter P (beyond_key c key ?b)" for P
      using upto_beyond [of c key ?b] by (metis filter_append)
    then show ?thesis using nu k True by (simp add: entry_def f ky [of i])
  next
    case False
    then show ?thesis using ni k by (simp add: entry_def f)
  qed
qed

lemma fill_block_ok:
  assumes inv: "cache_inv c B (i # V)" and i: "ky c i = 0" and key: "key \<noteq> 0"
    and len: "length p \<le> unat (m_block_size c)" and t: "own_time key now c"
  shows "\<exists>c'. fill_block key now p c = Some c' \<and> cache_inv c' (with_block key i c B) (V @ [i]) \<and>
    sizes_eq c c' \<and> own_time key now c' \<and> (\<forall>x. ky c' x = (if x = i then key else ky c x)) \<and>
    value_of c' (with_block key i c B) key = value_of c B key @ p \<and> entry c' (with_block key i c B) key = entry c B key @ [i] \<and>
    kept_all key c B c' (with_block key i c B)"
proof -
  let ?s = "unat (m_block_size c)" and ?B = "with_block key i c B"
  have ib: "i \<in> blocks c" using inv_lru [OF inv] by auto
  have i0: "0 \<le> i" using ib by (simp add: blocks_def)
  note off = block_off_ok [OF inv ib]
  define d where "d = take (nat i * ?s) (m_data c) @ p @ drop (nat i * ?s + length p) (m_data c)"
  have w: "mem_write (m_data c) (block_off c i) p = Some d" using off len by (simp add: mem_write_in d_def)
  have ld: "length d = length (m_data c)" by (rule length_mem_write [OF w])
  have "length p < 2 ^ 32" using len unsigned_less [of "m_block_size c", where ?'a = nat] by simp
  then have lp: "unat (of_nat (length p) :: u32) = length p" by (simp add: unat_of_nat take_bit_nat_eq_self)
  then have n: "of_nat (length p) \<le> m_block_size c" using len by (simp add: word_le_nat_alt)
  obtain c' where c': "InsertHash i (hold i key now (of_nat (length p)) d c) = Some c'"
    "holds i key now (of_nat (length p)) d c c'" "cache_inv c' ?B (V @ [i])"
    using inv_insert [OF inv i key n ld, of now] t unfolding own_time_def by blast
  have ky: "ky c' x = (if x = i then key else ky c x)" for x using c'(2) by (simp add: holds_def)
  have "m_lru_head c = i" using inv_nonempty [OF inv] by simp
  moreover have "upd_block i (\<lambda>b. b\<lparr>m_len := of_nat (length p)\<rparr>) (upd_block i (\<lambda>b. b\<lparr>m_key := key, m_uptime := now\<rparr>) c\<lparr>m_data := d\<rparr>) =
      hold i key now (of_nat (length p)) d c"
    by (simp add: hold_def upd_block_def)
  ultimately have fb: "fill_block key now p c = Some c'"
    using i w c'(1) shape(4) [OF inv ib] by (simp add: fill_block_def Let_def block_off_def)
  have sz: "sizes_eq c c'" using c'(2) by (simp add: sizes_eq_def holds_def)
  have ot: "own_time key now c'"
    using t c'(2) by (auto simp: own_time_def sizes_eq_blocks [OF sz] holds_def)
  note e = entry_with [OF inv i ib key ky]
  have pc: "piece c' x = piece c x" if "x \<in> blocks c" "m_len (m_block c x) \<le> m_block_size c" "x \<noteq> i" for x
  proof -
    have "nat x \<noteq> nat i" using that i0 by (auto simp: blocks_def)
    moreover have "unat (m_len (m_block c x)) \<le> ?s" using that(2) by (simp add: word_le_nat_alt)
    moreover have "nat i * ?s + length p \<le> length (m_data c)" using off(2) len by simp
    ultimately have "take (unat (m_len (m_block c x))) (drop (nat x * ?s) d) =
        take (unat (m_len (m_block c x))) (drop (nat x * ?s) (m_data c))"
      unfolding d_def using len by (intro piece_write_other) auto
    then show ?thesis using c'(2) that(3) by (simp add: piece_def holds_def)
  qed
  have pe: "piece c' x = piece c x" if "x \<in> set (entry c B k)" for x k
  proof (rule pc)
    show "x \<in> blocks c" "m_len (m_block c x) \<le> m_block_size c" using entry_in [OF inv that] by auto
    show "x \<noteq> i" using entry_in [OF inv that] i by auto
  qed
  have m: "map (piece c') (entry c B key) = map (piece c) (entry c B key)" using pe by (simp cong: map_cong)
  have "piece c' i = p"
    using c'(2) off(2) lp len by (simp add: piece_def holds_def d_def)
  then have vo: "value_of c' ?B key = value_of c B key @ p" unfolding value_of_def e(1) map_append m by simp
  have ka: "kept_all key c B c' ?B"
  proof -
    have "same_entry k c B c' ?B" if k: "k \<noteq> key" for k
    proof (cases "k = 0")
      case True
      then show ?thesis using bucket_keys_0 [OF inv] bucket_keys_0 [OF c'(3)] by (simp add: same_entry_def value_of_def)
    next
      case False
      show ?thesis
      proof (rule same_entryI)
        show "entry c' ?B k = entry c B k" using e(2) k False by simp
        fix x assume x: "x \<in> set (entry c B k)"
        then have "x \<noteq> i" using entry_in [OF inv x] i by auto
        then show "piece c' x = piece c x \<and> m_uptime (m_block c' x) = m_uptime (m_block c x)"
          using pe [OF x] c'(2) by (simp add: holds_def)
      qed
    qed
    then show ?thesis by (simp add: kept_all_def)
  qed
  show ?thesis using fb sz ot vo ka e(1) c'(3) ky by (intro exI [of _ c']) blast
qed


section \<open>Storing a value\<close>

definition fits :: "nat \<Rightarrow> u64 \<Rightarrow> shm_cache \<Rightarrow> (nat \<Rightarrow> int list) \<Rightarrow> int list \<Rightarrow> bool" where
  \<comment> \<open>the blocks of \<open>key\<close> end the LRU list, and the others have room for \<open>n\<close> bytes\<close>
  "fits n key c B lru \<longleftrightarrow> (\<exists>W. lru = W @ entry c B key \<and> n \<le> length W * unat (m_block_size c))"

definition room :: "nat \<Rightarrow> shm_cache \<Rightarrow> int list \<Rightarrow> bool" where
  "room n c lru \<longleftrightarrow> n \<le> length (free_of c lru) * unat (m_block_size c)"

lemma evict_ok:
  assumes inv: "cache_inv c B lru" and key: "key \<noteq> 0" and t: "own_time key now c"
  shows "\<exists>c' B' i V. evict c = Some c' \<and> cache_inv c' B' (i # V) \<and> ky c' i = 0 \<and> sizes_eq c c' \<and> own_time key now c' \<and>
    kept key c B c' B' \<and> (\<forall>n. room n c lru \<and> 0 < n \<longrightarrow> c' = c \<and> B' = B \<and> i # V = lru) \<and>
    (\<forall>n. fits n key c B lru \<and> 0 < n \<longrightarrow> fits n key c' B' (i # V) \<and> value_of c' B' key = value_of c B key \<and>
      entry c' B' key = entry c B key)"
proof (cases "ky c (hd lru) = 0")
  case True
  obtain i V where l: "lru = i # V" using inv_nonempty [OF inv] by (cases lru) auto
  show ?thesis
    by (rule exI [of _ c], rule exI [of _ B], rule exI [of _ i], rule exI [of _ V])
      (use inv True t evict_free [OF inv True] l in simp)
next
  case False
  let ?h = "ky c (hd lru)"
  obtain c' where c': "evict c = Some c'" "cache_inv c' (without ?h c B) (victims c B lru)" "drops_key ?h c c'"
    "ky c' (hd (victims c B lru)) = 0"
    using evict_used [OF inv False] by blast
  obtain i V where l: "victims c B lru = i # V" using inv_nonempty [OF c'(2)] by (cases "victims c B lru") auto
  have sz: "sizes_eq c c'" using c'(3) by (simp add: drops_key_def frame_sizes)
  have ot: "own_time key now c'"
    using t c'(3) key by (auto simp: own_time_def sizes_eq_blocks [OF sz] drops_key_def frame_def)
  note dr = drops_entries [OF inv c'(2,3)]
  have hd: "hd lru \<in> set lru" using inv_nonempty [OF inv] by simp
  have kp: "kept key c B c' (without ?h c B)"
    using kept_dropped [OF dr(1) dr(2) [OF False]] .
  have nr: "\<not> room n c lru" if "0 < n" for n
  proof -
    have "sorted_wrt (\<lambda>a b. ky c a \<noteq> 0 \<longrightarrow> ky c b \<noteq> 0) lru" using inv by (simp add: cache_inv_def order_ok_def)
    then have "free_of c lru = []" using False hd by (cases lru) (auto simp: free_of_def filter_empty_conv)
    then show ?thesis using that by (simp add: room_def)
  qed
  have ft: "fits n key c' (without ?h c B) (i # V) \<and> value_of c' (without ?h c B) key = value_of c B key \<and>
      entry c' (without ?h c B) key = entry c B key" if f: "fits n key c B lru" "0 < n" for n
  proof -
    obtain W where W: "lru = W @ entry c B key" "n \<le> length W * unat (m_block_size c)" using f(1) by (auto simp: fits_def)
    then have "W \<noteq> []" using f(2) by auto
    then have "hd lru \<in> set W" using W(1) by simp
    moreover have dl: "distinct lru" "set lru = blocks c" using inv_lru [OF inv] by auto
    ultimately have "hd lru \<notin> set (entry c B key)" using W(1) by auto
    then have hk: "?h \<noteq> key" using bucket_keys [OF inv key] hd dl by auto
    then have se: "same_entry key c B c' (without ?h c B)" using dr(1) by (simp add: kept_all_def)
    then have en: "entry c' (without ?h c B) key = entry c B key" by (simp add: same_entry_def)
    define e where "e = entry c B ?h"
    have de: "distinct e" "set e \<subseteq> set W"
    proof -
      show "distinct e" using distinct_entry [OF inv] by (simp add: e_def)
      have "x \<in> set W" if "x \<in> set e" for x
      proof -
        have x: "x \<in> blocks c" "ky c x = ?h" using entry_in [OF inv] that unfolding e_def by blast+
        then have "x \<notin> set (entry c B key)" using entry_in(2) [OF inv, of x key] hk by auto
        then show ?thesis using x(1) dl W(1) by auto
      qed
      then show "set e \<subseteq> set W" by blast
    qed
    define W' where "W' = rev e @ filter (\<lambda>x. x \<notin> set e) W"
    have dw: "distinct W" using dl W(1) by simp
    have "set W' = set W" "distinct W'" using de dw by (auto simp: W'_def)
    then have "length W' = length W" using dw by (metis distinct_card)
    moreover have "filter (\<lambda>x. x \<notin> set e) (entry c B key) = entry c B key"
      using de(2) dl W(1) by (auto simp: filter_id_conv)
    then have "victims c B lru = W' @ entry c' (without ?h c B) key"
      unfolding victims_def Let_def en e_def [symmetric] W'_def by (subst W(1)) simp
    ultimately have "fits n key c' (without ?h c B) (i # V)"
      unfolding fits_def l using W(2) sz by (intro exI [of _ W']) (simp add: sizes_eq_def)
    then show ?thesis using se by (simp add: same_entry_def)
  qed
  show ?thesis
    by (rule exI [of _ c'], rule exI [of _ "without ?h c B"], rule exI [of _ i], rule exI [of _ V])
      (use c' l sz ot kp nr ft in auto)
qed


lemma free_first:
  assumes "cache_inv c B (i # V)" and "ky c i = 0" and "\<And>x. ky c' x = (if x = i then key else ky c x)" and "key \<noteq> 0"
  shows "length (free_of c (i # V)) = Suc (length (free_of c' (V @ [i])))"
proof -
  have "i \<notin> set V" using inv_lru [OF assms(1)] by auto
  then have "free_of c' V = free_of c V" by (auto simp: free_of_def assms(3) intro!: filter_cong)
  then show ?thesis using assms by (simp add: free_of_def)
qed

lemma Set_loop_ok:
  assumes "cache_inv c B lru" and "key \<noteq> 0" and "own_time key now c"
    and "unat pos + unat n \<le> length buf" and "unat pos + unat n < 2 ^ 32"
  shows "\<exists>c' B' lru'. Set_loop key now buf pos n c = Some c' \<and> cache_inv c' B' lru' \<and> sizes_eq c c' \<and> own_time key now c' \<and>
    kept key c B c' B' \<and> (room (unat n) c lru \<longrightarrow> kept_all key c B c' B') \<and>
    (fits (unat n) key c B lru \<longrightarrow> value_of c' B' key = value_of c B key @ take (unat n) (drop (unat pos) buf)) \<and>
    (n \<noteq> 0 \<or> entry c B key \<noteq> [] \<longrightarrow> entry c' B' key \<noteq> [])"
  using assms
proof (induction "unat n" arbitrary: n pos c B lru rule: less_induct)
  case less
  note inv = less.prems(1) and key = less.prems(2)
  show ?case
  proof (cases "n = 0")
    case True
    then show ?thesis
      using less.prems by (intro exI [of _ c] exI [of _ B] exI [of _ lru]) (simp add: Set_loop.simps)
  next
    case False
    then have n0: "0 < unat n" by (simp add: unat_gt_0)
    obtain c1 B1 i V where e: "evict c = Some c1" "cache_inv c1 B1 (i # V)" "ky c1 i = 0" "sizes_eq c c1" "own_time key now c1"
      "kept key c B c1 B1" "room (unat n) c lru \<Longrightarrow> c1 = c \<and> B1 = B \<and> i # V = lru"
      "fits (unat n) key c B lru \<Longrightarrow> fits (unat n) key c1 B1 (i # V) \<and> value_of c1 B1 key = value_of c B key"
      using evict_ok [OF less.prems(1-3)] n0 by metis
    define m where "m = (if n \<le> m_block_size c1 then n else m_block_size c1)"
    have m: "unat m = min (unat n) (unat (m_block_size c1))" "0 < unat m" "m \<le> n"
      using n0 shape(1) [OF e(2)] by (auto simp: m_def word_le_nat_alt)
    have nm: "unat (n - m) = unat n - unat m" using m(3) by (simp add: unat_sub)
    have pm: "unat (pos + m) = unat pos + unat m" using less.prems(5) m by (intro unat_add_small) simp
    define p where "p = take (unat m) (drop (unat pos) buf)"
    have rd: "mem_read buf (unat pos) (unat m) = Some p" using less.prems(4) m by (simp add: mem_read_in p_def)
    have lp: "length p \<le> unat (m_block_size c1)" using m by (simp add: p_def)
    obtain c2 where f: "fill_block key now p c1 = Some c2" "cache_inv c2 (with_block key i c1 B1) (V @ [i])"
      "sizes_eq c1 c2" "own_time key now c2" "\<And>x. ky c2 x = (if x = i then key else ky c1 x)"
      "value_of c2 (with_block key i c1 B1) key = value_of c1 B1 key @ p"
      "entry c2 (with_block key i c1 B1) key = entry c1 B1 key @ [i]"
      "kept_all key c1 B1 c2 (with_block key i c1 B1)"
      using fill_block_ok [OF e(2,3) key lp e(5)] by blast
    let ?B2 = "with_block key i c1 B1"
    have "unat (n - m) < unat n" using nm m by simp
    from less.hyps [OF this f(2) key f(4), of "pos + m"] obtain c' B' lru' where g:
      "Set_loop key now buf (pos + m) (n - m) c2 = Some c'" "cache_inv c' B' lru'" "sizes_eq c2 c'" "own_time key now c'"
      "kept key c2 ?B2 c' B'" "room (unat (n - m)) c2 (V @ [i]) \<Longrightarrow> kept_all key c2 ?B2 c' B'"
      "fits (unat (n - m)) key c2 ?B2 (V @ [i]) \<Longrightarrow>
        value_of c' B' key = value_of c2 ?B2 key @ take (unat (n - m)) (drop (unat (pos + m)) buf)"
      "entry c2 ?B2 key \<noteq> [] \<Longrightarrow> entry c' B' key \<noteq> []"
      using less.prems(4,5) nm pm m by auto
    have "Set_loop key now buf pos n c = Some c'"
      using e(1) rd f(1) g(1) False by (simp add: Set_loop.simps [of key now buf pos n c] Let_def flip: m_def)
    moreover have "sizes_eq c c'" using e(4) f(3) g(3) by (blast intro: sizes_eq_trans)
    moreover have "kept key c B c' B'" using e(6) kept_all_kept [OF f(8)] g(5) by (blast intro: kept_trans)
    moreover have "kept_all key c B c' B'" if r: "room (unat n) c lru"
    proof -
      have same: "c1 = c" "B1 = B" "i # V = lru" using e(7) [OF r] by auto
      have "unat n \<le> Suc (length (free_of c2 (V @ [i]))) * unat (m_block_size c)"
        using r free_first [OF e(2,3) f(5) key] same by (simp add: room_def)
      then have "room (unat (n - m)) c2 (V @ [i])"
        using f(3) same nm m(1) by (auto simp: room_def sizes_eq_def)
      then show ?thesis using g(6) f(8) same by (blast intro: kept_all_trans)
    qed
    moreover have "value_of c' B' key = value_of c B key @ take (unat n) (drop (unat pos) buf)"
      if r: "fits (unat n) key c B lru"
    proof -
      obtain W where W: "i # V = W @ entry c1 B1 key" "unat n \<le> length W * unat (m_block_size c1)"
        using e(8) [OF r] by (auto simp: fits_def)
      then obtain W' where W': "W = i # W'" using n0 by (cases W) auto
      then have "fits (unat (n - m)) key c2 ?B2 (V @ [i])"
        using W f(3,7) nm m(1) by (auto simp: fits_def sizes_eq_def intro!: exI [of _ W'])
      then have "value_of c' B' key = (value_of c B key @ p) @ take (unat (n - m)) (drop (unat (pos + m)) buf)"
        using g(7) f(6) e(8) [OF r] by simp
      moreover have "p @ take (unat (n - m)) (drop (unat (pos + m)) buf) = take (unat n) (drop (unat pos) buf)"
        using m(1) nm pm take_add [of "unat m" "unat n - unat m" "drop (unat pos) buf"] by (simp add: p_def add.commute)
      ultimately show ?thesis by simp
    qed
    moreover have "entry c' B' key \<noteq> []" using g(8) f(7) by simp
    ultimately show ?thesis using g(2,4) by blast
  qed
qed


text \<open>The contents of the cache that the operations promise.\<close>

definition uptime_of :: "shm_cache \<Rightarrow> (nat \<Rightarrow> int list) \<Rightarrow> u64 \<Rightarrow> int" where
  "uptime_of c B key = m_uptime (m_block c (hd (entry c B key)))"

definition capacity :: "shm_cache \<Rightarrow> nat" where
  "capacity c = unat (m_block_num c) * unat (m_block_size c)"

lemma distinct_set_length: "distinct xs \<Longrightarrow> set xs = set ys \<Longrightarrow> distinct ys \<Longrightarrow> length xs = length ys"
  by (metis distinct_card)

lemma length_lru: "cache_inv c B lru \<Longrightarrow> length lru = unat (m_block_num c)"
  using inv_lru [of c B lru] by (auto simp: blocks_def dest!: distinct_card)

lemma free_victims:
  assumes inv: "cache_inv c B lru" and key: "key \<noteq> 0" and d: "drops_key key c c'"
  shows "length (free_of c' (rev (entry c B key) @ filter (\<lambda>i. i \<notin> set (entry c B key)) lru)) =
    length (entry c B key) + length (free_of c lru)"
proof -
  let ?e = "entry c B key"
  have b: "set lru = blocks c" using inv_lru [OF inv] by simp
  have ky: "ky c' x = (if ky c x = key \<and> x \<in> blocks c then 0 else ky c x)" for x using d by (simp add: drops_key_def)
  have e: "x \<in> set ?e \<longleftrightarrow> x \<in> blocks c \<and> ky c x = key" for x using bucket_keys [OF inv key] by auto
  then have "free_of c' (rev ?e) = rev ?e" by (auto simp: free_of_def filter_id_conv ky)
  moreover have "filter (\<lambda>i. i \<notin> set ?e \<and> ky c' i = 0) lru = free_of c lru"
    unfolding free_of_def using b e key by (intro filter_cong) (auto simp: ky)
  ultimately show ?thesis by (simp add: free_of_def)
qed

lemma Set_ok:
  assumes inv: "cache_inv c B lru" and key: "key \<noteq> 0" and len: "unat n \<le> length buf"
  shows "\<exists>c' B' lru'. Set key buf n now c = Some (ERR_OK, c') \<and> cache_inv c' B' lru' \<and> sizes_eq c c' \<and>
    (unat n \<le> capacity c \<longrightarrow> value_of c' B' key = take (unat n) buf) \<and>
    (n \<noteq> 0 \<longrightarrow> entry c' B' key \<noteq> [] \<and> uptime_of c' B' key = now) \<and> kept key c B c' B' \<and>
    (unat n \<le> (length (entry c B key) + length (free_of c lru)) * unat (m_block_size c) \<longrightarrow> kept_all key c B c' B')"
proof -
  define lru1 where "lru1 = rev (entry c B key) @ filter (\<lambda>i. i \<notin> set (entry c B key)) lru"
  obtain c1 where d: "DeleteHash key c = Some c1" "cache_inv c1 (without key c B) lru1" "drops_key key c c1"
    using DeleteHash_ok [OF inv, of key] unfolding lru1_def by blast
  have sz: "sizes_eq c c1" using d(3) by (simp add: drops_key_def frame_sizes)
  note dr = drops_entries [OF inv d(2,3)]
  note em = dr(2) [OF key]
  have ot: "own_time key now c1"
    using d(3) key by (auto simp: own_time_def drops_key_def sizes_eq_blocks [OF sz])
  obtain c' B' lru' where g: "Set_loop key now buf 0 n c1 = Some c'" "cache_inv c' B' lru'" "sizes_eq c1 c'" "own_time key now c'"
    "kept key c1 (without key c B) c' B'" "room (unat n) c1 lru1 \<Longrightarrow> kept_all key c1 (without key c B) c' B'"
    "fits (unat n) key c1 (without key c B) lru1 \<Longrightarrow> value_of c' B' key = value_of c1 (without key c B) key @ take (unat n) buf"
    "n \<noteq> 0 \<Longrightarrow> entry c' B' key \<noteq> []"
    using Set_loop_ok [OF d(2) key ot, of 0 n buf] len unsigned_less [of n, where ?'a = nat] by auto
  have "Set key buf n now c = Some (ERR_OK, c')" using key d(1) g(1) by (simp add: Set_def)
  moreover have "sizes_eq c c'" using sz g(3) by (rule sizes_eq_trans)
  moreover have "value_of c' B' key = take (unat n) buf" if "unat n \<le> capacity c"
  proof -
    have "fits (unat n) key c1 (without key c B) lru1"
      using that length_lru [OF d(2)] sz em by (simp add: fits_def capacity_def sizes_eq_def)
    then show ?thesis using g(7) em by (simp add: value_of_def)
  qed
  moreover have "uptime_of c' B' key = now" if "n \<noteq> 0"
  proof -
    have "hd (entry c' B' key) \<in> set (entry c' B' key)" using g(8) that by simp
    then have "hd (entry c' B' key) \<in> blocks c'" "ky c' (hd (entry c' B' key)) = key"
      using entry_in [OF g(2)] by blast+
    then show ?thesis using g(4) by (simp add: uptime_of_def own_time_def)
  qed
  moreover have "kept key c B c' B'" using kept_all_kept [OF dr(1)] g(5) by (rule kept_trans)
  moreover have "kept_all key c B c' B'"
    if "unat n \<le> (length (entry c B key) + length (free_of c lru)) * unat (m_block_size c)"
  proof -
    have "room (unat n) c1 lru1"
      using that free_victims [OF inv key d(3)] sz by (simp add: room_def sizes_eq_def flip: lru1_def)
    then show ?thesis using dr(1) g(6) by (blast intro: kept_all_trans)
  qed
  ultimately show ?thesis using g(2,8) by blast
qed

section \<open>Reading a value\<close>

lemma inv_used:
  assumes inv: "cache_inv c B (U @ i # V)" and i: "ky c i \<noteq> 0"
  shows "cache_inv (MoveLRUTail i c) B (U @ V @ [i])"
proof -
  let ?c = "MoveLRUTail i c"
  have bl: "blocks ?c = blocks c" by (simp add: blocks_def)
  have o: "order_ok c (U @ i # V)" using inv by (simp add: cache_inv_def)
  have bs: "\<forall>k < HASH_MASK. bucket_ok ?c k (B k)"
  proof (intro allI impI)
    fix k assume "k < HASH_MASK"
    from inv_bucket [OF inv this] show "bucket_ok ?c k (B k)" by (simp add: bucket_ok_def bl)
  qed
  have "lru_list ?c (U @ V @ [i])" using o MoveLRUTail_list by (simp add: order_ok_def)
  moreover have "sorted_wrt (\<lambda>a b. ky ?c a \<noteq> 0 \<longrightarrow> ky ?c b \<noteq> 0) (U @ V @ [i])"
  proof -
    have "sorted_wrt (\<lambda>a b. ky c a \<noteq> 0 \<longrightarrow> ky c b \<noteq> 0) (U @ V)"
      using o unfolding order_ok_def by (blast intro: sorted_wrt_remove)
    then have "sorted_wrt (\<lambda>a b. ky c a \<noteq> 0 \<longrightarrow> ky c b \<noteq> 0) ((U @ V) @ [i])"
      unfolding sorted_wrt_append using i by simp
    then show ?thesis by simp
  qed
  moreover have "set (U @ V @ [i]) = blocks ?c"
  proof -
    have "set (U @ i # V) = blocks c" using o by (simp only: order_ok_def)
    moreover have "set (U @ V @ [i]) = set (U @ i # V)" by auto
    ultimately show ?thesis unfolding bl by argo
  qed
  ultimately have od: "order_ok ?c (U @ V @ [i])" unfolding order_ok_def by blast
  have "shape_ok c" "entry_ok c" "free_ok c" using inv by (simp_all add: cache_inv_def)
  then have "shape_ok ?c" "entry_ok ?c" "free_ok ?c"
    unfolding shape_ok_def entry_ok_def free_ok_def bl MoveLRUTail_frame by blast+
  then show ?thesis using od bs unfolding cache_inv_def by blast
qed

definition touched :: "int list \<Rightarrow> int list \<Rightarrow> int list" where
  \<comment> \<open>the LRU list after the blocks \<open>e\<close> have been used\<close>
  "touched e lru = filter (\<lambda>i. i \<notin> set e) lru @ e"

definition same_blocks :: "shm_cache \<Rightarrow> shm_cache \<Rightarrow> bool" where
  \<comment> \<open>the caches differ in the LRU links and the counters only\<close>
  "same_blocks c c' \<longleftrightarrow> m_data c' = m_data c \<and> m_hash c' = m_hash c \<and> sizes_eq c c' \<and>
     (\<forall>x. ky c' x = ky c x \<and> nx c' x = nx c x \<and> m_idx (m_block c' x) = m_idx (m_block c x) \<and>
          m_len (m_block c' x) = m_len (m_block c x) \<and> m_uptime (m_block c' x) = m_uptime (m_block c x))"

lemma same_blocks_entry:
  assumes "same_blocks c c'"
  shows "entry c' B k = entry c B k" "value_of c' B k = value_of c B k" "uptime_of c' B k = uptime_of c B k"
    "piece c' x = piece c x" "block_off c' x = block_off c x"
proof -
  show p: "piece c' x = piece c x" for x using assms by (simp add: piece_def same_blocks_def sizes_eq_def)
  then have q: "piece c' = piece c" by (rule ext)
  show e: "entry c' B k = entry c B k" for k using assms by (simp add: entry_def same_blocks_def)
  show "value_of c' B k = value_of c B k" by (simp add: value_of_def q e)
  show "uptime_of c' B k = uptime_of c B k" using assms by (simp add: uptime_of_def e same_blocks_def)
  show "block_off c' x = block_off c x" using assms by (simp add: block_off_def same_blocks_def sizes_eq_def)
qed

lemma same_blocks_trans: "same_blocks c c1 \<Longrightarrow> same_blocks c1 c2 \<Longrightarrow> same_blocks c c2"
  by (simp add: same_blocks_def sizes_eq_def)


lemma uptime_same:
  assumes inv: "cache_inv c B lru" and x: "x \<in> set (entry c B key)"
  shows "m_uptime (m_block c x) = uptime_of c B key"
proof -
  have "hd (entry c B key) \<in> set (entry c B key)" using x by (cases "entry c B key") auto
  note h = entry_in [OF inv this] and x = entry_in [OF inv x]
  have "entry_ok c" using inv by (simp add: cache_inv_def)
  moreover have "ky c (hd (entry c B key)) \<noteq> 0" "ky c x = ky c (hd (entry c B key))" using h x by simp_all
  ultimately show ?thesis using h(1) x(1) unfolding entry_ok_def uptime_of_def by blast
qed

abbreviation key_blocks :: "u64 \<Rightarrow> shm_cache \<Rightarrow> int list \<Rightarrow> int list" where
  "key_blocks key c \<equiv> filter (\<lambda>i. ky c i = key)"

lemma touched_Nil [simp]: "touched [] lru = lru"
  by (simp add: touched_def)

lemma touched_Cons: "x \<notin> set e \<Longrightarrow> touched e (filter (\<lambda>i. i \<noteq> x) lru @ [x]) = touched (x # e) lru"
  by (auto simp: touched_def intro!: filter_cong)

lemma Get_loop_ok:
  assumes "cache_inv c B lru" and "\<exists>L. B (hash_key key) = L @ X" and "chain (nx c) cur X"
    and "key_blocks key c X \<noteq> [] \<Longrightarrow> now - uptime_of c B key \<le> int (unat (m_timeout c))"
  shows "\<exists>c'. Get_loop key now cur r out c =
      Some (if key_blocks key c X = [] then r else ERR_OK, out @ concat (map (piece c) (key_blocks key c X)), c') \<and>
    cache_inv c' B (touched (key_blocks key c X) lru) \<and> same_blocks c c'"
  using assms
proof (induction X arbitrary: c lru cur r out)
  case Nil
  then show ?case by (auto simp: Get_loop.simps same_blocks_def)
next
  case (Cons x X)
  note inv = Cons.prems(1)
  obtain L where L: "B (hash_key key) = L @ x # X" using Cons.prems(2) by auto
  then have L': "\<exists>L. B (hash_key key) = L @ X" by (intro exI [of _ "L @ [x]"]) simp
  have bk: "bucket_ok c (hash_key key) (L @ x # X)" using inv_bucket [OF inv, of "hash_key key"] L by simp
  have x: "cur = x" "x \<noteq> -1" "chain (nx c) (nx c x) X" using Cons.prems(3) by auto
  have xb: "x \<in> blocks c" "ky c x \<noteq> 0" using bk by (auto simp: bucket_ok_def)
  consider (same) "ky c x = key" | (less) "ky c x < key" | (greater) "key < ky c x" by fastforce
  then show ?case
  proof cases
    case same
    have xe: "x \<in> set (entry c B key)" using same L by (simp add: entry_def)
    have t: "\<not> now - m_uptime (m_block c x) > int (unat (m_timeout c))"
      using Cons.prems(4) same uptime_same [OF inv xe] by simp
    have off: "block_off c x = nat x * unat (m_block_size c)"
      "nat x * unat (m_block_size c) + unat (m_block_size c) \<le> length (m_data c)"
      using block_off_ok [OF inv xb(1)] by auto
    have "unat (m_len (m_block c x)) \<le> unat (m_block_size c)"
      using entry_in(4) [OF inv xe] by (simp add: word_le_nat_alt)
    then have rd: "mem_read (m_data c) (block_off c x) (unat (m_len (m_block c x))) = Some (piece c x)"
      using off by (simp add: mem_read_in piece_def)
    define c1 where "c1 = MoveLRUTail x c"
    have sb: "same_blocks c c1" by (simp add: c1_def same_blocks_def sizes_eq_def)
    have "x \<in> set lru" using inv_lru [OF inv] xb by simp
    then obtain U V where lru: "lru = U @ x # V" by (meson split_list)
    have dl: "distinct lru" using inv_lru [OF inv] by simp
    have fl: "filter (\<lambda>i. i \<noteq> x) lru @ [x] = U @ V @ [x]"
    proof -
      have "filter (\<lambda>i. i \<noteq> x) W = W" if "x \<notin> set W" for W using that by (auto simp: filter_id_conv)
      then show ?thesis using dl unfolding lru by simp
    qed
    have inv1: "cache_inv c1 B (filter (\<lambda>i. i \<noteq> x) lru @ [x])"
      unfolding fl c1_def using inv_used [of c B U x V] inv lru xb(2) by simp
    have kb: "key_blocks key c1 X = key_blocks key c X" by (simp add: c1_def)
    have "chain (nx c1) (nx c x) X" using x(3) by (simp add: c1_def)
    moreover have "now - uptime_of c1 B key \<le> int (unat (m_timeout c1))"
      using Cons.prems(4) same same_blocks_entry(3) [OF sb] sb by (simp add: same_blocks_def sizes_eq_def)
    ultimately obtain c' where c': "Get_loop key now (nx c x) ERR_OK (out @ piece c x) c1 =
        Some (if key_blocks key c X = [] then ERR_OK else ERR_OK,
              (out @ piece c x) @ concat (map (piece c1) (key_blocks key c X)), c')"
      "cache_inv c' B (touched (key_blocks key c X) (filter (\<lambda>i. i \<noteq> x) lru @ [x]))" "same_blocks c1 c'"
      using Cons.IH [OF inv1 L', of "nx c x" ERR_OK "out @ piece c x"] unfolding kb by blast
    have "piece c1 = piece c" using same_blocks_entry(4) [OF sb] by (rule ext)
    moreover have "Get_loop key now cur r out c = Get_loop key now (nx c x) ERR_OK (out @ piece c x) c1"
      using same t rd x shape(4) [OF inv xb(1)] by (simp add: Get_loop.simps [of key now x] Let_def c1_def)
    moreover have "x \<notin> set (key_blocks key c X)" using bk by (auto simp: bucket_ok_def)
    ultimately show ?thesis
      using c' same same_blocks_trans [OF sb c'(3)] by (intro exI [of _ c']) (simp add: touched_Cons)
  next
    case less
    then have ne: "ky c x \<noteq> key" "\<not> ky c x > key" by auto
    have "Get_loop key now cur r out c = Get_loop key now (nx c x) r out c"
      using ne x by (simp add: Get_loop.simps [of key now x])
    moreover have "key_blocks key c (x # X) = key_blocks key c X" using ne by simp
    ultimately show ?thesis using Cons.IH [OF inv L' x(3), of r out] Cons.prems(4) by simp
  next
    case greater
    have "sorted (map (ky c) (x # X))" using bk by (simp add: bucket_ok_def sorted_append)
    then have "key_blocks key c (x # X) = []" using greater by (auto simp: filter_empty_conv)
    moreover have "Get_loop key now cur r out c = Some (r, out, c)"
      using greater x by (auto simp: Get_loop.simps [of key now x])
    ultimately show ?thesis using inv by (simp add: same_blocks_def)
  qed
qed


lemma Get_loop_expired:
  assumes "chain (nx c) cur X" and "sorted (map (ky c) X)" and "key_blocks key c X \<noteq> []"
    and "\<forall>x \<in> set (key_blocks key c X). now - m_uptime (m_block c x) > int (unat (m_timeout c))"
  shows "Get_loop key now cur r out c = Option.bind (DeleteHash key c) (\<lambda>c. Some (ERR_KEY_TIMEOUT, out, c))"
  using assms
proof (induction X arbitrary: cur)
  case (Cons x X)
  then have x: "cur = x" "x \<noteq> -1" "chain (nx c) (nx c x) X" by auto
  show ?case
  proof (cases "ky c x = key")
    case True
    then show ?thesis using x Cons.prems(4) by (simp add: Get_loop.simps [of key now x])
  next
    case False
    then have "key_blocks key c X \<noteq> []" using Cons.prems(3) by simp
    then obtain y where "y \<in> set X" "ky c y = key" by (auto simp: filter_empty_conv)
    then have "ky c x < key" using Cons.prems(2) False by auto
    then have "\<not> ky c x > key" by auto
    then show ?thesis
      using x False Cons.IH [OF x(3)] Cons.prems by (simp add: Get_loop.simps [of key now x])
  qed
qed simp

lemma inv_counters [simp]:
  "cache_inv (c\<lparr>m_total_req := n\<rparr>) B lru = cache_inv c B lru" "cache_inv (c\<lparr>m_total_hit := n\<rparr>) B lru = cache_inv c B lru"
proof -
  have "blocks (c\<lparr>m_total_req := n\<rparr>) = blocks c" "blocks (c\<lparr>m_total_hit := n\<rparr>) = blocks c" by (simp_all add: blocks_def)
  moreover have "lru_list (c\<lparr>m_total_req := n\<rparr>) lru = lru_list c lru" "lru_list (c\<lparr>m_total_hit := n\<rparr>) lru = lru_list c lru"
    by (rule lru_list_cong; simp)+
  ultimately show "cache_inv (c\<lparr>m_total_req := n\<rparr>) B lru = cache_inv c B lru" "cache_inv (c\<lparr>m_total_hit := n\<rparr>) B lru = cache_inv c B lru"
    by (simp_all add: cache_inv_def shape_ok_def bucket_ok_def order_ok_def entry_ok_def free_ok_def)
qed

lemma counters_entry [simp]:
  "entry (c\<lparr>m_total_req := n\<rparr>) B k = entry c B k" "value_of (c\<lparr>m_total_req := n\<rparr>) B k = value_of c B k"
  "uptime_of (c\<lparr>m_total_req := n\<rparr>) B k = uptime_of c B k" "piece (c\<lparr>m_total_req := n\<rparr>) = piece c"
proof -
  show p: "piece (c\<lparr>m_total_req := n\<rparr>) = piece c" by (simp add: piece_def fun_eq_iff)
  show e: "entry (c\<lparr>m_total_req := n\<rparr>) B k = entry c B k" for k by (simp add: entry_def)
  show "value_of (c\<lparr>m_total_req := n\<rparr>) B k = value_of c B k" by (simp only: value_of_def p e)
  show "uptime_of (c\<lparr>m_total_req := n\<rparr>) B k = uptime_of c B k" by (simp add: uptime_of_def e)
qed

lemma counters_same_blocks [simp]:
  "same_blocks (c\<lparr>m_total_req := n\<rparr>) c' = same_blocks c c'" "same_blocks c (c'\<lparr>m_total_hit := n\<rparr>) = same_blocks c c'"
  "same_blocks c (c\<lparr>m_total_req := n\<rparr>)"
  by (simp_all add: same_blocks_def sizes_eq_def)

lemma same_blocks_refl [simp]: "same_blocks c c"
  by (simp add: same_blocks_def)

definition expired :: "shm_cache \<Rightarrow> (nat \<Rightarrow> int list) \<Rightarrow> u64 \<Rightarrow> int \<Rightarrow> bool" where
  "expired c B key now \<longleftrightarrow> now - uptime_of c B key > int (unat (m_timeout c))"

lemma Get_ok:
  assumes inv: "cache_inv c B lru"
  shows "if entry c B key = []
    then \<exists>c'. Get key now c = Some (ERR_KEY_NO_EXIST, [], c') \<and> cache_inv c' B lru \<and> same_blocks c c'
    else if expired c B key now
    then \<exists>c' B' lru'. Get key now c = Some (ERR_KEY_TIMEOUT, [], c') \<and> cache_inv c' B' lru' \<and> sizes_eq c c' \<and>
           entry c' B' key = [] \<and> kept_all key c B c' B'
    else \<exists>c'. Get key now c = Some (ERR_OK, value_of c B key, c') \<and> cache_inv c' B (touched (entry c B key) lru) \<and>
           same_blocks c c'"
proof -
  define c1 where "c1 = c\<lparr>m_total_req := m_total_req c + 1\<rparr>"
  have inv1: "cache_inv c1 B lru" using inv by (simp add: c1_def)
  have kb: "key_blocks key c1 (B (hash_key key)) = entry c B key" by (simp add: c1_def entry_def)
  have bk: "bucket_ok c1 (hash_key key) (B (hash_key key))" using inv_bucket [OF inv1] by simp
  then have ch: "chain (nx c1) (h_head (m_hash c (hash_key key))) (B (hash_key key))" by (simp add: bucket_ok_def c1_def)
  have whole: "\<exists>L. B (hash_key key) = L @ B (hash_key key)" by simp
  have sb: "same_blocks c c1" by (simp add: c1_def)
  have get: "Get key now c = Option.bind (Get_loop key now (h_head (m_hash c (hash_key key))) ERR_KEY_NO_EXIST [] c1)
      (\<lambda>(iRet, out, c). Some (iRet, out, if iRet = ERR_OK then c\<lparr>m_total_hit := m_total_hit c + 1\<rparr> else c))"
    by (simp add: Get_def c1_def)
  consider (none) "entry c B key = []" | (old) "entry c B key \<noteq> []" "expired c B key now"
    | (fresh) "entry c B key \<noteq> []" "\<not> expired c B key now" by blast
  then show ?thesis
  proof cases
    case none
    obtain c' where "Get_loop key now (h_head (m_hash c (hash_key key))) ERR_KEY_NO_EXIST [] c1 = Some (ERR_KEY_NO_EXIST, [], c')"
      "cache_inv c' B lru" "same_blocks c1 c'"
      using Get_loop_ok [OF inv1 whole ch, where now = now and r = ERR_KEY_NO_EXIST and out = "[]"] none unfolding kb by auto
    then show ?thesis using none same_blocks_trans [OF sb] by (auto simp: get)
  next
    case old
    have key: "key \<noteq> 0" using old(1) bucket_keys_0 [OF inv] by auto
    have "\<forall>x \<in> set (key_blocks key c1 (B (hash_key key))). now - m_uptime (m_block c1 x) > int (unat (m_timeout c1))"
    proof
      fix x assume "x \<in> set (key_blocks key c1 (B (hash_key key)))"
      then have "m_uptime (m_block c x) = uptime_of c B key" using uptime_same [OF inv] kb by simp
      then show "now - m_uptime (m_block c1 x) > int (unat (m_timeout c1))" using old(2) by (simp add: c1_def expired_def)
    qed
    then have l: "Get_loop key now (h_head (m_hash c (hash_key key))) ERR_KEY_NO_EXIST [] c1 =
        Option.bind (DeleteHash key c1) (\<lambda>c. Some (ERR_KEY_TIMEOUT, [], c))"
      using bk old(1) kb by (intro Get_loop_expired [OF ch]) (simp_all add: bucket_ok_def)
    obtain c' lru' where d: "DeleteHash key c1 = Some c'" "cache_inv c' (without key c1 B) lru'" "drops_key key c1 c'"
      using DeleteHash_ok [OF inv1, of key] by blast
    have "sizes_eq c c1" using sb by (simp add: same_blocks_def)
    moreover have "sizes_eq c1 c'" using d(3) by (simp add: drops_key_def frame_sizes)
    ultimately have "sizes_eq c c'" by (rule sizes_eq_trans)
    moreover have "same_entry k c B c1 B" for k by (simp add: same_entry_def c1_def)
    then have "kept_all key c B c' (without key c1 B)"
      using drops_entries(1) [OF inv1 d(2,3)] unfolding kept_all_def by (blast intro: same_entry_trans)
    moreover have "Get key now c = Some (ERR_KEY_TIMEOUT, [], c')" using l d(1) by (simp add: get)
    ultimately show ?thesis using old d(2) drops_entries(2) [OF inv1 d(2,3) key] by auto
  next
    case fresh
    have "now - uptime_of c1 B key \<le> int (unat (m_timeout c1))" using fresh(2) by (simp add: c1_def expired_def)
    then obtain c' where "Get_loop key now (h_head (m_hash c (hash_key key))) ERR_KEY_NO_EXIST [] c1 =
        Some (ERR_OK, value_of c1 B key, c')"
      "cache_inv c' B (touched (entry c B key) lru)" "same_blocks c1 c'"
      using Get_loop_ok [OF inv1 whole ch, where now = now and r = ERR_KEY_NO_EXIST and out = "[]"] fresh unfolding kb value_of_def
      by (auto simp: c1_def)
    then show ?thesis using fresh same_blocks_trans [OF sb] by (auto simp: get c1_def)
  qed
qed

lemma Del_ok:
  assumes inv: "cache_inv c B lru"
  shows "\<exists>c' B' lru'. Del key c = Some (ERR_OK, c') \<and> cache_inv c' B' lru' \<and> sizes_eq c c' \<and>
    entry c' B' key = [] \<and> kept_all key c B c' B'"
proof -
  obtain c' lru' where d: "DeleteHash key c = Some c'" "cache_inv c' (without key c B) lru'" "drops_key key c c'"
    using DeleteHash_ok [OF inv, of key] by blast
  have "entry c' (without key c B) key = []"
    using drops_entries(2) [OF inv d(2,3)] bucket_keys_0 [OF d(2)] by (cases "key = 0") auto
  then show ?thesis
    using d drops_entries(1) [OF inv d(2,3)] by (auto simp: Del_def drops_key_def frame_sizes)
qed


section \<open>Removing what is too old\<close>

definition swept :: "int \<Rightarrow> shm_cache \<Rightarrow> (nat \<Rightarrow> int list) \<Rightarrow> shm_cache \<Rightarrow> (nat \<Rightarrow> int list) \<Rightarrow> bool" where
  \<comment> \<open>every entry is as before, or it is gone and was too old\<close>
  "swept now c B c' B' \<longleftrightarrow> sizes_eq c c' \<and>
     (\<forall>k. same_entry k c B c' B' \<or> (entry c' B' k = [] \<and> expired c B k now))"

lemma swept_refl [simp]: "swept now c B c B"
  by (simp add: swept_def)

lemma same_expired:
  "sizes_eq c c1 \<Longrightarrow> same_entry k c B c1 B1 \<Longrightarrow> entry c B k \<noteq> [] \<Longrightarrow> expired c1 B1 k now \<Longrightarrow> expired c B k now"
  by (auto simp: expired_def uptime_of_def same_entry_def sizes_eq_def)

lemma swept_trans:
  assumes "swept now c B c1 B1" and "swept now c1 B1 c2 B2"
  shows "swept now c B c2 B2"
proof -
  have sz: "sizes_eq c c1" "sizes_eq c1 c2" using assms by (auto simp: swept_def)
  have "same_entry k c B c2 B2 \<or> (entry c2 B2 k = [] \<and> expired c B k now)" for k
  proof -
    consider (same) "same_entry k c B c1 B1" "same_entry k c1 B1 c2 B2"
      | (then_gone) "same_entry k c B c1 B1" "entry c2 B2 k = []" "expired c1 B1 k now"
      | (gone) "entry c1 B1 k = []" "expired c B k now"
      using assms unfolding swept_def by blast
    then show ?thesis
    proof cases
      case same
      then show ?thesis by (blast intro: same_entry_trans)
    next
      case then_gone
      then show ?thesis
        using same_expired [OF sz(1) then_gone(1)] by (cases "entry c B k = []") (auto simp: same_entry_def value_of_def)
    next
      case gone
      have "same_entry k c1 B1 c2 B2 \<or> entry c2 B2 k = []" using assms(2) unfolding swept_def by blast
      then have "entry c2 B2 k = []" using gone(1) by (auto simp: same_entry_def)
      then show ?thesis using gone by blast
    qed
  qed
  then show ?thesis using sizes_eq_trans [OF sz] by (simp add: swept_def)
qed

lemma swept_delete:
  assumes inv: "cache_inv c B lru" and inv': "cache_inv c' (without key c B) lru'" and d: "drops_key key c c'"
    and "key \<noteq> 0 \<Longrightarrow> expired c B key now"
  shows "swept now c B c' (without key c B)"
proof -
  note dr = drops_entries [OF inv inv' d]
  have "same_entry k c B c' (without key c B) \<or> (entry c' (without key c B) k = [] \<and> expired c B k now)" for k
  proof (cases "k = key")
    case True
    then show ?thesis
      using dr(2) assms(4) bucket_keys_0 [OF inv] bucket_keys_0 [OF inv']
      by (cases "key = 0") (auto simp: same_entry_def value_of_def)
  next
    case False
    then show ?thesis using dr(1) by (simp add: kept_all_def)
  qed
  moreover have "sizes_eq c c'" using d by (simp add: drops_key_def frame_sizes)
  ultimately show ?thesis by (simp add: swept_def)
qed

lemma Check_bucket_free:
  assumes inv: "cache_inv c B lru" and "cur \<in> blocks c" and "ky c cur = 0"
  shows "\<exists>c' B' lru'. Check_bucket now cur c = Some c' \<and> cache_inv c' B' lru' \<and> swept now c B c' B' \<and>
    (\<forall>k. same_entry k c B c' B')"
proof -
  have nx: "nx c cur = -1" using assms by (simp add: cache_inv_def free_ok_def)
  have cur: "cur \<noteq> -1" using assms(2) by (auto simp: blocks_def)
  obtain c' lru' where d: "DeleteHash 0 c = Some c'" "cache_inv c' (without 0 c B) lru'" "drops_key 0 c c'"
    using DeleteHash_ok [OF inv, of 0] by blast
  show ?thesis
  proof (cases "now - m_uptime (m_block c cur) > int (unat (m_timeout c))")
    case True
    then have "Check_bucket now cur c = Some c'"
      using assms(3) nx cur d(1) by (simp add: Check_bucket.simps [of now cur] Check_bucket.simps [of now "-1"])
    moreover have "same_entry k c B c' (without 0 c B)" for k
      using drops_entries(1) [OF inv d(2,3)] empty_same_entry [OF bucket_keys_0 [OF inv] bucket_keys_0 [OF d(2)]]
      by (cases "k = 0") (simp_all add: kept_all_def)
    ultimately show ?thesis using d(2) swept_delete [OF inv d(2,3), of now] by blast
  next
    case False
    then have "Check_bucket now cur c = Some c"
      using nx cur by (simp add: Check_bucket.simps [of now cur] Check_bucket.simps [of now "-1"])
    then show ?thesis using inv swept_refl same_entry_refl by blast
  qed
qed

lemma Check_bucket_ok:
  assumes "cache_inv c B lru" and "k < HASH_MASK" and "B k = L @ X" and "chain (nx c) cur X"
  shows "\<exists>c' B' lru'. Check_bucket now cur c = Some c' \<and> cache_inv c' B' lru' \<and> swept now c B c' B'"
  using assms
proof (induction X arbitrary: c B lru L cur)
  case Nil
  then have "Check_bucket now cur c = Some c" by (simp add: Check_bucket.simps)
  then show ?case using Nil.prems(1) swept_refl by blast
next
  case (Cons x X)
  note inv = Cons.prems(1)
  have bk: "bucket_ok c k (L @ x # X)" using inv_bucket [OF inv Cons.prems(2)] Cons.prems(3) by simp
  have x: "cur = x" "x \<noteq> -1" "chain (nx c) (nx c x) X" using Cons.prems(4) by auto
  have xb: "x \<in> blocks c" "ky c x \<noteq> 0" "hash_key (ky c x) = k" using bk by (auto simp: bucket_ok_def)
  show ?case
  proof (cases "now - m_uptime (m_block c x) > int (unat (m_timeout c))")
    case False
    then show ?thesis
      using x Cons.IH [OF inv Cons.prems(2), of "L @ [x]" "nx c x"] Cons.prems(3) by (simp add: Check_bucket.simps [of now x])
  next
    case True
    let ?key = "ky c x"
    obtain c1 lru1 where d: "DeleteHash ?key c = Some c1" "cache_inv c1 (without ?key c B) lru1" "drops_key ?key c c1"
      using DeleteHash_ok [OF inv, of ?key] by blast
    have "x \<in> set (entry c B ?key)" using xb(3) Cons.prems(3) by (simp add: entry_def)
    then have ex: "expired c B ?key now" using True uptime_same [OF inv] by (simp add: expired_def)
    have sw: "swept now c B c1 (without ?key c B)" using swept_delete [OF inv d(2,3)] ex by blast
    have step: "Check_bucket now cur c = Check_bucket now (nx c x) c1"
      using x True d(1) by (simp add: Check_bucket.simps [of now x])
    have "\<exists>c' B' lru'. Check_bucket now (nx c x) c1 = Some c' \<and> cache_inv c' B' lru' \<and> swept now c1 (without ?key c B) c' B'"
    proof (cases X)
      case Nil
      then have "Check_bucket now (nx c x) c1 = Some c1" using x(3) by (simp add: Check_bucket.simps)
      then show ?thesis using d(2) swept_refl by blast
    next
      case (Cons y Y)
      have y: "nx c x = y" using x(3) Cons by simp
      have yb: "y \<in> blocks c" using bk Cons by (auto simp: bucket_ok_def)
      show ?thesis
      proof (cases "ky c y = ?key")
        case True
        then have "ky c1 y = 0" using d(3) yb by (simp add: drops_key_def)
        moreover have "y \<in> blocks c1"
        proof -
          have "sizes_eq c c1" using sw by (simp add: swept_def)
          then show ?thesis using yb sizes_eq_blocks by simp
        qed
        ultimately show ?thesis unfolding y using Check_bucket_free [OF d(2)] by blast
      next
        case False
        have "sorted (map (ky c) (x # X))" using bk by (simp add: bucket_ok_def sorted_append)
        then have "\<forall>z \<in> set X. ky c z \<noteq> ?key" using False Cons by auto
        then have B1: "(without ?key c B) k = filter (\<lambda>i. ky c i \<noteq> ?key) L @ X"
          using xb(3) Cons.prems(3) by (auto simp: filter_id_conv)
        have "bucket_ok c1 k (filter (\<lambda>i. ky c i \<noteq> ?key) L @ X)"
          using inv_bucket [OF d(2) Cons.prems(2)] B1 by simp
        then have "chain (nx c1) (nx c x) X"
          using chain_fun [of "nx c1" "h_head (m_hash c1 k)" "filter (\<lambda>i. ky c i \<noteq> ?key) L" y Y] y Cons
          by (simp add: bucket_ok_def)
        then show ?thesis by (rule Cons.IH [OF d(2) Cons.prems(2) B1])
      qed
    qed
    then show ?thesis unfolding step using swept_trans [OF sw] by blast
  qed
qed

lemma Check_bucket_stops:
  assumes inv: "cache_inv c B lru" and k: "k < HASH_MASK" and b: "B k = x # y # X" and same: "ky c y = ky c x"
    and old: "now - m_uptime (m_block c x) > int (unat (m_timeout c))"
  shows "\<exists>c' B' lru'. Check_bucket now (h_head (m_hash c k)) c = Some c' \<and> cache_inv c' B' lru' \<and>
    kept_all (ky c x) c B c' B'"
proof -
  let ?key = "ky c x"
  have bk: "bucket_ok c k (x # y # X)" using inv_bucket [OF inv k] b by simp
  then have x: "h_head (m_hash c k) = x" "x \<noteq> -1" "nx c x = y" by (auto simp: bucket_ok_def)
  have y: "y \<in> blocks c" using bk by (auto simp: bucket_ok_def)
  obtain c1 lru1 where d: "DeleteHash ?key c = Some c1" "cache_inv c1 (without ?key c B) lru1" "drops_key ?key c c1"
    using DeleteHash_ok [OF inv, of ?key] by blast
  have "sizes_eq c c1" using d(3) by (simp add: drops_key_def frame_sizes)
  then have z: "y \<in> blocks c1" "ky c1 y = 0"
    using d(3) y same sizes_eq_blocks by (simp_all add: drops_key_def)
  obtain c' B' lru' where c': "Check_bucket now y c1 = Some c'" "cache_inv c' B' lru'" "\<forall>k. same_entry k c1 (without ?key c B) c' B'"
    using Check_bucket_free [OF d(2) z] by blast
  have "Check_bucket now (h_head (m_hash c k)) c = Some c'"
    using x old d(1) c'(1) by (simp add: Check_bucket.simps [of now x])
  moreover have "kept_all ?key c B c' B'"
    using drops_entries(1) [OF inv d(2,3)] c'(3) unfolding kept_all_def by (blast intro: same_entry_trans)
  ultimately show ?thesis using c'(2) by blast
qed

lemma Check_from_ok:
  assumes "cache_inv c B lru" and "\<forall>k \<in> set ks. k < HASH_MASK"
  shows "\<exists>c' B' lru'. Check_from now ks c = Some c' \<and> cache_inv c' B' lru' \<and> swept now c B c' B'"
  using assms
proof (induction ks arbitrary: c B lru)
  case Nil
  then show ?case using swept_refl by auto
next
  case (Cons k ks)
  have k: "k < HASH_MASK" using Cons.prems(2) by simp
  have "chain (nx c) (h_head (m_hash c k)) (B k)" using inv_bucket [OF Cons.prems(1) k] by (simp add: bucket_ok_def)
  then obtain c1 B1 lru1 where c1: "Check_bucket now (h_head (m_hash c k)) c = Some c1" "cache_inv c1 B1 lru1" "swept now c B c1 B1"
    using Check_bucket_ok [OF Cons.prems(1) k, of "[]" "B k" "h_head (m_hash c k)" now] by auto
  obtain c2 B2 lru2 where c2: "Check_from now ks c1 = Some c2" "cache_inv c2 B2 lru2" "swept now c1 B1 c2 B2"
    using Cons.IH [OF c1(2)] Cons.prems(2) by auto
  show ?case using c1(1) c2 swept_trans [OF c1(3) c2(3)] by auto
qed

lemma Check_ok:
  assumes "cache_inv c B lru"
  shows "\<exists>c' B' lru'. Check now c = Some c' \<and> cache_inv c' B' lru' \<and> swept now c B c' B'"
  using Check_from_ok [OF assms, of "[0..<HASH_MASK]" now] by (simp add: Check_def)


section \<open>A new segment\<close>

lemma path_upto:
  "(\<And>i. lo \<le> i \<Longrightarrow> i < hi \<Longrightarrow> f i = i + 1 \<and> g (i + 1) = i) \<Longrightarrow> path f g [lo..hi]"
proof (induction lo hi rule: upto.induct)
  case (1 lo hi)
  show ?case
  proof (cases "lo < hi")
    case True
    then have "[lo..hi] = lo # (lo + 1) # [lo + 2..hi]" by (simp add: upto_rec1 [of lo] upto_rec1 [of "lo + 1"] add.commute [of 2])
    moreover have "path f g [lo + 1..hi]" using 1 True by simp
    moreover have "[lo + 1..hi] = (lo + 1) # [lo + 2..hi]" using True by (simp add: upto_rec1 [of "lo + 1"] add.commute [of 2])
    ultimately show ?thesis using "1.prems" [of lo] True by simp
  qed (cases "lo = hi"; simp)
qed

lemma hd_last_upto: "lo \<le> hi \<Longrightarrow> hd [lo..hi] = lo \<and> last [lo..hi] = hi \<and> [lo..hi] \<noteq> []"
proof -
  assume "lo \<le> hi"
  then have "[lo..hi] = lo # [lo + 1..hi]" "[lo..hi] = [lo..hi - 1] @ [hi]" by (rule upto_rec1, rule upto_rec2)
  then show ?thesis by (metis last_snoc list.discI list.sel(1))
qed

lemma Init_inv:
  assumes n: "0 < unat bn" "0 < unat bs" "unat bn * unat bs < 2 ^ 32" and d: "length (m_data c) = unat bn * unat bs"
    and fresh: "shm_size \<noteq> total_size bn bs"
  shows "cache_inv (Init bn bs timeout shm_size now c) (\<lambda>_. []) [0..int (unat bn) - 1]"
proof -
  let ?n = "int (unat bn)"
  define c' where "c' = Init bn bs timeout shm_size now c"
  have f: "m_block_num c' = bn" "m_block_size c' = bs" "m_data c' = m_data c" "m_lru_head c' = 0" "m_lru_tail c' = ?n - 1"
    using fresh by (simp_all add: c'_def Init_def Let_def)
  have b: "m_block c' i = init_block bn i (m_block c i)" if "0 \<le> i" "i < ?n" for i
    using fresh that by (simp add: c'_def Init_def Let_def)
  have bl: "blocks c' = {0..<?n}" by (simp add: blocks_def f)
  have "shape_ok c'" using n d by (simp add: shape_ok_def f bl b init_block_def)
  moreover have h: "h_head (m_hash c' k) = -1 \<and> h_len (m_hash c' k) = 0" if "k < HASH_MASK" for k
    using fresh that by (simp add: c'_def Init_def Let_def)
  have "\<forall>k < HASH_MASK. bucket_ok c' k []"
    by (simp add: bucket_ok_def bl b init_block_def h)
  moreover have "order_ok c' [0..?n - 1]"
  proof -
    have n0: "0 \<le> ?n - 1" using n(1) by linarith
    have "path (nxt c') (prv c') [0..?n - 1]"
      by (rule path_upto) (simp add: b init_block_def)
    then have "cyc (nxt c') (prv c') [0..?n - 1]"
      using hd_last_upto [OF n0] n0 by (simp add: cyc_def b init_block_def)
    then have "lru_list c' [0..?n - 1]" using hd_last_upto [OF n0] by (simp add: lru_list_def f)
    moreover have "set [0..?n - 1] = blocks c'" by (auto simp: bl)
    moreover have "sorted_wrt (\<lambda>a b. ky c' a \<noteq> 0 \<longrightarrow> ky c' b \<noteq> 0) [0..?n - 1]"
      by (rule sorted_wrt_mono_rel [of _ "\<lambda>_ _. True"]) (auto simp: b init_block_def)
    ultimately show ?thesis by (simp add: order_ok_def)
  qed
  moreover have "entry_ok c'" by (simp add: entry_ok_def bl b init_block_def)
  moreover have "free_ok c'" by (simp add: free_ok_def bl b init_block_def)
  ultimately show ?thesis unfolding c'_def [symmetric] cache_inv_def by blast
qed


section \<open>The life of a cache\<close>

inductive cache_step :: "shm_cache \<Rightarrow> shm_cache \<Rightarrow> bool" where
  set: "unat n \<le> length buf \<Longrightarrow> Set key buf n now c = Some (r, c') \<Longrightarrow> cache_step c c'"
| get: "Get key now c = Some (r, out, c') \<Longrightarrow> cache_step c c'"
| del: "Del key c = Some (r, c') \<Longrightarrow> cache_step c c'"
| check: "Check now c = Some c' \<Longrightarrow> cache_step c c'"

inductive_cases cache_stepE: "cache_step c c'"

inductive reachable :: "shm_cache \<Rightarrow> bool" where
  init: "0 < unat bn \<Longrightarrow> 0 < unat bs \<Longrightarrow> unat bn * unat bs < 2 ^ 32 \<Longrightarrow> length (m_data c) = unat bn * unat bs \<Longrightarrow>
    shm_size \<noteq> total_size bn bs \<Longrightarrow> reachable (Init bn bs timeout shm_size now c)"
| step: "reachable c \<Longrightarrow> cache_step c c' \<Longrightarrow> reachable c'"

lemma Set_zero: "Set 0 buf n now c = Some (ERR_KEY_ZERO, c)"
  by (simp add: Set_def)

lemma cache_step_inv:
  assumes inv: "cache_inv c B lru" and "cache_step c c'"
  shows "\<exists>B' lru'. cache_inv c' B' lru'"
  using assms(2)
proof cases
  case (set n buf key now r)
  show ?thesis
  proof (cases "key = 0")
    case True
    then show ?thesis using set inv Set_zero by auto
  next
    case False
    then show ?thesis using Set_ok [OF inv False set(1), of now] set(2) by auto
  qed
next
  case (get key now r out)
  then show ?thesis using Get_ok [OF inv, of key now] by (auto split: if_splits)
next
  case (del key r)
  then show ?thesis using Del_ok [OF inv, of key] by auto
next
  case (check now)
  then show ?thesis using Check_ok [OF inv, of now] by auto
qed

lemma reachable_inv: "reachable c \<Longrightarrow> \<exists>B lru. cache_inv c B lru"
  by (induction rule: reachable.induct) (use Init_inv cache_step_inv in blast)+

text \<open>Every link is -1 or the number of a block, so it is an \<open>int32_t\<close> if there are at most \<open>2 ^ 31\<close> blocks.\<close>

lemma chain_links: "chain f cur xs \<Longrightarrow> cur \<in> insert (-1) (set xs) \<and> (\<forall>x \<in> set xs. f x \<in> insert (-1) (set xs))"
  by (induction f cur xs rule: chain.induct) auto

lemma path_links:
  "path f g xs \<Longrightarrow> xs \<noteq> [] \<Longrightarrow> (\<forall>x \<in> set xs. x = last xs \<or> f x \<in> set xs) \<and> (\<forall>x \<in> set xs. x = hd xs \<or> g x \<in> set xs)"
  by (induction f g xs rule: path.induct) auto

theorem cache_links_fit:
  assumes inv: "cache_inv c B lru" and n: "unat (m_block_num c) \<le> 2 ^ 31"
    and x: "x \<in> {m_lru_head c, m_lru_tail c} \<union> (\<Union>i \<in> blocks c. {m_idx (m_block c i), nx c i, nxt c i, prv c i}) \<union>
      {h_head (m_hash c k) |k. k < HASH_MASK}"
  shows "-1 \<le> x \<and> x < 2 ^ 31"
proof -
  have lru: "set lru = blocks c" "lru \<noteq> []" "path (nxt c) (prv c) lru" "nxt c (last lru) = hd lru" "prv c (hd lru) = last lru"
    "m_lru_head c = hd lru" "m_lru_tail c = last lru"
    using inv by (auto simp: cache_inv_def order_ok_def lru_list_def cyc_def)
  have "nxt c i \<in> blocks c" "prv c i \<in> blocks c" if "i \<in> blocks c" for i
    using path_links [OF lru(3,2)] that lru(1,2,4,5) hd_in_set [OF lru(2)] last_in_set [OF lru(2)] by metis+
  moreover have "m_lru_head c \<in> blocks c" "m_lru_tail c \<in> blocks c" using lru hd_in_set [OF lru(2)] last_in_set [OF lru(2)] by simp_all
  moreover have bucket: "set (B k) \<subseteq> blocks c" "chain (nx c) (h_head (m_hash c k)) (B k)" if "k < HASH_MASK" for k
    using inv that by (auto simp: cache_inv_def bucket_ok_def)
  then have "h_head (m_hash c k) \<in> insert (-1) (blocks c)" if "k < HASH_MASK" for k using chain_links [OF bucket(2) [OF that]] bucket(1) [OF that] by blast
  moreover have "nx c i \<in> insert (-1) (blocks c)" if i: "i \<in> blocks c" for i
  proof (cases "ky c i = 0")
    case False
    then have "i \<in> set (B (hash_key (ky c i)))" using inv i by (simp add: cache_inv_def bucket_ok_def)
    then show ?thesis using chain_links [OF bucket(2) [OF hash_key_less]] bucket(1) [OF hash_key_less] by blast
  qed (use inv i in \<open>auto simp: cache_inv_def free_ok_def\<close>)
  moreover have "m_idx (m_block c i) \<in> blocks c" if "i \<in> blocks c" for i using inv that by (simp add: cache_inv_def shape_ok_def)
  ultimately have "x \<in> insert (-1) (blocks c)" using x by auto
  moreover have "int (unat (m_block_num c)) \<le> 2 ^ 31" using n by (metis of_nat_le_iff of_nat_numeral of_nat_power)
  ultimately show ?thesis by (auto simp: blocks_def)
qed

lemma cache_returns:
  assumes inv: "cache_inv c B lru"
  shows "\<exists>r c'. Del key c = Some (r, c')" and "\<exists>r out c'. Get key now c = Some (r, out, c')" and "\<exists>c'. Check now c = Some c'"
    and "unat n \<le> length buf \<Longrightarrow> \<exists>r c'. Set key buf n now c = Some (r, c')"
proof -
  show "\<exists>r c'. Del key c = Some (r, c')" using Del_ok [OF inv] by blast
  show "\<exists>r out c'. Get key now c = Some (r, out, c')" using Get_ok [OF inv, of key now] by (auto split: if_splits)
  show "\<exists>c'. Check now c = Some c'" using Check_ok [OF inv] by blast
  show "unat n \<le> length buf \<Longrightarrow> \<exists>r c'. Set key buf n now c = Some (r, c')"
    using Set_ok [OF inv, of key n buf now] Set_zero by (cases "key = 0") auto
qed

text \<open>A cache of four blocks of two bytes, with a time-out of a minute, as the examples below use it.\<close>

definition raw_cache :: shm_cache where
  "raw_cache = \<lparr>m_block_num = 0, m_block_size = 0, m_timeout = 0, m_total_hit = 0, m_total_req = 0,
     m_data = replicate 8 0,
     m_block = (\<lambda>_. \<lparr>m_key = 7, m_idx = 0, m_len = 0, m_next = 0, m_lru_pre = 0, m_lru_next = 0, m_uptime = 0\<rparr>),
     m_hash = (\<lambda>_. \<lparr>h_len = 0, h_head = 0\<rparr>), m_lru_head = 0, m_lru_tail = 0, m_op_time = 0\<rparr>"

definition cache_example :: shm_cache where
  "cache_example = Init 4 2 60 0 1 raw_cache"

lemma cache_example_inv: "cache_inv cache_example (\<lambda>_. []) [0..3]"
  using Init_inv [of 4 2 raw_cache 0 60 1] by (simp add: cache_example_def total_size_def HASH_MASK_def raw_cache_def)

lemma cache_example_reachable: "reachable cache_example"
  unfolding cache_example_def by (rule reachable.init) (simp_all add: total_size_def HASH_MASK_def raw_cache_def)

text \<open>The same cache after the keys 9 and 65545, of the same bucket, have been stored at the time 100.\<close>

definition full_example :: shm_cache where
  "full_example = \<lparr>m_block_num = 4, m_block_size = 2, m_timeout = 60, m_total_hit = 0, m_total_req = 0,
     m_data = [1, 2, 3, 0, 4, 0, 0, 0],
     m_block = (\<lambda>i.
       if i = 0 then \<lparr>m_key = 9, m_idx = 0, m_len = 2, m_next = 1, m_lru_pre = 3, m_lru_next = 1, m_uptime = 100\<rparr>
       else if i = 1 then \<lparr>m_key = 9, m_idx = 1, m_len = 1, m_next = 2, m_lru_pre = 0, m_lru_next = 2, m_uptime = 100\<rparr>
       else if i = 2 then \<lparr>m_key = 65545, m_idx = 2, m_len = 1, m_next = -1, m_lru_pre = 1, m_lru_next = 3, m_uptime = 100\<rparr>
       else \<lparr>m_key = 0, m_idx = i, m_len = 0, m_next = -1, m_lru_pre = 2, m_lru_next = 0, m_uptime = 0\<rparr>),
     m_hash = (\<lambda>k. if k = 9 then \<lparr>h_len = 3, h_head = 0\<rparr> else \<lparr>h_len = 0, h_head = -1\<rparr>),
     m_lru_head = 3, m_lru_tail = 2, m_op_time = 1\<rparr>"

lemma full_example_blocks: "blocks full_example = {0, 1, 2, 3}"
  by (auto simp: blocks_def full_example_def)

lemma full_example_inv: "cache_inv full_example ((\<lambda>_. [])(9 := [0, 1, 2])) [3, 0, 1, 2]"
proof -
  let ?c = full_example and ?B = "(\<lambda>_. [])(9 := [0, 1, 2])"
  have "shape_ok ?c" by (simp add: shape_ok_def full_example_blocks) (simp add: full_example_def)
  moreover have "bucket_ok ?c k (?B k)" for k
    unfolding bucket_ok_def full_example_blocks
    by (cases "k = 9") (auto simp: full_example_def hash_key_def HASH_MASK_def)
  moreover have "order_ok ?c [3, 0, 1, 2]"
    unfolding order_ok_def full_example_blocks lru_list_def cyc_def by (auto simp: full_example_def)
  moreover have "entry_ok ?c" "free_ok ?c"
    unfolding entry_ok_def free_ok_def full_example_blocks by (auto simp: full_example_def)
  ultimately show ?thesis by (simp add: cache_inv_def)
qed

lemma cache_example_fields:
  "m_block_num cache_example = 4" "m_block_size cache_example = 2" "m_timeout cache_example = 60" "capacity cache_example = 8"
  by (simp_all add: cache_example_def Init_def capacity_def Let_def)

section \<open>Counting\<close>

fun changes :: "'a \<Rightarrow> 'a list \<Rightarrow> nat" where
  "changes p [] = 0"
| "changes p (x # xs) = (if p \<noteq> x then Suc (changes x xs) else changes x xs)"

lemma changes_card: "sorted (p # xs) \<Longrightarrow> changes p xs = card (set xs - {p})" for p :: "'a::linorder"
proof (induction xs arbitrary: p)
  case (Cons x xs)
  then have IH: "changes x xs = card (set xs - {x})" by simp
  show ?case
  proof (cases "p = x")
    case True
    then show ?thesis using IH by (simp add: insert_Diff_if)
  next
    case False
    then have "p \<notin> set (x # xs)" using Cons.prems by auto
    then have "set (x # xs) - {p} = insert x (set xs - {x})" by auto
    moreover have "card (insert x (set xs - {x})) = Suc (card (set xs - {x}))" by (rule card_insert_disjoint) auto
    ultimately have "card (set (x # xs) - {p}) = Suc (card (set xs - {x}))" by argo
    then show ?thesis using IH False by simp
  qed
qed simp

lemma GetStat_chain_ok:
  assumes "chain (nx c) cur X"
  shows "GetStat_chain c cur pre st =
    Some (st\<lparr>s_use_size := s_use_size st + sum_list (map (\<lambda>i. m_len (m_block c i)) X),
             s_has_key := s_has_key st + of_nat (changes pre (map (ky c) X))\<rparr>)"
  using assms
proof (induction X arbitrary: cur pre st)
  case Nil
  then show ?case by (simp add: GetStat_chain.simps)
next
  case (Cons x X)
  then have "cur = x" "x \<noteq> -1" "chain (nx c) (nx c x) X" by auto
  then show ?case using Cons.IH by (auto simp: GetStat_chain.simps [of c x] add.assoc)
qed

definition used :: "shm_cache \<Rightarrow> int set" where
  "used c = {i \<in> blocks c. ky c i \<noteq> 0}"

lemma GetStat_from_ok:
  assumes "cache_inv c B lru" and "\<forall>k \<in> set ks. k < HASH_MASK"
  shows "GetStat_from ks c st = Some (st\<lparr>
    s_use_block := s_use_block st + sum_list (map (\<lambda>k. of_nat (length (B k))) ks),
    s_use_size := s_use_size st + sum_list (map (\<lambda>k. \<Sum>i\<leftarrow>B k. m_len (m_block c i)) ks),
    s_has_key := s_has_key st + sum_list (map (\<lambda>k. of_nat (card (ky c ` set (B k)))) ks)\<rparr>)"
  using assms(2)
proof (induction ks arbitrary: st)
  case (Cons k ks)
  have bk: "bucket_ok c k (B k)" using inv_bucket [OF assms(1)] Cons.prems by simp
  have IH: "GetStat_from ks c st = Some (st\<lparr>
    s_use_block := s_use_block st + sum_list (map (\<lambda>k. of_nat (length (B k))) ks),
    s_use_size := s_use_size st + sum_list (map (\<lambda>k. \<Sum>i\<leftarrow>B k. m_len (m_block c i)) ks),
    s_has_key := s_has_key st + sum_list (map (\<lambda>k. of_nat (card (ky c ` set (B k)))) ks)\<rparr>)" for st
    using Cons by simp
  have ch: "chain (nx c) (h_head (m_hash c k)) (B k)" and hl: "h_len (m_hash c k) = of_nat (length (B k))"
    and srt: "sorted (map (ky c) (B k))" and nz: "0 \<notin> ky c ` set (B k)" and sub: "set (B k) \<subseteq> blocks c" and dist: "distinct (B k)"
    using bk by (auto simp: bucket_ok_def)
  show ?case
  proof (cases "h_len (m_hash c k) = 0")
    case True
    have "length (B k) = card (set (B k))" using dist by (simp add: distinct_card)
    also have "\<dots> \<le> card (blocks c)" using sub by (intro card_mono) (simp_all add: blocks_def)
    also have "\<dots> < 2 ^ 32" using unsigned_less [of "m_block_num c", where ?'a = nat] by (simp add: blocks_def)
    finally have "length (B k) = 0"
      using True hl unat_of_nat_small [of "length (B k)"] by simp
    then show ?thesis using True IH by simp
  next
    case False
    have "sorted (0 # map (ky c) (B k))" using srt by simp
    then have "changes 0 (map (ky c) (B k)) = card (ky c ` set (B k))"
      using nz by (simp only: changes_card) simp
    then show ?thesis using False IH hl by (simp add: GetStat_chain_ok [OF ch] add.assoc)
  qed
qed simp

lemma used_union:
  assumes "cache_inv c B lru"
  shows "used c = (\<Union>k<HASH_MASK. set (B k))"
proof -
  have "set (B k) = {i \<in> blocks c. ky c i \<noteq> 0 \<and> hash_key (ky c i) = k}" if "k < HASH_MASK" for k
    using inv_bucket [OF assms that] by (simp add: bucket_ok_def)
  then show ?thesis by (auto simp: used_def)
qed

lemma bucket_facts:
  assumes "cache_inv c B lru" and "k < HASH_MASK"
  shows "distinct (B k)" and "x \<in> set (B k) \<Longrightarrow> hash_key (ky c x) = k"
  using inv_bucket [OF assms] by (auto simp: bucket_ok_def)

lemma stat_sums:
  assumes inv: "cache_inv c B lru"
  shows "sum_list (map (\<lambda>k. of_nat (length (B k))) [0..<HASH_MASK]) = (of_nat (card (used c)) :: u32)"
    and "sum_list (map (\<lambda>k. \<Sum>i\<leftarrow>B k. m_len (m_block c i)) [0..<HASH_MASK]) = (\<Sum>i\<in>used c. m_len (m_block c i))"
    and "sum_list (map (\<lambda>k. of_nat (card (ky c ` set (B k)))) [0..<HASH_MASK]) = (of_nat (card (ky c ` used c)) :: u32)"
proof -
  note b = bucket_facts [OF inv]
  have disj: "set (B k) \<inter> set (B k') = {}" "ky c ` set (B k) \<inter> ky c ` set (B k') = {}"
    if "k < HASH_MASK" "k' < HASH_MASK" "k \<noteq> k'" for k k'
    using b(2) [OF that(1)] b(2) [OF that(2)] that(3) by (blast, force)
  have l: "sum_list (map f [0..<HASH_MASK]) = (\<Sum>k<HASH_MASK. f k)" for f :: "nat \<Rightarrow> u32"
    by (simp add: interv_sum_list_conv_sum_set_nat lessThan_atLeast0)
  have "(\<Sum>k<HASH_MASK. length (B k)) = (\<Sum>k<HASH_MASK. card (set (B k)))"
    using b(1) by (intro sum.cong) (simp_all add: distinct_card)
  also have "\<dots> = card (used c)"
    unfolding used_union [OF inv] using disj(1) by (intro card_UN_disjoint [symmetric]) auto
  finally show "sum_list (map (\<lambda>k. of_nat (length (B k))) [0..<HASH_MASK]) = (of_nat (card (used c)) :: u32)"
    unfolding l by (simp flip: of_nat_sum)
  have "(\<Sum>k<HASH_MASK. \<Sum>i\<leftarrow>B k. m_len (m_block c i)) = (\<Sum>k<HASH_MASK. \<Sum>i\<in>set (B k). m_len (m_block c i))"
    using b(1) by (intro sum.cong) (simp_all add: sum_list_distinct_conv_sum_set)
  also have "\<dots> = (\<Sum>i\<in>used c. m_len (m_block c i))"
    unfolding used_union [OF inv] using disj(1) by (intro sum.UNION_disjoint [symmetric]) auto
  finally show "sum_list (map (\<lambda>k. \<Sum>i\<leftarrow>B k. m_len (m_block c i)) [0..<HASH_MASK]) = (\<Sum>i\<in>used c. m_len (m_block c i))"
    unfolding l .
  have "(\<Sum>k<HASH_MASK. card (ky c ` set (B k))) = card (ky c ` used c)"
    unfolding used_union [OF inv] image_UN using disj(2) by (intro card_UN_disjoint [symmetric]) auto
  then show "sum_list (map (\<lambda>k. of_nat (card (ky c ` set (B k)))) [0..<HASH_MASK]) = (of_nat (card (ky c ` used c)) :: u32)"
    unfolding l by (simp flip: of_nat_sum)
qed

lemma GetStat_ok:
  assumes inv: "cache_inv c B lru"
  shows "GetStat c = Some (\<lparr>s_block_num = m_block_num c, s_block_size = m_block_size c,
     s_total_size = of_nat (capacity c), s_use_size = (\<Sum>i\<in>used c. m_len (m_block c i)),
     s_use_block = of_nat (card (used c)), s_has_key = of_nat (card (ky c ` used c)),
     s_total_req = m_total_req c, s_total_hit = m_total_hit c\<rparr>, c\<lparr>m_total_req := 0, m_total_hit := 0\<rparr>)"
proof -
  have "\<forall>k \<in> set [0..<HASH_MASK]. k < HASH_MASK" by simp
  from GetStat_from_ok [OF inv this] show ?thesis
    unfolding GetStat_def Let_def stat_sums [OF inv] by (simp add: capacity_def)
qed

section \<open>Properties\<close>

text \<open>
  C2: In every state that the operations reach from a new segment (with the product of block number and
  block size below \<open>2 ^ 32\<close>), the chains, the LRU list and the block headers are consistent, and every
  operation returns: no loop runs forever, no index leaves the arrays and no assertion fails.
\<close>
theorem cache_reachable:
  assumes "reachable c"
  shows "(\<exists>B lru. cache_inv c B lru) \<and> (\<exists>r c'. Del key c = Some (r, c')) \<and>
    (\<exists>r out c'. Get key now c = Some (r, out, c')) \<and> (\<exists>c'. Check now c = Some c') \<and>
    (unat n \<le> length buf \<longrightarrow> (\<exists>r c'. Set key buf n now c = Some (r, c')))"
proof -
  obtain B lru where "cache_inv c B lru" using reachable_inv [OF assms] by blast
  then show ?thesis
    using cache_returns(1) [of c B lru key] cache_returns(2) [of c B lru key now] cache_returns(3) [of c B lru now]
      cache_returns(4) [of c B lru n buf key now] by blast
qed

theorem cache_reachable_witness: "\<exists>r c'. Set 9 [1, 2, 3] 3 100 cache_example = Some (r, c')"
  using cache_reachable [OF cache_example_reachable, of 9 100 3 "[1, 2, 3]"] by simp

text \<open>
  C8: \<open>Set\<close> of a key other than 0 keeps the cache consistent and returns \<open>ERR_OK\<close>. If the value is no longer
  than all blocks together it is then the value of the key, with the time of the call; every other entry is
  the same or has been evicted whole, and none is evicted if the free blocks and those of the old
  value have room.
\<close>
theorem cache_set:
  assumes "cache_inv c B lru" and "key \<noteq> 0" and "unat n \<le> length buf"
  shows "\<exists>c' B' lru'. Set key buf n now c = Some (ERR_OK, c') \<and> cache_inv c' B' lru' \<and> sizes_eq c c' \<and>
    (unat n \<le> capacity c \<longrightarrow> value_of c' B' key = take (unat n) buf) \<and>
    (n \<noteq> 0 \<longrightarrow> entry c' B' key \<noteq> [] \<and> uptime_of c' B' key = now) \<and> kept key c B c' B' \<and>
    (unat n \<le> (length (entry c B key) + length (free_of c lru)) * unat (m_block_size c) \<longrightarrow> kept_all key c B c' B')"
  using assms by (rule Set_ok)

theorem cache_set_witness:
  "\<exists>c' B' lru'. Set 9 [1, 2, 3] 3 100 cache_example = Some (ERR_OK, c') \<and> cache_inv c' B' lru' \<and>
    value_of c' B' 9 = [1, 2, 3] \<and> uptime_of c' B' 9 = 100"
  using cache_set [OF cache_example_inv, of 9 3 "[1, 2, 3]" 100] by (force simp: cache_example_fields)

text \<open>
  C13: \<open>Get\<close> of a key without blocks fails with \<open>ERR_KEY_NO_EXIST\<close>; of a key whose value is too old, it fails
  with \<open>ERR_KEY_TIMEOUT\<close> and deletes the key and nothing else; otherwise it returns the whole value and
  moves the blocks of the key to the end of the LRU list, in their order.
\<close>
theorem cache_get:
  assumes "cache_inv c B lru"
  shows "if entry c B key = []
    then \<exists>c'. Get key now c = Some (ERR_KEY_NO_EXIST, [], c') \<and> cache_inv c' B lru \<and> same_blocks c c'
    else if expired c B key now
    then \<exists>c' B' lru'. Get key now c = Some (ERR_KEY_TIMEOUT, [], c') \<and> cache_inv c' B' lru' \<and> sizes_eq c c' \<and>
           entry c' B' key = [] \<and> kept_all key c B c' B'
    else \<exists>c'. Get key now c = Some (ERR_OK, value_of c B key, c') \<and> cache_inv c' B (touched (entry c B key) lru) \<and>
           same_blocks c c'"
  using assms by (rule Get_ok)

theorem cache_get_witness: "\<exists>c'. Get 9 100 cache_example = Some (ERR_KEY_NO_EXIST, [], c')"
  using cache_get [OF cache_example_inv, of 9 100] by (auto simp: entry_def)

text \<open>
  C3: What \<open>Set\<close> stores, \<open>Get\<close> returns, as long as it is not empty, fits the cache and is not too old.
\<close>
theorem cache_set_get:
  assumes "cache_inv c B lru" and "key \<noteq> 0" and "0 < unat n" and "unat n \<le> length buf" and "unat n \<le> capacity c"
    and "later - now \<le> int (unat (m_timeout c))"
  shows "\<exists>c' c''. Set key buf n now c = Some (ERR_OK, c') \<and> Get key later c' = Some (ERR_OK, take (unat n) buf, c'')"
proof -
  obtain c' B' lru' where s: "Set key buf n now c = Some (ERR_OK, c')" "cache_inv c' B' lru'" "sizes_eq c c'"
    "value_of c' B' key = take (unat n) buf" "entry c' B' key \<noteq> []" "uptime_of c' B' key = now"
    using Set_ok [OF assms(1,2,4), of now] assms(3,5) by (auto simp: unat_gt_0)
  have "\<not> expired c' B' key later" using s(3,6) assms(6) by (simp add: expired_def sizes_eq_def)
  then show ?thesis using s Get_ok [OF s(2), of key later] by auto
qed

theorem cache_set_get_witness:
  "\<exists>c' c''. Set 9 [1, 2, 3] 3 100 cache_example = Some (ERR_OK, c') \<and> Get 9 160 c' = Some (ERR_OK, [1, 2, 3], c'')"
  using cache_set_get [OF cache_example_inv, of 9 3 "[1, 2, 3]" 160 100] by (simp add: cache_example_fields)

text \<open>
  \<open>Check\<close> returns, keeps the cache consistent and removes no entry that is not too old.
\<close>
theorem cache_check:
  assumes "cache_inv c B lru"
  shows "\<exists>c' B' lru'. Check now c = Some c' \<and> cache_inv c' B' lru' \<and> swept now c B c' B'"
  using assms by (rule Check_ok)

theorem cache_check_witness: "\<exists>c' B' lru'. Check 100 cache_example = Some c' \<and> cache_inv c' B' lru'"
  using cache_check [OF cache_example_inv, of 100] by blast

text \<open>
  When the first key of a bucket is too old and has more than one block, \<open>Check\<close> deletes this key and
  nothing else in the bucket, however old the rest is: it has gone to the next block before the
  deletion, which frees that block as well and cuts it off from the chain.
\<close>
theorem cache_check_stops:
  assumes "cache_inv c B lru" and "k < HASH_MASK" and "B k = x # y # X" and "ky c y = ky c x"
    and "now - m_uptime (m_block c x) > int (unat (m_timeout c))"
  shows "\<exists>c' B' lru'. Check_bucket now (h_head (m_hash c k)) c = Some c' \<and> cache_inv c' B' lru' \<and>
    kept_all (ky c x) c B c' B'"
  using assms by (rule Check_bucket_stops)

theorem cache_check_stops_witness:
  "\<exists>c' B' lru'. Check_bucket 1000 (h_head (m_hash full_example 9)) full_example = Some c' \<and> cache_inv c' B' lru' \<and>
    value_of c' B' 65545 = [4]"
proof -
  let ?B = "(\<lambda>_. [])(9 := [0, 1, 2])"
  have v: "value_of full_example ?B 65545 = [4]"
    by (simp add: value_of_def entry_def hash_key_def HASH_MASK_def piece_def full_example_def)
  have k: "9 < HASH_MASK" by (simp add: HASH_MASK_def)
  have f: "ky full_example 0 = 9" "ky full_example 1 = 9" "m_uptime (m_block full_example 0) = 100" "m_timeout full_example = 60"
    by (simp_all add: full_example_def)
  obtain c' B' lru' where c': "Check_bucket 1000 (h_head (m_hash full_example 9)) full_example = Some c'" "cache_inv c' B' lru'"
    "kept_all 9 full_example ?B c' B'"
    using cache_check_stops [OF full_example_inv k, of 0 1 "[2]" 1000] f by auto
  have "same_entry 65545 full_example ?B c' B'" using c'(3) by (simp add: kept_all_def)
  then show ?thesis using c'(1,2) v by (auto simp: same_entry_def)
qed

text \<open>
  \<open>GetStat\<close> counts the used blocks, the bytes they hold and the different keys, and resets the
  two counters.
\<close>
theorem cache_stat:
  assumes "cache_inv c B lru"
  shows "GetStat c = Some (\<lparr>s_block_num = m_block_num c, s_block_size = m_block_size c,
     s_total_size = of_nat (capacity c), s_use_size = (\<Sum>i\<in>used c. m_len (m_block c i)),
     s_use_block = of_nat (card (used c)), s_has_key = of_nat (card (ky c ` used c)),
     s_total_req = m_total_req c, s_total_hit = m_total_hit c\<rparr>, c\<lparr>m_total_req := 0, m_total_hit := 0\<rparr>)"
  using assms by (rule GetStat_ok)

theorem cache_stat_witness:
  "\<exists>st c'. GetStat full_example = Some (st, c') \<and> s_use_block st = 3 \<and> s_use_size st = 4 \<and> s_has_key st = 2"
proof -
  have u: "used full_example = {0, 1, 2}" unfolding used_def full_example_blocks by (auto simp: full_example_def)
  have "ky full_example ` {0, 1, 2} = {9, 65545}" by (simp add: full_example_def)
  then have "card (ky full_example ` {0, 1, 2}) = 2" by simp
  then show ?thesis using cache_stat [OF full_example_inv] unfolding u by (simp add: full_example_def)
qed

end
