(* ===== verification/Wildcard.thy ===== *)
theory Wildcard
  imports CString
begin

text \<open>
  \<open>utils/string.cpp\<close>, third part: \<open>MatchWildcard\<close>, \<open>_MatchRemainder\<close> and \<open>_MatchSet\<close>, with the
  meaning of a pattern as an inductive relation. An iterator is the rest of the string from its
  position on. \<open>None\<close> stands for undefined behaviour: \<open>_MatchSet\<close> erases the last character of an
  empty string, or loops for ever on a range that ends with the largest \<open>char\<close>.
\<close>

definition char_range :: "char \<Rightarrow> char \<Rightarrow> char list" where
  \<comment> \<open>\<open>for (char ch = a; ch <= b; ch++)\<close> on signed characters, for \<open>b\<close> below the largest\<close>
  "char_range a b = map (\<lambda>i. chr (nat (i mod 256))) [schar a .. schar b]"

function match_set_loop :: "string \<Rightarrow> nat \<Rightarrow> string \<Rightarrow> string option option" where
  \<comment> \<open>the loop over the pattern from position \<open>i\<close>; \<open>Some None\<close> is the \<open>return false\<close> in it, otherwise
      the value is \<open>strRealCharSet\<close>\<close>
  "match_set_loop pat i real =
     (if i \<ge> length pat then Some (Some real)
      else if pat ! i = CHR ''-'' then
        (if i = 0 then match_set_loop pat (i + 1) (real @ [pat ! i])
         else if i + 1 = length pat then Some None
         else if real = [] \<or> pat ! (i + 1) = chr 127 then None
         else match_set_loop pat (i + 2) (butlast real @ char_range (pat ! (i - 1)) (pat ! (i + 1))))
      else if pat ! i = CHR 0x5C then
        (if i + 1 = length pat then Some None
         else match_set_loop pat (i + 2) (real @ [pat ! (i + 1)]))
      else match_set_loop pat (i + 1) (real @ [pat ! i]))"
  by auto
termination by (relation "measure (\<lambda>(pat, i, _). length pat - i)") auto

declare match_set_loop.simps [simp del]

definition MatchSet :: "string \<Rightarrow> char \<Rightarrow> bool option" where
  "MatchSet strPattern strMatch =
     (case match_set_loop strPattern 0 [] of
        None \<Rightarrow> None
      | Some None \<Rightarrow> Some False
      | Some (Some strRealCharSet) \<Rightarrow> Some (find_sub [strMatch] strRealCharSet \<noteq> None))"

fun find_close :: "string \<Rightarrow> string \<Rightarrow> (string \<times> string) option" where
  \<comment> \<open>the search for the closing bracket: the set in between and the rest; \<open>None\<close> if there is none or
      a backslash ends the pattern\<close>
  "find_close acc [] = None"
| "find_close acc (c # w) =
     (if c = CHR '']'' then Some (acc, w)
      else if c = CHR 0x5C then (case w of [] \<Rightarrow> None | d # w' \<Rightarrow> find_close (acc @ [c, d]) w')
      else find_close (acc @ [c]) w)"

lemma find_close_length: "find_close acc w = Some (s, r) \<Longrightarrow> length r < length w"
  by (induction acc w rule: find_close.induct) (auto split: if_splits list.splits)

function match_remainder :: "string \<Rightarrow> string \<Rightarrow> bool option"
  and match_star :: "string \<Rightarrow> string \<Rightarrow> bool option" where
  "match_remainder w m =
     (if w = [] \<or> m = [] then Some (w = [] \<and> m = [])
      else if hd w = CHR ''*'' then match_star (tl w) (tl m)
      else if hd w = CHR ''['' then
        (case find_close [] (tl w) of
           None \<Rightarrow> Some False
         | Some (s, r) \<Rightarrow> (case MatchSet s (hd m) of
               None \<Rightarrow> None
             | Some b \<Rightarrow> if \<not> b then Some False else match_remainder r (tl m)))
      else if hd w = CHR ''?'' then match_remainder (tl w) (tl m)
      else if hd w = CHR 0x5C then
        (if tl w = [] then Some False
         else if hd (tl w) \<noteq> hd m then Some False else match_remainder (tl (tl w)) (tl m))
      else if hd w \<noteq> hd m then Some False else match_remainder (tl w) (tl m))"
| "match_star w m =
     \<comment> \<open>the loop over the positions after a star\<close>
     (if m = [] then Some False
      else if w = [] then (if tl m = [] then Some True else match_star w (tl m))
      else (case match_remainder w m of
              None \<Rightarrow> None
            | Some b \<Rightarrow> if b then Some True else match_star w (tl m)))"
  by pat_completeness auto
termination
  by (relation "measures [\<lambda>x. case x of Inl (w, m) \<Rightarrow> length w | Inr (w, m) \<Rightarrow> length w,
      \<lambda>x. case x of Inl (w, m) \<Rightarrow> 2 * length m | Inr (w, m) \<Rightarrow> 2 * length m + 1]")
    (auto dest: find_close_length simp: neq_Nil_conv)

declare match_remainder.simps [simp del] match_star.simps [simp del]

definition MatchWildcard :: "string \<Rightarrow> string \<Rightarrow> bool option" where
  "MatchWildcard strWild strMatch = match_remainder strWild strMatch"

section \<open>The meaning of a pattern\<close>

inductive set_items :: "string \<Rightarrow> char set \<Rightarrow> bool"
  and set_after :: "char \<Rightarrow> string \<Rightarrow> char set \<Rightarrow> bool" where
  \<comment> \<open>the text between the brackets stands for the set; \<open>set_after c s X\<close>: \<open>s\<close> behind the character \<open>c\<close>, which \<open>X\<close> contains unless
      \<open>c\<close> begins an empty range. A range may begin with the end of the one before.\<close>
  items_end: "set_items [] {}"
| items_char: "c \<notin> {CHR ''-'', CHR 0x5C} \<Longrightarrow> set_after c s X \<Longrightarrow> set_items (c # s) X"
| items_quoted: "set_after c s X \<Longrightarrow> set_items (CHR 0x5C # c # s) X"
| after_single: "set_items s X \<Longrightarrow> set_after c s (insert c X)"
| after_range: "set_items s X \<Longrightarrow> set_after a (CHR ''-'' # b # s) ({c. schar a \<le> schar c \<and> schar c \<le> schar b} \<union> X)"
| after_chain: "schar a \<le> schar b \<Longrightarrow> set_after b (CHR ''-'' # s) X \<Longrightarrow>
    set_after a (CHR ''-'' # b # CHR ''-'' # s) ({c. schar a \<le> schar c \<and> schar c < schar b} \<union> X)"

definition set_means :: "string \<Rightarrow> char set \<Rightarrow> bool" where
  \<comment> \<open>a leading minus stands for itself\<close>
  "set_means s X \<longleftrightarrow> (if s \<noteq> [] \<and> hd s = CHR ''-'' then set_after (CHR ''-'') (tl s) X else set_items s X)"

inductive set_text :: "string \<Rightarrow> bool" where
  \<comment> \<open>no bracket closes the set but a quoted one\<close>
  text_end: "set_text []"
| text_char: "c \<notin> {CHR '']'', CHR 0x5C} \<Longrightarrow> set_text s \<Longrightarrow> set_text (c # s)"
| text_quoted: "set_text s \<Longrightarrow> set_text (CHR 0x5C # c # s)"

inductive wild :: "string \<Rightarrow> string \<Rightarrow> bool" where
  wild_end: "wild [] []"
| wild_any: "wild w m \<Longrightarrow> wild (CHR ''?'' # w) (c # m)"
| wild_quoted: "wild w m \<Longrightarrow> wild (CHR 0x5C # c # w) (c # m)"
| wild_plain: "c \<notin> {CHR ''*'', CHR ''['', CHR ''?'', CHR 0x5C} \<Longrightarrow> wild w m \<Longrightarrow> wild (c # w) (c # m)"
| wild_set: "set_text s \<Longrightarrow> set_means s X \<Longrightarrow> c \<in> X \<Longrightarrow> wild r m \<Longrightarrow> wild (CHR ''['' # s @ CHR '']'' # r) (c # m)"
| wild_star: "w \<noteq> [] \<Longrightarrow> u \<noteq> [] \<Longrightarrow> wild w m \<Longrightarrow> wild (CHR ''*'' # w) (u @ m)"
| wild_last_star: "length u \<ge> 2 \<Longrightarrow> wild [CHR ''*''] u"

inductive_simps set_items_simps: "set_items [] X" "set_items (c # s) X"
inductive_simps set_after_iff: "set_after c s X"
inductive_simps set_text_simps: "set_text []" "set_text (c # s)"

section \<open>Sets of characters\<close>

lemma set_items_minus [simp]: "\<not> set_items (CHR ''-'' # s) X"
  by (simp add: set_items_simps)

lemma set_after_simps:
  "set_after c [] X \<longleftrightarrow> X = {c}"
  "d \<noteq> CHR ''-'' \<Longrightarrow> set_after c (d # s) X \<longleftrightarrow> (\<exists>Y. set_items (d # s) Y \<and> X = {c} \<union> Y)"
  "\<not> set_after c [CHR ''-''] X"
  "s = [] \<or> hd s \<noteq> CHR ''-'' \<Longrightarrow> set_after a (CHR ''-'' # b # s) X \<longleftrightarrow>
     (\<exists>Y. set_items s Y \<and> X = {c. schar a \<le> schar c \<and> schar c \<le> schar b} \<union> Y)"
  "schar a \<le> schar b \<Longrightarrow> set_after a (CHR ''-'' # b # CHR ''-'' # s) X \<longleftrightarrow>
     (\<exists>Y. set_after b (CHR ''-'' # s) Y \<and> X = {c. schar a \<le> schar c \<and> schar c < schar b} \<union> Y)"
  by (subst set_after_iff, force simp: set_items_simps(1))+

text \<open>A chain of ranges has no empty range but the last one: on \<open>z-a-c\<close> \<open>_MatchSet\<close> erases a character of something else.\<close>

definition chains_rise :: "string \<Rightarrow> bool" where
  "chains_rise w \<longleftrightarrow> (\<forall>u x y v. w = u @ [x, CHR ''-'', y, CHR ''-''] @ v \<longrightarrow> schar x \<le> schar y)"

lemma chains_rise_nth:
  "list_all (\<lambda>i. w ! (i + 1) = CHR ''-'' \<and> w ! (i + 3) = CHR ''-'' \<longrightarrow> schar (w ! i) \<le> schar (w ! (i + 2))) [0..<length w - 3] \<Longrightarrow> chains_rise w"
  unfolding chains_rise_def
proof (intro allI impI)
  fix u x y v
  assume a: "list_all (\<lambda>i. w ! (i + 1) = CHR ''-'' \<and> w ! (i + 3) = CHR ''-'' \<longrightarrow> schar (w ! i) \<le> schar (w ! (i + 2))) [0..<length w - 3]"
    and w: "w = u @ [x, CHR ''-'', y, CHR ''-''] @ v"
  have "length u \<in> set [0..<length w - 3]" by (simp add: w)
  then have "w ! (length u + 1) = CHR ''-'' \<and> w ! (length u + 3) = CHR ''-'' \<longrightarrow> schar (w ! length u) \<le> schar (w ! (length u + 2))"
    using a unfolding list_all_iff by blast
  then show "schar x \<le> schar y" by (simp add: w nth_append)
qed

lemma chains_rise_sublist: "chains_rise w \<Longrightarrow> sublist v w \<Longrightarrow> chains_rise v"
  unfolding chains_rise_def sublist_def by (metis append.assoc)

lemma schar_range: "- 128 \<le> schar c" "schar c \<le> 127"
  using uchar_less [of c] by (simp_all add: schar_def del: uchar_less)

lemma schar_eq [simp]: "schar c = schar d \<longleftrightarrow> c = d"
proof
  assume "schar c = schar d"
  then have "uchar c = uchar d" using uchar_less [of c] uchar_less [of d] by (simp add: schar_def del: uchar_less split: if_splits)
  then show "c = d" by simp
qed simp

lemma chr_schar: "chr (nat (schar c mod 256)) = c"
proof -
  have "nat (schar c mod 256) = uchar c" using uchar_less [of c] by (auto simp: schar_def)
  then show ?thesis by simp
qed

lemma schar_chr: "- 128 \<le> i \<Longrightarrow> i \<le> 127 \<Longrightarrow> schar (chr (nat (i mod 256))) = i"
proof -
  assume i: "- 128 \<le> i" "i \<le> 127"
  have "i mod 256 = (if i < 0 then i + 256 else i)" using i mod_pos_pos_trivial [of i 256] mod_pos_pos_trivial [of "i + 256" 256] by auto
  then show ?thesis using i by (auto simp: schar_def uchar_chr nat_less_iff)
qed

lemma range_image: "- 128 \<le> i \<Longrightarrow> j \<le> 127 \<Longrightarrow> (\<lambda>i. chr (nat (i mod 256))) ` {i..j} = {c. i \<le> schar c \<and> schar c \<le> j}"
proof (intro equalityI subsetI)
  fix c assume "c \<in> {c. i \<le> schar c \<and> schar c \<le> j}"
  then show "c \<in> (\<lambda>i. chr (nat (i mod 256))) ` {i..j}" using chr_schar [of c] by (intro image_eqI [of _ _ "schar c"]) auto
qed (auto simp: schar_chr)

lemma set_char_range: "set (char_range a b) = {c. schar a \<le> schar c \<and> schar c \<le> schar b}"
  using range_image [OF schar_range(1) schar_range(2), of a b] by (simp add: char_range_def)

lemma char_range_snoc:
  assumes "schar a \<le> schar b"
  shows "\<exists>r. char_range a b = r @ [b] \<and> set r = {c. schar a \<le> schar c \<and> schar c < schar b}"
proof -
  define r where "r = map (\<lambda>i. chr (nat (i mod 256))) [schar a .. schar b - 1]"
  have "char_range a b = r @ [b]" using assms upto_rec2 [of "schar a" "schar b"] by (simp add: char_range_def r_def chr_schar)
  moreover have "set r = {c. schar a \<le> schar c \<and> schar c \<le> schar b - 1}"
    using range_image [of "schar a" "schar b - 1"] schar_range [of a] schar_range [of b] by (simp add: r_def)
  ultimately show ?thesis by (intro exI [of _ r]) auto
qed

definition settles :: "(char set \<Rightarrow> bool) \<Rightarrow> char set \<Rightarrow> string option \<Rightarrow> bool" where
  \<comment> \<open>what \<open>_MatchSet\<close> collects besides \<open>A\<close> is the only set that has the property\<close>
  "settles P A v \<longleftrightarrow> (case v of None \<Rightarrow> \<forall>X. \<not> P X | Some real \<Rightarrow> \<exists>Y. (\<forall>X. P X \<longleftrightarrow> X = Y) \<and> set real = A \<union> Y)"

lemma settles_step:
  assumes "settles P A v" and Q: "\<And>X. Q X \<longleftrightarrow> (\<exists>Y. P Y \<and> X = B \<union> Y)" and "A = A' \<union> B"
  shows "settles Q A' v"
proof (cases v)
  case None
  then show ?thesis using assms(1) by (simp add: settles_def Q)
next
  case (Some real)
  then obtain Y where Y: "\<And>X. P X \<longleftrightarrow> X = Y" "set real = A \<union> Y" using assms(1) by (auto simp: settles_def)
  then have "\<forall>X. Q X \<longleftrightarrow> X = B \<union> Y" by (simp add: Q)
  moreover have "set real = A' \<union> (B \<union> Y)" using Y(2) assms(3) by (simp add: Un_assoc)
  ultimately show ?thesis using Some unfolding settles_def by auto
qed

lemma set_loop_means:
  assumes "chains_rise pat"
  shows "i \<le> length pat \<Longrightarrow> match_set_loop pat i real = Some v \<Longrightarrow>
      (i = length pat \<or> pat ! i \<noteq> CHR ''-'' \<longrightarrow> settles (set_items (drop i pat)) (set real) v) \<and>
      (\<forall>r. 0 < i \<and> real = r @ [pat ! (i - 1)] \<longrightarrow> settles (set_after (pat ! (i - 1)) (drop i pat)) (set r) v)"
proof (induction "length pat - i" arbitrary: i real v rule: less_induct)
  case less
  note IH = less.hyps
  define s where "s = drop i pat"
  show ?case
  proof (cases "i = length pat")
    case True
    then have "v = Some real" using less.prems by (simp add: match_set_loop.simps)
    then show ?thesis using True by (auto simp: settles_def set_items_simps(1) set_after_simps(1))
  next
    case False
    then have i: "i < length pat" using less.prems by simp
    then have d: "drop i pat = pat ! i # drop (i + 1) pat" by (simp add: Cons_nth_drop_Suc)
    consider (minus) "pat ! i = CHR ''-''" | (quote) "pat ! i = CHR 0x5C" | (plain) "pat ! i \<notin> {CHR ''-'', CHR 0x5C}" by blast
    then show ?thesis
    proof cases
      case minus
      let ?a = "pat ! (i - 1)"
      have "settles (set_after ?a (drop i pat)) (set r) v" if pos: "0 < i" and r: "real = r @ [?a]" for r
      proof (cases "i + 1 = length pat")
        case True
        then have "v = None" using less.prems(2) i minus pos by (simp add: match_set_loop.simps [of pat i])
        then show ?thesis using True minus by (simp add: settles_def d set_after_simps)
      next
        case False
        let ?b = "pat ! (i + 1)"
        have i1: "i + 1 < length pat" using i False by simp
        then have d1: "drop i pat = CHR ''-'' # ?b # drop (i + 2) pat" using d minus by (simp add: Cons_nth_drop_Suc)
        have m: "match_set_loop pat (i + 2) (r @ char_range ?a ?b) = Some v"
          using less.prems(2) i i1 minus pos r by (simp add: match_set_loop.simps [of pat i] split: if_splits)
        note ih = IH [of "i + 2" "r @ char_range ?a ?b" v]
        show ?thesis
        proof (cases "i + 2 = length pat \<or> pat ! (i + 2) \<noteq> CHR ''-''")
          case True
          then have st: "settles (set_items (drop (i + 2) pat)) (set (r @ char_range ?a ?b)) v" using ih m i1 by simp
          have "drop (i + 2) pat = [] \<or> hd (drop (i + 2) pat) \<noteq> CHR ''-''" using True i1 by (auto simp: hd_drop_conv_nth)
          then show ?thesis unfolding d1
            by (intro settles_step [OF st, of _ "{c. schar ?a \<le> schar c \<and> schar c \<le> schar ?b}"]) (simp_all add: set_after_simps set_char_range)
        next
          case False
          then have i2: "i + 2 < length pat" "pat ! (i + 2) = CHR ''-''" using i1 by auto
          then have d2: "drop (i + 2) pat = CHR ''-'' # drop (i + 3) pat" using Cons_nth_drop_Suc [OF i2(1)] by (simp add: eval_nat_numeral)
          have "pat = take (i - 1) pat @ drop (i - 1) pat" by simp
          also have "drop (i - 1) pat = ?a # drop i pat" using pos i by (metis Cons_nth_drop_Suc Suc_diff_1 less_imp_diff_less)
          also have "?a # drop i pat = [?a, CHR ''-'', ?b, CHR ''-''] @ drop (i + 3) pat" unfolding d1 d2 by simp
          finally have "pat = take (i - 1) pat @ [?a, CHR ''-'', ?b, CHR ''-''] @ drop (i + 3) pat" .
          then have le: "schar ?a \<le> schar ?b" using assms unfolding chains_rise_def by blast
          then obtain r' where r': "char_range ?a ?b = r' @ [?b]" "set r' = {c. schar ?a \<le> schar c \<and> schar c < schar ?b}"
            using char_range_snoc by blast
          have st: "settles (set_after ?b (drop (i + 2) pat)) (set (r @ r')) v"
            using ih [unfolded r'(1)] m [unfolded r'(1)] i2 by simp
          show ?thesis unfolding d1 d2
            by (rule settles_step [OF st [unfolded d2] set_after_simps(5) [OF le]]) (simp add: r'(2))
        qed
      qed
      then show ?thesis using minus i by simp
    next
      case quote
      show ?thesis
      proof (cases "i + 1 = length pat")
        case True
        then have "v = None" "drop i pat = [CHR 0x5C]" using less.prems(2) i quote d by (simp_all add: match_set_loop.simps [of pat i])
        then show ?thesis by (simp add: settles_def set_items_simps set_after_simps)
      next
        case False
        let ?b = "pat ! (i + 1)"
        have i1: "i + 1 < length pat" using i False by simp
        then have d1: "drop i pat = CHR 0x5C # ?b # drop (i + 2) pat" using d quote by (simp add: Cons_nth_drop_Suc)
        have "match_set_loop pat (i + 2) (real @ [?b]) = Some v"
          using less.prems(2) i i1 quote by (simp add: match_set_loop.simps [of pat i])
        then have st: "settles (set_after ?b (drop (i + 2) pat)) (set real) v" using IH [of "i + 2" "real @ [?b]" v] i1 by simp
        have items: "settles (set_items (drop i pat)) (set real) v"
          by (rule settles_step [OF st, of _ "{}"]) (simp_all add: d1 set_items_simps)
        moreover have "settles (set_after (pat ! (i - 1)) (drop i pat)) (set r) v" if r: "real = r @ [pat ! (i - 1)]" for r
          by (rule settles_step [OF items, of _ "{pat ! (i - 1)}"]) (simp_all add: r d1 set_after_simps)
        ultimately show ?thesis by blast
      qed
    next
      case plain
      have m: "match_set_loop pat (i + 1) (real @ [pat ! i]) = Some v" 
        using less.prems(2) i plain by (simp add: match_set_loop.simps [of pat i])
      then have st: "settles (set_after (pat ! i) (drop (i + 1) pat)) (set real) v"
        using IH [of "i + 1"] i by simp
      have items: "settles (set_items (drop i pat)) (set real) v"
        by (rule settles_step [OF st, of _ "{}"]) (use plain in \<open>simp_all add: d set_items_simps\<close>)
      moreover have "settles (set_after (pat ! (i - 1)) (drop i pat)) (set r) v" if r: "real = r @ [pat ! (i - 1)]" for r
        by (rule settles_step [OF items, of _ "{pat ! (i - 1)}"]) (use plain in \<open>simp_all add: r d set_after_simps\<close>)
      ultimately show ?thesis by blast
    qed
  qed
qed

lemma MatchSet_means:
  assumes "chains_rise s" and "MatchSet s c = Some b"
  shows "b \<longleftrightarrow> (\<exists>X. set_means s X \<and> c \<in> X)"
proof -
  obtain v where v: "match_set_loop s 0 [] = Some v" using assms(2) by (auto simp: MatchSet_def split: option.splits)
  have f: "find_sub [c] xs \<noteq> None \<longleftrightarrow> c \<in> set xs" for xs by (induction xs) auto
  have b: "b \<longleftrightarrow> (case v of None \<Rightarrow> False | Some real \<Rightarrow> c \<in> set real)"
    using assms(2) v f by (auto simp: MatchSet_def split: option.splits)
  have "settles (set_means s) {} v"
  proof (cases "s \<noteq> [] \<and> hd s = CHR ''-''")
    case True
    then have s0: "s ! 0 = CHR ''-''" "s \<noteq> []" by (auto simp: hd_conv_nth)
    then have m: "match_set_loop s 1 [CHR ''-''] = Some v" using v by (simp add: match_set_loop.simps [of s 0])
    have "1 \<le> length s" using True by (cases s) auto
    then have "settles (set_after (s ! 0) (drop 1 s)) (set []) v"
      using set_loop_means [OF assms(1) _ m] s0 by simp
    then show ?thesis using True s0(1) by (simp add: set_means_def [abs_def] drop_Suc)
  next
    case False
    then have "0 = length s \<or> s ! 0 \<noteq> CHR ''-''" by (cases s) auto
    then have "settles (set_items s) {} v" using set_loop_means [OF assms(1) _ v] by simp
    moreover have "set_means s = set_items s" using False by (auto simp: set_means_def)
    ultimately show ?thesis by simp
  qed
  then show ?thesis unfolding b settles_def by (cases v) auto
qed

lemma find_close_text:
  "find_close acc w = Some (s, r) \<longleftrightarrow> (\<exists>t. s = acc @ t \<and> w = t @ CHR '']'' # r \<and> set_text t)"
proof (induction acc w rule: find_close.induct)
  case (2 acc c w)
  consider (close) "c = CHR '']''" | (quote) "c = CHR 0x5C" | (plain) "c \<notin> {CHR '']'', CHR 0x5C}" by blast
  then show ?case
  proof cases
    case close
    then show ?thesis by (auto simp: Cons_eq_append_conv set_text_simps)
  next
    case quote
    show ?thesis
    proof (cases w)
      case Nil
      then show ?thesis using quote by (auto simp: Cons_eq_append_conv set_text_simps)
    next
      case (Cons d w')
      have "(\<exists>t. s = acc @ t \<and> c # w = t @ CHR '']'' # r \<and> set_text t) \<longleftrightarrow>
          (\<exists>t. s = (acc @ [c, d]) @ t \<and> w' = t @ CHR '']'' # r \<and> set_text t)"
        using quote Cons by (auto simp: Cons_eq_append_conv set_text_simps)
      then show ?thesis using 2(1) [OF _ quote Cons] quote Cons by simp
    qed
  next
    case plain
    then have "(\<exists>t. s = acc @ t \<and> c # w = t @ CHR '']'' # r \<and> set_text t) \<longleftrightarrow>
        (\<exists>t. s = (acc @ [c]) @ t \<and> w = t @ CHR '']'' # r \<and> set_text t)"
      by (auto simp: Cons_eq_append_conv set_text_simps)
    then show ?thesis using 2(2) plain by simp
  qed
qed simp

inductive_cases wild_NilE: "wild [] m"
inductive_cases wild_ConsE: "wild (c # w) m"
inductive_simps wild_Nil [simp]: "wild [] m"

inductive_simps wild_star_simps: "wild (CHR ''*'' # w) m"
inductive_simps wild_any_simps: "wild (CHR ''?'' # w) m"
inductive_simps wild_quoted_simps: "wild (CHR 0x5C # w) m"
inductive_simps wild_set_simps: "wild (CHR ''['' # w) m"
inductive_simps wild_char_simps: "wild (c # w) m"

lemma wild_Nil_right: "wild w [] \<Longrightarrow> w = []"
  by (erule wild.cases) auto

lemma wild_star_iff:
  "w \<noteq> [] \<Longrightarrow> wild (CHR ''*'' # w) m \<longleftrightarrow> (\<exists>u v. m = u @ v \<and> u \<noteq> [] \<and> wild w v)"
  by (auto simp: wild_star_simps)

lemma wild_star_last: "wild [CHR ''*''] m \<longleftrightarrow> length m \<ge> 2"
  by (auto simp: wild_star_simps)

lemma wild_head:
  "wild (CHR ''?'' # w) m \<longleftrightarrow> m \<noteq> [] \<and> wild w (tl m)"
  "wild (CHR 0x5C # w) m \<longleftrightarrow> w \<noteq> [] \<and> m \<noteq> [] \<and> hd w = hd m \<and> wild (tl w) (tl m)"
  "wild (CHR ''['' # w) m \<longleftrightarrow> m \<noteq> [] \<and>
     (\<exists>s r X. find_close [] w = Some (s, r) \<and> set_means s X \<and> hd m \<in> X \<and> wild r (tl m))"
  by (cases m; auto simp: wild_any_simps wild_quoted_simps wild_set_simps neq_Nil_conv find_close_text)+

lemma wild_plain_head:
  "c \<notin> {CHR ''*'', CHR ''['', CHR ''?'', CHR 0x5C} \<Longrightarrow> wild (c # w) m \<longleftrightarrow> m \<noteq> [] \<and> c = hd m \<and> wild w (tl m)"
  by (cases m) (auto simp: wild_char_simps)

lemma match_star_ok:
  assumes "\<And>v b. match_remainder w v = Some b \<Longrightarrow> suffix v m \<Longrightarrow> v \<noteq> [] \<Longrightarrow> b \<longleftrightarrow> wild w v"
    and "match_star w m = Some b" and "w \<noteq> []"
  shows "b \<longleftrightarrow> (\<exists>u v. m = u @ v \<and> wild w v)"
  using assms
proof (induction m arbitrary: b)
  case Nil
  then show ?case using wild_Nil_right by (auto simp: match_star.simps)
next
  case (Cons c m)
  obtain b' where b': "match_remainder w (c # m) = Some b'"
    using Cons.prems(2,3) by (auto simp: match_star.simps [of w "c # m"] split: option.splits)
  have w: "b' \<longleftrightarrow> wild w (c # m)" by (rule Cons.prems(1) [OF b']) simp_all
  show ?case
  proof (cases b')
    case True
    then have "b" using Cons.prems(2,3) b' by (simp add: match_star.simps [of w "c # m"])
    then show ?thesis using w True by (metis append_Nil)
  next
    case False
    then have "match_star w m = Some b" using Cons.prems(2,3) b' by (simp add: match_star.simps [of w "c # m"])
    then have "b \<longleftrightarrow> (\<exists>u v. m = u @ v \<and> wild w v)"
    proof (rule Cons.IH [OF _ _ Cons.prems(3), rotated])
      fix v b
      assume "match_remainder w v = Some b" "suffix v m" "v \<noteq> []"
      then show "b \<longleftrightarrow> wild w v" using Cons.prems(1) [of v b] by (simp add: suffix_ConsI)
    qed
    then show ?thesis using w False by (auto simp: Cons_eq_append_conv)
  qed
qed

lemma match_star_end: "match_star [] m = Some (m \<noteq> [])"
proof (induction m)
  case (Cons c m)
  then show ?case by (cases m) (simp_all add: match_star.simps [of "[]" "c # m"] match_star.simps [of "[]" "c # _"])
qed (simp add: match_star.simps)

lemma match_ok: "match_remainder w m = Some b \<Longrightarrow> chains_rise w \<Longrightarrow> b \<longleftrightarrow> wild w m"
proof (induction w arbitrary: m b rule: length_induct)
  case (1 w)
  have rise: "chains_rise v" if "sublist v w" for v using chains_rise_sublist 1(3) that by blast
  have IH: "b \<longleftrightarrow> wild v m" if "length v < length w" "match_remainder v m = Some b" "sublist v w" for v m b
    using 1(1) [rule_format, OF that(1,2)] rise [OF that(3)] by blast
  show ?case
  proof (cases "w = [] \<or> m = []")
    case True
    then show ?thesis using 1(2) wild_Nil_right by (auto simp: match_remainder.simps [of w m])
  next
    case False
    then obtain c w' d m' where s: "w = c # w'" "m = d # m'" by (auto simp: neq_Nil_conv)
    note e = 1(2) [unfolded s match_remainder.simps [of "c # w'" "d # m'"]]
    have lw: "length w' < length w" by (simp add: s)
    have sw: "sublist w' w" by (simp add: s sublist_Cons_right)
    note IHt = IH [OF lw _ sw]
    consider "c = CHR ''*''" | "c = CHR ''[''" | "c = CHR ''?''" | "c = CHR 0x5C"
      | "c \<notin> {CHR ''*'', CHR ''['', CHR ''?'', CHR 0x5C}" by blast
    then show ?thesis
    proof cases
      case 1
      then have ms: "match_star w' m' = Some b" using e by simp
      show ?thesis
      proof (cases "w' = []")
        case True
        then have "b \<longleftrightarrow> m' \<noteq> []" using ms by (simp add: match_star_end)
        then show ?thesis using 1 True s wild_star_last [of m] by (auto simp: Suc_le_eq)
      next
        case False
        have "b \<longleftrightarrow> (\<exists>u v. m' = u @ v \<and> wild w' v)"
          using match_star_ok [OF _ ms False] IHt by blast
        then show ?thesis
          using 1 s wild_star_iff [OF False, of m] by (auto simp: Cons_eq_append_conv)
      qed
    next
      case 2
      show ?thesis
      proof (cases "find_close [] w'")
        case None
        then show ?thesis using e 2 s by (simp add: wild_head(3))
      next
        case (Some x)
        obtain st r where x: "x = (st, r)" by (cases x)
        have lr: "length r < length w" using find_close_length Some x lw by fastforce
        have "w' = st @ CHR '']'' # r" using Some x by (simp add: find_close_text)
        then have "w = (c # st @ [CHR '']'']) @ r @ []" "w = [c] @ st @ CHR '']'' # r" by (simp_all add: s)
        then have sr: "sublist r w" and "sublist st w" unfolding sublist_def by blast+
        then have mean: "MatchSet st d = Some b \<Longrightarrow> b \<longleftrightarrow> (\<exists>X. set_means st X \<and> d \<in> X)" for b
          by (intro MatchSet_means rise)
        show ?thesis
        proof (cases "MatchSet st d")
          case None
          then show ?thesis using e 2 Some x by simp
        next
          case m: (Some b')
          then have "b = (b' \<and> wild r m')" using e 2 Some x IH [OF lr _ sr, of m' b] by (cases b') simp_all
          then show ?thesis using mean [OF m] 2 s Some x by (auto simp: wild_head(3))
        qed
      qed
    next
      case 3
      then show ?thesis using e s IHt by (simp add: wild_head(1))
    next
      case 4
      show ?thesis
      proof (cases w')
        case Nil
        then show ?thesis using e 4 s by (simp add: wild_head(2))
      next
        case (Cons x w'')
        then have "length w'' < length w" "sublist w'' w" using s by (simp_all add: sublist_Cons_right)
        then show ?thesis using e 4 s Cons IH [of w'' m' b] by (auto simp: wild_head(2) split: if_splits)
      qed
    next
      case 5
      then show ?thesis using e s IHt wild_plain_head [OF 5] by (auto split: if_splits)
    qed
  qed
qed

lemma match_star_total:
  "(\<And>v. match_remainder w v \<noteq> None) \<Longrightarrow> match_star w m \<noteq> None"
proof (induction m)
  case (Cons c m)
  then have "match_star w m \<noteq> None" "match_remainder w (c # m) \<noteq> None" by blast+
  then show ?case by (auto simp: match_star.simps [of w "c # m"])
qed (simp add: match_star.simps)

lemma match_total: "CHR ''['' \<notin> set w \<Longrightarrow> match_remainder w m \<noteq> None"
proof (induction w arbitrary: m rule: length_induct)
  case (1 w)
  note IH = 1(1) [rule_format]
  show ?case
  proof (cases "w = [] \<or> m = []")
    case True
    then show ?thesis by (simp add: match_remainder.simps [of w m])
  next
    case False
    then obtain c v where w: "w = c # v" by (auto simp: neq_Nil_conv)
    then have v: "match_remainder v m' \<noteq> None" for m' using IH [of v m'] 1(2) by simp
    have v': "v \<noteq> [] \<Longrightarrow> match_remainder (tl v) m' \<noteq> None" for m'
      using IH [of "tl v" m'] 1(2) w by (cases v) auto
    have "c \<noteq> CHR ''[''" using 1(2) w by auto
    then show ?thesis
      using False v [of "tl m"] v' [of "tl m"] match_star_total [OF v, of "tl m"]
      by (simp del: not_None_eq add: w match_remainder.simps [of "c # v" m])
  qed
qed

section \<open>Properties\<close>

text \<open>
  C10: if \<open>MatchWildcard\<close> returns (\<open>_MatchSet\<close> neither erases from an empty string nor loops on the largest character), and no empty
  range of the pattern is followed by a further minus, it decides the pattern's meaning: ? is any character, a backslash
  quotes, * is one or more characters, or two or more at the end of the pattern, and [..] is a character of the set up to
  the first bracket that is not quoted: single and quoted characters and the characters from the first to the
  last of a range.
\<close>
theorem MatchWildcard_decides: "MatchWildcard w m = Some b \<Longrightarrow> chains_rise w \<Longrightarrow> b \<longleftrightarrow> wild w m"
  unfolding MatchWildcard_def by (rule match_ok)

text \<open>The examples in the comment before the function, and the ends of a range.\<close>

theorem MatchWildcard_decides_witness:
  "wild ''he*o'' ''hello'' \<and> \<not> wild ''he*p'' ''hello'' \<and> wild ''[a-z][0-9]'' ''h7'' \<and> wild ''[a-z]'' ''z'' \<and> \<not> wild ''[b-y]'' ''z'' \<and>
    \<not> wild ''a*'' ''ab''"
proof -
  have "MatchWildcard ''he*o'' ''hello'' = Some True" "MatchWildcard ''he*p'' ''hello'' = Some False"
    "MatchWildcard ''[a-z][0-9]'' ''h7'' = Some True" "MatchWildcard ''[a-z]'' ''z'' = Some True"
    "MatchWildcard ''[b-y]'' ''z'' = Some False" "MatchWildcard ''a*'' ''ab'' = Some False"
    by code_simp+
  moreover have "chains_rise ''he*o''" "chains_rise ''he*p''" "chains_rise ''[a-z][0-9]''" "chains_rise ''[a-z]''" "chains_rise ''[b-y]''" "chains_rise ''a*''"
    by (rule chains_rise_nth, code_simp)+
  ultimately show ?thesis
    using MatchWildcard_decides [of "''he*o''" "''hello''" True] MatchWildcard_decides [of "''he*p''" "''hello''" False]
      MatchWildcard_decides [of "''[a-z][0-9]''" "''h7''" True] MatchWildcard_decides [of "''[a-z]''" "''z''" True]
      MatchWildcard_decides [of "''[b-y]''" "''z''" False] MatchWildcard_decides [of "''a*''" "''ab''" False] by blast
qed

text \<open>
  An empty range followed by a further minus: \<open>_MatchSet\<close> erases the character before the range, which is then no longer
  matched; at the beginning of the set it erases from an empty string.
\<close>
theorem empty_range_chain:
  "MatchWildcard ''[xz-ac]'' ''x'' = Some True" "MatchWildcard ''[xz-a-c]'' ''x'' = Some False" "MatchWildcard ''[z-a-c]'' ''b'' = None"
  by code_simp+

text \<open>
  patterns without character sets never run into undefined behaviour.
\<close>
theorem MatchWildcard_total:
  assumes "CHR ''['' \<notin> set w"
  shows "\<exists>b. MatchWildcard w m = Some b"
  using match_total [OF assms, of m] by (simp add: MatchWildcard_def)

theorem MatchWildcard_total_witness: "\<exists>b. MatchWildcard ''172.16.*'' ''172.16.68.29'' = Some b"
  by (rule MatchWildcard_total) simp

end
