(* ===== verification/Json.thy ===== *)
theory Json
  imports StrEdit
begin

text \<open>
  \<open>utils/json.h\<close>, \<open>utils/json.cpp\<close>: the class \<open>Json\<close>, its text form and its recursive parser.

  A value has all the fields of the class, whatever its type; the constructors leave some of them
  uninitialised, which is \<open>None\<close>. \<open>m_object\<close> is a \<open>std::map\<close>: the list of its entries in the
  order of the keys. \<open>double\<close> is a type parameter \<open>'d\<close>, with \<open>atof\<close> and \<open>%f\<close> as the arguments
  \<open>atof\<close> and \<open>fmt\<close>; \<open>long\<close> is an integer within 64 bits.

  The parser reads a NUL-terminated buffer from a position on: the model passes the rest of the buffer,
  the NUL included, so that the empty list is a position behind it, where a read is a \<open>Fault\<close>. The
  code throws \<open>std::string\<close> values, which are \<open>Throws\<close>. The recursion is cut off at a fuel, \<open>Stuck\<close>;
  twice the length of the text is always enough (\<open>parse_fuel\<close> below).
\<close>

datatype 'a outcome = Ok 'a | Throws string | Fault | Stuck

fun bind_ok :: "'a outcome \<Rightarrow> ('a \<Rightarrow> 'b outcome) \<Rightarrow> 'b outcome" where
  "bind_ok (Ok x) f = f x"
| "bind_ok (Throws e) f = Throws e"
| "bind_ok Fault f = Fault"
| "bind_ok Stuck f = Stuck"

lemma bind_ok_eq_Ok: "bind_ok x f = Ok y \<longleftrightarrow> (\<exists>z. x = Ok z \<and> f z = Ok y)"
  by (cases x) auto

lemma bind_ok_Stuck: "bind_ok x f = Stuck \<longleftrightarrow> x = Stuck \<or> (\<exists>z. x = Ok z \<and> f z = Stuck)"
  by (cases x) auto

section \<open>Values\<close>

datatype json_type = TYPE_UNKNOWN | TYPE_INTEGER | TYPE_REAL | TYPE_STRING | TYPE_BOOLEAN | TYPE_ARRAY | TYPE_OBJECT

fun type_code :: "json_type \<Rightarrow> int" where
  "type_code TYPE_UNKNOWN = 1"
| "type_code TYPE_INTEGER = 2"
| "type_code TYPE_REAL = 3"
| "type_code TYPE_STRING = 4"
| "type_code TYPE_BOOLEAN = 5"
| "type_code TYPE_ARRAY = 6"
| "type_code TYPE_OBJECT = 7"

datatype 'd json = Json
  (Type: json_type) (m_i_value: "int option") (m_d_value: "'d option") (m_str_value: string)
  (m_b_value: "bool option") (m_array: "'d json list") (m_object: "(string \<times> 'd json) list")

definition Json_new :: "'d json" where
  "Json_new = Json TYPE_UNKNOWN None None [] None [] []"

definition Json_long :: "int \<Rightarrow> 'd json" where
  \<comment> \<open>the constructors from \<open>char\<close>, \<open>short\<close>, \<open>int\<close> and \<open>long\<close>\<close>
  "Json_long value = Json TYPE_INTEGER (Some value) None [] None [] []"

definition Json_double :: "'d \<Rightarrow> 'd json" where
  "Json_double value = Json TYPE_REAL None (Some value) [] None [] []"

definition Json_string :: "string \<Rightarrow> 'd json" where
  "Json_string value = Json TYPE_STRING None None value None [] []"

definition Json_chars :: "string \<Rightarrow> 'd json" where
  \<comment> \<open>the constructor from a NUL-terminated text\<close>
  "Json_chars value = Json_string (c_str value)"

definition Json_bool :: "bool \<Rightarrow> 'd json" where
  "Json_bool value = Json TYPE_BOOLEAN None None [] (Some value) [] []"

definition Json_type :: "json_type \<Rightarrow> 'd json outcome" where
  "Json_type t =
     (if t \<noteq> TYPE_ARRAY \<and> t \<noteq> TYPE_OBJECT then Throws ''Must be type: Array or Object''
      else Ok (Json t None None [] None [] []))"

fun set_type :: "json_type \<Rightarrow> 'd json \<Rightarrow> 'd json" where
  "set_type t (Json _ i d s b a m) = Json t i d s b a m"

fun set_i :: "int \<Rightarrow> 'd json \<Rightarrow> 'd json" where
  "set_i i (Json t _ d s b a m) = Json t (Some i) d s b a m"

fun set_d :: "'d \<Rightarrow> 'd json \<Rightarrow> 'd json" where
  "set_d d (Json t i _ s b a m) = Json t i (Some d) s b a m"

fun set_str :: "string \<Rightarrow> 'd json \<Rightarrow> 'd json" where
  "set_str s (Json t i d _ b a m) = Json t i d s b a m"

fun set_b :: "bool \<Rightarrow> 'd json \<Rightarrow> 'd json" where
  "set_b b (Json t i d s _ a m) = Json t i d s (Some b) a m"

fun set_array :: "'d json list \<Rightarrow> 'd json \<Rightarrow> 'd json" where
  "set_array a (Json t i d s b _ m) = Json t i d s b a m"

fun set_object :: "(string \<times> 'd json) list \<Rightarrow> 'd json \<Rightarrow> 'd json" where
  "set_object m (Json t i d s b a _) = Json t i d s b a m"

section \<open>Access\<close>

definition at_const :: "string \<Rightarrow> 'd json \<Rightarrow> 'd json outcome" where
  \<comment> \<open>\<open>operator [] (const std::string&) const\<close>\<close>
  "at_const name j =
     (if Type j \<noteq> TYPE_OBJECT then Throws ''Must be Type:Object''
      else case map_of (m_object j) name of Some v \<Rightarrow> Ok v | None \<Rightarrow> Throws (''Not found key:'' @ name))"

definition at_const_chars :: "string \<Rightarrow> 'd json \<Rightarrow> 'd json outcome" where
  \<comment> \<open>\<open>operator [] (const char *) const\<close>\<close>
  "at_const_chars name j =
     (if Type j \<noteq> TYPE_OBJECT then Throws ''Must be type: Object''
      else case map_of (m_object j) (c_str name) of
             Some v \<Rightarrow> Ok v
           | None \<Rightarrow> Throws (''Key not found: '' @ c_str name))"

definition at_ref :: "string \<Rightarrow> string \<Rightarrow> 'd json \<Rightarrow> ('d json \<times> 'd json) outcome" where
  \<comment> \<open>the two operators that return a reference: the element, and the object that now has it; they
      differ in the text \<open>e\<close> they throw\<close>
  "at_ref e name j =
     (let j = (if Type j = TYPE_UNKNOWN then set_type TYPE_OBJECT j else j)
      in if Type j \<noteq> TYPE_OBJECT then Throws e
         else case map_of (m_object j) name of
                Some v \<Rightarrow> Ok (v, j)
              | None \<Rightarrow> Ok (Json_new, set_object (map_put name Json_new (m_object j)) j))"

definition at_ref_chars :: "string \<Rightarrow> 'd json \<Rightarrow> ('d json \<times> 'd json) outcome" where
  "at_ref_chars name = at_ref ''Must be type: Object'' (c_str name)"

definition at_ref_string :: "string \<Rightarrow> 'd json \<Rightarrow> ('d json \<times> 'd json) outcome" where
  "at_ref_string name = at_ref ''Must be Type:Object'' name"

definition HasValue :: "string \<Rightarrow> 'd json \<Rightarrow> bool" where
  "HasValue name j \<longleftrightarrow> Type j = TYPE_OBJECT \<and> map_of (m_object j) name \<noteq> None"

definition Add :: "'d json \<Rightarrow> 'd json \<Rightarrow> 'd json outcome" where
  "Add data j =
     (let j = (if Type j = TYPE_UNKNOWN then set_type TYPE_ARRAY j else j)
      in if Type j \<noteq> TYPE_ARRAY then Throws ''HasValue must be a List''
         else Ok (set_array (m_array j @ [data]) j))"

definition GetArray :: "'d json \<Rightarrow> ('d json list \<times> 'd json) outcome" where
  \<comment> \<open>the reference, and the value after the call\<close>
  "GetArray j =
     (let j = (if Type j = TYPE_UNKNOWN then set_type TYPE_ARRAY j else j)
      in if Type j \<noteq> TYPE_ARRAY then Throws ''Must be Type:Array'' else Ok (m_array j, j))"

definition GetObject :: "'d json \<Rightarrow> ((string \<times> 'd json) list \<times> 'd json) outcome" where
  "GetObject j =
     (let j = (if Type j = TYPE_UNKNOWN then set_type TYPE_OBJECT j else j)
      in if Type j \<noteq> TYPE_OBJECT then Throws ''Must be Type:Object'' else Ok (m_object j, j))"

definition GetArray_const :: "'d json \<Rightarrow> 'd json list outcome" where
  "GetArray_const j = (if Type j \<noteq> TYPE_ARRAY then Throws ''Must be Type:Array'' else Ok (m_array j))"

definition GetObject_const :: "'d json \<Rightarrow> (string \<times> 'd json) list outcome" where
  "GetObject_const j = (if Type j \<noteq> TYPE_OBJECT then Throws ''Must be Type:Object'' else Ok (m_object j))"

definition to_signed :: "nat \<Rightarrow> int \<Rightarrow> int" where
  \<comment> \<open>conversion to a signed type of the given width\<close>
  "to_signed w i = (i + 2 ^ (w - 1)) mod 2 ^ w - 2 ^ (w - 1)"

definition operator_integer :: "nat \<Rightarrow> 'd json \<Rightarrow> int option" where
  \<comment> \<open>the conversions to \<open>char\<close>, \<open>short\<close>, \<open>int\<close> and \<open>long\<close> (width 8, 16, 32 and 64)\<close>
  "operator_integer w j = map_option (to_signed w) (m_i_value j)"

definition operator_double :: "'d json \<Rightarrow> 'd option" where
  "operator_double j = m_d_value j"

definition operator_string :: "'d json \<Rightarrow> string" where
  "operator_string j = m_str_value j"

definition operator_bool :: "'d json \<Rightarrow> bool option" where
  "operator_bool j = m_b_value j"

section \<open>Text\<close>

definition encode :: "string \<Rightarrow> string option" where
  \<comment> \<open>four passes; each is the loop of \<open>ReplaceStr\<close>\<close>
  "encode src = do {
     src \<leftarrow> ReplaceStr src [CHR 0x5C] [CHR 0x5C, CHR 0x5C];
     src \<leftarrow> ReplaceStr src [CHR 13] [CHR 0x5C, CHR ''r''];
     src \<leftarrow> ReplaceStr src [CHR 10] [CHR 0x5C, CHR ''n''];
     ReplaceStr src [CHR 34] [CHR 0x5C, CHR 34]
   }"

definition decode :: "string \<Rightarrow> string option" where
  "decode src = do {
     src \<leftarrow> ReplaceStr src [CHR 0x5C, CHR 34] [CHR 34];
     src \<leftarrow> ReplaceStr src [CHR 0x5C, CHR ''r''] [CHR 13];
     src \<leftarrow> ReplaceStr src [CHR 0x5C, CHR ''n''] [CHR 10];
     ReplaceStr src [CHR 0x5C, CHR 0x5C] [CHR 0x5C]
   }"

fun all_some :: "'a option list \<Rightarrow> 'a list option" where
  "all_some [] = Some []"
| "all_some (x # xs) = Option.bind x (\<lambda>y. map_option ((#) y) (all_some xs))"

definition quoted :: "string \<Rightarrow> string option" where
  "quoted s = map_option (\<lambda>e. CHR 34 # e @ [CHR 34]) (encode s)"

fun member_text :: "bool \<Rightarrow> string \<Rightarrow> string option \<Rightarrow> string option" where
  \<comment> \<open>one entry of an object\<close>
  "member_text quote key v =
     Option.bind v (\<lambda>v. map_option (\<lambda>k. k @ CHR '':'' # v) (if quote then quoted key else Some key))"

fun ToString :: "('d \<Rightarrow> string) \<Rightarrow> bool \<Rightarrow> 'd json \<Rightarrow> string option" where
  \<comment> \<open>\<open>None\<close>: an uninitialised field is read, or \<open>%f\<close> needs more than the 100 bytes of its buffer\<close>
  "ToString fmt quote (Json t i d s b a m) =
     (case t of
        TYPE_UNKNOWN \<Rightarrow> Some ''null''
      | TYPE_INTEGER \<Rightarrow> map_option show_int i
      | TYPE_REAL \<Rightarrow> Option.bind d (\<lambda>d. if length (fmt d) < 100 then Some (fmt d) else None)
      | TYPE_STRING \<Rightarrow> quoted s
      | TYPE_BOOLEAN \<Rightarrow> map_option (\<lambda>b. if b then ''true'' else ''false'') b
      | TYPE_ARRAY \<Rightarrow>
          map_option (\<lambda>ts. CHR ''['' # join_with (CHR '','') ts @ '']'') (all_some (map (ToString fmt quote) a))
      | TYPE_OBJECT \<Rightarrow>
          map_option (\<lambda>ts. CHR ''{'' # join_with (CHR '','') ts @ ''}'')
            (all_some (map (\<lambda>(k, v). member_text quote k (ToString fmt quote v)) m)))"

declare ToString.simps [simp del]

section \<open>Tokens\<close>

definition json_blank :: "char \<Rightarrow> bool" where
  "json_blank c \<longleftrightarrow> c = CHR '' '' \<or> c = CHR 9 \<or> c = CHR 13 \<or> c = CHR 10"

definition num_char :: "char \<Rightarrow> bool" where
  "num_char c \<longleftrightarrow> c_isdigit c \<or> c = CHR ''.''"

fun scan_string :: "bool \<Rightarrow> string \<Rightarrow> string \<times> string" where
  \<comment> \<open>the characters up to the closing quote or the NUL, and the buffer from there on\<close>
  "scan_string ign [] = ([], [])"
| "scan_string ign (c # cs) =
     (if c \<noteq> CHR 0x00 \<and> (ign \<or> c \<noteq> CHR 34)
      then map_prod ((#) c) id (scan_string (\<not> ign \<and> c = CHR 0x5C) cs)
      else ([], c # cs))"

definition Token_at :: "char \<Rightarrow> string \<Rightarrow> 'd json \<Rightarrow> (int \<times> string \<times> 'd json \<times> string) outcome" where
  \<comment> \<open>the token that starts with \<open>c\<close>\<close>
  "Token_at c cs obj =
     (if c = CHR ''-'' \<or> c_isdigit c then
        (let body = takeWhile num_char (if c = CHR ''-'' then cs else c # cs);
             ord = (if c = CHR ''-'' then c # body else body);
             t = (if CHR ''.'' \<in> set body then TYPE_REAL else TYPE_INTEGER)
         in Ok (- type_code t, ord, set_type t obj, drop (length ord) (c # cs)))
      else if c = CHR 34 then
        (case scan_string False cs of (ord, cs) \<Rightarrow>
           (case decode ord of
              None \<Rightarrow> Stuck
            | Some ord \<Rightarrow> Ok (- type_code TYPE_STRING, ord, set_type TYPE_STRING obj, drop 1 cs)))
      else if take 4 (c # cs) = ''null'' then
        Ok (- type_code TYPE_UNKNOWN, ''null'', set_type TYPE_UNKNOWN obj, drop 4 (c # cs))
      else if take 4 (c # cs) = ''true'' then
        Ok (- type_code TYPE_BOOLEAN, ''true'', set_b True (set_type TYPE_BOOLEAN obj), drop 4 (c # cs))
      else if take 5 (c # cs) = ''false'' then
        Ok (- type_code TYPE_BOOLEAN, ''false'', set_b False (set_type TYPE_BOOLEAN obj), drop 5 (c # cs))
      else Ok (schar c, [], obj, cs))"

definition Token :: "string \<Rightarrow> 'd json \<Rightarrow> (int \<times> string \<times> 'd json \<times> string) outcome" where
  \<comment> \<open>the token, its text \<open>ord\<close>, the object and the rest of the buffer\<close>
  "Token rest obj = (case dropWhile json_blank rest of [] \<Rightarrow> Fault | c # cs \<Rightarrow> Token_at c cs obj)"

section \<open>The parser\<close>

function parse :: "(string \<Rightarrow> 'd) \<Rightarrow> nat \<Rightarrow> string \<Rightarrow> 'd json \<Rightarrow> (char \<times> 'd json \<times> string) outcome"
  and array_loop :: "(string \<Rightarrow> 'd) \<Rightarrow> nat \<Rightarrow> string \<Rightarrow> 'd json \<Rightarrow> ('d json \<times> string) outcome"
  and object_loop :: "(string \<Rightarrow> 'd) \<Rightarrow> nat \<Rightarrow> nat \<Rightarrow> string \<Rightarrow> string \<Rightarrow> 'd json \<Rightarrow> ('d json \<times> string) outcome"
where
  "parse atof 0 rest obj = Stuck"
| "parse atof (Suc n) rest obj =
     bind_ok (Token rest obj) (\<lambda>(token, ord, obj, rest).
       if token = - type_code TYPE_REAL then Ok (CHR 0x00, set_d (atof ord) obj, rest)
       else if token = - type_code TYPE_INTEGER then Ok (CHR 0x00, set_i (c_atoi ord) obj, rest)
       else if token = - type_code TYPE_STRING then Ok (CHR 0x00, set_str ord obj, rest)
       else if token = - type_code TYPE_UNKNOWN then Ok (CHR 0x00, obj, rest)
       else if token = - type_code TYPE_BOOLEAN then Ok (CHR 0x00, obj, rest)
       else if token = schar (CHR ''['') then
         bind_ok (array_loop atof n rest (set_type TYPE_ARRAY obj)) (\<lambda>(obj, rest). Ok (CHR 0x00, obj, rest))
       else if token = schar (CHR '']'') then Ok (CHR '']'', obj, rest)
       else if token = schar (CHR ''{'') then
         bind_ok (object_loop atof n 0 [] rest (set_type TYPE_OBJECT obj)) (\<lambda>(obj, rest). Ok (CHR 0x00, obj, rest))
       else if token = schar (CHR ''}'') then Ok (CHR ''}'', obj, rest)
       else if token = schar (CHR '','') then Ok (CHR '','', obj, rest)
       else if token = schar (CHR '':'') then Ok (CHR '':'', obj, rest)
       else if rest = [] then Fault
       else Throws (''Can't parse Json representation: '' @ c_str rest))"
| "array_loop atof 0 rest obj = Stuck"
| "array_loop atof (Suc n) rest obj =
     bind_ok (parse atof n rest Json_new) (\<lambda>(res, o', rest).
       if res = CHR 0x00 then array_loop atof n rest (set_array (m_array obj @ [o']) obj)
       else if res = CHR '']'' then Ok (obj, rest)
       else if res = CHR '','' then array_loop atof n rest obj
       else Throws (''Unexpected end of Array: '' @ [res]))"
| "object_loop atof 0 st element_name rest obj = Stuck"
| "object_loop atof (Suc n) st element_name rest obj =
     bind_ok (parse atof n rest Json_new) (\<lambda>(res, o', rest).
       if st = 0 then
         (if res = CHR '','' then object_loop atof n 0 element_name rest obj
          else if res = CHR ''}'' then Ok (obj, rest)
          else if res \<noteq> CHR 0x00 \<or> Type o' \<noteq> TYPE_STRING then Throws ''Object element name missing''
          else object_loop atof n 1 (m_str_value o') rest obj)
       else if st = 1 then
         (if res \<noteq> CHR '':'' then Throws ''Object element separator missing''
          else object_loop atof n 2 element_name rest obj)
       else
         (if res \<noteq> CHR 0x00 then Throws (''Unexpected character when parsing anytype: '' @ [res])
          else object_loop atof n 0 element_name rest (set_object (map_put element_name o' (m_object obj)) obj)))"
  by pat_completeness auto
termination
  by (relation "measure (\<lambda>x. case x of Inl (_, n, _) \<Rightarrow> n | Inr (Inl (_, n, _)) \<Rightarrow> n | Inr (Inr (_, n, _)) \<Rightarrow> n)") auto

declare parse.simps [simp del] array_loop.simps [simp del] object_loop.simps [simp del]

definition Parse_at :: "(string \<Rightarrow> 'd) \<Rightarrow> string \<Rightarrow> 'd json \<Rightarrow> (char \<times> 'd json \<times> string) outcome" where
  \<comment> \<open>\<open>Parse(const char *buffer, size_t& index)\<close>\<close>
  "Parse_at atof rest obj = parse atof (2 * length rest + 1) rest obj"

definition Parse :: "(string \<Rightarrow> 'd) \<Rightarrow> string \<Rightarrow> 'd json outcome" where
  "Parse atof data = bind_ok (Parse_at atof (data @ [CHR 0x00]) Json_new) (\<lambda>(_, obj, _). Ok obj)"


section \<open>Every parse ends\<close>

lemma ReplaceStr_total: "oldStr \<noteq> [] \<Longrightarrow> ReplaceStr s oldStr newStr = Some (replace_all oldStr newStr s)"
  using replace_loop_ok [of oldStr newStr "[]" s] 
  by (cases "find_sub oldStr s") (simp_all add: ReplaceStr_def)

lemma encode_total: "\<exists>e. encode s = Some e"
  by (simp add: encode_def ReplaceStr_total)

lemma decode_total: "\<exists>e. decode s = Some e"
  by (simp add: decode_def ReplaceStr_total)

lemma scan_string_length: "length (snd (scan_string ign s)) \<le> length s"
  by (induction ign s rule: scan_string.induct) (auto simp: le_Suc_eq)

lemma Token_shorter:
  assumes "Token rest obj = Ok (t, ord, obj', rest')"
  shows "length rest' < length rest"
proof (cases "dropWhile json_blank rest")
  case Nil
  then show ?thesis using assms unfolding Token_def Nil by simp
next
  case (Cons c cs)
  have l: "length (c # cs) \<le> length rest" using length_dropWhile_le [of json_blank rest] by (simp add: Cons)
  obtain ord' cs' where sc: "scan_string False cs = (ord', cs')" by (cases "scan_string False cs")
  with scan_string_length [of False cs] have l': "length cs' \<le> length cs" by simp
  obtain e where e: "decode ord' = Some e" using decode_total by blast
  consider (num) "c = CHR ''-'' \<or> c_isdigit c" | (str) "\<not> (c = CHR ''-'' \<or> c_isdigit c)" "c = CHR 34"
    | (word) "\<not> (c = CHR ''-'' \<or> c_isdigit c)" "c \<noteq> CHR 34" by blast
  then show ?thesis
  proof cases
    case num
    then have "rest' = drop (length (takeWhile num_char cs)) cs"
      using assms Cons by (auto simp: Token_def Token_at_def Let_def num_char_def)
    then show ?thesis using l by simp
  next
    case str
    then show ?thesis using assms Cons l l' by (auto simp: Token_def Token_at_def sc e)
  next
    case word
    then have "rest' \<in> {drop 4 (c # cs), drop 5 (c # cs), cs}"
      using assms unfolding Token_def Token_at_def Cons by (simp split: if_splits)
    then show ?thesis using l by auto
  qed
qed

lemma Token_not_Stuck: "Token rest obj \<noteq> Stuck"
proof (cases "dropWhile json_blank rest")
  case Nil
  then show ?thesis unfolding Token_def Nil by simp
next
  case (Cons c cs)
  obtain e where "decode (fst (scan_string False cs)) = Some e" using decode_total by blast
  then show ?thesis by (simp add: Token_def Token_at_def Cons Let_def case_prod_beta del: take_Suc_Cons)
qed

lemma parse_shorter:
  "parse atof n rest obj = Ok (c, obj', rest') \<Longrightarrow> length rest' < length rest"
  "array_loop atof n rest obj = Ok (obj', rest') \<Longrightarrow> length rest' < length rest"
  "object_loop atof n st name rest obj = Ok (obj', rest') \<Longrightarrow> length rest' < length rest"
proof (induction atof n rest obj and atof n rest obj and atof n st name rest obj
    arbitrary: c obj' rest' and obj' rest' and obj' rest' rule: parse_array_loop_object_loop.induct)
  case (2 atof n rest obj)
  then show ?case 
    by (auto simp: parse.simps bind_ok_eq_Ok split: if_splits dest!: Token_shorter) fastforce+
next
  case (4 atof n rest obj)
  then show ?case by (auto simp: array_loop.simps bind_ok_eq_Ok split: if_splits) fastforce+
next
  case (6 atof n st name rest obj)
  then show ?case by (auto simp: object_loop.simps bind_ok_eq_Ok split: if_splits) fastforce+
qed (simp_all add: parse.simps array_loop.simps object_loop.simps)

lemma parse_fuel:
  "2 * length rest + 1 \<le> n \<Longrightarrow> parse atof n rest obj \<noteq> Stuck"
  "2 * length rest + 2 \<le> n \<Longrightarrow> array_loop atof n rest obj \<noteq> Stuck"
  "2 * length rest + 2 \<le> n \<Longrightarrow> object_loop atof n st name rest obj \<noteq> Stuck"
proof (induction atof n rest obj and atof n rest obj and atof n st name rest obj
    rule: parse_array_loop_object_loop.induct)
  case (2 atof n rest obj)
  have "2 * length rest' + 2 \<le> n" if "Token rest obj = Ok (t, ord, obj', rest')" for t ord obj' rest'
    using Token_shorter [OF that] 2(3) by simp
  then show ?case
    using 2(1,2) by (auto simp: parse.simps bind_ok_Stuck Token_not_Stuck split: if_splits)
next
  case (4 atof n rest obj)
  have "2 * length rest' + 2 \<le> n" if "parse atof n rest Json_new = Ok (c, obj', rest')" for c obj' rest'
    using parse_shorter(1) [OF that] 4(4) by simp
  then show ?case
    using 4 by (auto simp: array_loop.simps bind_ok_Stuck split: if_splits)
next
  case (6 atof n st name rest obj)
  have "2 * length rest' + 2 \<le> n" if "parse atof n rest Json_new = Ok (c, obj', rest')" for c obj' rest'
    using parse_shorter(1) [OF that] 6(6) by simp
  then show ?case
    using 6 by (auto simp: object_loop.simps bind_ok_Stuck split: if_splits)
qed (simp_all add: parse.simps array_loop.simps object_loop.simps)

section \<open>Encoding and decoding\<close>

lemma replace_all_Nil [simp]: "replace_all (c # p) new [] = []"
  by (simp add: replace_all.simps)

lemma replace_all_hit: "replace_all (c # p) new (c # p @ s) = new @ replace_all (c # p) new s"
  by (subst replace_all.simps) simp

lemma replace_all_miss:
  "take (length p) s \<noteq> p \<or> x \<noteq> c \<Longrightarrow> replace_all (c # p) new (x # s) = x # replace_all (c # p) new s"
  by (subst (1 2) replace_all.simps) (auto split: option.splits)

definition enc_char :: "char \<Rightarrow> string" where
  "enc_char c = (if c = CHR 0x5C then [CHR 0x5C, CHR 0x5C] else if c = CHR 13 then [CHR 0x5C, CHR ''r'']
     else if c = CHR 10 then [CHR 0x5C, CHR ''n''] else if c = CHR 34 then [CHR 0x5C, CHR 34] else [c])"

lemma replace_all_char: "replace_all [c] new s = concat (map (\<lambda>x. if x = c then new else [x]) s)"
  by (induction s) (auto simp: replace_all_miss replace_all_hit [of c "[]", simplified])

lemma concat_map_concat: "concat (map f (concat (map g s))) = concat (map (\<lambda>x. concat (map f (g x))) s)"
  by (induction s) auto

lemma encode_chars: "encode s = Some (concat (map enc_char s))"
  by (simp add: encode_def ReplaceStr_total replace_all_char concat_map_concat)
    (intro arg_cong [where f = concat] map_cong refl, simp add: enc_char_def)

fun clear :: "string \<Rightarrow> bool" where
  \<comment> \<open>no backslash stands before an r or an n\<close>
  "clear (c # d # s) \<longleftrightarrow> \<not> (c = CHR 0x5C \<and> d \<in> {CHR ''r'', CHR ''n''}) \<and> clear (d # s)"
| "clear _ \<longleftrightarrow> True"

lemma clear_Cons: "clear (c # s) \<longleftrightarrow> clear s \<and> \<not> (c = CHR 0x5C \<and> s \<noteq> [] \<and> hd s \<in> {CHR ''r'', CHR ''n''})"
  by (cases s) auto

text \<open>The encoded text after one, two and three passes of \<open>decode\<close>.\<close>

definition dec1 :: "char \<Rightarrow> string" where
  "dec1 c = (if c = CHR 34 then [c] else enc_char c)"

definition dec2 :: "char \<Rightarrow> string" where
  "dec2 c = (if c = CHR 13 then [c] else dec1 c)"

definition dec3 :: "char \<Rightarrow> string" where
  "dec3 c = (if c = CHR 10 then [c] else dec2 c)"

lemmas dec_defs = dec3_def dec2_def dec1_def enc_char_def

lemma dec_vals [simp]:
  "enc_char (CHR 0x5C) = [CHR 0x5C, CHR 0x5C]" "dec1 (CHR 0x5C) = [CHR 0x5C, CHR 0x5C]"
  "dec2 (CHR 0x5C) = [CHR 0x5C, CHR 0x5C]" "dec3 (CHR 0x5C) = [CHR 0x5C, CHR 0x5C]"
  "enc_char (CHR 13) = [CHR 0x5C, CHR ''r'']" "dec1 (CHR 13) = [CHR 0x5C, CHR ''r'']"
  "dec2 (CHR 13) = [CHR 13]" "dec3 (CHR 13) = [CHR 13]"
  "enc_char (CHR 10) = [CHR 0x5C, CHR ''n'']" "dec1 (CHR 10) = [CHR 0x5C, CHR ''n'']"
  "dec2 (CHR 10) = [CHR 0x5C, CHR ''n'']" "dec3 (CHR 10) = [CHR 10]"
  "enc_char (CHR 34) = [CHR 0x5C, CHR 34]" "dec1 (CHR 34) = [CHR 34]" "dec2 (CHR 34) = [CHR 34]" "dec3 (CHR 34) = [CHR 34]"
  by (simp_all add: dec_defs)

definition special :: "char set" where
  "special = {CHR 0x5C, CHR 13, CHR 10, CHR 34}"

lemma dec_plain [simp]:
  "c \<notin> special \<Longrightarrow> enc_char c = [c]" "c \<notin> special \<Longrightarrow> dec1 c = [c]"
  "c \<notin> special \<Longrightarrow> dec2 c = [c]" "c \<notin> special \<Longrightarrow> dec3 c = [c]"
  by (simp_all add: dec_defs special_def)

lemma special_cases:
  assumes "c = CHR 0x5C \<Longrightarrow> P" "c = CHR 13 \<Longrightarrow> P" "c = CHR 10 \<Longrightarrow> P" "c = CHR 34 \<Longrightarrow> P" "c \<notin> special \<Longrightarrow> P"
  shows P
  using assms unfolding special_def by blast

lemma replace_pair:
  "replace_all [c, d] new (c # d # t) = new @ replace_all [c, d] new t"
  "x \<noteq> c \<Longrightarrow> replace_all [c, d] new (x # t) = x # replace_all [c, d] new t"
  "take 1 t \<noteq> [d] \<Longrightarrow> replace_all [c, d] new (c # t) = c # replace_all [c, d] new t"
  using replace_all_hit [of c "[d]" new t] by (simp_all add: replace_all_miss)

lemma take_1_first:
  "take 1 (concat (map enc_char s)) \<noteq> [CHR 34]"
  "clear (CHR 0x5C # s) \<Longrightarrow> take 1 (concat (map dec1 s)) \<noteq> [CHR ''r'']"
  "clear (CHR 0x5C # s) \<Longrightarrow> take 1 (concat (map dec2 s)) \<noteq> [CHR ''n'']"
  by (cases s; simp add: dec_defs)+

lemma decode_pass1: "replace_all [CHR 0x5C, CHR 34] [CHR 34] (concat (map enc_char s)) = concat (map dec1 s)"
proof (induction s)
  case (Cons c s)
  then show ?case
    using take_1_first(1) [of s] by (cases rule: special_cases [of c]) (auto simp: replace_pair special_def)
qed simp

lemma decode_pass2:
  "clear s \<Longrightarrow> replace_all [CHR 0x5C, CHR ''r''] [CHR 13] (concat (map dec1 s)) = concat (map dec2 s)"
proof (induction s)
  case (Cons c s)
  then have "clear s" by (simp add: clear_Cons)
  then show ?case
    using Cons take_1_first(2) [of s] by (cases rule: special_cases [of c]) (auto simp: replace_pair special_def)
qed simp

lemma decode_pass3:
  "clear s \<Longrightarrow> replace_all [CHR 0x5C, CHR ''n''] [CHR 10] (concat (map dec2 s)) = concat (map dec3 s)"
proof (induction s)
  case (Cons c s)
  then have "clear s" by (simp add: clear_Cons)
  then show ?case
    using Cons take_1_first(3) [of s] by (cases rule: special_cases [of c]) (auto simp: replace_pair special_def)
qed simp

lemma decode_pass4: "replace_all [CHR 0x5C, CHR 0x5C] [CHR 0x5C] (concat (map dec3 s)) = s"
proof (induction s)
  case (Cons c s)
  then show ?case by (cases rule: special_cases [of c]) (auto simp: replace_pair special_def)
qed simp

lemma decode_encode: "clear s \<Longrightarrow> Option.bind (encode s) decode = Some s"
  by (simp add: encode_chars decode_def ReplaceStr_total decode_pass1 decode_pass2 decode_pass3 decode_pass4)

section \<open>Reading back what was written\<close>

definition text_ok :: "string \<Rightarrow> bool" where
  "text_ok s \<longleftrightarrow> clear s \<and> CHR 0x00 \<notin> set s"

inductive plain_json :: "'d json \<Rightarrow> bool" where
  plain_null: "plain_json Json_new"
| plain_int: "- (2 ^ 31) \<le> i \<Longrightarrow> i < 2 ^ 31 \<Longrightarrow> plain_json (Json_long i)"
| plain_string: "text_ok s \<Longrightarrow> plain_json (Json_string s)"
| plain_bool: "plain_json (Json_bool b)"
| plain_array: "(\<forall>x \<in> set a. plain_json x) \<Longrightarrow> plain_json (Json TYPE_ARRAY None None [] None a [])"
| plain_object: "(\<forall>(k, v) \<in> set m. text_ok k \<and> plain_json v) \<Longrightarrow> sorted_wrt str_less (map fst m) \<Longrightarrow>
    plain_json (Json TYPE_OBJECT None None [] None [] m)"

definition stops :: "string \<Rightarrow> bool" where
  "stops r \<longleftrightarrow> r = [] \<or> \<not> num_char (hd r)"

definition reads :: "(string \<Rightarrow> 'd) \<Rightarrow> 'd json \<Rightarrow> string \<Rightarrow> bool" where
  "reads atof j s \<longleftrightarrow> s \<noteq> [] \<and> (\<forall>r n. stops r \<longrightarrow> 2 * length (s @ r) \<le> n \<longrightarrow> parse atof (Suc n) (s @ r) Json_new = Ok (CHR 0x00, j, r))"

lemmas plain_chars = json_blank_def num_char_def c_isdigit_def schar_def uchar_def

lemma scan_encoded:
  "CHR 0x00 \<notin> set s \<Longrightarrow> scan_string False (concat (map enc_char s) @ CHR 34 # r) = (concat (map enc_char s), CHR 34 # r)"
proof (induction s)
  case (Cons c s)
  then show ?case by (cases rule: special_cases [of c]) (auto simp: special_def)
qed simp

lemma Token_here: "\<not> json_blank c \<Longrightarrow> Token (c # cs) obj = Token_at c cs obj"
  by (simp add: Token_def)

lemma Token_quoted:
  assumes "text_ok s"
  shows "Token (CHR 34 # concat (map enc_char s) @ CHR 34 # r) obj = Ok (- 4, s, set_type TYPE_STRING obj, r)"
  using assms decode_encode [of s]
  by (simp add: Token_here Token_at_def text_ok_def scan_encoded encode_chars plain_chars)

lemma Token_punct:
  "c \<in> set ''[]{},:'' \<Longrightarrow> Token (c # cs) obj = Ok (schar c, [], obj, cs)"
  by (auto simp: Token_here Token_at_def plain_chars)

lemma show_nat_chars: "list_all num_char (show_nat n)" "CHR ''.'' \<notin> set (show_nat n)"
  using show_nat_digits [of n] by (auto simp: list_all_iff num_char_def c_isdigit_def uchar_def)

lemma takeWhile_stops: "list_all num_char s \<Longrightarrow> stops r \<Longrightarrow> takeWhile num_char (s @ r) = s"
  by (induction s) (cases r; auto simp: stops_def)+

lemma Token_int:
  assumes "stops r"
  shows "Token (show_int i @ r) obj = Ok (- 2, show_int i, set_type TYPE_INTEGER obj, r)"
proof (cases "i < 0")
  case True
  then have e: "show_int i @ r = CHR ''-'' # (show_nat (nat (- i)) @ r)" by (simp add: show_int_def)
  show ?thesis
    unfolding e using True show_nat_chars [of "nat (- i)"] takeWhile_stops [OF _ assms]
    by (simp add: Token_here Token_at_def plain_chars show_int_def)
next
  case False
  obtain d ds where ds: "show_nat (nat i) = d # ds" and d: "c_isdigit d"
    using show_nat_digits [of "nat i"] by (cases "show_nat (nat i)") auto
  have nd: "d \<noteq> CHR ''-''" "\<not> json_blank d" using d by (auto simp: plain_chars)
  have e: "show_int i @ r = d # ds @ r" using False ds by (simp add: show_int_def)
  show ?thesis
    unfolding e using False show_nat_chars [of "nat i"] takeWhile_stops [OF _ assms, of "d # ds"] nd d ds
    by (simp add: Token_here Token_at_def show_int_def Let_def)
qed

lemma reads_null: "reads atof Json_new ''null''"
  by (simp add: reads_def Json_new_def parse.simps Token_here Token_at_def plain_chars)

lemma reads_bool: "reads atof (Json_bool b) (if b then ''true'' else ''false'')"
  by (simp add: reads_def Json_new_def Json_bool_def parse.simps Token_here Token_at_def plain_chars)

lemma reads_int: "- (2 ^ 31) \<le> i \<Longrightarrow> i < 2 ^ 31 \<Longrightarrow> reads atof (Json_long i) (show_int i)"
  
  using show_nat_digits [of "nat i"]
  by (auto simp: reads_def Json_new_def Json_long_def parse.simps Token_int c_atoi_show_int) (simp add: show_int_def split: if_splits)

lemma reads_string: "text_ok s \<Longrightarrow> reads atof (Json_string s) (CHR 34 # concat (map enc_char s) @ [CHR 34])"
  by (simp add: reads_def Json_new_def Json_string_def parse.simps Token_quoted)

lemma parse_punct:
  "parse atof (Suc n) (CHR '','' # r) obj = Ok (CHR '','', obj, r)"
  "parse atof (Suc n) (CHR '':'' # r) obj = Ok (CHR '':'', obj, r)"
  "parse atof (Suc n) (CHR '']'' # r) obj = Ok (CHR '']'', obj, r)"
  "parse atof (Suc n) (CHR ''}'' # r) obj = Ok (CHR ''}'', obj, r)"
  "parse atof (Suc n) (CHR ''['' # r) obj =
     bind_ok (array_loop atof n r (set_type TYPE_ARRAY obj)) (\<lambda>(obj, rest). Ok (CHR 0x00, obj, rest))"
  "parse atof (Suc n) (CHR ''{'' # r) obj =
     bind_ok (object_loop atof n 0 [] r (set_type TYPE_OBJECT obj)) (\<lambda>(obj, rest). Ok (CHR 0x00, obj, rest))"
  by (simp_all add: parse.simps Token_punct schar_def uchar_def)

lemma stops_punct [simp]: "c \<in> set ''[]{},:'' \<Longrightarrow> stops (c # r)"
  by (auto simp: stops_def plain_chars)

lemma set_array_simps [simp]:
  "m_array (set_array a j) = a" "set_array b (set_array a j) = set_array b j" "set_array (m_array j) j = j"
  by (cases j; simp)+

lemma set_object_simps [simp]:
  "m_object (set_object a j) = a" "set_object b (set_object a j) = set_object b j" "set_object (m_object j) j = j"
  by (cases j; simp)+

definition comma_list :: "string list \<Rightarrow> string" where
  "comma_list ts = concat (map ((#) (CHR '','')) ts)"

lemma join_comma: "join_with (CHR '','') (t # ts) = t @ comma_list ts"
  by (induction ts arbitrary: t) (auto simp: comma_list_def)

lemma stops_comma: "c \<in> set ''[]{},:'' \<Longrightarrow> stops (comma_list ts @ c # r)"
  by (cases ts) (auto simp: comma_list_def)

lemma array_element:
  assumes "reads atof j t" "stops r" "2 * length (t @ r) < n"
  shows "array_loop atof (Suc n) (t @ r) obj = array_loop atof n r (set_array (m_array obj @ [j]) obj)"
proof -
  obtain m where "n = Suc m" using assms(3) by (cases n) auto
  then show ?thesis using assms by (simp add: array_loop.simps reads_def)
qed

lemma two_le: "2 \<le> n \<Longrightarrow> \<exists>m. n = Suc (Suc m)"
  by (intro exI [of _ "n - 2"]) simp

lemma array_elements:
  "list_all2 (reads atof) js ts \<Longrightarrow> 2 * length (comma_list ts @ '']'' @ r) + 2 \<le> n \<Longrightarrow>
    array_loop atof n (comma_list ts @ '']'' @ r) obj = Ok (set_array (m_array obj @ js) obj, r)"
proof (induction js ts arbitrary: n obj rule: list_all2_induct)
  case Nil
  then have "2 \<le> n" by simp
  then obtain m where "n = Suc (Suc m)" using two_le by blast
  then show ?case by (simp add: comma_list_def array_loop.simps parse_punct)
next
  case (Cons j js t ts)
  let ?r = "comma_list ts @ '']'' @ r"
  define m where "m = n - 3"
  have n: "n = Suc (Suc (Suc m))" "2 * length (t @ ?r) < Suc m" "2 * length ?r + 2 \<le> Suc m"
    using Cons.prems by (auto simp: m_def comma_list_def)
  have "array_loop atof n (comma_list (t # ts) @ '']'' @ r) obj = array_loop atof (Suc (Suc m)) (t @ ?r) obj"
    by (simp add: n comma_list_def array_loop.simps(2) [of _ "Suc (Suc m)"] parse_punct)
  also have "\<dots> = array_loop atof (Suc m) ?r (set_array (m_array obj @ [j]) obj)"
    by (rule array_element [OF Cons.hyps(1) _ n(2)]) (simp add: stops_comma)
  also have "\<dots> = Ok (set_array (m_array obj @ j # js) obj, r)"
    using Cons.IH [OF n(3)] by simp
  finally show ?case .
qed

lemma reads_array:
  assumes "list_all2 (reads atof) js ts"
  shows "reads atof (Json TYPE_ARRAY None None [] None js []) (CHR ''['' # join_with (CHR '','') ts @ '']'')"
proof -
  have "array_loop atof n (join_with (CHR '','') ts @ '']'' @ r) obj = Ok (set_array (m_array obj @ js) obj, r)"
    if n: "2 * length (join_with (CHR '','') ts @ '']'' @ r) + 2 \<le> n" for n r obj
  proof (cases ts)
    case Nil
    then show ?thesis using assms n array_elements [of atof js ts r n obj] by (simp add: comma_list_def)
  next
    case (Cons t ts')
    then obtain j js' where js: "js = j # js'" "reads atof j t" "list_all2 (reads atof) js' ts'"
      using assms by (auto simp: list_all2_Cons2)
    let ?r = "comma_list ts' @ '']'' @ r"
    define m where "m = n - 1"
    obtain d u where "t = d # u" using js(2) by (cases t) (auto simp: reads_def)
    then have m: "n = Suc m" "2 * length (t @ ?r) < m" and m': "2 * length ?r + 2 \<le> m"
      using n by (auto simp: m_def Cons join_comma)
    have "array_loop atof n (t @ ?r) obj = array_loop atof m ?r (set_array (m_array obj @ [j]) obj)"
      unfolding m(1) by (rule array_element [OF js(2) _ m(2)]) (simp add: stops_comma)
    then show ?thesis
      using array_elements [OF js(3) m'] by (simp add: Cons join_comma js)
  qed
  then show ?thesis
    by (auto simp: reads_def parse_punct Json_new_def)
qed


section \<open>Objects\<close>

definition member_string :: "string \<times> string \<Rightarrow> string" where
  "member_string = (\<lambda>(k, t). CHR 34 # concat (map enc_char k) @ CHR 34 # CHR '':'' # t)"

definition reads_member :: "(string \<Rightarrow> 'd) \<Rightarrow> string \<times> 'd json \<Rightarrow> string \<times> string \<Rightarrow> bool" where
  "reads_member atof = (\<lambda>(k, j) (k', t). k' = k \<and> text_ok k \<and> reads atof j t)"

lemma parse_name:
  assumes "text_ok k"
  shows "parse atof (Suc n) (CHR 34 # concat (map enc_char k) @ CHR 34 # r) Json_new = Ok (CHR 0x00, Json_string k, r)"
  using assms by (simp add: Json_new_def Json_string_def parse.simps Token_quoted)

lemma object_member:
  assumes "reads_member atof (k, j) (k, t)" "stops r" "2 * length (t @ r) < n"
  shows "object_loop atof (Suc (Suc (Suc n))) 0 nm (member_string (k, t) @ r) obj =
    object_loop atof n 0 k r (set_object (map_put k j (m_object obj)) obj)"
proof -
  obtain m where m: "n = Suc m" using assms(3) by (cases n) auto
  have k: "text_ok k" and t: "2 * length (t @ r) \<le> m" "reads atof j t"
    using assms m by (auto simp: reads_member_def)
  have "parse atof (Suc m) (t @ r) Json_new = Ok (CHR 0x00, j, r)"
    using t assms(2) by (simp add: reads_def)
  then show ?thesis
    unfolding m by (simp add: object_loop.simps member_string_def parse_name [OF k] parse_punct Json_string_def)
qed

lemma object_members:
  "list_all2 (reads_member atof) ms ts \<Longrightarrow> 2 * length (comma_list (map member_string ts) @ ''}'' @ r) + 2 \<le> n \<Longrightarrow>
    object_loop atof n 0 nm (comma_list (map member_string ts) @ ''}'' @ r) obj =
      Ok (set_object (put_all ms (m_object obj)) obj, r)"
proof (induction ms ts arbitrary: n nm obj rule: list_all2_induct)
  case Nil
  then have "2 \<le> n" by simp
  then obtain m where "n = Suc (Suc m)" using two_le by blast
  then show ?case by (simp add: comma_list_def object_loop.simps parse_punct put_all_def)
next
  case (Cons x ms y ts)
  obtain k j t where x: "x = (k, j)" and y: "y = (k, t)"
    using Cons.hyps(1) by (cases x; cases y) (auto simp: reads_member_def)
  let ?r = "comma_list (map member_string ts) @ ''}'' @ r"
  define m where "m = n - 4"
  have n: "n = Suc (Suc (Suc (Suc m)))" "2 * length (t @ ?r) < m" "2 * length ?r + 2 \<le> m"
    using Cons.prems by (auto simp: m_def comma_list_def y member_string_def)
  have "object_loop atof n 0 nm (comma_list (map member_string (y # ts)) @ ''}'' @ r) obj =
      object_loop atof (Suc (Suc (Suc m))) 0 nm (member_string (k, t) @ ?r) obj"
    by (simp add: n y comma_list_def object_loop.simps(2) [of _ "Suc (Suc (Suc m))"] parse_punct)
  also have "\<dots> = object_loop atof m 0 k ?r (set_object (map_put k j (m_object obj)) obj)"
    by (rule object_member [OF Cons.hyps(1) [unfolded x y] _ n(2)]) (simp add: stops_comma)
  also have "\<dots> = Ok (set_object (put_all (x # ms) (m_object obj)) obj, r)"
    using Cons.IH [OF n(3)] by (simp add: put_all_def x)
  finally show ?case .
qed

lemma reads_object:
  assumes "list_all2 (reads_member atof) ms ts" and "put_all ms [] = ms"
  shows "reads atof (Json TYPE_OBJECT None None [] None [] ms)
    (CHR ''{'' # join_with (CHR '','') (map member_string ts) @ ''}'')"
proof -
  have "object_loop atof n 0 nm (join_with (CHR '','') (map member_string ts) @ ''}'' @ r) obj =
      Ok (set_object (put_all ms (m_object obj)) obj, r)"
    if n: "2 * length (join_with (CHR '','') (map member_string ts) @ ''}'' @ r) + 2 \<le> n" for n r nm obj
  proof (cases ts)
    case Nil
    then show ?thesis using assms n object_members [of atof ms ts r n nm obj] by (simp add: comma_list_def)
  next
    case (Cons y ts')
    then obtain x ms' where ms: "ms = x # ms'" "reads_member atof x y" "list_all2 (reads_member atof) ms' ts'"
      using assms by (auto simp: list_all2_Cons2)
    obtain k j t where x: "x = (k, j)" and y: "y = (k, t)"
      using ms(2) by (cases x; cases y) (auto simp: reads_member_def)
    let ?r = "comma_list (map member_string ts') @ ''}'' @ r"
    define m where "m = n - 3"
    have n': "n \<ge> 2 * length (member_string (k, t) @ ?r) + 2" 
      using n by (simp add: Cons join_comma y)
    then have m: "n = Suc (Suc (Suc m))" "2 * length (t @ ?r) < m" "2 * length ?r + 2 \<le> m"
      by (auto simp: m_def member_string_def)
    have "object_loop atof n 0 nm (member_string (k, t) @ ?r) obj =
        object_loop atof m 0 k ?r (set_object (map_put k j (m_object obj)) obj)"
      unfolding m(1) by (rule object_member [OF ms(2) [unfolded x y] _ m(2)]) (simp add: stops_comma)
    then show ?thesis
      using object_members [OF ms(3) m(3)] by (simp add: Cons join_comma ms x y put_all_def)
  qed
  then show ?thesis
    by (auto simp: reads_def parse_punct Json_new_def assms(2))
qed


section \<open>The round trip\<close>

lemma all_some_reads:
  assumes "\<forall>x \<in> set xs. \<exists>y. f x = Some y \<and> R x y"
  shows "\<exists>ys. all_some (map f xs) = Some ys \<and> list_all2 R xs ys"
  using assms
proof (induction xs)
  case (Cons x xs)
  then obtain ys where "all_some (map f xs) = Some ys" "list_all2 R xs ys" by auto
  moreover from Cons.prems obtain y where "f x = Some y" "R x y" by auto
  ultimately show ?case by (intro exI [of _ "y # ys"]) simp
qed simp

lemma list_all2_map_exists:
  "list_all2 (\<lambda>x t. \<exists>p. t = f p \<and> R x p) xs ts \<Longrightarrow> \<exists>ps. ts = map f ps \<and> list_all2 R xs ps"
proof (induction xs ts rule: list_all2_induct)
  case (Cons x xs t ts)
  then obtain p ps where "t = f p" "R x p" "ts = map f ps" "list_all2 R xs ps" by blast
  then show ?case by (intro exI [of _ "p # ps"]) simp
qed simp

lemma plain_reads:
  assumes "plain_json j"
  shows "\<exists>s. ToString fmt True j = Some s \<and> reads atof j s"
  using assms
proof induction
  case plain_null
  then show ?case using reads_null by (simp add: ToString.simps Json_new_def)
next
  case (plain_int i)
  then show ?case using reads_int by (simp add: ToString.simps Json_long_def)
next
  case (plain_string s)
  then show ?case using reads_string by (simp add: ToString.simps Json_string_def quoted_def encode_chars)
next
  case (plain_bool b)
  then show ?case using reads_bool [of atof b] by (simp add: ToString.simps Json_bool_def)
next
  case (plain_array a)
  then obtain ts where "all_some (map (ToString fmt True) a) = Some ts" "list_all2 (reads atof) a ts"
    using all_some_reads [of a "ToString fmt True" "reads atof"] by blast
  then show ?case using reads_array by (simp add: ToString.simps)
next
  case (plain_object m)
  have "\<exists>t. member_text True (fst x) (ToString fmt True (snd x)) = Some (member_string (fst x, t)) \<and>
      reads_member atof x (fst x, t)" if "x \<in> set m" for x
    using plain_object(1) that
    by (auto simp: reads_member_def quoted_def encode_chars member_string_def case_prod_beta)
  then have "\<forall>x \<in> set m. \<exists>t. (\<lambda>x. member_text True (fst x) (ToString fmt True (snd x))) x = Some t \<and>
      (\<exists>p. t = member_string p \<and> reads_member atof x p)" by blast
  from all_some_reads [OF this] obtain ts where
    ts: "all_some (map (\<lambda>x. member_text True (fst x) (ToString fmt True (snd x))) m) = Some ts"
    and "list_all2 (\<lambda>x t. \<exists>p. t = member_string p \<and> reads_member atof x p) m ts" by blast
  then obtain ps where ps: "ts = map member_string ps" "list_all2 (reads_member atof) m ps"
    using list_all2_map_exists by blast
  have "put_all m [] = m" using plain_object(2) put_all_sorted [of "[]" m] by simp
  from reads_object [OF ps(2) this] show ?case
    using ts unfolding ToString.simps case_prod_beta ps(1) by simp
qed


lemma reads_Parse: "reads atof j s \<Longrightarrow> Parse atof s = Ok j"
  by (simp add: reads_def Parse_def Parse_at_def stops_def plain_chars)

text \<open>
  C6: Every value built of null, booleans, \<open>int\<close> numbers, strings, arrays and objects is read back from
  its text, provided its strings and keys hold no NUL and no backslash right before an r or an n.
\<close>
theorem json_roundtrip:
  assumes "plain_json j"
  shows "\<exists>s. ToString fmt True j = Some s \<and> Parse atof s = Ok j"
  using plain_reads [OF assms] reads_Parse by blast

definition json_example :: "'d json" where
  \<comment> \<open>a list of a number, a boolean and a text with a quote, a backslash and a line feed\<close>
  "json_example = Json TYPE_ARRAY None None [] None
     [Json_long (- 7), Json_bool True, Json_string [CHR 34, CHR 0x5C, CHR 10]] []"

theorem json_roundtrip_witness: "\<exists>s. ToString (\<lambda>_ :: unit. []) True json_example = Some s \<and> Parse (\<lambda>_. ()) s = Ok json_example"
  by (rule json_roundtrip) (auto intro!: plain_json.intros simp: json_example_def text_ok_def)

text \<open>
  \<open>decode\<close> undoes \<open>encode\<close> on every text in which no backslash stands right before an r or an n.
  For the others it does not: a backslash and an n come back as a backslash and a line feed,
  because \<open>decode\<close> looks for the escapes of the line ends before it looks for the doubled backslashes.
\<close>
theorem json_decode_encode:
  "(clear s \<longrightarrow> Option.bind (encode s) decode = Some s) \<and>
   Option.bind (encode [CHR 0x5C, CHR ''n'']) decode = Some [CHR 0x5C, CHR 10]"
proof -
  have "Option.bind (encode [CHR 0x5C, CHR ''n'']) decode = Some [CHR 0x5C, CHR 10]" by code_simp
  then show ?thesis using decode_encode by blast
qed

theorem json_decode_encode_witness:
  "Option.bind (encode [CHR ''r'', CHR 0x5C, CHR 0x5C, CHR 34, CHR 13]) decode = Some [CHR ''r'', CHR 0x5C, CHR 0x5C, CHR 34, CHR 13]"
  using json_decode_encode [of "[CHR ''r'', CHR 0x5C, CHR 0x5C, CHR 34, CHR 13]"] by simp

text \<open>
  C37: \<open>Parse\<close> ends on every input, whatever the text and the object it is called on.
\<close>
theorem json_parse_ends: "Parse_at atof rest obj \<noteq> Stuck \<and> Parse atof data \<noteq> Stuck"
  using parse_fuel(1) by (auto simp: Parse_def Parse_at_def bind_ok_Stuck)

text \<open>
  a number is a \<open>long\<close> when it is written and goes through \<open>atoi\<close> when it is read: what comes back
  is its value modulo \<open>2 ^ 32\<close>.
\<close>
theorem json_long_truncated:
  assumes "- (2 ^ 63) \<le> i" and "i < 2 ^ 63"
  shows "\<exists>s. ToString fmt True (Json_long i) = Some s \<and> Parse atof s = Ok (Json_long (wrap32 i))"
proof -
  have "c_atoi (show_int i) = wrap32 i" using assms by (simp add: c_atoi_def strtol10_show_int)
  then have "reads atof (Json_long (wrap32 i)) (show_int i)"
    using show_nat_digits [of "nat i"]
    by (auto simp: reads_def Json_new_def Json_long_def parse.simps Token_int) (simp add: show_int_def split: if_splits)
  then show ?thesis using reads_Parse by (simp add: ToString.simps Json_long_def)
qed

theorem json_long_truncated_witness:
  "\<exists>s. ToString (\<lambda>_. []) True (Json_long 3000000000 :: nat json) = Some s \<and> Parse length s = Ok (Json_long (- 1294967296))"
  using json_long_truncated [of 3000000000 "\<lambda>_. []" length] by (simp add: wrap32_def)

text \<open>
  On a value that is an object, or has no type yet, the index operator never throws: afterwards the
  value is an object that has the key, the reference is to the element under this key, every other
  element is as before, and the keys stay in order.
\<close>
theorem json_index:
  assumes "Type j = TYPE_OBJECT \<or> (Type j = TYPE_UNKNOWN \<and> m_object j = [])"
    and "sorted_wrt str_less (map fst (m_object j))"
  shows "\<exists>v j'. at_ref_string name j = Ok (v, j') \<and> HasValue name j' \<and> at_const name j' = Ok v \<and>
    v = (if HasValue name j then the (map_of (m_object j) name) else Json_new) \<and>
    map_of (m_object j') = (map_of (m_object j))(name \<mapsto> v) \<and> sorted_wrt str_less (map fst (m_object j'))"
proof (cases "map_of (m_object j) name")
  case None
  then show ?thesis
    using assms map_put_sorted [OF assms(2), of name Json_new]
    by (cases j) (auto simp: at_ref_string_def at_ref_def HasValue_def at_const_def Let_def)
next
  case (Some v)
  then have "Type j = TYPE_OBJECT" using assms(1) by auto
  then show ?thesis
    using Some assms(2) by (auto simp: at_ref_string_def at_ref_def HasValue_def at_const_def Let_def fun_upd_idem)
qed

theorem json_index_witness:
  "\<exists>v j'. at_ref_string ''k'' Json_new = Ok (v, j') \<and> HasValue ''k'' j' \<and> at_const ''k'' j' = Ok v"
  using json_index [of Json_new "''k''"] by (auto simp: Json_new_def)

end
