(* ===== verification/ExternSort.thy ===== *)
theory ExternSort
  imports Prelude "HOL-Library.Multiset"
begin

text \<open>
  \<open>utils/extern_sort.h\<close>, \<open>utils/extern_sort.cpp\<close>: \<open>CBaseExternSort\<close>, which sorts by falling rank: runs of
  \<open>m_sort_num\<close> items are sorted in memory and written to temporary files, then the files are merged.

  The virtual \<open>GetItem\<close> is the list of the items it delivers before it returns false, and the calls of
  \<open>SetItem\<close> are the list of their arguments. A rank is a \<open>double\<close> that is not a NaN: an element of a
  linear order with a zero. A temporary file is the list of its records, the three \<open>fwrite\<close> calls of
  an item being one record; \<open>fopens k\<close> says whether the \<open>k\<close>th file can be created, and a file that can
  be created is not cut short by a full disk. \<open>std::sort\<close> does not fix the order of equal
  ranks, so it is the parameter \<open>srt\<close>, of which the locale \<open>falling_sort\<close> states the promise.
  Undefined behaviour (an index behind the end of a vector, \<open>fclose(NULL)\<close>, a remainder by zero,
  a failed \<open>assert\<close>, a record larger than the buffer) is \<open>None\<close>.
\<close>

type_synonym 'r sort_item = "'r \<times> string"

record 'r extern_sort =
  m_sort_num :: u32
  m_buffer_len :: u32
  m_sort_file :: "'r sort_item list list"
  m_sort_item :: "'r sort_item list"

definition Init :: "u32 \<Rightarrow> 'r extern_sort \<Rightarrow> 'r extern_sort" where
  "Init sort_num c = c\<lparr>m_sort_num := sort_num, m_sort_file := [], m_sort_item := [], m_buffer_len := 0\<rparr>"

definition SortFunction :: "'r::linorder sort_item \<Rightarrow> 'r sort_item \<Rightarrow> bool" where
  "SortFunction s1 s2 \<longleftrightarrow> fst s1 > fst s2"

section \<open>The sorted runs\<close>

fun write_items :: "'r sort_item list \<Rightarrow> u32 \<Rightarrow> 'r sort_item list \<Rightarrow> bool \<times> u32 \<times> 'r sort_item list" where
  \<comment> \<open>the loop of \<open>WriteFile\<close>: whether every write succeeded, \<open>m_buffer_len\<close>, the file\<close>
  "write_items [] buffer_len file = (True, buffer_len, file)"
| "write_items ((rank, item) # items) buffer_len file =
     (let st = of_nat (length item);
          buffer_len = (if st > buffer_len then st + 1 else buffer_len)
      in if st = 0 then (False, buffer_len, file)
         else write_items items buffer_len (file @ [(rank, take (unat st) item)]))"

definition WriteFile :: "(nat \<Rightarrow> bool) \<Rightarrow> 'r extern_sort \<Rightarrow> bool \<times> 'r extern_sort" where
  "WriteFile fopens c =
     (if \<not> fopens (length (m_sort_file c)) then (False, c\<lparr>m_sort_file := m_sort_file c @ [[]]\<rparr>)
      else case write_items (m_sort_item c) (m_buffer_len c) [] of
             (ok, buffer_len, file) \<Rightarrow>
               (ok, c\<lparr>m_buffer_len := buffer_len, m_sort_file := m_sort_file c @ [file]\<rparr>))"

definition flush_items :: "('r sort_item list \<Rightarrow> 'r sort_item list) \<Rightarrow> (nat \<Rightarrow> bool) \<Rightarrow> 'r extern_sort \<Rightarrow> bool \<times> 'r extern_sort"
where
  \<comment> \<open>\<open>std::sort\<close>, \<open>WriteFile\<close>, \<open>m_sort_item.clear()\<close>\<close>
  "flush_items srt fopens c =
     (case WriteFile fopens (c\<lparr>m_sort_item := srt (m_sort_item c)\<rparr>) of
        (ok, c) \<Rightarrow> if ok then (True, c\<lparr>m_sort_item := []\<rparr>) else (False, c))"

fun item_loop :: "('r sort_item list \<Rightarrow> 'r sort_item list) \<Rightarrow> (nat \<Rightarrow> bool) \<Rightarrow> 'r sort_item list \<Rightarrow> u32 \<Rightarrow>
    'r extern_sort \<Rightarrow> (bool \<times> 'r extern_sort) option" where
  \<comment> \<open>the loop of \<open>MemorySort\<close> over the items that \<open>GetItem\<close> delivers\<close>
  "item_loop srt fopens [] cnt c = Some (True, c)"
| "item_loop srt fopens (x # xs) cnt c =
     (let c = c\<lparr>m_sort_item := m_sort_item c @ [x]\<rparr>;
          cnt = cnt + 1
      in if m_sort_num c = 0 then None
         else if cnt mod m_sort_num c = 0 then
           (case flush_items srt fopens c of (ok, c) \<Rightarrow> if ok then item_loop srt fopens xs cnt c else Some (False, c))
         else item_loop srt fopens xs cnt c)"

definition MemorySort :: "('r sort_item list \<Rightarrow> 'r sort_item list) \<Rightarrow> (nat \<Rightarrow> bool) \<Rightarrow> 'r sort_item list \<Rightarrow>
    'r extern_sort \<Rightarrow> (bool \<times> 'r extern_sort) option" where
  "MemorySort srt fopens items c = do {
     (ok, c) \<leftarrow> item_loop srt fopens items 0 c;
     Some (if ok \<and> m_sort_item c \<noteq> [] then flush_items srt fopens c else (ok, c))
   }"

section \<open>The merge\<close>

record 'r merge_state =
  fp_list :: "'r sort_item list option list"
  vect_item :: "'r sort_item list"
  max_rank :: 'r
  max_index :: nat
  set_items :: "'r sort_item list"

definition ReadFile :: "u32 \<Rightarrow> 'r sort_item list option \<Rightarrow> ('r sort_item \<times> 'r sort_item list) option option" where
  \<comment> \<open>\<open>Some None\<close> is the result false; \<open>None\<close> is a record that does not fit the buffer\<close>
  "ReadFile buffer_len fp =
     (case fp of
        None \<Rightarrow> Some None
      | Some [] \<Rightarrow> Some None
      | Some ((rank, item) # rest) \<Rightarrow>
          if length item \<le> unat buffer_len then Some (Some ((rank, item), rest)) else None)"

fun read_first :: "u32 \<Rightarrow> 'r::zero sort_item list list \<Rightarrow> ('r sort_item list option list \<times> 'r sort_item list) option" where
  \<comment> \<open>the loop that reads the first record of every file into \<open>vect_rank\<close> and \<open>vect_item\<close>\<close>
  "read_first buffer_len [] = Some ([], [])"
| "read_first buffer_len (file # files) = do {
     r \<leftarrow> ReadFile buffer_len (Some file);
     (fps, vs) \<leftarrow> read_first buffer_len files;
     Some (case r of
             None \<Rightarrow> (None # fps, (0, []) # vs)
           | Some (v, rest) \<Rightarrow> (Some rest # fps, v # vs))
   }"

fun scan_ranks :: "nat \<Rightarrow> 'r sort_item list option list \<Rightarrow> 'r::linorder sort_item list \<Rightarrow> 'r \<times> nat \<Rightarrow> 'r \<times> nat" where
  \<comment> \<open>the inner loop, from index \<open>i\<close> on: \<open>max_rank\<close> and \<open>max_index\<close>\<close>
  "scan_ranks i (fp # fps) (v # vs) (mr, mi) =
     scan_ranks (i + 1) fps vs (if fp \<noteq> None \<and> fst v > mr then (fst v, i) else (mr, mi))"
| "scan_ranks i _ _ (mr, mi) = (mr, mi)"

definition first_open :: "'r sort_item list option list \<Rightarrow> nat option" where
  "first_open fps = (let k = length (takeWhile ((=) None) fps) in if k < length fps then Some k else None)"

definition unread :: "'r sort_item list option list \<Rightarrow> nat" where
  "unread fps = sum_list (map (\<lambda>f. case f of None \<Rightarrow> 0 | Some rs \<Rightarrow> Suc (length rs)) fps)"

lemma unread_update:
  "i < length fps \<Longrightarrow> fps ! i = Some rs \<Longrightarrow> unread (fps[i := f]) + Suc (length rs) = unread fps + (case f of None \<Rightarrow> 0 | Some q \<Rightarrow> Suc (length q))"
  by (induction fps arbitrary: i) (auto simp: unread_def nth_Cons split: nat.splits)

function merge_loop :: "u32 \<Rightarrow> 'r::linorder merge_state \<Rightarrow> 'r sort_item list option" where
  "merge_loop buffer_len s =
     (case scan_ranks 0 (fp_list s) (vect_item s) (max_rank s, max_index s) of
        (mr, mi) \<Rightarrow>
          if mi < length (fp_list s) \<and> mi < length (vect_item s) then
            (let out = set_items s @ [vect_item s ! mi]
             in case ReadFile buffer_len (fp_list s ! mi) of
                  None \<Rightarrow> None
                | Some (Some (v, rest)) \<Rightarrow>
                    merge_loop buffer_len
                      (s\<lparr>fp_list := (fp_list s)[mi := Some rest], vect_item := (vect_item s)[mi := v],
                         max_rank := fst v, max_index := mi, set_items := out\<rparr>)
                | Some None \<Rightarrow>
                    if fp_list s ! mi = None then None
                    else let fps = (fp_list s)[mi := None]
                         in case first_open fps of
                              None \<Rightarrow> Some out
                            | Some j \<Rightarrow>
                                merge_loop buffer_len
                                  (s\<lparr>fp_list := fps, max_rank := fst (vect_item s ! j), max_index := j,
                                     set_items := out\<rparr>))
          else None)"
  by auto

termination
proof (relation "measure (\<lambda>(_, s). unread (fp_list s))", goal_cases)
  case (2 buffer_len s mr mi out r fps j)
  then obtain rs where "fp_list s ! mi = Some rs" by auto
  then show ?case using 2 unread_update [of mi "fp_list s" rs None] by simp
next
  case (3 buffer_len s mr mi out r x v rest)
  then have "fp_list s ! mi = Some (v # rest)"
    by (auto simp: ReadFile_def split: option.splits list.splits if_splits)
  then show ?case using 3 unread_update [of mi "fp_list s" "v # rest" "Some rest"] by simp
qed simp

declare merge_loop.simps [simp del]

definition MergeSort :: "'r::{linorder,zero} extern_sort \<Rightarrow> 'r sort_item list option" where
  \<comment> \<open>the calls of \<open>SetItem\<close>\<close>
  "MergeSort c = do {
     (fps, vs) \<leftarrow> read_first (m_buffer_len c) (m_sort_file c);
     guard (vs \<noteq> []);
     merge_loop (m_buffer_len c)
       \<lparr>fp_list = fps, vect_item = vs, max_rank = fst (vs ! 0), max_index = 0, set_items = []\<rparr>
   }"

definition Sort :: "('r::{linorder,zero} sort_item list \<Rightarrow> 'r sort_item list) \<Rightarrow> (nat \<Rightarrow> bool) \<Rightarrow> 'r sort_item list \<Rightarrow>
    'r extern_sort \<Rightarrow> (bool \<times> 'r sort_item list) option" where
  "Sort srt fopens items c = do {
     (ok, c) \<leftarrow> MemorySort srt fopens items c;
     if ok then map_option (Pair True) (MergeSort c) else Some (False, [])
   }"

section \<open>The promise of \<open>std::sort\<close>\<close>

abbreviation falling :: "'r::linorder sort_item list \<Rightarrow> bool" where
  "falling \<equiv> sorted_wrt (\<lambda>a b. \<not> SortFunction b a)"

locale falling_sort =
  fixes srt :: "'r::{linorder,zero} sort_item list \<Rightarrow> 'r sort_item list"
  assumes srt_mset: "mset (srt xs) = mset xs"
    and srt_falling: "falling (srt xs)"

definition std_sort :: "'r::linorder sort_item list \<Rightarrow> 'r sort_item list" where
  "std_sort xs = rev (sort_key fst xs)"

interpretation stable: falling_sort std_sort
proof
  show "mset (std_sort xs) = mset xs" for xs :: "'b::{linorder,zero} sort_item list"
    by (simp add: std_sort_def)
  show "falling (std_sort xs)" for xs :: "'b::{linorder,zero} sort_item list"
    using sorted_sort_key [of fst xs] by (simp add: std_sort_def SortFunction_def sorted_wrt_rev sorted_map not_less)
qed

section \<open>The merge delivers every record, in order\<close>

definition run_ok :: "u32 \<Rightarrow> 'r::linorder sort_item list \<Rightarrow> bool" where
  "run_ok buffer_len xs \<longleftrightarrow> falling xs \<and> (\<forall>x \<in> set xs. length (snd x) \<le> unat buffer_len)"

fun pending :: "'r sort_item list option list \<Rightarrow> 'r sort_item list \<Rightarrow> 'r sort_item list" where
  \<comment> \<open>the records not yet delivered: the first of an open file is in \<open>vect_item\<close>\<close>
  "pending (fp # fps) (v # vs) = (case fp of None \<Rightarrow> [] | Some rs \<Rightarrow> v # rs) @ pending fps vs"
| "pending _ _ = []"

definition runs_ok :: "u32 \<Rightarrow> 'r::linorder sort_item list option list \<Rightarrow> 'r sort_item list \<Rightarrow> bool" where
  "runs_ok buffer_len fps vs \<longleftrightarrow>
     length fps = length vs \<and> (\<forall>i < length fps. \<forall>rs. fps ! i = Some rs \<longrightarrow> run_ok buffer_len (vs ! i # rs))"

lemma scan_ranks_max:
  assumes "length fps = length vs" and "scan_ranks i fps vs (mr, mi) = (mr', mi')"
  shows "mr \<le> mr' \<and> (\<forall>k < length fps. fps ! k \<noteq> None \<longrightarrow> fst (vs ! k) \<le> mr') \<and>
    (mr' = mr \<and> mi' = mi \<or> (\<exists>k < length fps. fps ! k \<noteq> None \<and> mr' = fst (vs ! k) \<and> mi' = i + k))"
  using assms
proof (induction fps vs arbitrary: i mr mi rule: list_induct2)
  case (Cons fp fps v vs)
  define m where "m = (if fp \<noteq> None \<and> fst v > mr then (fst v, i) else (mr, mi))"
  obtain a b where ab: "m = (a, b)" by (cases m)
  have r: "scan_ranks (i + 1) fps vs (a, b) = (mr', mi')"
    using Cons.prems unfolding scan_ranks.simps m_def [symmetric] ab .
  note IH = Cons.IH [OF r]
  have m: "mr \<le> a" "fp \<noteq> None \<longrightarrow> fst v \<le> a" "a = mr \<and> b = mi \<or> (fp \<noteq> None \<and> a = fst v \<and> b = i)"
    using ab by (auto simp: m_def split: if_splits)
  have "\<forall>k < length (fp # fps). (fp # fps) ! k \<noteq> None \<longrightarrow> fst ((v # vs) ! k) \<le> mr'"
    using IH m by (auto simp: nth_Cons split: nat.splits)
  moreover have "mr' = mr \<and> mi' = mi \<or> (\<exists>k < length (fp # fps). (fp # fps) ! k \<noteq> None \<and> mr' = fst ((v # vs) ! k) \<and> mi' = i + k)"
  proof -
    consider "mr' = a" "mi' = b" | k where "k < length fps" "fps ! k \<noteq> None" "mr' = fst (vs ! k)" "mi' = i + 1 + k"
      using IH by blast
    then show ?thesis
    proof cases
      case 1
      with m(3) show ?thesis by (auto intro!: exI [of _ 0])
    next
      case 2
      then show ?thesis by (intro disjI2 exI [of _ "Suc k"]) simp
    qed
  qed
  ultimately show ?case using IH m by auto
qed simp

lemma pending_update:
  assumes "length fps = length vs" "i < length fps" "fps ! i = Some rs"
  shows "mset (pending fps vs) = add_mset (vs ! i) (mset (pending (fps[i := None]) vs) + mset rs)"
    and "rs = v # rest \<Longrightarrow> mset (pending fps vs) = add_mset (vs ! i) (mset (pending (fps[i := Some rest]) (vs[i := v])))"
  using assms
  by (induction fps vs arbitrary: i rule: list_induct2) (auto simp: nth_Cons split: nat.splits option.splits)

lemma runs_ok_Cons:
  "runs_ok b (fp # fps) (v # vs) \<longleftrightarrow> (\<forall>rs. fp = Some rs \<longrightarrow> run_ok b (v # rs)) \<and> runs_ok b fps vs"
  by (auto simp: runs_ok_def nth_Cons split: nat.splits)

lemma pending_heads:
  assumes "length fps = length vs" and "runs_ok b fps vs" and "\<forall>k < length fps. fps ! k \<noteq> None \<longrightarrow> fst (vs ! k) \<le> m"
  shows "\<forall>x \<in> set (pending fps vs). fst x \<le> m"
  using assms
proof (induction fps vs rule: list_induct2)
  case (Cons fp fps v vs)
  have "\<forall>k < length fps. fps ! k \<noteq> None \<longrightarrow> fst (vs ! k) \<le> m" "fp \<noteq> None \<Longrightarrow> fst v \<le> m"
    using Cons.prems(2) [rule_format, of "Suc _"] Cons.prems(2) [rule_format, of 0] by auto
  with Cons.IH Cons.prems(1) show ?case
    by (cases fp) (auto simp: runs_ok_Cons run_ok_def SortFunction_def not_less intro: order_trans)
qed simp

lemma runs_ok_length: "runs_ok b fps vs \<Longrightarrow> length fps = length vs"
  by (simp add: runs_ok_def)

lemma runs_ok_nth: "runs_ok b fps vs \<Longrightarrow> i < length fps \<Longrightarrow> fps ! i = Some rs \<Longrightarrow> run_ok b (vs ! i # rs)"
  by (simp add: runs_ok_def)

lemma nth_update: "k < length xs \<Longrightarrow> xs[i := x] ! k = (if k = i then x else xs ! k)"
  by simp

lemma runs_ok_close: "runs_ok b fps vs \<Longrightarrow> runs_ok b (fps[i := None]) vs"
  unfolding runs_ok_def by (auto simp: nth_update split: if_splits)

lemma runs_ok_advance:
  assumes "runs_ok b fps vs" "i < length fps" "fps ! i = Some (v # rest)"
  shows "runs_ok b (fps[i := Some rest]) (vs[i := v])"
proof -
  have "run_ok b (v # rest)" using runs_ok_nth [OF assms] by (simp add: run_ok_def)
  then show ?thesis
    using assms(1) unfolding runs_ok_def by (auto simp: nth_update split: if_splits)
qed

lemma first_open_Some: "first_open fps = Some j \<Longrightarrow> j < length fps \<and> fps ! j \<noteq> None"
  using nth_length_takeWhile [of "(=) None" fps] by (auto simp: first_open_def Let_def split: if_splits simp del: not_None_eq)

lemma first_open_None: "first_open fps = None \<Longrightarrow> pending fps vs = []"
proof -
  assume "first_open fps = None"
  then have "length (takeWhile ((=) None) fps) = length fps"
    using length_takeWhile_le [of "(=) None" fps] by (simp add: first_open_def Let_def split: if_splits)
  then have "takeWhile ((=) None) fps = fps" by (metis takeWhile_eq_take take_all order_refl)
  then have "\<forall>f \<in> set fps. f = None" by (metis (full_types) takeWhile_eq_all_conv)
  then show ?thesis by (induction fps vs rule: pending.induct) auto
qed

definition head_ok :: "'r::linorder merge_state \<Rightarrow> bool" where
  \<comment> \<open>\<open>max_index\<close> is an open file, \<open>max_rank\<close> the rank of its first record\<close>
  "head_ok s \<longleftrightarrow> max_index s < length (fp_list s) \<and> fp_list s ! max_index s \<noteq> None \<and>
     max_rank s = fst (vect_item s ! max_index s)"

lemma merge_loop_ok:
  "runs_ok b (fp_list s) (vect_item s) \<Longrightarrow> head_ok s \<Longrightarrow>
    \<exists>out. merge_loop b s = Some (set_items s @ out) \<and> mset out = mset (pending (fp_list s) (vect_item s)) \<and> falling out"
proof (induction b s rule: merge_loop.induct)
  case (1 b s)
  define fps where "fps = fp_list s"
  define vs where "vs = vect_item s"
  obtain mr mi where sc: "scan_ranks 0 fps vs (max_rank s, max_index s) = (mr, mi)" by force
  have len: "length fps = length vs" using 1(3) runs_ok_length by (simp add: fps_def vs_def)
  note sm = scan_ranks_max [OF len sc]
  have mi: "mi < length fps" "fps ! mi \<noteq> None" "mr = fst (vs ! mi)"
    using sm 1(4) by (auto simp: head_ok_def fps_def vs_def)
  then obtain rs where rs: "fps ! mi = Some rs" by auto
  have top: "\<forall>x \<in> set (pending fps vs). fst x \<le> mr"
    using pending_heads [of fps vs b mr] len 1(3) sm by (simp add: fps_def vs_def)
  have run: "run_ok b (vs ! mi # rs)" using runs_ok_nth [OF 1(3)] mi rs by (simp add: fps_def vs_def)
  have step: "\<exists>out. r = Some (set_items s @ out) \<and> mset out = mset (pending fps vs) \<and> falling out"
    if ex: "\<exists>out. r = Some ((set_items s @ [vs ! mi]) @ out) \<and> mset out = mset q \<and> falling out"
      and q: "mset (pending fps vs) = add_mset (vs ! mi) (mset q)" for r q
  proof -
    obtain out where o: "r = Some ((set_items s @ [vs ! mi]) @ out)" "mset out = mset q" "falling out" using ex by blast
    have "set (pending fps vs) = insert (vs ! mi) (set out)" using q o(2) by (metis mset_eq_setD mset.simps(2) list.simps(15))
    then have "falling (vs ! mi # out)" using top o(3) mi by (auto simp: SortFunction_def not_less)
    then show ?thesis using o q by (intro exI [of _ "vs ! mi # out"]) simp
  qed
  have e: "merge_loop b s = (case ReadFile b (fps ! mi) of
                  None \<Rightarrow> None
                | Some (Some (v, rest)) \<Rightarrow>
                    merge_loop b
                      (s\<lparr>fp_list := fps[mi := Some rest], vect_item := vs[mi := v],
                         max_rank := fst v, max_index := mi, set_items := set_items s @ [vs ! mi]\<rparr>)
                | Some None \<Rightarrow> (case first_open (fps[mi := None]) of
                              None \<Rightarrow> Some (set_items s @ [vs ! mi])
                            | Some j \<Rightarrow>
                                merge_loop b
                                  (s\<lparr>fp_list := fps[mi := None], max_rank := fst (vs ! j), max_index := j,
                                     set_items := set_items s @ [vs ! mi]\<rparr>)))"
    using sc mi len rs unfolding fps_def vs_def by (subst merge_loop.simps) (simp add: Let_def cong: option.case_cong)
  show ?case
  proof (cases rs)
    case (Cons v rest)
    have r: "ReadFile b (fps ! mi) = Some (Some (v, rest))"
      using run by (cases v) (auto simp: rs Cons ReadFile_def run_ok_def)
    have "\<exists>out. merge_loop b s = Some ((set_items s @ [vs ! mi]) @ out) \<and>
        mset out = mset (pending (fps[mi := Some rest]) (vs[mi := v])) \<and> falling out"
      unfolding e r
      using 1(2) [OF sc [unfolded fps_def vs_def, symmetric] _ refl r [unfolded fps_def] refl refl]
        mi len runs_ok_advance [OF 1(3)] rs Cons
      by (simp add: fps_def vs_def head_ok_def)
    from step [OF this pending_update(2) [OF len mi(1) rs Cons]] show ?thesis by (simp add: fps_def vs_def)
  next
    case Nil
    then have r: "ReadFile b (fps ! mi) = Some None" by (simp add: rs ReadFile_def)
    have q: "mset (pending fps vs) = add_mset (vs ! mi) (mset (pending (fps[mi := None]) vs))"
      using pending_update(1) [OF len mi(1) rs] Nil by simp
    have "\<exists>out. merge_loop b s = Some ((set_items s @ [vs ! mi]) @ out) \<and>
        mset out = mset (pending (fps[mi := None]) vs) \<and> falling out"
    proof (cases "first_open (fps[mi := None])")
      case None
      then show ?thesis using first_open_None [OF None, of vs] by (simp add: e r)
    next
      case (Some j)
      then show ?thesis
        unfolding e r
        using 1(1) [OF sc [unfolded fps_def vs_def, symmetric] _ refl r [unfolded fps_def] refl _ refl Some [unfolded fps_def]]
          mi len runs_ok_close [OF 1(3)] first_open_Some [OF Some]
        by (simp add: fps_def vs_def head_ok_def)
    qed
    from step [OF this q] show ?thesis by (simp add: fps_def vs_def)
  qed
qed

section \<open>The runs\<close>

definition item_ok :: "'r sort_item \<Rightarrow> bool" where
  "item_ok x \<longleftrightarrow> snd x \<noteq> [] \<and> length (snd x) + 1 < 2 ^ 32"

definition files_ok :: "'r::linorder extern_sort \<Rightarrow> bool" where
  "files_ok c \<longleftrightarrow> (\<forall>f \<in> set (m_sort_file c). f \<noteq> [] \<and> run_ok (m_buffer_len c) f)"

lemma write_items_ok:
  "\<forall>x \<in> set xs. item_ok x \<Longrightarrow>
    \<exists>b'. write_items xs b fl = (True, b', fl @ xs) \<and> b \<le> b' \<and> (\<forall>x \<in> set xs. length (snd x) \<le> unat b')"
proof (induction xs arbitrary: b fl)
  case (Cons x xs)
  obtain rank item where x: "x = (rank, item)" by (cases x)
  define st where "st = (of_nat (length item) :: u32)"
  define b1 where "b1 = (if st > b then st + 1 else b)"
  have l: "0 < length item" "length item + 1 < 2 ^ 32" using Cons.prems by (auto simp: x item_ok_def)
  then have st: "unat st = length item" "unat (st + 1) = length item + 1"
    by (simp_all add: st_def unat_of_nat unat_word_ariths)
  then have b1: "b \<le> b1" "length item \<le> unat b1"
    by (auto simp: b1_def word_le_nat_alt word_less_nat_alt)
  have "st \<noteq> 0" using st l by auto
  then have e: "write_items (x # xs) b fl = write_items xs b1 (fl @ [x])"
    using st by (simp add: x Let_def flip: st_def b1_def)
  obtain b' where "write_items xs b1 (fl @ [x]) = (True, b', (fl @ [x]) @ xs)" "b1 \<le> b'"
    "\<forall>x \<in> set xs. length (snd x) \<le> unat b'"
    using Cons.IH [of b1 "fl @ [x]"] Cons.prems by auto
  then show ?case using b1 unfolding e by (auto simp: x word_le_nat_alt)
qed simp

context falling_sort
begin

lemma flush_items_ok:
  assumes "files_ok c" "\<forall>x \<in> set (m_sort_item c). item_ok x" "m_sort_item c \<noteq> []"
  shows "\<exists>c'. flush_items srt (\<lambda>_. True) c = (True, c') \<and> files_ok c' \<and> m_sort_item c' = [] \<and>
    m_sort_num c' = m_sort_num c \<and> mset (concat (m_sort_file c')) = mset (concat (m_sort_file c) @ m_sort_item c)"
proof -
  let ?xs = "srt (m_sort_item c)"
  have s: "set ?xs = set (m_sort_item c)" using srt_mset [of "m_sort_item c"] by (metis set_mset_mset)
  then have "\<forall>x \<in> set ?xs. item_ok x" using assms(2) by simp
  from write_items_ok [OF this, of "m_buffer_len c" "[]"] obtain b' where
    w: "write_items ?xs (m_buffer_len c) [] = (True, b', ?xs)" and b: "m_buffer_len c \<le> b'"
      "\<forall>x \<in> set ?xs. length (snd x) \<le> unat b'" by auto
  have "run_ok b' ?xs" using srt_falling b by (simp add: run_ok_def)
  moreover have "?xs \<noteq> []" using s assms(3) by auto
  moreover have "f \<noteq> [] \<and> run_ok b' f" if "f \<in> set (m_sort_file c)" for f
    using assms(1) that b(1) by (auto simp: files_ok_def run_ok_def word_le_nat_alt intro: order_trans)
  ultimately show ?thesis
    using w srt_mset by (simp add: flush_items_def WriteFile_def files_ok_def)
qed

lemma item_loop_ok:
  assumes "files_ok c" "\<forall>x \<in> set (m_sort_item c @ xs). item_ok x" "m_sort_num c \<noteq> 0"
  shows "\<exists>c'. item_loop srt (\<lambda>_. True) xs cnt c = Some (True, c') \<and> files_ok c' \<and>
    (\<forall>x \<in> set (m_sort_item c'). item_ok x) \<and>
    mset (concat (m_sort_file c') @ m_sort_item c') = mset (concat (m_sort_file c) @ m_sort_item c @ xs)"
  using assms
proof (induction xs arbitrary: cnt c)
  case (Cons x xs)
  let ?c = "c\<lparr>m_sort_item := m_sort_item c @ [x]\<rparr>"
  have ok: "files_ok ?c" "\<forall>x \<in> set (m_sort_item ?c). item_ok x" "m_sort_num ?c \<noteq> 0" "m_sort_item ?c \<noteq> []"
    using Cons.prems by (auto simp: files_ok_def)
  show ?case
  proof (cases "(cnt + 1) mod m_sort_num c = 0")
    case True
    obtain c1 where c1: "flush_items srt (\<lambda>_. True) ?c = (True, c1)" "files_ok c1" "m_sort_item c1 = []"
      "m_sort_num c1 = m_sort_num ?c" "mset (concat (m_sort_file c1)) = mset (concat (m_sort_file ?c) @ m_sort_item ?c)"
      using flush_items_ok [OF ok(1,2,4)] by blast
    then show ?thesis
      using Cons.IH [of c1 "cnt + 1"] Cons.prems True by auto
  next
    case False
    then show ?thesis
      using Cons.IH [OF ok(1), of "cnt + 1"] Cons.prems by auto
  qed
qed auto

lemma MemorySort_ok:
  assumes "\<forall>x \<in> set xs. item_ok x" "n \<noteq> 0"
  shows "\<exists>c'. MemorySort srt (\<lambda>_. True) xs (Init n c) = Some (True, c') \<and> files_ok c' \<and> mset (concat (m_sort_file c')) = mset xs"
proof -
  have "files_ok (Init n c)" by (simp add: files_ok_def Init_def)
  from item_loop_ok [OF this, of xs 0] assms obtain c1 where
    c1: "item_loop srt (\<lambda>_. True) xs 0 (Init n c) = Some (True, c1)" "files_ok c1" "\<forall>x \<in> set (m_sort_item c1). item_ok x"
      "mset (concat (m_sort_file c1) @ m_sort_item c1) = mset xs"
    by (auto simp: Init_def)
  show ?thesis
  proof (cases "m_sort_item c1 = []")
    case True
    then show ?thesis using c1 by (simp add: MemorySort_def)
  next
    case False
    then show ?thesis using c1 flush_items_ok [OF c1(2,3) False] by (auto simp: MemorySort_def)
  qed
qed

end

lemma read_first_ok:
  "\<forall>f \<in> set files. f \<noteq> [] \<and> run_ok b f \<Longrightarrow>
    \<exists>fps vs. read_first b files = Some (fps, vs) \<and> runs_ok b fps vs \<and> pending fps vs = concat files \<and>
      length vs = length files \<and> None \<notin> set fps"
proof (induction files)
  case (Cons f files)
  then obtain v rest fps vs where f: "f = v # rest" and r: "read_first b files = Some (fps, vs)" "runs_ok b fps vs"
    "pending fps vs = concat files" "length vs = length files" "None \<notin> set fps"
    by (cases f) auto
  have "ReadFile b (Some f) = Some (Some (v, rest))"
    using Cons.prems f by (cases v) (auto simp: ReadFile_def run_ok_def)
  then show ?case using r f Cons.prems by (simp add: runs_ok_Cons)
qed (simp add: runs_ok_def)

lemma MergeSort_ok:
  assumes "files_ok c" "m_sort_file c \<noteq> []"
  shows "\<exists>out. MergeSort c = Some out \<and> mset out = mset (concat (m_sort_file c)) \<and> falling out"
proof -
  obtain fps vs where r: "read_first (m_buffer_len c) (m_sort_file c) = Some (fps, vs)" "runs_ok (m_buffer_len c) fps vs"
    "pending fps vs = concat (m_sort_file c)" "length vs = length (m_sort_file c)" "None \<notin> set fps"
    using read_first_ok [of "m_sort_file c" "m_buffer_len c"] assms(1) unfolding files_ok_def by blast
  have ne: "vs \<noteq> []" "fps \<noteq> []" using r assms(2) runs_ok_length [OF r(2)] by auto
  then have "fps ! 0 \<noteq> None" using r(5) by (metis length_greater_0_conv nth_mem)
  then show ?thesis
    using merge_loop_ok [of "m_buffer_len c" "\<lparr>fp_list = fps, vect_item = vs, max_rank = fst (vs ! 0), max_index = 0, set_items = []\<rparr>"]
      r ne by (simp add: MergeSort_def head_ok_def)
qed

definition sort_example :: "nat extern_sort" where
  "sort_example = \<lparr>m_sort_num = 0, m_buffer_len = 0, m_sort_file = [], m_sort_item = []\<rparr>"

text \<open>
  C11: For a \<open>std::sort\<close> that sorts, a positive run length, files that can be created and at least one
  item, none of them empty or as long as 4 GB, \<open>Sort\<close> returns true and passes every item to \<open>SetItem\<close>
  exactly once, by falling rank.
\<close>
theorem Sort_sorts:
  assumes "falling_sort srt" and "\<forall>x \<in> set xs. item_ok x" and "xs \<noteq> []" and "n \<noteq> 0" and "\<forall>k. fopens k"
  shows "\<exists>out. Sort srt fopens xs (Init n c) = Some (True, out) \<and> mset out = mset xs \<and> falling out"
proof -
  have fo: "fopens = (\<lambda>_. True)" using assms(5) by auto
  obtain c' where c': "MemorySort srt fopens xs (Init n c) = Some (True, c')" "files_ok c'"
    "mset (concat (m_sort_file c')) = mset xs"
    using falling_sort.MemorySort_ok [OF assms(1,2,4)] fo by blast
  then have "m_sort_file c' \<noteq> []" using assms(3) by auto
  from MergeSort_ok [OF c'(2) this] show ?thesis using c' by (auto simp: Sort_def)
qed

theorem Sort_sorts_witness:
  "\<exists>out. Sort std_sort (\<lambda>_. True) [(3, ''c''), (7, ''g''), (5 :: nat, ''e'')] (Init 2 sort_example) = Some (True, out) \<and>
     mset out = mset [(3, ''c''), (7, ''g''), (5, ''e'')] \<and> falling out"
  by (rule Sort_sorts [OF stable.falling_sort_axioms]) (auto simp: item_ok_def)

text \<open>
  Without any item \<open>MergeSort\<close> reads the first element of an empty vector; an item that is the
  empty string, when it is the only one, makes \<open>Sort\<close> return false, because a write of zero bytes counts as failed.
\<close>
theorem Sort_edge_cases:
  assumes "falling_sort srt" and "n \<noteq> 0"
  shows "Sort srt fopens [] (Init n c) = None \<and> Sort srt fopens [(rank, [])] (Init n c) = Some (False, [])"
proof -
  have "mset (srt [(rank, [])]) = {#(rank, [])#}" using falling_sort.srt_mset [OF assms(1)] by simp
  then have s: "srt [(rank, [])] = [(rank, [])]" by simp
  have "Sort srt fopens [] (Init n c) = None"
    by (simp add: Sort_def MemorySort_def Init_def MergeSort_def)
  moreover have "Sort srt fopens [(rank, [])] (Init n c) = Some (False, [])"
    using assms(2) by (auto simp: Sort_def MemorySort_def Init_def flush_items_def WriteFile_def s Let_def)
  ultimately show ?thesis by blast
qed

theorem Sort_edge_cases_witness: "Sort std_sort (\<lambda>_. True) [(0 :: nat, [])] (Init 10 sort_example) = Some (False, [])"
  using Sort_edge_cases [OF stable.falling_sort_axioms, of 10 "\<lambda>_. True" sort_example 0] by simp

end
