(* ===== verification/Url.thy ===== *)
theory Url
  imports CString
begin

text \<open>
  \<open>utils/url.cpp\<close>: percent encoding. A failed \<open>assert\<close> is \<open>None\<close>.
\<close>

definition ToHex :: "nat \<Rightarrow> nat" where
  "ToHex x = (if x > 9 then x + 55 else x + 48)"

definition FromHex :: "nat \<Rightarrow> nat option" where
  "FromHex x =
     (if 65 \<le> x \<and> x \<le> 90 then Some (x - 65 + 10)
      else if 97 \<le> x \<and> x \<le> 122 then Some (x - 97 + 10)
      else if 48 \<le> x \<and> x \<le> 57 then Some (x - 48)
      else None)"

definition Encode_char :: "char \<Rightarrow> string" where
  "Encode_char c =
     (if c_isalnum c \<or> c = CHR ''-'' \<or> c = CHR ''_'' \<or> c = CHR ''.'' \<or> c = CHR ''~'' then [c]
      else if c = CHR '' '' then ''+''
      else [CHR ''%'', chr (ToHex (uchar c div 16)), chr (ToHex (uchar c mod 16))])"

definition Encode :: "string \<Rightarrow> string" where
  "Encode str = concat (map Encode_char str)"

fun Decode :: "string \<Rightarrow> string option" where
  "Decode [] = Some []"
| "Decode (c # cs) =
     (if c = CHR ''+'' then map_option ((#) (CHR '' '')) (Decode cs)
      else if c = CHR ''%'' then
        (case cs of
           h # l # rest \<Rightarrow>
             (case (FromHex (uchar h), FromHex (uchar l)) of
                (Some high, Some low) \<Rightarrow> map_option ((#) (chr (high * 16 + low))) (Decode rest)
              | _ \<Rightarrow> None)
         | _ \<Rightarrow> None)
      else map_option ((#) c) (Decode cs))"

section \<open>Codecs\<close>

text \<open>What the users of an encoding rely on.\<close>

locale codec =
  fixes enc :: "'a \<Rightarrow> 'b" and dec :: "'b \<Rightarrow> 'a option"
  assumes dec_enc: "dec (enc x) = Some x"
begin

lemma enc_inject: "enc x = enc y \<longleftrightarrow> x = y"
  by (metis dec_enc option.inject)

lemma dec_image: "y \<in> range enc \<Longrightarrow> map_option enc (dec y) = Some y"
  by (auto simp: dec_enc)

end

lemma FromHex_ToHex: "d < 16 \<Longrightarrow> FromHex (uchar (chr (ToHex d))) = Some d"
  by (auto simp: FromHex_def ToHex_def uchar_chr)

lemma hex_digits: "uchar c div 16 < 16" "uchar c mod 16 < 16"
  using uchar_less [of c] by linarith+

lemma Decode_Encode_char: "Decode (Encode_char c @ s) = map_option ((#) c) (Decode s)"
proof (cases "c = CHR '' '' \<or> \<not> (c_isalnum c \<or> c = CHR ''-'' \<or> c = CHR ''_'' \<or> c = CHR ''.'' \<or> c = CHR ''~'')")
  case True
  then show ?thesis
    by (auto simp: Encode_char_def FromHex_ToHex hex_digits c_isalnum_def c_isdigit_def c_isupper_def c_islower_def uchar_def [of "CHR '' ''"])
next
  case False
  then have "c \<noteq> CHR ''+'' \<and> c \<noteq> CHR ''%''"
    by (auto simp: c_isalnum_def c_isdigit_def c_isupper_def c_islower_def uchar_def)
  then show ?thesis using False by (simp add: Encode_char_def)
qed

interpretation url: codec Encode Decode
proof
  show "Decode (Encode s) = Some s" for s
    by (induction s) (simp_all add: Encode_def Decode_Encode_char)
qed

text \<open>
  \<open>Decode\<close> undoes \<open>Encode\<close> on every string, NUL bytes and percent signs included; the assertions of
  \<open>Decode\<close> and \<open>FromHex\<close> hold on the way.
\<close>
theorem url_roundtrip: "Decode (Encode str) = Some str"
  by (rule url.dec_enc)

lemma Encode_char_unreserved:
  "c' \<in> set (Encode_char c) \<Longrightarrow> c_isalnum c' \<or> c' \<in> set ''-_.~+%''"
proof -
  have "c_isalnum (chr (ToHex d))" if "d < 16" for d
    using that by (auto simp: ToHex_def c_isalnum_def c_isdigit_def c_isupper_def uchar_chr)
  then show "c' \<in> set (Encode_char c) \<Longrightarrow> c_isalnum c' \<or> c' \<in> set ''-_.~+%''"
    using hex_digits [of c] by (auto simp: Encode_char_def split: if_splits)
qed

text \<open>
  C0: the encoded text consists of letters, digits and a few marks only: in particular it has none of the
  characters that separate the parts of a URL or of a request line.
\<close>
theorem url_encoded_chars:
  "list_all (\<lambda>c. c_isalnum c \<or> c \<in> set ''-_.~+%'') (Encode str)"
  using Encode_char_unreserved by (auto simp: list_all_iff Encode_def)

end
