(* ===== verification/Http.thy ===== *)
theory Http
  imports Url
begin

text \<open>
  \<open>net/http_message.h\<close>, \<open>net/http_message.cc\<close>: \<open>CHttpRequest\<close> and \<open>CHttpResponse\<close>; \<open>net/net_check.cc\<close>: how
  much of a received buffer is a complete message.

  A position is a \<open>size_t\<close>: a natural number below \<open>2 ^ 64\<close> with \<open>npos\<close> the largest; additions
  and differences wrap. Strings are shorter than \<open>npos\<close>. \<open>substr\<close> with a position behind the end throws
  \<open>std::out_of_range\<close>, which nothing catches: \<open>None\<close>.
\<close>

definition npos :: nat where
  "npos = 2 ^ 64 - 1"

definition find :: "string \<Rightarrow> string \<Rightarrow> nat \<Rightarrow> nat" where
  "find s pat pos = (case str_find s pat pos of Some k \<Rightarrow> k | None \<Rightarrow> npos)"

definition add64 :: "nat \<Rightarrow> nat \<Rightarrow> nat" where
  "add64 a b = (a + b) mod 2 ^ 64"

definition sub64 :: "nat \<Rightarrow> nat \<Rightarrow> nat" where
  "sub64 a b = (a + 2 ^ 64 - b) mod 2 ^ 64"

definition CRLF :: string where
  "CRLF = [CHR 13, CHR 10]"

type_synonym params = "(string \<times> string) list"

section \<open>Headers\<close>

definition header_line :: "string \<Rightarrow> params \<Rightarrow> params option" where
  \<comment> \<open>a line of the header: \<open>m_header[line.substr(0, p)] = line.substr(p+2)\<close>\<close>
  "header_line line m =
     (let p = find line '':'' 0
      in if p \<noteq> npos then map_option (\<lambda>v. map_put (take p line) v m) (substr_from line (add64 p 2)) else Some m)"

definition last_line_response :: "string \<Rightarrow> params \<Rightarrow> params option" where
  \<comment> \<open>the last line in \<open>CHttpResponse::ParseHeader\<close>, which does not check \<open>p\<close>\<close>
  "last_line_response line m =
     (let p = find line '':'' 0
      in map_option (\<lambda>v. map_put (take p line) v m) (substr_from line (add64 p 2)))"

function header_loop :: "(string \<Rightarrow> params \<Rightarrow> params option) \<Rightarrow> string \<Rightarrow> string \<Rightarrow> nat \<Rightarrow> params \<Rightarrow> params option" where
  \<comment> \<open>the loop of \<open>ParseHeader\<close> from position \<open>pos\<close> on; \<open>last_line\<close> handles the last line\<close>
  "header_loop last_line split headers pos m =
     (case str_find headers split pos of
        None \<Rightarrow> Option.bind (substr_from headers pos) (\<lambda>line. last_line line m)
      | Some pos1 \<Rightarrow>
          if split = [] then None
          else Option.bind (substr headers pos (pos1 - pos)) (\<lambda>line.
            Option.bind (header_line line m) (header_loop last_line split headers (pos1 + length split))))"
  by auto
termination
proof (relation "measure (\<lambda>(_, _, headers, pos, _). length headers + 1 - pos)", goal_cases)
  case (2 last_line split headers pos m pos1)
  then obtain c cs where "split = c # cs" by (cases split) auto
  with 2 show ?case by (auto simp: str_find_def split: if_splits)
qed simp

declare header_loop.simps [simp del]

definition line_end :: "string \<Rightarrow> string" where
  \<comment> \<open>how \<open>ParseHeader\<close> chooses \<open>split\<close>\<close>
  "line_end headers = (if find headers CRLF 0 = npos then [CHR 10] else CRLF)"

definition ParseHeader_request :: "string \<Rightarrow> params \<Rightarrow> params option" where
  "ParseHeader_request headers m = header_loop header_line (line_end headers) headers 0 m"

definition ParseHeader_response :: "string \<Rightarrow> params \<Rightarrow> params option" where
  "ParseHeader_response headers m = header_loop last_line_response (line_end headers) headers 0 m"

section \<open>Requests\<close>

record http_request =
  m_header :: params
  m_params :: params
  m_method :: string
  m_uri :: string
  m_body :: string

definition CHttpRequest :: http_request where
  "CHttpRequest = \<lparr>m_header = [], m_params = [], m_method = ''GET'', m_uri = ''/'', m_body = []\<rparr>"

definition param_pair :: "string \<Rightarrow> params \<Rightarrow> params" where
  "param_pair kv m = (case find_sub ''='' kv of Some p \<Rightarrow> map_put (take p kv) (drop (p + 1) kv) m | None \<Rightarrow> m)"

function param_loop :: "string \<Rightarrow> nat \<Rightarrow> params \<Rightarrow> params option" where
  \<comment> \<open>the loop of \<open>ParseParams\<close> from position \<open>pos1\<close> on\<close>
  "param_loop param pos1 m =
     (case str_find param ''&'' pos1 of
        None \<Rightarrow> map_option (\<lambda>kv. param_pair kv m) (substr_from param pos1)
      | Some pos2 \<Rightarrow>
          Option.bind (substr param pos1 (pos2 - pos1)) (\<lambda>kv. param_loop param (pos2 + 1) (param_pair kv m)))"
  by auto
termination
proof (relation "measure (\<lambda>(param, pos, _). length param + 1 - pos)", goal_cases)
  case (2 param pos1 m pos2)
  then have "pos1 \<le> length param" "pos1 \<le> pos2" by (auto simp: str_find_def split: if_splits)
  then show ?case by auto
qed simp

declare param_loop.simps [simp del]

definition ParseParams :: "string \<Rightarrow> http_request \<Rightarrow> http_request option" where
  "ParseParams param r = map_option (\<lambda>m. r\<lparr>m_params := m\<rparr>) (param_loop param 0 (m_params r))"

definition ParseStartLine_request :: "string \<Rightarrow> http_request \<Rightarrow> http_request option" where
  "ParseStartLine_request start_line r =
     (let pos = find start_line '' '' 0
      in if pos = npos then Some r
         else let r = r\<lparr>m_method := take pos start_line\<rparr>;
                  pos1 = find start_line '' '' (add64 pos 1)
              in if pos1 = npos then Some r
                 else do {
                   uri \<leftarrow> substr start_line (add64 pos 1) (sub64 (sub64 pos1 pos) 1);
                   let r = r\<lparr>m_uri := uri\<rparr>;
                   let pos = find uri ''?'' 0;
                   if pos \<noteq> npos then do {
                     param \<leftarrow> substr_from uri (add64 pos 1);
                     r \<leftarrow> ParseParams param r;
                     Some (r\<lparr>m_uri := take pos uri\<rparr>)
                   } else Some r
                 })"

definition start_end :: "string \<Rightarrow> nat" where
  \<comment> \<open>the end of the first line\<close>
  "start_end content = (let pos = find content CRLF 0 in if pos = npos then find content [CHR 10] 0 else pos)"

definition header_start :: "string \<Rightarrow> nat" where
  "header_start content =
     (let pos = find content CRLF 0
      in if pos = npos then add64 (find content [CHR 10] 0) 1 else add64 pos 2)"

definition body_split :: "string \<Rightarrow> nat \<times> nat" where
  \<comment> \<open>\<open>pos1\<close> and the start of the body; the code then tests \<open>pos\<close>, which is not \<open>npos\<close> here\<close>
  "body_split content =
     (let pos1 = find content (CRLF @ CRLF) 0
      in if pos1 \<noteq> npos then (pos1, add64 pos1 4)
         else let pos1 = find content [CHR 10, CHR 10] 0 in (pos1, add64 pos1 2))"

definition Parse_request :: "string \<Rightarrow> http_request \<Rightarrow> http_request option" where
  "Parse_request content r =
     (let r = r\<lparr>m_header := [], m_params := []\<rparr>;
          pos = start_end content
      in if pos = npos then Some r
         else do {
           start_line \<leftarrow> substr content 0 pos;
           r \<leftarrow> ParseStartLine_request start_line r;
           let (pos1, b) = body_split content;
           body \<leftarrow> substr_from content b;
           let pos = header_start content;
           header \<leftarrow> substr content pos (sub64 pos1 pos);
           m \<leftarrow> ParseHeader_request header (m_header r);
           Some (r\<lparr>m_body := body, m_header := m\<rparr>)
         })"

definition header_text :: "params \<Rightarrow> string" where
  "header_text m = concat (map (\<lambda>(k, v). k @ '': '' @ v @ CRLF) m)"

definition ToString_request :: "http_request \<Rightarrow> string" where
  "ToString_request r = m_method r @ '' '' @ m_uri r @ '' HTTP/1.1'' @ CRLF @ header_text (m_header r) @ CRLF @ m_body r"

definition GetHeader :: "string \<Rightarrow> http_request \<Rightarrow> string \<times> http_request" where
  "GetHeader key r = (case map_get [] key (m_header r) of (v, m) \<Rightarrow> (v, r\<lparr>m_header := m\<rparr>))"

definition SetHeader :: "string \<Rightarrow> string \<Rightarrow> http_request \<Rightarrow> http_request" where
  "SetHeader key value r = r\<lparr>m_header := map_put key value (m_header r)\<rparr>"

definition GetParam_int :: "string \<Rightarrow> int \<Rightarrow> http_request \<Rightarrow> int" where
  "GetParam_int key def r = (case map_of (m_params r) key of Some v \<Rightarrow> c_atoi v | None \<Rightarrow> def)"

definition GetParam :: "string \<Rightarrow> string \<Rightarrow> http_request \<Rightarrow> string" where
  "GetParam key def r = (case map_of (m_params r) key of Some v \<Rightarrow> v | None \<Rightarrow> def)"

section \<open>Responses\<close>

record http_response =
  m_ret_code :: string
  m_ret_msg :: string
  m_http_version :: string
  r_header :: params
  r_body :: string

definition CHttpResponse :: http_response where
  "CHttpResponse = \<lparr>m_ret_code = ''200'', m_ret_msg = ''OK'', m_http_version = ''HTTP/1.1'', r_header = [], r_body = []\<rparr>"

definition ParseStartLine_response :: "string \<Rightarrow> http_response \<Rightarrow> http_response option" where
  "ParseStartLine_response start_line r =
     (let pos = find start_line '' '' 0
      in if pos = npos then Some r
         else let r = r\<lparr>m_http_version := take pos start_line\<rparr>;
                  pos1 = find start_line '' '' (add64 pos 1)
              in if pos1 = npos then Some r
                 else do {
                   ret_code \<leftarrow> substr start_line (add64 pos 1) (sub64 (sub64 pos1 pos) 1);
                   ret_msg \<leftarrow> substr_from start_line (add64 pos1 1);
                   Some (r\<lparr>m_ret_code := ret_code, m_ret_msg := ret_msg\<rparr>)
                 })"

definition Parse_response :: "string \<Rightarrow> http_response \<Rightarrow> http_response option" where
  "Parse_response content r =
     (let pos = start_end content
      in if pos = npos then Some r
         else do {
           start_line \<leftarrow> substr content 0 pos;
           r \<leftarrow> ParseStartLine_response start_line r;
           let (pos1, b) = body_split content;
           body \<leftarrow> substr_from content b;
           let pos = header_start content;
           header \<leftarrow> substr content pos (sub64 pos1 pos);
           m \<leftarrow> ParseHeader_response header (r_header r);
           Some (r\<lparr>r_body := body, r_header := m\<rparr>)
         })"

definition SetBody_response :: "string \<Rightarrow> http_response \<Rightarrow> http_response" where
  "SetBody_response body r = r\<lparr>r_body := body, r_header := map_put ''Content-Length'' (show_nat (length body)) (r_header r)\<rparr>"

definition SetRetCode :: "string \<Rightarrow> string \<Rightarrow> http_response \<Rightarrow> http_response" where
  "SetRetCode ret_code ret_msg r = r\<lparr>m_ret_code := ret_code, m_ret_msg := ret_msg\<rparr>"

definition ToString_response :: "http_response \<Rightarrow> string" where
  "ToString_response r =
     m_http_version r @ '' '' @ m_ret_code r @ '' '' @ m_ret_msg r @ CRLF @ header_text (r_header r) @ CRLF @ r_body r"

section \<open>Complete messages\<close>

definition PKT_MAX_LEN :: u32 where
  "PKT_MAX_LEN = push_bit 20 32"

definition net_complete_longconn :: "u8 list \<Rightarrow> u32 \<Rightarrow> int option" where
  \<comment> \<open>the length prefix is in network order; \<open>None\<close> if the caller's buffer is shorter than \<open>data_len\<close> says\<close>
  "net_complete_longconn data data_len =
     (if data_len < 4 then Some 0
      else Option.bind (mem_read data 0 4) (\<lambda>b.
        let total_len = of_le32 (rev b)
        in Some (if total_len > PKT_MAX_LEN then - 1
                 else if data_len < total_len then 0 else sint total_len)))"

definition c_strstr :: "string \<Rightarrow> string \<Rightarrow> nat option option" where
  \<comment> \<open>\<open>strstr\<close> on the memory from \<open>data\<close> on: \<open>None\<close> if it has no NUL\<close>
  "c_strstr data pat = (if CHR 0x00 \<in> set data then Some (find_sub pat (c_str data)) else None)"

definition net_complete_http :: "string \<Rightarrow> u32 \<Rightarrow> int option" where
  \<comment> \<open>\<open>data\<close> is the memory from the pointer on, which may extend behind the \<open>data_len\<close> bytes received\<close>
  "net_complete_http data data_len =
     (if data_len < 14 then Some 0
      else do {
        p \<leftarrow> c_strstr data (CRLF @ CRLF);
        case p of
          Some p \<Rightarrow> do {
            q \<leftarrow> c_strstr data ''Content-Length:'';
            Some (case q of
                    None \<Rightarrow> wrap32 (int p + 4)
                  | Some q \<Rightarrow>
                      let pkglen = (word_of_int (int p + 4 + c_atoi (drop (q + 15) data)) :: u32)
                      in if data_len \<ge> pkglen then sint pkglen else 0)
          }
        | None \<Rightarrow> Some (if data_len > 10240000 then - 1 else 0)
      })"

section \<open>Finding the parts\<close>

lemma find_sub_skip: "c \<notin> set a \<Longrightarrow> find_sub (c # p) (a @ s) = map_option ((+) (length a)) (find_sub (c # p) s)"
proof (induction a)
  case (Cons x a)
  then show ?case by (cases "find_sub (c # p) s") auto
next
  case Nil
  show ?case by (cases "find_sub (c # p) s") simp_all
qed

lemma find_sub_here: "find_sub p (p @ s) = Some 0"
  by (cases p) simp_all

lemma find_sub_at: "c \<notin> set a \<Longrightarrow> find_sub (c # p) (a @ c # p @ s) = Some (length a)"
  using find_sub_skip [of c a p "c # p @ s"] find_sub_here [of "c # p" s] by simp

lemma find_sub_absent: "c \<notin> set a \<Longrightarrow> find_sub (c # p) a = None"
  using find_sub_skip [of c a p "[]"] by simp

lemma str_find_from: "str_find (a @ s) pat (length a) = map_option ((+) (length a)) (find_sub pat s)"
  by (simp add: str_find_def)

lemma find_0: "find s pat 0 = (case find_sub pat s of Some k \<Rightarrow> k | None \<Rightarrow> npos)"
  by (simp add: find_def)

lemma add64_small: "a + b \<le> npos \<Longrightarrow> add64 a b = a + b"
  by (simp add: add64_def npos_def)

lemma sub64_small: "b \<le> a \<Longrightarrow> a \<le> npos \<Longrightarrow> sub64 a b = a - b"
proof -
  assume a: "b \<le> a" "a \<le> npos"
  then have "a + 2 ^ 64 - b = (a - b) + 2 ^ 64" "a - b < 2 ^ 64" by (auto simp: npos_def)
  then show ?thesis by (simp only: sub64_def mod_add_self2 mod_less)
qed

section \<open>Requests are read back\<close>

definition clean :: "string \<Rightarrow> string \<Rightarrow> bool" where
  \<comment> \<open>a part that holds none of the given characters and no line end\<close>
  "clean cs s \<longleftrightarrow> set s \<inter> set (CRLF @ cs) = {}"

definition field :: "string \<times> string \<Rightarrow> string" where
  "field = (\<lambda>(k, v). k @ '': '' @ v)"

fun joined :: "string list \<Rightarrow> string" where
  "joined [] = []"
| "joined [x] = x"
| "joined (x # xs) = x @ CRLF @ joined xs"

lemma joined_Cons: "xs \<noteq> [] \<Longrightarrow> joined (x # xs) = x @ CRLF @ joined xs"
  by (cases xs) auto

lemma joined_lines: "ls \<noteq> [] \<Longrightarrow> concat (map (\<lambda>l. l @ CRLF) ls) = joined ls @ CRLF"
proof (induction ls)
  case (Cons x ls)
  then show ?case by (cases "ls = []") (simp_all add: joined_Cons)
qed simp

definition fields :: "params \<Rightarrow> string" where
  "fields xs = joined (map field xs)"

lemma fields_simps [simp]: "fields [] = []" "fields [x] = field x"
  by (simp_all add: fields_def)

definition line_ok :: "string \<Rightarrow> bool" where
  "line_ok l \<longleftrightarrow> clean [] l \<and> l \<noteq> []"

definition field_ok :: "string \<times> string \<Rightarrow> bool" where
  "field_ok = (\<lambda>(k, v). clean '':'' k \<and> clean [] v)"

lemma fields_Cons: "xs \<noteq> [] \<Longrightarrow> fields (x # xs) = field x @ CRLF @ fields xs"
  by (simp add: fields_def joined_Cons)

lemma field_line: "field_ok x \<Longrightarrow> line_ok (field x)"
  by (auto simp: field_ok_def line_ok_def field_def clean_def CRLF_def)

lemma header_text_fields: "m \<noteq> [] \<Longrightarrow> header_text m = fields m @ CRLF"
proof (induction m)
  case (Cons x m)
  then show ?case by (cases "m = []") (simp_all add: header_text_def field_def fields_Cons case_prod_beta)
qed simp

lemma header_line_field:
  assumes "field_ok (k, v)" "length (field (k, v)) < npos"
  shows "header_line (field (k, v)) m = Some (map_put k v m)"
proof -
  have "find_sub '':'' (field (k, v)) = Some (length k)"
    using assms(1) find_sub_at [of "CHR '':''" k "[]" "CHR '' '' # v"] by (simp add: field_ok_def field_def clean_def CRLF_def)
  then show ?thesis
    using assms(2) by (simp add: header_line_def find_0 add64_small substr_from_def field_def)
qed

lemma header_loop_fields:
  assumes "\<forall>x \<in> set xs. field_ok x" "xs \<noteq> []" "length (pre @ fields xs) < npos"
  shows "header_loop header_line CRLF (pre @ fields xs) (length pre) m = Some (put_all xs m)"
  using assms
proof (induction xs arbitrary: pre m)
  case (Cons x xs)
  obtain k v where x: "x = (k, v)" by (cases x)
  have ok: "field_ok (k, v)" using Cons.prems x by simp
  have cr: "CHR 13 \<notin> set (field x)" using ok by (auto simp: x field_def field_ok_def clean_def CRLF_def)
  show ?case
  proof (cases "xs = []")
    case True
    have "str_find (pre @ field x) CRLF (length pre) = None"
      unfolding str_find_from using find_sub_absent [OF cr] by (simp add: CRLF_def)
    then show ?thesis
      using True header_line_field [OF ok] Cons.prems(3)
      by (simp add: header_loop.simps substr_from_def put_all_def x)
  next
    case False
    let ?rest = "fields xs"
    have e: "pre @ fields (x # xs) = (pre @ field x @ CRLF) @ ?rest" using False by (simp add: fields_Cons)
    have f: "str_find (pre @ fields (x # xs)) CRLF (length pre) = Some (length pre + length (field x))"
      unfolding fields_Cons [OF False] str_find_from using find_sub_at [OF cr, of "[CHR 10]"] by (simp add: CRLF_def)
    have "header_loop header_line CRLF (pre @ fields (x # xs)) (length pre) m =
        header_loop header_line CRLF (pre @ fields (x # xs)) (length (pre @ field x @ CRLF)) (map_put k v m)"
      using f False header_line_field [OF ok] Cons.prems(3) x
      by (subst header_loop.simps) (simp add: substr_def fields_Cons, simp add: CRLF_def add.assoc)
    also have "\<dots> = Some (put_all xs (map_put k v m))"
      unfolding e using Cons.IH [OF _ False, of "pre @ field x @ CRLF" "map_put k v m"] Cons.prems False
      by (simp add: fields_Cons)
    finally show ?thesis by (simp add: put_all_def x)
  qed
qed simp

lemma ParseHeader_fields:
  assumes "\<forall>x \<in> set xs. field_ok x" "xs \<noteq> []" "sorted_wrt str_less (map fst xs)" "length (fields xs) < npos"
  shows "ParseHeader_request (fields xs) [] = Some xs"
proof -
  obtain x ys where xs: "xs = x # ys" using assms(2) by (cases xs) auto
  have cr: "CHR 13 \<notin> set (field x)" "CHR 10 \<notin> set (field x)"
    using assms(1) xs by (cases x; auto simp: field_def field_ok_def clean_def CRLF_def)+
  have put: "put_all xs [] = xs" using assms(3) put_all_sorted [of "[]" xs] by simp
  show ?thesis
  proof (cases "ys = []")
    case True
    have "line_end (field x) = [CHR 10]"
      using find_sub_absent [OF cr(1), of "[CHR 10]"] by (simp add: line_end_def find_0 CRLF_def)
    moreover have "str_find (field x) [CHR 10] 0 = None"
      using find_sub_absent [OF cr(2), of "[]"] by simp
    moreover have "header_line (field x) [] = Some [x]"
      using header_line_field [of "fst x" "snd x" "[]"] assms xs True by simp
    ultimately show ?thesis
      using True xs by (simp add: ParseHeader_request_def header_loop.simps [of _ "[CHR 10]"] substr_from_def)
  next
    case False
    have "find_sub CRLF (fields xs) = Some (length (field x))"
      unfolding xs fields_Cons [OF False] using find_sub_at [OF cr(1), of "[CHR 10]"] by (simp add: CRLF_def)
    moreover have "length (field x) \<noteq> npos" using assms(4) by (auto simp: xs fields_Cons [OF False])
    ultimately have "line_end (fields xs) = CRLF" by (simp add: line_end_def find_0)
    then show ?thesis
      using header_loop_fields [OF assms(1,2), of "[]" "[]"] assms(4) put by (simp add: ParseHeader_request_def)
  qed
qed

lemma joined_head:
  assumes "\<forall>l \<in> set ls. line_ok l" "ls \<noteq> []"
  shows "\<exists>c cs. joined ls @ t = c # cs \<and> c \<noteq> CHR 13"
proof -
  obtain y ys where ls: "ls = y # ys" using assms(2) by (cases ls) auto
  have "CHR 13 \<notin> set y" "y \<noteq> []" using assms(1) ls by (auto simp: line_ok_def clean_def CRLF_def)
  then show ?thesis using ls by (cases y; cases ys) auto
qed

lemma skip_CRLF: "c \<noteq> CHR 13 \<Longrightarrow> find_sub (CRLF @ CRLF) (CRLF @ c # cs) = map_option ((+) 2) (find_sub (CRLF @ CRLF) (c # cs))"
  by (cases "find_sub (CRLF @ CRLF) (c # cs)") (auto simp: CRLF_def)

lemma no_blank_line:
  assumes "\<forall>l \<in> set ls. line_ok l" "ls \<noteq> []"
  shows "find_sub (CRLF @ CRLF) (joined ls @ CRLF @ CRLF @ b) = Some (length (joined ls))"
  using assms
proof (induction ls)
  case (Cons x xs)
  have cr: "CHR 13 \<notin> set x" using Cons.prems by (auto simp: line_ok_def clean_def CRLF_def)
  show ?case
  proof (cases "xs = []")
    case True
    then show ?thesis using find_sub_at [OF cr, of "[CHR 10, CHR 13, CHR 10]" b] by (simp add: CRLF_def)
  next
    case False
    obtain c cs where c: "joined xs @ CRLF @ CRLF @ b = c # cs" "c \<noteq> CHR 13"
      using joined_head [of xs "CRLF @ CRLF @ b"] Cons.prems False by auto
    have "find_sub (CRLF @ CRLF) (joined (x # xs) @ CRLF @ CRLF @ b) =
        map_option ((+) (length x)) (find_sub (CRLF @ CRLF) (CRLF @ c # cs))"
      unfolding c(1) [symmetric] joined_Cons [OF False]
      using find_sub_skip [OF cr, of "[CHR 10, CHR 13, CHR 10]"] by (simp add: CRLF_def)
    also have "\<dots> = map_option ((+) (length x + 2)) (find_sub (CRLF @ CRLF) (c # cs))"
      unfolding skip_CRLF [OF c(2)] by (cases "find_sub (CRLF @ CRLF) (c # cs)") simp_all
    also have "\<dots> = Some (length (joined (x # xs)))"
      using Cons.IH Cons.prems False by (simp flip: c(1)) (simp add: joined_Cons CRLF_def)
    finally show ?thesis .
  qed
qed simp

lemma fields_no_blank_line:
  assumes "\<forall>x \<in> set xs. field_ok x" "xs \<noteq> []"
  shows "find_sub (CRLF @ CRLF) (fields xs @ CRLF @ CRLF @ b) = Some (length (fields xs))"
  unfolding fields_def using assms field_line by (intro no_blank_line) auto

lemma fields_head:
  assumes "\<forall>x \<in> set xs. field_ok x" "xs \<noteq> []"
  shows "\<exists>c cs. fields xs @ t = c # cs \<and> c \<noteq> CHR 13"
  unfolding fields_def using assms field_line by (intro joined_head) auto

definition request_ok :: "http_request \<Rightarrow> bool" where
  "request_ok r \<longleftrightarrow> clean '' '' (m_method r) \<and> clean '' ?'' (m_uri r) \<and> m_params r = [] \<and>
     m_header r \<noteq> [] \<and> (\<forall>x \<in> set (m_header r). field_ok x) \<and> sorted_wrt str_less (map fst (m_header r)) \<and>
     length (ToString_request r) < npos"

lemma ParseStartLine_ok:
  assumes "clean '' '' me" "clean '' ?'' uri" "length (me @ '' '' @ uri @ '' HTTP/1.1'') < npos"
  shows "ParseStartLine_request (me @ '' '' @ uri @ '' HTTP/1.1'') r = Some (r\<lparr>m_method := me, m_uri := uri\<rparr>)"
proof -
  define l where "l = me @ '' '' @ uri @ '' HTTP/1.1''"
  have l: "take (length me) l = me" "take (length uri) (drop (length me + 1) l) = uri" "length me + 1 \<le> length l"
    "length me + 1 + length uri \<le> length l" "length l < npos"
    using assms(3) by (simp_all add: l_def)
  have p: "find l '' '' 0 = length me"
    using assms(1) find_sub_at [of "CHR '' ''" me "[]"] by (simp add: find_0 clean_def CRLF_def l_def)
  have "find_sub '' '' (uri @ '' HTTP/1.1'') = Some (length uri)"
    using assms(2) find_sub_at [of "CHR '' ''" uri "[]"] by (simp add: clean_def CRLF_def)
  then have "str_find ((me @ '' '') @ uri @ '' HTTP/1.1'') '' '' (length (me @ '' '')) = Some (length me + 1 + length uri)"
    unfolding str_find_from by simp
  then have p1: "find l '' '' (length me + 1) = length me + 1 + length uri" by (simp add: find_def l_def)
  have q: "find uri ''?'' 0 = npos"
    using assms(2) find_sub_absent [of "CHR ''?''" uri "[]"] by (simp add: find_0 clean_def CRLF_def)
  have n: "length me \<noteq> npos" "length me + 1 + length uri \<noteq> npos" "add64 (length me) 1 = length me + 1"
    "sub64 (sub64 (length me + 1 + length uri) (length me)) 1 = length uri"
    using l by (auto simp: sub64_small add64_small)
  show ?thesis
    unfolding l_def [symmetric] ParseStartLine_request_def Let_def p n(3) p1 n(4) substr_def
    using n(1,2) l by (simp add: q)
qed

text \<open>How both parsers cut a message with header lines \<open>h\<close> into its parts.\<close>

lemma message_split:
  assumes c: "c = s @ CRLF @ h @ CRLF @ CRLF @ body" and cr: "CHR 13 \<notin> set s" and len: "length c < npos"
    and h: "find_sub (CRLF @ CRLF) (h @ CRLF @ CRLF @ body) = Some (length h)" "h \<noteq> []" "hd h \<noteq> CHR 13"
  shows "start_end c = length s" "start_end c \<noteq> npos" "substr c 0 (length s) = Some s"
    "\<exists>a p e. header_start c = a \<and> body_split c = (p, e) \<and> substr c a (sub64 p a) = Some h \<and> substr_from c e = Some body"
proof -
  have first: "find c CRLF 0 = length s"
    using find_sub_at [OF cr, of "[CHR 10]"] by (simp add: c CRLF_def find_0)
  obtain x xs where x: "h @ CRLF @ CRLF @ body = x # xs" "x \<noteq> CHR 13"
    using h(2,3) by (cases h) auto
  have "find_sub (CRLF @ CRLF) c = map_option ((+) (length s)) (find_sub (CRLF @ CRLF) (CRLF @ h @ CRLF @ CRLF @ body))"
    using find_sub_skip [OF cr, of "[CHR 10, CHR 13, CHR 10]"] by (simp add: c CRLF_def)
  also have "\<dots> = map_option ((+) (length s)) (map_option ((+) 2) (find_sub (CRLF @ CRLF) (h @ CRLF @ CRLF @ body)))"
    unfolding x(1) skip_CRLF [OF x(2)] by (rule refl)
  finally have split: "find c (CRLF @ CRLF) 0 = length s + 2 + length h" by (simp add: find_0 h(1))
  have l: "length s + 2 + length h + 4 \<le> length c" by (simp add: c CRLF_def)
  have n: "length s \<noteq> npos" "length s + 2 + length h \<noteq> npos" "add64 (length s) 2 = length s + 2"
    "add64 (length s + 2 + length h) 4 = length s + 2 + length h + 4"
    "sub64 (length s + 2 + length h) (length s + 2) = length h"
    using l len by (auto simp: add64_small sub64_small)
  show "start_end c = length s" "start_end c \<noteq> npos" using n first by (simp_all add: start_end_def Let_def)
  show "substr c 0 (length s) = Some s" by (simp add: c substr_def)
  have "header_start c = length s + 2" "body_split c = (length s + 2 + length h, length s + 2 + length h + 4)"
    unfolding header_start_def body_split_def first split Let_def using n by simp_all
  moreover have "substr c (length s + 2) (length h) = Some h" using l by (simp add: c substr_def CRLF_def)
  moreover have "c = (s @ CRLF @ h @ CRLF @ CRLF) @ body" "length (s @ CRLF @ h @ CRLF @ CRLF) = length s + 2 + length h + 4"
    by (simp_all add: c CRLF_def)
  then have "substr_from c (length s + 2 + length h + 4) = Some body"
    by (metis append_eq_conv_conj le_add1 length_append substr_from_def)
  ultimately show "\<exists>a p e. header_start c = a \<and> body_split c = (p, e) \<and> substr c a (sub64 p a) = Some h \<and> substr_from c e = Some body"
    using n(5) by metis
qed

text \<open>
  C14: A request is read back from its text: method and URI without blanks and query, at least one header
  field, names without a colon, and no line ends within the parts. The body may be anything.
\<close>
theorem request_roundtrip:
  assumes "request_ok r"
  shows "Parse_request (ToString_request r) r0 = Some r"
proof -
  define s where "s = m_method r @ '' '' @ m_uri r @ '' HTTP/1.1''"
  define h where "h = fields (m_header r)"
  define c where "c = ToString_request r"
  have ok: "clean '' '' (m_method r)" "clean '' ?'' (m_uri r)" "m_params r = []" "m_header r \<noteq> []"
    "\<forall>x \<in> set (m_header r). field_ok x" "sorted_wrt str_less (map fst (m_header r))" "length c < npos"
    using assms by (auto simp: request_ok_def c_def)
  have c: "c = s @ CRLF @ h @ CRLF @ CRLF @ m_body r"
    using ok(4) by (simp add: ToString_request_def header_text_fields c_def s_def h_def)
  have cr: "CHR 13 \<notin> set s" using ok(1,2) by (auto simp: clean_def CRLF_def s_def)
  have h: "h \<noteq> []" "hd h \<noteq> CHR 13" using fields_head [OF ok(5,4), of "[]"] by (auto simp: h_def)
  note parts = message_split [OF c cr ok(7) _ h, unfolded h_def, OF fields_no_blank_line [OF ok(5,4)]]
  obtain a p e where pos: "header_start c = a" "body_split c = (p, e)"
    and sub: "substr c a (sub64 p a) = Some h" "substr_from c e = Some (m_body r)"
    using parts(4) by (auto simp: h_def)
  have "length s < npos" "length h < npos" using ok(7) by (auto simp: c)
  then have st: "ParseStartLine_request s r1 = Some (r1\<lparr>m_method := m_method r, m_uri := m_uri r\<rparr>)" for r1
    using ParseStartLine_ok [OF ok(1,2)] by (simp add: s_def)
  have hd: "ParseHeader_request h [] = Some (m_header r)"
    using ParseHeader_fields [OF ok(5,4,6)] \<open>length h < npos\<close> by (simp add: h_def)
  show ?thesis
    unfolding c_def [symmetric] Parse_request_def Let_def using parts(1-3)
    by (simp add: pos sub st hd ok(3))
qed

definition request_example :: http_request where
  "request_example = \<lparr>m_header = [(''Content-Length'', ''2''), (''Host'', ''a b'')], m_params = [], m_method = ''POST'',
     m_uri = ''/x'', m_body = [CHR 13, CHR 10]\<rparr>"

theorem request_roundtrip_witness: "Parse_request (ToString_request request_example) CHttpRequest = Some request_example"
  by (rule request_roundtrip)
    (simp add: request_ok_def request_example_def clean_def field_ok_def ToString_request_def header_text_def CRLF_def npos_def uchar_def)

section \<open>Headers that throw\<close>

lemma header_line_bare:
  assumes "clean '':'' k" and "length k + 2 \<le> npos"
  shows "header_line (k @ '':'') m = None" "last_line_response (k @ '':'') m = None"
proof -
  have "CHR '':'' \<notin> set k" using assms(1) by (auto simp: clean_def)
  then have "find_sub '':'' (k @ '':'') = Some (length k)" using find_sub_at [of "CHR '':''" k "[]" "[]"] by simp
  then show "header_line (k @ '':'') m = None" "last_line_response (k @ '':'') m = None"
    using assms(2) by (simp_all add: header_line_def last_line_response_def find_0 add64_small substr_from_def Let_def)
qed

lemma header_loop_bare:
  assumes "\<forall>l \<in> set ls. line_ok l" "bad \<in> set ls" "\<And>m. header_line bad m = None" "\<And>m. last_line bad m = None"
  shows "header_loop last_line CRLF (pre @ joined ls) (length pre) m = None"
  using assms(1,2)
proof (induction ls arbitrary: pre m)
  case (Cons x xs)
  have cr: "CHR 13 \<notin> set x" using Cons.prems by (auto simp: line_ok_def clean_def CRLF_def)
  show ?case
  proof (cases "xs = []")
    case True
    have "str_find (pre @ x) CRLF (length pre) = None"
      unfolding str_find_from using find_sub_absent [OF cr] by (simp add: CRLF_def)
    then show ?thesis using True Cons.prems(2) assms(4) by (simp add: header_loop.simps substr_from_def)
  next
    case False
    have f: "str_find (pre @ joined (x # xs)) CRLF (length pre) = Some (length pre + length x)"
      unfolding joined_Cons [OF False] str_find_from using find_sub_at [OF cr, of "[CHR 10]"] by (simp add: CRLF_def)
    have "header_loop last_line CRLF (pre @ joined (x # xs)) (length pre) m =
        Option.bind (header_line x m) (header_loop last_line CRLF (pre @ joined (x # xs)) (length (pre @ x @ CRLF)))"
      using f False by (subst header_loop.simps) (simp add: substr_def joined_Cons, simp add: CRLF_def add.assoc)
    moreover have "pre @ joined (x # xs) = (pre @ x @ CRLF) @ joined xs" using False by (simp add: joined_Cons)
    ultimately show ?thesis
      using Cons.IH [of "pre @ x @ CRLF"] Cons.prems assms(3) by (cases "bad = x") (auto simp: bind_eq_None_conv)
  qed
qed simp

lemma ParseHeader_bare:
  assumes "\<forall>l \<in> set ls. line_ok l" "k @ '':'' \<in> set ls" "clean '':'' k" "length (joined ls) < npos - 1"
  shows "ParseHeader_request (joined ls) m = None" "ParseHeader_response (joined ls) m = None"
proof -
  obtain x xs where ls: "ls = x # xs" using assms(2) by (cases ls) auto
  have "length l \<le> length (joined ls)" if "l \<in> set ls" for l ls using that by (induction ls rule: joined.induct) auto
  then have "length (k @ '':'') \<le> length (joined ls)" using assms(2) by blast
  then have "length k + 2 \<le> npos" using assms(4) by simp
  note bare = header_line_bare [OF assms(3) this]
  have cr: "CHR 13 \<notin> set x" "CHR 10 \<notin> set x" using assms(1) ls by (auto simp: line_ok_def clean_def CRLF_def)
  have "header_loop last_line (line_end (joined ls)) (joined ls) 0 m = None"
    if bad: "\<And>m. last_line (k @ '':'') m = None" for last_line :: "string \<Rightarrow> params \<Rightarrow> params option"
  proof (cases "xs = []")
    case True
    then have "joined ls = k @ '':''" "k @ '':'' = x" using assms(2) ls by auto
    moreover have "line_end x = [CHR 10]" using find_sub_absent [OF cr(1), of "[CHR 10]"] by (simp add: line_end_def find_0 CRLF_def)
    moreover have "str_find x [CHR 10] 0 = None" using find_sub_absent [OF cr(2), of "[]"] by simp
    ultimately show ?thesis using bad by (simp add: header_loop.simps [of _ "[CHR 10]"] substr_from_def)
  next
    case False
    have "find_sub CRLF (joined ls) = Some (length x)"
      unfolding ls joined_Cons [OF False] using find_sub_at [OF cr(1), of "[CHR 10]"] by (simp add: CRLF_def)
    moreover have "length x \<noteq> npos" using assms(4) by (auto simp: ls joined_Cons [OF False])
    ultimately have "line_end (joined ls) = CRLF" by (simp add: line_end_def find_0)
    then show ?thesis using header_loop_bare [OF assms(1,2), of last_line "[]" m] bare(1) bad by simp
  qed
  then show "ParseHeader_request (joined ls) m = None" "ParseHeader_response (joined ls) m = None"
    using bare by (simp_all add: ParseHeader_request_def ParseHeader_response_def)
qed

text \<open>
  C38: A header field with nothing behind its colon ends the parse with an exception, in requests and in responses, whatever the
  first line, the header lines before and after it and the body are. So does a response without header fields and body,
  because the parser then takes the blank line for a header and reads behind its end.
\<close>
theorem http_parse_throws:
  assumes "\<forall>l \<in> set ls. line_ok l" and "k @ '':'' \<in> set ls" and "clean '':'' k" and "clean [] line"
    and "length (line @ CRLF @ concat (map (\<lambda>l. l @ CRLF) ls) @ CRLF @ body) < npos"
  shows "Parse_request (line @ CRLF @ concat (map (\<lambda>l. l @ CRLF) ls) @ CRLF @ body) r0 = None \<and>
    Parse_response (line @ CRLF @ concat (map (\<lambda>l. l @ CRLF) ls) @ CRLF @ body) r1 = None \<and>
    Parse_response (line @ CRLF @ CRLF) r1 = None"
proof (intro conjI)
  define c where "c = line @ CRLF @ joined ls @ CRLF @ CRLF @ body"
  have "ls \<noteq> []" using assms(2) by auto
  then have c: "line @ CRLF @ concat (map (\<lambda>l. l @ CRLF) ls) @ CRLF @ body = c" by (simp add: c_def joined_lines)
  have len: "length c < npos" using assms(5) unfolding c .
  have cr: "CHR 13 \<notin> set line" using assms(4) by (auto simp: clean_def CRLF_def)
  have "joined ls \<noteq> []" "hd (joined ls) \<noteq> CHR 13" using joined_head [OF assms(1) \<open>ls \<noteq> []\<close>, of "[]"] by auto
  then obtain a p e where parts: "header_start c = a" "body_split c = (p, e)" "substr c a (sub64 p a) = Some (joined ls)"
      "start_end c \<noteq> npos"
    using message_split [OF c_def cr len no_blank_line [OF assms(1) \<open>ls \<noteq> []\<close>]] by blast
  have "length (joined ls) < npos - 1" using len by (simp add: c_def CRLF_def)
  note throw = ParseHeader_bare [OF assms(1-3) this]
  show "Parse_request (line @ CRLF @ concat (map (\<lambda>l. l @ CRLF) ls) @ CRLF @ body) r0 = None"
    "Parse_response (line @ CRLF @ concat (map (\<lambda>l. l @ CRLF) ls) @ CRLF @ body) r1 = None"
    unfolding c Parse_request_def Parse_response_def Let_def parts(1,2) using parts(4) throw by (auto simp: parts(3) bind_eq_None_conv)
next
  define c where "c = line @ CRLF @ CRLF"
  have cr: "CHR 13 \<notin> set line" using assms(4) by (auto simp: clean_def CRLF_def)
  have "ls \<noteq> []" using assms(2) by auto
  then have small: "length line + 4 < npos" using assms(5) joined_lines [of ls] by (auto simp: CRLF_def)
  have "find c CRLF 0 = length line" "find c (CRLF @ CRLF) 0 = length line"
    using find_sub_at [OF cr, of "[CHR 10]"] find_sub_at [OF cr, of "[CHR 10, CHR 13, CHR 10]" "[]"]
    by (simp_all add: c_def CRLF_def find_0)
  moreover have l: "length line \<noteq> npos" "length line + 2 \<le> npos" "length line + 4 \<le> npos"
    using small by auto
  ultimately have pos: "start_end c = length line" "header_start c = length line + 2"
    "body_split c = (length line, length line + 4)"
    by (simp_all add: start_end_def header_start_def body_split_def Let_def add64_small)
  have "sub64 (length line) (length line + 2) = 2 ^ 64 - 2" using small by (simp add: sub64_def npos_def)
  moreover have "substr c (length line + 2) (2 ^ 64 - 2) = Some CRLF"
    by (simp add: substr_def c_def CRLF_def)
  ultimately have sub: "substr c (length line + 2) (sub64 (length line) (length line + 2)) = Some CRLF" by simp
  have "ParseHeader_response CRLF m = None" for m
    by (simp add: ParseHeader_response_def line_end_def find_0 CRLF_def header_loop.simps npos_def substr_def substr_from_def
        str_find_def header_line_def last_line_response_def add64_def)
  then show "Parse_response (line @ CRLF @ CRLF) r1 = None"
    unfolding c_def [symmetric] Parse_response_def Let_def pos using sub l(1) by (auto simp: bind_eq_None_conv)
qed

theorem http_parse_throws_witness:
  "Parse_request (''POST /x HTTP/1.1'' @ CRLF @ concat (map (\<lambda>l. l @ CRLF) [''Accept: *'', ''Host:'', ''A: b'']) @ CRLF @ ''body'') CHttpRequest = None \<and>
    Parse_response (''POST /x HTTP/1.1'' @ CRLF @ CRLF) CHttpResponse = None"
  using http_parse_throws [of "[''Accept: *'', ''Host:'', ''A: b'']" "''Host''" "''POST /x HTTP/1.1''" "''body''" CHttpRequest CHttpResponse]
  by (simp add: line_ok_def clean_def CRLF_def npos_def)

section \<open>Complete messages\<close>

lemma sint_small: "unat (w :: u32) < 2 ^ 31 \<Longrightarrow> sint w = int (unat w)"
proof -
  assume "unat w < 2 ^ 31"
  then have "int (unat w) < int (2 ^ 31)" by (simp only: of_nat_less_iff)
  then have "uint w < 2 ^ 31" by simp
  moreover have "- (2 ^ 31) \<le> uint w" using uint_ge_0 [of w] by (simp add: order_trans [of _ 0])
  ultimately have "signed_take_bit 31 (uint w) = uint w" by (rule signed_take_bit_int_eq_self [rotated])
  then show ?thesis by (simp add: sint_uint)
qed

text \<open>
  \<open>net_complete_longconn\<close> reports a length only if the announced number of bytes has been received and
  is at most 32 MB, and rejects larger ones; the only message it never reports is one that announces the
  length 0.
\<close>
theorem longconn_complete:
  assumes "4 \<le> length data" and "4 \<le> unat len"
  shows "\<exists>r. net_complete_longconn data len = Some r \<and>
    (let n = unat (of_le32 (rev (take 4 data)))
     in r = (if 2 ^ 25 < n then - 1 else if unat len < n then 0 else int n))"
proof -
  define w where "w = of_le32 (rev (take 4 data))"
  have max: "w > PKT_MAX_LEN \<longleftrightarrow> 2 ^ 25 < unat w" by (simp add: PKT_MAX_LEN_def word_less_nat_alt)
  have s: "sint w = int (unat w)" if "\<not> 2 ^ 25 < unat w"
    using that sint_small [of w] by simp
  have "\<not> len < 4" using assms(2) by (simp add: word_less_nat_alt)
  moreover have "mem_read data 0 4 = Some (take 4 data)" using assms(1) by (simp add: mem_read_def)
  ultimately have "net_complete_longconn data len = Some (if w > PKT_MAX_LEN then - 1 else if len < w then 0 else sint w)"
    by (simp add: net_complete_longconn_def Let_def w_def)
  then show ?thesis
    unfolding Let_def w_def [symmetric] max word_less_nat_alt [of len] using s by auto
qed

theorem longconn_complete_witness: "net_complete_longconn [0, 0, 0, 6, 65, 66] 6 = Some 6"
  using longconn_complete [of "[0, 0, 0, 6, 65, 66]" 6] by (simp add: Let_def)

text \<open>
  \<open>net_complete_http\<close> looks for the end of the header in the C string at \<open>data\<close>, not in the bytes
  received: when nothing behind the received bytes ends that string it reads on without bound, and a
  header end that lies behind the received bytes is reported as a complete message.
\<close>
theorem http_complete_overread:
  assumes "CHR 0x00 \<notin> set data" and "CHR 13 \<notin> set data" and "14 \<le> unat len" and "length data < 2 ^ 30"
    and "find_sub ''Content-Length:'' (data @ CRLF @ CRLF) = None"
  shows "net_complete_http data len = None \<and>
     net_complete_http (data @ CRLF @ CRLF @ [CHR 0x00]) len = Some (int (length data) + 4)"
proof -
  have len: "\<not> len < 14" using assms(3) by (simp add: word_less_nat_alt)
  have c: "c_str (data @ CRLF @ CRLF @ [CHR 0x00]) = data @ CRLF @ CRLF"
  proof -
    have "\<forall>c \<in> set (data @ CRLF @ CRLF). uchar c \<noteq> 0"
      using assms(1) uchar_inj [of _ "CHR 0x00"] by (auto simp: CRLF_def uchar_def)
    moreover have "c_str (s @ [CHR 0x00]) = s" if "\<forall>c \<in> set s. uchar c \<noteq> 0" for s
      using that by (induction s) (auto simp: c_str_def uchar_def)
    ultimately show ?thesis by (metis append.assoc)
  qed
  have "find_sub (CRLF @ CRLF) (data @ CRLF @ CRLF) = Some (length data)"
    using find_sub_at [OF assms(2), of "[CHR 10, CHR 13, CHR 10]" "[]"] by (simp add: CRLF_def)
  moreover have "wrap32 (int (length data) + 4) = int (length data) + 4"
    using assms(4) by (intro wrap32_id) auto
  ultimately have "net_complete_http (data @ CRLF @ CRLF @ [CHR 0x00]) len = Some (int (length data) + 4)"
    using len assms(5) by (simp add: net_complete_http_def c_strstr_def c)
  then show ?thesis using assms(1) len by (simp add: net_complete_http_def c_strstr_def)
qed

theorem http_complete_overread_witness:
  "net_complete_http (''GET / HTTP/1.1'') 14 = None"
  using http_complete_overread [of "''GET / HTTP/1.1''" 14] by (simp add: CRLF_def)

end
