(* ===== verification/TimeTick.thy ===== *)
theory TimeTick
  imports CString "HOL-Library.Signed_Division"
begin

text \<open>
  \<open>utils/datetime.h\<close>, \<open>utils/datetime.cpp\<close>: \<open>TimeTick\<close>, a signed span of time in seconds and
  microseconds, and \<open>TimeCounter\<close>. \<open>m_sec\<close> is a \<open>time_t\<close> (64 bits) and \<open>m_usec\<close> an \<open>int\<close> (32 bits);
  signed overflow, which C++ leaves undefined, is \<open>None\<close>. Division and remainder truncate towards zero.
  \<open>gettimeofday\<close> is an argument; the functions that return a \<open>double\<close> are not modelled.
\<close>

record time_tick =
  m_sec :: int
  m_usec :: int

definition in64 :: "int \<Rightarrow> int option" where
  "in64 x = (if - (2 ^ 63) \<le> x \<and> x < 2 ^ 63 then Some x else None)"

definition in32 :: "int \<Rightarrow> int option" where
  "in32 x = (if - (2 ^ 31) \<le> x \<and> x < 2 ^ 31 then Some x else None)"

definition MICROSECONDS_PER_SECOND :: int where
  "MICROSECONDS_PER_SECOND = 1000000"

definition SECONDS_PER_HOUR :: int where
  "SECONDS_PER_HOUR = 3600"

definition SECONDS_PER_DAY :: int where
  "SECONDS_PER_DAY = 86400"

definition IsNormalized :: "time_tick \<Rightarrow> bool" where
  "IsNormalized t \<longleftrightarrow>
     (m_sec t \<ge> 0 \<and> m_usec t \<ge> 0 \<and> m_usec t < MICROSECONDS_PER_SECOND) \<or>
     (m_sec t \<le> 0 \<and> m_usec t \<le> 0 \<and> m_usec t > - MICROSECONDS_PER_SECOND)"

definition carry :: "time_tick \<Rightarrow> time_tick option" where
  \<comment> \<open>\<open>m_sec += m_usec / MICROSECONDS_PER_SECOND; m_usec = m_usec % MICROSECONDS_PER_SECOND\<close>\<close>
  "carry t = map_option (\<lambda>s. t\<lparr>m_sec := s, m_usec := m_usec t smod MICROSECONDS_PER_SECOND\<rparr>)
     (in64 (m_sec t + m_usec t sdiv MICROSECONDS_PER_SECOND))"

definition borrow :: "time_tick \<Rightarrow> time_tick option" where
  \<comment> \<open>\<open>m_sec -= (-m_usec) / MICROSECONDS_PER_SECOND; m_usec = -((-m_usec) % MICROSECONDS_PER_SECOND)\<close>\<close>
  "borrow t = do {
     n \<leftarrow> in32 (- m_usec t);
     s \<leftarrow> in64 (m_sec t - n sdiv MICROSECONDS_PER_SECOND);
     Some (t\<lparr>m_sec := s, m_usec := - (n smod MICROSECONDS_PER_SECOND)\<rparr>)
   }"

definition Normalize :: "time_tick \<Rightarrow> time_tick option" where
  "Normalize t =
     (if IsNormalized t then Some t
      else if m_sec t \<ge> 0 then
        (if m_usec t \<ge> 0 then carry t
         else map_option (\<lambda>t. if m_sec t > 0 \<and> m_usec t < 0
                              then t\<lparr>m_sec := m_sec t - 1, m_usec := MICROSECONDS_PER_SECOND + m_usec t\<rparr> else t)
                (borrow t))
      else
        (if m_usec t \<ge> 0
         then map_option (\<lambda>t. if m_sec t < 0 \<and> m_usec t > 0
                              then t\<lparr>m_sec := m_sec t + 1, m_usec := m_usec t - MICROSECONDS_PER_SECOND\<rparr> else t)
                (carry t)
         else borrow t))"

definition TimeTick_new :: "int \<Rightarrow> int \<Rightarrow> time_tick option" where
  "TimeTick_new tm us = Normalize \<lparr>m_sec = tm, m_usec = us\<rparr>"

definition TimeTick_copy :: "time_tick \<Rightarrow> time_tick option" where
  "TimeTick_copy tt = Normalize \<lparr>m_sec = m_sec tt, m_usec = m_usec tt\<rparr>"

definition Now :: "int \<times> int \<Rightarrow> time_tick option" where
  \<comment> \<open>the argument is what \<open>gettimeofday\<close> stores\<close>
  "Now tv = Normalize \<lparr>m_sec = fst tv, m_usec = snd tv\<rparr>"

definition op_plus :: "time_tick \<Rightarrow> time_tick \<Rightarrow> time_tick option" where
  "op_plus a b = do {
     s \<leftarrow> in64 (m_sec a + m_sec b);
     u \<leftarrow> in32 (m_usec a + m_usec b);
     Normalize \<lparr>m_sec = s, m_usec = u\<rparr>
   }"

definition op_minus :: "time_tick \<Rightarrow> time_tick \<Rightarrow> time_tick option" where
  "op_minus a b = do {
     s \<leftarrow> in64 (m_sec a - m_sec b);
     u \<leftarrow> in32 (m_usec a - m_usec b);
     Normalize \<lparr>m_sec = s, m_usec = u\<rparr>
   }"

definition plus_assign :: "time_tick \<Rightarrow> time_tick \<Rightarrow> time_tick option" where
  "plus_assign a b = do {
     s \<leftarrow> in64 (m_sec a + m_sec b);
     u \<leftarrow> in32 (m_usec a + m_usec b);
     Normalize (a\<lparr>m_sec := s, m_usec := u\<rparr>)
   }"

definition minus_assign :: "time_tick \<Rightarrow> time_tick \<Rightarrow> time_tick option" where
  "minus_assign a b = do {
     s \<leftarrow> in64 (m_sec a - m_sec b);
     u \<leftarrow> in32 (m_usec a - m_usec b);
     Normalize (a\<lparr>m_sec := s, m_usec := u\<rparr>)
   }"

definition op_neg :: "time_tick \<Rightarrow> time_tick option" where
  "op_neg a = do {
     s \<leftarrow> in64 (- m_sec a);
     u \<leftarrow> in32 (- m_usec a);
     Some \<lparr>m_sec = s, m_usec = u\<rparr>
   }"

definition compared :: "(time_tick \<Rightarrow> time_tick \<Rightarrow> bool) \<Rightarrow> time_tick \<Rightarrow> time_tick \<Rightarrow> bool option" where
  \<comment> \<open>the two assertions of every comparison\<close>
  "compared f a b = do { guard (IsNormalized a); guard (IsNormalized b); Some (f a b) }"

definition op_gt :: "time_tick \<Rightarrow> time_tick \<Rightarrow> bool option" where
  "op_gt = compared (\<lambda>a b. m_sec a > m_sec b \<or> (m_sec a = m_sec b \<and> m_usec a > m_usec b))"

definition op_lt :: "time_tick \<Rightarrow> time_tick \<Rightarrow> bool option" where
  "op_lt = compared (\<lambda>a b. m_sec a < m_sec b \<or> (m_sec a = m_sec b \<and> m_usec a < m_usec b))"

definition op_ge :: "time_tick \<Rightarrow> time_tick \<Rightarrow> bool option" where
  "op_ge = compared (\<lambda>a b. m_sec a \<ge> m_sec b \<or> (m_sec a = m_sec b \<and> m_usec a \<ge> m_usec b))"

definition op_le :: "time_tick \<Rightarrow> time_tick \<Rightarrow> bool option" where
  "op_le = compared (\<lambda>a b. m_sec a \<le> m_sec b \<or> (m_sec a = m_sec b \<and> m_usec a \<le> m_usec b))"

definition op_eq :: "time_tick \<Rightarrow> time_tick \<Rightarrow> bool option" where
  "op_eq = compared (\<lambda>a b. m_sec a = m_sec b \<and> m_usec a = m_usec b)"

definition op_ne :: "time_tick \<Rightarrow> time_tick \<Rightarrow> bool option" where
  "op_ne = compared (\<lambda>a b. m_sec a \<noteq> m_sec b \<and> m_usec a \<noteq> m_usec b)"

section \<open>Fields and text\<close>

definition GetDays :: "time_tick \<Rightarrow> int" where
  "GetDays t = wrap32 (m_sec t sdiv SECONDS_PER_DAY)"

definition GetHours :: "time_tick \<Rightarrow> int" where
  "GetHours t = (m_sec t smod SECONDS_PER_DAY) sdiv SECONDS_PER_HOUR"

definition GetMinutes :: "time_tick \<Rightarrow> int" where
  "GetMinutes t = (m_sec t smod SECONDS_PER_HOUR) sdiv 60"

definition GetSeconds :: "time_tick \<Rightarrow> int" where
  "GetSeconds t = m_sec t smod 60"

definition GetMilliSeconds :: "time_tick \<Rightarrow> int" where
  "GetMilliSeconds t = m_usec t sdiv 1000"

definition GetMicroSeconds :: "time_tick \<Rightarrow> int" where
  "GetMicroSeconds t = m_usec t smod 1000"

definition zero_padded :: "nat \<Rightarrow> int \<Rightarrow> string" where
  \<comment> \<open>the conversion \<open>%0nd\<close> of \<open>printf\<close>\<close>
  "zero_padded n x =
     (let d = show_nat (nat \<bar>x\<bar>);
          sg = (if x < 0 then ''-'' else [])
      in sg @ replicate (n - length sg - length d) (CHR ''0'') @ d)"

definition ToString :: "time_tick \<Rightarrow> string" where
  "ToString t = take 29 (zero_padded 2 (GetHours t) @ '':'' @ zero_padded 2 (GetMinutes t) @ '':'' @
     zero_padded 2 (GetSeconds t) @ ''::'' @ zero_padded 4 (GetMilliSeconds t) @ '':'' @ zero_padded 4 (GetMicroSeconds t))"

section \<open>The stop watch\<close>

record time_counter =
  m_start :: time_tick
  m_last :: time_tick
  m_span :: time_tick

definition Reset :: "int \<times> int \<Rightarrow> int \<times> int \<Rightarrow> time_counter \<Rightarrow> time_counter option" where
  \<comment> \<open>two readings of the clock\<close>
  "Reset tv1 tv2 c = do { s \<leftarrow> Now tv1; l \<leftarrow> Now tv2; Some (c\<lparr>m_start := s, m_last := l\<rparr>) }"

definition Pause :: "int \<times> int \<Rightarrow> time_counter \<Rightarrow> time_counter option" where
  "Pause tv c = do { l \<leftarrow> Now tv; d \<leftarrow> op_minus l (m_start c); Some (c\<lparr>m_last := l, m_span := d\<rparr>) }"

definition TimeCounter_ToString :: "int \<times> int \<Rightarrow> time_counter \<Rightarrow> (string \<times> time_counter) option" where
  "TimeCounter_ToString tv c = do { c \<leftarrow> Pause tv c; Some (ToString (m_span c), c) }"

section \<open>Ticks as numbers of microseconds\<close>

definition total :: "time_tick \<Rightarrow> int" where
  "total t = m_sec t * MICROSECONDS_PER_SECOND + m_usec t"

definition sane :: "time_tick \<Rightarrow> bool" where
  \<comment> \<open>normalized, and far from the limits of the type\<close>
  "sane t \<longleftrightarrow> IsNormalized t \<and> \<bar>m_sec t\<bar> < 2 ^ 60"

lemmas tick_defs = IsNormalized_def MICROSECONDS_PER_SECOND_def

lemma in64_in: "- (2 ^ 63) \<le> x \<Longrightarrow> x < 2 ^ 63 \<Longrightarrow> in64 x = Some x"
  by (simp add: in64_def)

lemma in32_in: "- (2 ^ 31) \<le> x \<Longrightarrow> x < 2 ^ 31 \<Longrightarrow> in32 x = Some x"
  by (simp add: in32_def)

lemma trunc_nonneg: "0 \<le> x \<Longrightarrow> 0 < m \<Longrightarrow> x sdiv m = x div m \<and> x smod m = x mod m" for x m :: int
  by (cases "x = 0") (simp_all add: signed_divide_int_def smod_int_alt_def)

lemma trunc_neg: "x < 0 \<Longrightarrow> 0 < m \<Longrightarrow> x sdiv m = - ((- x) div m) \<and> x smod m = - ((- x) mod m)" for x m :: int
  using trunc_nonneg [of "- x" m] by simp

lemma trunc_split: "m * (x sdiv m) + x smod m = x" for x m :: int
  by (rule mult_sdiv_smod_eq)

lemma normal_less:
  assumes "IsNormalized a" and "IsNormalized b"
  shows "total a < total b \<longleftrightarrow> m_sec a < m_sec b \<or> (m_sec a = m_sec b \<and> m_usec a < m_usec b)"
  using assms by (auto simp: tick_defs total_def)

lemma normal_unique:
  assumes "IsNormalized a" and "IsNormalized b" and "total a = total b"
  shows "m_sec a = m_sec b \<and> m_usec a = m_usec b"
  using normal_less [OF assms(1,2)] normal_less [OF assms(2,1)] assms(3) by auto

lemma Normalize_ok:
  assumes "\<bar>m_sec t\<bar> < 2 ^ 63 - 4000" and "- (2 ^ 31) < m_usec t" and "m_usec t < 2 ^ 31"
  shows "\<exists>t'. Normalize t = Some t' \<and> IsNormalized t' \<and> total t' = total t"
proof (cases "IsNormalized t")
  case True
  then show ?thesis by (simp add: Normalize_def)
next
  case False
  define q r where "q = \<bar>m_usec t\<bar> div 1000000" and "r = \<bar>m_usec t\<bar> mod 1000000"
  have qr: "\<bar>m_usec t\<bar> = q * 1000000 + r" "0 \<le> r" "r < 1000000" by (simp_all add: q_def r_def)
  have q: "0 \<le> q" "q < 2148" using qr assms(2,3) by auto
  show ?thesis
  proof (cases "0 \<le> m_usec t")
    case True
    then have sd: "m_usec t sdiv 1000000 = q" "m_usec t smod 1000000 = r"
      using trunc_nonneg [of "m_usec t" 1000000] by (simp_all add: q_def r_def)
    have "in64 (m_sec t + q) = Some (m_sec t + q)" using assms(1) q by (intro in64_in) auto
    then have "carry t = Some (t\<lparr>m_sec := m_sec t + q, m_usec := r\<rparr>)"
      by (simp add: carry_def MICROSECONDS_PER_SECOND_def sd)
    then show ?thesis
      using True False qr q by (auto simp: Normalize_def tick_defs total_def)
  next
    case neg: False
    have n: "in32 (- m_usec t) = Some (- m_usec t)" using assms(2) neg by (intro in32_in) auto
    have sd: "(- m_usec t) sdiv 1000000 = q" "(- m_usec t) smod 1000000 = r"
      using trunc_nonneg [of "- m_usec t" 1000000] neg by (simp_all add: q_def r_def abs_if)
    have "in64 (m_sec t - q) = Some (m_sec t - q)" using assms(1) q by (intro in64_in) auto
    then have "borrow t = Some (t\<lparr>m_sec := m_sec t - q, m_usec := - r\<rparr>)"
      using n sd by (simp add: borrow_def MICROSECONDS_PER_SECOND_def del: sdiv_minus_eq smod_minus_eq minus_sdiv_eq minus_smod_eq)
    then show ?thesis
      using neg False qr q by (auto simp: Normalize_def tick_defs total_def)
  qed
qed

lemma normal_usec: "IsNormalized t \<Longrightarrow> \<bar>m_usec t\<bar> < 1000000"
  by (auto simp: tick_defs)

lemma sum_ok:
  assumes "\<bar>s\<bar> \<le> 2 ^ 63 - 4001" and "\<bar>u\<bar> < 2000000"
  shows "\<exists>c. do { s' \<leftarrow> in64 s; u' \<leftarrow> in32 u; Normalize \<lparr>m_sec = s', m_usec = u'\<rparr> } = Some c \<and> IsNormalized c \<and>
    total c = s * MICROSECONDS_PER_SECOND + u"
proof -
  have "in64 s = Some s" "in32 u = Some u" using assms by (auto intro!: in64_in in32_in)
  then show ?thesis using Normalize_ok [of "\<lparr>m_sec = s, m_usec = u\<rparr>"] assms by (auto simp: total_def)
qed

lemma normal_sec: "IsNormalized t \<Longrightarrow> \<bar>total t\<bar> \<le> n * 1000000 \<Longrightarrow> \<bar>m_sec t\<bar> \<le> n"
  by (auto simp: tick_defs total_def)

lemma op_plus_ok:
  assumes "sane a" and "sane b"
  shows "\<exists>c. op_plus a b = Some c \<and> IsNormalized c \<and> total c = total a + total b"
proof -
  have "\<bar>m_sec a + m_sec b\<bar> \<le> 2 ^ 63 - 4001" "\<bar>m_usec a + m_usec b\<bar> < 2000000"
    using assms normal_usec [of a] normal_usec [of b] by (auto simp: sane_def)
  from sum_ok [OF this] show ?thesis by (simp add: op_plus_def total_def algebra_simps)
qed

lemma op_minus_ok:
  assumes "IsNormalized a" and "\<bar>m_sec a\<bar> < 2 ^ 62" and "sane b"
  shows "\<exists>c. op_minus a b = Some c \<and> IsNormalized c \<and> total c = total a - total b"
proof -
  have "\<bar>m_sec a - m_sec b\<bar> \<le> 2 ^ 63 - 4001" "\<bar>m_usec a - m_usec b\<bar> < 2000000"
    using assms normal_usec [of a] normal_usec [of b] by (auto simp: sane_def)
  from sum_ok [OF this] show ?thesis by (simp add: op_minus_def total_def algebra_simps)
qed

lemma tick_eqI: "m_sec a = m_sec b \<Longrightarrow> m_usec a = m_usec b \<Longrightarrow> a = b" for a b :: time_tick
  by simp

text \<open>
  C36: \<open>Normalize\<close> does not change the span that a tick stands for and brings it to the only normal form
  of this span: both fields of the same sign, less than a second in \<open>m_usec\<close>.
\<close>
theorem Normalize_canonical:
  fixes t :: time_tick
  assumes "\<bar>m_sec t\<bar> < 2 ^ 63 - 4000" and "- (2 ^ 31) < m_usec t" and "m_usec t < 2 ^ 31"
  shows "\<exists>t'. Normalize t = Some t' \<and> IsNormalized t' \<and> total t' = total t \<and>
    (\<forall>u :: time_tick. IsNormalized u \<and> total u = total t \<longrightarrow> u = t')"
proof -
  obtain t' where t': "Normalize t = Some t'" "IsNormalized t'" "total t' = total t" using Normalize_ok [OF assms] by blast
  moreover have "u = t'" if "IsNormalized u" "total u = total t" for u :: time_tick
    using normal_unique [OF that(1) t'(2)] that(2) t'(3) by (intro tick_eqI) auto
  ultimately show ?thesis by blast
qed

theorem Normalize_canonical_witness: "Normalize \<lparr>m_sec = 3, m_usec = -5500000\<rparr> = Some \<lparr>m_sec = -2, m_usec = -500000\<rparr>"
proof -
  have n: "IsNormalized \<lparr>m_sec = -2, m_usec = -500000\<rparr> \<and> total \<lparr>m_sec = -2, m_usec = -500000\<rparr> = total \<lparr>m_sec = 3, m_usec = -5500000\<rparr>"
    by (simp add: tick_defs total_def)
  then show ?thesis using Normalize_canonical [of "\<lparr>m_sec = 3, m_usec = -5500000\<rparr>"] by auto
qed

text \<open>
  On ticks whose seconds fit in 61 bits, addition and subtraction compute with the spans and return
  normal forms, and subtraction undoes addition.
\<close>
theorem tick_arithmetic:
  fixes a b :: time_tick
  assumes "sane a" and "sane b"
  shows "\<exists>c d. op_plus a b = Some c \<and> IsNormalized c \<and> total c = total a + total b \<and>
    op_minus a b = Some d \<and> IsNormalized d \<and> total d = total a - total b \<and> op_minus c b = Some a"
proof -
  obtain c where c: "op_plus a b = Some c" "IsNormalized c" "total c = total a + total b"
    using op_plus_ok [OF assms] by blast
  have "IsNormalized a" "\<bar>m_sec a\<bar> < 2 ^ 62" using assms(1) by (auto simp: sane_def)
  from op_minus_ok [OF this assms(2)] obtain d where d: "op_minus a b = Some d" "IsNormalized d" "total d = total a - total b"
    by blast
  have "\<bar>total a\<bar> \<le> (2 ^ 60 + 1) * 1000000" "\<bar>total b\<bar> \<le> (2 ^ 60 + 1) * 1000000"
    using assms normal_usec [of a] normal_usec [of b] by (auto simp: sane_def total_def MICROSECONDS_PER_SECOND_def)
  then have "\<bar>m_sec c\<bar> \<le> 2 * (2 ^ 60 + 1)" using c(2,3) by (intro normal_sec) auto
  then have "\<bar>m_sec c\<bar> < 2 ^ 62" by simp
  from op_minus_ok [OF c(2) this assms(2)] obtain e where e: "op_minus c b = Some e" "IsNormalized e" "total e = total a"
    using c(3) by auto
  have "e = a" using normal_unique [OF e(2) \<open>IsNormalized a\<close> e(3)] by (intro tick_eqI) auto
  then show ?thesis using c d e(1) by blast
qed

theorem tick_arithmetic_witness:
  "\<exists>c. op_plus \<lparr>m_sec = 5, m_usec = 900000\<rparr> \<lparr>m_sec = -3, m_usec = -950000\<rparr> = Some c \<and> total c = 1950000"
  using tick_arithmetic [of "\<lparr>m_sec = 5, m_usec = 900000\<rparr>" "\<lparr>m_sec = -3, m_usec = -950000\<rparr>"]
  by (auto simp: sane_def tick_defs total_def)

text \<open>
  On normalized ticks the operators \<open><\<close>, \<open>>\<close> and \<open>==\<close> compare the spans. The operators \<open>>=\<close> and
  \<open><=\<close> look at the seconds only, so both hold between any two ticks of the same second, and \<open>!=\<close>
  holds only when both fields differ.
\<close>
theorem tick_comparisons:
  fixes a b :: time_tick
  assumes "IsNormalized a" and "IsNormalized b"
  shows "op_lt a b = Some (total a < total b) \<and> op_gt a b = Some (total a > total b) \<and> op_eq a b = Some (total a = total b) \<and>
    op_ge a b = Some (m_sec a \<ge> m_sec b) \<and> op_le a b = Some (m_sec a \<le> m_sec b) \<and>
    op_ne a b = Some (m_sec a \<noteq> m_sec b \<and> m_usec a \<noteq> m_usec b)"
proof -
  have "total a = total b \<longleftrightarrow> m_sec a = m_sec b \<and> m_usec a = m_usec b"
    using normal_unique [OF assms] by (auto simp: total_def)
  moreover have c: "compared f a b = Some (f a b)" for f using assms by (simp add: compared_def)
  moreover have "(m_sec a \<ge> m_sec b \<or> (m_sec a = m_sec b \<and> P)) = (m_sec a \<ge> m_sec b)"
    "(m_sec a \<le> m_sec b \<or> (m_sec a = m_sec b \<and> P)) = (m_sec a \<le> m_sec b)" for P by auto
  ultimately show ?thesis
    unfolding op_lt_def op_gt_def op_eq_def op_ge_def op_le_def op_ne_def c normal_less [OF assms] normal_less [OF assms(2,1)]
    by (simp add: eq_commute [of "m_sec b"])
qed

theorem tick_comparisons_witness:
  "op_ge \<lparr>m_sec = 5, m_usec = 0\<rparr> \<lparr>m_sec = 5, m_usec = 900000\<rparr> = Some True \<and>
    op_lt \<lparr>m_sec = 5, m_usec = 0\<rparr> \<lparr>m_sec = 5, m_usec = 900000\<rparr> = Some True \<and>
    op_ne \<lparr>m_sec = 5, m_usec = 0\<rparr> \<lparr>m_sec = 5, m_usec = 900000\<rparr> = Some False"
  using tick_comparisons [of "\<lparr>m_sec = 5, m_usec = 0\<rparr>" "\<lparr>m_sec = 5, m_usec = 900000\<rparr>"]
  by (simp add: tick_defs total_def)

lemma tick_fields:
  "m_sec t sdiv SECONDS_PER_DAY * SECONDS_PER_DAY + GetHours t * SECONDS_PER_HOUR + GetMinutes t * 60 + GetSeconds t = m_sec t"
  "GetMilliSeconds t * 1000 + GetMicroSeconds t = m_usec t"
proof -
  have split: "x div 86400 * 86400 + (x mod 86400) div 3600 * 3600 + (x mod 3600) div 60 * 60 + x mod 60 = x" for x :: int
  proof -
    have "x mod 86400 mod 3600 = x mod 3600" "x mod 3600 mod 60 = x mod 60" by (simp_all add: mod_mod_cancel)
    moreover have "x div 86400 * 86400 + x mod 86400 = x" "(x mod 86400) div 3600 * 3600 + x mod 86400 mod 3600 = x mod 86400"
      "(x mod 3600) div 60 * 60 + x mod 3600 mod 60 = x mod 3600" by (rule div_mult_mod_eq)+
    ultimately show ?thesis by linarith
  qed
  have pos: "x sdiv 86400 * 86400 + (x smod 86400) sdiv 3600 * 3600 + (x smod 3600) sdiv 60 * 60 + x smod 60 = x"
    if "0 \<le> x" for x :: int
    using that split [of x] by (simp add: trunc_nonneg)
  have "x sdiv 86400 * 86400 + (x smod 86400) sdiv 3600 * 3600 + (x smod 3600) sdiv 60 * 60 + x smod 60 = x" for x :: int
  proof (cases "0 \<le> x")
    case False
    define y where "y = - x"
    have y: "0 \<le> y" "x = - y" using False by (simp_all add: y_def)
    show ?thesis using pos [OF y(1)] unfolding y(2) minus_sdiv_eq minus_smod_eq by linarith
  qed (rule pos)
  then show "m_sec t sdiv SECONDS_PER_DAY * SECONDS_PER_DAY + GetHours t * SECONDS_PER_HOUR + GetMinutes t * 60 + GetSeconds t = m_sec t"
    by (simp add: SECONDS_PER_DAY_def SECONDS_PER_HOUR_def GetHours_def GetMinutes_def GetSeconds_def)
  show "GetMilliSeconds t * 1000 + GetMicroSeconds t = m_usec t"
    using trunc_split [of 1000 "m_usec t"] by (simp add: GetMilliSeconds_def GetMicroSeconds_def mult.commute)
qed

end
