(* ===== verification/QueueT.thy ===== *)
theory QueueT
  imports Prelude
begin

text \<open>
  \<open>templates/queue_t.h\<close>: \<open>CQueueT\<close>, a bounded queue for several threads. Two counting semaphores hold
  the number of nodes and of free places, a mutex guards the \<open>std::queue\<close>.

  A thread is its program counter; \<open>qstep\<close> lets one thread go from one call of a semaphore, mutex or queue
  operation to the next, in any order of the threads. \<open>sem_wait\<close>, \<open>sem_post\<close> and the mutex behave as
  POSIX describes: a wait can fail with \<open>EINTR\<close>, a timed wait with \<open>ETIMEDOUT\<close>, a post at
  \<open>SEM_VALUE_MAX\<close> with \<open>EOVERFLOW\<close>. \<open>front\<close> and \<open>pop\<close> of an empty queue are undefined: the flag \<open>crashed\<close>.
  \<open>BeEmpty\<close> and \<open>Size\<close> read the queue without the mutex, a data race when another thread runs.
\<close>

definition SEM_VALUE_MAX :: nat where
  "SEM_VALUE_MAX = 2147483647"

record 'a queue_t =
  m_queue :: "'a list"
  m_semExist :: nat
  m_semEmpty :: nat
  m_mtxQue :: "nat option"
  m_udwMaxNodeNum :: u32

definition CQueueT :: "'a queue_t" where
  "CQueueT = \<lparr>m_queue = [], m_semExist = 0, m_semEmpty = 0, m_mtxQue = None, m_udwMaxNodeNum = 0\<rparr>"

definition Init :: "u32 \<Rightarrow> 'a queue_t \<Rightarrow> int \<times> 'a queue_t" where
  \<comment> \<open>\<open>sem_init\<close> fails on a value above \<open>SEM_VALUE_MAX\<close>\<close>
  "Init udwMaxNodeNum q =
     (let q = q\<lparr>m_udwMaxNodeNum := udwMaxNodeNum, m_semExist := 0\<rparr>
      in if unat udwMaxNodeNum > SEM_VALUE_MAX then (-1, q)
         else (0, q\<lparr>m_semEmpty := unat udwMaxNodeNum, m_mtxQue := None\<rparr>))"

definition BeEmpty :: "'a queue_t \<Rightarrow> int" where
  "BeEmpty q = (if m_queue q = [] then 1 else 0)"

definition Size :: "'a queue_t \<Rightarrow> u32" where
  "Size q = of_nat (length (m_queue q))"

definition deadline :: "int \<Rightarrow> u32 \<Rightarrow> int \<times> int" where
  \<comment> \<open>\<open>ts\<close> of the timed operations: seconds and nanoseconds; \<open>now\<close> is \<open>time(NULL)\<close>\<close>
  "deadline now usec =
     (if usec \<ge> 1000000 then (now + uint (usec div 1000000), uint (usec mod 1000000 * 1000))
      else (now, uint (usec * 1000)))"

datatype 'a pc =
    Idle
  | PushWait 'a "u32 option"   \<comment> \<open>in \<open>sem_wait(&m_semEmpty)\<close>, or with a time in \<open>sem_timedwait\<close>\<close>
  | PushLock 'a
  | PushNode 'a
  | PushPost
  | PushUnlock
  | PopWait "u32 option"
  | PopLock
  | PopNode
  | PopPost 'a
  | PopUnlock 'a
  | Returned int "'a option"   \<comment> \<open>the result and the popped node\<close>

record 'a conf =
  queue :: "'a queue_t"
  pcs :: "'a pc list"
  crashed :: bool

datatype 'a event = Pushed 'a | Popped 'a | Silent

definition goes :: "nat \<Rightarrow> 'a pc \<Rightarrow> 'a conf \<Rightarrow> 'a conf" where
  "goes i p c = c\<lparr>pcs := (pcs c)[i := p]\<rparr>"

definition set_queue :: "('a queue_t \<Rightarrow> 'a queue_t) \<Rightarrow> 'a conf \<Rightarrow> 'a conf" where
  "set_queue f c = c\<lparr>queue := f (queue c)\<rparr>"

inductive wait_step :: "nat \<Rightarrow> 'a conf \<Rightarrow> 'a conf \<Rightarrow> bool" where
  \<comment> \<open>the loops around \<open>sem_wait\<close> of \<open>WaitTillPush\<close> and \<open>WaitTillPop\<close>; a timed wait that succeeds does the same\<close>
  push_taken: "pcs c ! i = PushWait x tm \<Longrightarrow> m_semEmpty (queue c) = Suc n \<Longrightarrow>
    wait_step i c (goes i (PushLock x) (set_queue (\<lambda>q. q\<lparr>m_semEmpty := n\<rparr>) c))"
| push_eintr: "pcs c ! i = PushWait x tm \<Longrightarrow> wait_step i c c"
| pop_taken: "pcs c ! i = PopWait tm \<Longrightarrow> m_semExist (queue c) = Suc n \<Longrightarrow>
    wait_step i c (goes i PopLock (set_queue (\<lambda>q. q\<lparr>m_semExist := n\<rparr>) c))"
| pop_eintr: "pcs c ! i = PopWait tm \<Longrightarrow> wait_step i c c"

inductive timeout_step :: "nat \<Rightarrow> 'a conf \<Rightarrow> 'a conf \<Rightarrow> bool" where
  \<comment> \<open>\<open>sem_timedwait\<close> fails with \<open>ETIMEDOUT\<close>\<close>
  push_timeout: "pcs c ! i = PushWait x (Some usec) \<Longrightarrow> timeout_step i c (goes i (Returned (-1) None) c)"
| pop_timeout: "pcs c ! i = PopWait (Some usec) \<Longrightarrow> timeout_step i c (goes i (Returned (-1) None) c)"

inductive push_step :: "nat \<Rightarrow> 'a event \<Rightarrow> 'a conf \<Rightarrow> 'a conf \<Rightarrow> bool" where
  \<comment> \<open>a push, from the mutex on\<close>
  push_lock: "pcs c ! i = PushLock x \<Longrightarrow> m_mtxQue (queue c) = None \<Longrightarrow>
    push_step i Silent c (goes i (PushNode x) (set_queue (\<lambda>q. q\<lparr>m_mtxQue := Some i\<rparr>) c))"
| push_node: "pcs c ! i = PushNode x \<Longrightarrow>
    push_step i (Pushed x) c (goes i PushPost (set_queue (\<lambda>q. q\<lparr>m_queue := m_queue q @ [x]\<rparr>) c))"
| push_post: "pcs c ! i = PushPost \<Longrightarrow> m_semExist (queue c) < SEM_VALUE_MAX \<Longrightarrow>
    push_step i Silent c (goes i PushUnlock (set_queue (\<lambda>q. q\<lparr>m_semExist := m_semExist q + 1\<rparr>) c))"
| push_overflow: "pcs c ! i = PushPost \<Longrightarrow> m_semExist (queue c) = SEM_VALUE_MAX \<Longrightarrow>
    push_step i Silent c (goes i (Returned (-1) None) (set_queue (\<lambda>q. q\<lparr>m_mtxQue := None\<rparr>) c))"
| push_unlock: "pcs c ! i = PushUnlock \<Longrightarrow>
    push_step i Silent c (goes i (Returned 0 None) (set_queue (\<lambda>q. q\<lparr>m_mtxQue := None\<rparr>) c))"

inductive pop_step :: "nat \<Rightarrow> 'a event \<Rightarrow> 'a conf \<Rightarrow> 'a conf \<Rightarrow> bool" where
  pop_lock: "pcs c ! i = PopLock \<Longrightarrow> m_mtxQue (queue c) = None \<Longrightarrow>
    pop_step i Silent c (goes i PopNode (set_queue (\<lambda>q. q\<lparr>m_mtxQue := Some i\<rparr>) c))"
| pop_node: "pcs c ! i = PopNode \<Longrightarrow> m_queue (queue c) = x # xs \<Longrightarrow>
    pop_step i (Popped x) c (goes i (PopPost x) (set_queue (\<lambda>q. q\<lparr>m_queue := xs\<rparr>) c))"
| pop_empty: "pcs c ! i = PopNode \<Longrightarrow> m_queue (queue c) = [] \<Longrightarrow> pop_step i Silent c (c\<lparr>crashed := True\<rparr>)"
| pop_post: "pcs c ! i = PopPost x \<Longrightarrow> m_semEmpty (queue c) < SEM_VALUE_MAX \<Longrightarrow>
    pop_step i Silent c (goes i (PopUnlock x) (set_queue (\<lambda>q. q\<lparr>m_semEmpty := m_semEmpty q + 1\<rparr>) c))"
| pop_overflow: "pcs c ! i = PopPost x \<Longrightarrow> m_semEmpty (queue c) = SEM_VALUE_MAX \<Longrightarrow>
    pop_step i Silent c (goes i (Returned (-1) (Some x)) (set_queue (\<lambda>q. q\<lparr>m_mtxQue := None\<rparr>) c))"
| pop_unlock: "pcs c ! i = PopUnlock x \<Longrightarrow>
    pop_step i Silent c (goes i (Returned 0 (Some x)) (set_queue (\<lambda>q. q\<lparr>m_mtxQue := None\<rparr>) c))"

definition at_rest :: "'a pc \<Rightarrow> bool" where
  "at_rest p \<longleftrightarrow> (case p of Idle \<Rightarrow> True | Returned _ _ \<Rightarrow> True | _ \<Rightarrow> False)"

inductive qstep :: "nat \<Rightarrow> 'a event \<Rightarrow> 'a conf \<Rightarrow> 'a conf \<Rightarrow> bool" where
  call_push: "i < length (pcs c) \<Longrightarrow> at_rest (pcs c ! i) \<Longrightarrow> qstep i Silent c (goes i (PushWait x tm) c)"
| call_pop: "i < length (pcs c) \<Longrightarrow> at_rest (pcs c ! i) \<Longrightarrow> qstep i Silent c (goes i (PopWait tm) c)"
| wait: "i < length (pcs c) \<Longrightarrow> wait_step i c c' \<Longrightarrow> qstep i Silent c c'"
| timeout: "i < length (pcs c) \<Longrightarrow> timeout_step i c c' \<Longrightarrow> qstep i Silent c c'"
| push: "i < length (pcs c) \<Longrightarrow> push_step i e c c' \<Longrightarrow> qstep i e c c'"
| pop: "i < length (pcs c) \<Longrightarrow> pop_step i e c c' \<Longrightarrow> qstep i e c c'"

definition start :: "nat \<Rightarrow> u32 \<Rightarrow> 'a conf" where
  \<comment> \<open>\<open>n\<close> threads and a queue that has been initialised\<close>
  "start n cap = \<lparr>queue = snd (Init cap CQueueT), pcs = replicate n Idle, crashed = False\<rparr>"

inductive runs :: "nat \<Rightarrow> u32 \<Rightarrow> 'a event list \<Rightarrow> 'a conf \<Rightarrow> bool" for n cap where
  started: "unat cap \<le> SEM_VALUE_MAX \<Longrightarrow> runs n cap [] (start n cap)"
| step: "runs n cap es c \<Longrightarrow> \<not> crashed c \<Longrightarrow> qstep i e c c' \<Longrightarrow> runs n cap (es @ [e]) c'"

lemmas step_intros = push_step.intros pop_step.intros wait_step.intros timeout_step.intros

section \<open>Counting threads\<close>

definition cnt :: "('a \<Rightarrow> bool) \<Rightarrow> 'a list \<Rightarrow> nat" where
  "cnt P xs = length (filter P xs)"

lemma cnt_update:
  "i < length xs \<Longrightarrow> cnt P (xs[i := y]) + of_bool (P (xs ! i)) = cnt P xs + of_bool (P y)"
proof (induction xs arbitrary: i)
  case (Cons x xs)
  show ?case
  proof (cases i)
    case (Suc j)
    then have "cnt P (xs[j := y]) + of_bool (P (xs ! j)) = cnt P xs + of_bool (P y)" using Cons by simp
    then show ?thesis using Suc by (simp add: cnt_def)
  qed (simp add: cnt_def)
qed simp

lemma cnt_pos: "i < length xs \<Longrightarrow> P (xs ! i) \<Longrightarrow> 0 < cnt P xs"
  by (auto simp: cnt_def filter_empty_conv)

lemma cnt_0: "cnt P xs = 0 \<longleftrightarrow> (\<forall>x \<in> set xs. \<not> P x)"
  by (auto simp: cnt_def filter_empty_conv)

text \<open>The threads that have taken a free place, or a node, and not yet given back what they owe.\<close>

fun pushing :: "'a pc \<Rightarrow> bool" where
  "pushing (PushLock _) = True" | "pushing (PushNode _) = True" | "pushing _ = False"

fun posting :: "'a pc \<Rightarrow> bool" where
  "posting PushPost = True" | "posting _ = False"

fun popping :: "'a pc \<Rightarrow> bool" where
  "popping PopLock = True" | "popping PopNode = True" | "popping _ = False"

fun freeing :: "'a pc \<Rightarrow> bool" where
  "freeing (PopPost _) = True" | "freeing _ = False"

fun locked :: "'a pc \<Rightarrow> bool" where
  "locked (PushNode _) = True" | "locked PushPost = True" | "locked PushUnlock = True"
| "locked PopNode = True" | "locked (PopPost _) = True" | "locked (PopUnlock _) = True" | "locked _ = False"

definition counts_ok :: "nat \<Rightarrow> 'a conf \<Rightarrow> bool" where
  "counts_ok cap c \<longleftrightarrow>
     length (m_queue (queue c)) = m_semExist (queue c) + cnt posting (pcs c) + cnt popping (pcs c) \<and>
     m_semEmpty (queue c) + m_semExist (queue c) + cnt pushing (pcs c) + cnt posting (pcs c) +
       cnt popping (pcs c) + cnt freeing (pcs c) = cap"

definition mutex_ok :: "'a conf \<Rightarrow> bool" where
  "mutex_ok c \<longleftrightarrow> (\<forall>i < length (pcs c). locked (pcs c ! i) \<longleftrightarrow> m_mtxQue (queue c) = Some i) \<and>
     (\<forall>i. m_mtxQue (queue c) = Some i \<longrightarrow> i < length (pcs c))"

lemma goes_simps [simp]:
  "queue (goes i p c) = queue c" "pcs (goes i p c) = (pcs c)[i := p]" "crashed (goes i p c) = crashed c"
  "queue (set_queue f c) = f (queue c)" "pcs (set_queue f c) = pcs c" "crashed (set_queue f c) = crashed c"
  by (simp_all add: goes_def set_queue_def)

lemma counts_step:
  assumes "counts_ok cap c" and i: "i < length (pcs c)"
    and "q' = queue c'" "p' = pcs c'" "p' = (pcs c)[i := p]"
    and "length (m_queue q') + m_semExist (queue c) + of_bool (posting (pcs c ! i)) + of_bool (popping (pcs c ! i)) =
      m_semExist q' + length (m_queue (queue c)) + of_bool (posting p) + of_bool (popping p)"
    and "m_semEmpty q' + m_semExist q' + of_bool (pushing p) + of_bool (posting p) + of_bool (popping p) + of_bool (freeing p) =
      m_semEmpty (queue c) + m_semExist (queue c) + of_bool (pushing (pcs c ! i)) + of_bool (posting (pcs c ! i)) +
      of_bool (popping (pcs c ! i)) + of_bool (freeing (pcs c ! i))"
  shows "counts_ok cap c'"
proof -
  note u = cnt_update [OF i, of pushing p] cnt_update [OF i, of posting p] cnt_update [OF i, of popping p] cnt_update [OF i, of freeing p]
  show ?thesis using assms(1,6,7) u unfolding counts_ok_def assms(3)[symmetric] assms(4)[symmetric] assms(5) by linarith
qed

lemma post_room:
  assumes "counts_ok cap c" and "cap \<le> SEM_VALUE_MAX" and "i < length (pcs c)"
  shows "posting (pcs c ! i) \<Longrightarrow> m_semExist (queue c) < SEM_VALUE_MAX"
    and "freeing (pcs c ! i) \<Longrightarrow> m_semEmpty (queue c) < SEM_VALUE_MAX"
    and "popping (pcs c ! i) \<Longrightarrow> m_queue (queue c) \<noteq> []"
  using assms cnt_pos [of i "pcs c" posting] cnt_pos [of i "pcs c" freeing] cnt_pos [of i "pcs c" popping]
  by (auto simp: counts_ok_def)

lemma rest_counts: "at_rest p \<Longrightarrow> \<not> pushing p \<and> \<not> posting p \<and> \<not> popping p \<and> \<not> freeing p \<and> \<not> locked p"
  by (cases p) (auto simp: at_rest_def)

lemma qstep_counts:
  assumes "qstep i e c c'" and inv: "counts_ok cap c" and cap: "cap \<le> SEM_VALUE_MAX"
  shows "counts_ok cap c' \<and> crashed c' = crashed c"
  using assms(1)
proof cases
  case (call_push x tm)
  then show ?thesis using counts_step [OF inv, of i _ _ _ "PushWait x tm"] rest_counts [of "pcs c ! i"] by auto
next
  case (call_pop tm)
  then show ?thesis using counts_step [OF inv, of i _ _ _ "PopWait tm"] rest_counts [of "pcs c ! i"] by auto
next
  case wait
  from wait(3) show ?thesis
  proof cases
    case (push_taken x tm n)
    then show ?thesis using counts_step [OF inv wait(2), of _ _ _ "PushLock x"] by auto
  next
    case (pop_taken tm n)
    then show ?thesis using counts_step [OF inv wait(2), of _ _ _ PopLock] by auto
  qed (use inv in auto)
next
  case timeout
  from timeout(3) show ?thesis
    by cases (use counts_step [OF inv timeout(2), of _ _ _ "Returned (-1) None"] in auto)
next
  case push
  note room = post_room(1) [OF inv cap push(1)]
  from push(2) show ?thesis
  proof cases
    case (push_lock x)
    then show ?thesis using counts_step [OF inv push(1), of _ _ _ "PushNode x"] by auto
  next
    case (push_node x)
    then show ?thesis using counts_step [OF inv push(1), of _ _ _ PushPost] by auto
  next
    case push_post
    then show ?thesis using counts_step [OF inv push(1), of _ _ _ PushUnlock] by auto
  next
    case push_overflow
    then show ?thesis using room by simp
  next
    case push_unlock
    then show ?thesis using counts_step [OF inv push(1), of _ _ _ "Returned 0 None"] by auto
  qed
next
  case pop
  note room = post_room(2,3) [OF inv cap pop(1)]
  from pop(2) show ?thesis
  proof cases
    case pop_lock
    then show ?thesis using counts_step [OF inv pop(1), of _ _ _ PopNode] by auto
  next
    case (pop_node x xs)
    then show ?thesis using counts_step [OF inv pop(1), of _ _ _ "PopPost x"] by auto
  next
    case pop_empty
    then show ?thesis using room by simp
  next
    case (pop_post x)
    then show ?thesis using counts_step [OF inv pop(1), of _ _ _ "PopUnlock x"] by auto
  next
    case (pop_overflow x)
    then show ?thesis using room by simp
  next
    case (pop_unlock x)
    then show ?thesis using counts_step [OF inv pop(1), of _ _ _ "Returned 0 (Some x)"] by auto
  qed
qed

section \<open>The mutex\<close>

lemma mutex_same:
  "mutex_ok c \<Longrightarrow> i < length (pcs c) \<Longrightarrow> pcs c' = (pcs c)[i := p] \<Longrightarrow> m_mtxQue (queue c') = m_mtxQue (queue c) \<Longrightarrow>
    locked p = locked (pcs c ! i) \<Longrightarrow> mutex_ok c'"
  by (simp add: mutex_ok_def nth_list_update)

lemma mutex_taken:
  "mutex_ok c \<Longrightarrow> i < length (pcs c) \<Longrightarrow> pcs c' = (pcs c)[i := p] \<Longrightarrow> m_mtxQue (queue c) = None \<Longrightarrow>
    m_mtxQue (queue c') = Some i \<Longrightarrow> locked p \<Longrightarrow> mutex_ok c'"
  by (simp add: mutex_ok_def nth_list_update)

lemma mutex_released:
  "mutex_ok c \<Longrightarrow> i < length (pcs c) \<Longrightarrow> pcs c' = (pcs c)[i := p] \<Longrightarrow> locked (pcs c ! i) \<Longrightarrow>
    m_mtxQue (queue c') = None \<Longrightarrow> \<not> locked p \<Longrightarrow> mutex_ok c'"
  by (auto simp: mutex_ok_def nth_list_update)

lemma qstep_mutex:
  assumes "qstep i e c c'" and inv: "mutex_ok c"
  shows "mutex_ok c' \<and> length (pcs c') = length (pcs c)"
  using assms(1)
proof cases
  case (call_push x tm)
  then show ?thesis using mutex_same [OF inv, of i c' "PushWait x tm"] rest_counts [of "pcs c ! i"] by auto
next
  case (call_pop tm)
  then show ?thesis using mutex_same [OF inv, of i c' "PopWait tm"] rest_counts [of "pcs c ! i"] by auto
next
  case wait
  from wait(3) show ?thesis
  proof cases
    case (push_taken x tm n)
    then show ?thesis using mutex_same [OF inv wait(2), of c' "PushLock x"] by auto
  next
    case (pop_taken tm n)
    then show ?thesis using mutex_same [OF inv wait(2), of c' PopLock] by auto
  qed (use inv in auto)
next
  case timeout
  from timeout(3) show ?thesis
    by cases (use mutex_same [OF inv timeout(2), of c' "Returned (-1) None"] in auto)
next
  case push
  from push(2) show ?thesis
  proof cases
    case (push_lock x)
    then show ?thesis using mutex_taken [OF inv push(1), of c' "PushNode x"] by auto
  next
    case (push_node x)
    then show ?thesis using mutex_same [OF inv push(1), of c' PushPost] by auto
  next
    case push_post
    then show ?thesis using mutex_same [OF inv push(1), of c' PushUnlock] by auto
  qed (use mutex_released [OF inv push(1), of c' "Returned (-1) None"] mutex_released [OF inv push(1), of c' "Returned 0 None"] in auto)
next
  case pop
  from pop(2) show ?thesis
  proof cases
    case pop_lock
    then show ?thesis using mutex_taken [OF inv pop(1), of c' PopNode] by auto
  next
    case (pop_node x xs)
    then show ?thesis using mutex_same [OF inv pop(1), of c' "PopPost x"] by auto
  next
    case pop_empty
    then show ?thesis using inv by (simp add: mutex_ok_def)
  next
    case (pop_post x)
    then show ?thesis using mutex_same [OF inv pop(1), of c' "PopUnlock x"] by auto
  next
    case (pop_overflow x)
    then show ?thesis using mutex_released [OF inv pop(1), of c' "Returned (-1) (Some x)"] by auto
  next
    case (pop_unlock x)
    then show ?thesis using mutex_released [OF inv pop(1), of c' "Returned 0 (Some x)"] by auto
  qed
qed

section \<open>Every run\<close>

fun pushed :: "'a event list \<Rightarrow> 'a list" where
  "pushed [] = []" | "pushed (Pushed x # es) = x # pushed es" | "pushed (_ # es) = pushed es"

fun popped :: "'a event list \<Rightarrow> 'a list" where
  "popped [] = []" | "popped (Popped x # es) = x # popped es" | "popped (_ # es) = popped es"

lemma pushed_append [simp]: "pushed (es @ fs) = pushed es @ pushed fs"
  by (induction es rule: pushed.induct) auto

lemma popped_append [simp]: "popped (es @ fs) = popped es @ popped fs"
  by (induction es rule: popped.induct) auto

lemma qstep_queue:
  assumes "qstep i e c c'"
  shows "m_queue (queue c) @ pushed [e] = popped [e] @ m_queue (queue c')"
  using assms by cases (auto elim!: wait_step.cases timeout_step.cases push_step.cases pop_step.cases)

lemma start_ok:
  assumes "unat cap \<le> SEM_VALUE_MAX"
  shows "counts_ok (unat cap) (start n cap)" and "mutex_ok (start n cap)"
  using assms by (simp_all add: counts_ok_def mutex_ok_def start_def Init_def CQueueT_def cnt_def)

lemma runs_inv:
  assumes "runs n cap es c"
  shows "unat cap \<le> SEM_VALUE_MAX \<and> counts_ok (unat cap) c \<and> mutex_ok c \<and> \<not> crashed c \<and> length (pcs c) = n \<and>
    pushed es = popped es @ m_queue (queue c)"
  using assms
proof (induction rule: runs.induct)
  case started
  then show ?case using start_ok [of cap n] by (simp add: start_def Init_def CQueueT_def)
next
  case (step es c i e c')
  then show ?case
    using qstep_counts [of i e c c' "unat cap"] qstep_mutex [of i e c c'] qstep_queue [OF step(3)] by auto
qed

definition waiting :: "'a pc \<Rightarrow> bool" where
  "waiting p \<longleftrightarrow> (case p of PushWait _ _ \<Rightarrow> True | PopWait _ \<Rightarrow> True | _ \<Rightarrow> False)"

lemma busy_cases:
  "\<not> at_rest p \<Longrightarrow> \<not> waiting p \<Longrightarrow> \<not> locked p \<Longrightarrow> (\<exists>x. p = PushLock x) \<or> p = PopLock"
  by (cases p) (auto simp: at_rest_def waiting_def)

lemma locked_steps:
  assumes "locked (pcs c ! i)" and "i < length (pcs c)" and "counts_ok cap c" and "cap \<le> SEM_VALUE_MAX"
  shows "\<exists>e c'. qstep i e c c'"
proof -
  note room = post_room [OF assms(3,4,2)]
  have "\<exists>e c'. push_step i e c c' \<or> pop_step i e c c'"
  proof (cases "pcs c ! i")
    case PopNode
    then obtain x xs where "m_queue (queue c) = x # xs" using room(3) by (cases "m_queue (queue c)") auto
    then show ?thesis using PopNode by (blast intro: pop_node)
  qed (use assms(1) room in \<open>auto intro: push_step.intros pop_step.intros\<close>)
  then show ?thesis using assms(2) by (blast intro: qstep.intros)
qed

definition busy :: "'a pc \<Rightarrow> bool" where
  "busy p \<longleftrightarrow> \<not> at_rest p \<and> \<not> waiting p"

lemma busy_progress:
  assumes inv: "counts_ok cap c" "cap \<le> SEM_VALUE_MAX" "mutex_ok c" and i: "i < length (pcs c)" "busy (pcs c ! i)"
  shows "\<exists>j < length (pcs c). busy (pcs c ! j) \<and> (\<exists>e c'. qstep j e c c')"
proof (cases "m_mtxQue (queue c)")
  case None
  then have "\<not> locked (pcs c ! i)" using inv(3) i(1) by (auto simp: mutex_ok_def)
  then have "(\<exists>x. pcs c ! i = PushLock x) \<or> pcs c ! i = PopLock" using i(2) by (intro busy_cases) (auto simp: busy_def)
  then have "\<exists>e c'. qstep i e c c'" using None i(1) by (blast intro: push push_lock pop pop_lock)
  then show ?thesis using i by blast
next
  case (Some j)
  then have j: "j < length (pcs c)" "locked (pcs c ! j)" using inv(3) by (auto simp: mutex_ok_def)
  then have "busy (pcs c ! j)" using rest_counts [of "pcs c ! j"] by (cases "pcs c ! j") (auto simp: busy_def waiting_def)
  then show ?thesis using locked_steps [OF j(2,1) inv(1,2)] j(1) by blast
qed

lemma quiet_counts:
  assumes "counts_ok cap c" and "\<forall>p \<in> set (pcs c). \<not> busy p"
  shows "m_semExist (queue c) = length (m_queue (queue c)) \<and> m_semEmpty (queue c) + length (m_queue (queue c)) = cap"
proof -
  have "\<not> pushing p \<and> \<not> posting p \<and> \<not> popping p \<and> \<not> freeing p" if "\<not> busy p" for p :: "'a pc"
    using that by (cases p) (auto simp: busy_def at_rest_def waiting_def)
  then have "cnt pushing (pcs c) = 0" "cnt posting (pcs c) = 0" "cnt popping (pcs c) = 0" "cnt freeing (pcs c) = 0"
    using assms(2) by (auto simp: cnt_0)
  then show ?thesis using assms(1) by (simp add: counts_ok_def)
qed

lemma bounded: "counts_ok cap c \<Longrightarrow> length (m_queue (queue c)) \<le> cap"
  by (simp add: counts_ok_def)

text \<open>A first thread has taken the only free place and comes to the mutex.\<close>

definition example_conf :: "nat conf" where
  "example_conf = \<lparr>queue = \<lparr>m_queue = [], m_semExist = 0, m_semEmpty = 0, m_mtxQue = None, m_udwMaxNodeNum = 1\<rparr>,
     pcs = [PushLock 7, Idle], crashed = False\<rparr>"

lemma example_run: "runs 2 1 [Silent, Silent] example_conf"
proof -
  have "runs 2 1 [] (start 2 1 :: nat conf)" by (rule started) (simp add: SEM_VALUE_MAX_def)
  from runs.step [OF this _ call_push [of 0 _ "7 :: nat" None]]
  have r: "runs 2 1 [Silent] (goes 0 (PushWait (7 :: nat) None) (start 2 1))" by (simp add: start_def at_rest_def)
  have "goes 0 (PushLock 7) (set_queue (\<lambda>q. q\<lparr>m_semEmpty := 0\<rparr>) (goes 0 (PushWait 7 None) (start 2 1))) = example_conf"
    by (simp add: example_conf_def start_def Init_def CQueueT_def SEM_VALUE_MAX_def goes_def set_queue_def numeral_2_eq_2)
  then show ?thesis using runs.step [OF r _ wait [OF _ push_taken [of _ 0 7 None 0]]]
    by (simp add: start_def Init_def CQueueT_def SEM_VALUE_MAX_def)
qed

text \<open>
  C5: However the threads interleave, the queue never holds more nodes than its maximum, no thread reads
  or removes from an empty queue, at most one thread is between lock and unlock, and the nodes come out in
  the order in which they went in, none lost and none twice.
\<close>
theorem queue_t_safe:
  assumes "runs n cap es c"
  shows "\<not> crashed c \<and> length (m_queue (queue c)) \<le> unat cap \<and> pushed es = popped es @ m_queue (queue c) \<and>
    (\<forall>i < n. \<forall>j < n. locked (pcs c ! i) \<and> locked (pcs c ! j) \<longrightarrow> i = j)"
proof -
  have r: "counts_ok (unat cap) c" "mutex_ok c" "\<not> crashed c" "length (pcs c) = n" "pushed es = popped es @ m_queue (queue c)"
    using runs_inv [OF assms] by blast+
  then have "\<forall>i < n. \<forall>j < n. locked (pcs c ! i) \<and> locked (pcs c ! j) \<longrightarrow> i = j"
    unfolding mutex_ok_def by auto
  then show ?thesis using r bounded [OF r(1)] by blast
qed

theorem queue_t_safe_witness: "\<not> crashed example_conf \<and> length (m_queue (queue example_conf)) \<le> 1"
  using queue_t_safe [OF example_run] by simp

text \<open>
  C16: The threads never block each other for good: while some thread is inside an operation and past its
  semaphore, one of those threads can go on; and when none is, the semaphores count the nodes and the free places
  exactly, so that a push waits only while the queue is full and a pop only while it is empty.
\<close>
theorem queue_t_progress:
  assumes "runs n cap es c"
  shows "((\<exists>i < n. busy (pcs c ! i)) \<longrightarrow> (\<exists>i < n. busy (pcs c ! i) \<and> (\<exists>e c'. qstep i e c c'))) \<and>
    ((\<forall>i < n. \<not> busy (pcs c ! i)) \<longrightarrow> m_semExist (queue c) = length (m_queue (queue c)) \<and>
       m_semEmpty (queue c) + length (m_queue (queue c)) = unat cap)"
proof -
  have r: "unat cap \<le> SEM_VALUE_MAX" "counts_ok (unat cap) c" "mutex_ok c" "length (pcs c) = n"
    using runs_inv [OF assms] by blast+
  have "\<forall>p \<in> set (pcs c). \<not> busy p" if "\<forall>i < n. \<not> busy (pcs c ! i)" using that r(4) by (auto simp: in_set_conv_nth)
  then have q: "(\<forall>i < n. \<not> busy (pcs c ! i)) \<longrightarrow> m_semExist (queue c) = length (m_queue (queue c)) \<and>
       m_semEmpty (queue c) + length (m_queue (queue c)) = unat cap"
    using quiet_counts [OF r(2)] by blast
  have "\<exists>j < n. busy (pcs c ! j) \<and> (\<exists>e c'. qstep j e c c')" if "i < n" "busy (pcs c ! i)" for i
    using busy_progress [OF r(2,1,3), of i] that unfolding r(4) by blast
  then show ?thesis using q by blast
qed

theorem queue_t_progress_witness: "\<exists>i < 2. \<exists>e c'. qstep i e example_conf c'"
proof -
  have "busy (pcs example_conf ! 0)" by (simp add: example_conf_def busy_def at_rest_def waiting_def)
  then have "\<exists>i < 2. busy (pcs example_conf ! i)" by (intro exI [of _ 0]) simp
  then show ?thesis using queue_t_progress [OF example_run] by blast
qed

text \<open>
  The timed operations add their time to the whole seconds of the clock: when the clock stands at
  \<open>us\<close> microseconds past a second, they wait \<open>us\<close> microseconds less than \<open>usec\<close>.
\<close>
theorem queue_t_deadline:
  "(case deadline now usec of (sec, nsec) \<Rightarrow>
     sec * 1000000000 + nsec - (now * 1000000 + us) * 1000 = (uint usec - us) * 1000 \<and> 0 \<le> nsec \<and> nsec < 1000000000)"
proof -
  have m: "uint (x * 1000) = uint x * 1000" if "x < 1000000" for x :: u32
  proof -
    have "uint x < 1000000" using that by (simp add: word_less_def)
    then show ?thesis by (simp add: uint_word_ariths take_bit_eq_mod)
  qed
  have "usec mod 1000000 < 1000000" by (rule word_mod_less_divisor) simp
  then have r: "uint (usec mod 1000000 * 1000) = uint usec mod 1000000 * 1000" using m by (simp add: uint_mod)
  show ?thesis
  proof (cases "usec \<ge> 1000000")
    case True
    have d: "uint (usec div 1000000) = uint usec div 1000000" by (simp add: uint_div_distrib)
    have "uint usec div 1000000 * 1000000 + uint usec mod 1000000 = uint usec" by (rule div_mult_mod_eq)
    then have "uint usec div 1000000 * 1000000000 + uint usec mod 1000000 * 1000 = uint usec * 1000" by linarith
    then show ?thesis using True r d by (simp add: deadline_def)
  next
    case False
    then have "usec < 1000000" by simp
    then show ?thesis using False m [of usec] by (simp add: deadline_def word_less_def)
  qed
qed

end
