(* ===== verification/NetSession.thy ===== *)
theory NetSession
  imports Prelude "HOL-Library.Signed_Division"
begin

text \<open>
  \<open>net/net_session.h\<close>, \<open>net/net_session.cc\<close>: \<open>CSessionMgr\<close>, which keeps pointers to sessions by a sequence
  number and drops those that have not been fetched in time.

  The sessions are objects of a heap (\<open>None\<close> is an object that does not exist, or not any more), since the
  manager shares them with its caller. The hash map is the list of its entries in the order in which an
  iterator meets them; a new entry goes to an arbitrary place, here the end, and the theorems do not depend on
  it. \<open>gettimeofday\<close> is an argument, and the virtual \<open>OnExpire\<close> is a parameter, a function on the session that it is
  called for.
\<close>

type_synonym timeval = "int \<times> int"

record session =
  create_time :: timeval
  last_time :: timeval
  gap :: u32
  msg_seq :: u32
  is_expire_delete :: bool

record session_mgr =
  heap :: "nat \<Rightarrow> session option"
  mp_timer_info :: "(u32 \<times> nat) list"

definition CBaseSession :: "timeval \<Rightarrow> u32 \<Rightarrow> u32 \<Rightarrow> session" where
  \<comment> \<open>\<open>_gap\<close> and \<open>_msg_seq\<close> are not initialised: any value\<close>
  "CBaseSession now g m = \<lparr>create_time = now, last_time = now, gap = g, msg_seq = m, is_expire_delete = True\<rparr>"

definition SetDelete :: "bool \<Rightarrow> session \<Rightarrow> session" where
  "SetDelete del s = s\<lparr>is_expire_delete := del\<rparr>"

definition TIME_DIFF_MS :: "timeval \<Rightarrow> timeval \<Rightarrow> int" where
  "TIME_DIFF_MS a b = (fst a - fst b) * 1000 + (snd a - snd b) sdiv 1000"

definition Set :: "u32 \<Rightarrow> nat \<Rightarrow> u32 \<Rightarrow> timeval \<Rightarrow> session_mgr \<Rightarrow> (int \<times> session_mgr) option" where
  "Set seq p gap_ms now m =
     do {
       s \<leftarrow> heap m p;
       let m = m\<lparr>heap := (heap m)(p \<mapsto> s\<lparr>msg_seq := seq, last_time := now, gap := gap_ms\<rparr>)\<rparr>;
       if map_of (mp_timer_info m) seq = None
       then Some (0, m\<lparr>mp_timer_info := mp_timer_info m @ [(seq, p)]\<rparr>)
       else Some (-1, m)
     }"

definition Get :: "u32 \<Rightarrow> session_mgr \<Rightarrow> int \<times> nat option \<times> session_mgr" where
  "Get seq m =
     (case map_of (mp_timer_info m) seq of
        None \<Rightarrow> (-1, None, m)
      | Some p \<Rightarrow> (0, Some p, m\<lparr>mp_timer_info := filter (\<lambda>e. fst e \<noteq> seq) (mp_timer_info m)\<rparr>))"

definition Exist :: "u32 \<Rightarrow> session_mgr \<Rightarrow> int" where
  "Exist seq m = (if map_of (mp_timer_info m) seq \<noteq> None then 0 else 1)"

fun CheckExpire_loop ::
  "(session \<Rightarrow> session) \<Rightarrow> timeval \<Rightarrow> (u32 \<times> nat) list \<Rightarrow> (nat \<Rightarrow> session option) \<Rightarrow>
    ((u32 \<times> nat) list \<times> (nat \<Rightarrow> session option)) option" where
  "CheckExpire_loop OnExpire cur_time [] h = Some ([], h)"
| "CheckExpire_loop OnExpire cur_time ((k, p) # es) h =
     do {
       s \<leftarrow> h p;
       if TIME_DIFF_MS cur_time (last_time s) > uint (gap s)
       then (let s = OnExpire s
             in CheckExpire_loop OnExpire cur_time es (if is_expire_delete s then h(p := None) else h(p \<mapsto> s)))
       else map_option (\<lambda>(r, h). ((k, p) # r, h)) (CheckExpire_loop OnExpire cur_time es h)
     }"

definition CheckExpire :: "(session \<Rightarrow> session) \<Rightarrow> timeval \<Rightarrow> session_mgr \<Rightarrow> session_mgr option" where
  "CheckExpire OnExpire cur_time m =
     map_option (\<lambda>(r, h). m\<lparr>heap := h, mp_timer_info := r\<rparr>) (CheckExpire_loop OnExpire cur_time (mp_timer_info m) (heap m))"

section \<open>Consistency\<close>

definition mgr_ok :: "session_mgr \<Rightarrow> bool" where
  \<comment> \<open>keys and pointers occur once, and every pointer leads to a session that carries its key\<close>
  "mgr_ok m \<longleftrightarrow> distinct (map fst (mp_timer_info m)) \<and> distinct (map snd (mp_timer_info m)) \<and>
     (\<forall>(k, p) \<in> set (mp_timer_info m). \<exists>s. heap m p = Some s \<and> msg_seq s = k)"

definition overdue :: "timeval \<Rightarrow> session \<Rightarrow> bool" where
  "overdue now s \<longleftrightarrow> TIME_DIFF_MS now (last_time s) > uint (gap s)"

definition after_expire :: "(session \<Rightarrow> session) \<Rightarrow> timeval \<Rightarrow> nat set \<Rightarrow> (nat \<Rightarrow> session option) \<Rightarrow> nat \<Rightarrow> session option" where
  \<comment> \<open>the heap after the expiry of the registered sessions \<open>P\<close>: those overdue are called, and deleted unless they object\<close>
  "after_expire f now P h p =
     (case h p of
        None \<Rightarrow> None
      | Some s \<Rightarrow> if p \<in> P \<and> overdue now s then (if is_expire_delete (f s) then None else Some (f s)) else Some s)"

lemma CheckExpire_loop_ok:
  assumes "distinct (map snd es)" and "\<forall>(k, p) \<in> set es. h p \<noteq> None"
  shows "CheckExpire_loop f now es h =
    Some (filter (\<lambda>(k, p). \<not> overdue now (the (h p))) es, after_expire f now (snd ` set es) h)"
  using assms
proof (induction es arbitrary: h)
  case Nil
  then show ?case by (auto simp: after_expire_def fun_eq_iff split: option.splits)
next
  case (Cons e es)
  obtain k p where e: "e = (k, p)" by (cases e)
  obtain s where s: "h p = Some s" using Cons.prems(2) e by auto
  have np: "p \<notin> snd ` set es" using Cons.prems(1) e by auto
  define h' where "h' = (if overdue now s then (if is_expire_delete (f s) then h(p := None) else h(p \<mapsto> f s)) else h)"
  have h': "h' q = h q" if "q \<noteq> p" for q using that by (simp add: h'_def)
  have "\<forall>(k, q) \<in> set es. h' q \<noteq> None"
    using Cons.prems(2) np h' by force
  then have IH: "CheckExpire_loop f now es h' =
      Some (filter (\<lambda>(k, q). \<not> overdue now (the (h' q))) es, after_expire f now (snd ` set es) h')"
    using Cons.IH [of h'] Cons.prems(1) by simp
  have fl: "filter (\<lambda>(k, q). \<not> overdue now (the (h' q))) es = filter (\<lambda>(k, q). \<not> overdue now (the (h q))) es"
    using np h' by (intro filter_cong) force+
  have ae: "after_expire f now (snd ` set es) h' = after_expire f now (snd ` set (e # es)) h"
    using np s e by (auto simp: after_expire_def h'_def fun_eq_iff split: option.splits)
  show ?case
  proof (cases "overdue now s")
    case True
    then have "CheckExpire_loop f now (e # es) h = CheckExpire_loop f now es h'"
      using s e by (simp add: overdue_def h'_def Let_def)
    then show ?thesis using True IH fl ae s e by simp
  next
    case False
    then have "h' = h" by (simp add: h'_def)
    then show ?thesis using False IH ae s e by (simp add: overdue_def)
  qed
qed

lemma CheckExpire_loop_append:
  "CheckExpire_loop f now (xs @ ys) h =
    Option.bind (CheckExpire_loop f now xs h)
      (\<lambda>(r, h). map_option (\<lambda>(r', h'). (r @ r', h')) (CheckExpire_loop f now ys h))"
proof (induction f now xs h rule: CheckExpire_loop.induct)
  case (1 f now h)
  then show ?case by (simp add: case_prod_beta option.map_ident)
next
  case (2 f now k p es h)
  then show ?case by (cases "h p") (auto simp: Let_def map_option_case split: option.splits)
qed

lemma mgr_ok_lives: "mgr_ok m \<Longrightarrow> \<forall>(k, p) \<in> set (mp_timer_info m). heap m p \<noteq> None"
  unfolding mgr_ok_def by fastforce

lemma mgr_ok_key: "mgr_ok m \<Longrightarrow> (k, p) \<in> set (mp_timer_info m) \<Longrightarrow> \<exists>s. heap m p = Some s \<and> msg_seq s = k"
  unfolding mgr_ok_def by auto

lemma filter_same_key: "distinct (map fst xs) \<Longrightarrow> k \<notin> fst ` set xs \<Longrightarrow> filter (\<lambda>e. fst e \<noteq> k) (xs @ [(k, p)]) = xs"
  by (force simp: filter_id_conv)

text \<open>
  C23: \<open>CheckExpire\<close> on a consistent manager touches no deleted session. It keeps exactly the entries that are
  not overdue, calls \<open>OnExpire\<close> of every overdue session once, deletes those that do not object, leaves all other
  objects alone and the manager consistent.
\<close>
theorem session_expire:
  assumes "mgr_ok m"
  shows "\<exists>m'. CheckExpire OnExpire now m = Some m' \<and> mgr_ok m' \<and>
    mp_timer_info m' = filter (\<lambda>(k, p). \<not> overdue now (the (heap m p))) (mp_timer_info m) \<and>
    heap m' = after_expire OnExpire now (snd ` set (mp_timer_info m)) (heap m)"
proof -
  let ?es = "filter (\<lambda>(k, p). \<not> overdue now (the (heap m p))) (mp_timer_info m)"
    and ?h = "after_expire OnExpire now (snd ` set (mp_timer_info m)) (heap m)"
  have "distinct (map snd (mp_timer_info m))" using assms by (simp add: mgr_ok_def)
  from CheckExpire_loop_ok [OF this mgr_ok_lives [OF assms]]
  have "CheckExpire OnExpire now m = Some (m\<lparr>heap := ?h, mp_timer_info := ?es\<rparr>)" by (simp add: CheckExpire_def)
  moreover have "\<exists>s. ?h p = Some s \<and> msg_seq s = k" if e: "(k, p) \<in> set ?es" for k p
  proof -
    obtain s where "heap m p = Some s" "msg_seq s = k" using mgr_ok_key [OF assms, of k p] e by auto
    then show ?thesis using e by (auto simp: after_expire_def)
  qed
  then have "mgr_ok (m\<lparr>heap := ?h, mp_timer_info := ?es\<rparr>)"
    using assms by (auto simp: mgr_ok_def distinct_map_filter)
  ultimately show ?thesis by simp
qed

definition mgr_example :: session_mgr where
  "mgr_example = \<lparr>heap = [0 \<mapsto> CBaseSession (10, 0) 1000 7, 1 \<mapsto> CBaseSession (10, 0) 5000 8], mp_timer_info = [(7, 0), (8, 1)]\<rparr>"

lemma mgr_example_ok: "mgr_ok mgr_example"
  by (simp add: mgr_ok_def mgr_example_def CBaseSession_def)

theorem session_expire_witness:
  "\<exists>m'. CheckExpire id (12, 0) mgr_example = Some m' \<and> mp_timer_info m' = [(8, 1)] \<and> heap m' 0 = None"
  using session_expire [OF mgr_example_ok, of id "(12, 0)"]
  by (auto simp: mgr_example_def CBaseSession_def overdue_def TIME_DIFF_MS_def after_expire_def)

text \<open>
  Of a consistent manager, \<open>Set\<close> of a session that is not registered under a free number keeps it
  consistent; \<open>Get\<close> of this number returns the session with its new deadline and takes the entry, and no
  other, out again.
\<close>
theorem session_set_get:
  assumes "mgr_ok m" and "heap m p = Some s" and "p \<notin> snd ` set (mp_timer_info m)" and "Exist seq m = 1"
  shows "\<exists>m' m''. Set seq p g now m = Some (0, m') \<and> mgr_ok m' \<and> Exist seq m' = 0 \<and>
    heap m' p = Some (s\<lparr>msg_seq := seq, last_time := now, gap := g\<rparr>) \<and>
    Get seq m' = (0, Some p, m'') \<and> mp_timer_info m'' = mp_timer_info m \<and> Exist seq m'' = 1"
proof -
  let ?s = "s\<lparr>msg_seq := seq, last_time := now, gap := g\<rparr>"
  define m' where "m' = m\<lparr>heap := (heap m)(p \<mapsto> ?s), mp_timer_info := mp_timer_info m @ [(seq, p)]\<rparr>"
  have none: "map_of (mp_timer_info m) seq = None" using assms(4) by (simp add: Exist_def split: if_splits)
  then have free: "seq \<notin> fst ` set (mp_timer_info m)" by (simp add: map_of_eq_None_iff)
  have st: "Set seq p g now m = Some (0, m')" using assms(2) none by (simp add: Set_def m'_def Let_def)
  have "\<exists>t. heap m' q = Some t \<and> msg_seq t = k" if "(k, q) \<in> set (mp_timer_info m')" for k q
  proof (cases "q = p")
    case True
    then have "(k, q) = (seq, p)" using that assms(3) by (force simp: m'_def)
    then show ?thesis by (simp add: m'_def)
  next
    case False
    then have "(k, q) \<in> set (mp_timer_info m)" using that by (auto simp: m'_def)
    then show ?thesis using mgr_ok_key [OF assms(1)] False by (auto simp: m'_def)
  qed
  then have "\<forall>(k, q) \<in> set (mp_timer_info m'). \<exists>t. heap m' q = Some t \<and> msg_seq t = k" by blast
  moreover have "distinct (map fst (mp_timer_info m'))" "distinct (map snd (mp_timer_info m'))"
    using assms(1,3) free by (auto simp: mgr_ok_def m'_def)
  ultimately have "mgr_ok m'" unfolding mgr_ok_def by blast
  moreover have "distinct (map fst (mp_timer_info m))" using assms(1) by (simp add: mgr_ok_def)
  then have "Get seq m' = (0, Some p, m'\<lparr>mp_timer_info := mp_timer_info m\<rparr>)"
    using none filter_same_key [of "mp_timer_info m" seq p] free by (simp add: Get_def m'_def map_add_def)
  ultimately show ?thesis using st none by (simp add: Exist_def m'_def map_add_def)
qed

theorem session_set_get_witness:
  "\<exists>m' m''. Set 9 2 500 (11, 0) (mgr_example\<lparr>heap := (heap mgr_example)(2 \<mapsto> CBaseSession (10, 5) 0 0)\<rparr>) = Some (0, m') \<and>
    Get 9 m' = (0, Some 2, m'')"
proof -
  have "mgr_ok (mgr_example\<lparr>heap := (heap mgr_example)(2 \<mapsto> CBaseSession (10, 5) 0 0)\<rparr>)"
    by (simp add: mgr_ok_def mgr_example_def CBaseSession_def)
  from session_set_get [OF this, of 2 _ 9 500 "(11, 0)"] show ?thesis
    by (force simp: mgr_example_def Exist_def)
qed

text \<open>
  \<open>Set\<close> of a session that is already registered: under a number that is taken, it fails only after it has
  overwritten number and deadline of the session, which leaves the manager inconsistent; under a free number it
  succeeds, and once the session is overdue \<open>CheckExpire\<close> uses it after having deleted it.
\<close>
theorem session_set_twice:
  assumes "mgr_ok m" and "(k, p) \<in> set (mp_timer_info m)" and "seq \<noteq> k"
    and "heap m p = Some s" and "overdue later (s\<lparr>msg_seq := seq, last_time := now, gap := g\<rparr>)"
    and "is_expire_delete (OnExpire (s\<lparr>msg_seq := seq, last_time := now, gap := g\<rparr>))"
  shows "if Exist seq m = 0 then \<exists>m'. Set seq p g now m = Some (-1, m') \<and> \<not> mgr_ok m'
    else \<exists>m'. Set seq p g now m = Some (0, m') \<and> CheckExpire OnExpire later m' = None"
proof -
  note s = assms(4)
  define s' where "s' = s\<lparr>msg_seq := seq, last_time := now, gap := g\<rparr>"
  define h where "h = (heap m)(p \<mapsto> s')"
  show ?thesis
  proof (cases "map_of (mp_timer_info m) seq = None")
    case False
    have "Set seq p g now m = Some (-1, m\<lparr>heap := h\<rparr>)" using s False by (auto simp: Set_def h_def s'_def)
    moreover have "\<not> mgr_ok (m\<lparr>heap := h\<rparr>)"
      using mgr_ok_key [of "m\<lparr>heap := h\<rparr>" k p] assms(2,3) by (auto simp: h_def s'_def)
    ultimately show ?thesis using False by (simp add: Exist_def)
  next
    case True
    define m' where "m' = m\<lparr>heap := h, mp_timer_info := mp_timer_info m @ [(seq, p)]\<rparr>"
    have "Set seq p g now m = Some (0, m')" using s True by (simp add: Set_def m'_def h_def s'_def Let_def)
    moreover have "CheckExpire OnExpire later m' = None"
    proof -
      have "\<forall>(k, q) \<in> set (mp_timer_info m). h q \<noteq> None" using mgr_ok_lives [OF assms(1)] by (auto simp: h_def)
      moreover have "distinct (map snd (mp_timer_info m))" using assms(1) by (simp add: mgr_ok_def)
      ultimately have "CheckExpire_loop OnExpire later (mp_timer_info m) h =
          Some (filter (\<lambda>(k, q). \<not> overdue later (the (h q))) (mp_timer_info m), after_expire OnExpire later (snd ` set (mp_timer_info m)) h)"
        by (intro CheckExpire_loop_ok)
      moreover have "p \<in> snd ` set (mp_timer_info m)" using assms(2) by force
      then have "after_expire OnExpire later (snd ` set (mp_timer_info m)) h p = None"
        using assms(5,6) by (simp add: after_expire_def h_def s'_def)
      ultimately show ?thesis by (simp add: CheckExpire_def m'_def CheckExpire_loop_append)
    qed
    ultimately show ?thesis using True by (simp add: Exist_def)
  qed
qed

theorem session_set_twice_witness:
  "\<exists>m'. Set 9 0 500 (11, 0) mgr_example = Some (0, m') \<and> CheckExpire id (20, 0) m' = None"
  using session_set_twice [OF mgr_example_ok, of 7 0 9 "CBaseSession (10, 0) 1000 7" "(20, 0)" 500 "(11, 0)" id]
  by (simp add: mgr_example_def CBaseSession_def overdue_def TIME_DIFF_MS_def Exist_def)

end
