(* ===== verification/Stater.thy ===== *)
theory Stater
  imports CString
begin

text \<open>
  \<open>utils/stater.h\<close>, \<open>utils/stater.cpp\<close>: \<open>CStater\<close>, which sums up the costs of operations by name. The items,
  each owned by one entry of the ordered map, are its values. \<open>gettimeofday\<close> is an argument; the cost
  of an operation is a difference of \<open>time_t\<close> values stored in a \<open>uint64_t\<close>. The mutex and the texts with
  floating-point numbers that \<open>ToString\<close> prints are not modelled, the averages that it computes are.
\<close>

type_synonym timeval = "int \<times> int"

record SStaterItem =
  total_cost_usec :: u64
  max_cost_usec :: u64
  min_cost_usec :: u64
  avg_cost_usec :: u64
  total_num :: u32
  threshold1_num :: u32
  threshold2_num :: u32
  threshold3_num :: u32
  begin_time :: timeval

record SStaterConf =
  conf_is_mutex :: bool
  conf_threshold1 :: u32
  conf_threshold2 :: u32
  conf_threshold3 :: u32

record stater =
  is_mutex :: bool
  stat :: "(string \<times> SStaterItem) list"
  threshold1 :: u64
  threshold2 :: u64
  threshold3 :: u64

definition SStaterItem_new :: "timeval \<Rightarrow> SStaterItem" where
  "SStaterItem_new now = \<lparr>total_cost_usec = 0, max_cost_usec = 0, min_cost_usec = 1000 * 1000 * 3600, avg_cost_usec = 0,
     total_num = 0, threshold1_num = 0, threshold2_num = 0, threshold3_num = 0, begin_time = now\<rparr>"

definition SStaterConf_new :: SStaterConf where
  "SStaterConf_new = \<lparr>conf_is_mutex = False, conf_threshold1 = 10000, conf_threshold2 = 50000, conf_threshold3 = 80000\<rparr>"

definition CStater :: stater where
  "CStater = \<lparr>is_mutex = False, stat = [], threshold1 = 10000, threshold2 = 50000, threshold3 = 80000\<rparr>"

definition Init :: "SStaterConf \<Rightarrow> stater \<Rightarrow> bool \<times> stater" where
  "Init conf c = (True, c\<lparr>is_mutex := conf_is_mutex conf, threshold1 := ucast (conf_threshold1 conf),
     threshold2 := ucast (conf_threshold2 conf), threshold3 := ucast (conf_threshold3 conf)\<rparr>)"

definition find_or_new :: "string \<Rightarrow> timeval \<Rightarrow> stater \<Rightarrow> SStaterItem" where
  \<comment> \<open>the item of the key, a new one if there is none\<close>
  "find_or_new stat_key now c = (case map_of (stat c) stat_key of None \<Rightarrow> SStaterItem_new now | Some s \<Rightarrow> s)"

definition put_item :: "string \<Rightarrow> SStaterItem \<Rightarrow> stater \<Rightarrow> stater" where
  "put_item stat_key s c = c\<lparr>stat := map_put stat_key s (stat c)\<rparr>"

definition BeginStat :: "string \<Rightarrow> timeval \<Rightarrow> timeval \<Rightarrow> stater \<Rightarrow> stater" where
  \<comment> \<open>the clock is read by the constructor and again at the end\<close>
  "BeginStat stat_key now0 now c = put_item stat_key ((find_or_new stat_key now0 c)\<lparr>begin_time := now\<rparr>) c"

definition cost :: "timeval \<Rightarrow> timeval \<Rightarrow> u64" where
  "cost st ed = of_int ((fst ed - fst st) * 1000000 + (snd ed - snd st))"

definition AddStat_item :: "stater \<Rightarrow> timeval \<Rightarrow> timeval \<Rightarrow> u32 \<Rightarrow> SStaterItem \<Rightarrow> SStaterItem" where
  "AddStat_item c st ed count s =
     (let s = s\<lparr>total_num := total_num s + count\<rparr>;
          cost_usec = cost st ed;
          s = (if cost_usec > max_cost_usec s then s\<lparr>max_cost_usec := cost_usec\<rparr> else s);
          s = (if cost_usec < min_cost_usec s then s\<lparr>min_cost_usec := cost_usec\<rparr> else s);
          s = (if cost_usec \<ge> threshold1 c then s\<lparr>threshold1_num := threshold1_num s + count\<rparr> else s);
          s = (if cost_usec \<ge> threshold2 c then s\<lparr>threshold2_num := threshold2_num s + count\<rparr> else s);
          s = (if cost_usec \<ge> threshold3 c then s\<lparr>threshold3_num := threshold3_num s + count\<rparr> else s)
      in s\<lparr>total_cost_usec := total_cost_usec s + cost_usec\<rparr>)"

definition EndStat :: "string \<Rightarrow> u32 \<Rightarrow> timeval \<Rightarrow> stater \<Rightarrow> stater" where
  "EndStat stat_key count end_time c =
     (case map_of (stat c) stat_key of
        None \<Rightarrow> c
      | Some s \<Rightarrow> put_item stat_key (AddStat_item c (begin_time s) end_time count s) c)"

definition AddStat :: "string \<Rightarrow> timeval \<Rightarrow> timeval \<Rightarrow> u32 \<Rightarrow> timeval \<Rightarrow> stater \<Rightarrow> stater" where
  "AddStat stat_key st ed count now c = put_item stat_key (AddStat_item c st ed count (find_or_new stat_key now c)) c"

definition AddCount :: "string \<Rightarrow> u32 \<Rightarrow> timeval \<Rightarrow> stater \<Rightarrow> stater" where
  "AddCount stat_key count now c =
     (let s = find_or_new stat_key now c in put_item stat_key (s\<lparr>total_num := total_num s + count\<rparr>) c)"

definition DelStat :: "string \<Rightarrow> stater \<Rightarrow> stater" where
  "DelStat stat_key c = c\<lparr>stat := filter (\<lambda>e. fst e \<noteq> stat_key) (stat c)\<rparr>"

definition average :: "SStaterItem \<Rightarrow> SStaterItem" where
  \<comment> \<open>the average that \<open>ToString\<close> stores in every item\<close>
  "average s = (if total_num s \<noteq> 0 then s\<lparr>avg_cost_usec := total_cost_usec s div ucast (total_num s)\<rparr> else s)"

definition ToString_averages :: "stater \<Rightarrow> stater" where
  "ToString_averages c = c\<lparr>stat := map (\<lambda>(k, s). (k, average s)) (stat c)\<rparr>"

section \<open>What the numbers mean\<close>

text \<open>
  The abstract state: for every known name, the costs and counts that were added since it was last deleted, the
  sum of the bare counts, and the time of the last \<open>BeginStat\<close>.
\<close>

type_synonym history = "(u64 \<times> u32) list \<times> u32 \<times> timeval"

definition hour :: u64 where
  "hour = 3600000000"

definition counted :: "u64 \<Rightarrow> (u64 \<times> u32) list \<Rightarrow> u32" where
  \<comment> \<open>the sum of the counts of the costs of at least \<open>t\<close>\<close>
  "counted t log = (\<Sum>(x, n) \<leftarrow> log. if x \<ge> t then n else 0)"

definition shows_history :: "stater \<Rightarrow> history \<Rightarrow> SStaterItem \<Rightarrow> bool" where
  "shows_history c h s \<longleftrightarrow> (case h of (log, extra, bt) \<Rightarrow>
     total_cost_usec s = sum_list (map fst log) \<and> max_cost_usec s = Max (insert 0 (fst ` set log)) \<and>
     min_cost_usec s = Min (insert hour (fst ` set log)) \<and> total_num s = extra + sum_list (map snd log) \<and>
     threshold1_num s = counted (threshold1 c) log \<and> threshold2_num s = counted (threshold2 c) log \<and>
     threshold3_num s = counted (threshold3 c) log \<and> begin_time s = bt)"

definition stater_rel :: "stater \<Rightarrow> (string \<Rightarrow> history option) \<Rightarrow> bool" where
  "stater_rel c A \<longleftrightarrow> sorted_wrt str_less (map fst (stat c)) \<and>
     (\<forall>k. case A k of None \<Rightarrow> map_of (stat c) k = None
          | Some h \<Rightarrow> \<exists>s. map_of (stat c) k = Some s \<and> shows_history c h s)"

datatype stat_op =
    OpBegin string timeval timeval
  | OpEnd string u32 timeval
  | OpAdd string timeval timeval u32 timeval
  | OpCount string u32 timeval
  | OpDel string
  | OpShow

fun stat_step :: "stat_op \<Rightarrow> stater \<Rightarrow> stater" where
  "stat_step (OpBegin k now0 now) c = BeginStat k now0 now c"
| "stat_step (OpEnd k n now) c = EndStat k n now c"
| "stat_step (OpAdd k st ed n now) c = AddStat k st ed n now c"
| "stat_step (OpCount k n now) c = AddCount k n now c"
| "stat_step (OpDel k) c = DelStat k c"
| "stat_step OpShow c = ToString_averages c"

definition known :: "timeval \<Rightarrow> history option \<Rightarrow> history" where
  "known now h = (case h of None \<Rightarrow> ([], 0, now) | Some h \<Rightarrow> h)"

fun abs_step :: "stat_op \<Rightarrow> (string \<Rightarrow> history option) \<Rightarrow> string \<Rightarrow> history option" where
  "abs_step (OpBegin k now0 now) A = A(k \<mapsto> (case known now0 (A k) of (log, extra, _) \<Rightarrow> (log, extra, now)))"
| "abs_step (OpEnd k n now) A =
     (case A k of None \<Rightarrow> A | Some (log, extra, bt) \<Rightarrow> A(k \<mapsto> (log @ [(cost bt now, n)], extra, bt)))"
| "abs_step (OpAdd k st ed n now) A =
     A(k \<mapsto> (case known now (A k) of (log, extra, bt) \<Rightarrow> (log @ [(cost st ed, n)], extra, bt)))"
| "abs_step (OpCount k n now) A = A(k \<mapsto> (case known now (A k) of (log, extra, bt) \<Rightarrow> (log, extra + n, bt)))"
| "abs_step (OpDel k) A = A(k := None)"
| "abs_step OpShow A = A"

lemma counted_snoc [simp]: "counted t (log @ [(x, n)]) = counted t log + (if x \<ge> t then n else 0)"
  by (simp add: counted_def)

lemma Max_snoc: "Max (insert a (fst ` set (log @ [(x, n)]))) = max (Max (insert a (fst ` set log))) x" for x :: "'a::linorder"
proof -
  have "insert a (fst ` set (log @ [(x, n)])) = insert x (insert a (fst ` set log))" by auto
  then show ?thesis by (simp only: Max_insert finite_insert finite_imageI finite_set insert_not_empty not_False_eq_True max.commute)
qed

lemma Min_snoc: "Min (insert a (fst ` set (log @ [(x, n)]))) = min (Min (insert a (fst ` set log))) x" for x :: "'a::linorder"
proof -
  have "insert a (fst ` set (log @ [(x, n)])) = insert x (insert a (fst ` set log))" by auto
  then show ?thesis by (simp only: Min_insert finite_insert finite_imageI finite_set insert_not_empty not_False_eq_True min.commute)
qed

lemma AddStat_item_fields:
  "total_num (AddStat_item c st ed n s) = total_num s + n"
  "total_cost_usec (AddStat_item c st ed n s) = total_cost_usec s + cost st ed"
  "max_cost_usec (AddStat_item c st ed n s) = max (max_cost_usec s) (cost st ed)"
  "min_cost_usec (AddStat_item c st ed n s) = min (min_cost_usec s) (cost st ed)"
  "threshold1_num (AddStat_item c st ed n s) = threshold1_num s + (if cost st ed \<ge> threshold1 c then n else 0)"
  "threshold2_num (AddStat_item c st ed n s) = threshold2_num s + (if cost st ed \<ge> threshold2 c then n else 0)"
  "threshold3_num (AddStat_item c st ed n s) = threshold3_num s + (if cost st ed \<ge> threshold3 c then n else 0)"
  "begin_time (AddStat_item c st ed n s) = begin_time s"
  by (auto simp: AddStat_item_def Let_def max_def min_def)

lemma AddStat_item_history:
  assumes "shows_history c (log, extra, bt) s"
  shows "shows_history c (log @ [(cost st ed, n)], extra, bt) (AddStat_item c st ed n s)"
  using assms unfolding shows_history_def prod.case AddStat_item_fields Max_snoc Min_snoc counted_snoc
  by (simp add: add.assoc)

lemma rel_lookup:
  assumes "stater_rel c A"
  shows "A k = None \<Longrightarrow> map_of (stat c) k = None"
    and "A k = Some h \<Longrightarrow> \<exists>s. map_of (stat c) k = Some s \<and> shows_history c h s"
  using assms [unfolded stater_rel_def, THEN conjunct2, rule_format, of k] by simp_all

lemma find_or_new_history:
  assumes "stater_rel c A"
  shows "shows_history c (known now (A k)) (find_or_new k now c)"
proof (cases "A k")
  case None
  then show ?thesis using rel_lookup(1) [OF assms None]
    by (simp add: find_or_new_def known_def shows_history_def SStaterItem_new_def hour_def counted_def)
next
  case (Some h)
  then show ?thesis using rel_lookup(2) [OF assms Some] by (auto simp: find_or_new_def known_def)
qed

lemma shows_history_conf:
  "threshold1 c' = threshold1 c \<Longrightarrow> threshold2 c' = threshold2 c \<Longrightarrow> threshold3 c' = threshold3 c \<Longrightarrow>
    shows_history c' h t = shows_history c h t"
  by (simp add: shows_history_def)

lemma stater_relI:
  assumes "sorted_wrt str_less (map fst (stat c))"
    and "\<And>k. A k = None \<Longrightarrow> map_of (stat c) k = None"
    and "\<And>k h. A k = Some h \<Longrightarrow> \<exists>s. map_of (stat c) k = Some s \<and> shows_history c h s"
  shows "stater_rel c A"
  unfolding stater_rel_def using assms(1)
proof (intro conjI allI)
  show "case A k of None \<Rightarrow> map_of (stat c) k = None | Some h \<Rightarrow> \<exists>s. map_of (stat c) k = Some s \<and> shows_history c h s" for k
    using assms(2,3) [of k] by (cases "A k") simp_all
qed

lemma put_item_rel:
  assumes "stater_rel c A" and "shows_history c h s"
  shows "stater_rel (put_item k s c) (A(k \<mapsto> h))"
proof (rule stater_relI)
  have "sorted_wrt str_less (map fst (stat c))" using assms(1) by (simp add: stater_rel_def)
  note m = map_put_sorted [OF this, of k s]
  show "sorted_wrt str_less (map fst (stat (put_item k s c)))" using m by (simp add: put_item_def)
  have sh: "shows_history (put_item k s c) h t = shows_history c h t" for h t
    by (rule shows_history_conf) (simp_all add: put_item_def)
  have mo: "map_of (stat (put_item k s c)) = (map_of (stat c))(k \<mapsto> s)" using m by (simp add: put_item_def)
  show "(A(k \<mapsto> h)) k' = None \<Longrightarrow> map_of (stat (put_item k s c)) k' = None" for k'
    using rel_lookup(1) [OF assms(1), of k'] by (simp add: mo split: if_splits)
  show "(A(k \<mapsto> h)) k' = Some h' \<Longrightarrow> \<exists>s'. map_of (stat (put_item k s c)) k' = Some s' \<and> shows_history (put_item k s c) h' s'" for k' h'
    using rel_lookup(2) [OF assms(1), of k' h'] assms(2) by (simp add: mo sh split: if_splits)
qed

lemma begin_history: "shows_history c (log, extra, bt) s \<Longrightarrow> shows_history c (log, extra, now) (s\<lparr>begin_time := now\<rparr>)"
  by (simp add: shows_history_def)

lemma count_history: "shows_history c (log, extra, bt) s \<Longrightarrow> shows_history c (log, extra + n, bt) (s\<lparr>total_num := total_num s + n\<rparr>)"
  by (simp add: shows_history_def)

lemma average_history: "shows_history c h (average s) = shows_history c h s"
  by (simp add: shows_history_def average_def)

lemma stat_step_rel:
  assumes "stater_rel c A"
  shows "stater_rel (stat_step op c) (abs_step op A)"
proof (cases op)
  case (OpBegin k now0 now)
  then show ?thesis using find_or_new_history [OF assms, of now0 k] assms
    by (cases "known now0 (A k)") (auto simp: BeginStat_def intro!: put_item_rel begin_history)
next
  case (OpEnd k n now)
  show ?thesis
  proof (cases "A k")
    case None
    then show ?thesis using OpEnd rel_lookup(1) [OF assms None] assms by (simp add: EndStat_def)
  next
    case (Some h)
    obtain log extra bt where h: "h = (log, extra, bt)" by (cases h)
    obtain s where s: "map_of (stat c) k = Some s" "shows_history c h s" using rel_lookup(2) [OF assms Some] by blast
    have "begin_time s = bt" using s(2) h by (simp add: shows_history_def)
    then show ?thesis using OpEnd Some s h assms by (auto simp: EndStat_def intro!: put_item_rel AddStat_item_history)
  qed
next
  case (OpAdd k st ed n now)
  then show ?thesis using find_or_new_history [OF assms, of now k] assms
    by (cases "known now (A k)") (auto simp: AddStat_def intro!: put_item_rel AddStat_item_history)
next
  case (OpCount k n now)
  then show ?thesis using find_or_new_history [OF assms, of now k] assms
    by (cases "known now (A k)") (auto simp: AddCount_def Let_def intro!: put_item_rel count_history)
next
  case (OpDel k)
  have mo: "map_of (filter (\<lambda>e. fst e \<noteq> k) xs) k' = (if k' = k then None else map_of xs k')" for xs :: "(string \<times> SStaterItem) list" and k'
    by (induction xs) auto
  have "stater_rel (DelStat k c) (A(k := None))"
  proof (rule stater_relI)
    show "sorted_wrt str_less (map fst (stat (DelStat k c)))"
      using assms by (simp add: DelStat_def stater_rel_def sorted_wrt_map sorted_wrt_filter)
    show "(A(k := None)) k' = None \<Longrightarrow> map_of (stat (DelStat k c)) k' = None" for k'
      using rel_lookup(1) [OF assms, of k'] by (simp add: DelStat_def mo split: if_splits)
    show "(A(k := None)) k' = Some h \<Longrightarrow> \<exists>s. map_of (stat (DelStat k c)) k' = Some s \<and> shows_history (DelStat k c) h s" for k' h
      using rel_lookup(2) [OF assms, of k' h] shows_history_conf [of "DelStat k c" c h] by (simp add: DelStat_def mo split: if_splits)
  qed
  then show ?thesis using OpDel by simp
next
  case OpShow
  have mo: "map_of (map (\<lambda>(k, s). (k, average s)) xs) k = map_option average (map_of xs k)" for xs k
    by (induction xs) auto
  have "stater_rel (ToString_averages c) A"
  proof (rule stater_relI)
    show "sorted_wrt str_less (map fst (stat (ToString_averages c)))"
      using assms by (simp add: ToString_averages_def stater_rel_def comp_def case_prod_beta)
    show "A k' = None \<Longrightarrow> map_of (stat (ToString_averages c)) k' = None" for k'
      using rel_lookup(1) [OF assms, of k'] by (simp add: ToString_averages_def mo)
    show "A k' = Some h \<Longrightarrow> \<exists>s. map_of (stat (ToString_averages c)) k' = Some s \<and> shows_history (ToString_averages c) h s" for k' h
      using rel_lookup(2) [OF assms, of k' h] shows_history_conf [of "ToString_averages c" c h] average_history [of c h]
      by (auto simp: ToString_averages_def mo)
  qed
  then show ?thesis using OpShow by simp
qed

text \<open>
  C15: After any sequence of operations on a new \<open>CStater\<close>, with any configuration, every name shows its
  history: the sum, the maximum and the minimum of the costs (the minimum at most an hour), the sum of
  all counts, and of the counts of the costs that reach each threshold.
\<close>
theorem stater_shows_history:
  "stater_rel (fold stat_step ops (snd (Init conf CStater))) (fold abs_step ops (\<lambda>_. None))"
proof -
  have "stater_rel (fold stat_step ops c) (fold abs_step ops A)" if "stater_rel c A" for c A
    using that by (induction ops arbitrary: c A) (simp_all add: stat_step_rel)
  moreover have "stater_rel (snd (Init conf CStater)) (\<lambda>_. None)" by (rule stater_relI) (simp_all add: Init_def CStater_def)
  ultimately show ?thesis by blast
qed

end
