(* ===== verification/Epoll.thy ===== *)
theory Epoll
  imports Prelude
begin

text \<open>
  \<open>net/net_epoll.h\<close>, \<open>net/net_epoll.cc\<close>: \<open>CEpoll\<close>. The kernel is outside: every call of \<open>epoll_ctl\<close> is recorded with
  its arguments, and whether it succeeded is an argument of the operations; \<open>epoll_wait\<close> hands in the
  list of ready events. The variants with a pointer and those with a descriptor as user data differ in the type of
  the data only.
\<close>

definition EPOLLIN :: u32 where "EPOLLIN = 0x001"
definition EPOLLOUT :: u32 where "EPOLLOUT = 0x004"
definition EPOLLERR :: u32 where "EPOLLERR = 0x008"
definition EPOLLHUP :: u32 where "EPOLLHUP = 0x010"

record 'p epoll_event =
  ev_events :: u32
  ev_data :: 'p

datatype 'p call =
    Ctl_add int "'p epoll_event"
  | Ctl_mod int "'p epoll_event"
  | Ctl_del int
  | Close int

record 'p epoll =
  ep_count :: int
  ep_calls :: "'p call list"

definition CEpoll :: "'p epoll" where
  "CEpoll = \<lparr>ep_count = 0, ep_calls = []\<rparr>"

definition Size :: "'p epoll \<Rightarrow> int" where
  "Size e = ep_count e"

definition called :: "'p call \<Rightarrow> 'p epoll \<Rightarrow> 'p epoll" where
  "called c e = e\<lparr>ep_calls := ep_calls e @ [c]\<rparr>"

definition interest :: "bool \<Rightarrow> bool \<Rightarrow> u32" where
  "interest bRead bWrite = (let m = (if bRead then 0 OR EPOLLIN else 0) in if bWrite then m OR EPOLLOUT else m)"

definition Add :: "bool \<Rightarrow> int \<Rightarrow> 'p \<Rightarrow> bool \<Rightarrow> bool \<Rightarrow> 'p epoll \<Rightarrow> 'p epoll" where
  \<comment> \<open>\<open>ok\<close>: the \<open>epoll_ctl\<close> succeeds\<close>
  "Add ok fd ptr bRead bWrite e =
     (let e = called (Ctl_add fd \<lparr>ev_events = interest bRead bWrite, ev_data = ptr\<rparr>) e
      in if \<not> ok then e else e\<lparr>ep_count := ep_count e + 1\<rparr>)"

definition Mod :: "int \<Rightarrow> 'p \<Rightarrow> bool \<Rightarrow> bool \<Rightarrow> 'p epoll \<Rightarrow> 'p epoll" where
  "Mod fd ptr bRead bWrite e = called (Ctl_mod fd \<lparr>ev_events = interest bRead bWrite, ev_data = ptr\<rparr>) e"

definition Hup :: "int \<Rightarrow> 'p \<Rightarrow> 'p epoll \<Rightarrow> 'p epoll" where
  "Hup fd ptr e = called (Ctl_mod fd \<lparr>ev_events = EPOLLHUP OR EPOLLERR OR EPOLLIN, ev_data = ptr\<rparr>) e"

definition Del :: "bool \<Rightarrow> int \<Rightarrow> bool \<Rightarrow> 'p epoll \<Rightarrow> 'p epoll" where
  "Del ok fd is_close e =
     (let e = called (Ctl_del fd) e
      in if \<not> ok then e
         else let e = (if is_close then called (Close fd) e else e)
              in e\<lparr>ep_count := ep_count e - 1\<rparr>)"

fun Wait :: "'p epoll_event list \<Rightarrow> 'p list \<times> 'p list" where
  \<comment> \<open>the loop over the ready events: the data that go to \<open>reads\<close> and to \<open>writes\<close>\<close>
  "Wait [] = ([], [])"
| "Wait (ev # evs) =
     (case Wait evs of (rs, ws) \<Rightarrow>
       if ev_events ev AND EPOLLIN \<noteq> 0 \<or> ev_events ev AND EPOLLHUP \<noteq> 0 \<or> ev_events ev AND EPOLLERR \<noteq> 0
       then (ev_data ev # rs, ws)
       else if ev_events ev AND EPOLLOUT \<noteq> 0 then (rs, ev_data ev # ws) else (rs, ws))"

definition wants_read :: "'p epoll_event \<Rightarrow> bool" where
  "wants_read ev \<longleftrightarrow> ev_events ev AND (EPOLLIN OR EPOLLHUP OR EPOLLERR) \<noteq> 0"

lemma wants_read_bits:
  "wants_read ev \<longleftrightarrow> ev_events ev AND EPOLLIN \<noteq> 0 \<or> ev_events ev AND EPOLLHUP \<noteq> 0 \<or> ev_events ev AND EPOLLERR \<noteq> 0"
proof -
  have "x AND (EPOLLIN OR EPOLLHUP OR EPOLLERR) = (x AND EPOLLIN) OR (x AND EPOLLHUP) OR (x AND EPOLLERR)" for x
    by (simp add: bit.conj_disj_distrib)
  then show ?thesis by (simp add: wants_read_def or_eq_0_iff)
qed

text \<open>An event goes to one of the lists at most, and a descriptor that can be read is not reported as writable.\<close>

lemma Wait_filter:
  "Wait evs = (map ev_data (filter wants_read evs),
    map ev_data (filter (\<lambda>ev. \<not> wants_read ev \<and> ev_events ev AND EPOLLOUT \<noteq> 0) evs))"
  by (induction evs) (auto simp: wants_read_bits)

end
