(* ===== verification/NetClient.thy ===== *)
theory NetClient
  imports NetQueue Http Epoll
begin

text \<open>
  \<open>net/net_client.h\<close>, \<open>net/net_client.cc\<close>: \<open>CNetClient\<close>, which takes packets with an address from a queue, sends them
  over one connection per address, cuts what it receives into messages and puts these into another queue.

  The connections are objects of a heap. Outside are the sockets and the kernel: what \<open>init_client\<close>, \<open>send\<close>, \<open>recv\<close> and
  \<open>epoll_ctl\<close> return are arguments of the handlers, the bytes handed to \<open>send\<close> are recorded in \<open>wire\<close>. A
  \<open>memcpy\<close> outside of a buffer or between regions that overlap is \<open>None\<close>, as is a use of a deleted
  connection. The logger and the counters of \<open>GetAddStat\<close> apart from the statistics are not modelled.
\<close>

record client_data =
  fd :: int
  send_buf :: "u8 list"
  recv_buf :: "u8 list"
  send_len :: u32
  recv_len :: u32
  send_pos :: u32
  sock_status :: int

record stat_net =
  connetct_num :: u32
  close_num :: u32
  send_num :: u32
  recv_num :: u32
  send_bytes :: u64
  recv_bytes :: u64
  send_zero_num :: u32
  recv_zero_num :: u32

definition PROTOCOL_HTTP :: int where
  "PROTOCOL_HTTP = 1"

definition PROTOCOL_LONGCONN :: int where
  "PROTOCOL_LONGCONN = 2"

record net_client =
  m_protocol :: int
  m_use_keepalive :: bool
  m_queue_fd :: int
  m_heap :: "nat \<Rightarrow> client_data option"
  m_fresh :: nat
  m_connects :: "(u64 \<times> nat) list"
  m_send_queue :: net_queue
  m_recv_queue :: "net_queue option"
  m_epoll :: "nat epoll"
  m_stat :: stat_net
  m_max_pack_len :: u32
  wire :: "(nat \<times> u8 list) list"
  closed :: "int list"

definition stat_net_new :: stat_net where
  "stat_net_new = \<lparr>connetct_num = 0, close_num = 0, send_num = 0, recv_num = 0, send_bytes = 0, recv_bytes = 0,
     send_zero_num = 0, recv_zero_num = 0\<rparr>"

definition stat_net_minus :: "stat_net \<Rightarrow> stat_net \<Rightarrow> u32 \<Rightarrow> stat_net" where
  \<comment> \<open>\<open>send_zero_num\<close> of the result keeps the value that its constructor gave it\<close>
  "stat_net_minus a b z = \<lparr>connetct_num = connetct_num a - connetct_num b, close_num = close_num a - close_num b,
     send_num = send_num a - send_num b, recv_num = recv_num a - recv_num b,
     send_bytes = send_bytes a - send_bytes b, recv_bytes = recv_bytes a - recv_bytes b,
     send_zero_num = z, recv_zero_num = recv_zero_num a - recv_zero_num b\<rparr>"

definition client_data_new :: "int \<Rightarrow> u8 list \<Rightarrow> u8 list \<Rightarrow> client_data" where
  \<comment> \<open>constructor, \<open>Reset\<close> and the allocation of the buffers, whose first contents are arbitrary\<close>
  "client_data_new f sbuf rbuf = \<lparr>fd = f, send_buf = sbuf, recv_buf = rbuf, send_len = 0, recv_len = 0, send_pos = 0, sock_status = 0\<rparr>"

definition upd_data :: "nat \<Rightarrow> client_data \<Rightarrow> net_client \<Rightarrow> net_client" where
  "upd_data p d c = c\<lparr>m_heap := (m_heap c)(p \<mapsto> d)\<rparr>"

definition upd_stat :: "(stat_net \<Rightarrow> stat_net) \<Rightarrow> net_client \<Rightarrow> net_client" where
  "upd_stat f c = c\<lparr>m_stat := f (m_stat c)\<rparr>"

definition upd_epoll :: "(nat epoll \<Rightarrow> nat epoll) \<Rightarrow> net_client \<Rightarrow> net_client" where
  "upd_epoll f c = c\<lparr>m_epoll := f (m_epoll c)\<rparr>"

section \<open>Connecting and closing\<close>

definition connect_key :: "u32 \<Rightarrow> u16 \<Rightarrow> u64" where
  "connect_key ip port = push_bit 32 (ucast ip) + ucast port"

definition Connect :: "int \<Rightarrow> u8 list \<Rightarrow> u8 list \<Rightarrow> u32 \<Rightarrow> u16 \<Rightarrow> net_client \<Rightarrow> nat option \<times> net_client" where
  \<comment> \<open>\<open>f\<close> is the result of \<open>init_client\<close>; a null pointer is \<open>None\<close>\<close>
  "Connect f sbuf rbuf ip port c =
     (case map_of (m_connects c) (connect_key ip port) of
        Some p \<Rightarrow> (Some p, c)
      | None \<Rightarrow>
          if f < 0 then (None, c)
          else let p = m_fresh c;
                   c = upd_data p (client_data_new f sbuf rbuf) (c\<lparr>m_fresh := p + 1\<rparr>);
                   c = c\<lparr>m_connects := (connect_key ip port, p) # m_connects c\<rparr>
               in (Some p, upd_stat (\<lambda>s. s\<lparr>connetct_num := connetct_num s + 1\<rparr>) c))"

fun erase_fd :: "int \<Rightarrow> (nat \<Rightarrow> client_data option) \<Rightarrow> (u64 \<times> nat) list \<Rightarrow> (u64 \<times> nat) list option" where
  \<comment> \<open>the loop of \<open>OnClose\<close>: erase the entries whose connection has the descriptor\<close>
  "erase_fd f h [] = Some []"
| "erase_fd f h ((k, p) # es) =
     do { d \<leftarrow> h p; es \<leftarrow> erase_fd f h es; Some (if f = fd d then es else (k, p) # es) }"

definition OnClose :: "bool \<Rightarrow> nat \<Rightarrow> net_client \<Rightarrow> net_client option" where
  \<comment> \<open>\<open>Del\<close> closes the descriptor (\<open>is_close\<close> defaults to true), then \<open>OnClose\<close> closes it again\<close>
  "OnClose ok p c =
     do {
       d \<leftarrow> m_heap c p;
       let c = upd_stat (\<lambda>s. s\<lparr>close_num := close_num s + 1\<rparr>) c;
       es \<leftarrow> erase_fd (fd d) (m_heap c) (m_connects c);
       let c = upd_epoll (Del ok (fd d) True) (c\<lparr>m_connects := es\<rparr>);
       Some (c\<lparr>closed := closed c @ (if ok then [fd d, fd d] else [fd d]), m_heap := (m_heap c)(p := None)\<rparr>)
     }"

section \<open>A packet from the queue\<close>

definition HEADER :: nat where
  \<comment> \<open>\<open>sizeof(send_header_t)\<close>: four bytes of address, two of port, two of padding\<close>
  "HEADER = 8"

definition of_le16 :: "u8 list \<Rightarrow> u16" where
  "of_le16 bs = ucast (bs ! 0) + push_bit 8 (ucast (bs ! 1))"

definition append_payload :: "client_data \<Rightarrow> u8 list \<Rightarrow> u32 \<Rightarrow> client_data option" where
  \<comment> \<open>the \<open>memcpy\<close> to the send buffer: the length is a \<open>size_t\<close> that wraps\<close>
  "append_payload d buf len =
     do {
       x \<leftarrow> mem_read buf HEADER (unat (ucast len - 8 :: u64));
       b \<leftarrow> mem_write (send_buf d) (unat (send_len d)) x;
       Some (d\<lparr>send_buf := b, send_len := send_len d + (len - 8)\<rparr>)
     }"

definition OnQueue ::
  "bool \<Rightarrow> bool \<Rightarrow> int \<Rightarrow> u8 list \<Rightarrow> u8 list \<Rightarrow> nat \<Rightarrow> net_client \<Rightarrow> net_client option" where
  "OnQueue lock_ok ok f sbuf rbuf qp c =
     do {
       qd \<leftarrow> m_heap c qp;
       (iRet, len, bs, q) \<leftarrow> Pop lock_ok (m_send_queue c) (m_max_pack_len c);
       buf \<leftarrow> mem_write (send_buf qd) 0 bs;
       let len = (case len of Some n \<Rightarrow> n | None \<Rightarrow> send_len qd);
       let c = upd_data qp (qd\<lparr>send_buf := buf, send_len := len\<rparr>) (c\<lparr>m_send_queue := q\<rparr>);
       if iRet \<noteq> 0 then Some c
       else do {
         h \<leftarrow> mem_read buf 0 HEADER;
         let (data, c) = Connect f sbuf rbuf (of_le32 (take 4 h)) (of_le16 (take 2 (drop 4 h))) c;
         case data of
           None \<Rightarrow> Some c
         | Some p \<Rightarrow> do {
             d \<leftarrow> m_heap c p;
             if (ucast (send_len d + len) - 8 :: u64) > ucast (m_max_pack_len c) then Some c
             else do {
               d \<leftarrow> append_payload d buf len;
               Some (if sock_status d = 0
                     then upd_data p (d\<lparr>sock_status := 1\<rparr>) (upd_epoll (Add ok (fd d) p True True) c)
                     else upd_data p d (upd_epoll (Mod (fd d) p True True) c))
             }
           }
       }
     }"

section \<open>Sending and receiving\<close>

definition OnSend :: "bool \<Rightarrow> int \<Rightarrow> bool \<Rightarrow> nat \<Rightarrow> net_client \<Rightarrow> net_client option" where
  \<comment> \<open>\<open>ret\<close>: what \<open>send\<close> returns; \<open>again\<close>: whether \<open>errno\<close> says to try again\<close>
  "OnSend ok ret again p c =
     do {
       d \<leftarrow> m_heap c p;
       out \<leftarrow> mem_read (send_buf d) (unat (send_pos d)) (unat (send_len d - send_pos d));
       if ret < 0 then (if again then Some c else OnClose ok p c)
       else if ret = 0
       then Some (upd_stat (\<lambda>s. s\<lparr>send_zero_num := 0\<rparr>) (upd_epoll (Mod (fd d) p True False) c))
       else (let c = upd_stat (\<lambda>s. s\<lparr>send_bytes := send_bytes s + of_int ret\<rparr>)
                       (c\<lparr>wire := wire c @ [(p, take (nat ret) out)]\<rparr>);
                 d = d\<lparr>send_pos := send_pos d + of_int ret\<rparr>
             in Some (if send_pos d \<ge> send_len d
                      then upd_stat (\<lambda>s. s\<lparr>send_num := send_num s + 1\<rparr>)
                             (upd_epoll (Mod (fd d) p True True) (upd_data p (d\<lparr>send_len := 0, send_pos := 0\<rparr>) c))
                      else upd_data p d c))
     }"

definition move_front :: "u8 list \<Rightarrow> nat \<Rightarrow> nat \<Rightarrow> u8 list option" where
  \<comment> \<open>\<open>memcpy(buf, buf + off, n)\<close>, undefined when the regions overlap\<close>
  "move_front buf off n =
     do { guard (n \<le> off); x \<leftarrow> mem_read buf off n; mem_write buf 0 x }"

definition complete :: "int \<Rightarrow> int \<Rightarrow> u8 list \<Rightarrow> u32 \<Rightarrow> int option" where
  \<comment> \<open>for another protocol \<open>ret\<close> still holds what \<open>recv\<close> has returned\<close>
  "complete proto ret buf len =
     (if proto = PROTOCOL_HTTP then net_complete_http (map (\<lambda>b. chr (unat b)) buf) len
      else if proto = PROTOCOL_LONGCONN then net_complete_longconn buf len
      else Some ret)"

definition deliver :: "bool \<Rightarrow> net_queue \<Rightarrow> client_data \<Rightarrow> int \<Rightarrow> (net_queue \<times> client_data) option" where
  \<comment> \<open>the three cases for a message of \<open>ret > 0\<close> bytes; a failed push is logged only\<close>
  "deliver lock_ok q d ret =
     (if ret < sint (recv_len d) then do {
        (_, q) \<leftarrow> Push lock_ok q (recv_buf d) (of_int ret);
        b \<leftarrow> move_front (recv_buf d) (nat ret) (unat (recv_len d - of_int ret));
        Some (q, d\<lparr>recv_buf := b, recv_len := recv_len d - of_int ret\<rparr>)
      }
      else if ret = sint (recv_len d) then do {
        (_, q) \<leftarrow> Push lock_ok q (recv_buf d) (recv_len d);
        Some (q, d\<lparr>recv_len := 0\<rparr>)
      }
      else Some (q, d))"

definition OnRecv :: "bool \<Rightarrow> bool \<Rightarrow> int \<Rightarrow> u8 list \<Rightarrow> bool \<Rightarrow> nat \<Rightarrow> net_client \<Rightarrow> net_client option" where
  \<comment> \<open>\<open>ret\<close> and \<open>bs\<close>: what \<open>recv\<close> returns and the bytes that it stores\<close>
  "OnRecv lock_ok ok ret bs again p c =
     do {
       d \<leftarrow> m_heap c p;
       b \<leftarrow> mem_write (recv_buf d) (unat (recv_len d)) bs;
       let d = d\<lparr>recv_buf := b\<rparr>;
       if ret < 0 then (if again then Some c else OnClose ok p c)
       else if ret = 0 then OnClose ok p (upd_stat (\<lambda>s. s\<lparr>recv_zero_num := recv_zero_num s + 1\<rparr>) c)
       else do {
         let d = d\<lparr>recv_len := recv_len d + of_int ret\<rparr>;
         let c = upd_stat (\<lambda>s. s\<lparr>recv_bytes := recv_bytes s + of_int ret\<rparr>) c;
         case m_recv_queue c of
           None \<Rightarrow> Some (upd_data p (d\<lparr>recv_len := 0\<rparr>) c)
         | Some q \<Rightarrow> do {
             n \<leftarrow> complete (m_protocol c) ret (recv_buf d) (recv_len d);
             if n \<le> 0 then Some (upd_data p d c)
             else do {
               (q, d) \<leftarrow> deliver lock_ok q d n;
               let c = upd_stat (\<lambda>s. s\<lparr>recv_num := recv_num s + 1\<rparr>) (upd_data p d (c\<lparr>m_recv_queue := Some q\<rparr>));
               if m_protocol c = PROTOCOL_HTTP \<and> \<not> m_use_keepalive c then OnClose ok p c else Some c
             }
           }
       }
     }"

section \<open>The loop\<close>

record event_env =
  \<comment> \<open>what the world outside does while one event is handled: the arguments of the handlers above\<close>
  env_lock :: bool
  env_sys :: bool
  env_fd :: int
  env_sbuf :: "u8 list"
  env_rbuf :: "u8 list"
  env_ret :: int
  env_bytes :: "u8 list"
  env_again :: bool

fun on_reads :: "(nat \<Rightarrow> event_env) \<Rightarrow> nat list \<Rightarrow> net_client \<Rightarrow> net_client option" where
  "on_reads env [] c = Some c"
| "on_reads env (p # ps) c =
     do {
       d \<leftarrow> m_heap c p;
       let e = env p;
       c \<leftarrow> (if fd d = m_queue_fd c then OnQueue (env_lock e) (env_sys e) (env_fd e) (env_sbuf e) (env_rbuf e) p c
            else OnRecv (env_lock e) (env_sys e) (env_ret e) (env_bytes e) (env_again e) p c);
       on_reads env ps c
     }"

fun on_writes :: "(nat \<Rightarrow> event_env) \<Rightarrow> nat list \<Rightarrow> net_client \<Rightarrow> net_client option" where
  "on_writes env [] c = Some c"
| "on_writes env (p # ps) c =
     do { c \<leftarrow> OnSend (env_sys (env p)) (env_ret (env p)) (env_again (env p)) p c; on_writes env ps c }"

definition Run_round :: "(nat \<Rightarrow> event_env) \<Rightarrow> nat epoll_event list \<Rightarrow> net_client \<Rightarrow> net_client option" where
  \<comment> \<open>one turn of the loop of \<open>Run\<close> for the events that \<open>epoll_wait\<close> reports\<close>
  "Run_round env evs c = (case Wait evs of (recv_fds, send_fds) \<Rightarrow>
     if recv_fds = [] \<and> send_fds = [] then Some c
     else do { c \<leftarrow> on_reads env recv_fds c; on_writes env send_fds c })"

section \<open>Consistency\<close>

definition data_ok :: "u32 \<Rightarrow> client_data \<Rightarrow> bool" where
  "data_ok len d \<longleftrightarrow> length (send_buf d) = unat len \<and> length (recv_buf d) = unat len \<and> recv_len d \<le> len \<and>
     send_pos d \<le> send_len d \<and> send_len d \<le> len"

definition conns :: "net_client \<Rightarrow> nat set" where
  "conns c = snd ` set (m_connects c)"

definition client_ok :: "nat \<Rightarrow> net_client \<Rightarrow> bool" where
  \<comment> \<open>\<open>qp\<close>: the object of the queue; every connection is a sound object of its own with a descriptor of its own\<close>
  "client_ok qp c \<longleftrightarrow> unat (m_max_pack_len c) < 2 ^ 30 \<and> 12 \<le> unat (m_max_pack_len c) \<and>
     (\<exists>qd. m_heap c qp = Some qd \<and> length (send_buf qd) = unat (m_max_pack_len c)) \<and> qp \<notin> conns c \<and>
     (\<forall>p \<in> conns c. \<exists>d. m_heap c p = Some d \<and> data_ok (m_max_pack_len c) d) \<and>
     (\<forall>p \<in> conns c. \<forall>q \<in> conns c. \<forall>d e. m_heap c p = Some d \<longrightarrow> m_heap c q = Some e \<longrightarrow> fd d = fd e \<longrightarrow> p = q) \<and>
     distinct (map fst (m_connects c)) \<and> distinct (map snd (m_connects c)) \<and> (\<forall>p \<ge> m_fresh c. m_heap c p = None)"

definition pending_out :: "client_data \<Rightarrow> u8 list" where
  \<comment> \<open>the bytes still to send\<close>
  "pending_out d = take (unat (send_len d - send_pos d)) (drop (unat (send_pos d)) (send_buf d))"

definition pending_in :: "client_data \<Rightarrow> u8 list" where
  \<comment> \<open>the bytes received and not yet delivered\<close>
  "pending_in d = take (unat (recv_len d)) (recv_buf d)"

lemma upd_simps [simp]:
  "m_heap (upd_data p d c) = (m_heap c)(p \<mapsto> d)" "m_heap (upd_stat f c) = m_heap c" "m_heap (upd_epoll g c) = m_heap c"
  "m_connects (upd_data p d c) = m_connects c" "m_connects (upd_stat f c) = m_connects c" "m_connects (upd_epoll g c) = m_connects c"
  "m_max_pack_len (upd_data p d c) = m_max_pack_len c" "m_max_pack_len (upd_stat f c) = m_max_pack_len c"
  "m_max_pack_len (upd_epoll g c) = m_max_pack_len c"
  "m_fresh (upd_data p d c) = m_fresh c" "m_fresh (upd_stat f c) = m_fresh c" "m_fresh (upd_epoll g c) = m_fresh c"
  "m_send_queue (upd_data p d c) = m_send_queue c" "m_send_queue (upd_stat f c) = m_send_queue c"
  "m_send_queue (upd_epoll g c) = m_send_queue c"
  "m_recv_queue (upd_data p d c) = m_recv_queue c" "m_recv_queue (upd_stat f c) = m_recv_queue c"
  "m_recv_queue (upd_epoll g c) = m_recv_queue c"
  "m_protocol (upd_data p d c) = m_protocol c" "m_protocol (upd_stat f c) = m_protocol c" "m_protocol (upd_epoll g c) = m_protocol c"
  "wire (upd_data p d c) = wire c" "wire (upd_stat f c) = wire c" "wire (upd_epoll g c) = wire c"
  by (simp_all add: upd_data_def upd_stat_def upd_epoll_def)

lemma client_ok_cong:
  assumes "m_heap c' = m_heap c" "m_connects c' = m_connects c" "m_max_pack_len c' = m_max_pack_len c" "m_fresh c' = m_fresh c"
  shows "client_ok qp c' = client_ok qp c"
  unfolding client_ok_def conns_def assms ..

lemma client_okD:
  assumes "client_ok qp c"
  shows "unat (m_max_pack_len c) < 2 ^ 30" "12 \<le> unat (m_max_pack_len c)"
    "\<exists>qd. m_heap c qp = Some qd \<and> length (send_buf qd) = unat (m_max_pack_len c)" "qp \<notin> conns c"
    "p \<in> conns c \<Longrightarrow> \<exists>d. m_heap c p = Some d \<and> data_ok (m_max_pack_len c) d"
    "p \<in> conns c \<Longrightarrow> q \<in> conns c \<Longrightarrow> m_heap c p = Some d \<Longrightarrow> m_heap c q = Some e \<Longrightarrow> fd d = fd e \<Longrightarrow> p = q"
    "distinct (map fst (m_connects c))" "distinct (map snd (m_connects c))" "m_fresh c \<le> p \<Longrightarrow> m_heap c p = None"
  using assms unfolding client_ok_def by blast+

lemma client_ok_fresh: "client_ok qp c \<Longrightarrow> m_heap c p = Some d \<Longrightarrow> p < m_fresh c"
  using client_okD(9) [of qp c p] by (cases "m_fresh c \<le> p") auto

lemma client_ok_update:
  assumes ok: "client_ok qp c" and p: "p \<in> conns c" and d: "m_heap c p = Some d"
    and d': "data_ok (m_max_pack_len c) d'" "fd d' = fd d"
    and c': "m_heap c' = (m_heap c)(p \<mapsto> d')" "m_connects c' = m_connects c" "m_max_pack_len c' = m_max_pack_len c" "m_fresh c' = m_fresh c"
  shows "client_ok qp c'"
proof -
  note D = client_okD [OF ok]
  have pq: "p \<noteq> qp" "p < m_fresh c" using D(4) p client_ok_fresh [OF ok d] by auto
  have cn: "conns c' = conns c" using c'(2) by (simp add: conns_def)
  have fdc: "\<exists>e. m_heap c q = Some e \<and> fd e = fd e'" if "m_heap c' q = Some e'" for q e'
    using that d d'(2) by (cases "q = p") (auto simp: c'(1))
  have "q = r" if a: "q \<in> conns c" "r \<in> conns c" "m_heap c' q = Some e" "m_heap c' r = Some e'" "fd e = fd e'" for q r e e'
  proof -
    obtain e1 where 1: "m_heap c q = Some e1" "fd e1 = fd e" using fdc [OF a(3)] by blast
    obtain e2 where 2: "m_heap c r = Some e2" "fd e2 = fd e'" using fdc [OF a(4)] by blast
    have "fd e1 = fd e2" using 1(2) 2(2) a(5) by argo
    then show ?thesis by (rule D(6) [OF a(1,2) 1(1) 2(1)])
  qed
  moreover have "\<exists>e. m_heap c' q = Some e \<and> data_ok (m_max_pack_len c) e" if "q \<in> conns c" for q
    using D(5) [OF that] d'(1) by (cases "q = p") (auto simp: c'(1))
  moreover have "m_heap c' q = None" if "m_fresh c \<le> q" for q using D(9) [OF that] pq(2) that by (simp add: c'(1))
  moreover have "m_heap c' qp = m_heap c qp" using pq(1) by (simp add: c'(1))
  ultimately show ?thesis unfolding client_ok_def cn c'(2,3,4) using D(1-4,7,8) by metis
qed

lemma client_ok_queue:
  assumes ok: "client_ok qp c" and l: "length (send_buf qd) = unat (m_max_pack_len c)"
    and c': "m_heap c' = (m_heap c)(qp \<mapsto> qd)" "m_connects c' = m_connects c" "m_max_pack_len c' = m_max_pack_len c" "m_fresh c' = m_fresh c"
  shows "client_ok qp c'"
proof -
  note D = client_okD [OF ok]
  obtain qd0 where "m_heap c qp = Some qd0" using D(3) by blast
  then have f: "qp < m_fresh c" by (rule client_ok_fresh [OF ok])
  have cn: "conns c' = conns c" using c'(2) by (simp add: conns_def)
  have h: "m_heap c' p = m_heap c p" if "p \<in> conns c" for p using that D(4) by (auto simp: c'(1))
  have "m_heap c' q = None" if "m_fresh c \<le> q" for q using D(9) [OF that] f that by (simp add: c'(1))
  moreover have "m_heap c' qp = Some qd" by (simp add: c'(1))
  moreover have "\<forall>p \<in> conns c. \<exists>d. m_heap c' p = Some d \<and> data_ok (m_max_pack_len c) d" using D(5) h by simp
  moreover have "\<forall>p \<in> conns c. \<forall>q \<in> conns c. \<forall>d e. m_heap c' p = Some d \<longrightarrow> m_heap c' q = Some e \<longrightarrow> fd d = fd e \<longrightarrow> p = q"
    using D(6) h by metis
  ultimately show ?thesis unfolding client_ok_def cn c'(2,3,4) using D(1,2,4,7,8) l by blast
qed

section \<open>The send buffer\<close>

lemma unat_cast [simp]: "unat (ucast (x :: u32) :: u64) = unat x"
proof -
  have "unat x < 2 ^ 64" using unsigned_less [of x, where ?'a = nat] by simp
  then show ?thesis by (simp add: unsigned_ucast_eq take_bit_nat_eq_self)
qed

lemma append_payload_ok:
  assumes d: "data_ok m d" and m: "unat m < 2 ^ 30" and msg: "8 \<le> length msg" "unat (send_len d) + length msg - 8 \<le> unat m"
    and buf: "buf = msg @ rest"
  shows "\<exists>d'. append_payload d buf (of_nat (length msg)) = Some d' \<and> data_ok m d' \<and>
    pending_out d' = pending_out d @ drop 8 msg \<and> fd d' = fd d \<and> sock_status d' = sock_status d \<and>
    recv_buf d' = recv_buf d \<and> recv_len d' = recv_len d"
proof -
  have lm: "length msg < 2 ^ 30 + 8" using m msg by linarith
  then have l: "unat (of_nat (length msg) :: u32) = length msg" by (intro unat_of_nat_small) simp
  have "(8 :: u64) \<le> ucast (of_nat (length msg) :: u32)" using msg(1) l by (simp add: word_le_nat_alt)
  then have n: "unat (ucast (of_nat (length msg) :: u32) - 8 :: u64) = length msg - 8" using l by (simp add: unat_sub)
  have "(8 :: u32) \<le> of_nat (length msg)" using msg(1) l by (simp add: word_le_nat_alt)
  then have n32: "unat (of_nat (length msg) - 8 :: u32) = length msg - 8" using l by (simp add: unat_sub)
  have sl: "unat (send_len d + (of_nat (length msg) - 8)) = unat (send_len d) + (length msg - 8)"
    using n32 msg m by (subst unat_add_small) auto
  have rd: "mem_read buf HEADER (length msg - 8) = Some (drop 8 msg)"
    using buf msg(1) by (simp add: mem_read_in HEADER_def)
  have lb: "length (send_buf d) = unat m" using d by (simp add: data_ok_def)
  define b where "b = take (unat (send_len d)) (send_buf d) @ drop 8 msg @ drop (unat (send_len d) + (length msg - 8)) (send_buf d)"
  have wr: "mem_write (send_buf d) (unat (send_len d)) (drop 8 msg) = Some b"
    using msg lb by (simp add: mem_write_in b_def)
  define d' where "d' = d\<lparr>send_buf := b, send_len := send_len d + (of_nat (length msg) - 8)\<rparr>"
  have ap: "append_payload d buf (of_nat (length msg)) = Some d'"
    using rd wr by (simp add: append_payload_def n d'_def)
  have sp: "unat (send_pos d) \<le> unat (send_len d)" "unat (send_len d) \<le> unat m" using d by (auto simp: data_ok_def word_le_nat_alt)
  have "length b = unat m" using length_mem_write [OF wr] lb by simp
  then have "data_ok m d'"
    using d sl sp msg by (simp add: data_ok_def d'_def word_le_nat_alt)
  moreover have "pending_out d' = pending_out d @ drop 8 msg"
  proof -
    have k: "unat (send_len d - send_pos d) = unat (send_len d) - unat (send_pos d)"
      using d by (intro unat_sub) (simp add: data_ok_def)
    have "send_pos d \<le> send_len d + (of_nat (length msg) - 8)" using sl sp by (simp add: word_le_nat_alt)
    then have k': "unat (send_len d + (of_nat (length msg) - 8) - send_pos d) = unat (send_len d) + (length msg - 8) - unat (send_pos d)"
      using sl by (simp add: unat_sub)
    have e: "unat (send_len d) + (length msg - 8) - unat (send_pos d) = (unat (send_len d) - unat (send_pos d)) + (length msg - 8)"
      using sp by simp
    have dr: "drop (unat (send_pos d)) b = take (unat (send_len d) - unat (send_pos d)) (drop (unat (send_pos d)) (send_buf d)) @
        drop 8 msg @ drop (unat (send_len d) + (length msg - 8)) (send_buf d)"
      using sp lb by (simp add: b_def drop_take)
    show ?thesis
      unfolding pending_out_def d'_def using k' e dr k sp lb msg by (simp add: take_add)
  qed
  ultimately show ?thesis using ap by (auto simp: d'_def)
qed

definition conn :: "net_client \<Rightarrow> u64 \<Rightarrow> client_data option" where
  "conn c key = Option.bind (map_of (m_connects c) key) (m_heap c)"

definition out_of :: "net_client \<Rightarrow> u64 \<Rightarrow> u8 list" where
  \<comment> \<open>what is still to send to an address\<close>
  "out_of c key = (case conn c key of None \<Rightarrow> [] | Some d \<Rightarrow> pending_out d)"

definition used_of :: "net_client \<Rightarrow> u64 \<Rightarrow> nat" where
  \<comment> \<open>how much of the send buffer of an address is used, sent bytes included\<close>
  "used_of c key = (case conn c key of None \<Rightarrow> 0 | Some d \<Rightarrow> unat (send_len d))"

definition env_ok :: "int \<Rightarrow> u8 list \<Rightarrow> u8 list \<Rightarrow> net_client \<Rightarrow> bool" where
  \<comment> \<open>\<open>init_client\<close> succeeds with a descriptor that is not in use, \<open>new\<close> returns buffers of the requested size\<close>
  "env_ok f sbuf rbuf c \<longleftrightarrow> 0 \<le> f \<and> length sbuf = unat (m_max_pack_len c) \<and> length rbuf = unat (m_max_pack_len c) \<and>
     (\<forall>p \<in> conns c. \<forall>d. m_heap c p = Some d \<longrightarrow> fd d \<noteq> f)"

lemma conns_of: "map_of (m_connects c) key = Some p \<Longrightarrow> p \<in> conns c"
  by (force simp: conns_def dest: map_of_SomeD)

lemma conn_inj:
  assumes "client_ok qp c" and "map_of (m_connects c) k = Some p" and "map_of (m_connects c) k' = Some p"
  shows "k = k'"
proof -
  have i: "inj_on snd (set (m_connects c))" using client_okD(8) [OF assms(1)] by (simp add: distinct_map)
  have "(k, p) = (k', p)" using map_of_SomeD [OF assms(2)] map_of_SomeD [OF assms(3)] by (intro inj_onD [OF i]) simp_all
  then show ?thesis by simp
qed

lemma conn_update:
  assumes "client_ok qp c" and "map_of (m_connects c) key = Some p"
    and "m_heap c' = (m_heap c)(p \<mapsto> d')" and "m_connects c' = m_connects c"
  shows "conn c' k = (if k = key then Some d' else conn c k)"
proof (cases "map_of (m_connects c) k")
  case (Some q)
  have "q = p \<longleftrightarrow> k = key" using conn_inj [OF assms(1)] Some assms(2) by auto
  then show ?thesis using Some assms by (auto simp: conn_def)
qed (use assms in \<open>auto simp: conn_def\<close>)

lemma data_new_ok: "length sbuf = unat m \<Longrightarrow> length rbuf = unat m \<Longrightarrow> data_ok m (client_data_new f sbuf rbuf)"
  by (simp add: data_ok_def client_data_new_def)

lemma Connect_ok:
  fixes ip :: u32 and port :: u16
  assumes ok: "client_ok qp c" and env: "env_ok f sbuf rbuf c"
  defines "key \<equiv> connect_key ip port"
  shows "\<exists>p c' d. Connect f sbuf rbuf ip port c = (Some p, c') \<and> client_ok qp c' \<and> map_of (m_connects c') key = Some p \<and>
    m_heap c' p = Some d \<and> data_ok (m_max_pack_len c) d \<and> unat (send_len d) = used_of c key \<and> pending_out d = out_of c key \<and>
    (\<forall>k. k \<noteq> key \<longrightarrow> conn c' k = conn c k) \<and> m_max_pack_len c' = m_max_pack_len c \<and> m_send_queue c' = m_send_queue c"
proof (cases "map_of (m_connects c) key")
  case (Some p)
  then obtain d where "m_heap c p = Some d" "data_ok (m_max_pack_len c) d" using client_okD(5) [OF ok conns_of] by blast
  then show ?thesis using ok Some by (auto simp: Connect_def key_def conn_def used_of_def out_of_def)
next
  case None
  define p where "p = m_fresh c"
  define d where "d = client_data_new f sbuf rbuf"
  define c' where "c' = upd_stat (\<lambda>s. s\<lparr>connetct_num := connetct_num s + 1\<rparr>)
    ((upd_data p d (c\<lparr>m_fresh := p + 1\<rparr>))\<lparr>m_connects := (key, p) # m_connects c\<rparr>)"
  have "Connect f sbuf rbuf ip port c = (Some p, c')"
    using None env by (simp add: Connect_def env_ok_def Let_def c'_def p_def d_def flip: key_def) 
  moreover have f: "m_heap c' = (m_heap c)(p \<mapsto> d)" "m_connects c' = (key, p) # m_connects c" "m_max_pack_len c' = m_max_pack_len c"
    "m_fresh c' = p + 1" "m_send_queue c' = m_send_queue c"
    by (simp_all add: c'_def upd_data_def upd_stat_def)
  moreover note D = client_okD [OF ok]
  have pn: "m_heap c p = None" using D(9) by (simp add: p_def)
  have dk: "data_ok (m_max_pack_len c) d" using env by (simp add: d_def env_ok_def data_new_ok)
  have old: "q \<noteq> p" if "q \<in> conns c" for q using D(5) [OF that] pn by auto
  have cn: "conns c' = insert p (conns c)" by (simp add: conns_def f)
  have nq: "p \<noteq> qp" using D(3) pn by auto
  have h: "m_heap c' q = m_heap c q" if "q \<in> conns c" for q using old [OF that] by (simp add: f)
  have "client_ok qp c'"
    unfolding client_ok_def
  proof (intro conjI)
    show "unat (m_max_pack_len c') < 2 ^ 30" "12 \<le> unat (m_max_pack_len c')" using D(1,2) by (simp_all add: f)
    show "\<exists>qd. m_heap c' qp = Some qd \<and> length (send_buf qd) = unat (m_max_pack_len c')" using D(3) nq by (simp add: f)
    show "qp \<notin> conns c'" using D(4) nq by (simp add: cn)
    show "\<forall>q \<in> conns c'. \<exists>e. m_heap c' q = Some e \<and> data_ok (m_max_pack_len c') e"
      using D(5) h dk by (auto simp: cn f(3)) (simp add: f(1))
    show "\<forall>q \<in> conns c'. \<forall>r \<in> conns c'. \<forall>e e'. m_heap c' q = Some e \<longrightarrow> m_heap c' r = Some e' \<longrightarrow> fd e = fd e' \<longrightarrow> q = r"
    proof (intro ballI allI impI)
      fix q r e e'
      assume a: "q \<in> conns c'" "r \<in> conns c'" "m_heap c' q = Some e" "m_heap c' r = Some e'" "fd e = fd e'"
      have new: "fd x \<noteq> f" if "y \<in> conns c" "m_heap c' y = Some x" for x y
        using env that h by (auto simp: env_ok_def)
      have p: "x = d" if "m_heap c' p = Some x" for x using that by (simp add: f)
      have "fd d = f" by (simp add: d_def client_data_new_def)
      then show "q = r" using a new p D(6) h by (cases "q = p"; cases "r = p") (auto simp: cn)
    qed
    show "distinct (map fst (m_connects c'))" using D(7) None by (simp add: f map_of_eq_None_iff)
    show "distinct (map snd (m_connects c'))" using D(8) old by (auto simp: f conns_def)
    show "\<forall>q \<ge> m_fresh c'. m_heap c' q = None" using D(9) by (simp add: f p_def)
  qed
  moreover have "conn c' k = conn c k" if "k \<noteq> key" for k
    using that h conns_of by (auto simp: conn_def f(2) split: bind_split)
  moreover have "conn c key = None" using None by (simp add: conn_def)
  ultimately show ?thesis
    using dk by (auto simp: f used_of_def out_of_def d_def client_data_new_def pending_out_def)
qed

lemma conn_cong:
  assumes "client_ok qp c" and "m_heap c' = (m_heap c)(qp \<mapsto> qd)" and "m_connects c' = m_connects c"
  shows "conn c' k = conn c k"
proof (cases "map_of (m_connects c) k")
  case (Some p)
  then have "p \<noteq> qp" using conns_of [OF Some] client_okD(4) [OF assms(1)] by auto
  then show ?thesis using Some assms(2,3) by (simp add: conn_def)
qed (simp add: conn_def assms(3))

lemma of_conn:
  assumes "conn c' k = conn c k"
  shows "out_of c' k = out_of c k" "used_of c' k = used_of c k"
  using assms by (simp_all add: out_of_def used_of_def)

lemma OnQueue_start:
  assumes ok: "client_ok qp c" and env: "env_ok f sbuf rbuf c" and rel: "nq_rel (m_send_queue c) (msg # ms)"
    and len: "length msg + 4 \<le> unat (m_max_pack_len c)"
    and qd: "m_heap c qp = Some qd" "length (send_buf qd) = unat (m_max_pack_len c)"
    and buf: "buf = msg @ drop (length msg) (send_buf qd)"
    and key: "key = connect_key (of_le32 (take 4 buf)) (of_le16 (take 2 (drop 4 buf)))"
  shows "\<exists>p c2 d. OnQueue True sys f sbuf rbuf qp c =
      (if (ucast (send_len d + of_nat (length msg)) - 8 :: u64) > ucast (m_max_pack_len c) then Some c2
       else do {
         d \<leftarrow> append_payload d buf (of_nat (length msg));
         Some (if sock_status d = 0
               then upd_data p (d\<lparr>sock_status := 1\<rparr>) (upd_epoll (Add sys (fd d) p True True) c2)
               else upd_data p d (upd_epoll (Mod (fd d) p True True) c2))
       }) \<and>
    client_ok qp c2 \<and> map_of (m_connects c2) key = Some p \<and> m_heap c2 p = Some d \<and> data_ok (m_max_pack_len c) d \<and>
    unat (send_len d) = used_of c key \<and> pending_out d = out_of c key \<and> (\<forall>k. k \<noteq> key \<longrightarrow> conn c2 k = conn c k) \<and>
    m_max_pack_len c2 = m_max_pack_len c \<and> nq_rel (m_send_queue c2) ms"
proof -
  note D = client_okD [OF ok]
  have "4 \<le> unat (m_max_pack_len c)" using D(2) by simp
  from Pop_cons_rel [OF rel this] obtain q' where
    q': "Pop True (m_send_queue c) (m_max_pack_len c) = Some (0, Some (of_nat (length msg)), msg, q')" "nq_rel q' ms"
    using len by auto
  have wr: "mem_write (send_buf qd) 0 msg = Some buf" using len qd(2) by (simp add: mem_write_in buf)
  have lb: "length buf = unat (m_max_pack_len c)" using length_mem_write [OF wr] qd(2) by simp
  have rd: "mem_read buf 0 HEADER = Some (take 8 buf)" using lb D(2) by (simp add: mem_read_in HEADER_def)
  define c1 where "c1 = upd_data qp (qd\<lparr>send_buf := buf, send_len := of_nat (length msg)\<rparr>) (c\<lparr>m_send_queue := q'\<rparr>)"
  have h1: "m_heap c1 = (m_heap c)(qp \<mapsto> qd\<lparr>send_buf := buf, send_len := of_nat (length msg)\<rparr>)" "m_connects c1 = m_connects c"
    "m_max_pack_len c1 = m_max_pack_len c" "m_fresh c1 = m_fresh c" "m_send_queue c1 = q'"
    by (simp_all add: c1_def)
  have ok1: "client_ok qp c1" by (rule client_ok_queue [OF ok _ h1(1-4)]) (simp add: lb)
  have cn1: "conns c1 = conns c" using h1(2) by (simp add: conns_def)
  have env1: "env_ok f sbuf rbuf c1" using env D(4) unfolding env_ok_def cn1 h1(3) by (auto simp: h1(1) split: if_splits)
  have eq1: "conn c1 k = conn c k" for k by (rule conn_cong [OF ok h1(1,2)])
  have addr: "of_le32 (take 4 (take 8 buf)) = of_le32 (take 4 buf)" "of_le16 (take 2 (drop 4 (take 8 buf))) = of_le16 (take 2 (drop 4 buf))"
    by (simp_all add: drop_take)
  from Connect_ok [OF ok1 env1, of "of_le32 (take 4 buf)" "of_le16 (take 2 (drop 4 buf))", folded key]
  obtain p c2 d where C: "Connect f sbuf rbuf (of_le32 (take 4 buf)) (of_le16 (take 2 (drop 4 buf))) c1 = (Some p, c2)"
    "client_ok qp c2" "map_of (m_connects c2) key = Some p" "m_heap c2 p = Some d" "data_ok (m_max_pack_len c1) d"
    "unat (send_len d) = used_of c1 key" "pending_out d = out_of c1 key" "\<forall>k. k \<noteq> key \<longrightarrow> conn c2 k = conn c1 k"
    "m_max_pack_len c2 = m_max_pack_len c1" "m_send_queue c2 = m_send_queue c1"
    by blast
  have "OnQueue True sys f sbuf rbuf qp c =
    (if (ucast (send_len d + of_nat (length msg)) - 8 :: u64) > ucast (m_max_pack_len c) then Some c2
     else do {
       d \<leftarrow> append_payload d buf (of_nat (length msg));
       Some (if sock_status d = 0
             then upd_data p (d\<lparr>sock_status := 1\<rparr>) (upd_epoll (Add sys (fd d) p True True) c2)
             else upd_data p d (upd_epoll (Mod (fd d) p True True) c2))
     })"
    unfolding OnQueue_def using qd(1) q'(1) wr rd C(1,4,9) h1(3) by (simp add: Let_def addr flip: c1_def)
  moreover have "\<forall>k. k \<noteq> key \<longrightarrow> conn c2 k = conn c k" using C(8) eq1 by simp
  moreover have "used_of c1 key = used_of c key" "out_of c1 key = out_of c key" using of_conn [OF eq1] by simp_all
  moreover have "m_send_queue c2 = q'" "m_max_pack_len c2 = m_max_pack_len c" using C(9,10) h1(3,5) by simp_all
  ultimately show ?thesis using C(2-7) q'(2) h1(3) by (intro exI [of _ p] exI [of _ c2] exI [of _ d]) simp
qed

section \<open>An example\<close>

definition send_example :: "u8 list \<Rightarrow> net_queue" where
  \<comment> \<open>sixteen bytes of buffer holding one message of at most eleven\<close>
  "send_example msg = \<lparr>m_buffer = frame msg @ replicate (12 - length msg) 0, m_buffer_len = 16, m_wlock = False, m_rlock = False,
     m_head = 0, m_tail = of_nat (length msg + 4), m_dequeue_num = 0, m_enqueue_num = 1, m_pipe = 1, m_pipe_cap = 1\<rparr>"

definition data_example :: client_data where
  "data_example = \<lparr>fd = 5, send_buf = [1, 2, 3, 4] @ replicate 12 0, recv_buf = [0, 0] @ replicate 14 0, send_len = 4, recv_len = 2,
     send_pos = 0, sock_status = 1\<rparr>"

definition client_example :: "u8 list \<Rightarrow> net_client" where
  \<comment> \<open>one connection, to port 80 of 127.0.0.1, and a message in the queue\<close>
  "client_example msg = \<lparr>m_protocol = PROTOCOL_LONGCONN, m_use_keepalive = True, m_queue_fd = 3,
     m_heap = [0 \<mapsto> client_data_new 3 (replicate 16 0) [], 1 \<mapsto> data_example], m_fresh = 2, m_connects = [(connect_key 0x100007F 80, 1)],
     m_send_queue = send_example msg, m_recv_queue = Some (CNetQueue False False 32 1 (replicate 32 0)), m_epoll = CEpoll,
     m_stat = stat_net_new, m_max_pack_len = 16, wire = [], closed = []\<rparr>"

lemma client_example_simps [simp]:
  "m_protocol (client_example msg) = PROTOCOL_LONGCONN" "m_max_pack_len (client_example msg) = 16"
  "m_heap (client_example msg) = [0 \<mapsto> client_data_new 3 (replicate 16 0) [], 1 \<mapsto> data_example]"
  "m_connects (client_example msg) = [(connect_key 0x100007F 80, 1)]"
  "m_send_queue (client_example msg) = send_example msg" "m_fresh (client_example msg) = 2"
  "m_recv_queue (client_example msg) = Some (CNetQueue False False 32 1 (replicate 32 0))"
  "wire (client_example msg) = []" "closed (client_example msg) = []"
  by (simp_all add: client_example_def)

lemma client_example_ok: "client_ok 0 (client_example msg)"
  by (auto simp: client_ok_def conns_def data_ok_def data_example_def client_data_new_def word_le_nat_alt)

lemma client_example_env: "env_ok 9 (replicate 16 0) (replicate 16 0) (client_example msg)"
  by (simp add: env_ok_def conns_def data_example_def)

lemma conn_example: "conn (client_example msg) (connect_key 0x100007F 80) = Some data_example"
  by (simp add: conn_def)

lemma pending_example: "pending_out data_example = [1, 2, 3, 4]" "pending_in data_example = [0, 0]"
  by (simp_all add: pending_out_def pending_in_def data_example_def)

lemma of_example: "out_of (client_example msg) (connect_key 0x100007F 80) = [1, 2, 3, 4]"
  "used_of (client_example msg) (connect_key 0x100007F 80) = 4"
  by (simp_all add: out_of_def used_of_def conn_example pending_example) (simp add: data_example_def)

lemma send_example_rel:
  "nq_rel (send_example [127, 0, 0, 1, 80, 0, 0, 0, 65, 66]) [[127, 0, 0, 1, 80, 0, 0, 0, 65, 66]]"
  "nq_rel (send_example [127, 0, 0, 1, 80]) [[127, 0, 0, 1, 80]]"
  by (simp_all add: nq_rel_def nq_wf_def nq_bytes_def nq_used_def ring_get_def frame_def le32_def send_example_def upt_rec)

text \<open>
  C17: \<open>OnQueue\<close> takes the oldest message from the queue and appends it, without its address, to what is still to
  be sent to that address, over a new connection if there is none; a message that does not fit the send buffer
  (which counts the bytes already sent) is dropped. Nothing that goes to other addresses changes.
\<close>
theorem net_client_queue:
  assumes ok: "client_ok qp c" and env: "env_ok f sbuf rbuf c" and rel: "nq_rel (m_send_queue c) (msg # ms)"
    and len: "8 \<le> length msg" "length msg + 4 \<le> unat (m_max_pack_len c)"
    and key: "key = connect_key (of_le32 (take 4 msg)) (of_le16 (take 2 (drop 4 msg)))"
  shows "\<exists>c'. OnQueue True sys f sbuf rbuf qp c = Some c' \<and> client_ok qp c' \<and> nq_rel (m_send_queue c') ms \<and>
    out_of c' key = out_of c key @ (if used_of c key + length msg - 8 \<le> unat (m_max_pack_len c) then drop 8 msg else []) \<and>
    (\<forall>k. k \<noteq> key \<longrightarrow> out_of c' k = out_of c k)"
proof -
  note D = client_okD [OF ok]
  obtain qd where qd: "m_heap c qp = Some qd" "length (send_buf qd) = unat (m_max_pack_len c)" using D(3) by blast
  define buf where "buf = msg @ drop (length msg) (send_buf qd)"
  have "key = connect_key (of_le32 (take 4 buf)) (of_le16 (take 2 (drop 4 buf)))" using len(1) by (simp add: key buf_def)
  from OnQueue_start [OF ok env rel len(2) qd buf_def this, where sys = sys] obtain p c2 d where
    start: "OnQueue True sys f sbuf rbuf qp c =
      (if (ucast (send_len d + of_nat (length msg)) - 8 :: u64) > ucast (m_max_pack_len c) then Some c2
       else do {
         d \<leftarrow> append_payload d buf (of_nat (length msg));
         Some (if sock_status d = 0
               then upd_data p (d\<lparr>sock_status := 1\<rparr>) (upd_epoll (Add sys (fd d) p True True) c2)
               else upd_data p d (upd_epoll (Mod (fd d) p True True) c2))
       })"
    and C: "client_ok qp c2" "map_of (m_connects c2) key = Some p" "m_heap c2 p = Some d" "data_ok (m_max_pack_len c) d"
      "unat (send_len d) = used_of c key" "pending_out d = out_of c key" "\<forall>k. k \<noteq> key \<longrightarrow> conn c2 k = conn c k"
      "m_max_pack_len c2 = m_max_pack_len c" "nq_rel (m_send_queue c2) ms"
    by blast
  have sl: "unat (send_len d) \<le> unat (m_max_pack_len c)" using C(4) by (simp add: data_ok_def word_le_nat_alt)
  have room: "((ucast (send_len d + of_nat (length msg)) - 8 :: u64) > ucast (m_max_pack_len c)) \<longleftrightarrow>
      \<not> used_of c key + length msg - 8 \<le> unat (m_max_pack_len c)"
  proof -
    have "unat (of_nat (length msg) :: u32) = length msg" using len(2) D(1) by (intro unat_of_nat_small) simp
    then have "unat (send_len d + of_nat (length msg)) = unat (send_len d) + length msg"
      using sl D(1) len(2) by (subst unat_add_small) auto
    moreover have "(8 :: u64) \<le> ucast (send_len d + of_nat (length msg))" using calculation len(1) by (simp add: word_le_nat_alt)
    ultimately have "unat (ucast (send_len d + of_nat (length msg)) - 8 :: u64) = unat (send_len d) + length msg - 8"
      by (simp add: unat_sub)
    then show ?thesis using C(5) by (simp add: word_less_nat_alt not_le)
  qed
  show ?thesis
  proof (cases "used_of c key + length msg - 8 \<le> unat (m_max_pack_len c)")
    case False
    then have "OnQueue True sys f sbuf rbuf qp c = Some c2" using start room by simp
    moreover have "out_of c2 key = out_of c key" using C(2,3,6) by (simp add: out_of_def [of c2] conn_def [of c2])
    moreover have "out_of c2 k = out_of c k" if "k \<noteq> key" for k using C(7) that by (intro of_conn) simp
    ultimately show ?thesis using C(1,9) False by auto
  next
    case True
    have "unat (send_len d) + length msg - 8 \<le> unat (m_max_pack_len c)" using True C(5) by simp
    from append_payload_ok [OF C(4) D(1) len(1) this buf_def]
    obtain d' where d': "append_payload d buf (of_nat (length msg)) = Some d'" "data_ok (m_max_pack_len c) d'"
      "pending_out d' = pending_out d @ drop 8 msg" "fd d' = fd d" "sock_status d' = sock_status d"
      by auto
    define e where "e = (if sock_status d' = 0 then d'\<lparr>sock_status := 1\<rparr> else d')"
    define c3 where "c3 = upd_data p e (upd_epoll (if sock_status d' = 0 then Add sys (fd d') p True True else Mod (fd d') p True True) c2)"
    have run: "OnQueue True sys f sbuf rbuf qp c = Some c3" using start room True d'(1) by (simp add: c3_def e_def)
    have h3: "m_heap c3 = (m_heap c2)(p \<mapsto> e)" "m_connects c3 = m_connects c2" "m_max_pack_len c3 = m_max_pack_len c2"
      "m_fresh c3 = m_fresh c2" "m_send_queue c3 = m_send_queue c2" by (simp_all add: c3_def)
    have e: "data_ok (m_max_pack_len c2) e" "fd e = fd d" "pending_out e = pending_out d @ drop 8 msg"
      using d' C(8) by (simp_all add: e_def data_ok_def pending_out_def)
    have ok3: "client_ok qp c3" by (rule client_ok_update [OF C(1) conns_of [OF C(2)] C(3) e(1,2) h3(1-4)])
    have cu: "conn c3 k = (if k = key then Some e else conn c2 k)" for k by (rule conn_update [OF C(1,2) h3(1,2)])
    have "out_of c3 key = out_of c key @ drop 8 msg" using cu [of key] e(3) C(6) by (simp add: out_of_def [of c3])
    moreover have "out_of c3 k = out_of c k" if "k \<noteq> key" for k using C(7) that cu [of k] by (intro of_conn) simp
    ultimately show ?thesis using run ok3 h3(5) C(9) True by auto
  qed
qed

theorem net_client_queue_witness:
  "\<exists>c'. OnQueue True True 9 (replicate 16 0) (replicate 16 0) 0 (client_example [127, 0, 0, 1, 80, 0, 0, 0, 65, 66]) = Some c' \<and>
    out_of c' (connect_key 0x100007F 80) = [1, 2, 3, 4, 65, 66]"
  using net_client_queue [OF client_example_ok client_example_env,
      where msg = "[127, 0, 0, 1, 80, 0, 0, 0, 65, 66]" and ms = "[]" and key = "connect_key 0x100007F 80" and sys = True,
      of "[127, 0, 0, 1, 80, 0, 0, 0, 65, 66]"] send_example_rel(1)
  by (auto simp: of_example of_le32.simps of_le16_def)

text \<open>
  A message of less than the eight bytes of a header: the check of the free space adds the bytes already in the
  send buffer before it subtracts the header, so with enough of them it passes, and the \<open>memcpy\<close> of the length minus
  eight, a number without sign, runs out of the buffers.
\<close>
theorem net_client_short_packet:
  assumes ok: "client_ok qp c" and env: "env_ok f sbuf rbuf c" and rel: "nq_rel (m_send_queue c) (msg # ms)"
    and len: "length msg < 8" "8 \<le> used_of c key + length msg"
    and qd: "m_heap c qp = Some qd"
    and key: "key = connect_key (of_le32 (take 4 (msg @ drop (length msg) (send_buf qd))))
                      (of_le16 (take 2 (drop 4 (msg @ drop (length msg) (send_buf qd)))))"
  shows "OnQueue True sys f sbuf rbuf qp c = None"
proof -
  note D = client_okD [OF ok]
  have l: "length msg + 4 \<le> unat (m_max_pack_len c)" "length (send_buf qd) = unat (m_max_pack_len c)"
    using D(2,3) len(1) qd by auto
  from OnQueue_start [OF ok env rel l(1) qd l(2) refl key, where sys = sys] obtain p c2 d where
    start: "OnQueue True sys f sbuf rbuf qp c =
      (if (ucast (send_len d + of_nat (length msg)) - 8 :: u64) > ucast (m_max_pack_len c) then Some c2
       else do {
         d \<leftarrow> append_payload d (msg @ drop (length msg) (send_buf qd)) (of_nat (length msg));
         Some (if sock_status d = 0
               then upd_data p (d\<lparr>sock_status := 1\<rparr>) (upd_epoll (Add sys (fd d) p True True) c2)
               else upd_data p d (upd_epoll (Mod (fd d) p True True) c2))
       })"
    and C: "data_ok (m_max_pack_len c) d" "unat (send_len d) = used_of c key"
    by blast
  have lm: "unat (of_nat (length msg) :: u32) = length msg" using len(1) by (intro unat_of_nat_small) simp
  have sl: "unat (send_len d) \<le> unat (m_max_pack_len c)" using C(1) by (simp add: data_ok_def word_le_nat_alt)
  have add: "unat (send_len d + of_nat (length msg)) = unat (send_len d) + length msg"
    using lm sl D(1) len(1) by (subst unat_add_small) auto
  then have "(8 :: u64) \<le> ucast (send_len d + of_nat (length msg))" using len(2) C(2) by (simp add: word_le_nat_alt)
  then have "unat (ucast (send_len d + of_nat (length msg)) - 8 :: u64) = unat (send_len d) + length msg - 8"
    using add by (simp add: unat_sub)
  then have "\<not> (ucast (send_len d + of_nat (length msg)) - 8 :: u64) > ucast (m_max_pack_len c)"
    using sl len(1) by (simp add: word_less_nat_alt)
  moreover have "2 ^ 63 \<le> unat (ucast (of_nat (length msg) :: u32) - 8 :: u64)"
  proof -
    have "unat (ucast (of_nat (length msg) :: u32) - 8 :: u64) = length msg + 2 ^ 64 - 8"
      using lm len(1) unat_sub_if_size [of "ucast (of_nat (length msg) :: u32) :: u64" 8] by (simp add: word_size)
    then show ?thesis by simp
  qed
  then have "append_payload d (msg @ drop (length msg) (send_buf qd)) (of_nat (length msg)) = None"
  proof -
    assume "2 ^ 63 \<le> unat (ucast (of_nat (length msg) :: u32) - 8 :: u64)"
    moreover have "length (msg @ drop (length msg) (send_buf qd)) < 2 ^ 63" using l D(1) by simp
    ultimately have "\<not> HEADER + unat (ucast (of_nat (length msg) :: u32) - 8 :: u64) \<le> length (msg @ drop (length msg) (send_buf qd))"
      by linarith
    then show ?thesis unfolding append_payload_def mem_read_def by simp
  qed
  ultimately show ?thesis using start by simp
qed

theorem net_client_short_packet_witness:
  "OnQueue True True 9 (replicate 16 0) (replicate 16 0) 0 (client_example [127, 0, 0, 1, 80]) = None"
  by (rule net_client_short_packet [OF client_example_ok client_example_env, where msg = "[127, 0, 0, 1, 80]" and ms = "[]"
        and qd = "client_data_new 3 (replicate 16 0) []" and key = "connect_key 0x100007F 80"])
    (simp_all add: send_example_rel used_of_def conn_example data_example_def client_data_new_def of_le32.simps of_le16_def)


section \<open>Closing\<close>

lemma erase_fd_filter:
  assumes "\<forall>(k, q) \<in> set es. \<exists>d. h q = Some d \<and> (fd d = f \<longleftrightarrow> q = p)"
  shows "erase_fd f h es = Some (filter (\<lambda>(k, q). q \<noteq> p) es)"
  using assms by (induction es) auto

lemma map_of_filter_snd:
  "map_of (filter (\<lambda>(k, q). q \<noteq> p) es) k = (case map_of es k of None \<Rightarrow> None | Some q \<Rightarrow> if q = p then None else Some q)"
  if "distinct (map fst es)"
  using that by (induction es) (auto simp: map_of_eq_None_iff split: option.splits)

lemma OnClose_ok:
  assumes ok: "client_ok qp c" and p: "map_of (m_connects c) key = Some p" and d: "m_heap c p = Some d"
  shows "\<exists>c'. OnClose sys p c = Some c' \<and> client_ok qp c' \<and> conn c' key = None \<and> m_heap c' p = None \<and>
    (\<forall>k. k \<noteq> key \<longrightarrow> conn c' k = conn c k) \<and> closed c' = closed c @ (if sys then [fd d, fd d] else [fd d])"
proof -
  note D = client_okD [OF ok]
  define es where "es = filter (\<lambda>(k, q). q \<noteq> p) (m_connects c)"
  define c1 where "c1 = upd_stat (\<lambda>s. s\<lparr>close_num := close_num s + 1\<rparr>) c"
  define c' where "c' = (upd_epoll (Del sys (fd d) True) (c1\<lparr>m_connects := es\<rparr>))
     \<lparr>closed := closed c @ (if sys then [fd d, fd d] else [fd d]), m_heap := (m_heap c)(p := None)\<rparr>"
  have "\<forall>(k, q) \<in> set (m_connects c). \<exists>e. m_heap c q = Some e \<and> (fd e = fd d \<longleftrightarrow> q = p)"
  proof (clarify)
    fix k q assume "(k, q) \<in> set (m_connects c)"
    then have q: "q \<in> conns c" by (force simp: conns_def)
    then obtain e where e: "m_heap c q = Some e" using D(5) by blast
    have "fd e = fd d \<longleftrightarrow> q = p" using D(6) [OF q conns_of [OF p] e d] e d by auto
    then show "\<exists>e. m_heap c q = Some e \<and> (fd e = fd d \<longleftrightarrow> q = p)" using e by blast
  qed
  then have er: "erase_fd (fd d) (m_heap c) (m_connects c) = Some es" unfolding es_def by (rule erase_fd_filter)
  have run: "OnClose sys p c = Some c'"
    using d er by (simp add: OnClose_def Let_def c'_def c1_def upd_stat_def upd_epoll_def)
  have h: "m_heap c' = (m_heap c)(p := None)" "m_connects c' = es" "m_max_pack_len c' = m_max_pack_len c" "m_fresh c' = m_fresh c"
    "closed c' = closed c @ (if sys then [fd d, fd d] else [fd d])"
    by (simp_all add: c'_def c1_def upd_epoll_def upd_stat_def)
  have cn: "conns c' = conns c - {p}" by (force simp: conns_def h(2) es_def)
  have hq: "m_heap c' q = m_heap c q" if "q \<in> conns c'" for q using that by (simp add: h(1) cn)
  have qp: "qp \<noteq> p" using D(4) conns_of [OF p] by auto
  have dist: "distinct (map g es)" if "distinct (map g (m_connects c))" for g :: "u64 \<times> nat \<Rightarrow> 'b"
    using that by (simp add: es_def distinct_map_filter)
  have "client_ok qp c'"
    unfolding client_ok_def h(3,4)
  proof (intro conjI)
    show "unat (m_max_pack_len c) < 2 ^ 30" "12 \<le> unat (m_max_pack_len c)" by (rule D(1), rule D(2))
    show "\<exists>qd. m_heap c' qp = Some qd \<and> length (send_buf qd) = unat (m_max_pack_len c)" using D(3) qp by (simp add: h(1))
    show "qp \<notin> conns c'" using D(4) by (simp add: cn)
    show "\<forall>q \<in> conns c'. \<exists>e. m_heap c' q = Some e \<and> data_ok (m_max_pack_len c) e" using D(5) hq by (simp add: cn)
    show "\<forall>q \<in> conns c'. \<forall>r \<in> conns c'. \<forall>e e'. m_heap c' q = Some e \<longrightarrow> m_heap c' r = Some e' \<longrightarrow> fd e = fd e' \<longrightarrow> q = r"
      using D(6) hq by (metis Diff_iff cn)
    show "distinct (map fst (m_connects c'))" "distinct (map snd (m_connects c'))" unfolding h(2) using D(7,8) dist by blast+
    show "\<forall>q \<ge> m_fresh c. m_heap c' q = None" using D(9) by (simp add: h(1))
  qed
  moreover have "conn c' k = (if k = key then None else conn c k)" for k
  proof (cases "map_of (m_connects c) k")
    case (Some q)
    have "q = p \<longleftrightarrow> k = key" using conn_inj [OF ok] Some p by auto
    then show ?thesis using Some by (simp add: conn_def h(1,2) es_def map_of_filter_snd [OF D(7)])
  qed (use p in \<open>auto simp: conn_def h(2) es_def map_of_filter_snd [OF D(7)]\<close>)
  ultimately show ?thesis using run h(5) by (simp add: h(1))
qed

section \<open>Sending\<close>

text \<open>
  C19: \<open>OnSend\<close>: what the socket takes is the beginning of what is still to be sent, and the rest stays to be
  sent; an error other than \<open>EAGAIN\<close>, \<open>EWOULDBLOCK\<close> and \<open>EINTR\<close> removes the connection, whose descriptor
  is closed twice. Other connections do not change.
\<close>
theorem net_client_send:
  assumes ok: "client_ok qp c" and p: "map_of (m_connects c) key = Some p" and d: "m_heap c p = Some d"
    and ret: "ret \<le> int (length (out_of c key))"
  shows "\<exists>c'. OnSend True ret again p c = Some c' \<and> client_ok qp c' \<and> (\<forall>k. k \<noteq> key \<longrightarrow> out_of c' k = out_of c k) \<and>
    (if ret \<ge> 0 \<or> again
     then out_of c' key = drop (nat ret) (out_of c key) \<and>
       concat (map snd (filter (\<lambda>w. fst w = p) (wire c'))) =
       concat (map snd (filter (\<lambda>w. fst w = p) (wire c))) @ take (nat ret) (out_of c key)
     else conn c' key = None \<and> m_heap c' p = None \<and> closed c' = closed c @ [fd d, fd d])"
proof -
  note D = client_okD [OF ok]
  have dk: "data_ok (m_max_pack_len c) d" using D(5) [OF conns_of [OF p]] d by auto
  have le: "unat (send_pos d) \<le> unat (send_len d)" "unat (send_len d) \<le> unat (m_max_pack_len c)"
    "length (send_buf d) = unat (m_max_pack_len c)"
    using dk by (auto simp: data_ok_def word_le_nat_alt)
  have k: "unat (send_len d - send_pos d) = unat (send_len d) - unat (send_pos d)"
    using dk by (intro unat_sub) (simp add: data_ok_def)
  have out: "out_of c key = pending_out d" using p d by (simp add: out_of_def conn_def)
  have rd: "mem_read (send_buf d) (unat (send_pos d)) (unat (send_len d - send_pos d)) = Some (pending_out d)"
    using le k by (simp add: mem_read_in pending_out_def)
  have lo: "length (pending_out d) = unat (send_len d) - unat (send_pos d)" using le k by (simp add: pending_out_def)
  consider "ret < 0" "again" | "ret < 0" "\<not> again" | "ret = 0" | "ret > 0" by linarith
  then show ?thesis
  proof cases
    case 1
    then show ?thesis using d rd ok by (intro exI [of _ c]) (simp add: OnSend_def)
  next
    case 2
    from OnClose_ok [OF ok p d, of True] obtain c' where "OnClose True p c = Some c'" "client_ok qp c'" "conn c' key = None"
      "m_heap c' p = None" "\<forall>k. k \<noteq> key \<longrightarrow> conn c' k = conn c k" "closed c' = closed c @ [fd d, fd d]" by auto
    then show ?thesis using 2 d rd of_conn(1) [of c' _ c] by (intro exI [of _ c']) (simp add: OnSend_def)
  next
    case 3
    define c' where "c' = upd_stat (\<lambda>s. s\<lparr>send_zero_num := 0\<rparr>) (upd_epoll (Mod (fd d) p True False) c)"
    have "OnSend True ret again p c = Some c'" using 3 d rd by (simp add: OnSend_def c'_def)
    moreover have "client_ok qp c'" using ok by (subst client_ok_cong [of _ c]) (simp_all add: c'_def)
    moreover have "conn c' k = conn c k" for k by (simp add: conn_def c'_def)
    ultimately show ?thesis using 3 of_conn(1) [of c' _ c] by (intro exI [of _ c']) (simp add: c'_def)
  next
    case 4
    define sp where "sp = send_pos d + of_int ret"
    have nr: "nat ret \<le> unat (send_len d) - unat (send_pos d)" using ret out lo by (simp add: nat_le_iff)
    have sp: "unat sp = unat (send_pos d) + nat ret"
    proof -
      have "of_int ret = (of_nat (nat ret) :: u32)" using 4 by simp
      moreover have "nat ret \<le> unat (m_max_pack_len c)" using nr le by linarith
      then have "unat (of_nat (nat ret) :: u32) = nat ret" using D(1) by (intro unat_of_nat_small) simp
      ultimately show ?thesis unfolding sp_def using nr le D(1) by (subst unat_add_small) auto
    qed
    have sle: "unat sp \<le> unat (send_len d)" using sp nr le by linarith
    define e where "e = (if sp \<ge> send_len d then d\<lparr>send_len := 0, send_pos := 0\<rparr> else d\<lparr>send_pos := sp\<rparr>)"
    define c1 where "c1 = upd_stat (\<lambda>s. s\<lparr>send_bytes := send_bytes s + of_int ret\<rparr>) (c\<lparr>wire := wire c @ [(p, take (nat ret) (pending_out d))]\<rparr>)"
    define c' where "c' = (if sp \<ge> send_len d
      then upd_stat (\<lambda>s. s\<lparr>send_num := send_num s + 1\<rparr>) (upd_epoll (Mod (fd d) p True True) (upd_data p e c1)) else upd_data p e c1)"
    have run: "OnSend True ret again p c = Some c'" using 4 d rd
      by (simp add: OnSend_def Let_def c'_def c1_def e_def flip: sp_def)
    have h: "m_heap c' = (m_heap c)(p \<mapsto> e)" "m_connects c' = m_connects c" "m_max_pack_len c' = m_max_pack_len c" "m_fresh c' = m_fresh c"
      "wire c' = wire c @ [(p, take (nat ret) (pending_out d))]"
      by (simp_all add: c'_def c1_def)
    have e: "data_ok (m_max_pack_len c) e" "fd e = fd d"
      using dk sle by (auto simp: e_def data_ok_def word_le_nat_alt)
    have pe: "pending_out e = drop (nat ret) (pending_out d)"
    proof (cases "sp \<ge> send_len d")
      case True
      then have "unat (send_len d) \<le> unat (send_pos d) + nat ret" using sp by (simp add: word_le_nat_alt)
      then show ?thesis using True lo by (simp add: e_def) (simp add: pending_out_def)
    next
      case False
      have "unat (send_len d - sp) = unat (send_len d) - unat sp" using sle by (intro unat_sub) (simp add: word_le_nat_alt)
      then show ?thesis using False k sp by (simp add: e_def pending_out_def drop_take add.commute)
    qed
    have "client_ok qp c'" by (rule client_ok_update [OF ok conns_of [OF p] d e h(1-4)])
    moreover have cu: "conn c' k = (if k = key then Some e else conn c k)" for k by (rule conn_update [OF ok p h(1,2)])
    moreover have "out_of c' key = drop (nat ret) (out_of c key)" using cu [of key] pe out by (simp add: out_of_def [of c'])
    moreover have "out_of c' k = out_of c k" if "k \<noteq> key" for k using cu [of k] that by (intro of_conn) simp
    ultimately show ?thesis using run h(5) 4 out by (intro exI [of _ c']) simp
  qed
qed

theorem net_client_send_witness:
  "\<exists>c'. OnSend True 3 False 1 (client_example []) = Some c' \<and> out_of c' (connect_key 0x100007F 80) = [4]"
  using net_client_send [OF client_example_ok, of "[]" "connect_key 0x100007F 80" 1 data_example 3 False]
  by (auto simp: out_of_def conn_example pending_example)


section \<open>Receiving\<close>

lemma mem_read_prefix: "off + k \<le> n \<Longrightarrow> n \<le> length x \<Longrightarrow> mem_read (take n x) off k = mem_read x off k"
  by (simp add: mem_read_def drop_take min_def)

lemma EnQueue_copy_prefix:
  assumes n: "unat len + 4 < 2 ^ 32" "unat len \<le> length data"
  shows "EnQueue_copy q (take (unat len) data) len = EnQueue_copy q data len"
proof -
  define tl where "tl = m_buffer_len q - m_tail q"
  have 1: "mem_read (take (unat len) data) 0 (unat len) = mem_read data 0 (unat len)" using n(2) by (intro mem_read_prefix) simp_all
  show ?thesis
  proof (cases "tl \<ge> len + 4 \<or> unat tl < 4")
    case True
    then show ?thesis using 1 by (auto simp: EnQueue_copy_def Let_def simp flip: tl_def)
  next
    case False
    have "unat (len + 4) = unat len + 4" using n(1) by (subst unat_add_small) simp_all
    then have t: "unat tl < unat len + 4" "4 \<le> unat tl" using False by (auto simp: word_le_nat_alt)
    then have f: "unat (tl - 4) = unat tl - 4" by (simp add: unat_sub word_le_nat_alt)
    then have "unat (len - (tl - 4)) = unat len - (unat tl - 4)" using t by (simp add: unat_sub word_le_nat_alt)
    then have "mem_read (take (unat len) data) 0 (unat (tl - 4)) = mem_read data 0 (unat (tl - 4))"
      "mem_read (take (unat len) data) (unat (tl - 4)) (unat (len - (tl - 4))) = mem_read data (unat (tl - 4)) (unat (len - (tl - 4)))"
      using f t n(2) by (intro mem_read_prefix; simp)+
    then show ?thesis using False by (simp add: EnQueue_copy_def Let_def flip: tl_def)
  qed
qed

definition room_for :: "net_queue \<Rightarrow> u8 list list \<Rightarrow> nat \<Rightarrow> bool" where
  \<comment> \<open>a message of \<open>n\<close> bytes leaves at least one byte free in a queue that holds \<open>ms\<close>\<close>
  "room_for q ms n \<longleftrightarrow> length (concat (map frame ms)) + (n + 4) < unat (m_buffer_len q)"

lemma Push_prefix:
  assumes rel: "nq_rel q ms" and n: "n + 4 < 2 ^ 32" "n \<le> length data"
  shows "\<exists>r q'. Push True q data (of_nat n) = Some (r, q') \<and> nq_rel q' (if room_for q ms n then ms @ [take n data] else ms)"
proof -
  have l: "unat (of_nat n :: u32) = n" using n(1) by (intro unat_of_nat_small) simp
  have c: "EnQueue_copy q data (of_nat n) = EnQueue_copy q (take n data) (of_nat n)"
    using EnQueue_copy_prefix [of "of_nat n" data q] n unfolding l by simp
  have e: "Push True q data (of_nat n) = Push True q (take n data) (of_nat n)" unfolding Push_def EnQueue_def c ..
  have lt: "length (take n data) = n" using n(2) by simp
  have "nq_used q = length (concat (map frame ms))" "nq_used q < unat (m_buffer_len q)"
    using rel nq_used_bytes [of q] nq_used_less [of q] by (auto simp: nq_rel_def)
  then have r: "unat (m_buffer_len q) - nq_used q \<le> n + 4 \<longleftrightarrow> \<not> room_for q ms n" by (auto simp: room_for_def)
  show ?thesis using Push_rel [OF rel, of "take n data"] n(1) rel unfolding e lt r by auto
qed

lemma deliver_ok:
  assumes d: "data_ok m d" and m: "unat m < 2 ^ 30" and rel: "nq_rel q ms" and n: "0 < n" "n \<le> unat (recv_len d)"
  shows "if n < unat (recv_len d) - n then deliver True q d (int n) = None
    else \<exists>q' d'. deliver True q d (int n) = Some (q', d') \<and> data_ok m d' \<and> fd d' = fd d \<and> pending_out d' = pending_out d \<and>
      pending_in d' = drop n (pending_in d) \<and> nq_rel q' (if room_for q ms n then ms @ [take n (pending_in d)] else ms)"
proof -
  have lr: "unat (recv_len d) \<le> unat m" "length (recv_buf d) = unat m" using d by (auto simp: data_ok_def word_le_nat_alt)
  have s: "sint (recv_len d) = int (unat (recv_len d))" using lr m by (intro sint_small) simp
  have l: "unat (of_nat n :: u32) = n" using n lr m by (intro unat_of_nat_small) simp
  have k: "unat (recv_len d - of_nat n) = unat (recv_len d) - n" using n(2) l by (subst unat_sub) (simp_all add: word_le_nat_alt)
  have tk: "take n (pending_in d) = take n (recv_buf d)" using n(2) by (simp add: pending_in_def min_def)
  have "n + 4 < 2 ^ 32" "n \<le> length (recv_buf d)" using n lr m by simp_all
  from Push_prefix [OF rel this] obtain r q' where
    q': "Push True q (recv_buf d) (of_nat n) = Some (r, q')" "nq_rel q' (if room_for q ms n then ms @ [take n (pending_in d)] else ms)"
    unfolding tk by blast
  show ?thesis
  proof (cases "n = unat (recv_len d)")
    case True
    then have "of_nat n = recv_len d" by simp
    moreover have "data_ok m (d\<lparr>recv_len := 0\<rparr>)" using d by (simp add: data_ok_def)
    ultimately show ?thesis using True q' s by (simp add: deliver_def pending_in_def pending_out_def)
  next
    case False
    then have lt: "n < unat (recv_len d)" using n(2) by simp
    have sl: "int n < sint (recv_len d)" unfolding s using lt by (simp only: of_nat_less_iff)
    have dl: "deliver True q d (int n) =
        map_option (\<lambda>b. (q', d\<lparr>recv_buf := b, recv_len := recv_len d - of_nat n\<rparr>)) (move_front (recv_buf d) n (unat (recv_len d) - n))"
      using sl q'(1) k by (simp add: deliver_def map_option_case Option.bind_def split: option.splits)
    show ?thesis
    proof (cases "n < unat (recv_len d) - n")
      case True
      then show ?thesis using dl by (simp add: move_front_def guard_def)
    next
      case False
      define x where "x = take (unat (recv_len d) - n) (drop n (recv_buf d))"
      define b where "b = x @ drop (unat (recv_len d) - n) (recv_buf d)"
      have lx: "length x = unat (recv_len d) - n" using lr lt by (simp add: x_def)
      have mv: "move_front (recv_buf d) n (unat (recv_len d) - n) = Some b"
        using False lr lt lx by (simp add: move_front_def mem_read_in mem_write_in b_def flip: x_def)
      have "length b = unat m" using lx lr by (simp add: b_def)
      then have "data_ok m (d\<lparr>recv_buf := b, recv_len := recv_len d - of_nat n\<rparr>)"
        using d lr k by (simp add: data_ok_def word_le_nat_alt)
      moreover have "take (unat (recv_len d) - n) b = drop n (pending_in d)"
        using lx by (simp add: b_def x_def pending_in_def drop_take)
      ultimately show ?thesis using dl mv False q'(2) k by (simp add: pending_in_def pending_out_def)
    qed
  qed
qed

definition in_of :: "net_client \<Rightarrow> u64 \<Rightarrow> u8 list" where
  \<comment> \<open>what has been received from an address and not yet been delivered\<close>
  "in_of c key = (case conn c key of None \<Rightarrow> [] | Some d \<Rightarrow> pending_in d)"

definition announced :: "u8 list \<Rightarrow> nat" where
  \<comment> \<open>the number of bytes that a message says it has, prefix included\<close>
  "announced bs = unat (of_le32 (rev (take 4 bs)))"

lemma longconn_of:
  assumes "unat len \<le> length buf"
  shows "net_complete_longconn buf len = Some (let bs = take (unat len) buf in
    if unat len < 4 then 0 else if 2 ^ 25 < announced bs then -1 else if unat len < announced bs then 0 else int (announced bs))"
proof (cases "unat len < 4")
  case True
  then show ?thesis by (simp add: net_complete_longconn_def word_less_nat_alt)
next
  case False
  then have "4 \<le> length buf" "4 \<le> unat len" "take 4 (take (unat len) buf) = take 4 buf" using assms by (simp_all add: min_def)
  then show ?thesis using longconn_complete [of buf len] False by (auto simp: announced_def Let_def)
qed

text \<open>
  C18: \<open>OnRecv\<close> for messages with a length prefix: the new bytes go behind those of the same address that wait; while
  the announced length has not been reached, or when it is zero or above the limit of 32 MB, nothing is delivered.
  Otherwise one message of exactly the announced length is pushed to the queue (and lost if the queue is full) and
  the rest waits; but when the rest is longer than the message, the \<open>memcpy\<close> that moves it to the front has
  regions that overlap.
\<close>
theorem net_client_recv:
  assumes ok: "client_ok qp c" and p: "map_of (m_connects c) key = Some p" and d: "m_heap c p = Some d"
    and proto: "m_protocol c = PROTOCOL_LONGCONN" and q: "m_recv_queue c = Some q" "nq_rel q ms"
    and bs: "bs \<noteq> []" "length (in_of c key) + length bs \<le> unat (m_max_pack_len c)"
    and pend: "pend = in_of c key @ bs" and n: "n = announced pend"
  shows "if length pend < 4 \<or> n = 0 \<or> 2 ^ 25 < n \<or> length pend < n
    then \<exists>c'. OnRecv True sys (int (length bs)) bs again p c = Some c' \<and> client_ok qp c' \<and> m_recv_queue c' = Some q \<and>
      in_of c' key = pend \<and> (\<forall>k. k \<noteq> key \<longrightarrow> in_of c' k = in_of c k)
    else if n < length pend - n then OnRecv True sys (int (length bs)) bs again p c = None
    else \<exists>c' q'. OnRecv True sys (int (length bs)) bs again p c = Some c' \<and> client_ok qp c' \<and> m_recv_queue c' = Some q' \<and>
      nq_rel q' (if room_for q ms n then ms @ [take n pend] else ms) \<and>
      in_of c' key = drop n pend \<and> (\<forall>k. k \<noteq> key \<longrightarrow> in_of c' k = in_of c k)"
proof -
  note D = client_okD [OF ok]
  have dk: "data_ok (m_max_pack_len c) d" using D(5) [OF conns_of [OF p]] d by auto
  have lr: "unat (recv_len d) \<le> unat (m_max_pack_len c)" "length (recv_buf d) = unat (m_max_pack_len c)"
    using dk by (auto simp: data_ok_def word_le_nat_alt)
  have ino: "in_of c key = pending_in d" using p d by (simp add: in_of_def conn_def)
  then have li: "length (in_of c key) = unat (recv_len d)" using lr by (simp add: pending_in_def)
  define b where "b = take (unat (recv_len d)) (recv_buf d) @ bs @ drop (unat (recv_len d) + length bs) (recv_buf d)"
  have wr: "mem_write (recv_buf d) (unat (recv_len d)) bs = Some b" using bs(2) li lr by (simp add: mem_write_in b_def)
  have lb: "length b = unat (m_max_pack_len c)" using length_mem_write [OF wr] lr by simp
  define l where "l = recv_len d + of_nat (length bs)"
  have l: "unat l = length pend"
  proof -
    have "unat (of_nat (length bs) :: u32) = length bs" using bs(2) D(1) by (intro unat_of_nat_small) simp
    then show ?thesis unfolding l_def pend using bs(2) li D(1) by (subst unat_add_small) auto
  qed
  have pb: "take (unat l) b = pend" unfolding l using li lr by (simp add: b_def pend ino pending_in_def)
  define d1 where "d1 = d\<lparr>recv_buf := b, recv_len := l\<rparr>"
  define c1 where "c1 = upd_stat (\<lambda>s. s\<lparr>recv_bytes := recv_bytes s + of_nat (length bs)\<rparr>) c"
  have le: "length pend \<le> unat (m_max_pack_len c)" using bs(2) by (simp add: pend)
  have d1: "data_ok (m_max_pack_len c) d1" "fd d1 = fd d" "pending_in d1 = pend"
    using dk lb le l pb by (simp_all add: d1_def data_ok_def word_le_nat_alt pending_in_def)
  define m where "m = (if length pend < 4 then 0 else if 2 ^ 25 < n then -1 else if length pend < n then 0 else int n)"
  have other: "PROTOCOL_LONGCONN \<noteq> PROTOCOL_HTTP" by (simp add: PROTOCOL_HTTP_def PROTOCOL_LONGCONN_def)
  then have cm: "complete (m_protocol c) (int (length bs)) b l = Some m"
    using longconn_of [of l b] le lb unfolding pb n [symmetric] by (simp add: complete_def proto l m_def Let_def flip: n)
  have run: "OnRecv True sys (int (length bs)) bs again p c =
    (if m \<le> 0 then Some (upd_data p d1 c1)
     else do {
       (q, d) \<leftarrow> deliver True q d1 m;
       Some (upd_stat (\<lambda>s. s\<lparr>recv_num := recv_num s + 1\<rparr>) (upd_data p d (c1\<lparr>m_recv_queue := Some q\<rparr>)))
     })"
    using bs(1) d wr q(1) cm proto other
    by (simp add: OnRecv_def Let_def c1_def d1_def l_def upd_stat_def upd_data_def)
  have upd: "client_ok qp c' \<and> in_of c' key = pending_in e \<and> (\<forall>k. k \<noteq> key \<longrightarrow> in_of c' k = in_of c k)"
    if e: "data_ok (m_max_pack_len c) e" "fd e = fd d"
      and h: "m_heap c' = (m_heap c)(p \<mapsto> e)" "m_connects c' = m_connects c" "m_max_pack_len c' = m_max_pack_len c" "m_fresh c' = m_fresh c"
    for c' e
    using client_ok_update [OF ok conns_of [OF p] d e h] conn_update [OF ok p h(1,2)] by (simp add: in_of_def)
  show ?thesis
  proof (cases "length pend < 4 \<or> n = 0 \<or> 2 ^ 25 < n \<or> length pend < n")
    case True
    then have "m \<le> 0" by (auto simp: m_def)
    then show ?thesis
      using run True upd [of d1 "upd_data p d1 c1"] d1 q(1) by (simp add: c1_def)
  next
    case False
    then have m: "m = int n" "0 < n" "n \<le> unat (recv_len d1)" by (auto simp: m_def d1_def l)
    have rl: "unat (recv_len d1) = length pend" by (simp add: d1_def l)
    note del = deliver_ok [OF d1(1) D(1) q(2) m(2,3), unfolded rl d1(3)]
    show ?thesis
    proof (cases "n < length pend - n")
      case True
      then show ?thesis using False run del m(1,2) by simp
    next
      case nov: False
      then obtain q' d' where d': "deliver True q d1 m = Some (q', d')" "data_ok (m_max_pack_len c) d'" "fd d' = fd d"
        "pending_in d' = drop n pend" "nq_rel q' (if room_for q ms n then ms @ [take n pend] else ms)"
        using del d1(2) m(1) by auto
      define c' where "c' = upd_stat (\<lambda>s. s\<lparr>recv_num := recv_num s + 1\<rparr>) (upd_data p d' (c1\<lparr>m_recv_queue := Some q'\<rparr>))"
      have "OnRecv True sys (int (length bs)) bs again p c = Some c'" using run d'(1) m(1,2) by (simp add: c'_def)
      moreover have "m_recv_queue c' = Some q'" by (simp add: c'_def)
      moreover have "client_ok qp c' \<and> in_of c' key = drop n pend \<and> (\<forall>k. k \<noteq> key \<longrightarrow> in_of c' k = in_of c k)"
        using upd [OF d'(2,3), of c'] d'(4) by (simp add: c'_def c1_def)
      ultimately show ?thesis using False nov d'(5) by auto
    qed
  qed
qed

theorem net_client_recv_witness:
  "\<exists>c' q'. OnRecv True True 5 [0, 6, 65, 66, 0] False 1 (client_example []) = Some c' \<and> m_recv_queue c' = Some q' \<and>
    nq_rel q' [[0, 0, 0, 6, 65, 66]] \<and> in_of c' (connect_key 0x100007F 80) = [0]"
proof -
  have "in_of (client_example []) (connect_key 0x100007F 80) = [0, 0]" by (simp add: in_of_def conn_example pending_example)
  moreover have "nq_rel (CNetQueue False False 32 1 (replicate 32 0)) []" by (rule CNetQueue_rel) simp_all
  ultimately show ?thesis
    using net_client_recv [OF client_example_ok, of "[]" "connect_key 0x100007F 80" 1 data_example "CNetQueue False False 32 1 (replicate 32 0)" "[]"
        "[0, 6, 65, 66, 0]" "[0, 0, 0, 6, 65, 66, 0]" 6 True False]
    by (auto simp: announced_def of_le32.simps room_for_def CNetQueue_def)
qed


end
