(* ===== verification/NetGrid.thy ===== *)
theory NetGrid
  imports Prelude
begin

text \<open>
  \<open>net/net_grid.h\<close>: \<open>CNetGrid\<close>, which limits the number of requests in a sliding window of \<open>_grid_count\<close> grids of
  \<open>_grid_distant\<close> milliseconds. (The header names its constructors \<open>CLoadGrid\<close> and is not compiled by any other
  file; what is modelled is the evident meaning of its functions.) The clock is an argument. The times are
  \<open>double\<close> values of whole microseconds, computed exactly; a quotient that does not fit \<open>unsigned\<close> is undefined.
\<close>

type_synonym timeval = "int \<times> int"

record net_grid =
  grid_count :: u32
  grid_distant :: u32
  max_req_water_mark :: u32
  grid_array :: "u32 list"
  req_water_mark :: u32
  curr_grid :: u32
  virtual_last_grid :: u32
  virtual_curr_grid :: u32
  start_time :: timeval

definition LR_NORMAL :: int where "LR_NORMAL = 0"
definition LR_FULL :: int where "LR_FULL = 1"

definition InitGrid :: "timeval \<Rightarrow> u32 \<Rightarrow> u32 \<Rightarrow> u32 \<Rightarrow> net_grid \<Rightarrow> net_grid" where
  "InitGrid now count distant mark g =
     g\<lparr>curr_grid := 0, req_water_mark := 0, start_time := now, grid_count := count, grid_distant := distant,
       max_req_water_mark := mark, grid_array := replicate (unat count) 0, virtual_last_grid := 0\<rparr>"

definition set_full :: "timeval \<Rightarrow> net_grid \<Rightarrow> net_grid" where
  "set_full cur_time g =
     (let g = g\<lparr>start_time := cur_time, curr_grid := 0, grid_array := replicate (unat (grid_count g)) 0, virtual_last_grid := 0\<rparr>
      in g\<lparr>grid_array := (grid_array g)[unat (grid_count g - 1) := max_req_water_mark g], req_water_mark := max_req_water_mark g\<rparr>)"

definition time_used :: "timeval \<Rightarrow> net_grid \<Rightarrow> int" where
  "time_used cur_time g = (fst cur_time - fst (start_time g)) * 1000000 + snd cur_time - snd (start_time g)"

definition reset :: "timeval \<Rightarrow> net_grid \<Rightarrow> net_grid" where
  \<comment> \<open>the branch for a clock that went back behind the start\<close>
  "reset cur_time g = g\<lparr>start_time := cur_time, curr_grid := 0, req_water_mark := 0,
     grid_array := replicate (unat (grid_count g)) 0, virtual_last_grid := 0\<rparr>"

fun clear_loop :: "u32 \<Rightarrow> nat \<Rightarrow> net_grid \<Rightarrow> net_grid option" where
  \<comment> \<open>the loop over the grids passed since the last call, from the counter \<open>i\<close> on\<close>
  "clear_loop i 0 g = Some g"
| "clear_loop i (Suc n) g =
     (let k = unat ((curr_grid g - i + grid_count g) mod grid_count g)
      in if k < length (grid_array g)
         then clear_loop (i + 1) n (g\<lparr>req_water_mark := req_water_mark g - grid_array g ! k, grid_array := (grid_array g)[k := 0]\<rparr>)
         else None)"

definition count_request :: "net_grid \<Rightarrow> int \<times> net_grid" where
  \<comment> \<open>the end of \<open>check_load\<close>: count the request, and take it back when the mark is reached\<close>
  "count_request g =
     (let k = unat (curr_grid g);
          g' = g\<lparr>grid_array := (grid_array g)[k := grid_array g ! k + 1], req_water_mark := req_water_mark g + 1\<rparr>
      in if req_water_mark g' \<ge> max_req_water_mark g'
         then (LR_FULL, g'\<lparr>grid_array := (grid_array g')[k := grid_array g' ! k - 1], req_water_mark := req_water_mark g' - 1\<rparr>)
         else (LR_NORMAL, g'))"

definition check_load :: "timeval \<Rightarrow> net_grid \<Rightarrow> (int \<times> net_grid) option" where
  "check_load cur_time g =
     (if time_used cur_time g < 0 then Some (0, reset cur_time g)
      else do {
        guard (time_used cur_time g div 1000 < 2 ^ 32 \<and> grid_distant g \<noteq> 0 \<and> grid_count g \<noteq> 0);
        let v = of_int (time_used cur_time g div 1000) div grid_distant g;
        let g = g\<lparr>virtual_curr_grid := v, curr_grid := v mod grid_count g\<rparr>;
        if virtual_curr_grid g \<noteq> virtual_last_grid g
        then do {
          let span = virtual_curr_grid g - virtual_last_grid g;
          let span = (if span > grid_count g then grid_count g else span);
          g \<leftarrow> clear_loop 0 (unat span) (g\<lparr>virtual_last_grid := virtual_curr_grid g\<rparr>);
          if req_water_mark g \<ge> max_req_water_mark g then Some (LR_FULL, g) else Some (count_request g)
        }
        else Some (count_request g)
      })"

definition fetch_load :: "net_grid \<Rightarrow> u32 \<times> u32" where
  "fetch_load g = (grid_distant g * grid_count g, req_water_mark g)"

section \<open>The window\<close>

text \<open>
  Abstractly the state is the list of the grids of all requests that were let through, oldest first, of which those
  in the last \<open>grid_count\<close> grids count.
\<close>

definition in_window :: "int \<Rightarrow> int \<Rightarrow> int \<Rightarrow> bool" where
  "in_window n now v \<longleftrightarrow> now < v + n"

definition window :: "int \<Rightarrow> int \<Rightarrow> int list \<Rightarrow> nat" where
  "window n now log = length (filter (in_window n now) log)"

definition grid_rel :: "net_grid \<Rightarrow> int list \<Rightarrow> bool" where
  "grid_rel g log \<longleftrightarrow> 0 < unat (grid_count g) \<and> unat (grid_count g) < 2 ^ 31 \<and> grid_distant g \<noteq> 0 \<and>
     unat (max_req_water_mark g) < 2 ^ 31 \<and> length (grid_array g) = unat (grid_count g) \<and>
     unat (req_water_mark g) = sum_list (map unat (grid_array g)) \<and> req_water_mark g \<le> max_req_water_mark g \<and>
     (\<forall>v \<in> set log. v \<le> uint (virtual_last_grid g)) \<and>
     (\<forall>j < unat (grid_count g). unat (grid_array g ! j) =
        length (filter (\<lambda>v. in_window (uint (grid_count g)) (uint (virtual_last_grid g)) v \<and> v mod uint (grid_count g) = int j) log))"

lemma sum_residues:
  assumes "0 < n"
  shows "(\<Sum>j < n. length (filter (\<lambda>v. P v \<and> v mod int n = int j) log)) = length (filter P log)"
proof (induction log)
  case (Cons v log)
  define r where "r = nat (v mod int n)"
  have r: "r < n" "v mod int n = int r" using assms by (simp_all add: r_def nat_less_iff)
  have "length (filter (\<lambda>v. P v \<and> v mod int n = int j) (v # log)) =
      (if j = r \<and> P v then 1 else 0) + length (filter (\<lambda>v. P v \<and> v mod int n = int j) log)" for j
    using r(2) by auto
  then have "(\<Sum>j < n. length (filter (\<lambda>v. P v \<and> v mod int n = int j) (v # log))) =
      (\<Sum>j < n. (if j = r \<and> P v then 1 else 0)) + length (filter P log)"
    by (simp add: sum.distrib Cons.IH)
  moreover have "(\<Sum>j < n. (if j = r \<and> P v then 1 else 0)) = (if P v then 1 else (0 :: nat))"
    using r(1) by (cases "P v") simp_all
  ultimately show ?case by simp
qed simp

lemma sum_list_nth: "sum_list (map f xs) = (\<Sum>j < length xs. f (xs ! j))" for f :: "'a \<Rightarrow> nat"
  by (simp add: sum_list_sum_nth atLeast0LessThan)

lemma grid_relD:
  assumes "grid_rel g log"
  shows "0 < unat (grid_count g)" "unat (grid_count g) < 2 ^ 31" "grid_distant g \<noteq> 0" "unat (max_req_water_mark g) < 2 ^ 31"
    "length (grid_array g) = unat (grid_count g)" "unat (req_water_mark g) = sum_list (map unat (grid_array g))"
    "req_water_mark g \<le> max_req_water_mark g" "v \<in> set log \<Longrightarrow> v \<le> uint (virtual_last_grid g)"
    "j < unat (grid_count g) \<Longrightarrow> unat (grid_array g ! j) =
        length (filter (\<lambda>v. in_window (uint (grid_count g)) (uint (virtual_last_grid g)) v \<and> v mod uint (grid_count g) = int j) log)"
  using assms unfolding grid_rel_def by blast+

lemma grid_rel_water:
  assumes "grid_rel g log"
  shows "unat (req_water_mark g) = window (uint (grid_count g)) (uint (virtual_last_grid g)) log"
proof -
  note D = grid_relD [OF assms]
  have u: "uint (grid_count g) = int (unat (grid_count g))" by simp
  have "unat (req_water_mark g) = (\<Sum>j < unat (grid_count g). unat (grid_array g ! j))" using D(5,6) by (simp add: sum_list_nth)
  also have "\<dots> = (\<Sum>j < unat (grid_count g).
      length (filter (\<lambda>v. in_window (uint (grid_count g)) (uint (virtual_last_grid g)) v \<and> v mod int (unat (grid_count g)) = int j) log))"
    using D(9) unfolding u by (intro sum.cong) simp_all
  also have "\<dots> = window (uint (grid_count g)) (uint (virtual_last_grid g)) log"
    unfolding window_def using D(1) by (rule sum_residues)
  finally show ?thesis .
qed

lemma sum_list_clear:
  fixes xs :: "u32 list"
  assumes "k < length xs"
  shows "sum_list (map unat (xs[k := y])) + unat (xs ! k) = sum_list (map unat xs) + unat y"
  using assms
proof (induction xs arbitrary: k)
  case (Cons x xs)
  then show ?case by (cases k) (simp_all add: add.assoc)
qed simp

lemma clear_loop_ok:
  assumes "0 < unat (grid_count g)" and "unat (grid_count g) < 2 ^ 31" and "curr_grid g < grid_count g"
    and "length (grid_array g) = unat (grid_count g)" and "unat (req_water_mark g) = sum_list (map unat (grid_array g))"
    and "m + n \<le> unat (grid_count g)"
  shows "\<exists>a w. clear_loop (of_nat m) n g = Some (g\<lparr>req_water_mark := w, grid_array := a\<rparr>) \<and> length a = unat (grid_count g) \<and>
    unat w = sum_list (map unat a) \<and>
    (\<forall>j < unat (grid_count g). a ! j =
      (if \<exists>i. m \<le> i \<and> i < m + n \<and> int j = (uint (curr_grid g) - int i) mod uint (grid_count g) then 0 else grid_array g ! j))"
  using assms
proof (induction n arbitrary: m g)
  case 0
  have "g\<lparr>req_water_mark := req_water_mark g, grid_array := grid_array g\<rparr> = g" by simp
  then show ?case using 0 by (intro exI [of _ "grid_array g"] exI [of _ "req_water_mark g"]) auto
next
  case (Suc n)
  note A = Suc.prems
  define k where "k = unat ((curr_grid g - of_nat m + grid_count g) mod grid_count g)"
  have c: "unat (curr_grid g) < unat (grid_count g)" using A(3) by (simp add: word_less_nat_alt)
  have k: "k < unat (grid_count g)" "int k = (uint (curr_grid g) - int m) mod uint (grid_count g)"
  proof -
    have m: "unat (of_nat m :: u32) = m" using A(2,6) by (intro unat_of_nat_small) simp
    have ad: "unat (curr_grid g + grid_count g) = unat (curr_grid g) + unat (grid_count g)" using c A(2) by (intro unat_add_small) simp
    have eq: "curr_grid g - of_nat m + grid_count g = curr_grid g + grid_count g - of_nat m" by simp
    have "of_nat m \<le> curr_grid g + grid_count g" unfolding word_le_nat_alt ad m using A(6) by simp
    then have "unat (curr_grid g - of_nat m + grid_count g) = unat (curr_grid g) + unat (grid_count g) - m"
      unfolding eq by (subst unat_diff_word) (simp_all only: ad m)
    then have "k = (unat (curr_grid g) + unat (grid_count g) - m) mod unat (grid_count g)" by (simp add: k_def unat_mod)
    moreover have "int (unat (curr_grid g) + unat (grid_count g) - m) = (uint (curr_grid g) - int m) + uint (grid_count g)"
      using A(6) by (simp add: of_nat_diff)
    ultimately show "int k = (uint (curr_grid g) - int m) mod uint (grid_count g)"
      by (metis mod_add_self2 of_nat_mod uint_nat)
    show "k < unat (grid_count g)" using \<open>k = _ mod _\<close> A(1) by simp
  qed
  define g1 where "g1 = g\<lparr>req_water_mark := req_water_mark g - grid_array g ! k, grid_array := (grid_array g)[k := 0]\<rparr>"
  have kl: "k < length (grid_array g)" using k(1) A(4) by simp
  have sum: "sum_list (map unat (grid_array g)) = sum_list (map unat ((grid_array g)[k := 0])) + unat (grid_array g ! k)"
    using sum_list_clear [OF kl, of 0] by simp
  then have "grid_array g ! k \<le> req_water_mark g" using A(5) by (simp add: word_le_nat_alt)
  then have w1: "unat (req_water_mark g1) = sum_list (map unat (grid_array g1))" using sum A(5) by (simp add: g1_def unat_diff_word)
  have st: "clear_loop (of_nat m) (Suc n) g = clear_loop (of_nat (Suc m)) n g1"
  proof -
    have "(of_nat (Suc m) :: u32) = of_nat m + 1" by simp
    then show ?thesis
      unfolding clear_loop.simps Let_def k_def [symmetric] g1_def [symmetric] using kl by (simp only: if_True)
  qed
  obtain a w where I: "clear_loop (of_nat (Suc m)) n g1 = Some (g1\<lparr>req_water_mark := w, grid_array := a\<rparr>)" "length a = unat (grid_count g)"
    "unat w = sum_list (map unat a)"
    "\<forall>j < unat (grid_count g). a ! j = (if \<exists>i. Suc m \<le> i \<and> i < Suc m + n \<and> int j = (uint (curr_grid g) - int i) mod uint (grid_count g)
       then 0 else grid_array g1 ! j)"
    using Suc.IH [of g1 "Suc m"] A w1 by (auto simp: g1_def)
  have "a ! j = (if \<exists>i. m \<le> i \<and> i < m + Suc n \<and> int j = (uint (curr_grid g) - int i) mod uint (grid_count g) then 0 else grid_array g ! j)"
    if j: "j < unat (grid_count g)" for j
  proof -
    have ex: "(\<exists>i. m \<le> i \<and> i < m + Suc n \<and> int j = (uint (curr_grid g) - int i) mod uint (grid_count g)) \<longleftrightarrow>
        j = k \<or> (\<exists>i. Suc m \<le> i \<and> i < Suc m + n \<and> int j = (uint (curr_grid g) - int i) mod uint (grid_count g))" (is "?l \<longleftrightarrow> _ \<or> ?r")
    proof
      assume ?l
      then obtain i where i: "m \<le> i" "i < m + Suc n" "int j = (uint (curr_grid g) - int i) mod uint (grid_count g)" by blast
      show "j = k \<or> ?r"
      proof (cases "i = m")
        case True
        then show ?thesis using i(3) k(2) by (metis of_nat_eq_iff)
      next
        case False
        then have "Suc m \<le> i" "i < Suc m + n" using i(1,2) by simp_all
        then show ?thesis using i(3) by blast
      qed
    next
      assume "j = k \<or> ?r"
      then show ?l
      proof
        assume "j = k"
        then show ?l using k(2) by (intro exI [of _ m]) simp
      next
        assume ?r
        then obtain i where "Suc m \<le> i" "i < Suc m + n" "int j = (uint (curr_grid g) - int i) mod uint (grid_count g)" by blast
        then show ?l by (intro exI [of _ i]) simp
      qed
    qed
    have "grid_array g1 ! j = (if j = k then 0 else grid_array g ! j)" using kl by (simp add: g1_def nth_list_update)
    then show ?thesis using I(4) j ex by auto
  qed
  moreover have "g1\<lparr>req_water_mark := w, grid_array := a\<rparr> = g\<lparr>req_water_mark := w, grid_array := a\<rparr>" by (simp add: g1_def)
  ultimately show ?case using st I(1-3) by (intro exI [of _ a] exI [of _ w]) simp
qed

section \<open>One call\<close>

definition same_setup :: "net_grid \<Rightarrow> net_grid \<Rightarrow> bool" where
  "same_setup g g' \<longleftrightarrow> grid_count g' = grid_count g \<and> grid_distant g' = grid_distant g \<and>
     max_req_water_mark g' = max_req_water_mark g \<and> start_time g' = start_time g"

lemma count_request_ok:
  assumes rel: "grid_rel g log" and cur: "uint (curr_grid g) = uint (virtual_last_grid g) mod uint (grid_count g)"
  shows "if window (uint (grid_count g)) (uint (virtual_last_grid g)) log + 1 < unat (max_req_water_mark g)
    then \<exists>g'. count_request g = (LR_NORMAL, g') \<and> grid_rel g' (log @ [uint (virtual_last_grid g)]) \<and>
      virtual_last_grid g' = virtual_last_grid g \<and> same_setup g g'
    else count_request g = (LR_FULL, g)"
proof -
  note D = grid_relD [OF rel]
  have u: "uint (grid_count g) = int (unat (grid_count g))" by simp
  have pos: "0 < uint (grid_count g)" unfolding u using D(1) by (simp only: of_nat_0_less_iff)
  define k where "k = unat (curr_grid g)"
  have k: "int k = uint (virtual_last_grid g) mod uint (grid_count g)" using cur by (simp add: k_def)
  have kn: "k < unat (grid_count g)"
  proof -
    have "int k < uint (grid_count g)" unfolding k using pos by (rule pos_mod_bound)
    then show ?thesis unfolding u by (simp only: of_nat_less_iff)
  qed
  then have kl: "k < length (grid_array g)" using D(5) by simp
  have w: "unat (req_water_mark g) = window (uint (grid_count g)) (uint (virtual_last_grid g)) log" by (rule grid_rel_water [OF rel])
  have "unat (req_water_mark g) \<le> unat (max_req_water_mark g)" using D(7) by (simp add: word_le_nat_alt)
  then have w1: "unat (req_water_mark g + 1) = unat (req_water_mark g) + 1" using D(4) by (subst unat_add_small) simp_all
  define g' where "g' = g\<lparr>grid_array := (grid_array g)[k := grid_array g ! k + 1], req_water_mark := req_water_mark g + 1\<rparr>"
  show ?thesis
  proof (cases "window (uint (grid_count g)) (uint (virtual_last_grid g)) log + 1 < unat (max_req_water_mark g)")
    case False
    then have "max_req_water_mark g \<le> req_water_mark g + 1" using w w1 by (simp add: word_le_nat_alt)
    then have "count_request g = (LR_FULL, g)" using kl by (simp add: count_request_def Let_def flip: k_def)
    then show ?thesis using False by simp
  next
    case True
    then have lt: "\<not> max_req_water_mark g \<le> req_water_mark g + 1" using w w1 by (simp add: word_le_nat_alt)
    then have run: "count_request g = (LR_NORMAL, g')" by (simp add: count_request_def Let_def g'_def flip: k_def)
    have "unat (grid_array g ! k) \<le> unat (req_water_mark g)"
      using D(6) kl by (simp add: member_le_sum_list)
    then have a1: "unat (grid_array g ! k + 1) = unat (grid_array g ! k) + 1" using w True D(4) by (subst unat_add_small) simp_all
    have "grid_rel g' (log @ [uint (virtual_last_grid g)])"
      unfolding grid_rel_def
    proof (intro conjI)
      show "0 < unat (grid_count g')" "unat (grid_count g') < 2 ^ 31" "grid_distant g' \<noteq> 0" "unat (max_req_water_mark g') < 2 ^ 31"
        "length (grid_array g') = unat (grid_count g')" using D(1-5) by (simp_all add: g'_def)
      show "unat (req_water_mark g') = sum_list (map unat (grid_array g'))"
        using sum_list_clear [OF kl, of "grid_array g ! k + 1"] a1 w1 D(6) by (simp add: g'_def)
      show "req_water_mark g' \<le> max_req_water_mark g'" using lt by (simp add: g'_def)
      show "\<forall>v \<in> set (log @ [uint (virtual_last_grid g)]). v \<le> uint (virtual_last_grid g')" using D(8) by (auto simp: g'_def)
      show "\<forall>j < unat (grid_count g'). unat (grid_array g' ! j) =
        length (filter (\<lambda>v. in_window (uint (grid_count g')) (uint (virtual_last_grid g')) v \<and> v mod uint (grid_count g') = int j)
          (log @ [uint (virtual_last_grid g)]))"
      proof (intro allI impI)
        fix j assume "j < unat (grid_count g')"
        then have j: "j < unat (grid_count g)" by (simp add: g'_def)
        have "in_window (uint (grid_count g)) (uint (virtual_last_grid g)) (uint (virtual_last_grid g))"
          using pos by (simp add: in_window_def)
        moreover have "uint (virtual_last_grid g) mod uint (grid_count g) = int j \<longleftrightarrow> j = k" using k by auto
        moreover have "unat (grid_array g' ! j) = unat (grid_array g ! j) + (if j = k then 1 else 0)"
          using kl a1 by (simp add: g'_def nth_list_update)
        ultimately show "unat (grid_array g' ! j) =
          length (filter (\<lambda>v. in_window (uint (grid_count g')) (uint (virtual_last_grid g')) v \<and> v mod uint (grid_count g') = int j)
            (log @ [uint (virtual_last_grid g)]))"
          using D(9) [OF j] by (simp add: g'_def)
      qed
    qed
    then show ?thesis using True run by (auto simp: g'_def same_setup_def)
  qed
qed

lemma mod_far:
  fixes x y n :: int
  assumes "x mod n = y mod n" and "x < y"
  shows "x + n \<le> y"
proof -
  have "n dvd y - x" using assms(1) by (metis mod_eq_dvd_iff)
  then show ?thesis using assms(2) by (metis diff_ge_0_iff_ge le_diff_eq add.commute zdvd_imp_le diff_gt_0_iff_gt)
qed

lemma residue_of:
  fixes v n :: int
  assumes "0 < n" and "0 \<le> j" and "j < n"
  shows "0 \<le> (v - j) mod n \<and> (v - j) mod n < n \<and> j = (v - (v - j) mod n) mod n"
  using assms by (simp add: mod_diff_right_eq)

lemma advance_ok:
  assumes rel: "grid_rel g log" and ne: "v \<noteq> virtual_last_grid g" and cur: "curr_grid g = v mod grid_count g"
    and small: "uint (virtual_last_grid g) < 2 ^ 31" "uint v < 2 ^ 31"
    and span: "span = (if v - virtual_last_grid g > grid_count g then grid_count g else v - virtual_last_grid g)"
  shows "\<exists>g'. clear_loop 0 (unat span) (g\<lparr>virtual_last_grid := v\<rparr>) = Some g' \<and>
    grid_rel g' (if uint (virtual_last_grid g) \<le> uint v then log else []) \<and> virtual_last_grid g' = v \<and> curr_grid g' = curr_grid g \<and> same_setup g g'"
proof -
  note D = grid_relD [OF rel]
  define N where "N = uint (grid_count g)"
  define L where "L = uint (virtual_last_grid g)"
  define V where "V = uint v"
  have u: "N = int (unat (grid_count g))" by (simp add: N_def)
  have "int (unat (grid_count g)) < int (2 ^ 31)" using D(2) by (simp only: of_nat_less_iff)
  then have N: "0 < N" "N < 2 ^ 31" unfolding u using D(1) by (simp_all only: of_nat_0_less_iff) simp
  have LV: "0 \<le> L" "0 \<le> V" "L < 2 ^ 31" "V < 2 ^ 31" "L \<noteq> V" using small ne by (auto simp: L_def V_def word_uint_eq_iff)
  have d: "uint (v - virtual_last_grid g) = (if L < V then V - L else V - L + 2 ^ 32)"
  proof -
    have "uint (v - virtual_last_grid g) = (V - L) mod 2 ^ 32" by (simp add: uint_word_ariths V_def L_def)
    moreover have "(V - L) mod 2 ^ 32 = V - L" if "L < V" using that LV by (intro mod_pos_pos_trivial) auto
    moreover have "(V - L) mod 2 ^ 32 = V - L + 2 ^ 32" if "V < L" 
    proof -
      have "(V - L + 2 ^ 32) mod 2 ^ 32 = V - L + 2 ^ 32" using that LV by (intro mod_pos_pos_trivial) auto
      then show ?thesis by (simp only: mod_add_self2)
    qed
    ultimately show ?thesis using LV by auto
  qed
  define s where "s = unat span"
  have sp: "int s = (if L < V \<and> V - L < N then V - L else N)"
  proof -
    have "int s = (if uint (v - virtual_last_grid g) > N then N else uint (v - virtual_last_grid g))"
      by (simp add: s_def span N_def word_less_def)
    then show ?thesis using d LV N by auto
  qed
  have "int s \<le> N" using sp N(1) by (auto split: if_splits)
  then have sN: "s \<le> unat (grid_count g)" unfolding u by (simp only: of_nat_le_iff)
  define g0 where "g0 = g\<lparr>virtual_last_grid := v\<rparr>"
  have g0: "grid_count g0 = grid_count g" "grid_array g0 = grid_array g" "req_water_mark g0 = req_water_mark g" "curr_grid g0 = curr_grid g"
    by (simp_all add: g0_def)
  have c0: "curr_grid g0 < grid_count g0"
    using D(1) by (simp add: g0_def cur word_mod_less_divisor unat_gt_0 word_neq_0_conv)
  obtain a w where A: "clear_loop 0 s g0 = Some (g0\<lparr>req_water_mark := w, grid_array := a\<rparr>)" "length a = unat (grid_count g)"
    "unat w = sum_list (map unat a)"
    "\<forall>j < unat (grid_count g). a ! j = (if \<exists>i < s. int j = (uint (curr_grid g) - int i) mod N then 0 else grid_array g ! j)"
    using clear_loop_ok [of g0 0 s] D(1,2,5,6) sN c0 unfolding g0 N_def by auto
  have cr: "(uint (curr_grid g) - i) mod N = (V - i) mod N" for i by (simp add: cur uint_mod N_def V_def mod_diff_left_eq)
  define g' where "g' = g0\<lparr>req_water_mark := w, grid_array := a\<rparr>"
  define log' where "log' = (if L \<le> V then log else [])"
  have cnt: "unat (a ! j) = length (filter (\<lambda>x. in_window N V x \<and> x mod N = int j) log')" if j: "j < unat (grid_count g)" for j
  proof -
    have jN: "int j < N" unfolding u using j by (simp only: of_nat_less_iff)
    define i where "i = (V - int j) mod N"
    have i: "0 \<le> i" "i < N" "int j = (V - i) mod N"
      using residue_of [OF N(1) _ jN, of V] unfolding i_def by simp_all
    have cl: "(\<exists>i < s. int j = (uint (curr_grid g) - int i) mod N) \<longleftrightarrow> i < int s"
    proof
      assume "\<exists>i < s. int j = (uint (curr_grid g) - int i) mod N"
      then obtain m where m: "m < s" "int j = (V - int m) mod N" using cr by auto
      have "m < unat (grid_count g)" using m(1) sN by simp
      then have "int m < N" unfolding u by (simp only: of_nat_less_iff)
      then have "\<not> int m < i" "\<not> i < int m"
        using mod_far [of "V - i" N "V - int m"] mod_far [of "V - int m" N "V - i"] m(2) i by auto
      then show "i < int s" using m(1) by simp
    next
      assume "i < int s"
      then show "\<exists>i < s. int j = (uint (curr_grid g) - int i) mod N" using i cr [of i] by (intro exI [of _ "nat i"]) auto
    qed
    have aj: "a ! j = (if i < int s then 0 else grid_array g ! j)" using A(4) [rule_format, OF j] unfolding cl .
    show ?thesis
    proof (cases "i < int s")
      case True
      have "\<not> (in_window N V x \<and> x mod N = int j)" if "x \<in> set log'" for x
      proof
        assume x: "in_window N V x \<and> x mod N = int j"
        have le: "L < V" "x \<le> L" using that D(8) [of x] LV(5) by (auto simp: log'_def L_def split: if_splits)
        then have "x < V - i" using True sp by (auto split: if_splits)
        moreover have "x mod N = (V - i) mod N" using x i(3) by simp
        ultimately have "x + N \<le> V - i" by (intro mod_far)
        then show False using x i(1) by (simp add: in_window_def)
      qed
      then have "filter (\<lambda>x. in_window N V x \<and> x mod N = int j) log' = []" by (simp add: filter_empty_conv)
      then show ?thesis using aj True by simp
    next
      case False
      then have lv: "L < V" "V - L \<le> i" using sp i(2) by (auto split: if_splits)
      then have l': "log' = log" by (simp add: log'_def)
      have "in_window N V x \<longleftrightarrow> in_window N L x" if x: "x \<in> set log" "x mod N = int j" for x
      proof
        assume "in_window N V x"
        then show "in_window N L x" using lv by (simp add: in_window_def)
      next
        assume a: "in_window N L x"
        have "x \<le> L" using D(8) [OF x(1)] by (simp add: L_def)
        then have "\<not> x < V - i" "\<not> V - i < x"
          using mod_far [of x N "V - i"] mod_far [of "V - i" N x] x(2) i lv a by (auto simp: in_window_def)
        then show "in_window N V x" using i(2) by (simp add: in_window_def)
      qed
      then have "filter (\<lambda>x. in_window N V x \<and> x mod N = int j) log = filter (\<lambda>x. in_window N L x \<and> x mod N = int j) log"
        by (intro filter_cong) auto
      then show ?thesis using aj False D(9) [OF j] l' by (simp add: N_def L_def)
    qed
  qed
  have le: "unat (a ! j) \<le> unat (grid_array g ! j)" if "j < unat (grid_count g)" for j using A(4) that by simp
  have "sum_list (map unat a) \<le> sum_list (map unat (grid_array g))"
    unfolding sum_list_nth A(2) D(5) using le by (intro sum_mono) simp
  then have wm: "w \<le> max_req_water_mark g" using A(3) D(6,7) by (simp add: word_le_nat_alt)
  have "grid_rel g' log'"
    unfolding grid_rel_def
  proof (intro conjI)
    show "0 < unat (grid_count g')" "unat (grid_count g') < 2 ^ 31" "grid_distant g' \<noteq> 0" "unat (max_req_water_mark g') < 2 ^ 31"
      "length (grid_array g') = unat (grid_count g')" "unat (req_water_mark g') = sum_list (map unat (grid_array g'))"
      "req_water_mark g' \<le> max_req_water_mark g'" using D(1-4) A(2,3) wm by (simp_all add: g'_def g0_def)
    show "\<forall>x \<in> set log'. x \<le> uint (virtual_last_grid g')"
      using D(8) by (auto simp: g'_def g0_def log'_def L_def V_def split: if_splits) (meson order_trans)
    show "\<forall>j < unat (grid_count g'). unat (grid_array g' ! j) =
        length (filter (\<lambda>x. in_window (uint (grid_count g')) (uint (virtual_last_grid g')) x \<and> x mod uint (grid_count g') = int j) log')"
      using cnt by (simp add: g'_def g0_def N_def V_def)
  qed
  then show ?thesis using A(1) unfolding g0_def s_def g'_def log'_def L_def V_def by (intro exI [of _ g', unfolded g'_def g0_def]) (simp add: same_setup_def)
qed

definition grid_now :: "timeval \<Rightarrow> net_grid \<Rightarrow> int" where
  \<comment> \<open>the number of the grid, counted from the start\<close>
  "grid_now t g = time_used t g div 1000 div uint (grid_distant g)"

lemma grid_rel_cong:
  assumes "same_setup g g'" and "grid_array g' = grid_array g" and "req_water_mark g' = req_water_mark g"
    and "virtual_last_grid g' = virtual_last_grid g"
  shows "grid_rel g' log = grid_rel g log"
  using assms by (simp add: grid_rel_def same_setup_def)

lemma check_load_ok:
  assumes rel: "grid_rel g log" and small: "uint (virtual_last_grid g) < 2 ^ 31" and t: "0 \<le> time_used t g" "time_used t g < 2 ^ 31 * 1000"
    and log': "log' = (if uint (virtual_last_grid g) \<le> grid_now t g then log else [])"
  shows "\<exists>r g'. check_load t g = Some (r, g') \<and> same_setup g g' \<and> uint (virtual_last_grid g') = grid_now t g \<and>
    (if window (uint (grid_count g)) (grid_now t g) log' + 1 < unat (max_req_water_mark g)
     then r = LR_NORMAL \<and> grid_rel g' (log' @ [grid_now t g]) else r = LR_FULL \<and> grid_rel g' log')"
proof -
  note D = grid_relD [OF rel]
  define ms where "ms = time_used t g div 1000"
  define v :: u32 where "v = of_int ms div grid_distant g"
  have ms: "0 \<le> ms" "ms < 2 ^ 31" using t by (simp_all add: ms_def)
  have dpos: "0 < uint (grid_distant g)" using D(3) by (simp add: word_neq_0_conv word_less_def)
  have v: "uint v = grid_now t g"
    using ms by (simp add: v_def grid_now_def uint_div uint_word_of_int flip: ms_def)
  have "grid_now t g \<le> ms" using zdiv_mono2 [of ms 1 "uint (grid_distant g)"] ms(1) dpos unfolding grid_now_def ms_def [symmetric] by simp
  then have vs: "uint v < 2 ^ 31" using v ms(2) by simp
  define g1 where "g1 = g\<lparr>virtual_curr_grid := v, curr_grid := v mod grid_count g\<rparr>"
  have g1: "same_setup g g1" "virtual_last_grid g1 = virtual_last_grid g" "curr_grid g1 = v mod grid_count g"
    by (simp_all add: g1_def same_setup_def)
  have rel1: "grid_rel g1 log" using rel by (subst grid_rel_cong [OF g1(1)]) (simp_all add: g1_def)
  have start: "check_load t g =
    (if v \<noteq> virtual_last_grid g
     then do {
       let span = (if v - virtual_last_grid g > grid_count g then grid_count g else v - virtual_last_grid g);
       g \<leftarrow> clear_loop 0 (unat span) (g1\<lparr>virtual_last_grid := v\<rparr>);
       if req_water_mark g \<ge> max_req_water_mark g then Some (LR_FULL, g) else Some (count_request g)
     }
     else Some (count_request g1))"
    using t ms D(1,3) by (simp add: check_load_def Let_def g1_def v_def unat_gt_0 flip: ms_def)
  show ?thesis
  proof (cases "v = virtual_last_grid g")
    case True
    have c1: "uint (curr_grid g1) = uint (virtual_last_grid g1) mod uint (grid_count g1)"
      using g1 True by (simp add: uint_mod same_setup_def)
    have e: "uint (virtual_last_grid g1) = grid_now t g" "grid_count g1 = grid_count g" "max_req_water_mark g1 = max_req_water_mark g" "log' = log"
      using True v g1(1,2) log' by (simp_all add: same_setup_def)
    have tr: "same_setup g g'" if "same_setup g1 g'" for g' using that g1(1) by (simp add: same_setup_def)
    show ?thesis using count_request_ok [OF rel1 c1] start True rel1 g1(1) tr unfolding e
      by (auto split: if_splits simp: e(1))
  next
    case False
    define span where "span = (if v - virtual_last_grid g1 > grid_count g1 then grid_count g1 else v - virtual_last_grid g1)"
    have gc: "grid_count g1 = grid_count g" using g1(1) by (simp add: same_setup_def)
    obtain g2 where g2: "clear_loop 0 (unat span) (g1\<lparr>virtual_last_grid := v\<rparr>) = Some g2"
      "grid_rel g2 (if uint (virtual_last_grid g1) \<le> uint v then log else [])" "virtual_last_grid g2 = v" "curr_grid g2 = curr_grid g1"
      "same_setup g1 g2"
      using advance_ok [OF rel1 _ _ _ vs span_def] False g1 small gc by auto
    have rel2: "grid_rel g2 log'" using g2(2) by (simp add: log' g1(2) v)
    have e: "uint (virtual_last_grid g2) = grid_now t g" "grid_count g2 = grid_count g" "max_req_water_mark g2 = max_req_water_mark g"
      "same_setup g g2"
      using g2(3,5) v g1(1) by (simp_all add: same_setup_def)
    have c2: "uint (curr_grid g2) = uint (virtual_last_grid g2) mod uint (grid_count g2)"
      using g2(3,4) g1(3) e(2) by (simp add: uint_mod)
    have run: "check_load t g = (if req_water_mark g2 \<ge> max_req_water_mark g2 then Some (LR_FULL, g2) else Some (count_request g2))"
      using False g2(1) unfolding span_def g1(2) gc start Let_def by simp
    have w: "unat (req_water_mark g2) = window (uint (grid_count g)) (grid_now t g) log'"
      using grid_rel_water [OF rel2] unfolding e .
    have tr: "same_setup g g'" if "same_setup g2 g'" for g' using that e(4) by (simp add: same_setup_def)
    show ?thesis
    proof (cases "req_water_mark g2 \<ge> max_req_water_mark g2")
      case True
      then have "\<not> window (uint (grid_count g)) (grid_now t g) log' + 1 < unat (max_req_water_mark g)"
        using w e(3) by (simp add: word_le_nat_alt)
      then show ?thesis using run True rel2 e(1,4) by simp
    next
      case False
      then show ?thesis using count_request_ok [OF rel2 c2] run rel2 e(1,4) tr unfolding e
        by (auto split: if_splits simp: e(1))
    qed
  qed
qed

section \<open>Any number of calls\<close>

lemma fresh_rel:
  assumes "0 < unat (grid_count g)" "unat (grid_count g) < 2 ^ 31" "grid_distant g \<noteq> 0" "unat (max_req_water_mark g) < 2 ^ 31"
    and "grid_array g = replicate (unat (grid_count g)) 0" and "req_water_mark g = 0"
  shows "grid_rel g []"
  using assms by (simp add: grid_rel_def sum_list_replicate)

lemma InitGrid_rel:
  assumes "0 < unat count" "unat count < 2 ^ 31" "distant \<noteq> 0" "unat mark < 2 ^ 31"
  shows "grid_rel (InitGrid now count distant mark g) []"
  using assms by (intro fresh_rel) (simp_all add: InitGrid_def)

fun grid_run :: "timeval list \<Rightarrow> net_grid \<Rightarrow> (int list \<times> net_grid) option" where
  "grid_run [] g = Some ([], g)"
| "grid_run (t # ts) g =
     do { (r, g) \<leftarrow> check_load t g; (rs, g) \<leftarrow> grid_run ts g; Some (r # rs, g) }"

definition passed :: "net_grid \<Rightarrow> timeval list \<Rightarrow> int list \<Rightarrow> int list" where
  \<comment> \<open>the grids of the requests that were let through\<close>
  "passed g ts rs = map (\<lambda>(t, r). grid_now t g) (filter (\<lambda>(t, r). r = LR_NORMAL) (zip ts rs))"

definition limited :: "int \<Rightarrow> nat \<Rightarrow> int list \<Rightarrow> bool" where
  \<comment> \<open>no \<open>n\<close> grids in a row hold \<open>mark\<close> or more entries\<close>
  "limited n mark log \<longleftrightarrow> (\<forall>v. length (filter (\<lambda>x. v < x + n \<and> x \<le> v) log) < mark)"

lemma limited_snoc:
  assumes "limited n mark log" and "\<forall>x \<in> set log. x \<le> v" and "window n v log + 1 < mark"
  shows "limited n mark (log @ [v])"
  unfolding limited_def
proof
  fix w
  show "length (filter (\<lambda>x. w < x + n \<and> x \<le> w) (log @ [v])) < mark"
  proof (cases "w < v + n \<and> v \<le> w")
    case False
    then show ?thesis using assms(1) by (auto simp: limited_def)
  next
    case True
    have "length (filter (\<lambda>x. w < x + n \<and> x \<le> w) log) \<le> length (filter (in_window n v) log)"
      using True by (induction log) (auto simp: in_window_def)
    then show ?thesis using True assms(3) by (simp add: window_def)
  qed
qed

lemma same_setup_now: "same_setup g g' \<Longrightarrow> grid_now t g' = grid_now t g \<and> time_used t g' = time_used t g"
  by (simp add: grid_now_def time_used_def same_setup_def)

lemma grid_now_less:
  assumes "0 \<le> time_used t g" and "time_used t g < 2 ^ 31 * 1000"
  shows "0 \<le> grid_now t g" "grid_now t g < 2 ^ 31"
proof -
  have 1: "0 \<le> time_used t g div 1000" "time_used t g div 1000 < 2 ^ 31" using assms by simp_all
  have "0 < uint (grid_distant g) \<or> uint (grid_distant g) = 0" by (metis order_le_less uint_ge_0)
  then have "0 \<le> grid_now t g \<and> grid_now t g \<le> time_used t g div 1000"
    unfolding grid_now_def using zdiv_mono2 [of "time_used t g div 1000" 1 "uint (grid_distant g)"] 1 by (auto simp: pos_imp_zdiv_nonneg_iff)
  then show "0 \<le> grid_now t g" "grid_now t g < 2 ^ 31" using 1(2) by simp_all
qed

lemma grid_now_mono:
  assumes "time_used t g \<le> time_used u g" and "grid_distant g \<noteq> 0"
  shows "grid_now t g \<le> grid_now u g"
proof -
  have "0 < uint (grid_distant g)" using assms(2) by (simp add: word_neq_0_conv word_less_def)
  then show ?thesis unfolding grid_now_def using assms(1) by (intro zdiv_mono1) simp_all
qed

lemma grid_run_limited:
  assumes "grid_rel g log" and "limited (uint (grid_count g)) (unat (max_req_water_mark g)) log"
    and "sorted (map (\<lambda>t. time_used t g) ts)" and "\<forall>t \<in> set ts. 0 \<le> time_used t g \<and> time_used t g < 2 ^ 31 * 1000"
    and "\<forall>t \<in> set ts. uint (virtual_last_grid g) \<le> grid_now t g" and "uint (virtual_last_grid g) < 2 ^ 31"
  shows "\<exists>rs g'. grid_run ts g = Some (rs, g') \<and> length rs = length ts \<and>
    limited (uint (grid_count g)) (unat (max_req_water_mark g)) (log @ passed g ts rs)"
  using assms
proof (induction ts arbitrary: g log)
  case Nil
  then show ?case by (simp add: passed_def)
next
  case (Cons t ts)
  note D = grid_relD [OF Cons.prems(1)]
  have t: "0 \<le> time_used t g" "time_used t g < 2 ^ 31 * 1000" "uint (virtual_last_grid g) \<le> grid_now t g" using Cons.prems(4,5) by simp_all
  define log' where "log' = log @ (if window (uint (grid_count g)) (grid_now t g) log + 1 < unat (max_req_water_mark g) then [grid_now t g] else [])"
  from check_load_ok [OF Cons.prems(1,6) t(1,2) refl] t(3) obtain r g1 where
    g1: "check_load t g = Some (r, g1)" "same_setup g g1" "uint (virtual_last_grid g1) = grid_now t g" "grid_rel g1 log'"
      "r = (if window (uint (grid_count g)) (grid_now t g) log + 1 < unat (max_req_water_mark g) then LR_NORMAL else LR_FULL)"
    by (auto simp: log'_def split: if_splits)
  have e: "grid_count g1 = grid_count g" "max_req_water_mark g1 = max_req_water_mark g" "grid_now u g1 = grid_now u g"
    "time_used u g1 = time_used u g" for u
    using g1(2) same_setup_now [OF g1(2)] by (simp_all add: same_setup_def)
  have "\<forall>x \<in> set log. x \<le> grid_now t g" using D(8) t(3) by (meson order_trans)
  then have lim: "limited (uint (grid_count g1)) (unat (max_req_water_mark g1)) log'"
    unfolding e log'_def using Cons.prems(2) limited_snoc by auto
  have "\<forall>u \<in> set ts. grid_now t g \<le> grid_now u g" using Cons.prems(3) grid_now_mono D(3) by auto
  then have "\<exists>rs g'. grid_run ts g1 = Some (rs, g') \<and> length rs = length ts \<and>
      limited (uint (grid_count g1)) (unat (max_req_water_mark g1)) (log' @ passed g1 ts rs)"
    using Cons.prems(3,4) grid_now_less(2) [OF t(1,2)] g1(3) by (intro Cons.IH [OF g1(4) lim]) (simp_all add: e)
  then obtain rs g' where rs: "grid_run ts g1 = Some (rs, g')" "length rs = length ts"
      "limited (uint (grid_count g)) (unat (max_req_water_mark g)) (log' @ passed g1 ts rs)" unfolding e by blast
  have "log' @ passed g1 ts rs = log @ passed g (t # ts) (r # rs)"
    using g1(5) by (simp add: log'_def passed_def e LR_NORMAL_def LR_FULL_def)
  then show ?case using g1(1) rs by (intro exI [of _ "r # rs"] exI [of _ g']) simp
qed

definition grid_example :: net_grid where
  \<comment> \<open>some memory to initialise\<close>
  "grid_example = \<lparr>grid_count = 0, grid_distant = 0, max_req_water_mark = 0, grid_array = [], req_water_mark = 0, curr_grid = 0,
     virtual_last_grid = 0, virtual_curr_grid = 0, start_time = (0, 0)\<rparr>"

section \<open>Properties\<close>

text \<open>
  C20: One call of \<open>check_load\<close>: a clock behind the start forgets the history; otherwise the requests let through
  in the last \<open>grid_count\<close> grids are counted (all are forgotten when the clock went back by a grid), and the request is
  let through exactly if their number plus one stays below the water mark.
\<close>
theorem net_grid_window:
  assumes rel: "grid_rel g log" and small: "uint (virtual_last_grid g) < 2 ^ 31" and t: "time_used t g < 2 ^ 31 * 1000"
    and log': "log' = (if uint (virtual_last_grid g) \<le> grid_now t g then log else [])"
  shows "\<exists>r g'. check_load t g = Some (r, g') \<and>
    (if time_used t g < 0 then r = LR_NORMAL \<and> grid_rel g' [] \<and> start_time g' = t
     else if window (uint (grid_count g)) (grid_now t g) log' + 1 < unat (max_req_water_mark g)
     then r = LR_NORMAL \<and> grid_rel g' (log' @ [grid_now t g]) else r = LR_FULL \<and> grid_rel g' log')"
proof (cases "time_used t g < 0")
  case True
  note D = grid_relD [OF rel]
  have "grid_rel (reset t g) []" using D(1-4) by (intro fresh_rel) (simp_all add: reset_def)
  then show ?thesis using True by (simp add: check_load_def LR_NORMAL_def reset_def)
next
  case False
  then show ?thesis using check_load_ok [OF rel small _ t log'] by (auto split: if_splits)
qed

theorem net_grid_window_witness:
  "\<exists>g'. check_load (10, 500) (InitGrid (10, 0) 5 100 3 grid_example) = Some (LR_NORMAL, g') \<and> grid_rel g' [0]"
  using net_grid_window [OF InitGrid_rel [of 5 100 3 "(10, 0)" grid_example], of "(10, 500)" "[]"]
  by (simp add: InitGrid_def time_used_def grid_now_def window_def)

text \<open>
  Starting from \<open>InitGrid\<close>, with a clock that does not go back, in every stretch of \<open>grid_count\<close> grids fewer requests
  than the water mark are let through, so never the maximum itself.
\<close>
theorem net_grid_rate:
  assumes conf: "0 < unat count" "unat count < 2 ^ 31" "distant \<noteq> 0" "0 < unat mark" "unat mark < 2 ^ 31"
    and g: "g = InitGrid now count distant mark g0"
    and times: "sorted (map (\<lambda>t. time_used t g) ts)" "\<forall>t \<in> set ts. 0 \<le> time_used t g \<and> time_used t g < 2 ^ 31 * 1000"
  shows "\<exists>rs g'. grid_run ts g = Some (rs, g') \<and> length rs = length ts \<and>
    (\<forall>v. length (filter (\<lambda>x. v < x + uint count \<and> x \<le> v) (passed g ts rs)) < unat mark)"
proof -
  have f: "grid_count g = count" "max_req_water_mark g = mark" "virtual_last_grid g = 0" by (simp_all add: g InitGrid_def)
  have "grid_rel g []" unfolding g by (rule InitGrid_rel [OF conf(1-3,5)])
  moreover have "limited (uint (grid_count g)) (unat (max_req_water_mark g)) []" using conf(4) by (simp add: limited_def f)
  moreover have "\<forall>t \<in> set ts. uint (virtual_last_grid g) \<le> grid_now t g" using grid_now_less(1) times(2) by (simp add: f)
  ultimately show ?thesis using grid_run_limited [of g "[]" ts] times f by (simp add: limited_def)
qed

theorem net_grid_rate_witness:
  "\<exists>rs g'. grid_run [(0, 100), (0, 200), (0, 300)] (InitGrid (0, 0) 2 1 2 grid_example) = Some (rs, g') \<and> length rs = 3"
  using net_grid_rate [of 2 1 2 _ "(0, 0)" grid_example "[(0, 100), (0, 200), (0, 300)]", OF _ _ _ _ _ refl]
  by (auto simp: InitGrid_def time_used_def)

end
