(* ===== verification/Ini.thy ===== *)
theory Ini
  imports CString
begin

text \<open>
  \<open>net/net_conf.h\<close>, \<open>net/net_conf.cc\<close> and \<open>utils/ini.h\<close>, \<open>utils/ini.cpp\<close>: \<open>CNetConf\<close> and \<open>CIniFile\<close>, the same reader of
  INI files twice; they differ in what the functions with a default value return. The contents of the file is an
  argument, \<open>None\<close> when it cannot be opened. The variants for \<open>double\<close> are not modelled.
\<close>

record net_conf =
  m_kv :: "(string \<times> string) list"

definition CNetConf :: net_conf where
  "CNetConf = \<lparr>m_kv = []\<rparr>"

definition parse_line :: "string \<Rightarrow> string \<times> net_conf \<Rightarrow> string \<times> net_conf" where
  \<comment> \<open>the body of the loop: the current field and the object; \<open>substr(pos + 1)\<close> is \<open>substr(0)\<close> for \<open>npos\<close>\<close>
  "parse_line line st =
     (case st of (field, c) \<Rightarrow>
       if line = [] \<or> hd line = CHR ''#'' then (field, c)
       else case (find_sub ''['' line, find_sub '']'' line) of
         (pos, pos2) \<Rightarrow>
           if pos \<noteq> None \<and> pos2 \<noteq> None \<and> the pos2 > the pos
           then (take (the pos2 - the pos - 1) (drop (the pos + 1) line), c)
           else (let pos = find_sub ''='' line;
                     key = (case pos of None \<Rightarrow> line | Some p \<Rightarrow> take p line);
                     val = (case pos of None \<Rightarrow> line | Some p \<Rightarrow> drop (p + 1) line)
                 in (field, c\<lparr>m_kv := map_put (field @ ''-'' @ key) val (m_kv c)\<rparr>)))"

definition OpenIniFile :: "string option \<Rightarrow> net_conf \<Rightarrow> bool \<times> net_conf" where
  "OpenIniFile file c =
     (case file of
        None \<Rightarrow> (False, c)
      | Some text \<Rightarrow>
          (let (ls, rest) = file_lines text
           in (True, snd (fold parse_line (if rest = [] then ls else ls @ [rest]) ([], c)))))"

definition GetFiledValue :: "string \<Rightarrow> string \<Rightarrow> net_conf \<Rightarrow> string option" where
  "GetFiledValue field key c = map_of (m_kv c) (field @ ''-'' @ key)"

definition GetFiledValue_str :: "string \<Rightarrow> string \<Rightarrow> string \<Rightarrow> net_conf \<Rightarrow> bool \<times> string" where
  "GetFiledValue_str field key def c =
     (case GetFiledValue field key c of None \<Rightarrow> (False, def) | Some s \<Rightarrow> (True, s))"

definition GetFiledValue_u16 :: "string \<Rightarrow> string \<Rightarrow> u32 \<Rightarrow> net_conf \<Rightarrow> bool \<times> u16" where
  "GetFiledValue_u16 field key def c =
     (case GetFiledValue field key c of None \<Rightarrow> (False, ucast def) | Some s \<Rightarrow> (True, of_int (c_atoi (c_str s))))"

definition GetFiledValue_u32 :: "string \<Rightarrow> string \<Rightarrow> u32 \<Rightarrow> net_conf \<Rightarrow> bool \<times> u32" where
  "GetFiledValue_u32 field key def c =
     (case GetFiledValue field key c of None \<Rightarrow> (False, def) | Some s \<Rightarrow> (True, of_int (c_atoi (c_str s))))"

definition GetFiledValue_int :: "string \<Rightarrow> string \<Rightarrow> int \<Rightarrow> net_conf \<Rightarrow> bool \<times> int" where
  "GetFiledValue_int field key def c =
     (case GetFiledValue field key c of None \<Rightarrow> (False, def) | Some s \<Rightarrow> (True, c_atoi (c_str s)))"

definition GetFiledValue_bool :: "string \<Rightarrow> string \<Rightarrow> bool \<Rightarrow> net_conf \<Rightarrow> bool \<times> bool" where
  "GetFiledValue_bool field key def c =
     (case GetFiledValue field key c of None \<Rightarrow> (False, def) | Some s \<Rightarrow> (True, if c_atoi (c_str s) = 0 then False else True))"

section \<open>The copy in \<open>utils\<close>\<close>

definition CIniFile_OpenIniFile :: "string option \<Rightarrow> net_conf \<Rightarrow> bool \<times> net_conf" where
  "CIniFile_OpenIniFile = OpenIniFile"

definition CIniFile_GetFiledValue :: "string \<Rightarrow> string \<Rightarrow> net_conf \<Rightarrow> string option" where
  "CIniFile_GetFiledValue field key c = map_of (m_kv c) (field @ ''-'' @ key)"

definition CIniFile_GetFiledValue_str :: "string \<Rightarrow> string \<Rightarrow> string \<Rightarrow> net_conf \<Rightarrow> string" where
  "CIniFile_GetFiledValue_str field key def c =
     (case CIniFile_GetFiledValue field key c of None \<Rightarrow> def | Some s \<Rightarrow> s)"

definition CIniFile_GetFiledValue_u32 :: "string \<Rightarrow> string \<Rightarrow> u32 \<Rightarrow> net_conf \<Rightarrow> u32" where
  "CIniFile_GetFiledValue_u32 field key def c =
     (case CIniFile_GetFiledValue field key c of None \<Rightarrow> def | Some s \<Rightarrow> of_int (c_atoi (c_str s)))"

definition CIniFile_GetFiledValue_int :: "string \<Rightarrow> string \<Rightarrow> int \<Rightarrow> net_conf \<Rightarrow> int" where
  "CIniFile_GetFiledValue_int field key def c =
     (case CIniFile_GetFiledValue field key c of None \<Rightarrow> def | Some s \<Rightarrow> c_atoi (c_str s))"

definition CIniFile_GetFiledValue_bool :: "string \<Rightarrow> string \<Rightarrow> bool \<Rightarrow> net_conf \<Rightarrow> bool" where
  "CIniFile_GetFiledValue_bool field key def c =
     (case CIniFile_GetFiledValue field key c of None \<Rightarrow> def | Some s \<Rightarrow> if c_atoi (c_str s) = 0 then False else True)"

section \<open>Reading back what was written\<close>

type_synonym ini_section = "string \<times> (string \<times> string) list"

definition section_lines :: "ini_section \<Rightarrow> string list" where
  "section_lines sec = (''['' @ fst sec @ '']'') # map (\<lambda>(k, v). k @ ''='' @ v) (snd sec)"

definition ini_text :: "ini_section list \<Rightarrow> string" where
  "ini_text secs = concat (map (\<lambda>l. l @ [CHR 0x0A]) (concat (map section_lines secs)))"

definition entries :: "ini_section list \<Rightarrow> ((string \<times> string) \<times> string) list" where
  "entries secs = concat (map (\<lambda>(f, kvs). map (\<lambda>(k, v). ((f, k), v)) kvs) secs)"

definition clean_entry :: "string \<Rightarrow> string \<Rightarrow> bool" where
  \<comment> \<open>a key and a value that a line can hold\<close>
  "clean_entry k v \<longleftrightarrow> CHR 0x0A \<notin> set k \<and> CHR 0x0A \<notin> set v \<and> CHR ''='' \<notin> set k \<and> CHR ''['' \<notin> set k \<and> CHR ''['' \<notin> set v \<and>
     (k = [] \<or> hd k \<noteq> CHR ''#'')"

definition clean_section :: "ini_section \<Rightarrow> bool" where
  "clean_section sec \<longleftrightarrow> CHR 0x0A \<notin> set (fst sec) \<and> CHR '']'' \<notin> set (fst sec) \<and> CHR ''-'' \<notin> set (fst sec) \<and>
     (\<forall>(k, v) \<in> set (snd sec). clean_entry k v)"

lemma parse_header:
  assumes "CHR '']'' \<notin> set f"
  shows "parse_line (''['' @ f @ '']'') (g, c) = (f, c)"
proof -
  have "find_sub '']'' (''['' @ f @ '']'') = Some (length f + 1)"
    using find_sub_char [of "CHR '']''" "''['' @ f" "[]"] assms by simp
  then show ?thesis by (simp add: parse_line_def)
qed

lemma parse_entry:
  assumes "clean_entry k v"
  shows "parse_line (k @ ''='' @ v) (f, c) = (f, c\<lparr>m_kv := map_put (f @ ''-'' @ k) v (m_kv c)\<rparr>)"
proof -
  have "find_sub ''='' (k @ ''='' @ v) = Some (length k)"
    using find_sub_char [of "CHR ''=''" k v] assms by (simp add: clean_entry_def)
  moreover have "find_sub ''['' (k @ ''='' @ v) = None" using assms by (simp add: find_sub_char_None clean_entry_def)
  moreover have "\<not> (k @ ''='' @ v = [] \<or> hd (k @ ''='' @ v) = CHR ''#'')" using assms by (cases k) (auto simp: clean_entry_def)
  ultimately show ?thesis unfolding parse_line_def by (simp add: Let_def)
qed

definition kv_sorted :: "net_conf \<Rightarrow> bool" where
  "kv_sorted c \<longleftrightarrow> sorted_wrt str_less (map fst (m_kv c))"

definition joined :: "((string \<times> string) \<times> string) \<Rightarrow> string \<times> string" where
  "joined e = (fst (fst e) @ ''-'' @ snd (fst e), snd e)"

lemma fold_entries:
  assumes "\<forall>(k, v) \<in> set kvs. clean_entry k v" and "kv_sorted c"
  shows "\<exists>c'. fold parse_line (map (\<lambda>(k, v). k @ ''='' @ v) kvs) (f, c) = (f, c') \<and> kv_sorted c' \<and>
    map_of (m_kv c') = map_of (m_kv c) ++ map_of (rev (map (joined \<circ> (\<lambda>(k, v). ((f, k), v))) kvs))"
  using assms
proof (induction kvs arbitrary: c)
  case (Cons e kvs)
  obtain k v where e: "e = (k, v)" by (cases e)
  define c1 where "c1 = c\<lparr>m_kv := map_put (f @ ''-'' @ k) v (m_kv c)\<rparr>"
  have c1: "kv_sorted c1" "map_of (m_kv c1) = (map_of (m_kv c))(f @ ''-'' @ k \<mapsto> v)"
    using map_put_sorted [of "m_kv c" "f @ ''-'' @ k" v] Cons.prems(2) by (simp_all add: c1_def kv_sorted_def)
  obtain c' where c': "fold parse_line (map (\<lambda>(k, v). k @ ''='' @ v) kvs) (f, c1) = (f, c')" "kv_sorted c'"
    "map_of (m_kv c') = map_of (m_kv c1) ++ map_of (rev (map (joined \<circ> (\<lambda>(k, v). ((f, k), v))) kvs))"
    using Cons.IH [OF _ c1(1)] Cons.prems(1) by (metis list.set_intros(2))
  have "parse_line (k @ ''='' @ v) (f, c) = (f, c1)" using parse_entry [of k v f c] Cons.prems(1) e by (simp add: c1_def)
  then have "fold parse_line (map (\<lambda>(k, v). k @ ''='' @ v) (e # kvs)) (f, c) = (f, c')" using c'(1) e by simp
  moreover define G where "G = joined \<circ> (\<lambda>(k, v :: string). ((f, k), v))"
  have "G e = (f @ ''-'' @ k, v)" by (simp add: G_def joined_def e)
  then have "map_of (m_kv c') = map_of (m_kv c) ++ map_of (rev (map G (e # kvs)))"
    using c'(3) c1(2) by (simp add: map_add_assoc flip: G_def)
  ultimately show ?case using c'(2) unfolding G_def by blast
qed simp

lemma fold_sections:
  assumes "\<forall>sec \<in> set secs. clean_section sec" and "kv_sorted c"
  shows "\<exists>g' c'. fold parse_line (concat (map section_lines secs)) (g, c) = (g', c') \<and> kv_sorted c' \<and>
    map_of (m_kv c') = map_of (m_kv c) ++ map_of (rev (map joined (entries secs)))"
  using assms
proof (induction secs arbitrary: g c)
  case Nil
  then show ?case by (simp add: entries_def)
next
  case (Cons sec secs)
  obtain f kvs where sec: "sec = (f, kvs)" by (cases sec)
  have cl: "CHR '']'' \<notin> set f" "\<forall>(k, v) \<in> set kvs. clean_entry k v" using Cons.prems(1) sec by (auto simp: clean_section_def)
  obtain c1 where c1: "fold parse_line (map (\<lambda>(k, v). k @ ''='' @ v) kvs) (f, c) = (f, c1)" "kv_sorted c1"
    "map_of (m_kv c1) = map_of (m_kv c) ++ map_of (rev (map (joined \<circ> (\<lambda>(k, v). ((f, k), v))) kvs))"
    using fold_entries [OF cl(2) Cons.prems(2)] by blast
  obtain g' c' where c': "fold parse_line (concat (map section_lines secs)) (f, c1) = (g', c')" "kv_sorted c'"
    "map_of (m_kv c') = map_of (m_kv c1) ++ map_of (rev (map joined (entries secs)))"
    using Cons.IH [OF _ c1(2), of f] Cons.prems(1) by (metis list.set_intros(2))
  have "fold parse_line (section_lines sec) (g, c) = (f, c1)"
    using parse_header [OF cl(1), of g c] c1(1) by (simp add: section_lines_def sec)
  moreover have "map joined (entries (sec # secs)) = map (joined \<circ> (\<lambda>(k, v). ((f, k), v))) kvs @ map joined (entries secs)"
    by (simp add: entries_def sec)
  ultimately show ?case using c' c1(3) by simp
qed

lemma split_at: "c \<notin> set a \<Longrightarrow> c \<notin> set b \<Longrightarrow> a @ c # x = b @ c # y \<longleftrightarrow> a = b \<and> x = y"
proof (induction a arbitrary: b)
  case Nil
  then show ?case by (cases b) auto
next
  case (Cons u a)
  then show ?case by (cases b) auto
qed

lemma map_of_joined:
  assumes "\<forall>e \<in> set es. CHR ''-'' \<notin> set (fst (fst e))" and "CHR ''-'' \<notin> set f"
  shows "map_of (map joined es) (f @ ''-'' @ k) = map_of es (f, k)"
  using assms by (induction es) (auto simp: joined_def split_at)

text \<open>
  C25: Opening a file with the sections and entries of a list gives every key of every section its value, the last one
  if there are several, and leaves other keys without a value; section names are free of \<open>]\<close> and \<open>-\<close>, keys and values
  of line feeds and \<open>[\<close>, and keys of \<open>=\<close> and a leading \<open>#\<close>.
\<close>
theorem ini_roundtrip:
  assumes "\<forall>sec \<in> set secs. clean_section sec" and "CHR ''-'' \<notin> set f"
  shows "\<exists>c. OpenIniFile (Some (ini_text secs)) CNetConf = (True, c) \<and>
    GetFiledValue f k c = map_of (rev (entries secs)) (f, k)"
proof -
  have nl: "CHR 0x0A \<notin> set l" if "l \<in> set (concat (map section_lines secs))" for l
    using that assms(1) by (auto simp: section_lines_def clean_section_def clean_entry_def split: prod.splits)
  then have fl: "file_lines (ini_text secs) = (concat (map section_lines secs), [])"
    using file_lines_concat [of "concat (map section_lines secs)" "[]"] by (auto simp: ini_text_def)
  obtain g' c' where c': "fold parse_line (concat (map section_lines secs)) ([], CNetConf) = (g', c')"
    "map_of (m_kv c') = map_of (m_kv CNetConf) ++ map_of (rev (map joined (entries secs)))"
    using fold_sections [OF assms(1), of CNetConf "[]"] by (auto simp: kv_sorted_def CNetConf_def)
  have "\<forall>e \<in> set (rev (entries secs)). CHR ''-'' \<notin> set (fst (fst e))"
    using assms(1) by (auto simp: entries_def clean_section_def)
  then have "GetFiledValue f k c' = map_of (rev (entries secs)) (f, k)"
    using map_of_joined [of "rev (entries secs)" f k] assms(2) c'(2) by (simp add: GetFiledValue_def CNetConf_def rev_map)
  then show ?thesis using fl c'(1) by (simp add: OpenIniFile_def)
qed

theorem ini_roundtrip_witness:
  "\<exists>c. OpenIniFile (Some (ini_text [(''net'', [(''port'', ''80''), (''host'', ''a-b'')]), (''log'', [])])) CNetConf = (True, c) \<and>
    GetFiledValue ''net'' ''host'' c = Some ''a-b''"
  using ini_roundtrip [of "[(''net'', [(''port'', ''80''), (''host'', ''a-b'')]), (''log'', [])]" "''net''" "''host''"]
  by (simp add: clean_section_def clean_entry_def entries_def)

text \<open>
  Three lines that are read otherwise than they look: a line without \<open>=\<close> is a key whose value is the line itself; an
  entry whose value has \<open>[\<close> before \<open>]\<close> starts a section and is lost; and the names \<open>a-b\<close>, \<open>c\<close> and \<open>a\<close>, \<open>b-c\<close> stand for one entry.
\<close>
theorem ini_pitfalls:
  assumes l: "l \<noteq> []" "hd l \<noteq> CHR ''#''" "CHR ''='' \<notin> set l" "CHR ''['' \<notin> set l"
    and e: "key \<noteq> []" "hd key \<noteq> CHR ''#''" "CHR ''['' \<notin> set (key @ p)" "CHR '']'' \<notin> set (key @ p @ x)"
  shows "parse_line l (f, c) = (f, c\<lparr>m_kv := map_put (f @ ''-'' @ l) l (m_kv c)\<rparr>) \<and>
    parse_line (key @ ''='' @ p @ ''['' @ x @ '']'' @ q) (f, c) = (x, c) \<and>
    GetFiledValue (a @ ''-'' @ b) k c = GetFiledValue a (b @ ''-'' @ k) c"
proof -
  have "find_sub ''='' l = None" "find_sub ''['' l = None" using l by (simp_all add: find_sub_char_None)
  then have 1: "parse_line l (f, c) = (f, c\<lparr>m_kv := map_put (f @ ''-'' @ l) l (m_kv c)\<rparr>)"
    using l unfolding parse_line_def by (simp add: Let_def)
  have p1: "find_sub ''['' (key @ ''='' @ p @ ''['' @ x @ '']'' @ q) = Some (length key + 1 + length p)"
    using find_sub_char [of "CHR ''[''" "key @ ''='' @ p" "x @ '']'' @ q"] e by simp
  have p2: "find_sub '']'' (key @ ''='' @ p @ ''['' @ x @ '']'' @ q) = Some (length key + 2 + length p + length x)"
    using find_sub_char [of "CHR '']''" "key @ ''='' @ p @ ''['' @ x" q] e by simp
  have ne: "\<not> (key @ ''='' @ p @ ''['' @ x @ '']'' @ q = [] \<or> hd (key @ ''='' @ p @ ''['' @ x @ '']'' @ q) = CHR ''#'')"
    using e by simp
  have "parse_line (key @ ''='' @ p @ ''['' @ x @ '']'' @ q) (f, c) = (x, c)"
    unfolding parse_line_def using p1 p2 ne by simp
  then show ?thesis using 1 by (simp add: GetFiledValue_def)
qed

theorem ini_pitfalls_witness:
  "parse_line ''on'' (''f'', CNetConf) = (''f'', \<lparr>m_kv = [(''f-on'', ''on'')]\<rparr>) \<and>
    parse_line ''key=[80]'' (''f'', CNetConf) = (''80'', CNetConf)"
  using ini_pitfalls [of "''on''" "''key''" "[]" "''80''" "''f''" CNetConf "[]"] by (simp add: CNetConf_def)

end
