(* ===== verification/Ipc.thy ===== *)
theory Ipc
  imports Prelude
begin

text \<open>
  \<open>utils/ipc.h\<close>, \<open>utils/ipc.cpp\<close>: \<open>CShm\<close>, a segment of shared memory, and the loops of \<open>CSem\<close>, a semaphore. The segment
  is a list of bytes; \<open>memcpy\<close> outside of it is \<open>None\<close>. What the calls of \<open>semop\<close> return, one after the other, is an
  argument.
\<close>

record shm =
  m_size :: u32
  m_ptr :: "u8 list"

definition Clear :: "shm \<Rightarrow> shm" where
  "Clear s = s\<lparr>m_ptr := replicate (unat (m_size s)) 0\<rparr>"

definition Write :: "u8 list option \<Rightarrow> u32 \<Rightarrow> u32 \<Rightarrow> shm \<Rightarrow> (int \<times> shm) option" where
  \<comment> \<open>the data are a null pointer or a block of bytes; the result, a \<open>uint32_t\<close>, is returned as \<open>int\<close>\<close>
  "Write msg_data msg_len pos s =
     (case msg_data of
        None \<Rightarrow> Some (-1, s)
      | Some msg \<Rightarrow>
          if msg_len > m_size s \<or> pos + msg_len > m_size s then Some (-1, s)
          else do {
            d \<leftarrow> mem_read msg 0 (unat msg_len);
            p \<leftarrow> mem_write (m_ptr s) (unat pos) d;
            Some (sint msg_len, s\<lparr>m_ptr := p\<rparr>)
          })"

definition Read :: "u8 list option \<Rightarrow> u32 \<Rightarrow> u32 \<Rightarrow> shm \<Rightarrow> (int \<times> u8 list option) option" where
  \<comment> \<open>the buffer is returned with what has been copied to it\<close>
  "Read msg_data msg_len pos s =
     (case msg_data of
        None \<Rightarrow> Some (-1, None)
      | Some msg \<Rightarrow>
          if msg_len > m_size s \<or> pos + msg_len > m_size s then Some (-1, Some msg)
          else do {
            d \<leftarrow> mem_read (m_ptr s) (unat pos) (unat msg_len);
            b \<leftarrow> mem_write msg 0 d;
            Some (sint msg_len, Some b)
          })"

section \<open>Waiting for a semaphore\<close>

datatype semop = Sem_ok | Sem_eintr | Sem_eagain | Sem_error

fun Wait_loop :: "(nat \<Rightarrow> semop) \<Rightarrow> nat \<Rightarrow> nat \<Rightarrow> string + unit" where
  \<comment> \<open>the loop of \<open>Wait\<close> with \<open>n\<close> attempts left; \<open>Inl\<close> is the exception\<close>
  "Wait_loop out i 0 = Inl ''semop wait 5 time error!''"
| "Wait_loop out i (Suc n) =
     (if out i \<noteq> Sem_ok
      then (if out i \<noteq> Sem_eintr then Inl ''semop wait error!'' else Wait_loop out (i + 1) n)
      else Inr ())"

definition Wait :: "(nat \<Rightarrow> semop) \<Rightarrow> string + unit" where
  "Wait out = Wait_loop out 0 5"

fun TryWait_loop :: "(nat \<Rightarrow> semop) \<Rightarrow> nat \<Rightarrow> nat \<Rightarrow> bool" where
  "TryWait_loop out i 0 = False"
| "TryWait_loop out i (Suc n) =
     (if out i \<noteq> Sem_ok
      then (if out i \<noteq> Sem_eagain then False else if out i = Sem_eintr then TryWait_loop out (i + 1) n else False)
      else True)"

definition TryWait :: "bool \<Rightarrow> (nat \<Rightarrow> semop) \<Rightarrow> bool" where
  \<comment> \<open>\<open>timed\<close>: whether \<open>ts\<close> is given\<close>
  "TryWait timed out = (if \<not> timed then (if out 0 \<noteq> Sem_ok then False else True) else TryWait_loop out 0 5)"

section \<open>Properties\<close>

text \<open>
  \<open>Write\<close> checks the sum of position and length modulo two to the power of 32. While the sum does not wrap it stores the
  data exactly when they fit, \<open>Read\<close> returns them and the rest of the segment keeps its contents; when it wraps to a value
  inside the segment the check passes and the copy starts outside of it.
\<close>
theorem shm_write_read:
  assumes s: "length (m_ptr s) = unat (m_size s)" and len: "length msg < 2 ^ 32" and buf: "length buf = length msg"
  shows "if unat (m_size s) < length msg \<or> unat (m_size s) < (unat pos + length msg) mod 2 ^ 32
    then Write (Some msg) (of_nat (length msg)) pos s = Some (-1, s)
    else if 2 ^ 32 \<le> unat pos + length msg then Write (Some msg) (of_nat (length msg)) pos s = None
    else \<exists>s'. Write (Some msg) (of_nat (length msg)) pos s = Some (sint (of_nat (length msg) :: u32), s') \<and> m_size s' = m_size s \<and>
      Read (Some buf) (of_nat (length msg)) pos s' = Some (sint (of_nat (length msg) :: u32), Some msg) \<and>
      take (unat pos) (m_ptr s') = take (unat pos) (m_ptr s) \<and>
      drop (unat pos + length msg) (m_ptr s') = drop (unat pos + length msg) (m_ptr s)"
proof -
  define l :: u32 where "l = of_nat (length msg)"
  have l: "unat l = length msg" unfolding l_def using len by (intro unat_of_nat_small) simp
  have sum: "unat (pos + l) = (unat pos + length msg) mod 2 ^ 32" by (simp add: unat_word_ariths l)
  have cond: "(l > m_size s \<or> pos + l > m_size s) \<longleftrightarrow>
      unat (m_size s) < length msg \<or> unat (m_size s) < (unat pos + length msg) mod 2 ^ 32"
    by (simp only: word_less_nat_alt l sum)
  have wr: "Write (Some msg) l pos s = (if l > m_size s \<or> pos + l > m_size s then Some (-1, s)
      else map_option (\<lambda>p. (sint l, s\<lparr>m_ptr := p\<rparr>)) (mem_write (m_ptr s) (unat pos) msg))"
    by (simp add: Write_def mem_read_in l map_option_case Option.bind_def split: option.splits)
  consider "l > m_size s \<or> pos + l > m_size s" | "\<not> (l > m_size s \<or> pos + l > m_size s)" "2 ^ 32 \<le> unat pos + length msg"
    | "\<not> (l > m_size s \<or> pos + l > m_size s)" "unat pos + length msg < 2 ^ 32" by linarith
  then show ?thesis
  proof cases
    case 1
    then show ?thesis using wr cond unfolding l_def [symmetric] by auto
  next
    case 2
    have "unat (m_size s) < 2 ^ 32" using unsigned_less [of "m_size s"] by simp
    then have "mem_write (m_ptr s) (unat pos) msg = None" using 2(2) s by (simp add: mem_write_def)
    then show ?thesis using 2 wr cond unfolding l_def [symmetric] by auto
  next
    case 3
    then have le: "unat pos + length msg \<le> unat (m_size s)" using cond by simp
    define p where "p = take (unat pos) (m_ptr s) @ msg @ drop (unat pos + length msg) (m_ptr s)"
    have w: "mem_write (m_ptr s) (unat pos) msg = Some p" using le s by (simp add: mem_write_in p_def)
    have lp: "length p = unat (m_size s)" using length_mem_write [OF w] s by simp
    have "mem_read p (unat pos) (length msg) = Some msg" using le lp s by (simp add: mem_read_in) (simp add: p_def)
    moreover have "mem_write buf 0 msg = Some msg" using buf by (simp add: mem_write_in)
    ultimately have "Read (Some buf) l pos (s\<lparr>m_ptr := p\<rparr>) = Some (sint l, Some msg)" using 3(1) by (simp add: Read_def l)
    moreover have "Write (Some msg) l pos s = Some (sint l, s\<lparr>m_ptr := p\<rparr>)" using wr 3(1) w by simp
    moreover have "take (unat pos) p = take (unat pos) (m_ptr s)" "drop (unat pos + length msg) p = drop (unat pos + length msg) (m_ptr s)"
      using le s by (simp_all add: p_def)
    moreover have "\<not> (unat (m_size s) < length msg \<or> unat (m_size s) < (unat pos + length msg) mod 2 ^ 32)" "\<not> 2 ^ 32 \<le> unat pos + length msg"
      using 3 cond by simp_all
    ultimately show ?thesis unfolding l_def [symmetric] by (intro iffD2 [OF if_not_P] exI [of _ "s\<lparr>m_ptr := p\<rparr>"]; simp)
  qed
qed

theorem shm_write_read_witness:
  "Write (Some [1, 2, 3, 4]) 4 (- 2) \<lparr>m_size = 8, m_ptr = replicate 8 0\<rparr> = None"
  using shm_write_read [of "\<lparr>m_size = 8, m_ptr = replicate 8 0\<rparr>" "[1, 2, 3, 4]" "[0, 0, 0, 0]" "- 2"]
  by simp

text \<open>
  \<open>Wait\<close> repeats an interrupted call, at most five calls in all, and succeeds exactly if a call succeeds after none
  but interrupted ones; \<open>TryWait\<close> with a time limit means to do the same, but gives up after the first call, since it
  looks for \<open>EAGAIN\<close> before it looks for \<open>EINTR\<close>.
\<close>
theorem sem_attempts:
  "(Wait out = Inr () \<longleftrightarrow> (\<exists>i < 5. out i = Sem_ok \<and> (\<forall>j < i. out j = Sem_eintr))) \<and>
    (TryWait timed out \<longleftrightarrow> out 0 = Sem_ok)"
proof -
  have "Wait_loop out k n = Inr () \<longleftrightarrow> (\<exists>i < n. out (k + i) = Sem_ok \<and> (\<forall>j < i. out (k + j) = Sem_eintr))" for k n
  proof (induction n arbitrary: k)
    case (Suc n)
    have "(\<exists>i < Suc n. out (k + i) = Sem_ok \<and> (\<forall>j < i. out (k + j) = Sem_eintr)) \<longleftrightarrow>
        out k = Sem_ok \<or> (out k = Sem_eintr \<and> (\<exists>i < n. out (Suc k + i) = Sem_ok \<and> (\<forall>j < i. out (Suc k + j) = Sem_eintr)))"
      by (auto simp: Ex_less_Suc2 All_less_Suc2)
    then show ?case using Suc.IH [of "Suc k"] by (cases "out k") auto
  qed simp
  from this [of 0 5] show ?thesis by (auto simp: Wait_def TryWait_def numeral_eq_Suc)
qed

theorem sem_attempts_witness:
  "Wait (\<lambda>i. if i < 2 then Sem_eintr else Sem_ok) = Inr () \<and> \<not> TryWait True (\<lambda>i. if i < 2 then Sem_eintr else Sem_ok)"
proof -
  have "\<exists>i < (5 :: nat). (if i < 2 then Sem_eintr else Sem_ok) = Sem_ok \<and> (\<forall>j < i. (if j < 2 then Sem_eintr else Sem_ok) = Sem_eintr)"
    by (intro exI [of _ "2 :: nat"]) simp
  then show ?thesis using sem_attempts [of "\<lambda>i. if i < 2 then Sem_eintr else Sem_ok" True] by simp
qed

end
