(* ===== verification/Database.thy ===== *)
theory Database
  imports CString
begin

text \<open>
  \<open>db/database.h\<close>, \<open>db/database.cc\<close>: \<open>CDatabase\<close>, a connection to MySQL, and \<open>CRecord\<close>. The client library is outside: what
  its calls return is an argument, by their documented meaning. Results of queries are objects of a store that hold their rows;
  a \<open>CRecord\<close> is a pointer to a row inside of a result. Reading or freeing what does not exist is \<open>None\<close>, as is asking
  for the number of rows of a null pointer. The handle is not null.
\<close>

type_synonym row = "string option list"

record server =
  host :: string
  port :: int
  user :: string
  passwd :: string
  db :: string

record mysql =
  \<comment> \<open>what the library keeps for a handle\<close>
  read_timeout :: "int option"
  reconnect :: bool

record result =
  \<comment> \<open>a \<open>MYSQL_RES\<close>: its rows, and which of them \<open>mysql_fetch_row\<close> returns next\<close>
  r_rows :: "row list"
  r_next :: nat

type_synonym row_ptr = "(nat \<times> nat) option"

record database =
  m_server :: server
  m_handle :: "mysql option"
  m_result :: "nat option"
  m_num_rows :: int
  m_error :: string
  m_last_sql :: string
  results :: "nat \<Rightarrow> result option"
  next_result :: nat

record reply =
  \<comment> \<open>what the library answers to one query\<close>
  query_failed :: bool
  stored :: "row list option"
  field_count :: nat
  affected_rows :: int
  error_text :: string

definition DB_READ_TIMEOUT :: int where
  "DB_READ_TIMEOUT = 60 * 3"

section \<open>Records\<close>

definition column :: "int \<Rightarrow> database \<Rightarrow> row_ptr \<Rightarrow> string option option" where
  \<comment> \<open>\<open>row[field_id]\<close>, which may be a null pointer\<close>
  "column field_id d row = do {
     (p, k) \<leftarrow> row;
     r \<leftarrow> results d p;
     if k < length (r_rows r) \<and> 0 \<le> field_id \<and> nat field_id < length (r_rows r ! k) then Some (r_rows r ! k ! nat field_id) else None
   }"

definition GetInt :: "int \<Rightarrow> database \<Rightarrow> row_ptr \<Rightarrow> int option" where
  "GetInt field_id d row = do { x \<leftarrow> column field_id d row; Some (case x of Some s \<Rightarrow> c_atoi s | None \<Rightarrow> 0) }"


section \<open>Connecting\<close>

definition Init :: "server \<Rightarrow> database \<Rightarrow> database" where
  \<comment> \<open>\<open>new Server()\<close> and \<open>mysql_init\<close>, then the two options\<close>
  "Init s d = d\<lparr>m_server := s, m_handle := Some \<lparr>read_timeout = Some DB_READ_TIMEOUT, reconnect = True\<rparr>\<rparr>"

definition CDatabase :: database where
  "CDatabase = Init \<lparr>host = [], port = 0, user = [], passwd = [], db = []\<rparr>
     \<lparr>m_server = \<lparr>host = [], port = 0, user = [], passwd = [], db = []\<rparr>, m_handle = None, m_result = None, m_num_rows = 0,
      m_error = [], m_last_sql = [], results = Map.empty, next_result = 0\<rparr>"

definition Connect :: "bool \<Rightarrow> server \<Rightarrow> database \<Rightarrow> bool \<times> database" where
  \<comment> \<open>\<open>ok\<close>: \<open>mysql_real_connect\<close> returns a handle\<close>
  "Connect ok s d = (if ok then True else False, d\<lparr>m_server := s\<rparr>)"

definition Connect_args :: "bool \<Rightarrow> string \<Rightarrow> int \<Rightarrow> string \<Rightarrow> string \<Rightarrow> string \<Rightarrow> database \<Rightarrow> bool \<times> database" where
  "Connect_args ok h p u pw dbn d = Connect ok \<lparr>host = h, port = p, user = u, passwd = pw, db = dbn\<rparr> d"


section \<open>Queries\<close>

definition free_result :: "nat \<Rightarrow> database \<Rightarrow> database option" where
  "free_result p d = (if results d p = None then None else Some (d\<lparr>results := (results d)(p := None)\<rparr>))"

definition DoQuery :: "reply \<Rightarrow> string \<Rightarrow> database \<Rightarrow> (bool \<times> database) option" where
  "DoQuery r sql d =
     (let d = d\<lparr>m_last_sql := sql\<rparr>
      in if query_failed r then Some (False, d\<lparr>m_error := error_text r\<rparr>)
         else do {
           d \<leftarrow> (case m_result d of None \<Rightarrow> Some d | Some p \<Rightarrow> free_result p d);
           case stored r of
             Some rows \<Rightarrow>
               (let p = next_result d
                in Some (True, d\<lparr>m_result := Some p, next_result := p + 1, results := (results d)(p \<mapsto> \<lparr>r_rows = rows, r_next = 0\<rparr>)\<rparr>))
           | None \<Rightarrow>
               (let d = d\<lparr>m_result := None\<rparr>
                in if field_count r = 0 then Some (True, d\<lparr>m_num_rows := wrap32 (affected_rows r)\<rparr>)
                   else Some (False, d\<lparr>m_error := error_text r\<rparr>))
         })"




section \<open>Statements\<close>

definition quote :: string where
  "quote = [CHR 0x27]"

definition set_item :: "string \<times> string \<Rightarrow> string" where
  "set_item e = (if snd e = ''NULL'' \<or> snd e = ''null'' then fst e @ ''=NULL'' else fst e @ ''='' @ quote @ snd e @ quote)"

fun update_loop :: "bool \<Rightarrow> (string \<times> string) list \<Rightarrow> string \<Rightarrow> string" where
  \<comment> \<open>the loop of \<open>Update\<close>; the flag: \<open>iter == dat.begin()\<close>\<close>
  "update_loop first [] sql = sql"
| "update_loop first (e # dat) sql =
     (let sql = (if \<not> first then sql @ '','' else sql) in update_loop False dat (sql @ set_item e))"

definition Update_sql :: "string \<Rightarrow> (string \<times> string) list \<Rightarrow> string \<Rightarrow> string" where
  "Update_sql table dat cond =
     (let sql = update_loop True dat (''UPDATE '' @ table @ '' SET '')
      in if length cond \<noteq> 0 then sql @ '' WHERE '' @ cond else sql)"

definition Update :: "reply \<Rightarrow> string \<Rightarrow> (string \<times> string) list \<Rightarrow> string \<Rightarrow> database \<Rightarrow> (bool \<times> database) option" where
  "Update r table dat cond d = DoQuery r (Update_sql table dat cond) d"

fun insert_keys :: "bool \<Rightarrow> (string \<times> string) list \<Rightarrow> string \<Rightarrow> string" where
  "insert_keys first [] sql = sql"
| "insert_keys first (e # dat) sql = insert_keys False dat (if first then sql @ fst e else sql @ '','' @ fst e)"

fun insert_values :: "bool \<Rightarrow> (string \<times> string) list \<Rightarrow> string \<Rightarrow> string" where
  "insert_values first [] sql = sql"
| "insert_values first (e # dat) sql =
     insert_values False dat
       (if first
        then (if snd e = ''NULL'' \<or> snd e = ''null'' then sql @ ''NULL'' else sql @ quote @ snd e @ quote)
        else (if snd e = ''NULL'' \<or> snd e = ''null'' then sql @ '',NULL'' else sql @ '','' @ quote @ snd e @ quote))"

definition Insert_sql :: "string \<Rightarrow> (string \<times> string) list \<Rightarrow> string" where
  "Insert_sql table dat =
     (let sql = insert_keys True dat (''INSERT INTO '' @ table @ '' ('');
          sql = insert_values True dat (sql @ '') VALUES ('')
      in sql @ '')'')"

definition Insert :: "reply \<Rightarrow> string \<Rightarrow> (string \<times> string) list \<Rightarrow> database \<Rightarrow> (bool \<times> database) option" where
  "Insert r table dat d = DoQuery r (Insert_sql table dat) d"

section \<open>Results are freed once\<close>















section \<open>The text of the statements\<close>

definition literal :: "string \<Rightarrow> string" where
  "literal v = (if v = ''NULL'' \<or> v = ''null'' then ''NULL'' else quote @ v @ quote)"

fun join :: "string list \<Rightarrow> string" where
  "join [] = []"
| "join [x] = x"
| "join (x # y # xs) = x @ '','' @ join (y # xs)"

lemma join_snoc: "xs \<noteq> [] \<Longrightarrow> join (xs @ [y]) = join xs @ '','' @ y"
  by (induction xs rule: join.induct) auto

lemma join_Cons: "join (x # xs) = x @ (if xs = [] then [] else '','' @ join xs)"
  by (cases xs) auto

lemma set_item_literal: "set_item e = fst e @ ''='' @ literal (snd e)"
  by (simp add: set_item_def literal_def)

lemma update_loop_join:
  "update_loop first dat sql = sql @ (if dat = [] then [] else (if first then [] else '','') @ join (map set_item dat))"
proof (induction first dat sql rule: update_loop.induct)
  case (2 first e dat sql)
  show ?case unfolding update_loop.simps Let_def "2.IH" [OF refl] by (simp add: join_Cons)
qed simp

lemma insert_keys_join:
  "insert_keys first dat sql = sql @ (if dat = [] then [] else (if first then [] else '','') @ join (map fst dat))"
proof (induction first dat sql rule: insert_keys.induct)
  case (2 first e dat sql)
  show ?case unfolding insert_keys.simps "2.IH" by (simp add: join_Cons)
qed simp

lemma insert_values_join:
  "insert_values first dat sql = sql @ (if dat = [] then [] else (if first then [] else '','') @ join (map (literal \<circ> snd) dat))"
proof (induction first dat sql rule: insert_values.induct)
  case (2 first e dat sql)
  show ?case unfolding insert_values.simps "2.IH" by (simp add: join_Cons literal_def)
qed simp

text \<open>
  \<open>Insert\<close> and \<open>Update\<close> send the statement that lists the columns and their literals in the order of the map. The values
  are not escaped: one that contains a quotation mark can stand for the assignments of further columns.
\<close>
theorem db_statements:
  assumes "dat \<noteq> []"
  shows "Insert r table dat d = DoQuery r (''INSERT INTO '' @ table @ '' ('' @ join (map fst dat) @ '') VALUES ('' @
      join (map (literal \<circ> snd) dat) @ '')'') d \<and>
    Update r table dat cond d = DoQuery r (''UPDATE '' @ table @ '' SET '' @ join (map (\<lambda>(k, v). k @ ''='' @ literal v) dat) @
      (if cond = [] then [] else '' WHERE '' @ cond)) d \<and>
    (v \<notin> {''NULL'', ''null''} \<and> w \<notin> {''NULL'', ''null''} \<longrightarrow>
      Update r table [(k, v @ quote @ '','' @ k' @ ''='' @ quote @ w)] cond d = Update r table [(k, v), (k', w)] cond d)"
proof -
  have m: "map set_item dat = map (\<lambda>(k, v). k @ ''='' @ literal v) dat" by (auto simp: set_item_literal)
  have i: "Insert_sql table dat = ''INSERT INTO '' @ table @ '' ('' @ join (map fst dat) @ '') VALUES ('' @ join (map (literal \<circ> snd) dat) @ '')''"
    unfolding Insert_sql_def Let_def insert_keys_join insert_values_join using assms by simp
  have u: "Update_sql table es cond = ''UPDATE '' @ table @ '' SET '' @ join (map set_item es) @ (if cond = [] then [] else '' WHERE '' @ cond)"
    if "es \<noteq> []" for es
    unfolding Update_sql_def Let_def update_loop_join using that by simp
  have "v @ quote @ '','' @ k' @ ''='' @ quote @ w \<notin> {''NULL'', ''null''}"
  proof -
    have "CHR 0x27 \<in> set (v @ quote @ '','' @ k' @ ''='' @ quote @ w)" by (simp add: quote_def)
    moreover have "CHR 0x27 \<notin> set ''NULL''" "CHR 0x27 \<notin> set ''null''" by simp_all
    ultimately show ?thesis by (metis empty_iff insert_iff)
  qed
  then have "set_item (k, v @ quote @ '','' @ k' @ ''='' @ quote @ w) = set_item (k, v) @ '','' @ set_item (k', w)"
    if "v \<notin> {''NULL'', ''null''}" "w \<notin> {''NULL'', ''null''}" using that by (simp add: set_item_def)
  then have "Update_sql table [(k, v @ quote @ '','' @ k' @ ''='' @ quote @ w)] cond = Update_sql table [(k, v), (k', w)] cond"
    if "v \<notin> {''NULL'', ''null''}" "w \<notin> {''NULL'', ''null''}" using that by (simp only: u list.simps join.simps not_False_eq_True append_assoc)
  then show ?thesis unfolding Insert_def Update_def i u [OF assms] m by simp
qed

theorem db_statements_witness:
  "Update_sql ''t'' [(''a'', ''1'')] ''x=2'' = ''UPDATE t SET a='' @ quote @ ''1'' @ quote @ '' WHERE x=2'' \<and>
    Insert \<lparr>query_failed = True, stored = None, field_count = 0, affected_rows = 0, error_text = ''e''\<rparr> ''t'' [(''a'', ''null'')] CDatabase =
      DoQuery \<lparr>query_failed = True, stored = None, field_count = 0, affected_rows = 0, error_text = ''e''\<rparr> ''INSERT INTO t (a) VALUES (NULL)'' CDatabase"
  using db_statements [of "[(''a'', ''null'')]" "\<lparr>query_failed = True, stored = None, field_count = 0, affected_rows = 0, error_text = ''e''\<rparr>"
      "''t''" CDatabase]
  by (simp add: literal_def Update_sql_def set_item_def)

end
