(* ===== verification/Logger.thy ===== *)
theory Logger
  imports TimeTick
begin

text \<open>
  \<open>net/net_logger.h\<close>, \<open>net/net_logger.cc\<close>: \<open>CLogger\<close>, which appends lines to a file and changes files by number of lines,
  hour, day or month. The files are a map from names to contents that only the logger changes; the descriptor that
  \<open>open\<close> returns, the clock, \<open>localtime\<close> and the text that \<open>vsnprintf\<close> produces are arguments. The mutex is not modelled.
\<close>

type_synonym files = "string \<Rightarrow> string option"

record tm =
  tm_year :: int
  tm_mon :: int
  tm_mday :: int
  tm_hour :: int
  tm_min :: int
  tm_sec :: int

datatype change = LOG_CHANGE_MIN | LOG_CHANGE_HOUR | LOG_CHANGE_DAY | LOG_CHANGE_MONTH | LOG_CHANGE_NUM

definition kChangeLine :: u32 where "kChangeLine = 1000000"
definition kChangeLineFileNum :: nat where "kChangeLineFileNum = 10"
definition kChangeHourFileNum :: int where "kChangeHourFileNum = 3"

record logger =
  m_path :: string
  m_fd :: int
  m_log_level :: int
  m_change_type :: change
  m_count :: u32
  m_buf_len :: nat
  m_time :: tm
  m_last_time :: tm
  fs :: files

definition printf512 :: "string \<Rightarrow> string" where
  \<comment> \<open>\<open>snprintf\<close> to a buffer of 512 characters\<close>
  "printf512 s = take 511 s"

definition open_append :: "string \<Rightarrow> int \<Rightarrow> files \<Rightarrow> files" where
  "open_append p fd f = (if fd < 0 \<or> f p \<noteq> None then f else f(p \<mapsto> []))"

definition rename_file :: "string \<Rightarrow> string \<Rightarrow> files \<Rightarrow> files" where
  "rename_file a b f = (case f a of None \<Rightarrow> f | Some x \<Rightarrow> (f(a := None))(b \<mapsto> x))"

definition Init :: "string \<Rightarrow> int \<Rightarrow> logger \<Rightarrow> bool \<times> logger" where
  "Init path fd g =
     (let g = g\<lparr>m_path := path, m_fd := fd, fs := open_append path fd (fs g)\<rparr> in (if m_fd g < 0 then False else True, g))"

definition CLogger :: "string \<Rightarrow> int \<Rightarrow> tm \<Rightarrow> files \<Rightarrow> logger option" where
  \<comment> \<open>\<open>None\<close>: the exception when the file cannot be opened\<close>
  "CLogger log_file fd now f =
     (case Init log_file fd \<lparr>m_path = [], m_fd = -1, m_log_level = 2, m_change_type = LOG_CHANGE_NUM, m_count = 0,
         m_buf_len = 1024 * 100, m_time = now, m_last_time = now, fs = f\<rparr> of
        (ok, g) \<Rightarrow> if ok then Some g else None)"

section \<open>Changing files\<close>

definition numbered :: "string \<Rightarrow> nat \<Rightarrow> string" where
  \<comment> \<open>the names of the files by number: the current one is number 0\<close>
  "numbered path i = (if i = 0 then printf512 path else printf512 (path @ ''.'' @ show_nat i))"

fun change_num_loop :: "string \<Rightarrow> nat \<Rightarrow> files \<Rightarrow> files" where
  "change_num_loop path 0 f = f"
| "change_num_loop path (Suc i) f = change_num_loop path i (rename_file (numbered path i) (numbered path (Suc i)) f)"

definition ChangeNum :: "int \<Rightarrow> logger \<Rightarrow> logger" where
  "ChangeNum fd g =
     (if m_count g mod kChangeLine \<noteq> 0 then g
      else if m_fd g < 0 then g
      else g\<lparr>m_fd := fd, fs := open_append (m_path g) fd (change_num_loop (m_path g) (kChangeLineFileNum - 1) (fs g))\<rparr>)"

definition stamp_month :: "tm \<Rightarrow> string" where
  "stamp_month t = zero_padded 4 (1900 + tm_year t) @ zero_padded 2 (tm_mon t + 1)"

definition stamp_day :: "tm \<Rightarrow> string" where
  "stamp_day t = stamp_month t @ zero_padded 2 (tm_mday t)"

definition stamp_hour :: "tm \<Rightarrow> string" where
  "stamp_hour t = stamp_day t @ zero_padded 2 (tm_hour t)"

definition DeleteHistory :: "(int \<Rightarrow> tm) \<Rightarrow> int \<Rightarrow> logger \<Rightarrow> logger" where
  "DeleteHistory localtime now g =
     (case m_change_type g of
        LOG_CHANGE_HOUR \<Rightarrow>
          g\<lparr>fs := (fs g)(printf512 (m_path g @ ''.'' @ stamp_hour (localtime (now - kChangeHourFileNum * 3600))) := None)\<rparr>
      | LOG_CHANGE_DAY \<Rightarrow>
          g\<lparr>fs := (fs g)(printf512 (m_path g @ ''.'' @ stamp_day (localtime (now - kChangeHourFileNum * 3600 * 24))) := None)\<rparr>
      | LOG_CHANGE_MONTH \<Rightarrow>
          g\<lparr>fs := (fs g)(printf512 (m_path g @ ''.'' @ stamp_month (localtime (now - kChangeHourFileNum * 3600 * 24 * 30))) := None)\<rparr>
      | _ \<Rightarrow> g)"

definition change_to :: "string \<Rightarrow> int \<Rightarrow> (int \<Rightarrow> tm) \<Rightarrow> int \<Rightarrow> logger \<Rightarrow> logger" where
  \<comment> \<open>the end of the three changes by time: rename, open a new file, delete an old one\<close>
  "change_to stamp fd localtime now g =
     DeleteHistory localtime now
       (g\<lparr>fs := open_append (m_path g) fd (rename_file (m_path g) (printf512 (m_path g @ ''.'' @ stamp)) (fs g)),
          m_last_time := m_time g, m_fd := fd\<rparr>)"

definition ChangeHour :: "int \<Rightarrow> (int \<Rightarrow> tm) \<Rightarrow> int \<Rightarrow> logger \<Rightarrow> logger" where
  "ChangeHour fd localtime now g =
     (if tm_hour (m_last_time g) = tm_hour (m_time g) then g
      else if m_fd g < 0 then g
      else change_to (stamp_hour (m_last_time g)) fd localtime now g)"

definition ChangeDay :: "int \<Rightarrow> (int \<Rightarrow> tm) \<Rightarrow> int \<Rightarrow> logger \<Rightarrow> logger" where
  "ChangeDay fd localtime now g =
     (if tm_mday (m_last_time g) = tm_mday (m_time g) then g
      else if m_fd g < 0 then g
      else change_to (stamp_day (m_last_time g)) fd localtime now g)"

definition ChangeMonth :: "int \<Rightarrow> (int \<Rightarrow> tm) \<Rightarrow> int \<Rightarrow> logger \<Rightarrow> logger" where
  "ChangeMonth fd localtime now g =
     (if tm_mon (m_last_time g) = tm_mon (m_time g) then g
      else if m_fd g < 0 then g
      else change_to (stamp_month (m_last_time g)) fd localtime now g)"

definition ChangeFile :: "int \<Rightarrow> (int \<Rightarrow> tm) \<Rightarrow> int \<Rightarrow> logger \<Rightarrow> logger" where
  "ChangeFile fd localtime now g =
     (case m_change_type g of
        LOG_CHANGE_NUM \<Rightarrow> ChangeNum fd g
      | LOG_CHANGE_HOUR \<Rightarrow> ChangeHour fd localtime now g
      | LOG_CHANGE_MONTH \<Rightarrow> ChangeMonth fd localtime now g
      | LOG_CHANGE_DAY \<Rightarrow> ChangeDay fd localtime now g
      | LOG_CHANGE_MIN \<Rightarrow> g)"

section \<open>Writing\<close>

definition time_text :: "tm \<Rightarrow> string" where
  "time_text t = ''['' @ zero_padded 4 (1900 + tm_year t) @ ''-'' @ zero_padded 2 (tm_mon t + 1) @ ''-'' @ zero_padded 2 (tm_mday t) @ '' '' @
     zero_padded 2 (tm_hour t) @ '':'' @ zero_padded 2 (tm_min t) @ '':'' @ zero_padded 2 (tm_sec t) @ '']''"

definition append_file :: "string \<Rightarrow> logger \<Rightarrow> logger" where
  \<comment> \<open>\<open>write\<close> to the open file, which is the one named \<open>m_path\<close>; with a descriptor below zero it fails\<close>
  "append_file x g =
     (if m_fd g < 0 then g
      else g\<lparr>fs := (fs g)(m_path g \<mapsto> (case fs g (m_path g) of None \<Rightarrow> [] | Some y \<Rightarrow> y) @ x)\<rparr>)"

definition Log :: "int \<Rightarrow> (int \<Rightarrow> tm) \<Rightarrow> int \<Rightarrow> int \<Rightarrow> string \<Rightarrow> logger \<Rightarrow> logger" where
  \<comment> \<open>\<open>text\<close>: the complete output of \<open>vsnprintf\<close>, of which the buffer takes the beginning\<close>
  "Log fd localtime now level msg g =
     (if m_fd g < 0 then g
      else if level < m_log_level g then g
      else let buf = take (m_buf_len g - 1) msg;
               g = g\<lparr>m_time := localtime now\<rparr>;
               time_tmp = take 29 (time_text (m_time g));
               g = ChangeFile fd localtime now (g\<lparr>m_count := m_count g + 1\<rparr>)
           in append_file (c_str buf) (append_file time_tmp g))"

section \<open>Files by number\<close>

lemma numbered_simps: "length path \<le> 500 \<Longrightarrow> i < 10 \<Longrightarrow> numbered path i = (if i = 0 then path else path @ ''.'' @ show_nat i)"
  by (auto simp: numbered_def printf512_def show_nat.simps)

lemma show_nat_inj: "show_nat i = show_nat j \<Longrightarrow> i = j"
  by (metis show_nat_digits)

lemma numbered_inj:
  assumes "length path \<le> 500" and "i < 10" and "j < 10" and "numbered path i = numbered path j"
  shows "i = j"
  using assms show_nat_inj by (auto simp: numbered_simps split: if_splits)

lemma change_num_loop_other: "x \<notin> numbered path ` {..n} \<Longrightarrow> change_num_loop path n f x = f x"
proof (induction n arbitrary: f)
  case (Suc n)
  have "x \<noteq> numbered path n" "x \<noteq> numbered path (Suc n)" "x \<notin> numbered path ` {..n}" using Suc.prems by auto
  then show ?case using Suc.IH [of "rename_file (numbered path n) (numbered path (Suc n)) f"]
    by (auto simp: rename_file_def split: option.splits)
qed simp

lemma change_num_loop_moves:
  assumes "length path \<le> 500" and "n < 10" and "j \<le> n" and "0 < n"
  shows "change_num_loop path n f (numbered path j) =
      (if j = 0 then None
       else if j = n \<and> f (numbered path (j - 1)) = None then f (numbered path j) else f (numbered path (j - 1)))"
  using assms(2-4)
proof (induction n arbitrary: f j)
  case (Suc n)
  define f1 where "f1 = rename_file (numbered path n) (numbered path (Suc n)) f"
  have inj: "numbered path i = numbered path k \<longleftrightarrow> i = k" if "i \<le> Suc n" "k \<le> Suc n" for i k
    using numbered_inj [OF assms(1)] that Suc.prems(1) by auto
  have f1: "f1 (numbered path n) = None"
    "f1 (numbered path (Suc n)) = (if f (numbered path n) = None then f (numbered path (Suc n)) else f (numbered path n))"
    "i < n \<Longrightarrow> f1 (numbered path i) = f (numbered path i)" for i
    using inj by (auto simp: f1_def rename_file_def split: option.splits)
  have step: "change_num_loop path (Suc n) f = change_num_loop path n f1" by (simp add: f1_def)
  show ?case
  proof (cases "j = Suc n")
    case True
    then have "numbered path j \<notin> numbered path ` {..n}" using inj by auto
    then have "change_num_loop path n f1 (numbered path j) = f1 (numbered path j)" by (rule change_num_loop_other)
    then show ?thesis using True f1(2) step by simp
  next
    case False
    then have j: "j \<le> n" using Suc.prems(2) by simp
    show ?thesis
    proof (cases "n = 0")
      case True
      then show ?thesis using j f1(1) step by simp
    next
      case nz: False
      have "change_num_loop path n f1 (numbered path j) =
        (if j = 0 then None
         else if j = n \<and> f1 (numbered path (j - 1)) = None then f1 (numbered path j) else f1 (numbered path (j - 1)))"
        using Suc.IH [of j f1] Suc.prems(1) j nz by simp
      then show ?thesis using j nz f1(1) f1(3) [of "j - 1"] step by auto
    qed
  qed
qed simp

section \<open>One line\<close>

definition num_logger :: "logger \<Rightarrow> bool" where
  \<comment> \<open>an open logger that changes files by number, with a name of at most 500 characters\<close>
  "num_logger g \<longleftrightarrow> 0 \<le> m_fd g \<and> m_change_type g = LOG_CHANGE_NUM \<and> length (m_path g) \<le> 500 \<and> fs g (m_path g) \<noteq> None"

definition line :: "(int \<Rightarrow> tm) \<Rightarrow> int \<Rightarrow> string \<Rightarrow> logger \<Rightarrow> string" where
  \<comment> \<open>what one call writes\<close>
  "line localtime now msg g = take 29 (time_text (localtime now)) @ c_str (take (m_buf_len g - 1) msg)"

definition rotates :: "logger \<Rightarrow> bool" where
  "rotates g \<longleftrightarrow> (m_count g + 1) mod kChangeLine = 0"

definition file_no :: "logger \<Rightarrow> nat \<Rightarrow> string option" where
  "file_no g i = fs g (numbered (m_path g) i)"

lemma numbered_0: "length path \<le> 500 \<Longrightarrow> numbered path 0 = path"
  by (simp add: numbered_simps)

lemma Log_num:
  fixes localtime :: "int \<Rightarrow> tm" and now :: int and msg :: string
  assumes g: "num_logger g" and fd: "0 \<le> fd" and lv: "m_log_level g \<le> level"
  defines "g' \<equiv> Log fd localtime now level msg g"
  shows "num_logger g'" and "m_path g' = m_path g" and "m_count g' = m_count g + 1" and "m_buf_len g' = m_buf_len g"
    and "m_log_level g' = m_log_level g"
    and "file_no g' 0 = Some ((if rotates g then [] else the (file_no g 0)) @ line localtime now msg g)"
    and "0 < j \<Longrightarrow> j < 10 \<Longrightarrow> file_no g' j =
      (if \<not> rotates g then file_no g j else if j = 9 \<and> file_no g 8 = None then file_no g 9 else file_no g (j - 1))"
    and "x \<notin> numbered (m_path g) ` {..9} \<Longrightarrow> fs g' x = fs g x"
proof -
  define p where "p = m_path g"
  have G: "0 \<le> m_fd g" "m_change_type g = LOG_CHANGE_NUM" "length p \<le> 500" "fs g p \<noteq> None" using g by (auto simp: num_logger_def p_def)
  define f1 where "f1 = (if rotates g then open_append p fd (change_num_loop p 9 (fs g)) else fs g)"
  define g1 where "g1 = g\<lparr>m_time := localtime now, m_count := m_count g + 1, m_fd := (if rotates g then fd else m_fd g), fs := f1\<rparr>"
  have cf: "ChangeFile fd localtime now (g\<lparr>m_time := localtime now, m_count := m_count g + 1\<rparr>) = g1"
    using G(1,2) by (simp add: ChangeFile_def ChangeNum_def g1_def f1_def rotates_def kChangeLineFileNum_def p_def)
  have n0: "numbered p 0 = p" by (rule numbered_0 [OF G(3)])
  have "change_num_loop p 9 (fs g) p = None" using change_num_loop_moves [OF G(3), of 9 0 "fs g"] n0 by simp
  then have f1p: "f1 p = Some (if rotates g then [] else the (fs g p))" using fd G(4) by (auto simp: f1_def open_append_def)
  have f1o: "f1 y = (if rotates g then change_num_loop p 9 (fs g) y else fs g y)" if "y \<noteq> p" for y
    using that by (simp add: f1_def open_append_def)
  have fd1: "\<not> m_fd g1 < 0" using G(1) fd by (simp add: g1_def)
  have g': "g' = g1\<lparr>fs := f1(p \<mapsto> the (f1 p) @ line localtime now msg g)\<rparr>"
  proof -
    have "append_file x (append_file y g1) = g1\<lparr>fs := f1(p \<mapsto> the (f1 p) @ y @ x)\<rparr>" for x y
      using fd1 f1p by (simp add: append_file_def g1_def p_def)
    then show ?thesis using G(1) lv cf by (simp add: g'_def Log_def Let_def line_def g1_def)
  qed
  have fs': "fs g' = f1(p \<mapsto> the (f1 p) @ line localtime now msg g)" by (simp add: g')
  show path: "m_path g' = m_path g" "m_count g' = m_count g + 1" "m_buf_len g' = m_buf_len g" "m_log_level g' = m_log_level g"
    by (simp_all add: g' g1_def)
  show "num_logger g'" using G fd fd1 by (simp add: num_logger_def g' g1_def p_def)
  show "file_no g' 0 = Some ((if rotates g then [] else the (file_no g 0)) @ line localtime now msg g)"
    using f1p n0 by (simp add: file_no_def path fs' flip: p_def)
  show "fs g' x = fs g x" if "x \<notin> numbered (m_path g) ` {..9}"
  proof -
    have "x \<noteq> p" using that n0 p_def by (metis atMost_iff image_eqI zero_le)
    then show ?thesis using change_num_loop_other [of x p 9 "fs g"] that f1o fs' by (simp add: p_def)
  qed
  show "file_no g' j = (if \<not> rotates g then file_no g j else if j = 9 \<and> file_no g 8 = None then file_no g 9 else file_no g (j - 1))"
    if j: "0 < j" "j < 10"
  proof -
    have ne: "numbered p j \<noteq> p" using numbered_inj [OF G(3), of j 0] n0 j by auto
    then have "file_no g' j = f1 (numbered p j)" by (simp add: file_no_def path fs' flip: p_def)
    moreover have "change_num_loop p 9 (fs g) (numbered p j) =
        (if j = 9 \<and> fs g (numbered p (j - 1)) = None then fs g (numbered p j) else fs g (numbered p (j - 1)))"
      using change_num_loop_moves [OF G(3), of 9 j "fs g"] j by simp
    ultimately show ?thesis using f1o [OF ne] by (auto simp: file_no_def p_def)
  qed
qed

section \<open>Any number of lines\<close>

definition contents :: "logger \<Rightarrow> nat \<Rightarrow> string" where
  "contents g i = (case file_no g i of None \<Rightarrow> [] | Some x \<Rightarrow> x)"

definition history :: "logger \<Rightarrow> string" where
  \<comment> \<open>the files, oldest first\<close>
  "history g = concat (map (contents g) [9, 8, 7, 6, 5, 4, 3, 2, 1, 0])"

definition no_gap :: "logger \<Rightarrow> bool" where
  "no_gap g \<longleftrightarrow> (\<forall>i < 9. file_no g i = None \<longrightarrow> file_no g (Suc i) = None)"

lemma Log_history:
  fixes localtime :: "int \<Rightarrow> tm" and now :: int and msg :: string
  assumes g: "num_logger g" and gap: "no_gap g" and fd: "0 \<le> fd" and lv: "m_log_level g \<le> level"
  defines "g' \<equiv> Log fd localtime now level msg g"
  shows "no_gap g'" and "history g' = drop (if rotates g then length (contents g 9) else 0) (history g) @ line localtime now msg g"
proof -
  have n: "file_no g' j = (if \<not> rotates g then file_no g j else if j = 9 \<and> file_no g 8 = None then file_no g 9 else file_no g (j - 1))"
    if "0 < j" "j < 10" for j
    unfolding g'_def by (rule Log_num(7) [OF g fd lv that])
  have n0: "file_no g' 0 = Some ((if rotates g then [] else the (file_no g 0)) @ line localtime now msg g)"
    unfolding g'_def by (rule Log_num(6) [OF g fd lv])
  have last: "file_no g 8 = None \<Longrightarrow> file_no g 9 = None" using gap by (simp add: no_gap_def numeral_eq_Suc)
  have "file_no g 0 \<noteq> None" using g numbered_0 by (simp add: num_logger_def file_no_def)
  then have c0: "contents g' 0 = (if rotates g then [] else contents g 0) @ line localtime now msg g" using n0 by (auto simp: contents_def)
  have c: "contents g' j = (if rotates g then contents g (j - 1) else contents g j)" if "0 < j" "j < 10" for j
    using n [OF that] last by (auto simp: contents_def)
  show "history g' = drop (if rotates g then length (contents g 9) else 0) (history g) @ line localtime now msg g"
    by (simp add: history_def c0 c)
  show "no_gap g'"
    unfolding no_gap_def
  proof (intro allI impI)
    fix i assume i: "(i :: nat) < 9" "file_no g' i = None"
    have step: "file_no g k = None \<Longrightarrow> file_no g (Suc k) = None" if "k < 9" for k using gap that by (simp add: no_gap_def)
    have "0 < i" using i(2) n0 by (cases i) auto
    then show "file_no g' (Suc i) = None"
      using i n [of i] n [of "Suc i"] step [of i] step [of "i - 1"] last by (auto split: if_splits)
  qed
qed

type_synonym log_call = "int \<times> int \<times> int \<times> string"

definition log_call :: "(int \<Rightarrow> tm) \<Rightarrow> log_call \<Rightarrow> logger \<Rightarrow> logger" where
  \<comment> \<open>the descriptor a new file would get, the time, the level and the text\<close>
  "log_call localtime e g = (case e of (fd, now, level, msg) \<Rightarrow> Log fd localtime now level msg g)"

definition lines_of :: "(int \<Rightarrow> tm) \<Rightarrow> log_call list \<Rightarrow> logger \<Rightarrow> string" where
  \<comment> \<open>what the calls of a sufficient level write\<close>
  "lines_of localtime es g =
     concat (map (\<lambda>(fd, now, level, msg). if level < m_log_level g then [] else line localtime now msg g) es)"

lemma log_calls_history:
  assumes "num_logger g" and "no_gap g" and "\<forall>e \<in> set es. 0 \<le> fst e"
  shows "num_logger (fold (log_call localtime) es g) \<and> no_gap (fold (log_call localtime) es g) \<and>
    (\<exists>lost. history g @ lines_of localtime es g = lost @ history (fold (log_call localtime) es g) \<and>
      (unat (m_count g) mod 1000000 + length es < 1000000 \<and> unat (m_count g) + length es < 2 ^ 32 \<longrightarrow> lost = [])) \<and>
    (\<forall>x. x \<notin> numbered (m_path g) ` {..9} \<longrightarrow> fs (fold (log_call localtime) es g) x = fs g x)"
  using assms
proof (induction es arbitrary: g)
  case Nil
  then show ?case by (simp add: lines_of_def)
next
  case (Cons e es)
  obtain fd now level msg where e: "e = (fd, now, level, msg)" by (cases e) auto
  define g1 where "g1 = log_call localtime e g"
  show ?case
  proof (cases "level < m_log_level g")
    case True
    then have "g1 = g" by (simp add: g1_def log_call_def e Log_def)
    moreover have "lines_of localtime (e # es) g = lines_of localtime es g" using True by (simp add: lines_of_def e)
    ultimately show ?thesis using Cons.IH [OF Cons.prems(1,2)] Cons.prems(3) unfolding g1_def by (auto simp: e)
  next
    case False
    then have lv: "m_log_level g \<le> level" by simp
    have fd: "0 \<le> fd" using Cons.prems(3) e by simp
    have eq: "g1 = Log fd localtime now level msg g" by (simp add: g1_def log_call_def e)
    note N = Log_num [OF Cons.prems(1) fd lv, where localtime = localtime and now = now and msg = msg, folded eq]
    note H = Log_history [OF Cons.prems(1,2) fd lv, where localtime = localtime and now = now and msg = msg, folded eq]
    obtain lost where I: "num_logger (fold (log_call localtime) es g1)" "no_gap (fold (log_call localtime) es g1)"
      "history g1 @ lines_of localtime es g1 = lost @ history (fold (log_call localtime) es g1)"
      "unat (m_count g1) mod 1000000 + length es < 1000000 \<and> unat (m_count g1) + length es < 2 ^ 32 \<Longrightarrow> lost = []"
      "\<forall>x. x \<notin> numbered (m_path g1) ` {..9} \<longrightarrow> fs (fold (log_call localtime) es g1) x = fs g1 x"
      using Cons.IH [OF N(1) H(1)] Cons.prems(3) by auto
    have "line localtime n m g1 = line localtime n m g" for n m using N(4) by (simp add: line_def)
    then have ln: "lines_of localtime es g1 = lines_of localtime es g" using N(5) by (simp add: lines_of_def cong: if_cong)
    have hd: "lines_of localtime (e # es) g = line localtime now msg g @ lines_of localtime es g" using False by (simp add: lines_of_def e)
    define k where "k = (if rotates g then length (contents g 9) else 0)"
    have "history g @ lines_of localtime (e # es) g = take k (history g) @ drop k (history g) @ line localtime now msg g @ lines_of localtime es g"
      by (simp add: hd)
    also have "\<dots> = take k (history g) @ lost @ history (fold (log_call localtime) es g1)"
      using I(3) H(2) ln by (simp add: k_def)
    finally have eqn: "history g @ lines_of localtime (e # es) g = (take k (history g) @ lost) @ history (fold (log_call localtime) es g1)" by simp
    have "take k (history g) @ lost = []"
      if b: "unat (m_count g) mod 1000000 + length (e # es) < 1000000" "unat (m_count g) + length (e # es) < 2 ^ 32"
    proof -
      have c: "unat (m_count g + 1) = unat (m_count g) + 1" using b(2) by (subst unat_add_small) simp_all
      have m: "(unat (m_count g) + 1) mod 1000000 = unat (m_count g) mod 1000000 + 1" using b(1) by (simp add: mod_Suc)
      have "unat ((m_count g + 1) mod kChangeLine) = (unat (m_count g) + 1) mod 1000000" using c by (simp add: unat_mod kChangeLine_def)
      then have "\<not> rotates g" using m unfolding rotates_def by (metis add_is_0 one_neq_zero unat_0)
      moreover have "lost = []" using I(4) b c m N(3) by simp
      ultimately show ?thesis by (simp add: k_def)
    qed
    then show ?thesis using I(1,2,5) eqn N(2,8) by (auto simp: g1_def)
  qed
qed

text \<open>
  C21: With files changed by number, the ten files read from the oldest to the current one always hold an unbroken end of
  everything that was written, nothing is lost before the first change, and no other file is touched.
\<close>
theorem logger_history:
  assumes "num_logger g" and "no_gap g" and "\<forall>e \<in> set es. 0 \<le> fst e"
  shows "\<exists>lost. history g @ lines_of localtime es g = lost @ history (fold (log_call localtime) es g) \<and>
    (unat (m_count g) mod 1000000 + length es < 1000000 \<and> unat (m_count g) + length es < 2 ^ 32 \<longrightarrow> lost = []) \<and>
    (\<forall>x. x \<notin> numbered (m_path g) ` {..9} \<longrightarrow> fs (fold (log_call localtime) es g) x = fs g x)"
  using log_calls_history [OF assms, where localtime = localtime] by blast

text \<open>
  One call that changes files: the current file becomes number 1 and starts anew with the line, every other file moves
  up by one number, and only the last is overwritten.
\<close>
theorem logger_rotation:
  assumes "num_logger g" and "0 \<le> fd" and "m_log_level g \<le> level" and "(m_count g + 1) mod 1000000 = 0"
  shows "file_no (Log fd localtime now level msg g) 0 = Some (line localtime now msg g) \<and>
    (\<forall>j. 0 < j \<and> j < 9 \<longrightarrow> file_no (Log fd localtime now level msg g) j = file_no g (j - 1)) \<and>
    file_no (Log fd localtime now level msg g) 9 = (if file_no g 8 = None then file_no g 9 else file_no g 8)"
proof -
  have "rotates g" using assms(4) by (simp add: rotates_def kChangeLine_def)
  then show ?thesis using Log_num(6,7) [OF assms(1-3), where localtime = localtime and now = now and msg = msg] by auto
qed

definition logger_example :: logger where
  "logger_example = \<lparr>m_path = ''a'', m_fd = 3, m_log_level = 2, m_change_type = LOG_CHANGE_NUM, m_count = 999999, m_buf_len = 102400,
     m_time = \<lparr>tm_year = 115, tm_mon = 0, tm_mday = 1, tm_hour = 0, tm_min = 0, tm_sec = 0\<rparr>,
     m_last_time = \<lparr>tm_year = 115, tm_mon = 0, tm_mday = 1, tm_hour = 0, tm_min = 0, tm_sec = 0\<rparr>, fs = [''a'' \<mapsto> ''old'']\<rparr>"

definition time_example :: "int \<Rightarrow> tm" where
  "time_example t = \<lparr>tm_year = 115, tm_mon = 0, tm_mday = 1, tm_hour = 0, tm_min = 0, tm_sec = t\<rparr>"

lemma logger_example_ok: "num_logger logger_example" "no_gap logger_example"
  by (auto simp: num_logger_def no_gap_def logger_example_def file_no_def numbered_simps split: if_splits)

theorem logger_history_witness:
  "\<exists>lost. history logger_example @ lines_of time_example [(3, 5, 2, ''x'')] logger_example =
    lost @ history (fold (log_call time_example) [(3, 5, 2, ''x'')] logger_example)"
  using logger_history [OF logger_example_ok, where es = "[(3, 5, 2, ''x'')]" and localtime = time_example] by auto

theorem logger_rotation_witness:
  "file_no (Log 3 time_example 5 2 ''x'' logger_example) 1 = Some ''old''"
  using logger_rotation [OF logger_example_ok(1), of 3 2 time_example 5 "''x''"]
  by (simp add: logger_example_def file_no_def numbered_simps)

end
