(* ===== verification/FileSystem.thy ===== *)
theory FileSystem
  imports CString
begin

text \<open>
  What \<open>utils/file.cpp\<close> uses of the operating system, by its documented behaviour: a tree of files, directories and symbolic links,
  the look-up of a path, and the calls \<open>stat\<close>, \<open>access\<close>, \<open>open\<close>, \<open>opendir\<close>, \<open>readdir\<close>, \<open>remove\<close>, \<open>mkdir\<close>, \<open>symlink\<close>,
  \<open>getcwd\<close>. A location is the list of names from the root; the list of entries is in the order in which \<open>readdir\<close> returns them.
  Which directories can be read and which entries can be removed is part of the state. Other reasons for a call to fail are
  arguments of the calls. A path ends at its end, not at a NUL.
\<close>

datatype node = Reg string | Directory | Link string

type_synonym location = "string list"

record files =
  entries :: "(location \<times> node) list"
  cwd :: location
  may_list :: "location \<Rightarrow> bool"
  may_remove :: "location \<Rightarrow> bool"

definition node_at :: "files \<Rightarrow> location \<Rightarrow> node option" where
  "node_at f l = (if l = [] then Some Directory else map_of (entries f) l)"

fun split_slash :: "string \<Rightarrow> string list" where
  "split_slash [] = [[]]"
| "split_slash (c # s) = 
     (if c = CHR ''/'' then [] # split_slash s else case split_slash s of [] \<Rightarrow> [[c]] | n # ns \<Rightarrow> (c # n) # ns)"

definition start :: "location \<Rightarrow> string \<Rightarrow> location" where
  \<comment> \<open>where the look-up of a path begins\<close>
  "start cur path = (if path \<noteq> [] \<and> hd path = CHR ''/'' then [] else cur)"

function resolve :: "files \<Rightarrow> bool \<Rightarrow> nat \<Rightarrow> location \<Rightarrow> string list \<Rightarrow> location option" where
  \<comment> \<open>the location of the names from \<open>cur\<close> on; a link at the end is followed if \<open>fin\<close>; at most \<open>n\<close> links are followed. The last name
      need not exist.\<close>
  "resolve f fin n cur [] = Some cur"
| "resolve f fin n cur (c # cs) =
     (if node_at f cur \<noteq> Some Directory then None
      else if c = [] \<or> c = ''.'' then resolve f fin n cur cs
      else if c = ''..'' then resolve f fin n (butlast cur) cs
      else case node_at f (cur @ [c]) of
        Some (Link t) \<Rightarrow>
          if cs = [] \<and> \<not> fin then Some (cur @ [c])
          else if n = 0 then None
          else resolve f fin (n - 1) (start cur t) (split_slash t @ cs)
      | _ \<Rightarrow> resolve f fin n (cur @ [c]) cs)"
  by pat_completeness auto
termination
  by (relation "measures [\<lambda>(f, fin, n, cur, cs). n, \<lambda>(f, fin, n, cur, cs). length cs]") auto

declare resolve.simps(2) [simp del]

definition locate :: "bool \<Rightarrow> string \<Rightarrow> files \<Rightarrow> location option" where
  "locate fin path f = (if path = [] then None else resolve f fin 40 (start (cwd f) path) (split_slash path))"

definition stat :: "string \<Rightarrow> files \<Rightarrow> node option" where
  "stat path f = (case locate True path f of None \<Rightarrow> None | Some l \<Rightarrow> node_at f l)"

definition set_at :: "location \<Rightarrow> node \<Rightarrow> files \<Rightarrow> files" where
  "set_at l x f =
     f\<lparr>entries := (if map_of (entries f) l = None then entries f @ [(l, x)]
                  else map (\<lambda>(k, y). if k = l then (k, x) else (k, y)) (entries f))\<rparr>"

definition without :: "location set \<Rightarrow> files \<Rightarrow> files" where
  "without X f = f\<lparr>entries := filter (\<lambda>e. fst e \<notin> X) (entries f)\<rparr>"

definition text_at :: "location \<Rightarrow> files \<Rightarrow> string" where
  "text_at l f = (case node_at f l of Some (Reg s) \<Rightarrow> s | _ \<Rightarrow> [])"

definition open_out :: "bool \<Rightarrow> string \<Rightarrow> files \<Rightarrow> location option" where
  \<comment> \<open>\<open>open\<close> for writing: the file, which need not exist; \<open>ok\<close>: the system allows it\<close>
  "open_out ok path f =
     (case locate True path f of None \<Rightarrow> None | Some l \<Rightarrow> if ok \<and> node_at f l \<noteq> Some Directory then Some l else None)"

definition opendir :: "string \<Rightarrow> files \<Rightarrow> location option" where
  "opendir path f =
     (case locate True path f of None \<Rightarrow> None | Some l \<Rightarrow> if node_at f l = Some Directory \<and> may_list f l then Some l else None)"

definition readdir :: "location \<Rightarrow> files \<Rightarrow> string list" where
  \<comment> \<open>the names in a directory besides \<open>.\<close> and \<open>..\<close>\<close>
  "readdir l f = map last (filter (\<lambda>k. k \<noteq> [] \<and> butlast k = l) (map fst (entries f)))"

definition remove_path :: "string \<Rightarrow> files \<Rightarrow> bool \<times> files" where
  \<comment> \<open>\<open>remove\<close>: a file, a link (not what it leads to), or a directory that is empty; not one named by \<open>.\<close> or \<open>..\<close>\<close>
  "remove_path path f =
     (case locate False path f of
        None \<Rightarrow> (False, f)
      | Some l \<Rightarrow>
          if l = [] \<or> node_at f l = None \<or> \<not> may_remove f l then (False, f)
          else if last (''/'' # filter (\<lambda>n. n \<noteq> []) (split_slash path)) \<in> {''.'', ''..''} then (False, f)
          else if node_at f l = Some Directory \<and> list_ex (\<lambda>e. strict_prefix l (fst e)) (entries f) then (False, f)
          else (True, without {l} f))"

definition make_at :: "bool \<Rightarrow> string \<Rightarrow> node \<Rightarrow> files \<Rightarrow> bool \<times> files" where
  \<comment> \<open>\<open>mkdir\<close> and \<open>symlink\<close>\<close>
  "make_at ok path x f =
     (case locate False path f of
        None \<Rightarrow> (False, f)
      | Some l \<Rightarrow> if ok \<and> node_at f l = None then (True, set_at l x f) else (False, f))"

definition symlink :: "bool \<Rightarrow> string \<Rightarrow> string \<Rightarrow> files \<Rightarrow> bool \<times> files" where
  "symlink ok src dst f = (if src = [] then (False, f) else make_at ok dst (Link src) f)"

definition getcwd :: "nat \<Rightarrow> files \<Rightarrow> string option" where
  \<comment> \<open>a null pointer if the path and its NUL do not fit\<close>
  "getcwd len f =
     (let p = (if cwd f = [] then ''/'' else concat (map (\<lambda>n. CHR ''/'' # n) (cwd f))) in if length p < len then Some p else None)"

section \<open>Look-ups\<close>

lemma node_at_Nil [simp]: "node_at f [] = Some Directory"
  by (simp add: node_at_def)

lemma node_at_without: "node_at (without X f) l = (if l \<noteq> [] \<and> l \<in> X then None else node_at f l)"
proof -
  have "map_of (filter (\<lambda>e. fst e \<notin> X) es) l = (if l \<in> X then None else map_of es l)" for es :: "(location \<times> node) list"
    by (induction es) auto
  then show ?thesis by (simp add: node_at_def without_def)
qed

lemma without_same [simp]:
  "cwd (without X f) = cwd f" "may_list (without X f) = may_list f" "may_remove (without X f) = may_remove f"
  by (simp_all add: without_def)

lemma without_without: "without X (without Y f) = without (X \<union> Y) f"
  by (auto simp: without_def intro!: arg_cong [where f = "\<lambda>e. f\<lparr>entries := e\<rparr>"] filter_cong)

lemma set_at_fields [simp]: "cwd (set_at l x f) = cwd f" "may_list (set_at l x f) = may_list f" "may_remove (set_at l x f) = may_remove f"
  by (simp_all add: set_at_def)

lemma node_at_set_at: "l \<noteq> [] \<Longrightarrow> node_at (set_at l x f) k = (if k = l then Some x else node_at f k)"
proof -
  have "map_of (map (\<lambda>(k, y). if k = l then (k, x) else (k, y)) es) k = (if k = l \<and> map_of es l \<noteq> None then Some x else map_of es k)"
    for es :: "(location \<times> node) list"
    by (induction es) auto
  moreover assume "l \<noteq> []"
  ultimately show ?thesis by (cases "map_of (entries f) l") (auto simp: node_at_def set_at_def map_add_def split: option.split)
qed

lemma set_at_twice: "set_at l x (set_at l y f) = set_at l x f"
proof (cases "map_of (entries f) l")
  case None
  then have "map (\<lambda>(k, z). if k = l then (k, x) else (k, z)) (entries f) = entries f"
    by (intro map_idI) (auto simp: map_of_eq_None_iff rev_image_eqI)
  then show ?thesis using None by (simp add: set_at_def map_add_def)
next
  case (Some z)
  have "map (\<lambda>(k, y). if k = l then (k, x) else (k, y)) (map (\<lambda>(k, z). if k = l then (k, y) else (k, z)) es) =
      map (\<lambda>(k, y). if k = l then (k, x) else (k, y)) es" for es :: "(location \<times> node) list" by (induction es) auto
  moreover have "map_of (map (\<lambda>(k, z). if k = l then (k, y) else (k, z)) es) l = None \<longleftrightarrow> map_of es l = None" for es :: "(location \<times> node) list"
    by (induction es) auto
  ultimately show ?thesis using Some by (simp add: set_at_def)
qed

lemma text_at_set_at: "l \<noteq> [] \<Longrightarrow> text_at k (set_at l (Reg s) f) = (if k = l then s else text_at k f)"
  by (simp add: text_at_def node_at_set_at)

lemma split_slash_not_Nil [simp]: "split_slash s \<noteq> []"
  by (cases s) (auto split: list.split)

lemma split_slash_append: "split_slash (a @ CHR ''/'' # b) = split_slash a @ split_slash b"
proof (induction a)
  case (Cons c a)
  then show ?case by (cases "split_slash a") auto
qed simp

lemma split_slash_name: "CHR ''/'' \<notin> set n \<Longrightarrow> split_slash n = [n]"
  by (induction n) auto

text \<open>Writing to a file, or creating it, does not change what its path leads to.\<close>

lemma resolve_set_at:
  "resolve f fin n cur cs = Some l \<Longrightarrow> node_at f l = None \<or> (\<exists>t. node_at f l = Some (Reg t)) \<Longrightarrow>
    resolve (set_at l (Reg s) f) fin n cur cs = Some l"
proof (induction f fin n cur cs rule: resolve.induct)
  case (2 f fin n cur c cs)
  let ?g = "set_at l (Reg s) f"
  have l: "l \<noteq> []" using "2.prems"(2) by auto
  have cur: "node_at f cur = Some Directory" using "2.prems"(1) by (auto simp: resolve.simps(2) split: if_splits)
  then have same: "node_at ?g k = node_at f k" if "k \<noteq> l" for k using that l by (simp add: node_at_set_at)
  have "cur \<noteq> l" using cur "2.prems"(2) by auto
  then have gcur: "node_at ?g cur = Some Directory" using same cur by simp
  consider (dot) "c = [] \<or> c = ''.''" | (up) "c = ''..''" | (name) "c \<notin> {[], ''.'', ''..''}" by blast
  then show ?case
  proof cases
    case dot
    then show ?thesis using 2 cur gcur by (auto simp: resolve.simps(2))
  next
    case up
    then show ?thesis using 2 cur gcur by (auto simp: resolve.simps(2))
  next
    case name
    show ?thesis
    proof (cases "cur @ [c] = l")
      case True
      then have "resolve f fin n l cs = Some l" using "2.prems" cur name by (auto simp: resolve.simps(2))
      then have "cs = []" using "2.prems"(2) by (cases cs) (auto simp: resolve.simps(2))
      then show ?thesis using True gcur name l by (simp add: resolve.simps(2) node_at_set_at)
    next
      case False
      then show ?thesis using 2 cur gcur name same [OF False]
        by (auto simp: resolve.simps(2) [of _ _ _ cur] split: option.splits node.splits if_splits)
    qed
  qed
qed simp

lemma locate_set_at:
  assumes "locate fin path f = Some l" and "node_at f l = None \<or> (\<exists>t. node_at f l = Some (Reg t))"
  shows "locate fin path (set_at l (Reg s) f) = Some l"
  using assms resolve_set_at [of f fin 40 "start (cwd f) path" "split_slash path" l s] by (auto simp: locate_def split: if_splits)

end
