(* ===== verification/FileUtil.thy ===== *)
theory FileUtil
  imports FileSystem
begin

text \<open>
  \<open>utils/file.h\<close>, \<open>utils/file.cpp\<close>: \<open>FileUtility\<close> and \<open>CFile\<close>, over the calls of \<open>FileSystem\<close>. A call that never returns is
  \<open>None\<close>. An open file is known by its location. Messages on the terminal are left out.
\<close>

section \<open>Questions\<close>

definition IsDir :: "string \<Rightarrow> files \<Rightarrow> bool" where
  "IsDir path f = (case stat path f of Some Directory \<Rightarrow> True | _ \<Rightarrow> False)"

definition IsFile :: "string \<Rightarrow> files \<Rightarrow> bool" where
  "IsFile path f = (case stat path f of Some (Reg _) \<Rightarrow> True | _ \<Rightarrow> False)"

definition IsFileExist :: "string \<Rightarrow> files \<Rightarrow> bool" where
  \<comment> \<open>\<open>access\<close> with \<open>F_OK\<close>\<close>
  "IsFileExist path f = (if stat path f \<noteq> None then True else False)"

definition GetFileSize :: "string \<Rightarrow> files \<Rightarrow> int" where
  "GetFileSize path f =
     (if \<not> IsFile path f then -1
      else case stat path f of Some (Reg s) \<Rightarrow> wrap32 (int (length s)) | _ \<Rightarrow> -2)"

definition GetFileList :: "string \<Rightarrow> files \<Rightarrow> string list option" where
  "GetFileList path f =
     (if \<not> IsDir path f then None else case opendir path f of None \<Rightarrow> None | Some dir \<Rightarrow> Some (readdir dir f))"

section \<open>Whole files\<close>

definition text_of :: "string \<Rightarrow> files \<Rightarrow> string" where
  \<comment> \<open>what a stream opened for reading delivers\<close>
  "text_of path f = (case stat path f of Some (Reg s) \<Rightarrow> s | _ \<Rightarrow> [])"

definition WriteFile :: "bool \<Rightarrow> string \<Rightarrow> string \<Rightarrow> files \<Rightarrow> bool \<times> files" where
  \<comment> \<open>\<open>out\<close>: the complete output of the format; the buffer has 32 KB\<close>
  "WriteFile ok sFileName out f =
     (case open_out ok sFileName f of
        None \<Rightarrow> (False, f)
      | Some l \<Rightarrow> (True, set_at l (Reg (text_at l f @ c_str (take (1024 * 32 - 1) out))) f))"

definition Write_string :: "bool \<Rightarrow> string \<Rightarrow> string \<Rightarrow> files \<Rightarrow> bool \<times> files" where
  "Write_string ok sFileName val f = WriteFile ok sFileName (c_str val) f"

definition Write_int :: "bool \<Rightarrow> string \<Rightarrow> int \<Rightarrow> files \<Rightarrow> bool \<times> files" where
  "Write_int ok sFileName val f = WriteFile ok sFileName (show_int val) f"

definition Write_u32 :: "bool \<Rightarrow> string \<Rightarrow> u32 \<Rightarrow> files \<Rightarrow> bool \<times> files" where
  "Write_u32 ok sFileName val f = WriteFile ok sFileName (show_nat (unat val)) f"

definition Write_u64 :: "bool \<Rightarrow> string \<Rightarrow> u64 \<Rightarrow> files \<Rightarrow> bool \<times> files" where
  "Write_u64 ok sFileName val f = WriteFile ok sFileName (show_nat (unat val)) f"

definition getline :: "string \<Rightarrow> string \<times> string \<times> bool" where
  \<comment> \<open>from what is left to read: the line, the rest, and whether the stream is still good\<close>
  "getline s = (if CHR 0x0A \<in> set s
     then (takeWhile (\<lambda>c. c \<noteq> CHR 0x0A) s, tl (dropWhile (\<lambda>c. c \<noteq> CHR 0x0A) s), True) else (s, [], False))"

lemma getline_line: "CHR 0x0A \<notin> set l \<Longrightarrow> getline (l @ CHR 0x0A # s) = (l, s, True)"
proof -
  assume l: "CHR 0x0A \<notin> set l"
  then have "takeWhile (\<lambda>c. c \<noteq> CHR 0x0A) (l @ CHR 0x0A # s) = l" "dropWhile (\<lambda>c. c \<noteq> CHR 0x0A) (l @ CHR 0x0A # s) = CHR 0x0A # s"
    by (induction l) auto
  then show ?thesis by (simp add: getline_def)
qed

lemma getline_shorter:
  assumes "getline s = (l, r, True)"
  shows "length r < length s"
proof -
  have "CHR 0x0A \<in> set s" using assms by (auto simp: getline_def split: if_splits)
  then obtain a b where "s = a @ CHR 0x0A # b" "CHR 0x0A \<notin> set a" by (meson split_list_first)
  then show ?thesis using assms getline_line [of a b] by simp
qed

function load_loop :: "string \<Rightarrow> string list" where
  "load_loop s = (case getline s of (tmp, rest, good) \<Rightarrow> if good then tmp # load_loop rest else [])"
  by pat_completeness auto
termination
  by (relation "measure length") (auto dest: getline_shorter [OF sym])

definition LoadLines :: "bool \<Rightarrow> string \<Rightarrow> files \<Rightarrow> string list option" where
  "LoadLines ok path f = (if \<not> IsFile path f then None else if \<not> ok then None else Some (load_loop (text_of path f)))"

definition LoadString :: "bool \<Rightarrow> string \<Rightarrow> files \<Rightarrow> string option" where
  "LoadString ok path f = (if \<not> ok \<or> stat path f = None then None else Some (text_of path f))"

definition DeleteFile :: "string \<Rightarrow> files \<Rightarrow> bool \<times> files" where
  "DeleteFile path f = (if \<not> IsFile path f then (False, f) else remove_path path f)"

definition Copy :: "bool \<Rightarrow> bool \<Rightarrow> string \<Rightarrow> string \<Rightarrow> files \<Rightarrow> bool \<times> files" where
  \<comment> \<open>opening the output file empties it before the input is read\<close>
  "Copy in_ok out_ok src dst f =
     (if \<not> IsFileExist src f then (False, f)
      else if \<not> in_ok then (False, f)
      else case open_out out_ok dst f of
        None \<Rightarrow> (False, f)
      | Some l \<Rightarrow> (let f = set_at l (Reg []) f in (True, set_at l (Reg (text_of src f)) f)))"

definition CreateDir :: "bool \<Rightarrow> string \<Rightarrow> files \<Rightarrow> bool \<times> files" where
  "CreateDir ok path f = make_at ok path Directory f"

definition Touch :: "bool \<Rightarrow> string \<Rightarrow> files \<Rightarrow> bool \<times> files" where
  "Touch ok sFileName f =
     (if IsFileExist sFileName f then (False, f)
      else case open_out ok sFileName f of None \<Rightarrow> (False, f) | Some l \<Rightarrow> (True, set_at l (Reg (text_at l f)) f))"

definition GetCurrentDir :: "files \<Rightarrow> string option" where
  "GetCurrentDir f = (case getcwd 1024 f of None \<Rightarrow> None | Some buffer \<Rightarrow> Some (buffer @ ''/''))"

definition CreateLink :: "bool \<Rightarrow> string \<Rightarrow> string \<Rightarrow> files \<Rightarrow> bool \<times> files" where
  \<comment> \<open>without a target name the last part of the source; \<open>find_last_of("/", pos-1)\<close> looks at the characters before \<open>pos\<close>, and at all of
      them if \<open>pos\<close> is 0\<close>
  "CreateLink ok src dst f =
     (if length dst \<noteq> 0 then symlink ok src dst f
      else case find_last_of src ''/'' of
        None \<Rightarrow> (False, f)
      | Some pos \<Rightarrow>
          let new_dst = drop (pos + 1) src
          in if length new_dst \<noteq> 0 then symlink ok src new_dst f
             else case find_last_of (if pos = 0 then src else take pos src) ''/'' of
               None \<Rightarrow> (False, f)
             | Some pos2 \<Rightarrow>
                 (case GetCurrentDir f of
                    None \<Rightarrow> (False, f)
                  | Some cur \<Rightarrow> symlink ok src (cur @ take (pos - pos2) (drop pos2 src)) f))"

section \<open>Deleting a directory\<close>

definition entry_path :: "string \<Rightarrow> string \<Rightarrow> string" where
  \<comment> \<open>\<open>snprintf(chBuf, 256, "%s/%s", ...)\<close>\<close>
  "entry_path path name = take 255 (path @ ''/'' @ name)"

partial_function (option) delete_task :: "string + string \<times> string list \<Rightarrow> files \<Rightarrow> (bool \<times> files) option" where
  \<comment> \<open>\<open>Inl\<close>: a call of \<open>DeleteDir\<close>; \<open>Inr\<close>: its loop with the names still to come, which are read when the directory is opened\<close>
  "delete_task t f =
     (case t of
        Inl path \<Rightarrow>
          if \<not> IsDir path f then Some (False, f)
          else (case opendir path f of None \<Rightarrow> Some (False, f) | Some dir \<Rightarrow> delete_task (Inr (path, readdir dir f)) f)
      | Inr (path, names) \<Rightarrow>
          (case names of
             [] \<Rightarrow> Some (remove_path path f)
           | name # names \<Rightarrow>
               (let chBuf = entry_path path name
                in if IsDir chBuf f
                   then Option.bind (delete_task (Inl chBuf) f)
                     (\<lambda>(ok, f). if \<not> ok then Some (False, f) else delete_task (Inr (path, names)) f)
                   else (case remove_path chBuf f of (ok, f) \<Rightarrow>
                     if \<not> ok then Some (False, f) else delete_task (Inr (path, names)) f))))"

definition DeleteDir :: "string \<Rightarrow> files \<Rightarrow> (bool \<times> files) option" where
  "DeleteDir path f = delete_task (Inl path) f"

section \<open>Parts of paths\<close>

definition SplitPath :: "string \<Rightarrow> (string \<times> string) option" where
  "SplitPath Path =
     (case find_last_of Path [CHR ''/'', CHR 0x5C] of None \<Rightarrow> None | Some Pos \<Rightarrow> Some (take Pos Path, drop (Pos + 1) Path))"

definition SplitFileName :: "string \<Rightarrow> (string \<times> string) option" where
  "SplitFileName FileName =
     (case find_last_of FileName [CHR ''.''] of None \<Rightarrow> None | Some Pos \<Rightarrow> Some (take Pos FileName, drop (Pos + 1) FileName))"

section \<open>\<open>CFile\<close>\<close>

datatype file_mode = MODE_READ | MODE_WRITE | MODE_TRUNC | Other_mode

record cfile =
  m_path :: string
  m_mode :: file_mode
  m_read :: bool
  m_file :: "location option"
  pos :: nat
  eof :: bool
  fail :: bool

definition is_open :: "cfile \<Rightarrow> bool" where
  "is_open c \<longleftrightarrow> m_file c \<noteq> None"

definition CFile :: "bool \<Rightarrow> string \<Rightarrow> file_mode \<Rightarrow> files \<Rightarrow> cfile \<times> files" where
  \<comment> \<open>\<open>m_read\<close> is not initialised for another mode, but then the file is not open\<close>
  "CFile ok path mode f =
     (let c = \<lparr>m_path = path, m_mode = mode, m_read = False, m_file = None, pos = 0, eof = False, fail = True\<rparr>
      in case mode of
        MODE_READ \<Rightarrow>
          (if ok \<and> stat path f \<noteq> None then (c\<lparr>m_read := True, m_file := locate True path f, fail := False\<rparr>, f) else (c\<lparr>m_read := True\<rparr>, f))
      | MODE_TRUNC \<Rightarrow>
          (case open_out ok path f of Some l \<Rightarrow> (c\<lparr>m_file := Some l, fail := False\<rparr>, set_at l (Reg []) f) | None \<Rightarrow> (c, f))
      | MODE_WRITE \<Rightarrow>
          (case open_out ok path f of Some l \<Rightarrow> (c\<lparr>m_file := Some l, fail := False\<rparr>, set_at l (Reg (text_at l f)) f) | None \<Rightarrow> (c, f))
      | Other_mode \<Rightarrow> (c\<lparr>fail := False\<rparr>, f))"

definition Good :: "cfile \<Rightarrow> bool" where
  "Good c \<longleftrightarrow> \<not> eof c \<and> \<not> fail c"

definition ReadFile :: "nat \<Rightarrow> files \<Rightarrow> cfile \<Rightarrow> bool \<times> string \<times> cfile" where
  \<comment> \<open>the result, the characters stored in the buffer, the stream\<close>
  "ReadFile len f c =
     (if \<not> m_read c \<or> \<not> is_open c then (False, [], c)
      else if \<not> Good c then (False, [], c\<lparr>fail := True\<rparr>)
      else let d = take len (drop (pos c) (text_at (the (m_file c)) f));
               c = c\<lparr>pos := pos c + length d\<rparr>;
               c = (if length d < len then c\<lparr>eof := True, fail := True\<rparr> else c)
           in (Good c, d, c))"

definition ReadLine :: "files \<Rightarrow> cfile \<Rightarrow> bool \<times> string \<times> cfile" where
  \<comment> \<open>\<open>getline\<close> sets \<open>eof\<close> when it meets the end, and \<open>fail\<close> when it finds no character at all\<close>
  "ReadLine f c =
     (if \<not> m_read c \<or> \<not> is_open c then (False, [], c)
      else if \<not> Good c then (False, [], c\<lparr>fail := True\<rparr>)
      else let text = text_at (the (m_file c)) f
           in case getline (drop (pos c) text) of (l, rest, good) \<Rightarrow>
             (let c = c\<lparr>pos := length text - length rest\<rparr>;
                  c = (if good then c else c\<lparr>eof := True, fail := (l = [])\<rparr>)
              in (Good c, l, c)))"

definition put_text :: "string \<Rightarrow> files \<Rightarrow> cfile \<Rightarrow> bool \<times> files \<times> cfile" where
  \<comment> \<open>the two guards of every write, and the write at the end of the file\<close>
  "put_text x f c =
     (if m_read c \<or> \<not> is_open c then (False, f, c)
      else if \<not> Good c then (False, f, c)
      else let l = the (m_file c) in (Good c, set_at l (Reg (text_at l f @ x)) f, c))"

definition WriteFile_len :: "string \<Rightarrow> nat \<Rightarrow> files \<Rightarrow> cfile \<Rightarrow> (bool \<times> files \<times> cfile) option" where
  "WriteFile_len fmt len f c =
     (if m_read c \<or> \<not> is_open c then Some (False, f, c)
      else map_option (\<lambda>x. put_text x f c) (mem_read fmt 0 len))"

definition WriteFile_string :: "string \<Rightarrow> files \<Rightarrow> cfile \<Rightarrow> bool \<times> files \<times> cfile" where
  "WriteFile_string l f c = put_text l f c"

definition WriteFile_format :: "string \<Rightarrow> files \<Rightarrow> cfile \<Rightarrow> bool \<times> files \<times> cfile" where
  \<comment> \<open>\<open>out\<close>: the complete output of the format\<close>
  "WriteFile_format out f c = put_text (c_str (take (1024 * 32 - 1) out)) f c"

definition WriteLine :: "string \<Rightarrow> files \<Rightarrow> cfile \<Rightarrow> bool \<times> files \<times> cfile" where
  \<comment> \<open>the line feed, a \<open>const char*\<close>, goes through the variant with a format\<close>
  "WriteLine l f c =
     (case WriteFile_string l f c of (ok, f, c) \<Rightarrow>
       if ok then (case WriteFile_format [CHR 0x0A] f c of (ok, f, c) \<Rightarrow> (ok, f, c)) else (False, f, c))"

section \<open>Lines\<close>

declare load_loop.simps [simp del]

lemma load_loop_lines: "load_loop s = fst (file_lines s)"
proof (induction s rule: load_loop.induct)
  case (1 s)
  show ?case
  proof (cases "CHR 0x0A \<in> set s")
    case True
    then obtain a b where s: "s = a @ CHR 0x0A # b" "CHR 0x0A \<notin> set a" by (meson split_list_first)
    then have "load_loop b = fst (file_lines b)" using 1 getline_line [OF s(2), of b] by simp
    moreover have "load_loop s = a # load_loop b" using getline_line [OF s(2), of b] by (subst load_loop.simps) (simp add: s(1))
    ultimately show ?thesis using file_lines_line [OF s(2), of b] by (simp add: s(1))
  next
    case False
    then show ?thesis by (simp add: load_loop.simps [of s] getline_def file_lines_rest)
  qed
qed

fun write_lines :: "string list \<Rightarrow> files \<Rightarrow> cfile \<Rightarrow> bool \<times> files \<times> cfile" where
  \<comment> \<open>a client that writes lines until one fails\<close>
  "write_lines [] f c = (True, f, c)"
| "write_lines (l # ls) f c = (case WriteLine l f c of (ok, f, c) \<Rightarrow> if ok then write_lines ls f c else (False, f, c))"

definition writable :: "location \<Rightarrow> cfile \<Rightarrow> bool" where
  "writable l c \<longleftrightarrow> \<not> m_read c \<and> m_file c = Some l \<and> Good c"

lemma put_text_ok: "writable l c \<Longrightarrow> put_text x f c = (True, set_at l (Reg (text_at l f @ x)) f, c)"
  by (simp add: put_text_def writable_def is_open_def Let_def)

lemma newline_c_str: "c_str (take (1024 * 32 - 1) [CHR 0x0A]) = [CHR 0x0A]"
  by code_simp

lemma WriteLine_ok:
  assumes "writable p c" and "p \<noteq> []"
  shows "WriteLine l f c = (True, set_at p (Reg (text_at p f @ l @ [CHR 0x0A])) f, c)"
  unfolding WriteLine_def WriteFile_string_def WriteFile_format_def newline_c_str put_text_ok [OF assms(1)]
  by (simp add: put_text_ok [OF assms(1)] set_at_twice text_at_set_at [OF assms(2)])

lemma write_lines_ok:
  assumes "writable p c" and "p \<noteq> []"
  shows "write_lines ls (set_at p (Reg s) f) c = (True, set_at p (Reg (s @ concat (map (\<lambda>l. l @ [CHR 0x0A]) ls))) f, c)"
  by (induction ls arbitrary: s) (simp_all add: WriteLine_ok [OF assms] text_at_set_at [OF assms(2)] set_at_twice)

lemma load_text:
  assumes "locate True path f = Some l" and "node_at f l = None \<or> (\<exists>s. node_at f l = Some (Reg s))"
  shows "LoadLines True path (set_at l (Reg s) f) = Some (fst (file_lines s))" "LoadString True path (set_at l (Reg s) f) = Some s"
proof -
  have "l \<noteq> []" using assms(2) by auto
  then have "stat path (set_at l (Reg s) f) = Some (Reg s)" using locate_set_at [OF assms, of s] by (simp add: stat_def node_at_set_at)
  then show "LoadLines True path (set_at l (Reg s) f) = Some (fst (file_lines s))" "LoadString True path (set_at l (Reg s) f) = Some s"
    by (simp_all add: LoadLines_def LoadString_def IsFile_def text_of_def load_loop_lines)
qed

text \<open>Lines written to a truncated file one by one are what \<open>LoadLines\<close> returns, in their order; text after the last
  line feed is in the file but not among the lines.\<close>

theorem write_load_lines:
  assumes "\<forall>l \<in> set (r # ls). CHR 0x0A \<notin> set l" and "locate True path f = Some l" and "node_at f l = None \<or> (\<exists>s. node_at f l = Some (Reg s))"
  shows "\<exists>c f0 f1 f2. CFile True path MODE_TRUNC f = (c, f0) \<and> write_lines ls f0 c = (True, f1, c) \<and>
    WriteFile_string r f1 c = (True, f2, c) \<and>
    LoadLines True path f1 = Some ls \<and> LoadLines True path f2 = Some ls \<and>
    LoadString True path f2 = Some (concat (map (\<lambda>l. l @ [CHR 0x0A]) ls) @ r)"
proof -
  let ?s = "concat (map (\<lambda>l. l @ [CHR 0x0A]) ls)"
  have l: "l \<noteq> []" using assms(3) by auto
  have "open_out True path f = Some l" using assms(2,3) by (auto simp: open_out_def)
  then obtain c where c: "CFile True path MODE_TRUNC f = (c, set_at l (Reg []) f)" "writable l c"
    by (auto simp: CFile_def Let_def writable_def Good_def)
  have w: "write_lines ls (set_at l (Reg []) f) c = (True, set_at l (Reg ?s) f, c)" using write_lines_ok [OF c(2) l, of ls "[]" f] by simp
  have "WriteFile_string r (set_at l (Reg ?s) f) c = (True, set_at l (Reg (?s @ r)) f, c)"
    using put_text_ok [OF c(2)] by (simp add: WriteFile_string_def text_at_set_at [OF l] set_at_twice)
  moreover have "fst (file_lines ?s) = ls" "fst (file_lines (?s @ r)) = ls"
    using file_lines_concat [of ls "[]"] file_lines_concat [of ls r] assms(1) by simp_all
  ultimately show ?thesis using c(1) w load_text [OF assms(2,3)] by (intro exI conjI) (assumption | simp)+
qed

definition root_dir :: files where
  "root_dir = \<lparr>entries = [], cwd = [], may_list = \<lambda>l. True, may_remove = \<lambda>l. True\<rparr>"

theorem write_load_lines_witness:
  "\<exists>c f0 f1 f2. CFile True ''p'' MODE_TRUNC root_dir = (c, f0) \<and> write_lines [''ab'', [], ''c''] f0 c = (True, f1, c) \<and>
    WriteFile_string ''d'' f1 c = (True, f2, c) \<and>
    LoadLines True ''p'' f1 = Some [''ab'', [], ''c''] \<and> LoadLines True ''p'' f2 = Some [''ab'', [], ''c''] \<and>
    LoadString True ''p'' f2 = Some (concat (map (\<lambda>l. l @ [CHR 0x0A]) [''ab'', [], ''c'']) @ ''d'')"
proof (rule write_load_lines)
  show "locate True ''p'' root_dir = Some [''p'']" by code_simp
  show "node_at root_dir [''p''] = None \<or> (\<exists>s. node_at root_dir [''p''] = Some (Reg s))" by (simp add: node_at_def root_dir_def)
qed simp

text \<open>\<open>Copy\<close> gives the target the text of the source, and leaves every other file alone; copying a file onto itself, also
  through a link, reports success and leaves it empty.\<close>

theorem copy_file:
  assumes "locate True src f = Some k" and "node_at f k = Some (Reg s)"
    and "locate True dst f = Some l" and "node_at f l = None \<or> (\<exists>t. node_at f l = Some (Reg t))" and "k = l \<or> locate True src (set_at l (Reg []) f) = Some k"
  shows "\<exists>g. Copy True True src dst f = (True, g) \<and> (\<forall>j. node_at g j = (if j = l then Some (Reg (if k = l then [] else s)) else node_at f j))"
proof -
  have l: "l \<noteq> []" using assms(4) by auto
  have "locate True src (set_at l (Reg []) f) = Some k" using assms(5) locate_set_at [OF assms(3,4)] assms(1,3,4) locate_set_at [of True src f l] by auto
  then have "text_of src (set_at l (Reg []) f) = (if k = l then [] else s)" using assms(2) by (simp add: text_of_def stat_def node_at_set_at [OF l])
  moreover have "open_out True dst f = Some l" using assms(3,4) by (auto simp: open_out_def)
  ultimately have "Copy True True src dst f = (True, set_at l (Reg (if k = l then [] else s)) f)"
    using assms(1,2) by (simp add: Copy_def IsFileExist_def stat_def Let_def set_at_twice)
  then show ?thesis by (simp add: node_at_set_at [OF l])
qed

theorem copy_file_witness:
  "\<exists>g. Copy True True ''a'' ''l'' (root_dir\<lparr>entries := [([''a''], Reg ''xy''), ([''l''], Link ''a'')]\<rparr>) = (True, g) \<and> node_at g [''a''] = Some (Reg [])"
proof -
  let ?f = "root_dir\<lparr>entries := [([''a''], Reg ''xy''), ([''l''], Link ''a'')]\<rparr>"
  have "locate True ''a'' ?f = Some [''a'']" "locate True ''l'' ?f = Some [''a'']" "node_at ?f [''a''] = Some (Reg ''xy'')" by code_simp+
  then show ?thesis using copy_file [of "''a''" ?f "[''a'']" "''xy''" "''l''" "[''a'']"] by auto
qed

section \<open>Parts\<close>

lemma find_last_of_none: "\<forall>c \<in> set s. c \<notin> set cs \<Longrightarrow> find_last_of s cs = None"
proof -
  assume "\<forall>c \<in> set s. c \<notin> set cs"
  then have t: "takeWhile (\<lambda>c. c \<notin> set cs) (rev s) = rev s" by (simp add: takeWhile_eq_all_conv)
  show ?thesis unfolding find_last_of_def t by simp
qed

lemma find_last_of_split:
  assumes "c \<in> set cs" and "\<forall>x \<in> set b. x \<notin> set cs"
  shows "find_last_of (a @ c # b) cs = Some (length a)"
proof -
  have "\<forall>x \<in> set (rev b). x \<notin> set cs" using assms(2) by simp
  then have "takeWhile (\<lambda>c. c \<notin> set cs) (rev b @ c # rev a) = rev b" using assms(1) by (subst takeWhile_append2) auto
  then show ?thesis by (simp add: find_last_of_def Let_def)
qed

lemma split_last:
  "if \<exists>c \<in> set p. c \<in> set cs
   then \<exists>d c n. p = d @ c # n \<and> (case find_last_of p cs of None \<Rightarrow> None | Some Pos \<Rightarrow> Some (take Pos p, drop (Pos + 1) p)) = Some (d, n) \<and>
     c \<in> set cs \<and> set n \<inter> set cs = {}
   else (case find_last_of p cs of None \<Rightarrow> None | Some Pos \<Rightarrow> Some (take Pos p, drop (Pos + 1) p)) = None"
proof (cases "\<exists>c \<in> set p. c \<in> set cs")
  case True
  have "\<exists>d c n. p = d @ c # n \<and> c \<in> set cs \<and> (\<forall>x \<in> set n. x \<notin> set cs)"
    using split_list_last_prop [of p "\<lambda>c. c \<in> set cs"] True by metis
  then obtain d c n where p: "p = d @ c # n" and c: "c \<in> set cs" "\<forall>x \<in> set n. x \<notin> set cs" by blast
  have "(case find_last_of p cs of None \<Rightarrow> None | Some Pos \<Rightarrow> Some (take Pos p, drop (Pos + 1) p)) = Some (d, n)"
    unfolding p find_last_of_split [OF c] by simp
  then show ?thesis using True p c by auto
next
  case False
  then have "find_last_of p cs = None" by (intro find_last_of_none) blast
  then show ?thesis using False by auto
qed

text \<open>SplitPath takes a path apart at its last slash or backslash, and SplitFileName takes a name apart at its last
  dot; both fail on a string without such a character.\<close>

theorem split_parts:
  "(if \<exists>c \<in> set p. c \<in> set [CHR ''/'', CHR 0x5C]
    then \<exists>d c n. p = d @ c # n \<and> SplitPath p = Some (d, n) \<and> c \<in> set [CHR ''/'', CHR 0x5C] \<and> set n \<inter> set [CHR ''/'', CHR 0x5C] = {}
    else SplitPath p = None) \<and>
   (if \<exists>c \<in> set p. c \<in> set [CHR ''.'']
    then \<exists>b c x. p = b @ c # x \<and> SplitFileName p = Some (b, x) \<and> c \<in> set [CHR ''.''] \<and> set x \<inter> set [CHR ''.''] = {}
    else SplitFileName p = None)"
  unfolding SplitPath_def SplitFileName_def by (intro conjI split_last)

end
