(* ===== verification/FileDelete.thy ===== *)
theory FileDelete
  imports FileUtil
begin

text \<open>
  What \<open>DeleteDir\<close> removes: a whole subtree, if its paths fit the buffer and no link in it leads to a directory; otherwise also
  what lies outside.
\<close>

section \<open>Trees\<close>




definition prune :: "location \<Rightarrow> files \<Rightarrow> files" where
  \<comment> \<open>without a location and everything below it\<close>
  "prune l f = without {k. prefix l k} f"

definition place :: "string \<Rightarrow> files \<Rightarrow> location" where
  \<comment> \<open>the location of a path without \<open>.\<close>, \<open>..\<close> and links\<close>
  "place path f = start (cwd f) path @ filter (\<lambda>n. n \<noteq> []) (split_slash path)"






lemma prune_fields [simp]: "cwd (prune l f) = cwd f" "may_list (prune l f) = may_list f" "may_remove (prune l f) = may_remove f"
  by (simp_all add: prune_def)

lemma place_prune [simp]: "place path (prune l f) = place path f"
  by (simp add: place_def)








section \<open>Paths into the tree\<close>












section \<open>Removing\<close>
















text \<open>A link below the directory that leads to a directory is opened like a directory: DeleteDir removes what is in the other directory,
  which is not below the one that is deleted, and returns true. Of the other directory only the link is removed.\<close>

declare delete_task.simps [code]

definition link_tree :: "string \<Rightarrow> files" where
  "link_tree s = \<lparr>entries = [([''d''], Directory), ([''d'', ''l''], Link ''../e''), ([''e''], Directory), ([''e'', ''x''], Reg s)],
     cwd = [], may_list = \<lambda>l. True, may_remove = \<lambda>l. True\<rparr>"

theorem delete_dir_follows_link:
  "map_option (map_prod id entries) (DeleteDir ''d'' (link_tree s)) = Some (True, [([''e''], Directory)])"
  by code_simp

text \<open>DeleteDir puts the path of an entry into 256 characters: with a directory whose own path is longer, the path it
  removes is the cut path of the directory itself. When that is the path of some other file, the file is gone, and the
  call then fails because the directory still has its entry.\<close>

definition long_name :: string where
  "long_name = replicate 254 CHR ''a''"

definition long_tree :: "string \<Rightarrow> files" where
  "long_tree s = \<lparr>entries = [([long_name], Reg s), ([long_name @ ''b''], Directory), ([long_name @ ''b'', ''c''], Reg [])],
     cwd = [], may_list = \<lambda>l. True, may_remove = \<lambda>l. True\<rparr>"

lemma delete_dir_steps:
  "IsDir path f \<Longrightarrow> opendir path f = Some l \<Longrightarrow> delete_task (Inl path) f = delete_task (Inr (path, readdir l f)) f"
  "delete_task (Inr (path, [])) f = Some (remove_path path f)"
  "\<not> IsDir (entry_path path n) f \<Longrightarrow> remove_path (entry_path path n) f = (True, g) \<Longrightarrow>
    delete_task (Inr (path, n # ns)) f = delete_task (Inr (path, ns)) g"
  by (subst delete_task.simps; simp)+

theorem delete_dir_other_file:
  "DeleteDir (CHR ''/'' # long_name @ ''b'') (long_tree s) =
    Some (False, long_tree s\<lparr>entries := [([long_name @ ''b''], Directory), ([long_name @ ''b'', ''c''], Reg [])]\<rparr>)"
proof -
  let ?p = "CHR ''/'' # long_name @ ''b''"
  let ?q = "CHR ''/'' # long_name"
  let ?g = "long_tree s\<lparr>entries := [([long_name @ ''b''], Directory), ([long_name @ ''b'', ''c''], Reg [])]\<rparr>"
  have dir: "IsDir ?p (long_tree s)" "opendir ?p (long_tree s) = Some [long_name @ ''b'']" by code_simp+
  have names: "readdir [long_name @ ''b''] (long_tree s) = [''c'']" by code_simp
  have buf: "entry_path ?p ''c'' = ?q" by code_simp
  have regular: "\<not> IsDir ?q (long_tree s)" "locate False ?q (long_tree s) = Some [long_name]" "node_at (long_tree s) [long_name] = Some (Reg s)"
    by code_simp+
  have last: "last (''/'' # filter (\<lambda>n. n \<noteq> []) (split_slash ?q)) \<notin> {''.'', ''..''}"
    "last (''/'' # filter (\<lambda>n. n \<noteq> []) (split_slash ?p)) \<notin> {''.'', ''..''}" by code_simp+
  have "without {[long_name]} (long_tree s) = ?g" by (simp add: without_def long_tree_def)
  then have removed: "remove_path ?q (long_tree s) = (True, ?g)" using regular(2,3) last(1)
    by (simp add: remove_path_def del: split_slash.simps last.simps) (simp add: long_tree_def)
  have "locate False ?p ?g = Some [long_name @ ''b'']" "list_ex (\<lambda>e. strict_prefix [long_name @ ''b''] (fst e)) (entries ?g)"
    "node_at ?g [long_name @ ''b''] = Some Directory" by code_simp+
  then have "remove_path ?p ?g = (False, ?g)" by (simp add: remove_path_def)
  then show ?thesis using delete_dir_steps(1) [OF dir] names delete_dir_steps(2) [of ?p ?g]
      delete_dir_steps(3) [of ?p "''c''" "long_tree s" ?g "[]"] buf regular(1) removed by (simp add: DeleteDir_def)
qed

end
