(* ===== verification/XmlText.thy ===== *)
theory XmlText
  imports CString
begin

text \<open>
  \<open>tinyxml/tinyxmlparser.cpp\<close>, \<open>tinyxml/tinyxml.cpp\<close>, \<open>tinyxml/tinyxml.h\<close>: the part of TinyXML that works on characters: white
  space, names, entities, text up to an end tag, the encoding of text, and the position of the parser in rows and columns.

  A pointer into the buffer is what is left of the buffer from it on, the terminating NUL included: the empty list is the
  position behind the buffer, which may be formed but not read. \<open>None\<close> as a pointer is the null pointer; \<open>None\<close> as a
  result is a read or a pointer outside of the buffer, a failed \<open>assert\<close>, or a loop without end. The code reads the
  characters behind a position only after it has seen that the ones before are not NUL, so these reads stay inside of a terminated buffer.
  \<open>char\<close> is signed, \<open>unsigned long\<close> has 64 bits. Rows and columns stay below \<open>2 ^ 31\<close>.
\<close>

type_synonym ptr = "string option"

datatype encoding = TIXML_ENCODING_UNKNOWN | TIXML_ENCODING_UTF8 | TIXML_ENCODING_LEGACY

abbreviation NUL :: char where "NUL \<equiv> CHR 0x00"

definition peek :: "string \<Rightarrow> nat \<Rightarrow> char" where
  "peek s n = (if n < length s then s ! n else NUL)"

definition advance :: "nat \<Rightarrow> string \<Rightarrow> string option" where
  "advance n s = (if n \<le> length s then Some (drop n s) else None)"

section \<open>Characters\<close>

definition utf8ByteTable :: "nat list" where
  "utf8ByteTable = replicate 194 1 @ replicate 30 2 @ replicate 16 3 @ replicate 5 4 @ replicate 11 1"

definition FIRST_BYTE_MARK :: "u64 list" where
  "FIRST_BYTE_MARK = [0x00, 0x00, 0xC0, 0xE0, 0xF0, 0xF8, 0xFC]"

fun put_utf8 :: "nat \<Rightarrow> u64 \<Rightarrow> u64 \<Rightarrow> string \<Rightarrow> string" where
  \<comment> \<open>the \<open>switch\<close>: so many continuation bytes from the end on, then the first byte with its mark\<close>
  "put_utf8 0 mark input out = chr (unat (input OR mark)) # out"
| "put_utf8 (Suc n) mark input out = put_utf8 n mark (drop_bit 6 input) (chr (unat ((input OR 0x80) AND 0xBF)) # out)"

definition ConvertUTF32ToUTF8 :: "u64 \<Rightarrow> string" where
  "ConvertUTF32ToUTF8 input =
     (let len = (if input < 0x80 then 1 else if input < 0x800 then 2 else if input < 0x10000 then 3 else if input < 0x200000 then 4 else 0)
      in if len = 0 then [] else put_utf8 (len - 1) (FIRST_BYTE_MARK ! len) input [])"

definition c_isalpha :: "char \<Rightarrow> bool" where
  "c_isalpha c \<longleftrightarrow> c_isupper c \<or> c_islower c"

definition IsAlpha :: "char \<Rightarrow> bool" where
  "IsAlpha anyByte = (if uchar anyByte < 127 then c_isalpha anyByte else True)"

definition IsAlphaNum :: "char \<Rightarrow> bool" where
  "IsAlphaNum anyByte = (if uchar anyByte < 127 then c_isalnum anyByte else True)"

definition IsWhiteSpace :: "char \<Rightarrow> bool" where
  "IsWhiteSpace c \<longleftrightarrow> c_isspace c \<or> c = CHR 0x0A \<or> c = CHR 0x0D"

definition ToLower :: "encoding \<Rightarrow> char \<Rightarrow> char" where
  \<comment> \<open>\<open>tolower\<close> of the C locale leaves the bytes above 127 alone\<close>
  "ToLower encoding v = (if c_isupper v then chr (uchar v + 32) else v)"

section \<open>White space and names\<close>

definition byte_order_mark :: "string \<Rightarrow> bool" where
  "byte_order_mark p \<longleftrightarrow> peek p 0 = CHR 0xEF \<and>
     (peek p 1 = CHR 0xBB \<and> peek p 2 = CHR 0xBF \<or> peek p 1 = CHR 0xBF \<and> peek p 2 = CHR 0xBE \<or> peek p 1 = CHR 0xBF \<and> peek p 2 = CHR 0xBF)"

function skip_utf8 :: "string \<Rightarrow> string option" where
  "skip_utf8 p =
     (if p = [] then None
      else if hd p = NUL then Some p
      else if byte_order_mark p then skip_utf8 (drop 3 p)
      else if IsWhiteSpace (hd p) then skip_utf8 (tl p)
      else Some p)"
  by pat_completeness auto
termination
  by (relation "measure length") simp_all

fun skip_bytes :: "string \<Rightarrow> string option" where
  "skip_bytes [] = None"
| "skip_bytes (c # p) = (if c \<noteq> NUL \<and> IsWhiteSpace c then skip_bytes p else Some (c # p))"

definition SkipWhiteSpace :: "ptr \<Rightarrow> encoding \<Rightarrow> ptr option" where
  "SkipWhiteSpace p encoding =
     (case p of
        None \<Rightarrow> Some None
      | Some s \<Rightarrow>
          if s = [] then None
          else if hd s = NUL then Some None
          else map_option Some (if encoding = TIXML_ENCODING_UTF8 then skip_utf8 s else skip_bytes s))"

definition name_char :: "char \<Rightarrow> bool" where
  "name_char c \<longleftrightarrow> c \<noteq> NUL \<and>
     (IsAlphaNum c \<or> c = CHR ''_'' \<or> c = CHR ''-'' \<or> c = CHR ''.'' \<or> c = CHR '':'')"

fun name_loop :: "string \<Rightarrow> (string \<times> string) option" where
  "name_loop [] = None"
| "name_loop (c # p) = (if name_char c then map_option (\<lambda>(n, q). (c # n, q)) (name_loop p) else Some ([], c # p))"

definition ReadName :: "ptr \<Rightarrow> (ptr \<times> string) option" where
  "ReadName p =
     (case p of
        None \<Rightarrow> None
      | Some s \<Rightarrow>
          if s = [] then None
          else if hd s \<noteq> NUL \<and> (IsAlpha (hd s) \<or> hd s = CHR ''_'')
          then map_option (\<lambda>(n, q). (Some q, n)) (name_loop s)
          else Some (None, []))"

section \<open>Entities\<close>

definition entity :: "(string \<times> char) list" where
  "entity = [(''&amp;'', CHR ''&''), (''&lt;'', CHR ''<''), (''&gt;'', CHR ''>''), (''&quot;'', CHR 0x22), (''&apos;'', CHR 0x27)]"

definition strchr :: "string \<Rightarrow> char \<Rightarrow> nat option" where
  "strchr s c = find_sub [c] (takeWhile (\<lambda>x. x \<noteq> NUL) s)"

fun hex_loop :: "string \<Rightarrow> u32 \<Rightarrow> u64 \<Rightarrow> u64 option" where
  \<comment> \<open>the digits from the last one back to the letter x; \<open>None\<close>: the function returns the null pointer\<close>
  "hex_loop [] mult ucs = None"
| "hex_loop (c # q) mult ucs =
     (if c = CHR ''x'' then Some ucs
      else if c_isdigit c then hex_loop q (mult * 16) (ucs + ucast (mult * of_nat (uchar c - 48)))
      else if 97 \<le> uchar c \<and> uchar c \<le> 102 then hex_loop q (mult * 16) (ucs + ucast (mult * of_nat (uchar c - 97 + 10)))
      else if 65 \<le> uchar c \<and> uchar c \<le> 70 then hex_loop q (mult * 16) (ucs + ucast (mult * of_nat (uchar c - 65 + 10)))
      else None)"

fun dec_loop :: "string \<Rightarrow> u32 \<Rightarrow> u64 \<Rightarrow> u64 option" where
  "dec_loop [] mult ucs = None"
| "dec_loop (c # q) mult ucs =
     (if c = CHR ''#'' then Some ucs
      else if c_isdigit c then dec_loop q (mult * 10) (ucs + ucast (mult * of_nat (uchar c - 48)))
      else None)"

definition put_ucs :: "u64 \<Rightarrow> encoding \<Rightarrow> string" where
  "put_ucs ucs encoding = (if encoding = TIXML_ENCODING_UTF8 then ConvertUTF32ToUTF8 ucs else [chr (unat ucs)])"

definition GetEntity :: "string \<Rightarrow> encoding \<Rightarrow> ptr \<times> string" where
  \<comment> \<open>the pointer behind the entity and the \<open>*length\<close> characters of \<open>value\<close>\<close>
  "GetEntity p encoding =
     (if peek p 1 = CHR ''#'' \<and> peek p 2 \<noteq> NUL
      then (let start = (if peek p 2 = CHR ''x'' then 3 else 2)
            in if start = 3 \<and> peek p 3 = NUL then (None, [])
               else case strchr (drop start p) CHR '';'' of
                 None \<Rightarrow> (None, [])
               | Some k \<Rightarrow>
                   (let back = rev (take (k + 1) (drop (start - 1) p))
                    in case (if start = 3 then hex_loop back 1 0 else dec_loop back 1 0) of
                      None \<Rightarrow> (None, [])
                    | Some ucs \<Rightarrow> (Some (drop (start + k + 1) p), put_ucs ucs encoding)))
      else case find (\<lambda>e. take (length (fst e)) p = fst e) entity of
        Some e \<Rightarrow> (Some (drop (length (fst e)) p), [snd e])
      | None \<Rightarrow> (Some (tl p), []))"

definition GetChar :: "string \<Rightarrow> encoding \<Rightarrow> (ptr \<times> string) option" where
  \<comment> \<open>\<open>_value\<close> is zero before the call\<close>
  "GetChar p encoding =
     (if p = [] then None
      else let len = (if encoding = TIXML_ENCODING_UTF8 then utf8ByteTable ! uchar (hd p) else 1)
           in if len = 1 then Some (if hd p = CHR ''&'' then GetEntity p encoding else (Some (tl p), [hd p]))
              else map_option (\<lambda>q. (Some q, take len (takeWhile (\<lambda>c. c \<noteq> NUL) (take len p) @ replicate len NUL))) (advance len p))"

section \<open>Text\<close>

fun same_start :: "(char \<Rightarrow> char) \<Rightarrow> string \<Rightarrow> string \<Rightarrow> bool" where
  "same_start f q [] \<longleftrightarrow> True"
| "same_start f [] (t # tag) \<longleftrightarrow> False"
| "same_start f (c # q) (t # tag) \<longleftrightarrow> (if c \<noteq> NUL \<and> f c = f t then same_start f q tag else False)"

definition StringEqual :: "ptr \<Rightarrow> string \<Rightarrow> bool \<Rightarrow> encoding \<Rightarrow> bool option" where
  "StringEqual p tag ignoreCase encoding =
     (case p of
        None \<Rightarrow> None
      | Some s \<Rightarrow>
          if s = [] \<or> hd s = NUL then None
          else Some (same_start (if ignoreCase then ToLower encoding else id) s tag))"

lemma advance_length: "advance n s = Some q \<Longrightarrow> length q = length s - n"
  by (auto simp: advance_def split: if_splits)

lemma utf8_table_range: "n < 256 \<Longrightarrow> utf8ByteTable ! n \<in> {1, 2, 3, 4}"
proof -
  assume "n < 256"
  moreover have "length utf8ByteTable = 256" by (simp add: utf8ByteTable_def)
  moreover have "list_all (\<lambda>x. x \<in> {1, 2, 3, 4}) utf8ByteTable" by code_simp
  ultimately show ?thesis by (simp add: list_all_length)
qed

lemma GetEntity_shorter:
  assumes "p \<noteq> []" and "fst (GetEntity p encoding) = Some q"
  shows "length q < length p"
proof (cases "peek p 1 = CHR ''#'' \<and> peek p 2 \<noteq> NUL")
  case True
  have "0 < length p" using assms(1) by simp
  then show ?thesis using assms(2) True unfolding GetEntity_def Let_def
    by (cases "peek p 2 = CHR ''x''") (auto split: if_splits option.splits)
next
  case False
  show ?thesis
  proof (cases "find (\<lambda>e. take (length (fst e)) p = fst e) entity")
    case None
    then show ?thesis using False assms by (auto simp: GetEntity_def)
  next
    case (Some e)
    then have "q = drop (length (fst e)) p" using False assms(2) by (auto simp: GetEntity_def)
    moreover have "e \<in> set entity" using Some by (auto simp: find_Some_iff)
    moreover have "list_all (\<lambda>e. fst e \<noteq> []) entity" by (simp add: entity_def)
    ultimately show ?thesis using assms(1) by (auto simp: list_all_iff)
  qed
qed

lemma GetChar_shorter: "GetChar p encoding = Some (Some q, x) \<Longrightarrow> length q < length p"
proof -
  assume a: "GetChar p encoding = Some (Some q, x)"
  then have p: "p \<noteq> []" by (auto simp: GetChar_def)
  let ?len = "if encoding = TIXML_ENCODING_UTF8 then utf8ByteTable ! uchar (hd p) else 1"
  have "?len \<noteq> 0" using utf8_table_range [OF uchar_less, of "hd p"] by auto
  then show ?thesis
    using a p GetEntity_shorter [OF p, of encoding q]
    by (cases "?len = 1") (auto simp: GetChar_def Let_def dest: advance_length split: if_splits)
qed

function keep_text :: "string \<Rightarrow> string \<Rightarrow> bool \<Rightarrow> encoding \<Rightarrow> (ptr \<times> string) option" where
  \<comment> \<open>all characters up to the end tag\<close>
  "keep_text endTag p ci encoding =
     (if p = [] then None
      else if hd p = NUL then Some (Some p, [])
      else case StringEqual (Some p) endTag ci encoding of
        None \<Rightarrow> None
      | Some True \<Rightarrow> Some (Some p, [])
      | Some False \<Rightarrow>
          (case GetChar p encoding of
             None \<Rightarrow> None
           | Some (None, x) \<Rightarrow> Some (None, x)
           | Some (Some q, x) \<Rightarrow> map_option (\<lambda>(r, t). (r, x @ t)) (keep_text endTag q ci encoding)))"
  by pat_completeness auto
termination
  by (relation "measure (\<lambda>(_, p, _). length p)") (auto dest: GetChar_shorter)

function condense_text :: "string \<Rightarrow> bool \<Rightarrow> string \<Rightarrow> bool \<Rightarrow> encoding \<Rightarrow> (ptr \<times> string) option" where
  \<comment> \<open>white space becomes one space before the next character\<close>
  "condense_text endTag whitespace p ci encoding =
     (if p = [] then None
      else if hd p = NUL then Some (Some p, [])
      else case StringEqual (Some p) endTag ci encoding of
        None \<Rightarrow> None
      | Some True \<Rightarrow> Some (Some p, [])
      | Some False \<Rightarrow>
          if IsWhiteSpace (hd p) then condense_text endTag True (tl p) ci encoding
          else (case GetChar p encoding of
             None \<Rightarrow> None
           | Some (None, x) \<Rightarrow> Some (None, (if whitespace then '' '' else []) @ x)
           | Some (Some q, x) \<Rightarrow> map_option (\<lambda>(r, t). (r, (if whitespace then '' '' else []) @ x @ t)) (condense_text endTag False q ci encoding)))"
  by pat_completeness auto
termination
  by (relation "measure (\<lambda>(_, _, p, _). length p)") (auto dest: GetChar_shorter)

definition text_end :: "string \<Rightarrow> ptr \<Rightarrow> ptr option" where
  \<comment> \<open>the end of \<open>ReadText\<close>: past the end tag, and null at the end of the buffer\<close>
  "text_end endTag p =
     (case p of
        None \<Rightarrow> Some None
      | Some s \<Rightarrow>
          if s = [] then None
          else if hd s = NUL then Some None
          else case advance (length endTag) s of
            None \<Rightarrow> None
          | Some q \<Rightarrow> if q = [] then None else Some (if hd q = NUL then None else Some q))"

definition ReadText :: "bool \<Rightarrow> ptr \<Rightarrow> bool \<Rightarrow> string \<Rightarrow> bool \<Rightarrow> encoding \<Rightarrow> (ptr \<times> string) option" where
  "ReadText condenseWhiteSpace p trimWhiteSpace endTag caseInsensitive encoding = do {
     (q, text) \<leftarrow>
       (if \<not> trimWhiteSpace \<or> \<not> condenseWhiteSpace
        then (case p of None \<Rightarrow> Some (None, []) | Some s \<Rightarrow> keep_text endTag s caseInsensitive encoding)
        else do {
          p \<leftarrow> SkipWhiteSpace p encoding;
          (case p of None \<Rightarrow> Some (None, []) | Some s \<Rightarrow> condense_text endTag False s caseInsensitive encoding)
        });
     r \<leftarrow> text_end endTag q;
     Some (r, text)
   }"

section \<open>Encoding\<close>

definition hex_digit :: "nat \<Rightarrow> char" where
  "hex_digit d = (if d < 10 then chr (48 + d) else chr (55 + d))"

definition encode_char :: "char \<Rightarrow> string" where
  \<comment> \<open>the branches of one character\<close>
  "encode_char c =
     (case find (\<lambda>e. snd e = c) entity of
        Some e \<Rightarrow> fst e
      | None \<Rightarrow> if uchar c < 32 then ''&#x'' @ [hex_digit (uchar c div 16), hex_digit (uchar c mod 16), CHR '';''] else [c])"

fun pass_reference :: "string \<Rightarrow> string \<times> string" where
  \<comment> \<open>the inner loop: copied unchanged up to a semicolon or the last character, and what is left\<close>
  "pass_reference (c # d # s) = (if d = CHR '';'' then ([c], d # s) else (case pass_reference (d # s) of (x, r) \<Rightarrow> (c # x, r)))"
| "pass_reference s = ([], s)"

lemma pass_reference_shorter: "pass_reference s = (x, r) \<Longrightarrow> length x + length r = length s \<and> (2 \<le> length s \<longrightarrow> length r < length s)"
  by (induction s arbitrary: x r rule: pass_reference.induct) (fastforce split: if_splits prod.splits)+

lemma reference_shorter: "take 3 s = ''&#x'' \<Longrightarrow> (x, r) = pass_reference s \<Longrightarrow> length r < length s"
proof -
  assume a: "take 3 s = ''&#x''" "(x, r) = pass_reference s"
  then have "2 \<le> length s" by (cases s rule: pass_reference.cases) auto
  then show ?thesis using a(2) pass_reference_shorter [of s x r] by simp
qed

function EncodeString :: "string \<Rightarrow> string" where
  "EncodeString s =
     (if s = [] then []
      else if take 3 s = ''&#x'' then (case pass_reference s of (x, r) \<Rightarrow> x @ EncodeString r)
      else encode_char (hd s) @ EncodeString (tl s))"
  by pat_completeness auto
termination
  by (relation "measure length") (auto dest: reference_shorter)

section \<open>The position of the parser\<close>

record parsing_data =
  row :: int
  col :: int
  stamp :: string
  tabsize :: int

datatype stamped = Stopped | Reached string int int

partial_function (option) stamp_loop :: "string \<Rightarrow> encoding \<Rightarrow> int \<Rightarrow> string \<Rightarrow> int \<Rightarrow> int \<Rightarrow> stamped option" where
  "stamp_loop now encoding tabs p r c =
     (if \<not> length now < length p then Some (Reached p r c)
      else if hd p = NUL then Some Stopped
      else if hd p = CHR 0x0D
      then stamp_loop now encoding tabs (if peek p 1 = CHR 0x0A then drop 2 p else tl p) (r + 1) 0
      else if hd p = CHR 0x0A
      then stamp_loop now encoding tabs (if peek p 1 = CHR 0x0D then drop 2 p else tl p) (r + 1) 0
      else if hd p = CHR 0x09 then stamp_loop now encoding tabs (tl p) r ((c div tabs + 1) * tabs)
      else if hd p = CHR 0xEF
      then (if encoding = TIXML_ENCODING_UTF8
            then (if peek p 1 \<noteq> NUL \<and> peek p 2 \<noteq> NUL
                  then stamp_loop now encoding tabs (drop 3 p) r (if byte_order_mark p then c else c + 1)
                  else stamp_loop now encoding tabs p r c)
            else stamp_loop now encoding tabs (tl p) r (c + 1))
      else if encoding = TIXML_ENCODING_UTF8
      then Option.bind (advance (utf8ByteTable ! uchar (hd p)) p) (\<lambda>q. stamp_loop now encoding tabs q r (c + 1))
      else stamp_loop now encoding tabs (tl p) r (c + 1))"

definition Stamp :: "string \<Rightarrow> encoding \<Rightarrow> parsing_data \<Rightarrow> parsing_data option" where
  "Stamp now encoding d =
     (if tabsize d < 1 then Some d
      else case stamp_loop now encoding (tabsize d) (stamp d) (row d) (col d) of
        None \<Rightarrow> None
      | Some Stopped \<Rightarrow> Some d
      | Some (Reached p r c) \<Rightarrow> Some (d\<lparr>row := r, col := c, stamp := p\<rparr>))"

declare skip_utf8.simps [simp del] keep_text.simps [simp del] condense_text.simps [simp del] EncodeString.simps [simp del]

section \<open>UTF-8\<close>

lemma or_disjoint:
  assumes "(a :: nat) < 2 ^ k"
  shows "a OR (2 ^ k * j) = a + 2 ^ k * j"
proof -
  have a: "a = take_bit k a" using assms by (simp add: take_bit_nat_eq_self)
  have j: "2 ^ k * j = push_bit k j" by (simp add: push_bit_eq_mult mult.commute)
  have "take_bit k a AND push_bit k j = 0" by (rule bit_eqI) (auto simp: bit_simps)
  then show ?thesis using a j by (metis disjunctive_add_eq_or)
qed

lemma continuation_byte: "uchar (chr (unat ((x OR 0x80) AND 0xBF :: u64))) = 128 + unat x mod 64"
proof -
  have "(unat x OR 128) AND 191 = take_bit 6 (unat x) OR 128"
  proof (rule bit_eqI)
    fix n
    have c: "(191 :: nat) = mask 6 OR 2 ^ 7" "(128 :: nat) = 2 ^ 7" by (simp_all add: mask_eq_exp_minus_1)
    show "bit ((unat x OR 128) AND 191) n = bit (take_bit 6 (unat x) OR 128) n"
      unfolding c by (auto simp: bit_simps)
  qed
  moreover have "unat x mod 64 < 2 ^ 7" by (rule less_trans [of _ 64]) simp_all
  ultimately have "unat ((x OR 0x80) AND 0xBF) = unat x mod 64 + 128"
    using or_disjoint [of "unat x mod 64" 7 1] by (simp add: unsigned_and_eq unsigned_or_eq take_bit_eq_mod)
  moreover have "unat x mod 64 + 128 < 256" by (rule less_trans [of _ "64 + 128"]) simp_all
  ultimately show ?thesis by (simp add: uchar_chr)
qed

lemma first_byte:
  assumes "unat x = q" and "q < 2 ^ k" and "unat m = 2 ^ k * j" and "2 ^ k * (j + 1) \<le> 256"
  shows "uchar (chr (unat (x OR m))) = q + unat m"
proof -
  have "unat (x OR m) = q + unat m" using or_disjoint [OF assms(2)] assms(1,3) by (simp add: unsigned_or_eq)
  then show ?thesis using assms by (simp add: uchar_chr algebra_simps)
qed

fun utf8_value :: "string \<Rightarrow> nat" where
  \<comment> \<open>the code point of a sequence of one to four bytes\<close>
  "utf8_value [a] = uchar a"
| "utf8_value [a, b] = (uchar a - 0xC0) * 64 + (uchar b - 128)"
| "utf8_value [a, b, c] = ((uchar a - 0xE0) * 64 + (uchar b - 128)) * 64 + (uchar c - 128)"
| "utf8_value [a, b, c, d] = (((uchar a - 0xF0) * 64 + (uchar b - 128)) * 64 + (uchar c - 128)) * 64 + (uchar d - 128)"
| "utf8_value _ = 0"

lemma unat_less_iff: "x < (numeral n :: u64) \<longleftrightarrow> unat x < unat (numeral n :: u64)"
  by (rule word_less_nat_alt)

lemma unat_shift: "unat (drop_bit 6 x :: u64) = unat x div 64"
  unfolding unat_drop_bit_eq by (simp add: drop_bit_eq_div)

lemma utf8_lead:
  assumes "uchar c = n"
  shows "n < 128 \<Longrightarrow> utf8ByteTable ! uchar c = 1" "0xC2 \<le> n \<Longrightarrow> n < 0xE0 \<Longrightarrow> utf8ByteTable ! uchar c = 2"
    "0xE0 \<le> n \<Longrightarrow> n < 0xF0 \<Longrightarrow> utf8ByteTable ! uchar c = 3" "0xF0 \<le> n \<Longrightarrow> n < 0xF5 \<Longrightarrow> utf8ByteTable ! uchar c = 4"
proof -
  have t: "list_all (\<lambda>n. utf8ByteTable ! n = (if n < 0xC2 then 1 else if n < 0xE0 then 2 else if n < 0xF0 then 3 else if n < 0xF5 then 4 else 1)) [0..<256]"
    by code_simp
  have "n < 256" using assms uchar_less [of c] by simp
  then have "utf8ByteTable ! n = (if n < 0xC2 then 1 else if n < 0xE0 then 2 else if n < 0xF0 then 3 else if n < 0xF5 then 4 else 1)"
    using t unfolding list_all_iff by simp
  then show "n < 128 \<Longrightarrow> utf8ByteTable ! uchar c = 1" "0xC2 \<le> n \<Longrightarrow> n < 0xE0 \<Longrightarrow> utf8ByteTable ! uchar c = 2"
    "0xE0 \<le> n \<Longrightarrow> n < 0xF0 \<Longrightarrow> utf8ByteTable ! uchar c = 3" "0xF0 \<le> n \<Longrightarrow> n < 0xF5 \<Longrightarrow> utf8ByteTable ! uchar c = 4"
    using assms by simp_all
qed

definition utf8_sequence :: "nat \<Rightarrow> string \<Rightarrow> bool" where
  \<comment> \<open>the bytes that stand for a code point\<close>
  "utf8_sequence n s \<longleftrightarrow> s \<noteq> [] \<and> length s = utf8ByteTable ! uchar (hd s) \<and> utf8_value s = n \<and>
     (\<forall>c \<in> set (tl s). 128 \<le> uchar c \<and> uchar c < 192) \<and> (n < 128 \<longleftrightarrow> uchar (hd s) < 128)"

lemma put_utf8_more:
  "put_utf8 2 m x out = put_utf8 0 m (drop_bit 6 (drop_bit 6 x))
     (chr (unat ((drop_bit 6 x OR 0x80) AND 0xBF)) # chr (unat ((x OR 0x80) AND 0xBF)) # out)"
  "put_utf8 3 m x out = put_utf8 0 m (drop_bit 6 (drop_bit 6 (drop_bit 6 x)))
     (chr (unat ((drop_bit 6 (drop_bit 6 x) OR 0x80) AND 0xBF)) # chr (unat ((drop_bit 6 x OR 0x80) AND 0xBF)) # chr (unat ((x OR 0x80) AND 0xBF)) # out)"
  by (simp_all only: numeral_2_eq_2 numeral_3_eq_3 put_utf8.simps)

lemma utf8_sequences:
  assumes "uchar b = 128 + n mod 64" and "uchar c = 128 + n1 mod 64" and "uchar d = 128 + n2 mod 64"
    and "n1 * 64 + n mod 64 = n" and "n2 * 64 + n1 mod 64 = n1" and "n3 * 64 + n2 mod 64 = n2"
  shows "uchar a = n1 + 0xC0 \<Longrightarrow> 2 \<le> n1 \<Longrightarrow> n1 < 32 \<Longrightarrow> utf8_sequence n [a, b]"
    and "uchar a = n2 + 0xE0 \<Longrightarrow> n2 < 16 \<Longrightarrow> 128 \<le> n \<Longrightarrow> utf8_sequence n [a, c, b]"
    and "uchar a = n3 + 0xF0 \<Longrightarrow> n3 < 5 \<Longrightarrow> 128 \<le> n \<Longrightarrow> utf8_sequence n [a, d, c, b]"
  using assms utf8_lead [OF refl, of a] by (simp_all add: utf8_sequence_def)

lemma utf8_convert:
  assumes "input < 0x110000"
  shows "utf8_sequence (unat input) (ConvertUTF32ToUTF8 input)"
proof -
  let ?b = "\<lambda>x. chr (unat ((x OR 0x80) AND 0xBF :: u64))"
  define n where "n = unat input"
  define n1 where "n1 = n div 64"
  define n2 where "n2 = n1 div 64"
  define n3 where "n3 = n2 div 64"
  have s: "unat input = n" "unat (drop_bit 6 input) = n1" "unat (drop_bit 6 (drop_bit 6 input)) = n2"
    "unat (drop_bit 6 (drop_bit 6 (drop_bit 6 input))) = n3" by (simp_all only: unat_shift n_def n1_def n2_def n3_def)
  have v: "n1 * 64 + n mod 64 = n" "n2 * 64 + n1 mod 64 = n1" "n3 * 64 + n2 mod 64 = n2"
    by (simp_all add: n1_def n2_def n3_def)
  have n: "n < 0x110000" using assms by (simp add: unat_less_iff n_def)
  note b = continuation_byte [of input, unfolded s] continuation_byte [of "drop_bit 6 input", unfolded s]
    continuation_byte [of "drop_bit 6 (drop_bit 6 input)", unfolded s] v
  consider "n < 0x80" | "0x80 \<le> n" "n < 0x800" | "0x800 \<le> n" "n < 0x10000" | "0x10000 \<le> n" by linarith
  then show ?thesis
  proof cases
    case 1
    then have "ConvertUTF32ToUTF8 input = [chr n]" by (simp add: ConvertUTF32ToUTF8_def unat_less_iff FIRST_BYTE_MARK_def s)
    then show ?thesis using 1 utf8_lead(1) [of "chr n" n] by (simp add: utf8_sequence_def uchar_chr s)
  next
    case 2
    let ?a = "chr (unat (drop_bit 6 input OR 0xC0))"
    have c: "ConvertUTF32ToUTF8 input = [?a, ?b input]"
      using 2 by (simp add: ConvertUTF32ToUTF8_def unat_less_iff FIRST_BYTE_MARK_def s)
    have r: "2 \<le> n1" "n1 < 32" using 2 v by linarith+
    have a: "uchar ?a = n1 + 0xC0" using first_byte [OF s(2), of 5 "0xC0" 6] r(2) by simp
    show ?thesis unfolding c s by (rule utf8_sequences(1) [OF b a r(1) r(2)])
  next
    case 3
    let ?a = "chr (unat (drop_bit 6 (drop_bit 6 input) OR 0xE0))"
    have c: "ConvertUTF32ToUTF8 input = [?a, ?b (drop_bit 6 input), ?b input]"
      using 3 by (simp add: ConvertUTF32ToUTF8_def unat_less_iff FIRST_BYTE_MARK_def put_utf8_more s)
    have r: "n2 < 16" using 3 v by linarith
    have a: "uchar ?a = n2 + 0xE0" using first_byte [OF s(3), of 4 "0xE0" 14] r by simp
    show ?thesis unfolding c s by (rule utf8_sequences(2) [OF b a r]) (use 3 in simp)
  next
    case 4
    let ?a = "chr (unat (drop_bit 6 (drop_bit 6 (drop_bit 6 input)) OR 0xF0))"
    have c: "ConvertUTF32ToUTF8 input = [?a, ?b (drop_bit 6 (drop_bit 6 input)), ?b (drop_bit 6 input), ?b input]"
      using 4 n by (simp add: ConvertUTF32ToUTF8_def unat_less_iff FIRST_BYTE_MARK_def put_utf8_more s)
    have r: "n3 < 5" using n v by linarith
    have a: "uchar ?a = n3 + 0xF0" using first_byte [OF s(4), of 3 "0xF0" 30] r by simp
    show ?thesis unfolding c s by (rule utf8_sequences(3) [OF b a r]) (use 4 in simp)
  qed
qed

section \<open>Encoded characters are read back\<close>

definition plain :: "encoding \<Rightarrow> char \<Rightarrow> bool" where
  \<comment> \<open>one byte for the encoding\<close>
  "plain encoding c \<longleftrightarrow> c \<noteq> NUL \<and> (encoding = TIXML_ENCODING_UTF8 \<longrightarrow> uchar c < 128)"

lemma uchar_NUL: "uchar c = 0 \<longleftrightarrow> c = NUL"
  using uchar_inj [of c NUL] by (simp add: uchar_def)

lemma c_str_whole: "NUL \<notin> set s \<Longrightarrow> c_str s = s"
  unfolding c_str_def by (rule takeWhile_eq_all_conv [THEN iffD2]) (auto simp: uchar_NUL)

lemma hex_digit_char:
  assumes "d < 16"
  shows "uchar (hex_digit d) = (if d < 10 then 48 + d else 55 + d)"
  using assms by (simp add: hex_digit_def uchar_chr)

lemma hex_digit_not:
  assumes "d < 16" and "uchar c \<notin> {48..57} \<union> {65..70}"
  shows "hex_digit d \<noteq> c"
  using assms hex_digit_char [OF assms(1)] by (auto split: if_splits)

lemma hex_pair:
  assumes "n < 32"
  shows "hex_loop [hex_digit (n mod 16), hex_digit (n div 16), CHR ''x''] 1 0 = Some (of_nat n)"
proof -
  have "list_all (\<lambda>n. hex_loop [hex_digit (n mod 16), hex_digit (n div 16), CHR ''x''] 1 0 = Some (of_nat n)) [0..<32]" by code_simp
  then show ?thesis using assms by (simp add: list_all_iff)
qed

lemma control_read:
  assumes "c \<noteq> NUL" and "uchar c < 32"
  shows "GetEntity (''&#x'' @ [hex_digit (uchar c div 16), hex_digit (uchar c mod 16), CHR '';''] @ t) encoding = (Some t, [c])"
proof -
  define h where "h = hex_digit (uchar c div 16)"
  define l where "l = hex_digit (uchar c mod 16)"
  define p where "p = ''&#x'' @ [h, l, CHR '';''] @ t"
  have d: "uchar c div 16 < 16" "uchar c mod 16 < 16" using assms(2) by auto
  have n: "h \<noteq> NUL" "l \<noteq> NUL" "h \<noteq> CHR '';''" "l \<noteq> CHR '';''"
    unfolding h_def l_def by (rule hex_digit_not [OF d(1)] hex_digit_not [OF d(2)], simp add: uchar_def)+
  then have chr: "strchr (drop 3 p) CHR '';'' = Some 2" by (simp add: p_def strchr_def numeral_2_eq_2)
  have digits: "rev (take (2 + 1) (drop (3 - 1) p)) = [l, h, CHR ''x'']" by (simp add: p_def numeral_3_eq_3 numeral_2_eq_2)
  have hex: "hex_loop [l, h, CHR ''x''] 1 0 = Some (of_nat (uchar c))" unfolding h_def l_def by (rule hex_pair [OF assms(2)])
  have put: "put_ucs (of_nat (uchar c)) encoding = [c]"
  proof -
    have u: "unat (of_nat (uchar c) :: u64) = uchar c" using assms(2) by (simp add: unat_of_nat take_bit_nat_eq_self)
    moreover have "(of_nat (uchar c) :: u64) < 0x80" using u assms(2) by (simp add: word_less_nat_alt)
    ultimately show ?thesis by (simp add: put_ucs_def ConvertUTF32ToUTF8_def FIRST_BYTE_MARK_def)
  qed
  have dr: "drop (3 + 2 + 1) p = t" by (simp add: p_def eval_nat_numeral)
  have pk: "peek p 1 = CHR ''#''" "peek p 2 = CHR ''x''" "peek p 3 = h" by (simp_all add: p_def peek_def numeral_3_eq_3 numeral_2_eq_2)
  have "GetEntity p encoding = (Some t, [c])"
    unfolding GetEntity_def pk Let_def using n(1) by (simp only: chr digits hex put dr option.case if_True if_False simp_thms) simp
  then show ?thesis by (simp only: p_def h_def l_def)
qed

lemma entity_char:
  assumes "find (\<lambda>e. snd e = c) entity = Some e"
  shows "e \<in> set entity" and "c = snd e" and "encode_char c = fst e"
proof -
  show "e \<in> set entity" "c = snd e" using assms by (auto simp: find_Some_iff)
  show "encode_char c = fst e" using assms by (simp add: encode_char_def)
qed

lemma encoded_read:
  assumes "plain encoding c"
  shows "GetChar (encode_char c @ t) encoding = Some (Some t, [c])"
proof -
  have c: "c \<noteq> NUL" "encoding = TIXML_ENCODING_UTF8 \<Longrightarrow> uchar c < 128" using assms by (auto simp: plain_def)
  have amp: "GetChar (CHR ''&'' # p) encoding = Some (GetEntity (CHR ''&'' # p) encoding)" for p
    using utf8_lead(1) [of "CHR ''&''" 38] by (simp add: GetChar_def uchar_def)
  show ?thesis
  proof (cases "find (\<lambda>e. snd e = c) entity")
    case (Some e)
    note e = entity_char [OF Some]
    then show ?thesis using amp by (auto simp: entity_def GetEntity_def peek_def)
  next
    case None
    then have n: "c \<noteq> CHR ''&''" by (auto simp: entity_def split: if_splits)
    show ?thesis
    proof (cases "uchar c < 32")
      case True
      then have "encode_char c = ''&#x'' @ [hex_digit (uchar c div 16), hex_digit (uchar c mod 16), CHR '';'']"
        using None by (simp add: encode_char_def)
      then show ?thesis using amp control_read [OF c(1) True, of t encoding] by simp
    next
      case False
      then have "encode_char c = [c]" using None by (simp add: encode_char_def)
      then show ?thesis using c(2) n utf8_lead(1) [OF refl, of c] by (simp add: GetChar_def)
    qed
  qed
qed

lemma IsWhiteSpace_iff: "IsWhiteSpace c \<longleftrightarrow> uchar c = 32 \<or> 9 \<le> uchar c \<and> uchar c \<le> 13"
proof -
  have "c = CHR 0x0A \<longleftrightarrow> uchar c = 10" "c = CHR 0x0D \<longleftrightarrow> uchar c = 13"
    using uchar_inj [of c "CHR 0x0A"] uchar_inj [of c "CHR 0x0D"] by (simp_all add: uchar_def)
  then show ?thesis by (auto simp: IsWhiteSpace_def c_isspace_def)
qed

lemma space_iff: "uchar c = 32 \<longleftrightarrow> c = CHR '' ''"
  using uchar_inj [of c "CHR '' ''"] by (simp add: uchar_def)

lemma encoded_head:
  assumes "c \<noteq> NUL"
  shows "\<exists>d r. encode_char c = d # r \<and> d \<notin> {NUL, CHR ''<'', CHR ''>'', CHR 0x22, CHR 0x27} \<and> (IsWhiteSpace d \<longleftrightarrow> c = CHR '' '') \<and>
    (c = CHR '' '' \<longrightarrow> r = [] \<and> d = CHR '' '') \<and> (128 \<le> uchar d \<longrightarrow> 128 \<le> uchar c)"
proof (cases "find (\<lambda>e. snd e = c) entity")
  case (Some e)
  note e = entity_char [OF Some]
  from e show ?thesis by (auto simp: entity_def IsWhiteSpace_def c_isspace_def uchar_def)
next
  case None
  then have n: "c \<notin> {CHR ''&'', CHR ''<'', CHR ''>'', CHR 0x22, CHR 0x27}" by (auto simp: entity_def split: if_splits)
  show ?thesis
  proof (cases "uchar c < 32")
    case True
    then have "c \<noteq> CHR '' ''" using space_iff [of c] by auto
    moreover have "\<not> IsWhiteSpace CHR ''&''" "uchar CHR ''&'' < 128" by (simp_all add: IsWhiteSpace_iff uchar_def)
    ultimately show ?thesis using True None by (simp add: encode_char_def)
  next
    case False
    then have "encode_char c = [c]" "IsWhiteSpace c \<longleftrightarrow> c = CHR '' ''" using None space_iff [of c] by (auto simp: encode_char_def IsWhiteSpace_iff)
    then show ?thesis using n assms by auto
  qed
qed

lemma EncodeString_chars: "\<not> sublist ''&#x'' s \<Longrightarrow> EncodeString s = concat (map encode_char s)"
proof (induction s)
  case (Cons c s)
  then have "take 3 (c # s) \<noteq> ''&#x''" by (metis append_take_drop_id sublist_appendI append_Nil)
  moreover have "\<not> sublist ''&#x'' s" using Cons.prems by (simp add: sublist_Cons_right)
  ultimately show ?case using Cons.IH by (subst EncodeString.simps) auto
qed (subst EncodeString.simps, simp)

lemma StringEqual_same: "s \<noteq> [] \<Longrightarrow> hd s \<noteq> NUL \<Longrightarrow> StringEqual (Some s) tag False encoding = Some (same_start id s tag)"
  by (simp add: StringEqual_def)

lemma same_start_one: "q \<noteq> NUL \<Longrightarrow> same_start id (c # s) [q] \<longleftrightarrow> c = q"
  by auto

lemma keep_encoded:
  assumes "q \<in> {CHR ''<'', CHR 0x22, CHR 0x27}" and "\<forall>c \<in> set s. plain encoding c"
  shows "keep_text [q] (concat (map encode_char s) @ q # rest) False encoding = Some (Some (q # rest), s)"
  using assms(2)
proof (induction s)
  case Nil
  have "q \<noteq> NUL" using assms(1) by auto
  then show ?case by (subst keep_text.simps) (simp add: StringEqual_same)
next
  case (Cons c s)
  let ?t = "concat (map encode_char s) @ q # rest"
  obtain d r where d: "encode_char c = d # r" "d \<notin> {NUL, CHR ''<'', CHR ''>'', CHR 0x22, CHR 0x27}"
    using encoded_head [of c] Cons.prems by (auto simp: plain_def)
  have "StringEqual (Some (d # r @ ?t)) [q] False encoding = Some False"
    using d(2) assms(1) by (auto simp: StringEqual_same)
  moreover have "GetChar (d # r @ ?t) encoding = Some (Some ?t, [c])" using encoded_read [of encoding c ?t] Cons.prems d(1) by simp
  moreover have "keep_text [q] ?t False encoding = Some (Some (q # rest), s)" using Cons by simp
  ultimately show ?case using d by (subst keep_text.simps) simp
qed

fun squeeze :: "bool \<Rightarrow> string \<Rightarrow> string" where
  \<comment> \<open>every run of spaces becomes one space before the next character\<close>
  "squeeze w [] = []"
| "squeeze w (c # s) = (if c = CHR '' '' then squeeze True s else (if w then '' '' else []) @ c # squeeze False s)"

lemma condense_space:
  assumes "\<forall>c \<in> set g. IsWhiteSpace c"
  shows "condense_text ''<'' w (g @ ''<'' @ rest) False encoding = Some (Some (''<'' @ rest), [])"
  using assms
proof (induction g arbitrary: w)
  case Nil
  then show ?case by (subst condense_text.simps) (simp add: StringEqual_same)
next
  case (Cons c g)
  then have "IsWhiteSpace c" "c \<noteq> NUL" "c \<noteq> CHR ''<''" by (auto simp: IsWhiteSpace_def c_isspace_def uchar_def)
  then show ?case using Cons by (subst condense_text.simps) (simp add: StringEqual_same)
qed

lemma condense_encoded:
  assumes "\<forall>c \<in> set s. plain encoding c" and "\<forall>c \<in> set g. IsWhiteSpace c"
  shows "condense_text ''<'' w (concat (map encode_char s) @ g @ ''<'' @ rest) False encoding = Some (Some (''<'' @ rest), squeeze w s)"
  using assms(1)
proof (induction s arbitrary: w)
  case Nil
  then show ?case using condense_space [OF assms(2)] by simp
next
  case (Cons c s)
  let ?t = "concat (map encode_char s) @ g @ ''<'' @ rest"
  obtain d r where d: "encode_char c = d # r" "d \<notin> {NUL, CHR ''<'', CHR ''>'', CHR 0x22, CHR 0x27}"
    "IsWhiteSpace d \<longleftrightarrow> c = CHR '' ''" "c = CHR '' '' \<longrightarrow> r = [] \<and> d = CHR '' ''"
    using encoded_head [of c] Cons.prems by (auto simp: plain_def)
  have e: "StringEqual (Some (d # r @ ?t)) ''<'' False encoding = Some False" using d(2) by (auto simp: StringEqual_same)
  have IH: "condense_text ''<'' v ?t False encoding = Some (Some (''<'' @ rest), squeeze v s)" for v using Cons by simp
  show ?case
  proof (cases "c = CHR '' ''")
    case True
    then show ?thesis using d e IH by (subst condense_text.simps) simp
  next
    case False
    moreover have "GetChar (d # r @ ?t) encoding = Some (Some ?t, [c])" using encoded_read [of encoding c ?t] Cons.prems d(1) by simp
    ultimately show ?thesis using d e IH by (subst condense_text.simps) simp
  qed
qed

lemma text_end_char: "q \<noteq> NUL \<Longrightarrow> rest \<noteq> [] \<Longrightarrow> hd rest \<noteq> NUL \<Longrightarrow> text_end [q] (Some (q # rest)) = Some (Some rest)"
  by (simp add: text_end_def advance_def)

lemma skip_space: "SkipWhiteSpace (Some (CHR '' '' # s)) encoding = SkipWhiteSpace (Some s) encoding" if "s \<noteq> []" "hd s \<noteq> NUL"
  using that by (auto simp: SkipWhiteSpace_def skip_utf8.simps [of "_ # _"] byte_order_mark_def peek_def IsWhiteSpace_iff uchar_def)

lemma skip_none:
  assumes "c \<noteq> NUL" and "\<not> IsWhiteSpace c" and "encoding = TIXML_ENCODING_UTF8 \<longrightarrow> uchar c < 128"
  shows "SkipWhiteSpace (Some (c # s)) encoding = Some (Some (c # s))"
proof -
  have "encoding = TIXML_ENCODING_UTF8 \<longrightarrow> c \<noteq> CHR 0xEF" using assms(3) by (auto simp: uchar_def)
  then show ?thesis using assms by (auto simp: SkipWhiteSpace_def skip_utf8.simps [of "_ # _"] byte_order_mark_def peek_def)
qed

lemma skip_encoded:
  assumes "\<forall>c \<in> set s. plain encoding c" and "c \<noteq> NUL" and "\<not> IsWhiteSpace c" and "uchar c < 128"
  shows "SkipWhiteSpace (Some (concat (map encode_char s) @ c # rest)) encoding =
    Some (Some (concat (map encode_char (dropWhile (\<lambda>c. c = CHR '' '') s)) @ c # rest))"
  using assms(1)
proof (induction s)
  case Nil
  then show ?case using assms skip_none by simp
next
  case (Cons a s)
  obtain d r where d: "encode_char a = d # r" "d \<noteq> NUL" "IsWhiteSpace d \<longleftrightarrow> a = CHR '' ''" "a = CHR '' '' \<longrightarrow> r = [] \<and> d = CHR '' ''"
    "128 \<le> uchar d \<longrightarrow> 128 \<le> uchar a" using encoded_head [of a] Cons.prems by (auto simp: plain_def)
  show ?case
  proof (cases "a = CHR '' ''")
    case True
    let ?t = "concat (map encode_char s) @ c # rest"
    have "?t \<noteq> [] \<and> hd ?t \<noteq> NUL"
    proof (cases s)
      case (Cons b u)
      then have "b \<noteq> NUL" using \<open>\<forall>c \<in> set (a # s). plain encoding c\<close> by (simp add: plain_def)
      then show ?thesis using encoded_head [of b] Cons by auto
    qed (use assms in simp)
    then have "SkipWhiteSpace (Some (CHR '' '' # ?t)) encoding = SkipWhiteSpace (Some ?t) encoding" by (intro skip_space) simp_all
    also have "\<dots> = Some (Some (concat (map encode_char (dropWhile (\<lambda>c. c = CHR '' '') s)) @ c # rest))" using Cons by simp
    finally have "SkipWhiteSpace (Some (CHR '' '' # ?t)) encoding = Some (Some (concat (map encode_char (dropWhile (\<lambda>c. c = CHR '' '') s)) @ c # rest))" .
    moreover have "encode_char CHR '' '' = '' ''" using True d(1,4) by simp
    ultimately show ?thesis unfolding True by simp
  next
    case False
    have "\<not> IsWhiteSpace d" using False d(3) by simp
    moreover have "encoding = TIXML_ENCODING_UTF8 \<longrightarrow> uchar a < 128" using Cons.prems by (simp add: plain_def)
    then have "encoding = TIXML_ENCODING_UTF8 \<longrightarrow> uchar d < 128" using d(5) by linarith
    ultimately have "SkipWhiteSpace (Some (d # r @ concat (map encode_char s) @ c # rest)) encoding = Some (Some (d # r @ concat (map encode_char s) @ c # rest))"
      by (rule skip_none [OF d(2)])
    then show ?thesis using False d(1) by simp
  qed
qed

lemma xml_text_back:
  assumes "\<not> sublist ''&#x'' s" and "\<forall>c \<in> set s. plain encoding c" and "rest \<noteq> []" and "hd rest \<noteq> NUL"
  shows "q \<in> {CHR 0x22, CHR 0x27} \<Longrightarrow> ReadText condense (Some (EncodeString s @ [q] @ rest)) False [q] False encoding = Some (Some rest, s)"
    and "ReadText True (Some (EncodeString s @ ''<'' @ rest)) True ''<'' False encoding =
      Some (Some rest, squeeze False (dropWhile (\<lambda>c. c = CHR '' '') s))"
proof -
  show "ReadText condense (Some (EncodeString s @ [q] @ rest)) False [q] False encoding = Some (Some rest, s)" if "q \<in> {CHR 0x22, CHR 0x27}"
  proof -
    have "q \<noteq> NUL" using that by auto
    then show ?thesis using that keep_encoded [of q s encoding rest] assms text_end_char [of q rest] by (auto simp: ReadText_def EncodeString_chars)
  qed
  have "\<not> IsWhiteSpace CHR ''<''" "uchar CHR ''<'' < 128" by (simp_all add: IsWhiteSpace_iff uchar_def)
  moreover have "\<forall>c \<in> set (dropWhile (\<lambda>c. c = CHR '' '') s). plain encoding c" using assms(2) set_dropWhileD by fastforce
  ultimately show "ReadText True (Some (EncodeString s @ ''<'' @ rest)) True ''<'' False encoding =
      Some (Some rest, squeeze False (dropWhile (\<lambda>c. c = CHR '' '') s))"
    using skip_encoded [of s encoding "CHR ''<''" rest] condense_encoded [of "dropWhile (\<lambda>c. c = CHR '' '') s" encoding "[]" False rest]
      assms text_end_char [of "CHR ''<''" rest]
    by (simp add: ReadText_def EncodeString_chars)
qed

text \<open>C34: What EncodeString makes of a text is what ReadText reads back from it, up to the quotation mark behind an attribute
  value in every case, and up to the next tag with runs of spaces condensed and spaces at the ends dropped; the text has
  no NUL, no hexadecimal reference, and in UTF-8 only single bytes.\<close>

theorem xml_text_roundtrip:
  assumes "\<not> sublist ''&#x'' s" and "\<forall>c \<in> set s. plain encoding c" and "q \<in> {CHR 0x22, CHR 0x27}" and "rest \<noteq> []" and "hd rest \<noteq> NUL"
  shows "ReadText condense (Some (EncodeString s @ [q] @ rest)) False [q] False encoding = Some (Some rest, s) \<and>
    ReadText True (Some (EncodeString s @ ''<'' @ rest)) True ''<'' False encoding =
      Some (Some rest, squeeze False (dropWhile (\<lambda>c. c = CHR '' '') s))"
  using xml_text_back [OF assms(1,2,4,5)] assms(3) by blast

theorem xml_text_roundtrip_witness:
  "ReadText True (Some (EncodeString ''a < b & \"c\"'' @ [CHR 0x22] @ ''>'')) False [CHR 0x22] False TIXML_ENCODING_UTF8 = Some (Some ''>'', ''a < b & \"c\"'') \<and>
    ReadText True (Some (EncodeString ''a < b & \"c\"'' @ ''<'' @ ''>'')) True ''<'' False TIXML_ENCODING_UTF8 =
      Some (Some ''>'', squeeze False (dropWhile (\<lambda>c. c = CHR '' '') ''a < b & \"c\"''))"
proof (rule xml_text_roundtrip)
  show "\<not> sublist ''&#x'' ''a < b & \"c\"''" by (simp add: sublist_Cons_right)
  show "\<forall>c \<in> set ''a < b & \"c\"''. plain TIXML_ENCODING_UTF8 c" by (simp add: plain_def uchar_def)
qed simp_all

lemma reread_utf8:
  assumes "utf8_sequence n s" and "0 < n" and "n \<noteq> 38"
  shows "GetChar (s @ t) TIXML_ENCODING_UTF8 = Some (Some t, s)"
proof -
  obtain c r where s: "s = c # r" using assms(1) by (cases s) (auto simp: utf8_sequence_def)
  have len: "length s = utf8ByteTable ! uchar c" using assms(1) s by (simp add: utf8_sequence_def)
  show ?thesis
  proof (cases "r = []")
    case True
    then have "uchar c = n" using assms(1) s by (simp add: utf8_sequence_def)
    then have "c \<noteq> CHR ''&''" using assms(3) by (auto simp: uchar_def)
    then show ?thesis using True s len by (simp add: GetChar_def)
  next
    case False
    have nz: "uchar x \<noteq> 0" if "x \<in> set r" for x using assms(1) s that by (auto simp: utf8_sequence_def)
    have "uchar c \<noteq> 0"
    proof
      assume "uchar c = 0"
      then have "length s = 1" using len utf8_lead(1) [of c 0] by simp
      then show False using False s by simp
    qed
    then have "takeWhile (\<lambda>c. c \<noteq> NUL) s = s" using nz s by (auto simp: takeWhile_eq_all_conv uchar_NUL)
    then have "takeWhile (\<lambda>c. c \<noteq> NUL) (take (length s) (s @ t)) = s" by (simp del: takeWhile_eq_all_conv)
    moreover have "utf8ByteTable ! uchar c \<noteq> 1" using len s False by (cases r) auto
    moreover have "advance (length s) (s @ t) = Some t" by (simp add: advance_def)
    moreover have "s @ t \<noteq> []" "hd (s @ t) = c" using s by simp_all
    ultimately show ?thesis unfolding GetChar_def Let_def by (simp del: takeWhile_eq_all_conv flip: len)
  qed
qed

text \<open>C35: The bytes ConvertUTF32ToUTF8 makes of a code point are its UTF-8 sequence: as many as the table says for the first byte,
  with the value of the code point; and in a UTF-8 text GetChar takes exactly these bytes as one character.\<close>

theorem xml_utf8:
  assumes "input < 0x110000"
  shows "utf8_sequence (unat input) (ConvertUTF32ToUTF8 input) \<and>
    (0 < unat input \<and> unat input \<noteq> 38 \<longrightarrow>
     GetChar (ConvertUTF32ToUTF8 input @ t) TIXML_ENCODING_UTF8 = Some (Some t, ConvertUTF32ToUTF8 input))"
  using utf8_convert [OF assms] reread_utf8 by blast

theorem xml_utf8_witness:
  "utf8_sequence 8364 (ConvertUTF32ToUTF8 0x20AC) \<and>
    GetChar (ConvertUTF32ToUTF8 0x20AC @ ''x'') TIXML_ENCODING_UTF8 = Some (Some ''x'', ConvertUTF32ToUTF8 0x20AC)"
  using xml_utf8 [of "0x20AC" "''x''"] by simp

section \<open>Rows and columns\<close>

definition ascii :: "string \<Rightarrow> bool" where
  "ascii s \<longleftrightarrow> (\<forall>c \<in> set s. c \<noteq> NUL \<and> uchar c < 128)"

definition position :: "int \<Rightarrow> char \<Rightarrow> int \<times> int \<Rightarrow> int \<times> int" where
  \<comment> \<open>row and column behind a character\<close>
  "position tabs ch rc =
     (if ch = CHR 0x0A then (fst rc + 1, 0)
      else if ch = CHR 0x09 then (fst rc, (snd rc div tabs + 1) * tabs)
      else (fst rc, snd rc + 1))"

lemma ascii_step:
  assumes "uchar c < 128"
  shows "c \<noteq> CHR 0xEF" and "advance (utf8ByteTable ! uchar c) (c # p) = Some p"
  using assms utf8_lead(1) [OF refl, of c] by (auto simp: uchar_def advance_def)

lemma stamp_position:
  assumes "ascii x" and "CHR 0x0D \<notin> set x" and "peek now 0 \<noteq> CHR 0x0D"
  shows "stamp_loop now encoding tabs (x @ now) r c = Some (case fold (position tabs) x (r, c) of (r, c) \<Rightarrow> Reached now r c)"
  using assms(1,2)
proof (induction x arbitrary: r c)
  case Nil
  then show ?case by (simp add: stamp_loop.simps)
next
  case (Cons a x)
  then have a: "a \<noteq> NUL" "uchar a < 128" "a \<noteq> CHR 0x0D" by (auto simp: ascii_def)
  have IH: "stamp_loop now encoding tabs (x @ now) r c = Some (case fold (position tabs) x (r, c) of (r, c) \<Rightarrow> Reached now r c)" for r c
    using Cons by (simp add: ascii_def)
  have pk: "peek (a # x @ now) (Suc 0) \<noteq> CHR 0x0D"
  proof (cases x)
    case Nil
    then show ?thesis using assms(3) by (cases now) (simp_all add: peek_def)
  next
    case (Cons b y)
    then show ?thesis using \<open>CHR 0x0D \<notin> set (a # x)\<close> by (auto simp: peek_def)
  qed
  show ?case using a IH pk ascii_step [OF a(2)]
    by (subst stamp_loop.simps) (auto simp: position_def)
qed

text \<open>For a text of single bytes with line feeds only, Stamp counts rows and columns as one expects: a line feed starts
  the next row, a tabulator moves to the next multiple of the tab size, any other character to the next column.\<close>

theorem xml_stamp_position:
  assumes "ascii x" and "CHR 0x0D \<notin> set x" and "peek now 0 \<noteq> CHR 0x0D" and "stamp d = x @ now" and "1 \<le> tabsize d"
  shows "Stamp now encoding d = Some (case fold (position (tabsize d)) x (row d, col d) of (r, c) \<Rightarrow> d\<lparr>row := r, col := c, stamp := now\<rparr>)"
  using assms stamp_position [OF assms(1-3), of encoding "tabsize d" "row d" "col d"]
  by (simp add: Stamp_def split: prod.split)

theorem xml_stamp_position_witness:
  "Stamp ''>'' TIXML_ENCODING_UTF8 \<lparr>row = 0, col = 0, stamp = [CHR ''a'', CHR 0x0A, CHR 0x09, CHR ''b''] @ ''>'', tabsize = 4\<rparr> =
    Some \<lparr>row = 1, col = 5, stamp = ''>'', tabsize = 4\<rparr>"
proof -
  have "Stamp ''>'' TIXML_ENCODING_UTF8 \<lparr>row = 0, col = 0, stamp = [CHR ''a'', CHR 0x0A, CHR 0x09, CHR ''b''] @ ''>'', tabsize = 4\<rparr> =
    Some (case fold (position 4) [CHR ''a'', CHR 0x0A, CHR 0x09, CHR ''b''] (0, 0) of (r, c) \<Rightarrow>
      \<lparr>row = 0, col = 0, stamp = [CHR ''a'', CHR 0x0A, CHR 0x09, CHR ''b''] @ ''>'', tabsize = 4\<rparr>\<lparr>row := r, col := c, stamp := ''>''\<rparr>)"
    by (subst xml_stamp_position [where x = "[CHR ''a'', CHR 0x0A, CHR 0x09, CHR ''b'']"]) (simp_all add: ascii_def uchar_def peek_def)
  then show ?thesis by (simp add: position_def)
qed

lemma stamp_ascii:
  assumes "ascii x"
  shows "\<exists>s. stamp_loop now encoding tabs (x @ [NUL]) r c = Some s \<and> (case s of Stopped \<Rightarrow> True | Reached p _ _ \<Rightarrow> suffix p (x @ [NUL]))"
  using assms
proof (induction "length x" arbitrary: x r c rule: less_induct)
  case less
  show ?case
  proof (cases x)
    case Nil
    then show ?thesis by (subst stamp_loop.simps) simp
  next
    case (Cons a y)
    then have a: "a \<noteq> NUL" "uchar a < 128" "ascii y" using less.prems by (auto simp: ascii_def)
    have IH: "\<exists>s. stamp_loop now encoding tabs (drop n y @ [NUL]) r c = Some s \<and> (case s of Stopped \<Rightarrow> True | Reached p _ _ \<Rightarrow> suffix p (x @ [NUL]))"
      for n r c
    proof -
      have "ascii (drop n y)" using a(3) by (auto simp: ascii_def dest: in_set_dropD)
      then have "\<exists>s. stamp_loop now encoding tabs (drop n y @ [NUL]) r c = Some s \<and> (case s of Stopped \<Rightarrow> True | Reached p _ _ \<Rightarrow> suffix p (drop n y @ [NUL]))"
        using Cons by (intro less.hyps) simp_all
      then obtain s where s: "stamp_loop now encoding tabs (drop n y @ [NUL]) r c = Some s"
        "case s of Stopped \<Rightarrow> True | Reached p _ _ \<Rightarrow> suffix p (drop n y @ [NUL])" by blast
      have "suffix (drop n y @ [NUL]) (x @ [NUL])" 
      proof -
        have "x @ [NUL] = (a # take n y) @ drop n y @ [NUL]" using Cons by simp
        then show ?thesis unfolding suffix_def by blast
      qed
      then show ?thesis using s by (auto split: stamped.splits dest: suffix_order.trans)
    qed
    have two: "drop 2 (x @ [NUL]) = drop 1 y @ [NUL]" if "peek (x @ [NUL]) 1 \<noteq> NUL"
      using that Cons by (cases y) (auto simp: peek_def)
    show ?thesis
    proof (cases "length now < length (x @ [NUL])")
      case False
      then show ?thesis by (subst stamp_loop.simps) simp
    next
      case True
      then show ?thesis using a ascii_step(1) [OF a(2)] ascii_step(2) [OF a(2), of "y @ [NUL]"] IH [of 0] IH [of 1] two Cons
        by (subst stamp_loop.simps) (auto simp: peek_def)
    qed
  qed
qed

lemma stamp_stuck:
  assumes "stamp_loop now encoding tabs p r c = Some s"
  shows "\<not> (encoding = TIXML_ENCODING_UTF8 \<and> length now < length p \<and> hd p = CHR 0xEF \<and> (peek p 1 = NUL \<or> peek p 2 = NUL))"
  using assms
proof (rule stamp_loop.raw_induct [rotated])
  fix f :: "string \<Rightarrow> encoding \<Rightarrow> int \<Rightarrow> string \<Rightarrow> int \<Rightarrow> int \<Rightarrow> stamped option" and now encoding tabs p r c s
  assume IH: "\<And>now encoding tabs p r c s. f now encoding tabs p r c = Some s \<Longrightarrow>
    \<not> (encoding = TIXML_ENCODING_UTF8 \<and> length now < length p \<and> hd p = CHR 0xEF \<and> (peek p 1 = NUL \<or> peek p 2 = NUL))"
  assume step: "(if \<not> length now < length p then Some (Reached p r c)
      else if hd p = NUL then Some Stopped
      else if hd p = CHR 0x0D then f now encoding tabs (if peek p 1 = CHR 0x0A then drop 2 p else tl p) (r + 1) 0
      else if hd p = CHR 0x0A then f now encoding tabs (if peek p 1 = CHR 0x0D then drop 2 p else tl p) (r + 1) 0
      else if hd p = CHR 0x09 then f now encoding tabs (tl p) r ((c div tabs + 1) * tabs)
      else if hd p = CHR 0xEF
      then (if encoding = TIXML_ENCODING_UTF8
            then (if peek p 1 \<noteq> NUL \<and> peek p 2 \<noteq> NUL
                  then f now encoding tabs (drop 3 p) r (if byte_order_mark p then c else c + 1)
                  else f now encoding tabs p r c)
            else f now encoding tabs (tl p) r (c + 1))
      else if encoding = TIXML_ENCODING_UTF8
      then Option.bind (advance (utf8ByteTable ! uchar (hd p)) p) (\<lambda>q. f now encoding tabs q r (c + 1))
      else f now encoding tabs (tl p) r (c + 1)) = Some s"
  show "\<not> (encoding = TIXML_ENCODING_UTF8 \<and> length now < length p \<and> hd p = CHR 0xEF \<and> (peek p 1 = NUL \<or> peek p 2 = NUL))"
    using step IH [of now encoding tabs p r c s] by auto
qed

text \<open>C39: Two ways in which a truncated character at the end of a UTF-8 text harms the parser: behind the byte EF with fewer
  than two more bytes before the NUL, Stamp never gets past the character; and reading a text whose last character lacks
  bytes runs over the NUL out of the buffer.\<close>

theorem xml_truncated_utf8:
  "(length now < length p \<and> hd p = CHR 0xEF \<and> (peek p 1 = NUL \<or> peek p 2 = NUL) \<and> stamp d = p \<and> 1 \<le> tabsize d \<longrightarrow>
      Stamp now TIXML_ENCODING_UTF8 d = None) \<and>
   (x \<noteq> [] \<and> NUL \<notin> set x \<and> length x < utf8ByteTable ! uchar (hd x) \<and> hd x \<noteq> q \<and> q \<noteq> NUL \<longrightarrow>
      keep_text [q] (x @ [NUL]) False TIXML_ENCODING_UTF8 = None)"
proof (intro conjI impI)
  assume a: "length now < length p \<and> hd p = CHR 0xEF \<and> (peek p 1 = NUL \<or> peek p 2 = NUL) \<and> stamp d = p \<and> 1 \<le> tabsize d"
  then have "stamp_loop now TIXML_ENCODING_UTF8 (tabsize d) p (row d) (col d) = None"
    using stamp_stuck [of now TIXML_ENCODING_UTF8 "tabsize d" p "row d" "col d"] by (cases "stamp_loop now TIXML_ENCODING_UTF8 (tabsize d) p (row d) (col d)") auto
  then show "Stamp now TIXML_ENCODING_UTF8 d = None" using a by (simp add: Stamp_def)
next
  assume a: "x \<noteq> [] \<and> NUL \<notin> set x \<and> length x < utf8ByteTable ! uchar (hd x) \<and> hd x \<noteq> q \<and> q \<noteq> NUL"
  then obtain b y where x: "x = b # y" "b \<noteq> NUL" "b \<noteq> q" by (cases x) auto
  let ?n = "utf8ByteTable ! uchar b"
  have n: "?n \<noteq> 1" "length (x @ [NUL]) \<le> ?n" using a x by auto
  have se: "StringEqual (Some (x @ [NUL])) [q] False TIXML_ENCODING_UTF8 = Some False" using x by (simp add: StringEqual_same)
  show "keep_text [q] (x @ [NUL]) False TIXML_ENCODING_UTF8 = None"
  proof (cases "length (x @ [NUL]) = ?n")
    case True
    then have adv: "advance ?n (x @ [NUL]) = Some []" by (simp add: advance_def)
    have "\<exists>s. GetChar (x @ [NUL]) TIXML_ENCODING_UTF8 = Some (Some [], s)" using adv n(1) x by (simp add: GetChar_def Let_def)
    moreover have "keep_text [q] [] False TIXML_ENCODING_UTF8 = None" by (subst keep_text.simps) simp
    ultimately show ?thesis using se x by (subst keep_text.simps) auto
  next
    case False
    then have adv: "advance ?n (x @ [NUL]) = None" using n(2) by (simp add: advance_def)
    have "GetChar (x @ [NUL]) TIXML_ENCODING_UTF8 = None" using adv n(1) x by (simp add: GetChar_def Let_def)
    then show ?thesis using se x by (subst keep_text.simps) simp
  qed
qed

theorem xml_truncated_utf8_witness:
  "Stamp [NUL] TIXML_ENCODING_UTF8 \<lparr>row = 0, col = 0, stamp = [CHR 0xEF, NUL], tabsize = 4\<rparr> = None \<and>
   keep_text ''<'' ([CHR 0xE4, CHR 0xB8] @ [NUL]) False TIXML_ENCODING_UTF8 = None"
proof -
  have "utf8ByteTable ! uchar CHR 0xE4 = 3" using utf8_lead(3) [of "CHR 0xE4" 228] by (simp add: uchar_def)
  then show ?thesis using xml_truncated_utf8 [of "[NUL]" "[CHR 0xEF, NUL]" "\<lparr>row = 0, col = 0, stamp = [CHR 0xEF, NUL], tabsize = 4\<rparr>"
        "[CHR 0xE4, CHR 0xB8]" "CHR ''<''"] by (simp add: peek_def)
qed

section \<open>References that are passed through\<close>

lemma pass_reference_all: "CHR '';'' \<notin> set s \<Longrightarrow> pass_reference (s @ [c]) = (s, [c])"
proof (induction s)
  case (Cons a s)
  then show ?case by (cases s) auto
qed simp

text \<open>Behind \<open>&#x\<close> EncodeString copies everything up to the next semicolon unchanged: without a semicolon that is all of the
  text but its last character, quotation marks and tags included.\<close>

theorem xml_reference_unescaped:
  assumes "CHR '';'' \<notin> set s"
  shows "EncodeString (''&#x'' @ s @ [c]) = ''&#x'' @ s @ encode_char c"
proof -
  have "CHR '';'' \<notin> set (''&#x'' @ s)" using assms by simp
  from pass_reference_all [OF this, of c] have "pass_reference (''&#x'' @ s @ [c]) = (''&#x'' @ s, [c])" by simp
  moreover have "EncodeString [c] = encode_char c" by (simp add: EncodeString.simps)
  ultimately show ?thesis by (subst EncodeString.simps) simp
qed

theorem xml_reference_unescaped_witness:
  "EncodeString (''&#x'' @ ''><b>'' @ ''!'') = ''&#x'' @ ''><b>'' @ encode_char CHR ''!''"
  by (rule xml_reference_unescaped) simp

end
