(* ===== verification/XmlParse.thy ===== *)
theory XmlParse
  imports XmlText
begin

text \<open>
  \<open>tinyxml/tinyxmlparser.cpp\<close>: the parser of TinyXML. A node is a value with its location, its children are a list
  in the order of the linked list that holds them. Every node is parsed as a part of a document, so that \<open>GetDocument\<close> finds
  it, except text nodes and the attributes of declarations, which have no document and report no errors. The state is
  the position of the parser (\<open>TiXmlParsingData\<close>) and the error of the document. Results are those of \<open>XmlText\<close>: \<open>None\<close> as a
  pointer is null, \<open>None\<close> as a result a failed \<open>assert\<close>, a read outside of the buffer or a loop without end. The global
  \<open>condenseWhiteSpace\<close> is an argument.
\<close>

type_synonym cursor = "int \<times> int"

record xml_attribute =
  a_name :: string
  a_value :: string
  a_location :: cursor

datatype xml_node =
    Element cursor string "xml_attribute list" "xml_node list"
  | Comment cursor string
  | Unknown cursor string
  | Text cursor string bool
  | Declaration cursor string string string

datatype xml_error =
    TIXML_ERROR_OPENING_FILE | TIXML_ERROR_PARSING_ELEMENT | TIXML_ERROR_FAILED_TO_READ_ELEMENT_NAME
  | TIXML_ERROR_READING_ELEMENT_VALUE | TIXML_ERROR_READING_ATTRIBUTES | TIXML_ERROR_PARSING_EMPTY | TIXML_ERROR_READING_END_TAG
  | TIXML_ERROR_PARSING_UNKNOWN | TIXML_ERROR_PARSING_COMMENT | TIXML_ERROR_PARSING_DECLARATION | TIXML_ERROR_DOCUMENT_EMPTY
  | TIXML_ERROR_PARSING_CDATA

record pstate =
  data :: parsing_data
  err :: "(xml_error \<times> cursor) option"

definition no_location :: cursor where
  "no_location = (-1, -1)"

definition at_end :: "ptr \<Rightarrow> bool option" where
  \<comment> \<open>\<open>!p || !*p\<close>\<close>
  "at_end p = (case p of None \<Rightarrow> Some True | Some s \<Rightarrow> if s = [] then None else Some (hd s = NUL))"

definition stamp_at :: "ptr \<Rightarrow> encoding \<Rightarrow> pstate \<Rightarrow> (cursor \<times> pstate) option" where
  \<comment> \<open>\<open>data->Stamp\<close> and \<open>data->Cursor\<close>\<close>
  "stamp_at p encoding st =
     (case p of
        None \<Rightarrow> None
      | Some s \<Rightarrow> map_option (\<lambda>d. ((row d, col d), st\<lparr>data := d\<rparr>)) (Stamp s encoding (data st)))"

definition SetError :: "xml_error \<Rightarrow> ptr \<Rightarrow> encoding \<Rightarrow> pstate \<Rightarrow> pstate option" where
  "SetError e pError encoding st =
     (if err st \<noteq> None then Some st
      else case pError of
        None \<Rightarrow> Some (st\<lparr>err := Some (e, no_location)\<rparr>)
      | Some s \<Rightarrow> map_option (\<lambda>(loc, st). st\<lparr>err := Some (e, loc)\<rparr>) (stamp_at (Some s) encoding st))"

section \<open>Attributes\<close>

fun bare_value :: "string \<Rightarrow> (string \<times> string \<times> bool) option" where
  \<comment> \<open>a value without quotes, what follows it, and whether a quote was met\<close>
  "bare_value [] = None"
| "bare_value (c # p) =
     (if c \<noteq> NUL \<and> \<not> IsWhiteSpace c \<and> c \<noteq> CHR ''/'' \<and> c \<noteq> CHR ''>''
      then if c = CHR 0x27 \<or> c = CHR 0x22 then Some ([], c # p, True)
           else map_option (\<lambda>(v, q, e). (c # v, q, e)) (bare_value p)
      else Some ([], c # p, False))"

definition attribute_error :: "bool \<Rightarrow> ptr \<Rightarrow> encoding \<Rightarrow> xml_attribute \<Rightarrow> pstate \<Rightarrow> (ptr \<times> xml_attribute \<times> pstate) option" where
  \<comment> \<open>\<open>has_document\<close>: \<open>SetDocument\<close> was called\<close>
  "attribute_error has_document p encoding a st =
     map_option (\<lambda>st. (None, a, st)) (if has_document then SetError TIXML_ERROR_READING_ATTRIBUTES p encoding st else Some st)"

definition Attribute_Parse :: "bool \<Rightarrow> bool \<Rightarrow> ptr \<Rightarrow> encoding \<Rightarrow> pstate \<Rightarrow> (ptr \<times> xml_attribute \<times> pstate) option" where
  "Attribute_Parse cond has_document p encoding st = do {
     let a = \<lparr>a_name = [], a_value = [], a_location = no_location\<rparr>;
     p \<leftarrow> SkipWhiteSpace p encoding;
     e \<leftarrow> at_end p;
     if e then Some (None, a, st)
     else do {
       (loc, st) \<leftarrow> stamp_at p encoding st;
       let a = a\<lparr>a_location := loc\<rparr>;
       let pErr = p;
       (p, name) \<leftarrow> ReadName p;
       let a = a\<lparr>a_name := name\<rparr>;
       e \<leftarrow> at_end p;
       if e then attribute_error has_document pErr encoding a st
       else do {
         p \<leftarrow> SkipWhiteSpace p encoding;
         e \<leftarrow> at_end p;
         if e \<or> hd (the p) \<noteq> CHR ''='' then attribute_error has_document p encoding a st
         else do {
           p \<leftarrow> SkipWhiteSpace (Some (tl (the p))) encoding;
           e \<leftarrow> at_end p;
           if e then attribute_error has_document p encoding a st
           else if hd (the p) = CHR 0x27
           then map_option (\<lambda>(q, v). (q, a\<lparr>a_value := v\<rparr>, st)) (ReadText cond (Some (tl (the p))) False [CHR 0x27] False encoding)
           else if hd (the p) = CHR 0x22
           then map_option (\<lambda>(q, v). (q, a\<lparr>a_value := v\<rparr>, st)) (ReadText cond (Some (tl (the p))) False [CHR 0x22] False encoding)
           else do {
             (v, q, quote) \<leftarrow> bare_value (the p);
             let a = a\<lparr>a_value := v\<rparr>;
             if quote then attribute_error has_document (Some q) encoding a st else Some (Some q, a, st)
           }
         }
       }
     }
   }"

section \<open>The start of an element\<close>

datatype head = Finished ptr | Content string

definition Find :: "string \<Rightarrow> xml_attribute list \<Rightarrow> xml_attribute option" where
  "Find name attrs = find (\<lambda>a. a_name a = name) attrs"

definition head_error :: "xml_error \<Rightarrow> ptr \<Rightarrow> encoding \<Rightarrow> 'a \<Rightarrow> pstate \<Rightarrow> (head \<times> 'a \<times> pstate) option" where
  "head_error e p encoding x st = map_option (\<lambda>st. (Finished None, x, st)) (SetError e p encoding st)"

partial_function (option) attribute_loop ::
  "bool \<Rightarrow> ptr \<Rightarrow> encoding \<Rightarrow> xml_attribute list \<Rightarrow> pstate \<Rightarrow> (head \<times> xml_attribute list \<times> pstate) option" where
  "attribute_loop cond p encoding attrs st = do {
     e \<leftarrow> at_end p;
     if e then Some (Finished p, attrs, st)
     else do {
       let pErr = p;
       p \<leftarrow> SkipWhiteSpace p encoding;
       e \<leftarrow> at_end p;
       if e then head_error TIXML_ERROR_READING_ATTRIBUTES pErr encoding attrs st
       else if hd (the p) = CHR ''/''
       then do {
         let p = tl (the p);
         if p = [] then None
         else if hd p \<noteq> CHR ''>'' then head_error TIXML_ERROR_PARSING_EMPTY (Some p) encoding attrs st
         else Some (Finished (Some (tl p)), attrs, st)
       }
       else if hd (the p) = CHR ''>'' then Some (Content (tl (the p)), attrs, st)
       else do {
         (q, a, st) \<leftarrow> Attribute_Parse cond True p encoding st;
         e \<leftarrow> at_end q;
         if e then head_error TIXML_ERROR_PARSING_ELEMENT p encoding attrs st
         else if Find (a_name a) attrs \<noteq> None then head_error TIXML_ERROR_PARSING_ELEMENT p encoding attrs st
         else attribute_loop cond q encoding (attrs @ [a]) st
       }
     }
   }"

definition element_head :: "bool \<Rightarrow> ptr \<Rightarrow> encoding \<Rightarrow> pstate \<Rightarrow> (head \<times> (cursor \<times> string \<times> xml_attribute list) \<times> pstate) option" where
  \<comment> \<open>\<open>TiXmlElement::Parse\<close> up to the end of the start tag\<close>
  "element_head cond p encoding st = do {
     p \<leftarrow> SkipWhiteSpace p encoding;
     e \<leftarrow> at_end p;
     if e then head_error TIXML_ERROR_PARSING_ELEMENT None encoding (no_location, [], []) st
     else do {
       (loc, st) \<leftarrow> stamp_at p encoding st;
       if hd (the p) \<noteq> CHR ''<'' then head_error TIXML_ERROR_PARSING_ELEMENT p encoding (loc, [], []) st
       else do {
         pErr \<leftarrow> SkipWhiteSpace (Some (tl (the p))) encoding;
         (p, name) \<leftarrow> ReadName pErr;
         e \<leftarrow> at_end p;
         if e then head_error TIXML_ERROR_FAILED_TO_READ_ELEMENT_NAME pErr encoding (loc, name, []) st
         else map_option (\<lambda>(h, attrs, st). (h, (loc, name, attrs), st)) (attribute_loop cond p encoding [] st)
       }
     }
   }"

definition end_tag :: "string \<Rightarrow> ptr \<Rightarrow> encoding \<Rightarrow> pstate \<Rightarrow> (ptr \<times> pstate) option" where
  \<comment> \<open>the end of \<open>TiXmlElement::Parse\<close>\<close>
  "end_tag name p encoding st = do {
     let fail = (\<lambda>p. map_option (\<lambda>st. (None, st)) (SetError TIXML_ERROR_READING_END_TAG p encoding st));
     e \<leftarrow> at_end p;
     if e then fail p
     else do {
       same \<leftarrow> StringEqual p (''</'' @ name) False encoding;
       if \<not> same then fail p
       else do {
         q \<leftarrow> advance (length (''</'' @ name)) (the p);
         p \<leftarrow> SkipWhiteSpace (Some q) encoding;
         e \<leftarrow> at_end p;
         if \<not> e \<and> hd (the p) = CHR ''>'' then Some (Some (tl (the p)), st) else fail p
       }
     }
   }"

section \<open>The other nodes\<close>

fun upto_gt :: "string \<Rightarrow> (string \<times> string) option" where
  "upto_gt [] = None"
| "upto_gt (c # p) = (if c = NUL \<or> c = CHR ''>'' then Some ([], c # p) else map_option (\<lambda>(v, q). (c # v, q)) (upto_gt p))"

definition Unknown_Parse :: "ptr \<Rightarrow> encoding \<Rightarrow> pstate \<Rightarrow> (ptr \<times> xml_node \<times> pstate) option" where
  "Unknown_Parse p encoding st = do {
     p \<leftarrow> SkipWhiteSpace p encoding;
     (loc, st) \<leftarrow> stamp_at p encoding st;
     e \<leftarrow> at_end p;
     if e \<or> hd (the p) \<noteq> CHR ''<''
     then map_option (\<lambda>st. (None, Unknown loc [], st)) (SetError TIXML_ERROR_PARSING_UNKNOWN p encoding st)
     else do {
       (v, q) \<leftarrow> upto_gt (tl (the p));
       Some (Some (if hd q = CHR ''>'' then tl q else q), Unknown loc v, st)
     }
   }"

fun upto_tag :: "string \<Rightarrow> string \<Rightarrow> (string \<times> string) option" where
  \<comment> \<open>the characters before the end tag or the NUL\<close>
  "upto_tag endTag [] = None"
| "upto_tag endTag (c # p) =
     (if c = NUL \<or> same_start id (c # p) endTag then Some ([], c # p) else map_option (\<lambda>(v, q). (c # v, q)) (upto_tag endTag p))"

definition Comment_Parse :: "ptr \<Rightarrow> encoding \<Rightarrow> pstate \<Rightarrow> (ptr \<times> xml_node \<times> pstate) option" where
  "Comment_Parse p encoding st = do {
     p \<leftarrow> SkipWhiteSpace p encoding;
     (loc, st) \<leftarrow> stamp_at p encoding st;
     same \<leftarrow> StringEqual p ''<!--'' False encoding;
     if \<not> same then map_option (\<lambda>st. (None, Comment loc [], st)) (SetError TIXML_ERROR_PARSING_COMMENT p encoding st)
     else do {
       q \<leftarrow> advance (length ''<!--'') (the p);
       (v, q) \<leftarrow> upto_tag ''-->'' q;
       q \<leftarrow> (if hd q \<noteq> NUL then advance (length ''-->'') q else Some q);
       Some (Some q, Comment loc v, st)
     }
   }"

definition Text_Parse :: "bool \<Rightarrow> bool \<Rightarrow> bool \<Rightarrow> ptr \<Rightarrow> encoding \<Rightarrow> pstate \<Rightarrow> (ptr \<times> xml_node \<times> pstate) option" where
  "Text_Parse cond cdata has_document p encoding st = do {
     (loc, st) \<leftarrow> stamp_at p encoding st;
     same \<leftarrow> StringEqual p ''<![CDATA['' False encoding;
     if cdata \<or> same
     then if \<not> same
          then map_option (\<lambda>st. (None, Text loc [] True, st))
            (if has_document then SetError TIXML_ERROR_PARSING_CDATA p encoding st else Some st)
          else do {
            q \<leftarrow> advance (length ''<![CDATA['') (the p);
            (v, q) \<leftarrow> upto_tag '']]>'' q;
            (r, dummy) \<leftarrow> ReadText cond (Some q) False '']]>'' False encoding;
            Some (r, Text loc v True, st)
          }
     else do {
       (q, v) \<leftarrow> ReadText cond p True ''<'' False encoding;
       e \<leftarrow> at_end q;
       Some (if e then None else Some (CHR ''<'' # the q), Text loc v False, st)
     }
   }"

definition Blank :: "string \<Rightarrow> bool" where
  "Blank v \<longleftrightarrow> list_all IsWhiteSpace v"

fun read_over :: "string \<Rightarrow> string option" where
  "read_over [] = None"
| "read_over (c # p) = (if c \<noteq> NUL \<and> c \<noteq> CHR ''>'' \<and> \<not> IsWhiteSpace c then read_over p else Some (c # p))"

partial_function (option) declaration_loop ::
  "bool \<Rightarrow> ptr \<Rightarrow> encoding \<Rightarrow> string \<times> string \<times> string \<Rightarrow> pstate \<Rightarrow> (ptr \<times> (string \<times> string \<times> string) \<times> pstate) option" where
  "declaration_loop cond p encoding d st = do {
     e \<leftarrow> at_end p;
     if e then Some (None, d, st)
     else if hd (the p) = CHR ''>'' then Some (Some (tl (the p)), d, st)
     else do {
       p \<leftarrow> SkipWhiteSpace p encoding;
       is_version \<leftarrow> StringEqual p ''version'' True encoding;
       is_encoding \<leftarrow> StringEqual p ''encoding'' True encoding;
       is_standalone \<leftarrow> StringEqual p ''standalone'' True encoding;
       if is_version \<or> is_encoding \<or> is_standalone
       then do {
         (q, a, st) \<leftarrow> Attribute_Parse cond False p encoding st;
         declaration_loop cond q encoding
           (case d of (v, e, s) \<Rightarrow>
             if is_version then (a_value a, e, s) else if is_encoding then (v, a_value a, s) else (v, e, a_value a)) st
       }
       else do {
         q \<leftarrow> read_over (the p);
         declaration_loop cond (Some q) encoding d st
       }
     }
   }"

definition Declaration_Parse :: "bool \<Rightarrow> ptr \<Rightarrow> encoding \<Rightarrow> pstate \<Rightarrow> (ptr \<times> xml_node \<times> pstate) option" where
  "Declaration_Parse cond p encoding st = do {
     p \<leftarrow> SkipWhiteSpace p encoding;
     e \<leftarrow> at_end p;
     same \<leftarrow> (if e then Some False else StringEqual p ''<?xml'' True encoding);
     if \<not> same
     then map_option (\<lambda>st. (None, Declaration no_location [] [] [], st)) (SetError TIXML_ERROR_PARSING_DECLARATION None encoding st)
     else do {
       (loc, st) \<leftarrow> stamp_at p encoding st;
       q \<leftarrow> advance 5 (the p);
       (r, (v, e, s), st) \<leftarrow> declaration_loop cond (Some q) encoding ([], [], []) st;
       Some (r, Declaration loc v e s, st)
     }
   }"

section \<open>Nodes\<close>

datatype kind = Is_declaration | Is_comment | Is_cdata | Is_unknown | Is_element

definition Identify :: "ptr \<Rightarrow> encoding \<Rightarrow> kind option option" where
  "Identify p encoding = do {
     p \<leftarrow> SkipWhiteSpace p encoding;
     e \<leftarrow> at_end p;
     if e \<or> hd (the p) \<noteq> CHR ''<'' then Some None
     else do {
       p \<leftarrow> SkipWhiteSpace p encoding;
       e \<leftarrow> at_end p;
       if e then Some None
       else do {
         is_header \<leftarrow> StringEqual p ''<?xml'' True encoding;
         is_comment \<leftarrow> StringEqual p ''<!--'' False encoding;
         is_cdata \<leftarrow> StringEqual p ''<![CDATA['' False encoding;
         is_dtd \<leftarrow> StringEqual p ''<!'' False encoding;
         Some (Some (if is_header then Is_declaration
           else if is_comment then Is_comment
           else if is_cdata then Is_cdata
           else if is_dtd then Is_unknown
           else if IsAlpha (peek (the p) 1) \<or> peek (the p) 1 = CHR ''_'' then Is_element
           else Is_unknown))
       }
     }
   }"

definition parse_leaf :: "bool \<Rightarrow> kind \<Rightarrow> ptr \<Rightarrow> encoding \<Rightarrow> pstate \<Rightarrow> (ptr \<times> xml_node \<times> pstate) option" where
  \<comment> \<open>\<open>Parse\<close> of the nodes without children\<close>
  "parse_leaf cond k p encoding st =
     (case k of
        Is_declaration \<Rightarrow> Declaration_Parse cond p encoding st
      | Is_comment \<Rightarrow> Comment_Parse p encoding st
      | Is_cdata \<Rightarrow> Text_Parse cond True True p encoding st
      | _ \<Rightarrow> Unknown_Parse p encoding st)"

partial_function (option) parse_task ::
  "bool \<Rightarrow> ptr + ptr \<times> ptr \<Rightarrow> encoding \<Rightarrow> pstate \<Rightarrow> (ptr \<times> xml_node list \<times> pstate) option" where
  \<comment> \<open>\<open>Inl\<close>: \<open>TiXmlElement::Parse\<close>, one node; \<open>Inr\<close>: the loop of \<open>ReadValue\<close> with \<open>pWithWhiteSpace\<close> and \<open>p\<close>, the nodes it links\<close>
  "parse_task cond t encoding st =
     (case t of
        Inl p \<Rightarrow> do {
          (h, (loc, name, attrs), st) \<leftarrow> element_head cond p encoding st;
          (case h of
             Finished q \<Rightarrow> Some (q, [Element loc name attrs []], st)
           | Content s \<Rightarrow> do {
               p \<leftarrow> SkipWhiteSpace (Some s) encoding;
               (q, nodes, st) \<leftarrow> parse_task cond (Inr (Some s, p)) encoding st;
               (q, st) \<leftarrow> end_tag name q encoding st;
               Some (q, [Element loc name attrs nodes], st)
             })
        }
      | Inr (pWithWhiteSpace, p) \<Rightarrow> do {
          e \<leftarrow> at_end p;
          if e
          then map_option (\<lambda>st. (p, [], st)) (if p = None then SetError TIXML_ERROR_READING_ELEMENT_VALUE None encoding st else Some st)
          else do {
            is_end \<leftarrow> StringEqual p ''</'' False encoding;
            if is_end then Some (p, [], st)
            else do {
              k \<leftarrow> (if hd (the p) \<noteq> CHR ''<'' then Some None else Identify p encoding);
              if hd (the p) = CHR ''<'' \<and> k = None then Some (None, [], st)
              else do {
                (q, nodes, st) \<leftarrow>
                  (if hd (the p) \<noteq> CHR ''<''
                   then map_option (\<lambda>(q, n, st). (q, case n of Text loc v c \<Rightarrow> if Blank v then [] else [n] | _ \<Rightarrow> [n], st))
                     (Text_Parse cond False False (if cond then p else pWithWhiteSpace) encoding st)
                   else if k = Some Is_element then parse_task cond (Inl p) encoding st
                   else map_option (\<lambda>(q, n, st). (q, [n], st)) (parse_leaf cond (the k) p encoding st));
                p \<leftarrow> SkipWhiteSpace q encoding;
                (r, more, st) \<leftarrow> parse_task cond (Inr (q, p)) encoding st;
                Some (r, nodes @ more, st)
              }
            }
          }
        })"

section \<open>Documents\<close>

definition declared :: "encoding \<Rightarrow> xml_node \<Rightarrow> encoding option" where
  \<comment> \<open>the encoding after a node of the document\<close>
  "declared encoding node =
     (case node of
        Declaration _ _ enc _ \<Rightarrow>
          if encoding \<noteq> TIXML_ENCODING_UNKNOWN then Some encoding
          else if enc = [] then Some TIXML_ENCODING_UTF8
          else do {
            utf_8 \<leftarrow> StringEqual (Some (enc @ [NUL])) ''UTF-8'' True TIXML_ENCODING_UNKNOWN;
            utf8 \<leftarrow> StringEqual (Some (enc @ [NUL])) ''UTF8'' True TIXML_ENCODING_UNKNOWN;
            Some (if utf_8 \<or> utf8 then TIXML_ENCODING_UTF8 else TIXML_ENCODING_LEGACY)
          }
      | _ \<Rightarrow> Some encoding)"

partial_function (option) document_loop ::
  "bool \<Rightarrow> ptr \<Rightarrow> encoding \<Rightarrow> pstate \<Rightarrow> (ptr \<times> xml_node list \<times> encoding \<times> pstate) option" where
  "document_loop cond p encoding st = do {
     e \<leftarrow> at_end p;
     if e then Some (p, [], encoding, st)
     else do {
       k \<leftarrow> Identify p encoding;
       (case k of
          None \<Rightarrow> Some (p, [], encoding, st)
        | Some k \<Rightarrow> do {
            (q, nodes, st) \<leftarrow>
              (if k = Is_element then parse_task cond (Inl p) encoding st
               else map_option (\<lambda>(q, n, st). (q, [n], st)) (parse_leaf cond k p encoding st));
            encoding \<leftarrow> declared encoding (hd nodes);
            p \<leftarrow> SkipWhiteSpace q encoding;
            (r, more, encoding, st) \<leftarrow> document_loop cond p encoding st;
            Some (r, nodes @ more, encoding, st)
          })
     }
   }"

record document =
  children :: "xml_node list"
  error :: "(xml_error \<times> cursor) option"
  doc_tabsize :: int
  useMicrosoftBOM :: bool

definition Document_Parse :: "bool \<Rightarrow> ptr \<Rightarrow> encoding \<Rightarrow> document \<Rightarrow> (ptr \<times> document) option" where
  "Document_Parse cond p encoding doc = do {
     let doc = doc\<lparr>error := None\<rparr>;
     e \<leftarrow> at_end p;
     if e then Some (None, doc\<lparr>error := Some (TIXML_ERROR_DOCUMENT_EMPTY, no_location)\<rparr>)
     else do {
       let st = \<lparr>data = \<lparr>row = 0, col = 0, stamp = the p, tabsize = doc_tabsize doc\<rparr>, err = None\<rparr>;
       let bom = (encoding = TIXML_ENCODING_UNKNOWN \<and> take 3 (the p) = [CHR 0xEF, CHR 0xBB, CHR 0xBF]);
       let doc = doc\<lparr>useMicrosoftBOM := useMicrosoftBOM doc \<or> bom\<rparr>;
       let encoding = (if bom then TIXML_ENCODING_UTF8 else encoding);
       p \<leftarrow> SkipWhiteSpace p encoding;
       if p = None then Some (None, doc\<lparr>error := Some (TIXML_ERROR_DOCUMENT_EMPTY, no_location)\<rparr>)
       else do {
         (r, nodes, encoding, st) \<leftarrow> document_loop cond p encoding st;
         let doc = doc\<lparr>children := children doc @ nodes, error := err st\<rparr>;
         if children doc = []
         then Some (None, doc\<lparr>error := (if error doc \<noteq> None then error doc else Some (TIXML_ERROR_DOCUMENT_EMPTY, no_location))\<rparr>)
         else Some (r, doc)
       }
     }
   }"

end
