(* ===== verification/XmlPrint.thy ===== *)
theory XmlPrint
  imports XmlParse
begin

text \<open>
  \<open>tinyxml/tinyxml.cpp\<close>, \<open>tinyxml/tinyxml.h\<close>: how TinyXML prints. \<open>Print\<close> is what the \<open>Print\<close> functions write to a file; \<open>Accept\<close> is the
  visitor \<open>TiXmlPrinter\<close> with its buffer, depth and flag; \<open>SaveFile\<close> and \<open>LoadFile\<close> are the functions of the document on the text
  of a file.
\<close>

section \<open>Printing to a file\<close>

definition indent :: "nat \<Rightarrow> string" where
  "indent depth = concat (replicate depth ''    '')"

definition newline :: string where
  "newline = [CHR 0x0A]"

definition Attribute_Print :: "xml_attribute \<Rightarrow> string" where
  "Attribute_Print a =
     (if CHR 0x22 \<notin> set (c_str (a_value a))
      then EncodeString (a_name a) @ ''='' @ [CHR 0x22] @ EncodeString (a_value a) @ [CHR 0x22]
      else EncodeString (a_name a) @ ''='' @ [CHR 0x27] @ EncodeString (a_value a) @ [CHR 0x27])"

fun printed_attributes :: "xml_attribute list \<Rightarrow> xml_attribute list" where
  \<comment> \<open>\<open>Next\<close> takes an attribute with empty name and value for the sentinel\<close>
  "printed_attributes [] = []"
| "printed_attributes (a # attrs) = a # takeWhile (\<lambda>a. \<not> (a_value a = [] \<and> a_name a = [])) attrs"

definition Declaration_Print :: "string \<Rightarrow> string \<Rightarrow> string \<Rightarrow> string" where
  "Declaration_Print version enc standalone = ''<?xml '' @
     (if version \<noteq> [] then ''version='' @ [CHR 0x22] @ c_str version @ [CHR 0x22] @ '' '' else []) @
     (if enc \<noteq> [] then ''encoding='' @ [CHR 0x22] @ c_str enc @ [CHR 0x22] @ '' '' else []) @
     (if standalone \<noteq> [] then ''standalone='' @ [CHR 0x22] @ c_str standalone @ [CHR 0x22] @ '' '' else []) @ ''?>''"

definition is_text :: "xml_node \<Rightarrow> bool" where
  \<comment> \<open>\<open>ToText()\<close>\<close>
  "is_text n = (case n of Text _ _ _ \<Rightarrow> True | _ \<Rightarrow> False)"

fun Print :: "nat \<Rightarrow> xml_node \<Rightarrow> string" where
  "Print depth (Element loc name attrs nodes) =
     indent depth @ ''<'' @ c_str name @ concat (map (\<lambda>a. '' '' @ Attribute_Print a) (printed_attributes attrs)) @
     (case nodes of
        [] \<Rightarrow> '' />''
      | n # ns \<Rightarrow>
          if ns = [] \<and> is_text n then ''>'' @ concat (map (Print (depth + 1)) nodes) @ ''</'' @ c_str name @ ''>''
          else ''>'' @ concat (map (\<lambda>n. (if is_text n then [] else newline) @ Print (depth + 1) n) nodes) @
            newline @ indent depth @ ''</'' @ c_str name @ ''>'')"
| "Print depth (Comment loc v) = indent depth @ ''<!--'' @ c_str v @ ''-->''"
| "Print depth (Unknown loc v) = indent depth @ ''<'' @ c_str v @ ''>''"
| "Print depth (Text loc v cdata) =
     (if cdata then newline @ indent depth @ ''<![CDATA['' @ c_str v @ '']]>'' @ newline else EncodeString v)"
| "Print depth (Declaration loc version enc standalone) = Declaration_Print version enc standalone"

definition Document_Print :: "xml_node list \<Rightarrow> string" where
  "Document_Print nodes = concat (map (\<lambda>n. Print 0 n @ newline) nodes)"

definition SaveFile :: "document \<Rightarrow> string" where
  "SaveFile doc = (if useMicrosoftBOM doc then [CHR 0xEF, CHR 0xBB, CHR 0xBF] else []) @ Document_Print (children doc)"

section \<open>The printing visitor\<close>

record printer =
  depth :: nat
  simpleTextPrint :: bool
  buffer :: string
  p_indent :: string
  lineBreak :: string

definition TiXmlPrinter :: printer where
  "TiXmlPrinter = \<lparr>depth = 0, simpleTextPrint = False, buffer = [], p_indent = ''    '', lineBreak = newline\<rparr>"

definition put :: "string \<Rightarrow> printer \<Rightarrow> printer" where
  "put s pr = pr\<lparr>buffer := buffer pr @ s\<rparr>"

definition DoIndent :: "printer \<Rightarrow> printer" where
  "DoIndent pr = put (concat (replicate (depth pr) (p_indent pr))) pr"

definition DoLineBreak :: "printer \<Rightarrow> printer" where
  "DoLineBreak pr = put (lineBreak pr) pr"

definition VisitEnter :: "string \<Rightarrow> xml_attribute list \<Rightarrow> xml_node list \<Rightarrow> printer \<Rightarrow> printer" where
  "VisitEnter name attrs nodes pr =
     (let pr = put (c_str name) (put ''<'' (DoIndent pr));
          pr = put (concat (map (\<lambda>a. '' '' @ Attribute_Print a) (printed_attributes attrs))) pr;
          pr = (case nodes of
                  [] \<Rightarrow> DoLineBreak (put '' />'' pr)
                | n # ns \<Rightarrow>
                    (let pr = put ''>'' pr
                     in if ns = [] \<and> (case n of Text _ _ cdata \<Rightarrow> \<not> cdata | _ \<Rightarrow> False) then pr\<lparr>simpleTextPrint := True\<rparr>
                        else DoLineBreak pr))
      in pr\<lparr>depth := depth pr + 1\<rparr>)"

definition VisitExit :: "string \<Rightarrow> xml_node list \<Rightarrow> printer \<Rightarrow> printer" where
  "VisitExit name nodes pr =
     (let pr = pr\<lparr>depth := depth pr - 1\<rparr>
      in if nodes = [] then pr
         else (let pr = (if simpleTextPrint pr then pr\<lparr>simpleTextPrint := False\<rparr> else DoIndent pr)
               in DoLineBreak (put ''>'' (put (c_str name) (put ''</'' pr)))))"

definition Visit_text :: "string \<Rightarrow> bool \<Rightarrow> printer \<Rightarrow> printer" where
  "Visit_text v cdata pr =
     (if cdata then DoLineBreak (put '']]>'' (put (c_str v) (put ''<![CDATA['' (DoIndent pr))))
      else if simpleTextPrint pr then put (EncodeString v) pr
      else DoLineBreak (put (EncodeString v) (DoIndent pr)))"

fun Accept :: "xml_node \<Rightarrow> printer \<Rightarrow> printer" where
  "Accept (Element loc name attrs nodes) pr = VisitExit name nodes (fold Accept nodes (VisitEnter name attrs nodes pr))"
| "Accept (Comment loc v) pr = DoLineBreak (put ''-->'' (put (c_str v) (put ''<!--'' (DoIndent pr))))"
| "Accept (Unknown loc v) pr = DoLineBreak (put ''>'' (put (c_str v) (put ''<'' (DoIndent pr))))"
| "Accept (Text loc v cdata) pr = Visit_text v cdata pr"
| "Accept (Declaration loc version enc standalone) pr = DoLineBreak (put (Declaration_Print version enc standalone) (DoIndent pr))"

definition Document_Accept :: "xml_node list \<Rightarrow> printer \<Rightarrow> printer" where
  "Document_Accept nodes pr = fold Accept nodes pr"

section \<open>Reading a file\<close>

fun end_of_lines :: "string \<Rightarrow> string" where
  \<comment> \<open>a carriage return, with a line feed behind it or not, becomes a line feed; up to the first NUL\<close>
  "end_of_lines [] = []"
| "end_of_lines [c] = (if c = NUL then [] else if c = CHR 0x0D then [CHR 0x0A] else [c])"
| "end_of_lines (c # d # s) =
     (if c = NUL then []
      else if c = CHR 0x0D then CHR 0x0A # (if d = CHR 0x0A then end_of_lines s else end_of_lines (d # s))
      else c # end_of_lines (d # s))"

definition file_buffer :: "string \<Rightarrow> string" where
  \<comment> \<open>the buffer after the lines were changed in place\<close>
  "file_buffer text = end_of_lines text @ [NUL] @ drop (length (end_of_lines text) + 1) (text @ [NUL])"

definition LoadFile :: "bool \<Rightarrow> string option \<Rightarrow> encoding \<Rightarrow> document \<Rightarrow> (bool \<times> document) option" where
  \<comment> \<open>the text of the file, if it can be opened and read\<close>
  "LoadFile cond file encoding doc =
     (let set_error = (\<lambda>e doc. doc\<lparr>error := (if error doc \<noteq> None then error doc else Some (e, no_location))\<rparr>)
      in case file of
        None \<Rightarrow> Some (False, set_error TIXML_ERROR_OPENING_FILE doc)
      | Some text \<Rightarrow>
          (let doc = doc\<lparr>children := []\<rparr>
           in if text = [] then Some (False, set_error TIXML_ERROR_DOCUMENT_EMPTY doc)
              else map_option (\<lambda>(r, doc). (error doc = None, doc)) (Document_Parse cond (Some (file_buffer text)) encoding doc)))"

end
