(* ===== verification/XmlRound.thy ===== *)
theory XmlRound
  imports XmlPrint
begin

text \<open>
  Printed documents are read back. A \<open>layout\<close> of a node is its text with any white space between its parts; both printers of
  \<open>XmlPrint\<close> produce layouts, and the parser of \<open>XmlParse\<close> reads from any layout the node it belongs to, up to locations.
\<close>

section \<open>White space, names, errors\<close>

definition white :: "string \<Rightarrow> bool" where
  "white s \<longleftrightarrow> (\<forall>c \<in> set s. IsWhiteSpace c)"

definition good_name :: "string \<Rightarrow> bool" where
  "good_name s \<longleftrightarrow> s \<noteq> [] \<and> (IsAlpha (hd s) \<or> hd s = CHR ''_'') \<and> (\<forall>c \<in> set s. name_char c \<and> uchar c < 128)"

definition good_value :: "string \<Rightarrow> bool" where
  "good_value s \<longleftrightarrow> ascii s \<and> \<not> sublist ''&#x'' s"

definition solid :: "char \<Rightarrow> bool" where
  \<comment> \<open>a single byte that is neither white space nor NUL\<close>
  "solid c \<longleftrightarrow> c \<noteq> NUL \<and> \<not> IsWhiteSpace c \<and> uchar c < 128"

lemma solid_chars [simp]:
  "solid CHR ''<''" "solid CHR ''>''" "solid CHR ''/''" "solid CHR ''=''" "solid CHR 0x22" "solid CHR 0x27" "solid CHR ''?''" "solid CHR ''!''"
  "solid CHR ''_''" "solid CHR ''-''" "solid CHR ''.''" "solid CHR '':''"
  by (simp_all add: solid_def IsWhiteSpace_iff uchar_def)

lemma white_space [simp]: "IsWhiteSpace CHR '' ''" "IsWhiteSpace CHR 0x0A"
  by (simp_all add: IsWhiteSpace_iff uchar_def)

lemma white_char: "IsWhiteSpace c \<Longrightarrow> c \<noteq> NUL \<and> uchar c < 128"
  by (auto simp: IsWhiteSpace_iff uchar_def)

lemma skip_solid: "solid c \<Longrightarrow> SkipWhiteSpace (Some (c # s)) encoding = Some (Some (c # s))"
  by (rule skip_none) (auto simp: solid_def)

lemma skip_one:
  assumes "IsWhiteSpace a" and "s \<noteq> []" and "hd s \<noteq> NUL"
  shows "SkipWhiteSpace (Some (a # s)) encoding = SkipWhiteSpace (Some s) encoding"
proof -
  have "a \<noteq> CHR 0xEF" using assms(1) by (auto simp: IsWhiteSpace_iff uchar_def)
  then show ?thesis using assms white_char [OF assms(1)]
    by (auto simp: SkipWhiteSpace_def skip_utf8.simps [of "_ # _"] byte_order_mark_def peek_def)
qed

lemma skip_white: "white w \<Longrightarrow> solid c \<Longrightarrow> SkipWhiteSpace (Some (w @ c # s)) encoding = Some (Some (c # s))"
proof (induction w)
  case (Cons a w)
  have "w @ c # s \<noteq> [] \<and> hd (w @ c # s) \<noteq> NUL"
    using Cons.prems white_char by (cases w) (auto simp: white_def solid_def)
  then show ?case using Cons skip_one [of a "w @ c # s" encoding] by (simp add: white_def)
qed (simp add: skip_solid)

lemma skip_to_end: "white w \<Longrightarrow> w \<noteq> [] \<Longrightarrow> SkipWhiteSpace (Some (w @ [NUL])) encoding = Some (Some [NUL])"
proof (induction w)
  case (Cons a w)
  show ?case
  proof (cases w)
    case Nil
    have "a \<noteq> CHR 0xEF" "IsWhiteSpace a" "\<not> IsWhiteSpace NUL" using Cons.prems by (auto simp: white_def IsWhiteSpace_iff uchar_def)
    then show ?thesis using Nil white_char
      by (auto simp: SkipWhiteSpace_def skip_utf8.simps [of "_ # _"] byte_order_mark_def peek_def)
  next
    case (Cons b v)
    then have "hd (w @ [NUL]) \<noteq> NUL" using \<open>white (a # w)\<close> white_char by (auto simp: white_def)
    then show ?thesis using Cons.IH Cons \<open>white (a # w)\<close> skip_one [of a "w @ [NUL]" encoding] by (simp add: white_def)
  qed
qed simp

lemma skip_exists:
  assumes "ascii x" and "solid c"
  shows "\<exists>w d y. x @ c # s = w @ d # y \<and> white w \<and> solid d \<and> SkipWhiteSpace (Some (x @ c # s)) encoding = Some (Some (d # y))"
proof (cases "dropWhile IsWhiteSpace x")
  case Nil
  then have "white x" by (simp add: white_def dropWhile_eq_Nil_conv)
  then show ?thesis using skip_white assms(2) by blast
next
  case (Cons d y)
  then have x: "x = takeWhile IsWhiteSpace x @ d # y" by (metis takeWhile_dropWhile_id)
  have w: "white (takeWhile IsWhiteSpace x)" by (auto simp: white_def dest: set_takeWhileD)
  have "\<not> IsWhiteSpace d" using Cons by (simp add: dropWhile_eq_Cons_conv)
  moreover have "d \<in> set x" by (subst x) simp
  ultimately have d: "solid d" using assms(1) by (auto simp: ascii_def solid_def)
  have "x @ c # s = takeWhile IsWhiteSpace x @ d # (y @ c # s)" by (subst x) simp
  then show ?thesis using skip_white [OF w d] w d by metis
qed

lemma name_char_solid: "name_char c \<Longrightarrow> uchar c < 128 \<Longrightarrow> solid c"
proof -
  assume "name_char c" "uchar c < 128"
  then have "uchar c \<noteq> 32 \<and> \<not> (9 \<le> uchar c \<and> uchar c \<le> 13)" "c \<noteq> NUL"
    by (auto simp: name_char_def IsAlphaNum_def c_isalnum_def c_isdigit_def c_isupper_def c_islower_def uchar_def split: if_splits)
  then show ?thesis using \<open>uchar c < 128\<close> by (auto simp: solid_def IsWhiteSpace_iff)
qed

lemma name_loop_good:
  assumes "\<forall>c \<in> set n. name_char c" and "t \<noteq> []" and "\<not> name_char (hd t)"
  shows "name_loop (n @ t) = Some (n, t)"
  using assms by (induction n) (auto simp: neq_Nil_conv)

lemma ReadName_good:
  assumes "good_name n" and "t \<noteq> []" and "\<not> name_char (hd t)"
  shows "ReadName (Some (n @ t)) = Some (Some t, n)"
proof -
  have "hd (n @ t) = hd n" "n @ t \<noteq> []" "hd n \<in> set n" using assms(1) by (auto simp: good_name_def)
  then show ?thesis using assms name_loop_good [of n t] by (auto simp: ReadName_def good_name_def name_char_def)
qed

definition ready :: "pstate \<Rightarrow> bool" where
  \<comment> \<open>the position is inside of a text of single bytes\<close>
  "ready st \<longleftrightarrow> (\<exists>y. ascii y \<and> suffix (stamp (data st)) (y @ [NUL]))"

lemma ascii_append [simp]: "ascii (x @ y) \<longleftrightarrow> ascii x \<and> ascii y"
  by (auto simp: ascii_def)

lemma ascii_suffix: "suffix z y \<Longrightarrow> ascii y \<Longrightarrow> ascii z"
  by (erule suffixE) simp

lemma stamp_ready:
  assumes "ready st"
  shows "\<exists>loc st'. stamp_at (Some p) encoding st = Some (loc, st') \<and> ready st' \<and> err st' = err st"
proof -
  let ?d = "data st"
  obtain y where y: "ascii y" "suffix (stamp ?d) (y @ [NUL])" using assms by (auto simp: ready_def)
  have "\<exists>d. Stamp p encoding ?d = Some d \<and> suffix (stamp d) (y @ [NUL])"
  proof (cases "stamp ?d = []")
    case True
    then have "stamp_loop p encoding (tabsize ?d) (stamp ?d) (row ?d) (col ?d) = Some (Reached [] (row ?d) (col ?d))"
      by (subst stamp_loop.simps) simp
    then show ?thesis using y by (auto simp: Stamp_def)
  next
    case False
    then obtain z where z: "stamp ?d = z @ [NUL]" "suffix z y" using y(2) unfolding suffix_snoc by blast
    obtain s where s: "stamp_loop p encoding (tabsize ?d) (z @ [NUL]) (row ?d) (col ?d) = Some s"
      "case s of Stopped \<Rightarrow> True | Reached q _ _ \<Rightarrow> suffix q (z @ [NUL])"
      using stamp_ascii [OF ascii_suffix [OF z(2) y(1)], of p encoding "tabsize ?d" "row ?d" "col ?d"] by blast
    have "suffix (z @ [NUL]) (y @ [NUL])" using z(2) unfolding snoc_suffix_snoc by simp
    then show ?thesis using s z y 
      by (cases s) (auto simp del: suffix_snoc simp: Stamp_def intro: suffix_order.trans)
  qed
  then obtain d where "Stamp p encoding ?d = Some d" "suffix (stamp d) (y @ [NUL])" by blast
  then show ?thesis using y(1) by (auto simp: stamp_at_def ready_def)
qed

section \<open>Attributes\<close>

lemma ascii_NUL: "ascii s \<Longrightarrow> NUL \<notin> set s"
  by (auto simp: ascii_def)

lemma ascii_plain: "ascii s \<Longrightarrow> \<forall>c \<in> set s. plain encoding c"
  by (auto simp: ascii_def plain_def)

lemma name_ascii: "good_name n \<Longrightarrow> ascii n"
  by (auto simp: good_name_def ascii_def name_char_def)

lemma name_solid: "good_name n \<Longrightarrow> solid (hd n)"
  using name_char_solid hd_in_set unfolding good_name_def by blast

lemma name_encoded: "good_name n \<Longrightarrow> EncodeString n = n"
proof -
  assume n: "good_name n"
  have no: "\<not> name_char CHR ''&''" "\<not> name_char CHR ''<''" "\<not> name_char CHR ''>''" "\<not> name_char CHR 0x22" "\<not> name_char CHR 0x27"
    by (simp_all add: name_char_def IsAlphaNum_def c_isalnum_def c_isdigit_def c_isupper_def c_islower_def uchar_def)
  then have amp: "CHR ''&'' \<notin> set n" using n by (auto simp: good_name_def)
  then have "\<not> sublist ''&#x'' n" by (auto simp: sublist_def)
  then have "EncodeString n = concat (map encode_char n)" by (rule EncodeString_chars)
  moreover have "encode_char c = [c]" if "c \<in> set n" for c
  proof -
    have c: "name_char c" "uchar c < 128" "c \<noteq> CHR ''&''" using n amp that by (auto simp: good_name_def)
    have "c \<notin> {CHR ''<'', CHR ''>'', CHR 0x22, CHR 0x27}" using c(1) no by blast
    moreover have "32 \<le> uchar c"
    proof (rule ccontr)
      assume l: "\<not> 32 \<le> uchar c"
      then have "c \<notin> {CHR ''_'', CHR ''-'', CHR ''.'', CHR '':''}" by (auto simp: uchar_def)
      then show False using c(1) l by (auto simp: name_char_def IsAlphaNum_def c_isalnum_def c_isdigit_def c_isupper_def c_islower_def)
    qed
    ultimately show ?thesis using c(3) by (auto simp: encode_char_def entity_def)
  qed
  then have "map encode_char n = map (\<lambda>c. [c]) n" by simp
  ultimately show ?thesis by simp
qed

lemma not_name_chars [simp]: "\<not> name_char CHR ''=''" "\<not> name_char CHR '' ''" "\<not> name_char CHR ''>''" "\<not> name_char CHR ''/''"
  by (simp_all add: name_char_def IsAlphaNum_def c_isalnum_def c_isdigit_def c_isupper_def c_islower_def uchar_def)

lemma Attribute_Print_good:
  assumes "good_name (a_name a)" and "good_value (a_value a)"
  shows "\<exists>q \<in> {CHR 0x22, CHR 0x27}. Attribute_Print a = a_name a @ ''='' @ [q] @ EncodeString (a_value a) @ [q]"
  using name_encoded [OF assms(1)] by (simp add: Attribute_Print_def)

lemma Attribute_Parse_good:
  assumes "good_name (a_name a)" and "good_value (a_value a)" and "ready st" and "t \<noteq> []" and "hd t \<noteq> NUL"
  shows "\<exists>loc st'. Attribute_Parse cond doc (Some (Attribute_Print a @ t)) encoding st = Some (Some t, a\<lparr>a_location := loc\<rparr>, st') \<and>
    ready st' \<and> err st' = err st"
proof -
  obtain q where q: "q \<in> {CHR 0x22, CHR 0x27}" "Attribute_Print a = a_name a @ ''='' @ [q] @ EncodeString (a_value a) @ [q]"
    using Attribute_Print_good [OF assms(1,2)] by blast
  let ?v = "EncodeString (a_value a) @ [q] @ t"
  obtain c n where n: "a_name a = c # n" "solid c"
  proof
    show "a_name a = hd (a_name a) # tl (a_name a)" using assms(1) by (simp add: good_name_def)
    show "solid (hd (a_name a))" by (rule name_solid [OF assms(1)])
  qed
  let ?p = "c # n @ ''='' @ [q] @ ?v"
  have p: "Attribute_Print a @ t = ?p" using q(2) n(1) by simp
  have 1: "SkipWhiteSpace (Some ?p) encoding = Some (Some ?p)" using skip_solid [OF n(2)] by simp
  have 2: "at_end (Some ?p) = Some False" using n(2) by (simp add: at_end_def solid_def)
  obtain loc st' where 3: "stamp_at (Some ?p) encoding st = Some (loc, st')" "ready st'" "err st' = err st" using stamp_ready [OF assms(3)] by blast
  have 4: "ReadName (Some ?p) = Some (Some (''='' @ [q] @ ?v), a_name a)"
    using ReadName_good [OF assms(1), of "''='' @ [q] @ ?v"] n(1) by simp
  have 5: "SkipWhiteSpace (Some (''='' @ [q] @ ?v)) encoding = Some (Some (''='' @ [q] @ ?v))"
    using skip_solid [of "CHR ''=''"] by simp
  have "solid q" using q(1) by auto
  then have 6: "SkipWhiteSpace (Some ([q] @ ?v)) encoding = Some (Some ([q] @ ?v))" using skip_solid by simp
  have "ReadText cond (Some ?v) False [q] False encoding = Some (Some t, a_value a)"
    using xml_text_back(1) assms(2,4,5) q(1) ascii_plain by (auto simp: good_value_def)
  then have "Attribute_Parse cond doc (Some ?p) encoding st = Some (Some t, \<lparr>a_name = a_name a, a_value = a_value a, a_location = loc\<rparr>, st')"
    using 1 2 3 4 5 6 q(1) unfolding Attribute_Parse_def by (auto simp: at_end_def)
  moreover have "\<lparr>a_name = a_name a, a_value = a_value a, a_location = loc\<rparr> = a\<lparr>a_location := loc\<rparr>" by simp
  ultimately show ?thesis using 3(2,3) unfolding p by metis
qed


definition good_attribute :: "xml_attribute \<Rightarrow> bool" where
  "good_attribute a \<longleftrightarrow> good_name (a_name a) \<and> good_value (a_value a)"

definition good_attributes :: "xml_attribute list \<Rightarrow> bool" where
  "good_attributes as \<longleftrightarrow> (\<forall>a \<in> set as. good_attribute a) \<and> distinct (map a_name as)"

definition attributes_text :: "xml_attribute list \<Rightarrow> string" where
  "attributes_text as = concat (map (\<lambda>a. '' '' @ Attribute_Print a) as)"

definition placeless :: "xml_attribute \<Rightarrow> xml_attribute" where
  "placeless a = a\<lparr>a_location := no_location\<rparr>"

lemma placeless_location [simp]: "placeless (a\<lparr>a_location := loc\<rparr>) = placeless a"
  by (simp add: placeless_def)

lemma at_end_solid: "c \<noteq> NUL \<Longrightarrow> at_end (Some (c # s)) = Some False"
  by (simp add: at_end_def)

lemma not_found: "a_name a \<notin> a_name ` set as \<Longrightarrow> Find (a_name a) as = None"
  by (induction as) (auto simp: Find_def)

lemma attribute_head:
  assumes "good_attribute a"
  shows "\<exists>c s. Attribute_Print a = c # s \<and> solid c \<and> c \<noteq> CHR ''/'' \<and> c \<noteq> CHR ''>''"
proof -
  have n: "good_name (a_name a)" "good_value (a_value a)" using assms by (simp_all add: good_attribute_def)
  then obtain c m where c: "a_name a = c # m" "name_char c" by (cases "a_name a") (auto simp: good_name_def)
  have "c \<noteq> CHR ''/''" "c \<noteq> CHR ''>''" using c(2) not_name_chars by metis+
  then show ?thesis using Attribute_Print_good [OF n] name_solid [OF n(1)] c(1) by auto
qed

lemma attribute_loop_good:
  assumes "\<forall>a \<in> set as. good_attribute a" and "distinct (map a_name (pre @ as))" and "ready st"
    and "tail = '' />'' @ t \<and> h = Finished (Some t) \<or> tail = ''>'' @ t \<and> h = Content t"
  shows "\<exists>as' st'. attribute_loop cond (Some (attributes_text as @ tail)) encoding pre st = Some (h, pre @ as', st') \<and>
    map placeless as' = map placeless as \<and> ready st' \<and> err st' = err st"
  using assms(1-3)
proof (induction as arbitrary: pre st)
  case Nil
  have "SkipWhiteSpace (Some ('' />'' @ t)) encoding = Some (Some (''/>'' @ t))" using skip_white [of "'' ''" "CHR ''/''"] by (simp add: white_def)
  moreover have "SkipWhiteSpace (Some (''>'' @ t)) encoding = Some (Some (''>'' @ t))" using skip_solid [of "CHR ''>''"] by simp
  ultimately have "attribute_loop cond (Some tail) encoding pre st = Some (h, pre, st)" using assms(4)
    by (subst attribute_loop.simps) (auto simp: at_end_solid)
  then show ?case using Nil by (auto simp: attributes_text_def)
next
  case (Cons a as)
  let ?r = "attributes_text as @ tail"
  have r: "?r \<noteq> []" "hd ?r \<noteq> NUL" using assms(4) by (cases as; auto simp: attributes_text_def)+
  have a: "good_attribute a" using Cons.prems by simp
  obtain c s where c: "Attribute_Print a = c # s" "solid c" "c \<noteq> CHR ''/''" "c \<noteq> CHR ''>''" using attribute_head [OF a] by blast
  have printed: "attributes_text (a # as) @ tail = CHR '' '' # c # s @ ?r" using c(1) by (simp add: attributes_text_def)
  have skip: "SkipWhiteSpace (Some (CHR '' '' # c # s @ ?r)) encoding = Some (Some (c # s @ ?r))"
    using skip_white [of "'' ''", OF _ c(2)] by (simp add: white_def)
  obtain loc st1 where p: "Attribute_Parse cond True (Some (c # s @ ?r)) encoding st = Some (Some ?r, a\<lparr>a_location := loc\<rparr>, st1)"
    "ready st1" "err st1 = err st"
    using Attribute_Parse_good [OF _ _ Cons.prems(3) r, of a cond True encoding] a c(1) by (auto simp: good_attribute_def)
  have new: "Find (a_name a) pre = None" using Cons.prems(2) by (intro not_found) auto
  let ?pre = "pre @ [a\<lparr>a_location := loc\<rparr>]"
  obtain as' st' where IH: "attribute_loop cond (Some ?r) encoding ?pre st1 = Some (h, ?pre @ as', st')"
    "map placeless as' = map placeless as" "ready st'" "err st' = err st1"
    using Cons.IH [of ?pre st1] Cons.prems p(2) by auto
  have "at_end (Some ?r) = Some False" using r by (cases ?r) (auto simp: at_end_def)
  then have "attribute_loop cond (Some (attributes_text (a # as) @ tail)) encoding pre st = Some (h, ?pre @ as', st')"
    unfolding printed using c(2-4) skip p(1) new IH(1) by (subst attribute_loop.simps) (auto simp: at_end_solid solid_def)
  then show ?case using IH p(3) by (intro exI [of _ "a\<lparr>a_location := loc\<rparr> # as'"] exI [of _ st']) simp
qed

lemma element_head_good:
  assumes "good_name n" and "good_attributes as" and "ready st"
    and "tail = '' />'' @ t \<and> h = Finished (Some t) \<or> tail = ''>'' @ t \<and> h = Content t"
  shows "\<exists>loc as' st'. element_head cond (Some (''<'' @ n @ attributes_text as @ tail)) encoding st = Some (h, (loc, n, as'), st') \<and>
    map placeless as' = map placeless as \<and> ready st' \<and> err st' = err st"
proof -
  let ?r = "attributes_text as @ tail"
  have r: "?r \<noteq> []" "hd ?r \<noteq> NUL" "\<not> name_char (hd ?r)" using assms(4) by (cases as; auto simp: attributes_text_def)+
  obtain c m where c: "n = c # m" "solid c" using assms(1) name_solid [OF assms(1)] by (cases n) (auto simp: good_name_def)
  let ?p = "CHR ''<'' # c # m @ ?r"
  obtain loc st1 where s: "stamp_at (Some ?p) encoding st = Some (loc, st1)" "ready st1" "err st1 = err st" using stamp_ready [OF assms(3)] by blast
  obtain as' st' where l: "attribute_loop cond (Some ?r) encoding [] st1 = Some (h, [] @ as', st')"
    "map placeless as' = map placeless as" "ready st'" "err st' = err st1"
    using attribute_loop_good [of as "[]" st1 tail t h cond encoding] assms(2,4) s(2) by (auto simp: good_attributes_def)
  have "ReadName (Some (c # m @ ?r)) = Some (Some ?r, n)" using ReadName_good [OF assms(1) r(1,3)] c(1) by simp
  moreover have "at_end (Some ?r) = Some False" using r by (cases ?r) (auto simp: at_end_def)
  ultimately have "element_head cond (Some ?p) encoding st = Some (h, (loc, n, as'), st')"
    using s(1) l(1) skip_solid [of "CHR ''<''"] skip_solid [OF c(2)] by (simp add: element_head_def at_end_solid)
  then show ?thesis using l s c(1) by (auto simp del: map_eq_conv)
qed


section \<open>Nodes without children\<close>

fun raw :: "string \<Rightarrow> string \<Rightarrow> bool" where
  \<comment> \<open>the end tag behind the text is its first one\<close>
  "raw endTag [] \<longleftrightarrow> True"
| "raw endTag (c # v) \<longleftrightarrow> \<not> prefix endTag (c # v @ endTag) \<and> raw endTag v"

definition good_unknown :: "string \<Rightarrow> bool" where
  "good_unknown v \<longleftrightarrow> ascii v \<and> CHR ''>'' \<notin> set v \<and> \<not> same_start (ToLower TIXML_ENCODING_UNKNOWN) v ''?xml'' \<and>
     \<not> same_start id v ''!--'' \<and> \<not> same_start id v ''![CDATA['' \<and> (v \<noteq> [] \<longrightarrow> hd v \<notin> {CHR ''/'', CHR ''_''} \<and> \<not> IsAlpha (hd v))"

definition good_declared :: "string \<Rightarrow> bool" where
  "good_declared v \<longleftrightarrow> good_value v \<and> EncodeString v = v"

fun unlocated :: "xml_node \<Rightarrow> xml_node" where
  \<comment> \<open>a node without its locations\<close>
  "unlocated (Element loc name attrs nodes) = Element no_location name (map placeless attrs) (map unlocated nodes)"
| "unlocated (Comment loc v) = Comment no_location v"
| "unlocated (Unknown loc v) = Unknown no_location v"
| "unlocated (Text loc v cdata) = Text no_location v cdata"
| "unlocated (Declaration loc version enc standalone) = Declaration no_location version enc standalone"

lemma same_start_prefix:
  assumes "NUL \<notin> set tag"
  shows "same_start id s tag \<longleftrightarrow> prefix tag s"
  using assms by (induction "id :: char \<Rightarrow> char" s tag rule: same_start.induct) auto

lemma ToLower_chars [simp]:
  "ToLower e CHR ''<'' = CHR ''<''" "ToLower e CHR ''?'' = CHR ''?''" "ToLower e CHR ''!'' = CHR ''!''" "ToLower e CHR ''>'' = CHR ''>''"
  by (simp_all add: ToLower_def c_isupper_def uchar_def)

lemma same_start_gt: "f CHR ''>'' \<notin> f ` set tag \<Longrightarrow> same_start f (v @ CHR ''>'' # t) tag \<Longrightarrow> same_start f v tag"
  by (induction f v tag rule: same_start.induct) (auto split: if_splits)

lemma upto_tag_raw:
  assumes "raw tag v" and "ascii v" and "NUL \<notin> set tag" and "tag \<noteq> []"
  shows "upto_tag tag (v @ tag @ t) = Some (v, tag @ t)"
  using assms(1,2)
proof (induction v)
  case Nil
  obtain c s where "tag = c # s" using assms(4) by (cases tag) auto
  moreover have "same_start id (tag @ t) tag" using assms(3) by (simp add: same_start_prefix)
  ultimately show ?case by simp
next
  case (Cons c v)
  have "\<not> prefix tag (c # v @ tag @ t)"
  proof
    assume "prefix tag (c # v @ tag @ t)"
    moreover have "prefix (c # v @ tag) (c # v @ tag @ t)" by simp
    ultimately have "prefix tag (c # v @ tag)" by (rule prefix_length_prefix) simp
    then show False using Cons.prems(1) by simp
  qed
  then show ?case using Cons assms(3) by (simp add: same_start_prefix ascii_def)
qed

lemma Identify_tag:
  "Identify (Some (CHR ''<'' # s)) encoding = Some (Some (
     if same_start (ToLower encoding) (CHR ''<'' # s) ''<?xml'' then Is_declaration
     else if same_start id (CHR ''<'' # s) ''<!--'' then Is_comment
     else if same_start id (CHR ''<'' # s) ''<![CDATA['' then Is_cdata
     else if same_start id (CHR ''<'' # s) ''<!'' then Is_unknown
     else if IsAlpha (peek s 0) \<or> peek s 0 = CHR ''_'' then Is_element else Is_unknown))"
  using skip_solid [of "CHR ''<''" s encoding] by (simp add: Identify_def at_end_solid StringEqual_def peek_def)

lemma comment_back:
  assumes "raw ''-->'' v" and "ascii v" and "ready st"
  shows "\<exists>loc st'. Comment_Parse (Some (''<!--'' @ v @ ''-->'' @ t)) encoding st = Some (Some t, Comment loc v, st') \<and> ready st' \<and> err st' = err st"
proof -
  let ?p = "''<!--'' @ v @ ''-->'' @ t"
  obtain loc st' where s: "stamp_at (Some ?p) encoding st = Some (loc, st')" "ready st'" "err st' = err st" using stamp_ready [OF assms(3)] by blast
  have "advance (length ''<!--'') ?p = Some (v @ ''-->'' @ t)" "advance (length ''-->'') (''-->'' @ t) = Some t" by (simp_all add: advance_def)
  moreover have "upto_tag ''-->'' (v @ ''-->'' @ t) = Some (v, ''-->'' @ t)" using assms(1,2) by (intro upto_tag_raw) simp_all
  ultimately have "Comment_Parse (Some ?p) encoding st = Some (Some t, Comment loc v, st')"
    using s(1) skip_solid [of "CHR ''<''"] by (simp add: Comment_Parse_def StringEqual_def)
  then show ?thesis using s by blast
qed

lemma cdata_back:
  assumes "raw '']]>'' v" and "ascii v" and "ready st" and "t \<noteq> []" and "hd t \<noteq> NUL"
  shows "\<exists>loc st'. Text_Parse cond True doc (Some (''<![CDATA['' @ v @ '']]>'' @ t)) encoding st = Some (Some t, Text loc v True, st') \<and>
    ready st' \<and> err st' = err st"
proof -
  let ?p = "''<![CDATA['' @ v @ '']]>'' @ t"
  obtain loc st' where s: "stamp_at (Some ?p) encoding st = Some (loc, st')" "ready st'" "err st' = err st" using stamp_ready [OF assms(3)] by blast
  have "advance (length ''<![CDATA['') ?p = Some (v @ '']]>'' @ t)" by (simp add: advance_def)
  moreover have "upto_tag '']]>'' (v @ '']]>'' @ t) = Some (v, '']]>'' @ t)" using assms(1,2) by (intro upto_tag_raw) simp_all
  moreover have "keep_text '']]>'' ('']]>'' @ t) False encoding = Some (Some ('']]>'' @ t), [])"
    by (subst keep_text.simps) (simp add: StringEqual_def)
  then have "ReadText cond (Some ('']]>'' @ t)) False '']]>'' False encoding = Some (Some t, [])"
    using assms(4,5) by (simp add: ReadText_def text_end_def advance_def)
  ultimately have "Text_Parse cond True doc (Some ?p) encoding st = Some (Some t, Text loc v True, st')"
    using s(1) by (simp add: Text_Parse_def StringEqual_def)
  then show ?thesis using s by blast
qed

lemma unknown_back:
  assumes "CHR ''>'' \<notin> set v" and "ascii v" and "ready st"
  shows "\<exists>loc st'. Unknown_Parse (Some (''<'' @ v @ ''>'' @ t)) encoding st = Some (Some t, Unknown loc v, st') \<and> ready st' \<and> err st' = err st"
proof -
  let ?p = "''<'' @ v @ ''>'' @ t"
  obtain loc st' where s: "stamp_at (Some ?p) encoding st = Some (loc, st')" "ready st'" "err st' = err st" using stamp_ready [OF assms(3)] by blast
  have "upto_gt (v @ ''>'' @ t) = Some (v, ''>'' @ t)" using assms(1,2) by (induction v) (auto simp: ascii_def)
  then have "Unknown_Parse (Some ?p) encoding st = Some (Some t, Unknown loc v, st')"
    using s(1) skip_solid [of "CHR ''<''"] by (simp add: Unknown_Parse_def at_end_solid)
  then show ?thesis using s by blast
qed


definition declaration_attributes :: "string \<Rightarrow> string \<Rightarrow> string \<Rightarrow> xml_attribute list" where
  "declaration_attributes version enc standalone =
     filter (\<lambda>a. a_value a \<noteq> [])
       (map (\<lambda>(n, v). \<lparr>a_name = n, a_value = v, a_location = no_location\<rparr>)
         [(''version'', version), (''encoding'', enc), (''standalone'', standalone)])"

fun assign :: "xml_attribute \<Rightarrow> string \<times> string \<times> string \<Rightarrow> string \<times> string \<times> string" where
  "assign a (v, e, s) =
     (if a_name a = ''version'' then (a_value a, e, s) else if a_name a = ''encoding'' then (v, a_value a, s) else (v, e, a_value a))"

lemma quoted: "EncodeString v = v \<Longrightarrow> good_value v \<Longrightarrow> CHR 0x22 \<notin> set v"
proof
  assume a: "EncodeString v = v" "good_value v" "CHR 0x22 \<in> set v"
  have "concat (map encode_char v) = v" using a(1,2) EncodeString_chars by (simp add: good_value_def)
  moreover have "length (encode_char c) \<ge> 1" for c using encoded_head [of c] by (cases "c = NUL") (auto simp: encode_char_def entity_def)
  then have "length v \<le> length (concat (map encode_char v)) \<and> (CHR 0x22 \<in> set v \<longrightarrow> length v < length (concat (map encode_char v)))"
  proof (induction v)
    case (Cons c v)
    have "CHR 0x22 = c \<longrightarrow> length (encode_char c) = 6" by (auto simp: encode_char_def entity_def)
    then show ?case using Cons.IH [OF Cons.prems] Cons.prems [of c]
      by (simp only: list.map concat.simps length_append list.size set_simps insert_iff) arith
  qed simp
  ultimately show False using a(3) by simp
qed

lemma declaration_names: "good_name ''version'' \<and> good_name ''encoding'' \<and> good_name ''standalone''"
  by (simp add: good_name_def IsAlpha_def c_isalpha_def name_char_def IsAlphaNum_def c_isalnum_def c_isdigit_def c_isupper_def c_islower_def uchar_def)

lemma Declaration_Print_attributes:
  assumes "good_declared version" and "good_declared enc" and "good_declared standalone"
  shows "Declaration_Print version enc standalone = ''<?xml'' @ attributes_text (declaration_attributes version enc standalone) @ '' ?>''"
proof -
  have "Attribute_Print \<lparr>a_name = n, a_value = v, a_location = loc\<rparr> = n @ ''='' @ [CHR 0x22] @ v @ [CHR 0x22]"
    if "good_name n" "good_declared v" for n v loc
    using that quoted [of v] name_encoded [OF that(1)] c_str_whole [of v] ascii_NUL [of v]
    by (simp add: Attribute_Print_def good_declared_def good_value_def)
  moreover have "c_str v = v" if "good_declared v" for v
    using that c_str_whole [of v] ascii_NUL [of v] by (simp add: good_declared_def good_value_def)
  ultimately show ?thesis using assms declaration_names
    by (auto simp: Declaration_Print_def declaration_attributes_def attributes_text_def)
qed

lemma declaration_tags:
  assumes "n \<in> {''version'', ''encoding'', ''standalone''}"
  shows "\<forall>m \<in> {''version'', ''encoding'', ''standalone''}. same_start (ToLower e) (n @ s) m \<longleftrightarrow> n = m"
  using assms by (auto simp: ToLower_def c_isupper_def uchar_def)

lemma declaration_loop_good:
  assumes "\<forall>a \<in> set as. good_attribute a \<and> a_name a \<in> {''version'', ''encoding'', ''standalone''}" and "ready st"
  shows "\<exists>st'. declaration_loop cond (Some (attributes_text as @ '' ?>'' @ t)) encoding d st = Some (Some t, fold assign as d, st') \<and>
    ready st' \<and> err st' = err st"
  using assms
proof (induction as arbitrary: d st)
  case Nil
  have "read_over (''?>'' @ t) = Some (''>'' @ t)" by (simp add: IsWhiteSpace_iff uchar_def)
  moreover have "SkipWhiteSpace (Some ('' ?>'' @ t)) encoding = Some (Some (''?>'' @ t))"
    using skip_white [of "'' ''" "CHR ''?''"] by (simp add: white_def)
  moreover have "declaration_loop cond (Some (''>'' @ t)) encoding d st = Some (Some t, d, st)"
    by (subst declaration_loop.simps) (simp add: at_end_solid)
  moreover have "ToLower encoding CHR ''v'' \<noteq> CHR ''?''" "ToLower encoding CHR ''e'' \<noteq> CHR ''?''" "ToLower encoding CHR ''s'' \<noteq> CHR ''?''"
    by (simp_all add: ToLower_def c_isupper_def uchar_def)
  ultimately have "declaration_loop cond (Some ('' ?>'' @ t)) encoding d st = Some (Some t, d, st)"
    by (subst declaration_loop.simps) (simp add: at_end_solid StringEqual_def)
  then show ?case using Nil by (simp add: attributes_text_def)
next
  case (Cons a as)
  let ?r = "attributes_text as @ '' ?>'' @ t"
  have r: "?r \<noteq> []" "hd ?r \<noteq> NUL" by (cases as; simp add: attributes_text_def)+
  have a: "good_attribute a" "a_name a \<in> {''version'', ''encoding'', ''standalone''}" using Cons.prems by simp_all
  obtain c s where c: "Attribute_Print a = c # s" "solid c" "c \<noteq> CHR ''/''" "c \<noteq> CHR ''>''" using attribute_head [OF a(1)] by blast
  obtain q where q: "Attribute_Print a = a_name a @ ''='' @ [q] @ EncodeString (a_value a) @ [q]"
    using Attribute_Print_good [of a] a(1) by (auto simp: good_attribute_def)
  have printed: "attributes_text (a # as) @ '' ?>'' @ t = CHR '' '' # c # s @ ?r" using c(1) by (simp add: attributes_text_def)
  have skip: "SkipWhiteSpace (Some (CHR '' '' # c # s @ ?r)) encoding = Some (Some (c # s @ ?r))"
    using skip_white [of "'' ''", OF _ c(2)] by (simp add: white_def)
  obtain loc st1 where p: "Attribute_Parse cond False (Some (c # s @ ?r)) encoding st = Some (Some ?r, a\<lparr>a_location := loc\<rparr>, st1)"
    "ready st1" "err st1 = err st"
    using Attribute_Parse_good [OF _ _ Cons.prems(2) r, of a cond False encoding] a c(1) by (auto simp: good_attribute_def)
  have eq: "StringEqual (Some (c # s @ ?r)) m True encoding = Some (a_name a = m)" if "m \<in> {''version'', ''encoding'', ''standalone''}" for m
  proof -
    have e: "c # s @ ?r = a_name a @ ''='' @ [q] @ EncodeString (a_value a) @ [q] @ ?r" using q c(1) by simp
    have "same_start (ToLower encoding) (c # s @ ?r) m \<longleftrightarrow> a_name a = m"
      unfolding e by (rule bspec [OF declaration_tags [OF a(2)] that])
    then show ?thesis using c(2) by (simp add: StringEqual_def solid_def)
  qed
  obtain st' where IH: "declaration_loop cond (Some ?r) encoding (assign a d) st1 = Some (Some t, fold assign as (assign a d), st')"
    "ready st'" "err st' = err st1"
    using Cons.IH [of st1 "assign a d"] Cons.prems p(2) by auto
  have assigned: "(case d of (v, e, s) \<Rightarrow>
      if a_name a = ''version'' then (a_value (a\<lparr>a_location := loc\<rparr>), e, s)
      else if a_name a = ''encoding'' then (v, a_value (a\<lparr>a_location := loc\<rparr>), s)
      else (v, e, a_value (a\<lparr>a_location := loc\<rparr>))) = assign a d"
    by (cases d) simp
  have known: "a_name a = ''version'' \<or> a_name a = ''encoding'' \<or> a_name a = ''standalone''" using a(2) by simp
  have eqs: "StringEqual (Some (c # s @ ?r)) ''version'' True encoding = Some (a_name a = ''version'')"
    "StringEqual (Some (c # s @ ?r)) ''encoding'' True encoding = Some (a_name a = ''encoding'')"
    "StringEqual (Some (c # s @ ?r)) ''standalone'' True encoding = Some (a_name a = ''standalone'')" by (intro eq; simp)+
  have start: "at_end (Some (CHR '' '' # c # s @ ?r)) = Some False" by (simp add: at_end_solid)
  have "declaration_loop cond (Some (attributes_text (a # as) @ '' ?>'' @ t)) encoding d st = declaration_loop cond (Some ?r) encoding (assign a d) st1"
    unfolding printed by (subst declaration_loop.simps) (simp only: start skip eqs p(1) known assigned bind.bind_lunit if_True if_False option.sel list.sel prod.case
        xml_attribute.simps char.inject simp_thms Let_def)
  then have "declaration_loop cond (Some (attributes_text (a # as) @ '' ?>'' @ t)) encoding d st = Some (Some t, fold assign as (assign a d), st')"
    using IH(1) by simp
  then show ?case using IH p(3) by simp
qed

lemma declaration_back:
  assumes "good_declared version" and "good_declared enc" and "good_declared standalone" and "ready st"
  shows "\<exists>loc st'. Declaration_Parse cond (Some (Declaration_Print version enc standalone @ t)) encoding st =
      Some (Some t, Declaration loc version enc standalone, st') \<and> ready st' \<and> err st' = err st"
proof -
  let ?as = "declaration_attributes version enc standalone"
  let ?r = "attributes_text ?as @ '' ?>'' @ t"
  let ?p = "''<?xml'' @ ?r"
  obtain loc st1 where s: "stamp_at (Some ?p) encoding st = Some (loc, st1)" "ready st1" "err st1 = err st" using stamp_ready [OF assms(4)] by blast
  have "\<forall>a \<in> set ?as. good_attribute a \<and> a_name a \<in> {''version'', ''encoding'', ''standalone''}"
    using assms(1-3) declaration_names by (auto simp: declaration_attributes_def good_attribute_def good_declared_def)
  then obtain st' where l: "declaration_loop cond (Some ?r) encoding ([], [], []) st1 = Some (Some t, fold assign ?as ([], [], []), st')"
    "ready st'" "err st' = err st1" using declaration_loop_good [of ?as st1 cond t encoding "([], [], [])"] s(2) by blast
  have "fold assign ?as ([], [], []) = (version, enc, standalone)" by (simp add: declaration_attributes_def)
  moreover have "advance 5 ?p = Some ?r" by (simp add: advance_def)
  moreover have "StringEqual (Some ?p) ''<?xml'' True encoding = Some True" by (simp add: StringEqual_def)
  ultimately have "Declaration_Parse cond (Some ?p) encoding st = Some (Some t, Declaration loc version enc standalone, st')"
    using s(1) l(1) skip_solid [of "CHR ''<''"] by (simp add: Declaration_Parse_def at_end_solid)
  then show ?thesis using s l Declaration_Print_attributes [OF assms(1-3)] by auto
qed


section \<open>Layouts\<close>

definition plain_text :: "xml_node \<Rightarrow> bool" where
  "plain_text n = (case n of Text _ _ cdata \<Rightarrow> \<not> cdata | _ \<Rightarrow> False)"

definition good_text :: "string \<Rightarrow> bool" where
  \<comment> \<open>no white space that would be condensed\<close>
  "good_text v \<longleftrightarrow> good_value v \<and> \<not> Blank v \<and> hd v \<noteq> CHR '' '' \<and> squeeze False v = v"

inductive layout :: "xml_node \<Rightarrow> string \<Rightarrow> bool" and layouts :: "xml_node list \<Rightarrow> string \<Rightarrow> bool" where
  layout_empty: "good_name n \<Longrightarrow> good_attributes as \<Longrightarrow> layout (Element loc n as []) (''<'' @ n @ attributes_text as @ '' />'')"
| layout_element: "good_name n \<Longrightarrow> good_attributes as \<Longrightarrow> layouts ns s \<Longrightarrow>
    layout (Element loc n as ns) (''<'' @ n @ attributes_text as @ ''>'' @ s @ ''</'' @ n @ ''>'')"
| layout_comment: "raw ''-->'' v \<Longrightarrow> ascii v \<Longrightarrow> layout (Comment loc v) (''<!--'' @ v @ ''-->'')"
| layout_unknown: "good_unknown v \<Longrightarrow> layout (Unknown loc v) (''<'' @ v @ ''>'')"
| layout_text: "good_text v \<Longrightarrow> layout (Text loc v False) (EncodeString v)"
| layout_cdata: "raw '']]>'' v \<Longrightarrow> ascii v \<Longrightarrow> layout (Text loc v True) (''<![CDATA['' @ v @ '']]>'')"
| layout_declaration: "good_declared version \<Longrightarrow> good_declared enc \<Longrightarrow> good_declared standalone \<Longrightarrow>
    layout (Declaration loc version enc standalone) (Declaration_Print version enc standalone)"
| layouts_Nil: "white w \<Longrightarrow> layouts [] w"
| layouts_Cons: "white w \<Longrightarrow> layout n s \<Longrightarrow> layouts ns t \<Longrightarrow> plain_text n \<longrightarrow> ns = [] \<or> \<not> plain_text (hd ns) \<Longrightarrow> layouts (n # ns) (w @ s @ t)"

inductive_cases layouts_cases: "layouts ns t"

lemma tag_start:
  assumes "layout n s" and "\<not> plain_text n"
  shows "\<exists>c r. s = CHR ''<'' # c # r \<and> c \<noteq> CHR ''/'' \<and> c \<noteq> NUL"
  using assms
proof (cases rule: layout.cases)
  case (layout_empty n as loc)
  then show ?thesis using name_solid [of n] not_name_chars by (cases n) (auto simp: good_name_def solid_def)
next
  case (layout_element n as ns s loc)
  then show ?thesis using name_solid [of n] not_name_chars by (cases n) (auto simp: good_name_def solid_def)
next
  case (layout_unknown v loc)
  then show ?thesis by (cases v) (auto simp: good_unknown_def ascii_def)
next
  case (layout_declaration version enc standalone loc)
  then show ?thesis by (simp add: Declaration_Print_def)
qed (auto simp: plain_text_def)

lemma text_start:
  assumes "good_text v"
  shows "\<exists>d r. EncodeString v = d # r \<and> solid d \<and> d \<noteq> CHR ''<''"
proof -
  have v: "good_value v" "hd v \<noteq> CHR '' ''" "v \<noteq> []" using assms by (auto simp: good_text_def Blank_def)
  then obtain c u where c: "v = c # u" "c \<noteq> NUL" "uchar c < 128" "c \<noteq> CHR '' ''" by (cases v) (auto simp: good_value_def ascii_def)
  obtain d r where "encode_char c = d # r" "d \<notin> {NUL, CHR ''<'', CHR ''>'', CHR 0x22, CHR 0x27}" "IsWhiteSpace d \<longleftrightarrow> c = CHR '' ''"
    "128 \<le> uchar d \<longrightarrow> 128 \<le> uchar c" using encoded_head [OF c(2)] by blast
  then show ?thesis using c v(1) EncodeString_chars [of v] by (auto simp: solid_def good_value_def)
qed

lemma layouts_start:
  assumes "layouts ns t" and "solid e"
  shows "\<exists>w d y. t @ e # u = w @ d # y \<and> white w \<and> solid d"
  using assms(1)
proof (cases rule: layouts.cases)
  case (layouts_Cons w n s ns t')
  have "\<exists>d r. s = d # r \<and> solid d"
  proof (cases "plain_text n")
    case True
    then obtain loc v where "n = Text loc v False" by (cases n) (auto simp: plain_text_def)
    then have "\<exists>v. good_text v \<and> s = EncodeString v" using layouts_Cons(4) by (auto elim: layout.cases)
    then show ?thesis using text_start by blast
  next
    case False
    obtain c r where "s = CHR ''<'' # c # r" using tag_start [OF layouts_Cons(4) False] by blast
    then show ?thesis by auto
  qed
  then obtain d r where "s = d # r" "solid d" by blast
  then show ?thesis using layouts_Cons(2,3) by (intro exI [of _ w] exI [of _ d] exI [of _ "r @ t' @ e # u"]) simp
next
  case layouts_Nil
  then show ?thesis using assms(2) by blast
qed

lemma layouts_skip:
  assumes "layouts ns t" and "solid e"
  shows "\<exists>p. SkipWhiteSpace (Some (t @ e # u)) encoding = Some (Some p)"
  using layouts_start [OF assms, of u] skip_white by metis

lemma layouts_solid:
  assumes "layouts ns t" and "solid e"
  shows "t @ e # u \<noteq> []" and "hd (t @ e # u) \<noteq> NUL"
proof -
  obtain w d y where "t @ e # u = w @ d # y" "white w" "solid d" using layouts_start [OF assms] by blast
  then show "hd (t @ e # u) \<noteq> NUL" using white_char by (cases w) (auto simp: white_def solid_def)
qed simp

lemma layouts_gap:
  assumes "layouts ns t" and "ns = [] \<or> \<not> plain_text (hd ns)"
  shows "\<exists>w c r. t @ ''</'' @ u = w @ ''<'' @ c # r \<and> white w \<and> c \<noteq> NUL"
  using assms(1)
proof (cases rule: layouts.cases)
  case layouts_Nil
  then show ?thesis by (intro exI [of _ t] exI [of _ "CHR ''/''"] exI [of _ u]) simp
next
  case (layouts_Cons w n s ns' t')
  then obtain c r where "s = CHR ''<'' # c # r" "c \<noteq> NUL" using tag_start [of n s] assms(2) by auto
  then show ?thesis using layouts_Cons by (intro exI [of _ w] exI [of _ c] exI [of _ "r @ t' @ ''</'' @ u"]) simp
qed

lemma text_back:
  assumes "good_text v" and "ready st" and "white g" and "c \<noteq> NUL"
  shows "\<exists>loc st'. Text_Parse True False doc (Some (EncodeString v @ g @ ''<'' @ c # r)) encoding st = Some (Some (''<'' @ c # r), Text loc v False, st') \<and>
    ready st' \<and> err st' = err st"
proof -
  have v: "good_value v" "squeeze False v = v" using assms(1) by (simp_all add: good_text_def)
  obtain d x where d: "EncodeString v = d # x" "solid d" "d \<noteq> CHR ''<''" using text_start [OF assms(1)] by blast
  let ?p = "EncodeString v @ g @ ''<'' @ c # r"
  obtain loc st' where s: "stamp_at (Some ?p) encoding st = Some (loc, st')" "ready st'" "err st' = err st" using stamp_ready [OF assms(2)] by blast
  have "condense_text ''<'' False ?p False encoding = Some (Some (''<'' @ c # r), squeeze False v)"
    using condense_encoded [of v encoding g False "c # r"] v(1) assms(3) ascii_plain EncodeString_chars
    by (auto simp: good_value_def white_def)
  moreover have "SkipWhiteSpace (Some ?p) encoding = Some (Some ?p)" using skip_solid [OF d(2)] d(1) by simp
  ultimately have "ReadText True (Some ?p) True ''<'' False encoding = Some (Some (c # r), v)"
    using v(2) text_end_char [of "CHR ''<''" "c # r"] assms(4) by (simp add: ReadText_def)
  moreover have "StringEqual (Some ?p) ''<![CDATA['' False encoding = Some False" using d by (simp add: StringEqual_def solid_def)
  ultimately have "Text_Parse True False doc (Some ?p) encoding st = Some (Some (''<'' @ c # r), Text loc v False, st')"
    using s(1) assms(4) by (simp add: Text_Parse_def at_end_solid)
  then show ?thesis using s by blast
qed


section \<open>The parser reads layouts\<close>

definition parse_node :: "kind \<Rightarrow> bool \<Rightarrow> ptr \<Rightarrow> encoding \<Rightarrow> pstate \<Rightarrow> (ptr \<times> xml_node list \<times> pstate) option" where
  \<comment> \<open>\<open>node->Parse\<close>\<close>
  "parse_node k cond p encoding st =
     (if k = Is_element then parse_task cond (Inl p) encoding st
      else map_option (\<lambda>(q, n, st). (q, [n], st)) (parse_leaf cond k p encoding st))"

definition node_back :: "xml_node \<Rightarrow> string \<Rightarrow> bool" where
  "node_back n s \<longleftrightarrow> (\<forall>encoding st t. ready st \<and> t \<noteq> [] \<and> hd t \<noteq> NUL \<longrightarrow>
     (\<exists>k n' st'. Identify (Some (s @ t)) encoding = Some (Some k) \<and> parse_node k True (Some (s @ t)) encoding st = Some (Some t, [n'], st') \<and>
       unlocated n' = unlocated n \<and> ready st' \<and> err st' = err st))"

definition content_back :: "xml_node list \<Rightarrow> string \<Rightarrow> bool" where
  "content_back ns t \<longleftrightarrow> (\<forall>encoding st q p u. ready st \<and> SkipWhiteSpace (Some (t @ ''</'' @ u)) encoding = Some (Some p) \<longrightarrow>
     (\<exists>ns' st'. parse_task True (Inr (q, Some p)) encoding st = Some (Some (''</'' @ u), ns', st') \<and>
       map unlocated ns' = map unlocated ns \<and> ready st' \<and> err st' = err st))"

lemma parse_element:
  assumes "element_head cond p encoding st = Some (h, (loc, name, attrs), st1)"
  shows "h = Finished q \<Longrightarrow> parse_task cond (Inl p) encoding st = Some (q, [Element loc name attrs []], st1)"
    and "h = Content s \<Longrightarrow> SkipWhiteSpace (Some s) encoding = Some r \<Longrightarrow> parse_task cond (Inr (Some s, r)) encoding st1 = Some (e, nodes, st2) \<Longrightarrow>
      end_tag name e encoding st2 = Some (q, st') \<Longrightarrow> parse_task cond (Inl p) encoding st = Some (q, [Element loc name attrs nodes], st')"
  using assms by (subst parse_task.simps; simp)+

lemma content_end: "parse_task cond (Inr (q, Some (''</'' @ u))) encoding st = Some (Some (''</'' @ u), [], st)"
  by (subst parse_task.simps) (simp add: at_end_solid StringEqual_def)

lemma content_text:
  assumes "d \<notin> {NUL, CHR ''<''}" and "Text_Parse True False False (Some (d # x)) encoding st = Some (q', Text loc v False, st1)" and "\<not> Blank v"
    and "SkipWhiteSpace q' encoding = Some p'" and "parse_task True (Inr (q', p')) encoding st1 = Some (r, ns, st2)"
  shows "parse_task True (Inr (q, Some (d # x))) encoding st = Some (r, Text loc v False # ns, st2)"
  using assms by (subst parse_task.simps) (simp add: at_end_solid StringEqual_def)

lemma content_node:
  assumes "c \<noteq> CHR ''/''" and "Identify (Some (CHR ''<'' # c # x)) encoding = Some (Some k)"
    and "parse_node k cond (Some (CHR ''<'' # c # x)) encoding st = Some (q', [n], st1)"
    and "SkipWhiteSpace q' encoding = Some p'" and "parse_task cond (Inr (q', p')) encoding st1 = Some (r, ns, st2)"
  shows "parse_task cond (Inr (q, Some (CHR ''<'' # c # x))) encoding st = Some (r, n # ns, st2)"
  using assms by (cases "k = Is_element"; subst parse_task.simps) (simp_all add: at_end_solid StringEqual_def parse_node_def)

lemma end_tag_back:
  assumes "good_name n"
  shows "end_tag n (Some (''</'' @ n @ ''>'' @ t)) encoding st = Some (Some t, st)"
proof -
  have "NUL \<notin> set (''</'' @ n)" using ascii_NUL [OF name_ascii [OF assms]] by simp
  then have "same_start id (''</'' @ n @ ''>'' @ t) (''</'' @ n)" by (rule same_start_prefix [THEN iffD2]) simp
  moreover have "advance (length (''</'' @ n)) (''</'' @ n @ ''>'' @ t) = Some (''>'' @ t)" by (simp add: advance_def)
  ultimately show ?thesis using skip_solid [of "CHR ''>''"] by (simp add: end_tag_def at_end_solid StringEqual_def)
qed

lemma element_kind:
  assumes "good_name n"
  shows "Identify (Some (''<'' @ n @ x)) encoding = Some (Some Is_element)"
proof -
  obtain c m where c: "n = c # m" "IsAlpha c \<or> c = CHR ''_''" "uchar c < 128" using assms by (cases n) (auto simp: good_name_def)
  have "\<not> IsAlpha CHR ''?''" "\<not> IsAlpha CHR ''!''" by (simp_all add: IsAlpha_def c_isalpha_def c_isupper_def c_islower_def uchar_def)
  then have "c \<noteq> CHR ''?''" "c \<noteq> CHR ''!''" using c(2) by auto
  moreover have "ToLower encoding c \<noteq> CHR ''?''"
  proof (cases "c_isupper c")
    case True
    then have "uchar (ToLower encoding c) \<noteq> 63" by (simp add: ToLower_def c_isupper_def uchar_chr)
    then show ?thesis by (auto simp: uchar_def)
  qed (use \<open>c \<noteq> CHR ''?''\<close> in \<open>simp add: ToLower_def\<close>)
  ultimately show ?thesis using c(1,2) Identify_tag [of "n @ x"] by (auto simp: peek_def)
qed

lemma unknown_kind:
  assumes "good_unknown v"
  shows "Identify (Some (''<'' @ v @ ''>'' @ t)) encoding = Some (Some Is_unknown)"
proof -
  have lower: "ToLower encoding = ToLower TIXML_ENCODING_UNKNOWN" by (simp add: fun_eq_iff ToLower_def)
  have gt: "CHR ''>'' \<notin> ToLower TIXML_ENCODING_UNKNOWN ` set ''?xml''" by (auto simp: ToLower_def c_isupper_def uchar_def)
  have "\<not> same_start (ToLower encoding) (v @ CHR ''>'' # t) ''?xml''"
    using assms same_start_gt [of "ToLower TIXML_ENCODING_UNKNOWN" "''?xml''" v t] gt unfolding lower by (auto simp: good_unknown_def)
  moreover have "\<not> same_start id (v @ CHR ''>'' # t) ''!--''" "\<not> same_start id (v @ CHR ''>'' # t) ''![CDATA[''"
    using assms same_start_gt [of id "''!--''" v t] same_start_gt [of id "''![CDATA[''" v t] by (auto simp: good_unknown_def)
  moreover have "\<not> (IsAlpha (peek (v @ CHR ''>'' # t) 0) \<or> peek (v @ CHR ''>'' # t) 0 = CHR ''_'')"
    using assms by (cases v) (auto simp: good_unknown_def peek_def IsAlpha_def c_isalpha_def c_isupper_def c_islower_def uchar_def)
  ultimately show ?thesis using Identify_tag [of "v @ CHR ''>'' # t" encoding] by (simp del: same_start.simps(3) add: same_start.simps(3) [of _ "CHR ''<''"])
qed


lemma leaf_back:
  assumes "Identify (Some (s @ t)) encoding = Some (Some k)" and "k \<noteq> Is_element"
    and "\<exists>loc st'. parse_leaf True k (Some (s @ t)) encoding st = Some (Some t, N loc, st') \<and> ready st' \<and> err st' = err st"
    and "\<And>loc. unlocated (N loc) = n"
  shows "\<exists>k n' st'. Identify (Some (s @ t)) encoding = Some (Some k) \<and> parse_node k True (Some (s @ t)) encoding st = Some (Some t, [n'], st') \<and>
    unlocated n' = n \<and> ready st' \<and> err st' = err st"
  using assms by (auto simp: parse_node_def)

lemma element_back:
  assumes "good_name n" and "good_attributes as" and "content_back ns s" and "layouts ns s"
  shows "node_back (Element loc n as ns) (''<'' @ n @ attributes_text as @ ''>'' @ s @ ''</'' @ n @ ''>'')"
  unfolding node_back_def
proof (intro allI impI)
  fix encoding st and t :: string
  assume st: "ready st \<and> t \<noteq> [] \<and> hd t \<noteq> NUL"
  let ?u = "n @ ''>'' @ t"
  let ?c = "s @ ''</'' @ ?u"
  let ?p = "''<'' @ n @ attributes_text as @ ''>'' @ ?c"
  obtain loc' as' st1 where h: "element_head True (Some ?p) encoding st = Some (Content ?c, (loc', n, as'), st1)"
    "map placeless as' = map placeless as" "ready st1" "err st1 = err st"
    using element_head_good [OF assms(1,2), of st "''>'' @ ?c" ?c "Content ?c" True encoding] st by blast
  obtain p where p: "SkipWhiteSpace (Some ?c) encoding = Some (Some p)" using layouts_skip [OF assms(4), of "CHR ''<''" "CHR ''/'' # ?u"] by auto
  then obtain ns' st2 where c: "parse_task True (Inr (Some ?c, Some p)) encoding st1 = Some (Some (''</'' @ ?u), ns', st2)"
    "map unlocated ns' = map unlocated ns" "ready st2" "err st2 = err st1"
    using assms(3) h(3) unfolding content_back_def by blast
  have "parse_task True (Inl (Some ?p)) encoding st = Some (Some t, [Element loc' n as' ns'], st2)"
    by (rule parse_element(2) [OF h(1) refl p c(1)]) (rule end_tag_back [OF assms(1)])
  then show "\<exists>k n' st'. Identify (Some ((''<'' @ n @ attributes_text as @ ''>'' @ s @ ''</'' @ n @ ''>'') @ t)) encoding = Some (Some k) \<and>
      parse_node k True (Some ((''<'' @ n @ attributes_text as @ ''>'' @ s @ ''</'' @ n @ ''>'') @ t)) encoding st = Some (Some t, [n'], st') \<and>
      unlocated n' = unlocated (Element loc n as ns) \<and> ready st' \<and> err st' = err st"
    using element_kind [OF assms(1), of "attributes_text as @ ''>'' @ ?c" encoding] h c
    by (intro exI [of _ Is_element] exI [of _ "Element loc' n as' ns'"] exI [of _ st2]) (simp add: parse_node_def)
qed

lemma empty_back:
  assumes "good_name n" and "good_attributes as"
  shows "node_back (Element loc n as []) (''<'' @ n @ attributes_text as @ '' />'')"
  unfolding node_back_def
proof (intro allI impI)
  fix encoding st and t :: string
  assume st: "ready st \<and> t \<noteq> [] \<and> hd t \<noteq> NUL"
  let ?p = "''<'' @ n @ attributes_text as @ '' />'' @ t"
  obtain loc' as' st1 where h: "element_head True (Some ?p) encoding st = Some (Finished (Some t), (loc', n, as'), st1)"
    "map placeless as' = map placeless as" "ready st1" "err st1 = err st"
    using element_head_good [OF assms(1,2), of st "'' />'' @ t" t "Finished (Some t)" True encoding] st by blast
  have "parse_task True (Inl (Some ?p)) encoding st = Some (Some t, [Element loc' n as' []], st1)" by (rule parse_element(1) [OF h(1) refl])
  then show "\<exists>k n' st'. Identify (Some ((''<'' @ n @ attributes_text as @ '' />'') @ t)) encoding = Some (Some k) \<and>
      parse_node k True (Some ((''<'' @ n @ attributes_text as @ '' />'') @ t)) encoding st = Some (Some t, [n'], st') \<and>
      unlocated n' = unlocated (Element loc n as []) \<and> ready st' \<and> err st' = err st"
    using element_kind [OF assms(1), of "attributes_text as @ '' />'' @ t" encoding] h
    by (intro exI [of _ Is_element] exI [of _ "Element loc' n as' []"] exI [of _ st1]) (simp add: parse_node_def)
qed


lemma comment_node: "raw ''-->'' v \<Longrightarrow> ascii v \<Longrightarrow> node_back (Comment loc v) (''<!--'' @ v @ ''-->'')"
  unfolding node_back_def
proof (intro allI impI)
  fix encoding st and t :: string
  assume v: "raw ''-->'' v" "ascii v" and st: "ready st \<and> t \<noteq> [] \<and> hd t \<noteq> NUL"
  show "\<exists>k n' st'. Identify (Some ((''<!--'' @ v @ ''-->'') @ t)) encoding = Some (Some k) \<and>
      parse_node k True (Some ((''<!--'' @ v @ ''-->'') @ t)) encoding st = Some (Some t, [n'], st') \<and>
      unlocated n' = unlocated (Comment loc v) \<and> ready st' \<and> err st' = err st"
  proof (rule leaf_back [where k = Is_comment and N = "\<lambda>loc. Comment loc v"])
    show "Identify (Some ((''<!--'' @ v @ ''-->'') @ t)) encoding = Some (Some Is_comment)" using Identify_tag by simp
    show "\<exists>loc st'. parse_leaf True Is_comment (Some ((''<!--'' @ v @ ''-->'') @ t)) encoding st = Some (Some t, Comment loc v, st') \<and> ready st' \<and> err st' = err st"
      using comment_back [OF v, of st t encoding] st by (simp add: parse_leaf_def)
  qed simp_all
qed

lemma unknown_node: "good_unknown v \<Longrightarrow> node_back (Unknown loc v) (''<'' @ v @ ''>'')"
  unfolding node_back_def
proof (intro allI impI)
  fix encoding st and t :: string
  assume v: "good_unknown v" and st: "ready st \<and> t \<noteq> [] \<and> hd t \<noteq> NUL"
  show "\<exists>k n' st'. Identify (Some ((''<'' @ v @ ''>'') @ t)) encoding = Some (Some k) \<and>
      parse_node k True (Some ((''<'' @ v @ ''>'') @ t)) encoding st = Some (Some t, [n'], st') \<and>
      unlocated n' = unlocated (Unknown loc v) \<and> ready st' \<and> err st' = err st"
  proof (rule leaf_back [where k = Is_unknown and N = "\<lambda>loc. Unknown loc v"])
    show "Identify (Some ((''<'' @ v @ ''>'') @ t)) encoding = Some (Some Is_unknown)" using unknown_kind [OF v] by simp
    show "\<exists>loc st'. parse_leaf True Is_unknown (Some ((''<'' @ v @ ''>'') @ t)) encoding st = Some (Some t, Unknown loc v, st') \<and> ready st' \<and> err st' = err st"
      using unknown_back [of v st t encoding] v st by (simp add: parse_leaf_def good_unknown_def)
  qed simp_all
qed

lemma cdata_node: "raw '']]>'' v \<Longrightarrow> ascii v \<Longrightarrow> node_back (Text loc v True) (''<![CDATA['' @ v @ '']]>'')"
  unfolding node_back_def
proof (intro allI impI)
  fix encoding st and t :: string
  assume v: "raw '']]>'' v" "ascii v" and st: "ready st \<and> t \<noteq> [] \<and> hd t \<noteq> NUL"
  show "\<exists>k n' st'. Identify (Some ((''<![CDATA['' @ v @ '']]>'') @ t)) encoding = Some (Some k) \<and>
      parse_node k True (Some ((''<![CDATA['' @ v @ '']]>'') @ t)) encoding st = Some (Some t, [n'], st') \<and>
      unlocated n' = unlocated (Text loc v True) \<and> ready st' \<and> err st' = err st"
  proof (rule leaf_back [where k = Is_cdata and N = "\<lambda>loc. Text loc v True"])
    show "Identify (Some ((''<![CDATA['' @ v @ '']]>'') @ t)) encoding = Some (Some Is_cdata)" using Identify_tag by simp
    show "\<exists>loc st'. parse_leaf True Is_cdata (Some ((''<![CDATA['' @ v @ '']]>'') @ t)) encoding st = Some (Some t, Text loc v True, st') \<and> ready st' \<and> err st' = err st"
      using cdata_back [OF v, of st t True True encoding] st by (simp add: parse_leaf_def)
  qed simp_all
qed

lemma declaration_node:
  assumes "good_declared version" and "good_declared enc" and "good_declared standalone"
  shows "node_back (Declaration loc version enc standalone) (Declaration_Print version enc standalone)"
  unfolding node_back_def
proof (intro allI impI)
  fix encoding st and t :: string
  let ?s = "Declaration_Print version enc standalone"
  assume st: "ready st \<and> t \<noteq> [] \<and> hd t \<noteq> NUL"
  show "\<exists>k n' st'. Identify (Some (?s @ t)) encoding = Some (Some k) \<and> parse_node k True (Some (?s @ t)) encoding st = Some (Some t, [n'], st') \<and>
      unlocated n' = unlocated (Declaration loc version enc standalone) \<and> ready st' \<and> err st' = err st"
  proof (rule leaf_back [where k = Is_declaration and N = "\<lambda>loc. Declaration loc version enc standalone"])
    show "Identify (Some (?s @ t)) encoding = Some (Some Is_declaration)"
      using Identify_tag [of "tl ?s @ t" encoding] by (simp add: Declaration_Print_def)
    show "\<exists>loc st'. parse_leaf True Is_declaration (Some (?s @ t)) encoding st = Some (Some t, Declaration loc version enc standalone, st') \<and>
        ready st' \<and> err st' = err st"
      using declaration_back [OF assms, of st True t encoding] st by (simp add: parse_leaf_def)
  qed simp_all
qed

lemma content_cons:
  assumes "white w" and "layout n s" and "layouts ns t" and "plain_text n \<longrightarrow> ns = [] \<or> \<not> plain_text (hd ns)"
    and "plain_text n \<or> node_back n s" and "content_back ns t"
  shows "content_back (n # ns) (w @ s @ t)"
  unfolding content_back_def
proof (intro allI impI)
  fix encoding st and q :: ptr and p u
  assume st: "ready st \<and> SkipWhiteSpace (Some ((w @ s @ t) @ ''</'' @ u)) encoding = Some (Some p)"
  let ?r = "t @ ''</'' @ u"
  obtain p' where p': "SkipWhiteSpace (Some ?r) encoding = Some (Some p')" using layouts_skip [OF assms(3), of "CHR ''<''"] by auto
  have rest: "\<exists>ns' st2. parse_task True (Inr (q', Some p')) encoding st1 = Some (Some (''</'' @ u), ns', st2) \<and>
      map unlocated ns' = map unlocated ns \<and> ready st2 \<and> err st2 = err st1" if "ready st1" for st1 q'
    using assms(6) p' that unfolding content_back_def by blast
  show "\<exists>ns' st'. parse_task True (Inr (q, Some p)) encoding st = Some (Some (''</'' @ u), ns', st') \<and>
       map unlocated ns' = map unlocated (n # ns) \<and> ready st' \<and> err st' = err st"
  proof (cases "plain_text n")
    case True
    then obtain loc v where n: "n = Text loc v False" "good_text v" "s = EncodeString v"
      using assms(2) by (cases n) (auto simp: plain_text_def elim: layout.cases)
    obtain d x where d: "s = d # x" "solid d" "d \<noteq> CHR ''<''" using text_start [OF n(2)] n(3) by blast
    have p: "p = d # x @ ?r" using st skip_white [OF assms(1) d(2), of "x @ ?r" encoding] d(1) by simp
    obtain g c y where g: "?r = g @ ''<'' @ c # y" "white g" "c \<noteq> NUL" using layouts_gap [OF assms(3)] assms(4) True by blast
    obtain loc' st1 where t: "Text_Parse True False False (Some (d # x @ ?r)) encoding st = Some (Some (''<'' @ c # y), Text loc' v False, st1)"
      "ready st1" "err st1 = err st" using text_back [OF n(2) _ g(2,3), of st False y encoding] st g(1) d(1) n(3) by auto
    have "SkipWhiteSpace (Some ?r) encoding = Some (Some (''<'' @ c # y))" using skip_white [OF g(2), of "CHR ''<''"] g(1) by simp
    then have "p' = ''<'' @ c # y" using p' by simp
    then have skip: "SkipWhiteSpace (Some (''<'' @ c # y)) encoding = Some (Some p')" using skip_solid [of "CHR ''<''" "c # y"] by simp
    obtain ns' st2 where c: "parse_task True (Inr (Some (''<'' @ c # y), Some p')) encoding st1 = Some (Some (''</'' @ u), ns', st2)"
      "map unlocated ns' = map unlocated ns" "ready st2" "err st2 = err st1" using rest [OF t(2)] by blast
    have "d \<notin> {NUL, CHR ''<''}" "\<not> Blank v" using d n(2) by (auto simp: solid_def good_text_def)
    then have "parse_task True (Inr (q, Some p)) encoding st = Some (Some (''</'' @ u), Text loc' v False # ns', st2)"
      unfolding p by (intro content_text [OF _ t(1) _ skip c(1)])
    then show ?thesis using c t n(1) by (intro exI [of _ "Text loc' v False # ns'"] exI [of _ st2]) simp
  next
    case False
    obtain c x where c: "s = CHR ''<'' # c # x" "c \<noteq> CHR ''/''" using tag_start [OF assms(2) False] by blast
    have p: "p = s @ ?r" using st skip_white [OF assms(1), of "CHR ''<''" "c # x @ ?r" encoding] c(1) by simp
    have "?r \<noteq> [] \<and> hd ?r \<noteq> NUL" using layouts_solid(2) [OF assms(3), of "CHR ''<''" "CHR ''/'' # u"] by simp
    then obtain k n' st1 where k: "Identify (Some (s @ ?r)) encoding = Some (Some k)"
      "parse_node k True (Some (s @ ?r)) encoding st = Some (Some ?r, [n'], st1)"
      "unlocated n' = unlocated n" "ready st1" "err st1 = err st" using assms(5) False st unfolding node_back_def by blast
    obtain ns' st2 where r: "parse_task True (Inr (Some ?r, Some p')) encoding st1 = Some (Some (''</'' @ u), ns', st2)"
      "map unlocated ns' = map unlocated ns" "ready st2" "err st2 = err st1" using rest [OF k(4)] by blast
    have "parse_task True (Inr (q, Some p)) encoding st = Some (Some (''</'' @ u), n' # ns', st2)"
      using k(1,2) p' r(1) c unfolding p by (auto intro: content_node)
    then show ?thesis using k r by (intro exI [of _ "n' # ns'"] exI [of _ st2]) simp
  qed
qed

lemma layouts_back:
  "layout n s \<Longrightarrow> plain_text n \<or> node_back n s"
  "layouts ns t \<Longrightarrow> content_back ns t"
proof (induction rule: layout_layouts.inducts)
  case (layouts_Nil w)
  show ?case unfolding content_back_def
  proof (intro allI impI)
    fix encoding st and q :: ptr and p u
    assume st: "ready st \<and> SkipWhiteSpace (Some (w @ ''</'' @ u)) encoding = Some (Some p)"
    then have "p = ''</'' @ u" using skip_white [OF layouts_Nil, of "CHR ''<''" "CHR ''/'' # u" encoding] by simp
    then show "\<exists>ns' st'. parse_task True (Inr (q, Some p)) encoding st = Some (Some (''</'' @ u), ns', st') \<and>
       map unlocated ns' = map unlocated [] \<and> ready st' \<and> err st' = err st" using st content_end by auto
  qed
next
  case (layout_text v loc)
  show ?case by (simp add: plain_text_def)
qed (blast intro: empty_back element_back comment_node unknown_node cdata_node declaration_node content_cons)+


section \<open>Documents are read\<close>

lemma ascii_Nil [simp]: "ascii []"
  by (simp add: ascii_def)

lemma ascii_Cons [simp]: "ascii (c # s) \<longleftrightarrow> c \<noteq> NUL \<and> uchar c < 128 \<and> ascii s"
  by (auto simp: ascii_def)

lemma solid_ascii: "solid c \<Longrightarrow> c \<noteq> NUL \<and> uchar c < 128"
  by (simp add: solid_def)

lemma white_ascii: "white w \<Longrightarrow> ascii w"
  using white_char by (auto simp: white_def ascii_def)

lemma ascii_tags: "ascii ''</''" "ascii ''<!--''" "ascii ''-->''" "ascii ''<![CDATA[''" "ascii '']]>''" "ascii '' />''" "ascii ''<?xml''" "ascii '' ?>''"
  "ascii ''<''" "ascii ''>''" "ascii ''=''" "ascii '' ''"
  by (simp_all add: uchar_def)

lemma encode_ascii:
  assumes "c \<noteq> NUL" and "uchar c < 128"
  shows "ascii (encode_char c)"
proof (cases "find (\<lambda>e. snd e = c) entity")
  case (Some e)
  then have "e \<in> set entity" "encode_char c = fst e" by (rule entity_char)+
  moreover have "list_all (\<lambda>e. ascii (fst e)) entity" by (simp add: entity_def uchar_def)
  ultimately show ?thesis by (simp add: list_all_iff)
next
  case None
  have "hex_digit d \<noteq> NUL \<and> uchar (hex_digit d) < 128" if "d < 16" for d
    using that hex_digit_char [OF that] hex_digit_not [OF that, of NUL] by (auto simp: uchar_def)
  then show ?thesis using None assms by (auto simp: encode_char_def ascii_def uchar_def)
qed

lemma value_ascii: "good_value v \<Longrightarrow> ascii (EncodeString v)"
proof -
  assume v: "good_value v"
  have "ascii v \<Longrightarrow> ascii (concat (map encode_char v))" by (induction v) (simp_all add: encode_ascii)
  then show ?thesis using v by (simp add: good_value_def EncodeString_chars)
qed

lemma attributes_ascii: "\<forall>a \<in> set as. good_attribute a \<Longrightarrow> ascii (attributes_text as)"
proof (induction as)
  case (Cons a as)
  have a: "good_name (a_name a)" "good_value (a_value a)" using Cons.prems by (simp_all add: good_attribute_def)
  have "ascii [q]" if "q \<in> {CHR 0x22, CHR 0x27}" for q using that by (auto simp: uchar_def)
  then have "ascii (Attribute_Print a)"
    using Attribute_Print_good [OF a] name_ascii [OF a(1)] value_ascii [OF a(2)] ascii_tags by (metis ascii_append)
  moreover have "attributes_text (a # as) = '' '' @ Attribute_Print a @ attributes_text as" by (simp add: attributes_text_def)
  ultimately show ?case using Cons ascii_tags by (simp only: ascii_append) simp
qed (simp add: attributes_text_def)

lemma declaration_ascii:
  assumes "good_declared version" and "good_declared enc" and "good_declared standalone"
  shows "ascii (Declaration_Print version enc standalone)"
proof -
  have "\<forall>a \<in> set (declaration_attributes version enc standalone). good_attribute a"
    using assms declaration_names by (auto simp: declaration_attributes_def good_attribute_def good_declared_def)
  then have "ascii (attributes_text (declaration_attributes version enc standalone))" by (rule attributes_ascii)
  then show ?thesis unfolding Declaration_Print_attributes [OF assms] ascii_append using ascii_tags by blast
qed

lemma layout_ascii: "layout n s \<Longrightarrow> ascii s" "layouts ns t \<Longrightarrow> ascii t"
proof (induction rule: layout_layouts.inducts)
  case (layout_empty n as loc)
  then show ?case unfolding ascii_append using name_ascii [of n] attributes_ascii [of as] ascii_tags unfolding good_attributes_def by blast
next
  case (layout_element n as ns s loc)
  then show ?case unfolding ascii_append using name_ascii [of n] attributes_ascii [of as] ascii_tags unfolding good_attributes_def by blast
next
  case (layout_unknown v loc)
  then show ?case unfolding ascii_append good_unknown_def using ascii_tags by blast
next
  case (layout_text v loc)
  then show ?case using value_ascii by (simp add: good_text_def)
qed (use ascii_tags declaration_ascii white_ascii in \<open>unfold ascii_append, blast+\<close>)

lemma declared_some:
  assumes "layout n s" and "unlocated n' = unlocated n"
  shows "\<exists>e. declared encoding n' = Some e"
proof (cases n')
  case (Declaration loc version enc standalone)
  then obtain loc' where "n = Declaration loc' version enc standalone" using assms(2) by (cases n) auto
  then have "ascii enc" using assms(1) by (auto simp: good_declared_def good_value_def elim: layout.cases)
  then have "enc \<noteq> [] \<Longrightarrow> hd enc \<noteq> NUL" by (cases enc) (auto simp: ascii_def)
  then show ?thesis using Declaration by (simp add: declared_def StringEqual_def)
qed (simp_all add: declared_def)

lemma document_loop_back:
  assumes "layouts ns t" and "\<forall>n \<in> set ns. \<not> plain_text n" and "white w" and "w \<noteq> []" and "ready st"
  shows "\<exists>p. SkipWhiteSpace (Some (t @ w @ [NUL])) encoding = Some (Some p) \<and>
    (\<exists>ns' e st'. document_loop True (Some p) encoding st = Some (Some [NUL], ns', e, st') \<and> map unlocated ns' = map unlocated ns \<and> err st' = err st)"
  using assms(1,2,5)
proof (induction ns arbitrary: t st encoding)
  case Nil
  then have "white t" by (auto elim: layouts.cases)
  then have "white (t @ w)" using assms(3) by (auto simp: white_def)
  then have "SkipWhiteSpace (Some (t @ w @ [NUL])) encoding = Some (Some [NUL])" using skip_to_end [of "t @ w" encoding] assms(4) by simp
  moreover have "document_loop True (Some [NUL]) encoding st = Some (Some [NUL], [], encoding, st)"
    by (subst document_loop.simps) (simp add: at_end_def)
  ultimately show ?case by simp
next
  case (Cons n ns)
  from Cons.prems(1) obtain v s t' where l: "t = v @ s @ t'" "white v" "layout n s" "layouts ns t'" by (rule layouts_cases) auto
  let ?r = "t' @ w @ [NUL]"
  have n: "\<not> plain_text n" using Cons.prems(2) by simp
  obtain c x where c: "s = CHR ''<'' # c # x" using tag_start [OF l(3) n] by blast
  have skip: "SkipWhiteSpace (Some (t @ w @ [NUL])) encoding = Some (Some (s @ ?r))"
    using skip_white [OF l(2), of "CHR ''<''" "c # x @ ?r"] l(1) c by simp
  have "?r \<noteq> [] \<and> hd ?r \<noteq> NUL"
    using layout_ascii(2) [OF l(4)] white_ascii [OF assms(3)] assms(4) by (cases t'; cases w) simp_all
  then obtain k n' st1 where k: "Identify (Some (s @ ?r)) encoding = Some (Some k)"
    "parse_node k True (Some (s @ ?r)) encoding st = Some (Some ?r, [n'], st1)"
    "unlocated n' = unlocated n" "ready st1" "err st1 = err st"
    using layouts_back(1) [OF l(3)] n Cons.prems(3) unfolding node_back_def by blast
  obtain e where e: "declared encoding n' = Some e" using declared_some [OF l(3) k(3)] by blast
  obtain p ns' e' st' where r: "SkipWhiteSpace (Some ?r) e = Some (Some p)" "document_loop True (Some p) e st1 = Some (Some [NUL], ns', e', st')"
    "map unlocated ns' = map unlocated ns" "err st' = err st1" using Cons.IH [OF l(4) _ k(4), of e] Cons.prems(2) by auto
  have "document_loop True (Some (s @ ?r)) encoding st = Some (Some [NUL], n' # ns', e', st')"
    using k(1,2) e r(1,2) c by (cases "k = Is_element"; subst document_loop.simps) (simp_all add: at_end_solid parse_node_def)
  then show ?case using skip k(3,5) r(3,4) by simp
qed

lemma document_back:
  assumes "layouts ns t" and "\<forall>n \<in> set ns. \<not> plain_text n" and "ns \<noteq> []" and "white w" and "w \<noteq> []"
  shows "\<exists>ns'. Document_Parse True (Some (t @ w @ [NUL])) encoding doc = Some (Some [NUL], doc\<lparr>children := children doc @ ns', error := None\<rparr>) \<and>
    map unlocated ns' = map unlocated ns"
proof -
  let ?p = "t @ w @ [NUL]"
  have a: "ascii (t @ w)" using layout_ascii(2) [OF assms(1)] white_ascii [OF assms(4)] by simp
  define st where "st = \<lparr>data = \<lparr>row = 0, col = 0, stamp = ?p, tabsize = doc_tabsize doc\<rparr>, err = None\<rparr>"
  have "ready st" using a unfolding ready_def st_def by (intro exI [of _ "t @ w"]) simp
  then obtain p ns' e st' where r: "SkipWhiteSpace (Some ?p) encoding = Some (Some p)" "document_loop True (Some p) encoding st = Some (Some [NUL], ns', e, st')"
    "map unlocated ns' = map unlocated ns" "err st' = None"
    using document_loop_back [OF assms(1,2,4,5), of st encoding] by (auto simp: st_def)
  have "ns' \<noteq> []" using r(3) assms(3) by auto
  obtain c x where c: "t @ w = c # x" using assms(5) by (cases "t @ w") auto
  then have cx: "?p = c # x @ [NUL]" by (metis append_Cons append_assoc)
  have "c \<noteq> NUL" "uchar c < 128" using a unfolding c by simp_all
  then have "at_end (Some ?p) = Some False" "take 3 ?p \<noteq> [CHR 0xEF, CHR 0xBB, CHR 0xBF]" unfolding cx by (auto simp: at_end_def uchar_def)
  then have "Document_Parse True (Some ?p) encoding doc = Some (Some [NUL], doc\<lparr>children := children doc @ ns', error := None\<rparr>)"
    using r \<open>ns' \<noteq> []\<close> by (simp add: Document_Parse_def flip: st_def)
  then show ?thesis using r(3) by blast
qed

end
