(* ===== verification/XmlSave.thy ===== *)
theory XmlSave
  imports XmlRound
begin

text \<open>
  What TinyXML prints is read back: both printers of \<open>XmlPrint\<close> lay out the nodes that \<open>good_node\<close> admits (\<open>XmlRound.layouts\<close>), so that
  \<open>TiXmlDocument::Parse\<close> returns them, and a document that was saved is loaded.
\<close>

section \<open>Printers lay out nodes\<close>

fun separated :: "xml_node list \<Rightarrow> bool" where
  \<comment> \<open>no two texts side by side\<close>
  "separated (a # b # ns) \<longleftrightarrow> \<not> (plain_text a \<and> plain_text b) \<and> separated (b # ns)"
| "separated _ \<longleftrightarrow> True"

fun good_node :: "xml_node \<Rightarrow> bool" where
  "good_node (Element loc n as ns) \<longleftrightarrow> good_name n \<and> good_attributes as \<and> separated ns \<and> list_all good_node ns"
| "good_node (Comment loc v) \<longleftrightarrow> raw ''-->'' v \<and> ascii v"
| "good_node (Unknown loc v) \<longleftrightarrow> good_unknown v"
| "good_node (Text loc v cdata) \<longleftrightarrow> (if cdata then raw '']]>'' v \<and> ascii v else good_text v)"
| "good_node (Declaration loc version enc standalone) \<longleftrightarrow> good_declared version \<and> good_declared enc \<and> good_declared standalone"

definition lays :: "xml_node \<Rightarrow> string \<Rightarrow> bool" where
  \<comment> \<open>the text of a node with white space on both sides\<close>
  "lays n x \<longleftrightarrow> (\<exists>w s w'. x = w @ s @ w' \<and> white w \<and> layout n s \<and> white w')"

lemma white_append [simp]: "white (x @ y) \<longleftrightarrow> white x \<and> white y"
  by (auto simp: white_def)

lemma white_newline [simp]: "white newline" "white []"
  by (simp_all add: white_def newline_def)

lemma white_replicate [simp]: "white x \<Longrightarrow> white (concat (replicate d x))"
  by (induction d) simp_all

lemma white_indent [simp]: "white (indent d)"
  by (simp add: indent_def) (simp add: white_def)

lemma laysI: "white w \<Longrightarrow> layout n s \<Longrightarrow> white w' \<Longrightarrow> lays n (w @ s @ w')"
  unfolding lays_def by blast

lemma lays_white: "lays n x \<Longrightarrow> white v \<Longrightarrow> lays n (v @ x)"
proof -
  assume "lays n x" "white v"
  then obtain w s w' where x: "x = w @ s @ w'" "white w" "layout n s" "white w'" by (auto simp: lays_def)
  then show ?thesis using laysI [of "v @ w" n s w'] \<open>white v\<close> by simp
qed

lemma layouts_white: "layouts ns t \<Longrightarrow> white w \<Longrightarrow> layouts ns (w @ t)"
proof -
  assume l: "layouts ns t" and w: "white w"
  from l show ?thesis
  proof (cases rule: layouts.cases)
    case layouts_Nil
    then show ?thesis using w by (simp add: layout_layouts.layouts_Nil)
  next
    case (layouts_Cons w' n s ns' t')
    then have "layouts (n # ns') ((w @ w') @ s @ t')" using w by (intro layout_layouts.layouts_Cons) simp_all
    then show ?thesis using layouts_Cons by simp
  qed
qed

lemma layouts_end: "layouts ns t \<Longrightarrow> white w \<Longrightarrow> layouts ns (t @ w)"
proof (induction ns arbitrary: t)
  case Nil
  then have "white t" by (auto elim: layouts_cases)
  then show ?case using Nil by (intro layouts_Nil) simp
next
  case (Cons n ns)
  from Cons.prems(1) obtain v s t' where l: "t = v @ s @ t'" "white v" "layout n s" "layouts ns t'" "plain_text n \<longrightarrow> ns = [] \<or> \<not> plain_text (hd ns)"
    by (rule layouts_cases) auto
  have "layouts (n # ns) (v @ s @ (t' @ w))" by (rule layouts_Cons [OF l(2,3) Cons.IH [OF l(4) Cons.prems(2)] l(5)])
  then show ?case using l(1) by simp
qed

lemma layouts_add:
  assumes "lays n x" and "layouts ns t" and "separated (n # ns)"
  shows "layouts (n # ns) (x @ t)"
proof -
  obtain w s w' where x: "x = w @ s @ w'" "white w" "layout n s" "white w'" using assms(1) by (auto simp: lays_def)
  have "layouts (n # ns) (w @ s @ (w' @ t))"
    using x assms(3) layouts_white [OF assms(2) x(4)] by (intro layouts_Cons) (cases ns; simp)+
  then show ?thesis using x(1) by simp
qed

lemma separated_tl: "separated (n # ns) \<Longrightarrow> separated ns"
  by (cases ns) simp_all

lemma layouts_concat:
  assumes "\<forall>n \<in> set ns. lays n (f n)" and "separated ns" and "white v"
  shows "layouts ns (concat (map f ns) @ v)"
  using assms(1,2)
proof (induction ns)
  case Nil
  then show ?case using assms(3) by (simp add: layouts_Nil)
next
  case (Cons n ns)
  then show ?case using layouts_add [of n "f n" ns] separated_tl by simp
qed

lemma layouts_lines:
  assumes "\<forall>n \<in> set ns. lays n (f n)" and "separated ns" and "white v" and "ns \<noteq> []"
  shows "\<exists>t. concat (map (\<lambda>n. f n @ v) ns) = t @ v \<and> layouts ns t"
  using assms(1,2,4)
proof (induction ns)
  case (Cons n ns)
  show ?case
  proof (cases "ns = []")
    case True
    then show ?thesis using Cons.prems layouts_add [of n "f n" "[]" "[]"] by (simp add: layouts_Nil)
  next
    case False
    obtain t where t: "concat (map (\<lambda>n. f n @ v) ns) = t @ v" "layouts ns t" using Cons False separated_tl by auto
    have "layouts (n # ns) (f n @ (v @ t))" using Cons.prems layouts_white [OF t(2) assms(3)] by (intro layouts_add) simp_all
    then show ?thesis using t(1) by (intro exI [of _ "f n @ v @ t"]) simp
  qed
qed simp

lemma printed_good: "good_attributes as \<Longrightarrow> printed_attributes as = as"
proof (cases as)
  case (Cons a rest)
  assume "good_attributes as"
  then have "\<forall>a \<in> set rest. a_name a \<noteq> []" using Cons by (auto simp: good_attributes_def good_attribute_def good_name_def)
  then show ?thesis using Cons by (simp add: takeWhile_eq_all_conv)
qed simp

lemma name_c_str: "good_name n \<Longrightarrow> c_str n = n"
  by (rule c_str_whole [OF ascii_NUL [OF name_ascii]])

lemma ascii_c_str: "ascii v \<Longrightarrow> c_str v = v"
  by (rule c_str_whole [OF ascii_NUL])

lemma Print_lays: "good_node n \<Longrightarrow> lays n (Print d n)"
proof (induction n arbitrary: d)
  case (Element loc n as ns)
  then have g: "good_name n" "good_attributes as" "separated ns" "\<forall>m \<in> set ns. good_node m" by (simp_all add: list_all_iff)
  have IH: "lays m (Print d' m)" if "m \<in> set ns" for m d' using Element.IH [OF that] g(4) that by blast
  have start: "''<'' @ c_str n @ concat (map (\<lambda>a. '' '' @ Attribute_Print a) (printed_attributes as)) = ''<'' @ n @ attributes_text as"
    using g by (simp add: name_c_str printed_good attributes_text_def)
  have "\<exists>s. Print d (Element loc n as ns) = indent d @ s \<and> layout (Element loc n as ns) s"
  proof (cases ns)
    case Nil
    then show ?thesis using start layout_empty [OF g(1,2), of loc]
      by (intro exI [of _ "''<'' @ n @ attributes_text as @ '' />''"]) simp
  next
    case (Cons m ms)
    define f where "f = (if ms = [] \<and> is_text m then Print (d + 1) else (\<lambda>n. (if is_text n then [] else newline) @ Print (d + 1) n))"
    define v where "v = (if ms = [] \<and> is_text m then [] else newline @ indent d)"
    let ?t = "concat (map f ns) @ v"
    have "\<forall>m \<in> set ns. lays m (f m)" using IH lays_white by (auto simp: f_def)
    then have "layouts ns ?t" using g(3) by (intro layouts_concat) (simp_all add: v_def)
    then have l: "layout (Element loc n as ns) (''<'' @ n @ attributes_text as @ ''>'' @ ?t @ ''</'' @ n @ ''>'')" by (rule layout_element [OF g(1,2)])
    have "Print d (Element loc n as ns) = indent d @ (''<'' @ n @ attributes_text as @ ''>'' @ ?t @ ''</'' @ n @ ''>'')"
      using start g(1) unfolding Cons by (auto simp: f_def v_def name_c_str)
    then show ?thesis using l by blast
  qed
  then obtain s where "Print d (Element loc n as ns) = indent d @ s @ []" "layout (Element loc n as ns) s" by auto
  then show ?case using laysI [of "indent d" "Element loc n as ns" s "[]"] by simp
next
  case (Comment loc v)
  then have "raw ''-->'' v" "ascii v" by simp_all
  then show ?case using laysI [OF white_indent layout_comment [of v loc] white_newline(2), of d] by (simp add: ascii_c_str)
next
  case (Unknown loc v)
  then have "good_unknown v" "ascii v" by (simp_all add: good_unknown_def)
  then show ?case using laysI [OF white_indent layout_unknown [of v loc] white_newline(2), of d] by (simp add: ascii_c_str)
next
  case (Text loc v cdata)
  show ?case
  proof (cases cdata)
    case True
    then have "raw '']]>'' v" "ascii v" using Text by simp_all
    then show ?thesis using True laysI [of "newline @ indent d", OF _ layout_cdata [of v loc] white_newline(1)] by (simp add: ascii_c_str)
  next
    case False
    then show ?thesis using Text laysI [of "[]" "Text loc v False" "EncodeString v" "[]"] by (simp add: layout_text)
  qed
next
  case (Declaration loc version enc standalone)
  then show ?case using laysI [of "[]" "Declaration loc version enc standalone" "Declaration_Print version enc standalone" "[]"]
    by (simp add: layout_declaration)
qed


section \<open>The printing visitor\<close>

definition calm :: "printer \<Rightarrow> bool" where
  "calm pr \<longleftrightarrow> \<not> simpleTextPrint pr \<and> white (p_indent pr) \<and> white (lineBreak pr)"

definition accepted :: "xml_node \<Rightarrow> printer \<Rightarrow> bool" where
  "accepted n pr \<longleftrightarrow> (\<exists>x. lays n x \<and> Accept n pr = put (x @ lineBreak pr) pr)"

lemma put_put [simp]: "put x (put y pr) = put (y @ x) pr"
  by (simp add: put_def)

lemma put_fields [simp]:
  "depth (put x pr) = depth pr" "simpleTextPrint (put x pr) = simpleTextPrint pr" "p_indent (put x pr) = p_indent pr"
  "lineBreak (put x pr) = lineBreak pr" "buffer (put x pr) = buffer pr @ x" "calm (put x pr) = calm pr"
  by (simp_all add: put_def calm_def)

lemma fold_accepted:
  assumes "\<forall>n \<in> set ns. \<forall>pr. calm pr \<longrightarrow> accepted n pr" and "separated ns" and "calm pr" and "ns \<noteq> []"
  shows "\<exists>t. layouts ns t \<and> fold Accept ns pr = put (t @ lineBreak pr) pr"
  using assms
proof (induction ns arbitrary: pr)
  case (Cons n ns)
  then have "accepted n pr" by simp
  then obtain x where x: "lays n x" "Accept n pr = put (x @ lineBreak pr) pr" unfolding accepted_def by blast
  show ?case
  proof (cases "ns = []")
    case True
    then have "layouts (n # ns) x" using layouts_add [OF x(1), of "[]" "[]"] by (simp add: layouts_Nil)
    then show ?thesis using x True by auto
  next
    case False
    let ?pr = "put (x @ lineBreak pr) pr"
    obtain t where t: "layouts ns t" "fold Accept ns ?pr = put (t @ lineBreak pr) ?pr" using Cons.IH [of ?pr] Cons.prems False separated_tl by auto
    have "white (lineBreak pr)" using Cons.prems(3) by (simp add: calm_def)
    then have "layouts (n # ns) (x @ (lineBreak pr @ t))" using x(1) t(1) layouts_white Cons.prems(2) by (intro layouts_add) simp_all
    then show ?thesis using x(2) t(2) by (intro exI [of _ "x @ lineBreak pr @ t"]) simp
  qed
qed simp

lemma accepted_leaf: "layout n s \<Longrightarrow> calm pr \<Longrightarrow> Accept n pr = DoLineBreak (put s (DoIndent pr)) \<Longrightarrow> accepted n pr"
  using laysI [of "concat (replicate (depth pr) (p_indent pr))" n s "[]"]
  by (auto simp: accepted_def calm_def DoIndent_def DoLineBreak_def)

lemma Accept_accepted: "good_node n \<Longrightarrow> calm pr \<Longrightarrow> accepted n pr"
proof (induction n arbitrary: pr)
  case (Element loc n as ns)
  then have g: "good_name n" "good_attributes as" "separated ns" "\<forall>m \<in> set ns. good_node m" by (simp_all add: list_all_iff)
  have IH: "\<forall>m \<in> set ns. \<forall>pr. calm pr \<longrightarrow> accepted m pr" using Element.IH g(4) by blast
  let ?i = "concat (replicate (depth pr) (p_indent pr))"
  have w: "white ?i" "white (lineBreak pr)" "\<not> simpleTextPrint pr" using Element.prems(2) by (simp_all add: calm_def)
  have same: "accepted (Element loc n as ns) pr"
    if "layout (Element loc n as ns) s" "Accept (Element loc n as ns) pr = put (?i @ s @ lineBreak pr) pr" for s
    using laysI [OF w(1) that(1) white_newline(2)] that(2) by (auto simp: accepted_def)
  show ?case
  proof (cases ns)
    case Nil
    have "Accept (Element loc n as ns) pr = put (?i @ (''<'' @ n @ attributes_text as @ '' />'') @ lineBreak pr) pr"
      using Nil g by (simp add: VisitEnter_def VisitExit_def DoIndent_def DoLineBreak_def name_c_str printed_good attributes_text_def put_def Let_def)
    then show ?thesis using same layout_empty [OF g(1,2)] Nil by blast
  next
    case (Cons m ms)
    show ?thesis
    proof (cases "ms = [] \<and> plain_text m")
      case True
      then obtain loc' v where m: "m = Text loc' v False" by (cases m) (auto simp: plain_text_def)
      have "layout m (EncodeString v)" using g(4) Cons m by (auto intro: layout_text)
      then have "lays m (EncodeString v)" using laysI [of "[]" m "EncodeString v" "[]"] by simp
      then have "layouts ns (EncodeString v)" using Cons True layouts_add [of m "EncodeString v" "[]" "[]"] by (simp add: layouts_Nil)
      then have l: "layout (Element loc n as ns) (''<'' @ n @ attributes_text as @ ''>'' @ EncodeString v @ ''</'' @ n @ ''>'')"
        using layout_element [OF g(1,2)] by simp
      have "Accept (Element loc n as ns) pr = put (?i @ (''<'' @ n @ attributes_text as @ ''>'' @ EncodeString v @ ''</'' @ n @ ''>'') @ lineBreak pr) pr"
        using Cons True m g w(3) by (simp add: VisitEnter_def VisitExit_def Visit_text_def DoIndent_def DoLineBreak_def name_c_str printed_good
            attributes_text_def put_def Let_def)
      then show ?thesis using same l by blast
    next
      case False
      define x where "x = ?i @ ''<'' @ n @ attributes_text as @ ''>'' @ lineBreak pr"
      define pr1 where "pr1 = (put x pr)\<lparr>depth := depth pr + 1\<rparr>"
      have enter: "VisitEnter n as ns pr = pr1"
        using Cons False g by (auto simp: VisitEnter_def pr1_def x_def plain_text_def DoIndent_def DoLineBreak_def name_c_str printed_good
            attributes_text_def put_def Let_def split: xml_node.splits)
      have "calm pr1" using w Element.prems(2) by (simp add: pr1_def calm_def)
      then obtain t where t: "layouts ns t" "fold Accept ns pr1 = put (t @ lineBreak pr1) pr1" using fold_accepted [OF IH g(3)] Cons by blast
      have lb: "lineBreak pr1 = lineBreak pr" by (simp add: pr1_def)
      have "layouts ns ((lineBreak pr @ t) @ lineBreak pr @ ?i)"
        using t(1) w(1,2) by (intro layouts_end layouts_white) simp_all
      then have "layouts ns (lineBreak pr @ t @ lineBreak pr @ ?i)" by simp
      then have l: "layout (Element loc n as ns) (''<'' @ n @ attributes_text as @ ''>'' @ (lineBreak pr @ t @ lineBreak pr @ ?i) @ ''</'' @ n @ ''>'')"
        by (rule layout_element [OF g(1,2)])
      have "Accept (Element loc n as ns) pr =
          put (?i @ (''<'' @ n @ attributes_text as @ ''>'' @ (lineBreak pr @ t @ lineBreak pr @ ?i) @ ''</'' @ n @ ''>'') @ lineBreak pr) pr"
        using Cons g w(3) enter t(2) lb by (simp add: VisitExit_def DoIndent_def DoLineBreak_def name_c_str pr1_def x_def put_def Let_def)
      then show ?thesis using same l by blast
    qed
  qed
next
  case (Comment loc v)
  then have "raw ''-->'' v" "ascii v" by simp_all
  then show ?case using accepted_leaf [OF layout_comment [of v loc] Comment.prems(2)] by (simp add: ascii_c_str)
next
  case (Unknown loc v)
  then have "good_unknown v" "ascii v" by (simp_all add: good_unknown_def)
  then show ?case using accepted_leaf [OF layout_unknown [of v loc] Unknown.prems(2)] by (simp add: ascii_c_str)
next
  case (Text loc v cdata)
  show ?case
  proof (cases cdata)
    case True
    then have "raw '']]>'' v" "ascii v" using Text by simp_all
    then show ?thesis using True accepted_leaf [OF layout_cdata [of v loc] Text.prems(2)] by (simp add: ascii_c_str Visit_text_def)
  next
    case False
    then show ?thesis using Text accepted_leaf [OF layout_text [of v loc] Text.prems(2)] by (simp add: Visit_text_def calm_def)
  qed
next
  case (Declaration loc version enc standalone)
  then show ?case by (intro accepted_leaf [OF layout_declaration]) simp_all
qed


section \<open>Round trips\<close>

definition good_document :: "xml_node list \<Rightarrow> bool" where
  "good_document ns \<longleftrightarrow> ns \<noteq> [] \<and> list_all (\<lambda>n. good_node n \<and> \<not> plain_text n) ns"

lemma good_separated: "list_all (\<lambda>n. \<not> plain_text n) ns \<Longrightarrow> separated ns"
  by (induction ns rule: separated.induct) simp_all

lemma good_documentD:
  assumes "good_document ns"
  shows "ns \<noteq> []" and "\<forall>n \<in> set ns. good_node n" and "\<forall>n \<in> set ns. \<not> plain_text n" and "separated ns"
  using assms good_separated by (auto simp: good_document_def list_all_iff)

lemma Document_Print_layouts:
  assumes "good_document ns"
  shows "\<exists>t. Document_Print ns = t @ newline \<and> layouts ns t"
  unfolding Document_Print_def using good_documentD [OF assms] Print_lays by (intro layouts_lines) simp_all

lemma Document_Accept_layouts:
  assumes "good_document ns"
  shows "\<exists>t. buffer (Document_Accept ns TiXmlPrinter) = t @ newline \<and> layouts ns t"
proof -
  have "calm TiXmlPrinter" by (simp add: calm_def TiXmlPrinter_def) (simp add: white_def)
  moreover have "\<forall>n \<in> set ns. \<forall>pr. calm pr \<longrightarrow> accepted n pr" using good_documentD(2) [OF assms] Accept_accepted by blast
  ultimately obtain t where t: "layouts ns t" "fold Accept ns TiXmlPrinter = put (t @ lineBreak TiXmlPrinter) TiXmlPrinter"
    using fold_accepted good_documentD(1,4) [OF assms] by blast
  then show ?thesis by (simp add: Document_Accept_def put_def TiXmlPrinter_def)
qed

lemma printed_back:
  assumes "good_document ns" and "x = t @ newline" and "layouts ns t"
  shows "\<exists>ns'. Document_Parse True (Some (x @ [NUL])) encoding doc = Some (Some [NUL], doc\<lparr>children := children doc @ ns', error := None\<rparr>) \<and>
    map unlocated ns' = map unlocated ns"
proof -
  have "newline \<noteq> []" by (simp add: newline_def)
  then show ?thesis
    using document_back [OF assms(3) good_documentD(3,1) [OF assms(1)] white_newline(1), of encoding doc] unfolding assms(2) append_assoc by blast
qed

text \<open>C7: What a document prints, to a file or with the visitor, is parsed back under every encoding: without an error, to the
  same nodes up to their locations. The nodes may be nested in any way; names start with a letter and have characters
  of names only, texts have no white space that is condensed and do not stand side by side, everything is made of single
  bytes and has no \<open>&#x\<close>, and attributes have different names.\<close>

theorem xml_document_roundtrip:
  assumes "good_document ns" and "x = Document_Print ns \<or> x = buffer (Document_Accept ns TiXmlPrinter)"
  shows "\<exists>ns'. Document_Parse True (Some (x @ [NUL])) encoding doc = Some (Some [NUL], doc\<lparr>children := children doc @ ns', error := None\<rparr>) \<and>
    map unlocated ns' = map unlocated ns"
  using assms(2) printed_back [OF assms(1)] Document_Print_layouts [OF assms(1)] Document_Accept_layouts [OF assms(1)] by metis

definition sample :: "xml_node list" where
  "sample = [Declaration no_location ''1.0'' [] [],
     Element no_location ''a'' [\<lparr>a_name = ''k'', a_value = ''x < y'', a_location = no_location\<rparr>]
       [Comment no_location ''c'', Text no_location ''b & c'' False, Element no_location ''d'' [] []]]"

lemma sample_good: "good_document sample"
proof -
  have "good_name ''a''" "good_name ''k''" "good_name ''d''"
    by (simp_all add: good_name_def IsAlpha_def c_isalpha_def name_char_def IsAlphaNum_def c_isalnum_def c_isdigit_def c_isupper_def c_islower_def uchar_def)
  moreover have "good_value ''x < y''" "good_value ''b & c''" "good_value ''1.0''" by (simp_all add: good_value_def ascii_def uchar_def sublist_Cons_right)
  moreover have "EncodeString ''1.0'' = ''1.0''" by (simp add: EncodeString.simps encode_char_def entity_def uchar_def)
  moreover have "\<not> Blank ''b & c''" by (simp add: Blank_def IsWhiteSpace_iff uchar_def)
  moreover have "good_declared []" by (simp add: good_declared_def good_value_def EncodeString.simps)
  ultimately show ?thesis
    by (simp add: good_document_def sample_def plain_text_def good_attributes_def good_attribute_def good_text_def good_declared_def ascii_def uchar_def)
qed

theorem xml_document_roundtrip_witness:
  "\<exists>ns'. Document_Parse True (Some (Document_Print sample @ [NUL])) TIXML_ENCODING_UNKNOWN
      \<lparr>children = [], error = None, doc_tabsize = 4, useMicrosoftBOM = False\<rparr> =
    Some (Some [NUL], \<lparr>children = [], error = None, doc_tabsize = 4, useMicrosoftBOM = False\<rparr>\<lparr>children := [] @ ns', error := None\<rparr>) \<and>
    map unlocated ns' = map unlocated sample"
  using xml_document_roundtrip [OF sample_good disjI1 [OF refl], of TIXML_ENCODING_UNKNOWN
      "\<lparr>children = [], error = None, doc_tabsize = 4, useMicrosoftBOM = False\<rparr>"] by simp

lemma end_of_lines_same: "CHR 0x0D \<notin> set s \<Longrightarrow> NUL \<notin> set s \<Longrightarrow> end_of_lines s = s"
  by (induction s rule: end_of_lines.induct) auto

text \<open>C28: A document that was saved to a file is loaded from it with the same nodes up to their locations, whatever the document
  that loads it held before, if its text has no carriage return and no byte order mark was asked for.\<close>

theorem xml_save_load:
  assumes "good_document (children doc)" and "CHR 0x0D \<notin> set (SaveFile doc)" and "\<not> useMicrosoftBOM doc"
  shows "\<exists>ns'. LoadFile True (Some (SaveFile doc)) encoding doc' = Some (True, doc'\<lparr>children := ns', error := None\<rparr>) \<and>
    map unlocated ns' = map unlocated (children doc)"
proof -
  let ?x = "SaveFile doc"
  have x: "?x = Document_Print (children doc)" using assms(3) by (simp add: SaveFile_def)
  obtain t where t: "?x = t @ newline" "layouts (children doc) t" using Document_Print_layouts [OF assms(1)] x by auto
  have "ascii newline" using white_ascii white_newline(1) by blast
  then have "NUL \<notin> set ?x" using t(1) ascii_NUL [of ?x] layout_ascii(2) [OF t(2)] by simp
  then have "end_of_lines ?x = ?x" using assms(2) by (intro end_of_lines_same)
  then have "file_buffer ?x = ?x @ [NUL]" by (simp add: file_buffer_def)
  moreover have "?x \<noteq> []" using t(1) by (simp add: newline_def)
  ultimately show ?thesis using printed_back [OF assms(1) t, of encoding "doc'\<lparr>children := []\<rparr>"] by (auto simp: LoadFile_def)
qed

theorem xml_save_load_witness:
  "\<exists>ns'. LoadFile True (Some (SaveFile \<lparr>children = [Comment no_location ''c''], error = None, doc_tabsize = 4, useMicrosoftBOM = False\<rparr>)) TIXML_ENCODING_UNKNOWN
      \<lparr>children = [], error = None, doc_tabsize = 4, useMicrosoftBOM = False\<rparr> =
    Some (True, \<lparr>children = ns', error = None, doc_tabsize = 4, useMicrosoftBOM = False\<rparr>) \<and> map unlocated ns' = [Comment no_location ''c'']"
proof -
  have "good_document [Comment no_location ''c'']" by (simp add: good_document_def plain_text_def uchar_def)
  moreover have "CHR 0x0D \<notin> set (SaveFile \<lparr>children = [Comment no_location ''c''], error = None, doc_tabsize = 4, useMicrosoftBOM = False\<rparr>)"
    by (simp add: SaveFile_def Document_Print_def indent_def newline_def c_str_def)
  ultimately show ?thesis
    using xml_save_load [of "\<lparr>children = [Comment no_location ''c''], error = None, doc_tabsize = 4, useMicrosoftBOM = False\<rparr>" TIXML_ENCODING_UNKNOWN
        "\<lparr>children = [], error = None, doc_tabsize = 4, useMicrosoftBOM = False\<rparr>"] by simp
qed

end
