(* ===== verification/XmlString.thy ===== *)
theory XmlString
  imports CString
begin

text \<open>
  \<open>tinyxml/tinystr.h\<close>, \<open>tinyxml/tinystr.cpp\<close>: the string of TinyXML. The memory maps addresses to allocated \<open>Rep\<close>s; address 0 is the
  shared \<open>nullrep_\<close>, every other \<open>Rep\<close> belongs to one string, whose value is its address \<open>rep_\<close>. A byte that was never written is
  \<open>None\<close>. An operation on a string takes its \<open>rep_\<close> and returns the new one; the result \<open>None\<close> is a read of freed memory, of
  memory outside of a block or of bytes never written, or a write outside of a block. A \<open>const char*\<close> argument is either memory of the
  caller or points into a \<open>Rep\<close>. Sizes stay below \<open>2 ^ 64\<close>.
\<close>

record rep =
  r_size :: nat
  r_capacity :: nat
  r_bytes :: "char option list"

record memory =
  reps :: "nat \<Rightarrow> rep option"
  next_rep :: nat

datatype source = Own string | Inside nat nat

definition nullrep :: rep where
  "nullrep = \<lparr>r_size = 0, r_capacity = 0, r_bytes = [Some CHR 0x00]\<rparr>"

definition read_from :: "memory \<Rightarrow> source \<Rightarrow> nat \<Rightarrow> char option list option" where
  \<comment> \<open>the bytes that \<open>memcpy\<close> and \<open>memmove\<close> take\<close>
  "read_from m src len =
     (case src of
        Own s \<Rightarrow> if len \<le> length s then Some (map Some (take len s)) else None
      | Inside a off \<Rightarrow>
          (case reps m a of
             None \<Rightarrow> None
           | Some r \<Rightarrow> if off + len \<le> length (r_bytes r) then Some (take len (drop off (r_bytes r))) else None))"

definition write_to :: "nat \<Rightarrow> nat \<Rightarrow> char option list \<Rightarrow> memory \<Rightarrow> memory option" where
  "write_to a off bs m =
     (case reps m a of
        None \<Rightarrow> None
      | Some r \<Rightarrow>
          if off + length bs \<le> length (r_bytes r)
          then Some (m\<lparr>reps := (reps m)(a \<mapsto> r\<lparr>r_bytes := take off (r_bytes r) @ bs @ drop (off + length bs) (r_bytes r)\<rparr>)\<rparr>)
          else None)"

definition set_size :: "nat \<Rightarrow> nat \<Rightarrow> memory \<Rightarrow> memory option" where
  "set_size a sz m =
     (case reps m a of
        None \<Rightarrow> None
      | Some r \<Rightarrow> write_to a sz [Some CHR 0x00] (m\<lparr>reps := (reps m)(a \<mapsto> r\<lparr>r_size := sz\<rparr>)\<rparr>))"

definition init_rep :: "nat \<Rightarrow> nat \<Rightarrow> memory \<Rightarrow> (nat \<times> memory) option" where
  "init_rep sz cap m =
     (if cap \<noteq> 0
      then (let a = next_rep m;
                m = m\<lparr>reps := (reps m)(a \<mapsto> \<lparr>r_size = 0, r_capacity = cap, r_bytes = replicate (cap + 1) None\<rparr>), next_rep := a + 1\<rparr>
            in map_option (\<lambda>m. (a, m)) (set_size a sz m))
      else Some (0, m))"

definition quit_rep :: "nat \<Rightarrow> memory \<Rightarrow> memory" where
  "quit_rep a m = (if a \<noteq> 0 then m\<lparr>reps := (reps m)(a := None)\<rparr> else m)"

definition new_string :: "source \<Rightarrow> nat \<Rightarrow> memory \<Rightarrow> (nat \<times> memory) option" where
  \<comment> \<open>the constructors from characters and from another string\<close>
  "new_string src len m = do {
     (a, m) \<leftarrow> init_rep len len m;
     bs \<leftarrow> read_from m src len;
     m \<leftarrow> write_to a 0 bs m;
     Some (a, m)
   }"

definition reserve :: "nat \<Rightarrow> nat \<Rightarrow> memory \<Rightarrow> (nat \<times> memory) option" where
  "reserve a cap m = do {
     r \<leftarrow> reps m a;
     if cap > r_capacity r
     then do {
       (tmp, m) \<leftarrow> init_rep (r_size r) cap m;
       bs \<leftarrow> read_from m (Inside a 0) (r_size r);
       m \<leftarrow> write_to tmp 0 bs m;
       Some (tmp, quit_rep a m)
     }
     else Some (a, m)
   }"

definition assign_str :: "nat \<Rightarrow> source \<Rightarrow> nat \<Rightarrow> memory \<Rightarrow> (nat \<times> memory) option" where
  "assign_str a str len m = do {
     r \<leftarrow> reps m a;
     let cap = r_capacity r;
     if len > cap \<or> cap > 3 * (len + 8)
     then do {
       (tmp, m) \<leftarrow> init_rep len len m;
       bs \<leftarrow> read_from m str len;
       m \<leftarrow> write_to tmp 0 bs m;
       Some (tmp, quit_rep a m)
     }
     else do {
       bs \<leftarrow> read_from m str len;
       m \<leftarrow> write_to a 0 bs m;
       m \<leftarrow> set_size a len m;
       Some (a, m)
     }
   }"

definition append_str :: "nat \<Rightarrow> source \<Rightarrow> nat \<Rightarrow> memory \<Rightarrow> (nat \<times> memory) option" where
  "append_str a str len m = do {
     r \<leftarrow> reps m a;
     let newsize = r_size r + len;
     (a, m) \<leftarrow> (if newsize > r_capacity r then reserve a (newsize + r_capacity r) m else Some (a, m));
     r \<leftarrow> reps m a;
     bs \<leftarrow> read_from m str len;
     m \<leftarrow> write_to a (r_size r) bs m;
     m \<leftarrow> set_size a newsize m;
     Some (a, m)
   }"

definition clear_str :: "nat \<Rightarrow> memory \<Rightarrow> (nat \<times> memory) option" where
  "clear_str a m = init_rep 0 0 (quit_rep a m)"

definition append_string :: "nat \<Rightarrow> nat \<Rightarrow> memory \<Rightarrow> (nat \<times> memory) option" where
  \<comment> \<open>\<open>+=\<close> of a string\<close>
  "append_string a sfx m = do {
     r \<leftarrow> reps m sfx;
     append_str a (Inside sfx 0) (r_size r) m
   }"

definition assign_string :: "nat \<Rightarrow> nat \<Rightarrow> memory \<Rightarrow> (nat \<times> memory) option" where
  \<comment> \<open>\<open>=\<close> of a string\<close>
  "assign_string a copy m = do {
     r \<leftarrow> reps m copy;
     assign_str a (Inside copy 0) (r_size r) m
   }"

definition plus_string :: "source \<Rightarrow> nat \<Rightarrow> source \<Rightarrow> nat \<Rightarrow> memory \<Rightarrow> (nat \<times> memory) option" where
  \<comment> \<open>the three \<open>operator +\<close>: the left and the right part with their lengths\<close>
  "plus_string x xlen y ylen m = do {
     (tmp, m) \<leftarrow> reserve 0 (xlen + ylen) m;
     (tmp, m) \<leftarrow> append_str tmp x xlen m;
     append_str tmp y ylen m
   }"

fun find_loop :: "char \<Rightarrow> char option list \<Rightarrow> nat \<Rightarrow> nat option option" where
  \<comment> \<open>\<open>Some None\<close> is \<open>npos\<close>\<close>
  "find_loop c [] i = None"
| "find_loop c (None # bs) i = None"
| "find_loop c (Some b # bs) i = (if b = CHR 0x00 then Some None else if b = c then Some (Some i) else find_loop c bs (i + 1))"

definition find_str :: "nat \<Rightarrow> char \<Rightarrow> nat \<Rightarrow> memory \<Rightarrow> nat option option" where
  "find_str a c off m = do {
     r \<leftarrow> reps m a;
     if off \<ge> r_size r then Some None else find_loop c (drop off (r_bytes r)) off
   }"

section \<open>What a string holds\<close>

definition tidy :: "memory \<Rightarrow> bool" where
  "tidy m \<longleftrightarrow> reps m 0 = Some nullrep \<and> 0 < next_rep m \<and> (\<forall>a \<ge> next_rep m. reps m a = None)"

definition holds :: "memory \<Rightarrow> nat \<Rightarrow> string \<Rightarrow> bool" where
  \<comment> \<open>the characters, the NUL behind them, and room up to the capacity\<close>
  "holds m a s \<longleftrightarrow> (\<exists>rest. reps m a =
     Some \<lparr>r_size = length s, r_capacity = length s + length rest, r_bytes = map Some s @ Some CHR 0x00 # rest\<rparr>)"

definition others_same :: "nat \<Rightarrow> memory \<Rightarrow> memory \<Rightarrow> bool" where
  "others_same a m m' \<longleftrightarrow> (\<forall>b. b \<noteq> a \<and> reps m b \<noteq> None \<longrightarrow> reps m' b = reps m b)"

definition reads :: "memory \<Rightarrow> source \<Rightarrow> string \<Rightarrow> bool" where
  "reads m src t \<longleftrightarrow> read_from m src (length t) = Some (map Some t)"

definition own :: "nat \<Rightarrow> memory \<Rightarrow> nat \<Rightarrow> bool" where
  \<comment> \<open>the new \<open>Rep\<close> is not that of another string\<close>
  "own a m a' \<longleftrightarrow> a' = a \<or> a' = 0 \<or> reps m a' = None"

lemma empty_holds: "tidy m \<Longrightarrow> holds m 0 []"
  by (simp add: tidy_def holds_def nullrep_def)

lemma own_reads [simp]: "reads m (Own (t @ u)) t" "reads m (Own t) t"
  by (simp_all add: reads_def read_from_def)

lemma string_reads: "holds m a s \<Longrightarrow> reads m (Inside a 0) s"
  by (auto simp: holds_def reads_def read_from_def)

lemma reads_same:
  assumes "reads m src t" and "\<And>b off. src = Inside b off \<Longrightarrow> reps m' b = reps m b"
  shows "reads m' src t"
  using assms by (cases src) (auto simp: reads_def read_from_def)

lemma allocated_below: "tidy m \<Longrightarrow> reps m b \<noteq> None \<Longrightarrow> b < next_rep m"
  unfolding tidy_def by (meson not_less)

lemma write_start:
  assumes "reps m a = Some r" and "length bs \<le> length (r_bytes r)"
  shows "write_to a 0 bs m = Some (m\<lparr>reps := (reps m)(a \<mapsto> r\<lparr>r_bytes := bs @ drop (length bs) (r_bytes r)\<rparr>)\<rparr>)"
  using assms by (simp add: write_to_def)

lemma drop_new: "n \<le> k \<Longrightarrow> drop n ((replicate (k + 1) None)[n := Some (c :: char)]) = Some c # replicate (k - n) None"
proof -
  assume n: "n \<le> k"
  have "drop n (xs[n := x]) = x # drop (Suc n) xs" if "n < length xs" for xs :: "char option list" and x
    using that by (simp add: upd_conv_take_nth_drop)
  from this [of "replicate (k + 1) None" "Some c"] n show ?thesis by (simp only: length_replicate drop_replicate) simp
qed

lemma copied:
  \<comment> \<open>the start of a new string: \<open>init\<close> and the copy of the characters\<close>
  assumes "tidy m" and "reads m src t" and "length t \<le> cap"
  shows "\<exists>a m1 m'. init_rep (length t) cap m = Some (a, m1) \<and> reads m1 src t \<and> write_to a 0 (map Some t) m1 = Some m' \<and>
    holds m' a t \<and> tidy m' \<and> (\<forall>b. reps m b \<noteq> None \<longrightarrow> reps m' b = reps m b \<and> reps m1 b = reps m b) \<and> (a = 0 \<or> reps m a = None) \<and>
    (\<exists>r. reps m' a = Some r \<and> r_capacity r = cap)"
proof (cases "cap = 0")
  case True
  then have "init_rep (length t) cap m = Some (0, m)" "write_to 0 0 (map Some t) m = Some m"
    using assms by (simp_all add: init_rep_def write_to_def tidy_def nullrep_def fun_upd_idem)
  then show ?thesis using True assms empty_holds by (auto simp: tidy_def nullrep_def)
next
  case False
  let ?a = "next_rep m"
  define bs where "bs = (replicate (cap + 1) None)[length t := Some CHR 0x00 :: char option]"
  have bs: "length bs = cap + 1" "drop (length t) bs = Some CHR 0x00 # replicate (cap - length t) None"
    using drop_new [OF assms(3), of "CHR 0x00"] by (simp_all only: bs_def length_list_update length_replicate)
  let ?m1 = "m\<lparr>reps := (reps m)(?a \<mapsto> \<lparr>r_size = length t, r_capacity = cap, r_bytes = bs\<rparr>), next_rep := ?a + 1\<rparr>"
  let ?r = "\<lparr>r_size = length t, r_capacity = cap, r_bytes = map Some t @ Some CHR 0x00 # replicate (cap - length t) None\<rparr>"
  let ?m' = "?m1\<lparr>reps := (reps ?m1)(?a \<mapsto> ?r)\<rparr>"
  have "take (length t) (replicate (cap + 1) None) @ [Some CHR 0x00] @ drop (length t + 1) (replicate (cap + 1) None) = bs"
    using upd_conv_take_nth_drop [of "length t" "replicate (cap + 1) (None :: char option)" "Some CHR 0x00"] assms(3)
    unfolding bs_def by (simp only: length_replicate) simp
  then have i: "init_rep (length t) cap m = Some (?a, ?m1)"
    using False assms(3) by (simp add: init_rep_def set_size_def write_to_def Let_def)
  have fresh: "reps m ?a = None" using assms(1) by (simp add: tidy_def)
  have r: "reads ?m1 src t"
  proof (rule reads_same [OF assms(2)])
    fix b off
    assume "src = Inside b off"
    then have "reps m b \<noteq> None" using assms(2) by (auto simp: reads_def read_from_def split: option.splits)
    then show "reps ?m1 b = reps m b" using fresh by auto
  qed
  have "write_to ?a 0 (map Some t) ?m1 = Some ?m'"
    using write_start [of ?m1 ?a "\<lparr>r_size = length t, r_capacity = cap, r_bytes = bs\<rparr>" "map Some t"] bs assms(3) by simp
  moreover have "holds ?m' ?a t" using assms(3) by (simp add: holds_def)
  moreover have "tidy ?m'" using assms(1) by (auto simp: tidy_def)
  ultimately show ?thesis using i r fresh by (intro exI [of _ ?a] exI [of _ ?m1] exI [of _ ?m']) auto
qed

lemma moved:
  \<comment> \<open>the old \<open>Rep\<close> is given up for the new one\<close>
  assumes "tidy m" and "reps m a \<noteq> None" and "tidy m'" and "holds m' c t" and "c = 0 \<or> reps m c = None"
    and "\<forall>b. reps m b \<noteq> None \<longrightarrow> reps m' b = reps m b"
  shows "tidy (quit_rep a m')" and "holds (quit_rep a m') c t" and "others_same a m (quit_rep a m')"
proof -
  show "tidy (quit_rep a m')" using assms(3) by (auto simp: tidy_def quit_rep_def)
  have "c \<noteq> a \<or> a = 0" using assms(2,5) by auto
  then show "holds (quit_rep a m') c t" using assms(4) by (auto simp: holds_def quit_rep_def)
  show "others_same a m (quit_rep a m')" using assms(6) by (auto simp: others_same_def quit_rep_def)
qed

lemma new_string_holds:
  assumes "tidy m" and "reads m src t"
  shows "\<exists>a m'. new_string src (length t) m = Some (a, m') \<and> holds m' a t \<and> tidy m' \<and> (\<forall>b. reps m b \<noteq> None \<longrightarrow> reps m' b = reps m b)"
  using copied [OF assms le_refl] by (fastforce simp: new_string_def reads_def)

lemma reserve_holds:
  assumes "tidy m" and "holds m a s"
  shows "\<exists>a' m'. reserve a cap m = Some (a', m') \<and> tidy m' \<and> holds m' a' s \<and> others_same a m m' \<and>
    (\<exists>r r'. reps m a = Some r \<and> reps m' a' = Some r' \<and> r_capacity r' = max cap (r_capacity r)) \<and>
    (\<exists>r. reps m a = Some r \<and> (a' = a \<and> m' = m \<or> r_capacity r < cap \<and> a \<noteq> a' \<and> reps m a' = None \<and> (a \<noteq> 0 \<longrightarrow> reps m' a = None)))"
proof -
  obtain r where r: "reps m a = Some r" "r_size r = length s" "length s \<le> r_capacity r" using assms(2) by (auto simp: holds_def)
  show ?thesis
  proof (cases "cap > r_capacity r")
    case False
    then show ?thesis using r assms by (auto simp: reserve_def others_same_def max_def)
  next
    case True
    then have "length s \<le> cap" using r(3) by simp
    from copied [OF assms(1) string_reads [OF assms(2)] this] obtain c m1 m' where c: "init_rep (length s) cap m = Some (c, m1)"
      "reads m1 (Inside a 0) s" "write_to c 0 (map Some s) m1 = Some m'" "holds m' c s" "tidy m'"
      "\<forall>b. reps m b \<noteq> None \<longrightarrow> reps m' b = reps m b" "c = 0 \<or> reps m c = None" "\<exists>r. reps m' c = Some r \<and> r_capacity r = cap" by blast
    have "c \<noteq> 0"
    proof
      assume "c = 0"
      then have "reps m' 0 = Some nullrep" using c(5) by (simp add: tidy_def)
      then show False using c(8) True \<open>c = 0\<close> by (simp add: nullrep_def)
    qed
    then have "c \<noteq> a" using c(7) r(1) by auto
    have "reserve a cap m = Some (c, quit_rep a m')" using c(1-3) r True by (simp add: reserve_def reads_def)
    moreover have "reps (quit_rep a m') c = reps m' c" "a \<noteq> 0 \<longrightarrow> reps (quit_rep a m') a = None" using \<open>c \<noteq> a\<close> by (simp_all add: quit_rep_def)
    ultimately show ?thesis using moved [OF assms(1) _ c(5,4,7,6), of a] r(1) c(7,8) True \<open>c \<noteq> a\<close> \<open>c \<noteq> 0\<close> by auto
  qed
qed


lemma size_set:
  assumes "reps m a = Some \<lparr>r_size = k, r_capacity = length t + length rest, r_bytes = map Some t @ x # rest\<rparr>"
  shows "\<exists>m' r'. set_size a (length t) m = Some m' \<and> holds m' a t \<and> next_rep m' = next_rep m \<and> (\<forall>b. b \<noteq> a \<longrightarrow> reps m' b = reps m b) \<and>
    reps m' a = Some r' \<and> r_capacity r' = length t + length rest"
  using assms by (simp add: set_size_def write_to_def holds_def)

lemma tidy_kept:
  assumes "tidy m" and "holds m a s" and "holds m' a t" and "next_rep m' = next_rep m" and "\<forall>b. b \<noteq> a \<longrightarrow> reps m' b = reps m b"
    and "a = 0 \<longrightarrow> t = []" and "\<exists>r r'. reps m a = Some r \<and> reps m' a = Some r' \<and> r_capacity r' = r_capacity r"
  shows "tidy m'"
proof -
  have "reps m' 0 = Some nullrep"
  proof (cases "a = 0")
    case True
    then have "t = []" using assms(6) by simp
    then show ?thesis using True assms(1,3,7) by (auto simp: holds_def tidy_def nullrep_def)
  next
    case False
    then show ?thesis using assms(1,5) by (simp add: tidy_def)
  qed
  moreover have "a < next_rep m" using allocated_below [OF assms(1)] assms(2) by (auto simp: holds_def)
  ultimately show ?thesis using assms(1,4,5) by (auto simp: tidy_def)
qed

lemma room_append:
  assumes "tidy m" and "holds m a s" and "reads m src t" and "reps m a = Some r" and "length s + length t \<le> r_capacity r"
  shows "\<exists>m1 m'. read_from m src (length t) = Some (map Some t) \<and> write_to a (length s) (map Some t) m = Some m1 \<and>
    set_size a (length s + length t) m1 = Some m' \<and> holds m' a (s @ t) \<and> tidy m' \<and> (\<forall>b. b \<noteq> a \<longrightarrow> reps m' b = reps m b)"
proof -
  obtain rest where r: "reps m a = Some \<lparr>r_size = length s, r_capacity = length s + length rest, r_bytes = map Some s @ Some CHR 0x00 # rest\<rparr>"
    using assms(2) by (auto simp: holds_def)
  then have fit: "length t \<le> length rest" using assms(4,5) by simp
  then obtain x new where new: "drop (length t) (Some CHR 0x00 # rest) = x # new" "length t + length new = length rest"
    by (cases "drop (length t) (Some CHR 0x00 # rest)") (auto dest: arg_cong [of _ _ length])
  define m1 where "m1 = m\<lparr>reps := (reps m)(a \<mapsto> \<lparr>r_size = length s, r_capacity = length (s @ t) + length new, r_bytes = map Some (s @ t) @ x # new\<rparr>)\<rparr>"
  have "length s + length rest = length (s @ t) + length new" using new(2) by simp
  then have "reps m a = Some \<lparr>r_size = length s, r_capacity = length (s @ t) + length new, r_bytes = map Some s @ Some CHR 0x00 # rest\<rparr>"
    using r by (simp only:)
  then have w: "write_to a (length s) (map Some t) m = Some m1" using fit new(1) by (simp add: write_to_def m1_def)
  have "reps m1 a = Some \<lparr>r_size = length s, r_capacity = length (s @ t) + length new, r_bytes = map Some (s @ t) @ x # new\<rparr>"
    by (simp add: m1_def)
  from size_set [OF this] obtain m' r' where m': "set_size a (length (s @ t)) m1 = Some m'" "holds m' a (s @ t)" "next_rep m' = next_rep m1"
    "\<forall>b. b \<noteq> a \<longrightarrow> reps m' b = reps m1 b" "reps m' a = Some r'" "r_capacity r' = length (s @ t) + length new" by blast
  have "a = 0 \<longrightarrow> s @ t = []"
  proof
    assume "a = 0"
    then have "r = nullrep" using assms(1,4) by (simp add: tidy_def)
    then show "s @ t = []" using assms(5) by (simp add: nullrep_def)
  qed
  moreover have "\<exists>r r'. reps m a = Some r \<and> reps m' a = Some r' \<and> r_capacity r' = r_capacity r"
    using r m'(5,6) new(2) by simp
  ultimately have "tidy m'" using m'(3,4) by (intro tidy_kept [OF assms(1,2) m'(2)]) (simp_all add: m1_def)
  moreover have "\<forall>b. b \<noteq> a \<longrightarrow> reps m' b = reps m b" using m'(4) by (simp add: m1_def)
  ultimately show ?thesis using w m'(1,2) assms(3) by (simp add: reads_def)
qed

lemma append_holds:
  assumes "tidy m" and "holds m a s" and "reads m src t" and "reps m a = Some r"
    and "length s + length t \<le> r_capacity r \<or> (\<forall>off. src \<noteq> Inside a off) \<or> a = 0"
  shows "\<exists>a' m'. append_str a src (length t) m = Some (a', m') \<and> tidy m' \<and> holds m' a' (s @ t) \<and> others_same a m m' \<and> own a m a'"
proof -
  have size: "r_size r = length s" using assms(2,4) by (auto simp: holds_def)
  show ?thesis
  proof (cases "length s + length t \<le> r_capacity r")
    case True
    then show ?thesis using room_append [OF assms(1-4)] assms(4) size by (auto simp: append_str_def others_same_def own_def)
  next
    case False
    let ?cap = "length s + length t + r_capacity r"
    obtain a1 m1 r1 where v: "reserve a ?cap m = Some (a1, m1)" "tidy m1" "holds m1 a1 s" "others_same a m m1"
      "reps m1 a1 = Some r1" "r_capacity r1 = max ?cap (r_capacity r)" "a1 = a \<and> m1 = m \<or> reps m a1 = None"
      using reserve_holds [OF assms(1,2), of ?cap] assms(4) by auto
    have "reads m1 src t"
    proof (rule reads_same [OF assms(3)])
      fix b off
      assume b: "src = Inside b off"
      then have known: "reps m b \<noteq> None" using assms(3) by (auto simp: reads_def read_from_def split: option.splits)
      have "b \<noteq> a \<or> a = 0" using assms(5) False b by blast
      then show "reps m1 b = reps m b"
      proof
        assume "a = 0"
        then show ?thesis using v(2,4) known assms(1) by (cases "b = 0") (auto simp: others_same_def tidy_def)
      qed (use v(4) known in \<open>auto simp: others_same_def\<close>)
    qed
    moreover have "length s + length t \<le> r_capacity r1" using v(6) by simp
    ultimately obtain m2 m' where m': "read_from m1 src (length t) = Some (map Some t)" "write_to a1 (length s) (map Some t) m1 = Some m2"
      "set_size a1 (length s + length t) m2 = Some m'" "holds m' a1 (s @ t)" "tidy m'" "\<forall>b. b \<noteq> a1 \<longrightarrow> reps m' b = reps m1 b"
      using room_append [OF v(2,3) _ v(5)] by blast
    have "r_size r1 = length s" using v(3,5) by (auto simp: holds_def)
    then have "append_str a src (length t) m = Some (a1, m')" using v(1,5) m'(1-3) assms(4) size False by (simp add: append_str_def)
    moreover have "others_same a m m'"
    proof -
      have "reps m' b = reps m b" if "b \<noteq> a" "reps m b \<noteq> None" for b
      proof (cases "b = a1")
        case True
        then show ?thesis using v(7) that by auto
      next
        case False
        then show ?thesis using m'(6) v(4) that by (simp add: others_same_def)
      qed
      then show ?thesis by (simp add: others_same_def)
    qed
    moreover have "own a m a1" using v(7) by (auto simp: own_def)
    ultimately show ?thesis using m'(4,5) by blast
  qed
qed

lemma assign_holds:
  assumes "tidy m" and "holds m a s" and "reads m src t"
  shows "\<exists>a' m'. assign_str a src (length t) m = Some (a', m') \<and> tidy m' \<and> holds m' a' t \<and> others_same a m m' \<and> own a m a'"
proof -
  obtain rest where r: "reps m a = Some \<lparr>r_size = length s, r_capacity = length s + length rest, r_bytes = map Some s @ Some CHR 0x00 # rest\<rparr>"
    using assms(2) by (auto simp: holds_def)
  let ?cap = "length s + length rest"
  show ?thesis
  proof (cases "length t > ?cap \<or> ?cap > 3 * (length t + 8)")
    case True
    from copied [OF assms(1,3) le_refl] obtain c m1 m' where c: "init_rep (length t) (length t) m = Some (c, m1)"
      "reads m1 src t" "write_to c 0 (map Some t) m1 = Some m'" "holds m' c t" "tidy m'"
      "\<forall>b. reps m b \<noteq> None \<longrightarrow> reps m' b = reps m b" "c = 0 \<or> reps m c = None" by blast
    have "assign_str a src (length t) m = Some (c, quit_rep a m')" using c(1-3) r True by (simp add: assign_str_def reads_def)
    then show ?thesis using moved [OF assms(1) _ c(5,4,7,6), of a] r c(7) by (auto simp: own_def)
  next
    case False
    define bytes where "bytes = map Some s @ Some CHR 0x00 # rest"
    have len: "length bytes = ?cap + 1" by (simp add: bytes_def)
    then obtain x new where new: "drop (length t) bytes = x # new" "length t + length new = ?cap"
      using False by (cases "drop (length t) bytes") (auto dest: arg_cong [of _ _ length])
    define m1 where "m1 = m\<lparr>reps := (reps m)(a \<mapsto> \<lparr>r_size = length s, r_capacity = length t + length new, r_bytes = map Some t @ x # new\<rparr>)\<rparr>"
    have "reps m a = Some \<lparr>r_size = length s, r_capacity = length t + length new, r_bytes = bytes\<rparr>" using r unfolding new(2) bytes_def .
    then have w: "write_to a 0 (map Some t) m = Some m1" using write_start [of m a _ "map Some t"] new(1) len False by (simp add: m1_def)
    have "reps m1 a = Some \<lparr>r_size = length s, r_capacity = length t + length new, r_bytes = map Some t @ x # new\<rparr>" by (simp add: m1_def)
    from size_set [OF this] obtain m' r' where m': "set_size a (length t) m1 = Some m'" "holds m' a t" "next_rep m' = next_rep m1"
      "\<forall>b. b \<noteq> a \<longrightarrow> reps m' b = reps m1 b" "reps m' a = Some r'" "r_capacity r' = length t + length new" by blast
    have "a = 0 \<longrightarrow> t = []"
    proof
      assume "a = 0"
      then have "reps m a = Some nullrep" using assms(1) by (simp add: tidy_def)
      then have "\<lparr>r_size = length s, r_capacity = ?cap, r_bytes = map Some s @ Some CHR 0x00 # rest\<rparr> = nullrep" using r by (simp only: option.inject)
      from arg_cong [OF this, of r_capacity] have "?cap = 0" by (simp add: nullrep_def)
      then show "t = []" using False by simp
    qed
    then have "tidy m'" using m'(3-6) r new(2) by (intro tidy_kept [OF assms(1,2) m'(2)]) (simp_all add: m1_def)
    moreover have "assign_str a src (length t) m = Some (a, m')" using r False w m'(1) assms(3) by (simp add: assign_str_def reads_def)
    moreover have "others_same a m m'" using m'(4) by (simp add: others_same_def m1_def)
    ultimately show ?thesis using m'(2) by (auto simp: own_def)
  qed
qed

lemma clear_holds:
  assumes "tidy m" and "holds m a s"
  shows "\<exists>a' m'. clear_str a m = Some (a', m') \<and> tidy m' \<and> holds m' a' [] \<and> others_same a m m' \<and> own a m a'"
  using moved [OF assms(1) _ assms(1) empty_holds [OF assms(1)], of a] assms(2)
  by (auto simp: clear_str_def init_rep_def own_def holds_def)

section \<open>Strings are lists of characters\<close>

datatype str_op = Append string | Assign string | Reserve nat | Clear | Assign_part nat nat

fun str_value :: "str_op \<Rightarrow> string \<Rightarrow> string" where
  "str_value (Append t) s = s @ t"
| "str_value (Assign t) s = t"
| "str_value (Reserve n) s = s"
| "str_value Clear s = []"
| "str_value (Assign_part i n) s = take n (drop i s)"

fun str_call :: "str_op \<Rightarrow> nat \<Rightarrow> memory \<Rightarrow> (nat \<times> memory) option" where
  "str_call (Append t) a m = append_str a (Own t) (length t) m"
| "str_call (Assign t) a m = assign_str a (Own t) (length t) m"
| "str_call (Reserve n) a m = reserve a n m"
| "str_call Clear a m = clear_str a m"
| "str_call (Assign_part i n) a m = do { r \<leftarrow> reps m a; let i = min i (r_size r); assign_str a (Inside a i) (min n (r_size r - i)) m }"

fun str_calls :: "str_op list \<Rightarrow> nat \<Rightarrow> memory \<Rightarrow> (nat \<times> memory) option" where
  "str_calls [] a m = Some (a, m)"
| "str_calls (c # cs) a m = do { (a, m) \<leftarrow> str_call c a m; str_calls cs a m }"

lemma part_reads: "holds m a s \<Longrightarrow> i \<le> length s \<Longrightarrow> reads m (Inside a i) (take n (drop i s))"
  by (auto simp: holds_def reads_def read_from_def take_map drop_map min_def)

lemma str_call_holds:
  assumes "tidy m" and "holds m a s"
  shows "\<exists>a' m'. str_call c a m = Some (a', m') \<and> tidy m' \<and> holds m' a' (str_value c s) \<and> others_same a m m' \<and> own a m a'"
proof (cases c)
  case (Append t)
  obtain r where "reps m a = Some r" using assms(2) by (auto simp: holds_def)
  then show ?thesis using append_holds [OF assms own_reads(2), of r t] Append by simp
next
  case (Assign t)
  then show ?thesis using assign_holds [OF assms own_reads(2), of t] by simp
next
  case (Reserve n)
  then show ?thesis using reserve_holds [OF assms, of n] by (auto simp: own_def)
next
  case Clear
  then show ?thesis using clear_holds [OF assms] by simp
next
  case (Assign_part i n)
  obtain r where r: "reps m a = Some r" "r_size r = length s" using assms(2) by (auto simp: holds_def)
  define j where "j = min i (length s)"
  have j: "drop i s = drop j s" "j \<le> length s" by (simp_all add: j_def min_def)
  have "min n (length s - j) = length (take n (drop j s))" by simp
  then have "str_call c a m = assign_str a (Inside a j) (length (take n (drop j s))) m"
    using Assign_part r by (simp add: j_def Let_def)
  then show ?thesis using assign_holds [OF assms part_reads [OF assms(2) j(2), of n]] Assign_part j(1) by simp
qed


lemma str_calls_holds:
  assumes "tidy m" and "holds m a s"
  shows "\<exists>a' m'. str_calls cs a m = Some (a', m') \<and> tidy m' \<and> holds m' a' (fold str_value cs s) \<and> others_same a m m' \<and> own a m a'"
  using assms
proof (induction cs arbitrary: a m s)
  case Nil
  then show ?case by (simp add: others_same_def own_def)
next
  case (Cons c cs)
  obtain a1 m1 where c: "str_call c a m = Some (a1, m1)" "tidy m1" "holds m1 a1 (str_value c s)" "others_same a m m1" "own a m a1"
    using str_call_holds [OF Cons.prems] by blast
  obtain a2 m2 where r: "str_calls cs a1 m1 = Some (a2, m2)" "tidy m2" "holds m2 a2 (fold str_value cs (str_value c s))" "others_same a1 m1 m2" "own a1 m1 a2"
    using Cons.IH [OF c(2,3)] by blast
  have null: "reps m' 0 = Some nullrep" if "tidy m'" for m' using that by (simp add: tidy_def)
  have "others_same a m m2" unfolding others_same_def
  proof (intro allI impI)
    fix b
    assume b: "b \<noteq> a \<and> reps m b \<noteq> None"
    then have 1: "reps m1 b = reps m b" using c(4) by (simp add: others_same_def)
    show "reps m2 b = reps m b"
    proof (cases "b = a1")
      case True
      then have "b = 0" using b c(5) by (auto simp: own_def)
      then show ?thesis using null r(2) Cons.prems(1) by simp
    qed (use r(4) b 1 in \<open>simp add: others_same_def\<close>)
  qed
  moreover have "own a m a2"
  proof (rule ccontr)
    assume n: "\<not> own a m a2"
    then have "reps m1 a2 = reps m a2" "reps m a2 \<noteq> None" "a2 \<noteq> a" "a2 \<noteq> 0" using c(4) by (auto simp: own_def others_same_def)
    then have "a2 = a1" using r(5) by (auto simp: own_def)
    then show False using n c(5) by simp
  qed
  ultimately show ?case using c(1) r(1-3) by simp
qed

text \<open>C29: A string behaves as a list of characters under any sequence of operations: appending, assigning from outside or from a part
  of itself, reserving, clearing. No operation reads freed or unset memory or writes outside of a block, the string is
  terminated, and all other strings keep their contents.\<close>

theorem xml_string_list:
  assumes "tidy m" and "holds m a s"
  shows "\<exists>a' m'. str_calls cs a m = Some (a', m') \<and> tidy m' \<and> holds m' a' (fold str_value cs s) \<and>
    (\<forall>b. b \<noteq> a \<and> reps m b \<noteq> None \<longrightarrow> reps m' b = reps m b)"
  using str_calls_holds [OF assms] unfolding others_same_def by blast

definition empty_memory :: memory where
  "empty_memory = \<lparr>reps = [0 \<mapsto> nullrep], next_rep = 1\<rparr>"

lemma empty_tidy: "tidy empty_memory"
  by (simp add: tidy_def empty_memory_def)

theorem xml_string_list_witness:
  "\<exists>a m. str_calls [Append ''ab'', Reserve 20, Append ''c'', Assign_part 1 2] 0 empty_memory = Some (a, m) \<and> holds m a ''bc''"
proof -
  have "fold str_value [Append ''ab'', Reserve 20, Append ''c'', Assign_part 1 2] [] = ''bc''" by (simp add: numeral_2_eq_2)
  then show ?thesis using xml_string_list [OF empty_tidy empty_holds [OF empty_tidy], of "[Append ''ab'', Reserve 20, Append ''c'', Assign_part 1 2]"] by auto
qed

text \<open>C40: A string can be appended to itself only while there is room: when it has to grow, \<open>append\<close> frees the old characters
  before it copies them. To another string it can always be appended.\<close>

theorem xml_string_append_self:
  assumes "tidy m" and "holds m a s" and "holds m b t" and "reps m a = Some r"
  shows "(append_string a a m = None \<longleftrightarrow> r_capacity r < 2 * length s) \<and>
    (r_capacity r \<ge> 2 * length s \<longrightarrow> (\<exists>m'. append_string a a m = Some (a, m') \<and> holds m' a (s @ s))) \<and>
    (a \<noteq> b \<longrightarrow> (\<exists>a' m'. append_string a b m = Some (a', m') \<and> holds m' a' (s @ t)))"
proof -
  have size: "r_size r = length s" using assms(2,4) by (auto simp: holds_def)
  have self: "append_string a a m = append_str a (Inside a 0) (length s) m" using assms(4) size by (simp add: append_string_def)
  have "\<exists>m'. append_string a a m = Some (a, m') \<and> holds m' a (s @ s)" if "r_capacity r \<ge> 2 * length s"
    using room_append [OF assms(1,2) string_reads [OF assms(2)] assms(4)] that assms(4) size self by (auto simp: append_str_def)
  moreover have "append_string a a m = None" if less: "r_capacity r < 2 * length s"
  proof -
    let ?cap = "length s + length s + r_capacity r"
    obtain a1 m1 where v: "reserve a ?cap m = Some (a1, m1)" "a1 = a \<and> m1 = m \<or> a \<noteq> a1 \<and> (a \<noteq> 0 \<longrightarrow> reps m1 a = None)"
      "\<exists>r'. reps m1 a1 = Some r' \<and> r_capacity r' = max ?cap (r_capacity r)"
      using reserve_holds [OF assms(1,2), of ?cap] assms(4) by auto
    have "s \<noteq> []" using less by auto
    moreover have "a \<noteq> 0"
    proof
      assume "a = 0"
      then have "r = nullrep" using assms(1,4) by (simp add: tidy_def)
      then show False using size \<open>s \<noteq> []\<close> by (simp add: nullrep_def)
    qed
    moreover have "\<not> (a1 = a \<and> m1 = m)" using v(3) assms(4) \<open>s \<noteq> []\<close> by auto
    ultimately have "reps m1 a = None" using v(2) by blast
    then have "read_from m1 (Inside a 0) (length s) = None" by (simp add: read_from_def)
    then show ?thesis using v(1,3) self assms(4) size less by (auto simp: append_str_def)
  qed
  moreover have "\<exists>a' m'. append_string a b m = Some (a', m') \<and> holds m' a' (s @ t)" if "a \<noteq> b"
  proof -
    obtain rb where "reps m b = Some rb" "r_size rb = length t" using assms(3) by (auto simp: holds_def)
    then have "append_string a b m = append_str a (Inside b 0) (length t) m" by (simp add: append_string_def)
    then show ?thesis using append_holds [OF assms(1,2) string_reads [OF assms(3)] assms(4)] that by auto
  qed
  ultimately show ?thesis using not_less by fastforce
qed

theorem xml_string_append_self_witness:
  "append_string 1 1 \<lparr>reps = [0 \<mapsto> nullrep, 1 \<mapsto> \<lparr>r_size = 1, r_capacity = 1, r_bytes = [Some CHR ''x'', Some CHR 0x00]\<rparr>], next_rep = 2\<rparr> = None"
proof -
  let ?m = "\<lparr>reps = [0 \<mapsto> nullrep, 1 \<mapsto> \<lparr>r_size = 1, r_capacity = 1, r_bytes = [Some CHR ''x'', Some CHR 0x00]\<rparr>], next_rep = 2\<rparr>"
  have "tidy ?m" by (simp add: tidy_def)
  moreover have "holds ?m 1 ''x''" by (simp add: holds_def)
  ultimately show ?thesis using xml_string_append_self [of ?m 1 "''x''" 1 "''x''"] by simp
qed

lemma find_loop_value:
  assumes "CHR 0x00 \<notin> set s"
  shows "find_loop c (map Some s @ Some CHR 0x00 # rest) i = Some (map_option (\<lambda>k. i + k) (if c = CHR 0x00 then None else find_sub [c] s))"
  using assms by (induction s arbitrary: i) (auto simp: option.map_comp comp_def intro!: option.map_cong0)

lemma find_str_value:
  assumes "holds m a s" and "CHR 0x00 \<notin> set s" and "c \<noteq> CHR 0x00"
  shows "find_str a c 0 m = Some (find_sub [c] s)"
  using assms(1) find_loop_value [OF assms(2), of c] assms(3)
  by (cases "s = []") (auto simp: holds_def find_str_def option.map_ident)

end
