(* ===== verification/XmlAttr.thy ===== *)
theory XmlAttr
  imports XmlPrint
begin

text \<open>
  \<open>tinyxml/tinyxml.cpp\<close>: the attributes of an element and the queries on them. The set of attributes is the list of the nodes between
  the two sides of its sentinel. The result \<open>None\<close> of an execution is a failed \<open>assert\<close>. Names and values are C strings, without a
  NUL. Reading numbers with \<open>sscanf\<close> is as \<open>strtol\<close> does it; the queries for \<open>double\<close> values are left out.
\<close>

datatype query = TIXML_SUCCESS | TIXML_NO_ATTRIBUTE | TIXML_WRONG_TYPE

definition Add :: "xml_attribute \<Rightarrow> xml_attribute list \<Rightarrow> xml_attribute list option" where
  "Add addMe attrs = (if Find (a_name addMe) attrs \<noteq> None then None else Some (attrs @ [addMe]))"

fun Remove :: "string \<Rightarrow> xml_attribute list \<Rightarrow> xml_attribute list" where
  \<comment> \<open>the node that \<open>Find\<close> returns is taken out\<close>
  "Remove name [] = []"
| "Remove name (a # attrs) = (if a_name a = name then attrs else a # Remove name attrs)"

definition FindOrCreate :: "string \<Rightarrow> xml_attribute list \<Rightarrow> xml_attribute list option" where
  \<comment> \<open>the new attribute is added without a name, which it gets afterwards\<close>
  "FindOrCreate name attrs =
     (if Find name attrs \<noteq> None then Some attrs
      else map_option (\<lambda>attrs. butlast attrs @ [(last attrs)\<lparr>a_name := name\<rparr>]) (Add \<lparr>a_name = [], a_value = [], a_location = no_location\<rparr> attrs))"

fun SetValue :: "string \<Rightarrow> string \<Rightarrow> xml_attribute list \<Rightarrow> xml_attribute list" where
  "SetValue name v [] = []"
| "SetValue name v (a # attrs) = (if a_name a = name then a\<lparr>a_value := v\<rparr> # attrs else a # SetValue name v attrs)"

definition SetAttribute :: "string \<Rightarrow> string \<Rightarrow> xml_attribute list \<Rightarrow> xml_attribute list option" where
  "SetAttribute cname cvalue attrs = map_option (SetValue cname cvalue) (FindOrCreate cname attrs)"

definition SetAttribute_int :: "string \<Rightarrow> int \<Rightarrow> xml_attribute list \<Rightarrow> xml_attribute list option" where
  "SetAttribute_int name val attrs = map_option (SetValue name (show_int val)) (FindOrCreate name attrs)"

definition RemoveAttribute :: "string \<Rightarrow> xml_attribute list \<Rightarrow> xml_attribute list" where
  "RemoveAttribute name attrs = (if Find name attrs \<noteq> None then Remove name attrs else attrs)"

definition Attribute :: "string \<Rightarrow> xml_attribute list \<Rightarrow> string option" where
  "Attribute name attrs = map_option a_value (Find name attrs)"

definition scan_int :: "string \<Rightarrow> int option" where
  \<comment> \<open>\<open>sscanf(v, "%d", ...)\<close>\<close>
  "scan_int v =
     (let s = dropWhile c_isspace (c_str v);
          digits = (if s \<noteq> [] \<and> (hd s = CHR ''-'' \<or> hd s = CHR ''+'') then tl s else s)
      in if takeWhile c_isdigit digits = [] then None else Some (c_atoi v))"

definition QueryIntValue :: "string \<Rightarrow> query \<times> int option" where
  "QueryIntValue v = (case scan_int v of Some i \<Rightarrow> (TIXML_SUCCESS, Some i) | None \<Rightarrow> (TIXML_WRONG_TYPE, None))"

definition QueryIntAttribute :: "string \<Rightarrow> xml_attribute list \<Rightarrow> query \<times> int option" where
  "QueryIntAttribute name attrs = (case Find name attrs of None \<Rightarrow> (TIXML_NO_ATTRIBUTE, None) | Some a \<Rightarrow> QueryIntValue (a_value a))"

definition QueryUnsignedAttribute :: "string \<Rightarrow> xml_attribute list \<Rightarrow> query \<times> u32 option" where
  \<comment> \<open>writes 0 for a value that is no number\<close>
  "QueryUnsignedAttribute name attrs =
     (case Find name attrs of
        None \<Rightarrow> (TIXML_NO_ATTRIBUTE, None)
      | Some a \<Rightarrow> (case QueryIntValue (a_value a) of (res, i) \<Rightarrow> (res, Some (of_int (case i of Some i \<Rightarrow> i | None \<Rightarrow> 0)))))"

definition any_equal :: "string \<Rightarrow> string list \<Rightarrow> bool option" where
  \<comment> \<open>\<open>StringEqual\<close> with the words, one after the other\<close>
  "any_equal v ws =
     fold (\<lambda>w r. case r of None \<Rightarrow> None | Some True \<Rightarrow> Some True | Some False \<Rightarrow> StringEqual (Some (v @ [NUL])) w True TIXML_ENCODING_UNKNOWN) ws (Some False)"

definition QueryBoolAttribute :: "string \<Rightarrow> xml_attribute list \<Rightarrow> (query \<times> bool option) option" where
  "QueryBoolAttribute name attrs =
     (case Find name attrs of
        None \<Rightarrow> Some (TIXML_NO_ATTRIBUTE, None)
      | Some a \<Rightarrow> do {
          yes \<leftarrow> any_equal (a_value a) [''true'', ''yes'', ''1''];
          if yes then Some (TIXML_SUCCESS, Some True)
          else do {
            no \<leftarrow> any_equal (a_value a) [''false'', ''no'', ''0''];
            Some (if no then (TIXML_SUCCESS, Some False) else (TIXML_WRONG_TYPE, None))
          }
        })"

definition Attribute_int :: "string \<Rightarrow> xml_attribute list \<Rightarrow> string option \<times> int option" where
  \<comment> \<open>the value, and the number that is written if there is one\<close>
  "Attribute_int name attrs =
     (case Find name attrs of None \<Rightarrow> (None, None) | Some a \<Rightarrow> (Some (a_value a), snd (QueryIntValue (a_value a))))"

definition IntValue :: "xml_attribute \<Rightarrow> int" where
  "IntValue a = c_atoi (a_value a)"

section \<open>Attributes are a map\<close>

lemma Find_simps: "Find n [] = None" "Find n (a # attrs) = (if a_name a = n then Some a else Find n attrs)"
  by (simp_all add: Find_def)

lemma Find_append: "Find n (xs @ ys) = (case Find n xs of None \<Rightarrow> Find n ys | Some a \<Rightarrow> Some a)"
  by (induction xs) (simp_all add: Find_simps)

lemma Find_iff: "Find n attrs = None \<longleftrightarrow> n \<notin> a_name ` set attrs"
  by (induction attrs) (auto simp: Find_simps)

lemma Attribute_SetValue:
  "Attribute n (SetValue name v attrs) = (if n = name \<and> Find name attrs \<noteq> None then Some v else Attribute n attrs)"
  "map a_name (SetValue name v attrs) = map a_name attrs"
  by (induction attrs) (auto simp: Attribute_def Find_simps)

lemma Find_Remove: "distinct (map a_name attrs) \<Longrightarrow> Find n (Remove name attrs) = (if n = name then None else Find n attrs)"
proof (induction attrs)
  case (Cons a attrs)
  then show ?case by (auto simp: Find_simps Find_iff)
qed (simp add: Find_simps)

lemma Remove_names: "map a_name (Remove name attrs) = remove1 name (map a_name attrs)"
  by (induction attrs) auto

lemma FindOrCreate_ok:
  assumes "\<forall>a \<in> set attrs. a_name a \<noteq> []"
  shows "FindOrCreate name attrs =
    Some (if name \<in> set (map a_name attrs) then attrs else attrs @ [\<lparr>a_name = name, a_value = [], a_location = no_location\<rparr>])"
proof -
  have "Find [] attrs = None" using assms by (auto simp: Find_iff)
  then show ?thesis by (auto simp: FindOrCreate_def Add_def Find_iff)
qed

lemma set_created:
  assumes "\<forall>a \<in> set attrs. a_name a \<noteq> []"
  shows "\<exists>attrs'. map_option (SetValue name v) (FindOrCreate name attrs) = Some attrs' \<and>
    (\<forall>n. Attribute n attrs' = (if n = name then Some v else Attribute n attrs)) \<and>
    map a_name attrs' = map a_name attrs @ (if name \<in> set (map a_name attrs) then [] else [name])"
proof -
  let ?as = "if name \<in> set (map a_name attrs) then attrs else attrs @ [\<lparr>a_name = name, a_value = [], a_location = no_location\<rparr>]"
  have "Find name ?as \<noteq> None" by (auto simp: Find_iff)
  moreover have "Attribute n ?as = Attribute n attrs" if "n \<noteq> name" for n
    using that by (simp add: Attribute_def Find_append Find_simps split: option.split)
  ultimately have "\<forall>n. Attribute n (SetValue name v ?as) = (if n = name then Some v else Attribute n attrs)"
    unfolding Attribute_SetValue by auto
  then show ?thesis unfolding FindOrCreate_ok [OF assms] option.map
    by (intro exI [of _ "SetValue name v ?as"]) (simp add: Attribute_SetValue)
qed

lemma scan_show_int:
  assumes "- (2 ^ 31) \<le> i" and "i < 2 ^ 31"
  shows "scan_int (show_int i) = Some i"
proof -
  obtain d ds where ds: "show_nat (nat \<bar>i\<bar>) = d # ds" and dd: "list_all c_isdigit (d # ds)"
    using show_nat_digits [of "nat \<bar>i\<bar>"] by (cases "show_nat (nat \<bar>i\<bar>)") auto
  have c: "c_str (d # ds) = d # ds" "takeWhile c_isdigit (d # ds) = d # ds" using takeWhile_digits [OF dd, of "[]"] c_str_digits [OF dd] by auto
  have nd: "\<not> c_isspace d" "d \<noteq> CHR ''-''" "d \<noteq> CHR ''+''" using dd c_isdigit_not by auto
  have "\<not> c_isspace CHR ''-''" "c_str (CHR ''-'' # d # ds) = CHR ''-'' # d # ds" using c(1) by (auto simp: c_isspace_def uchar_def c_str_def)
  then show ?thesis using c nd c_atoi_show_int [OF assms] ds dd by (cases "i < 0") (simp_all add: scan_int_def show_int_def)
qed

text \<open>C31: The attributes of an element are a map from names to values in the order of the first setting: after \<open>SetAttribute\<close> the
  name has the new value and all others their old ones, a new name comes last; \<open>RemoveAttribute\<close> takes out one name. An
  integer that was set is what the query returns.\<close>

theorem xml_attribute_map:
  assumes "\<forall>a \<in> set attrs. a_name a \<noteq> []" and "distinct (map a_name attrs)" and "- (2 ^ 31) \<le> i" and "i < 2 ^ 31"
  shows "(\<exists>attrs'. SetAttribute name v attrs = Some attrs' \<and> (\<forall>n. Attribute n attrs' = (if n = name then Some v else Attribute n attrs)) \<and>
        map a_name attrs' = map a_name attrs @ (if name \<in> set (map a_name attrs) then [] else [name])) \<and>
    (\<forall>n. Attribute n (RemoveAttribute name attrs) = (if n = name then None else Attribute n attrs)) \<and>
    map a_name (RemoveAttribute name attrs) = remove1 name (map a_name attrs) \<and>
    (\<exists>attrs'. SetAttribute_int name i attrs = Some attrs' \<and> QueryIntAttribute name attrs' = (TIXML_SUCCESS, Some i))"
proof (intro conjI)
  show "\<exists>attrs'. SetAttribute name v attrs = Some attrs' \<and> (\<forall>n. Attribute n attrs' = (if n = name then Some v else Attribute n attrs)) \<and>
        map a_name attrs' = map a_name attrs @ (if name \<in> set (map a_name attrs) then [] else [name])"
    using set_created [OF assms(1), of name v] by (simp add: SetAttribute_def)
  show "\<forall>n. Attribute n (RemoveAttribute name attrs) = (if n = name then None else Attribute n attrs)"
    using Find_Remove [OF assms(2)] by (simp add: RemoveAttribute_def Attribute_def)
  have "name \<notin> set (map a_name attrs) \<Longrightarrow> remove1 name (map a_name attrs) = map a_name attrs" by (rule remove1_idem)
  then show "map a_name (RemoveAttribute name attrs) = remove1 name (map a_name attrs)"
    by (auto simp: RemoveAttribute_def Remove_names Find_iff)
  obtain attrs' where s: "SetAttribute_int name i attrs = Some attrs'" "Attribute name attrs' = Some (show_int i)"
    using set_created [OF assms(1), of name "show_int i"] by (auto simp: SetAttribute_int_def)
  then obtain a where "Find name attrs' = Some a" "a_value a = show_int i" by (auto simp: Attribute_def)
  then have "QueryIntAttribute name attrs' = (TIXML_SUCCESS, Some i)"
    using scan_show_int [OF assms(3,4)] by (simp add: QueryIntAttribute_def QueryIntValue_def)
  then show "\<exists>attrs'. SetAttribute_int name i attrs = Some attrs' \<and> QueryIntAttribute name attrs' = (TIXML_SUCCESS, Some i)" using s(1) by blast
qed

theorem xml_attribute_map_witness:
  "\<exists>attrs. SetAttribute_int ''n'' (-5) [\<lparr>a_name = ''k'', a_value = ''v'', a_location = no_location\<rparr>] = Some attrs \<and>
    QueryIntAttribute ''n'' attrs = (TIXML_SUCCESS, Some (-5))"
  using xml_attribute_map [of "[\<lparr>a_name = ''k'', a_value = ''v'', a_location = no_location\<rparr>]" "-5" "''n''" "[]"] by simp

text \<open>Two values that the set does not take: while an attribute has an empty name, no new attribute can be made, since the new one is
  compared before it has its name; and the query for a truth value fails its \<open>assert\<close> on an empty value.\<close>

theorem xml_attribute_asserts:
  assumes "Find name attrs = None" and "Find [] attrs \<noteq> None" and "Find n attrs = Some a" and "a_value a = []"
  shows "SetAttribute name v attrs = None" and "QueryBoolAttribute n attrs = None"
  using assms by (auto simp: SetAttribute_def FindOrCreate_def Add_def QueryBoolAttribute_def any_equal_def StringEqual_def)

end
