(* ===== verification/XmlTree.thy ===== *)
theory XmlTree
  imports XmlAttr
begin

text \<open>
  \<open>tinyxml/tinyxml.cpp\<close>: the nodes of a document as objects with pointers to their parent, their first and last child and their
  neighbours. The store maps addresses to nodes, \<open>None\<close> for one that was deleted. What a node holds besides the pointers is an
  \<open>xml_node\<close> without children; a document holds \<open>None\<close>, and its error flag. The result \<open>None\<close> of an execution is the use of a deleted node, a
  failed \<open>assert\<close>, or a loop without end. \<open>new\<close> always succeeds.
\<close>

record tnode =
  t_parent :: "nat option"
  t_first :: "nat option"
  t_last :: "nat option"
  t_prev :: "nat option"
  t_next :: "nat option"
  t_content :: "xml_node option"
  t_error :: bool

record nheap =
  nodes :: "nat \<Rightarrow> tnode option"
  next_node :: nat

definition upd :: "nat \<Rightarrow> (tnode \<Rightarrow> tnode) \<Rightarrow> nheap \<Rightarrow> nheap option" where
  "upd i f h = (case nodes h i of None \<Rightarrow> None | Some n \<Rightarrow> Some (h\<lparr>nodes := (nodes h)(i \<mapsto> f n)\<rparr>))"

definition new_node :: "xml_node option \<Rightarrow> bool \<Rightarrow> nheap \<Rightarrow> nat \<times> nheap" where
  "new_node c e h =
     (next_node h, h\<lparr>nodes := (nodes h)(next_node h \<mapsto>
        \<lparr>t_parent = None, t_first = None, t_last = None, t_prev = None, t_next = None, t_content = c, t_error = e\<rparr>), next_node := next_node h + 1\<rparr>)"

partial_function (option) GetDocument :: "nheap \<Rightarrow> nat option \<Rightarrow> nat option option" where
  "GetDocument h node =
     (case node of
        None \<Rightarrow> Some None
      | Some i \<Rightarrow>
          (case nodes h i of
             None \<Rightarrow> None
           | Some n \<Rightarrow> if t_content n = None then Some (Some i) else GetDocument h (t_parent n)))"

definition top_only :: "nat \<Rightarrow> nheap \<Rightarrow> nheap option" where
  \<comment> \<open>the error of the document that a document cannot be a child\<close>
  "top_only this h = do {
     d \<leftarrow> GetDocument h (Some this);
     (case d of None \<Rightarrow> Some h | Some d \<Rightarrow> upd d (\<lambda>n. n\<lparr>t_error := True\<rparr>) h)
   }"

section \<open>Deleting\<close>

partial_function (option) delete_task :: "nat + nat option \<Rightarrow> nheap \<Rightarrow> nheap option" where
  \<comment> \<open>\<open>Inl\<close>: \<open>delete\<close> of a node; \<open>Inr\<close>: the loop over its children in the destructor and in \<open>Clear\<close>\<close>
  "delete_task t h =
     (case t of
        Inl i \<Rightarrow> do {
          n \<leftarrow> nodes h i;
          h \<leftarrow> delete_task (Inr (t_first n)) h;
          Some (h\<lparr>nodes := (nodes h)(i := None)\<rparr>)
        }
      | Inr None \<Rightarrow> Some h
      | Inr (Some c) \<Rightarrow> do {
          n \<leftarrow> nodes h c;
          h \<leftarrow> delete_task (Inl c) h;
          delete_task (Inr (t_next n)) h
        })"

definition Clear :: "nat \<Rightarrow> nheap \<Rightarrow> nheap option" where
  "Clear this h = do {
     n \<leftarrow> nodes h this;
     h \<leftarrow> delete_task (Inr (t_first n)) h;
     upd this (\<lambda>n. n\<lparr>t_first := None, t_last := None\<rparr>) h
   }"

section \<open>Linking\<close>

definition LinkEndChild :: "nat \<Rightarrow> nat \<Rightarrow> nheap \<Rightarrow> (nat option \<times> nheap) option" where
  "LinkEndChild this node h = do {
     n \<leftarrow> nodes h node;
     d \<leftarrow> GetDocument h (Some node);
     same \<leftarrow> (if d = None then Some True else map_option (\<lambda>d'. d = d') (GetDocument h (Some this)));
     if \<not> (t_parent n = None \<or> t_parent n = Some this) \<or> \<not> same then None
     else if t_content n = None
     then do {
       h \<leftarrow> delete_task (Inl node) h;
       h \<leftarrow> top_only this h;
       Some (None, h)
     }
     else do {
       h \<leftarrow> upd node (\<lambda>n. n\<lparr>t_parent := Some this\<rparr>) h;
       t \<leftarrow> nodes h this;
       h \<leftarrow> upd node (\<lambda>n. n\<lparr>t_prev := t_last t, t_next := None\<rparr>) h;
       h \<leftarrow> (case t_last t of
               Some l \<Rightarrow> upd l (\<lambda>n. n\<lparr>t_next := Some node\<rparr>) h
             | None \<Rightarrow> upd this (\<lambda>n. n\<lparr>t_first := Some node\<rparr>) h);
       h \<leftarrow> upd this (\<lambda>n. n\<lparr>t_last := Some node\<rparr>) h;
       Some (Some node, h)
     }
   }"

section \<open>Copies\<close>

fun set_all :: "xml_attribute list \<Rightarrow> xml_attribute list \<Rightarrow> xml_attribute list option" where
  "set_all [] attrs = Some attrs"
| "set_all (a # rest) attrs = do { attrs \<leftarrow> SetAttribute (c_str (a_name a)) (c_str (a_value a)) attrs; set_all rest attrs }"

definition copy_content :: "xml_node option \<Rightarrow> xml_node option option" where
  \<comment> \<open>\<open>CopyTo\<close> without the children: the values go through \<open>SetValue\<close> and \<open>SetAttribute\<close>\<close>
  "copy_content c =
     (case c of
        Some (Element loc name attrs _) \<Rightarrow> map_option (\<lambda>attrs. Some (Element loc (c_str name) attrs [])) (set_all (printed_attributes attrs) [])
      | Some (Comment loc v) \<Rightarrow> Some (Some (Comment loc (c_str v)))
      | Some (Unknown loc v) \<Rightarrow> Some (Some (Unknown loc (c_str v)))
      | Some (Text loc v cdata) \<Rightarrow> Some (Some (Text loc (c_str v) cdata))
      | Some (Declaration loc v e s) \<Rightarrow> Some (Some (Declaration loc v e s))
      | None \<Rightarrow> Some None)"

definition copies_children :: "xml_node option \<Rightarrow> bool" where
  "copies_children c = (case c of None \<Rightarrow> True | Some (Element _ _ _ _) \<Rightarrow> True | _ \<Rightarrow> False)"

partial_function (option) clone_task :: "nat + nat \<times> nat option \<Rightarrow> nheap \<Rightarrow> (nat \<times> nheap) option" where
  \<comment> \<open>\<open>Inl\<close>: \<open>Clone\<close>, the new node; \<open>Inr\<close>: the loop of \<open>CopyTo\<close> over the children for the target\<close>
  "clone_task t h =
     (case t of
        Inl i \<Rightarrow> do {
          n \<leftarrow> nodes h i;
          c \<leftarrow> copy_content (t_content n);
          (case new_node c (t_error n) h of
             (target, h) \<Rightarrow> if copies_children (t_content n) then clone_task (Inr (target, t_first n)) h else Some (target, h))
        }
      | Inr (target, None) \<Rightarrow> Some (target, h)
      | Inr (target, Some c) \<Rightarrow> do {
          (d, h) \<leftarrow> clone_task (Inl c) h;
          (r, h) \<leftarrow> LinkEndChild target d h;
          n \<leftarrow> nodes h c;
          clone_task (Inr (target, t_next n)) h
        })"

section \<open>Inserting, replacing, removing\<close>

definition InsertEndChild :: "nat \<Rightarrow> nat \<Rightarrow> nheap \<Rightarrow> (nat option \<times> nheap) option" where
  "InsertEndChild this addThis h = do {
     a \<leftarrow> nodes h addThis;
     if t_content a = None then map_option (\<lambda>h. (None, h)) (top_only this h)
     else do {
       (node, h) \<leftarrow> clone_task (Inl addThis) h;
       LinkEndChild this node h
     }
   }"

definition InsertBeforeChild :: "nat \<Rightarrow> nat option \<Rightarrow> nat \<Rightarrow> nheap \<Rightarrow> (nat option \<times> nheap) option" where
  "InsertBeforeChild this beforeThis addThis h =
     (case beforeThis of
        None \<Rightarrow> Some (None, h)
      | Some before \<Rightarrow> do {
          b \<leftarrow> nodes h before;
          a \<leftarrow> nodes h addThis;
          if t_parent b \<noteq> Some this then Some (None, h)
          else if t_content a = None then map_option (\<lambda>h. (None, h)) (top_only this h)
          else do {
            (node, h) \<leftarrow> clone_task (Inl addThis) h;
            b \<leftarrow> nodes h before;
            h \<leftarrow> upd node (\<lambda>n. n\<lparr>t_parent := Some this, t_next := Some before, t_prev := t_prev b\<rparr>) h;
            h \<leftarrow> (case t_prev b of
                    Some p \<Rightarrow> upd p (\<lambda>n. n\<lparr>t_next := Some node\<rparr>) h
                  | None \<Rightarrow> do {
                      t \<leftarrow> nodes h this;
                      if t_first t \<noteq> Some before then None else upd this (\<lambda>n. n\<lparr>t_first := Some node\<rparr>) h
                    });
            h \<leftarrow> upd before (\<lambda>n. n\<lparr>t_prev := Some node\<rparr>) h;
            Some (Some node, h)
          }
        })"

definition InsertAfterChild :: "nat \<Rightarrow> nat option \<Rightarrow> nat \<Rightarrow> nheap \<Rightarrow> (nat option \<times> nheap) option" where
  "InsertAfterChild this afterThis addThis h =
     (case afterThis of
        None \<Rightarrow> Some (None, h)
      | Some after \<Rightarrow> do {
          b \<leftarrow> nodes h after;
          a \<leftarrow> nodes h addThis;
          if t_parent b \<noteq> Some this then Some (None, h)
          else if t_content a = None then map_option (\<lambda>h. (None, h)) (top_only this h)
          else do {
            (node, h) \<leftarrow> clone_task (Inl addThis) h;
            b \<leftarrow> nodes h after;
            h \<leftarrow> upd node (\<lambda>n. n\<lparr>t_parent := Some this, t_prev := Some after, t_next := t_next b\<rparr>) h;
            h \<leftarrow> (case t_next b of
                    Some p \<Rightarrow> upd p (\<lambda>n. n\<lparr>t_prev := Some node\<rparr>) h
                  | None \<Rightarrow> do {
                      t \<leftarrow> nodes h this;
                      if t_last t \<noteq> Some after then None else upd this (\<lambda>n. n\<lparr>t_last := Some node\<rparr>) h
                    });
            h \<leftarrow> upd after (\<lambda>n. n\<lparr>t_next := Some node\<rparr>) h;
            Some (Some node, h)
          }
        })"

definition link_neighbours :: "nat \<Rightarrow> nat option \<Rightarrow> nat option \<Rightarrow> nat option \<Rightarrow> nat option \<Rightarrow> nheap \<Rightarrow> nheap option" where
  \<comment> \<open>the next node gets \<open>l\<close> before it, the previous one \<open>f\<close> behind it; at an end it is a pointer of the parent\<close>
  "link_neighbours this nxt l prv f h = do {
     h \<leftarrow> (case nxt of Some x \<Rightarrow> upd x (\<lambda>n. n\<lparr>t_prev := l\<rparr>) h | None \<Rightarrow> upd this (\<lambda>n. n\<lparr>t_last := l\<rparr>) h);
     (case prv of Some x \<Rightarrow> upd x (\<lambda>n. n\<lparr>t_next := f\<rparr>) h | None \<Rightarrow> upd this (\<lambda>n. n\<lparr>t_first := f\<rparr>) h)
   }"

definition ReplaceChild :: "nat \<Rightarrow> nat option \<Rightarrow> nat \<Rightarrow> nheap \<Rightarrow> (nat option \<times> nheap) option" where
  "ReplaceChild this replaceThis withThis h =
     (case replaceThis of
        None \<Rightarrow> Some (None, h)
      | Some old \<Rightarrow> do {
          b \<leftarrow> nodes h old;
          a \<leftarrow> nodes h withThis;
          if t_parent b \<noteq> Some this then Some (None, h)
          else if t_content a = None then map_option (\<lambda>h. (None, h)) (top_only this h)
          else do {
            (node, h) \<leftarrow> clone_task (Inl withThis) h;
            b \<leftarrow> nodes h old;
            h \<leftarrow> upd node (\<lambda>n. n\<lparr>t_next := t_next b, t_prev := t_prev b\<rparr>) h;
            h \<leftarrow> link_neighbours this (t_next b) (Some node) (t_prev b) (Some node) h;
            h \<leftarrow> delete_task (Inl old) h;
            h \<leftarrow> upd node (\<lambda>n. n\<lparr>t_parent := Some this\<rparr>) h;
            Some (Some node, h)
          }
        })"

definition RemoveChild :: "nat \<Rightarrow> nat option \<Rightarrow> nheap \<Rightarrow> (bool \<times> nheap) option" where
  "RemoveChild this removeThis h =
     (case removeThis of
        None \<Rightarrow> Some (False, h)
      | Some x \<Rightarrow> do {
          n \<leftarrow> nodes h x;
          if t_parent n \<noteq> Some this then None
          else do {
            h \<leftarrow> link_neighbours this (t_next n) (t_prev n) (t_prev n) (t_next n) h;
            h \<leftarrow> delete_task (Inl x) h;
            Some (True, h)
          }
        })"

section \<open>Walking\<close>

definition node_value :: "xml_node option \<Rightarrow> string" where
  "node_value c =
     (case c of
        Some (Element _ name _ _) \<Rightarrow> name
      | Some (Comment _ v) \<Rightarrow> v
      | Some (Unknown _ v) \<Rightarrow> v
      | Some (Text _ v _) \<Rightarrow> v
      | _ \<Rightarrow> [])"

definition has_value :: "string \<Rightarrow> tnode \<Rightarrow> bool" where
  "has_value v n \<longleftrightarrow> c_str (node_value (t_content n)) = v"

definition is_element :: "tnode \<Rightarrow> bool" where
  "is_element n = (case t_content n of Some (Element _ _ _ _) \<Rightarrow> True | _ \<Rightarrow> False)"

datatype test = Has_value string | Is_an_element

definition passes :: "test \<Rightarrow> tnode \<Rightarrow> bool" where
  "passes t n = (case t of Has_value v \<Rightarrow> has_value v n | Is_an_element \<Rightarrow> is_element n)"

partial_function (option) walk :: "test \<Rightarrow> nheap \<Rightarrow> nat option \<Rightarrow> nat option option" where
  "walk t h node =
     (case node of
        None \<Rightarrow> Some None
      | Some i \<Rightarrow>
          (case nodes h i of
             None \<Rightarrow> None
           | Some n \<Rightarrow> if passes t n then Some (Some i) else walk t h (t_next n)))"

partial_function (option) walk_back :: "test \<Rightarrow> nheap \<Rightarrow> nat option \<Rightarrow> nat option option" where
  "walk_back t h node =
     (case node of
        None \<Rightarrow> Some None
      | Some i \<Rightarrow>
          (case nodes h i of
             None \<Rightarrow> None
           | Some n \<Rightarrow> if passes t n then Some (Some i) else walk_back t h (t_prev n)))"

definition FirstChild :: "string \<Rightarrow> nat \<Rightarrow> nheap \<Rightarrow> nat option option" where
  "FirstChild v this h = do { n \<leftarrow> nodes h this; walk (Has_value v) h (t_first n) }"

definition LastChild :: "string \<Rightarrow> nat \<Rightarrow> nheap \<Rightarrow> nat option option" where
  "LastChild v this h = do { n \<leftarrow> nodes h this; walk_back (Has_value v) h (t_last n) }"

definition NextSibling :: "string \<Rightarrow> nat \<Rightarrow> nheap \<Rightarrow> nat option option" where
  "NextSibling v this h = do { n \<leftarrow> nodes h this; walk (Has_value v) h (t_next n) }"

definition PreviousSibling :: "string \<Rightarrow> nat \<Rightarrow> nheap \<Rightarrow> nat option option" where
  "PreviousSibling v this h = do { n \<leftarrow> nodes h this; walk_back (Has_value v) h (t_prev n) }"

definition FirstChildElement :: "nat \<Rightarrow> nheap \<Rightarrow> nat option option" where
  "FirstChildElement this h = do { n \<leftarrow> nodes h this; walk Is_an_element h (t_first n) }"

definition NextSiblingElement :: "nat \<Rightarrow> nheap \<Rightarrow> nat option option" where
  "NextSiblingElement this h = do { n \<leftarrow> nodes h this; walk Is_an_element h (t_next n) }"

partial_function (option) element_from :: "string \<Rightarrow> nheap \<Rightarrow> nat option \<Rightarrow> nat option option" where
  \<comment> \<open>the loop over \<open>NextSibling( _value )\<close>\<close>
  "element_from v h node =
     (case node of
        None \<Rightarrow> Some None
      | Some i \<Rightarrow> do {
          n \<leftarrow> nodes h i;
          if is_element n then Some (Some i)
          else do { m \<leftarrow> NextSibling v i h; element_from v h m }
        })"

definition FirstChildElement_value :: "string \<Rightarrow> nat \<Rightarrow> nheap \<Rightarrow> nat option option" where
  "FirstChildElement_value v this h = do { c \<leftarrow> FirstChild v this h; element_from v h c }"

definition NextSiblingElement_value :: "string \<Rightarrow> nat \<Rightarrow> nheap \<Rightarrow> nat option option" where
  "NextSiblingElement_value v this h = do { c \<leftarrow> NextSibling v this h; element_from v h c }"

definition IterateChildren :: "nat \<Rightarrow> nat option \<Rightarrow> nheap \<Rightarrow> nat option option" where
  "IterateChildren this previous h =
     (case previous of
        None \<Rightarrow> map_option t_first (nodes h this)
      | Some p \<Rightarrow> do { n \<leftarrow> nodes h p; if t_parent n \<noteq> Some this then None else Some (t_next n) })"

definition IterateChildren_value :: "string \<Rightarrow> nat \<Rightarrow> nat option \<Rightarrow> nheap \<Rightarrow> nat option option" where
  "IterateChildren_value v this previous h =
     (case previous of
        None \<Rightarrow> FirstChild v this h
      | Some p \<Rightarrow> do { n \<leftarrow> nodes h p; if t_parent n \<noteq> Some this then None else NextSibling v p h })"

definition GetText :: "nat \<Rightarrow> nheap \<Rightarrow> string option option" where
  "GetText this h = do {
     n \<leftarrow> nodes h this;
     (case t_first n of
        None \<Rightarrow> Some None
      | Some c \<Rightarrow> do { m \<leftarrow> nodes h c; Some (case t_content m of Some (Text _ v _) \<Rightarrow> Some v | _ \<Rightarrow> None) })
   }"

section \<open>Handles\<close>

fun child_loop :: "(nat \<Rightarrow> nheap \<Rightarrow> nat option option) \<Rightarrow> nat \<Rightarrow> nheap \<Rightarrow> nat option \<Rightarrow> nat option option" where
  \<comment> \<open>from child to child with the given function\<close>
  "child_loop step k h None = Some None"
| "child_loop step 0 h (Some i) = Some (Some i)"
| "child_loop step (Suc k) h (Some i) = do { c \<leftarrow> step i h; child_loop step k h c }"

definition next_child :: "nat \<Rightarrow> nheap \<Rightarrow> nat option option" where
  \<comment> \<open>\<open>NextSibling()\<close>\<close>
  "next_child i h = map_option t_next (nodes h i)"

definition FirstChild_handle :: "nat option \<Rightarrow> nheap \<Rightarrow> nat option option" where
  "FirstChild_handle node h = (case node of None \<Rightarrow> Some None | Some i \<Rightarrow> map_option t_first (nodes h i))"

definition FirstChild_value_handle :: "string \<Rightarrow> nat option \<Rightarrow> nheap \<Rightarrow> nat option option" where
  "FirstChild_value_handle v node h = (case node of None \<Rightarrow> Some None | Some i \<Rightarrow> FirstChild v i h)"

definition FirstChildElement_handle :: "nat option \<Rightarrow> nheap \<Rightarrow> nat option option" where
  "FirstChildElement_handle node h = (case node of None \<Rightarrow> Some None | Some i \<Rightarrow> FirstChildElement i h)"

definition FirstChildElement_value_handle :: "string \<Rightarrow> nat option \<Rightarrow> nheap \<Rightarrow> nat option option" where
  "FirstChildElement_value_handle v node h = (case node of None \<Rightarrow> Some None | Some i \<Rightarrow> FirstChildElement_value v i h)"

definition Child :: "int \<Rightarrow> nat option \<Rightarrow> nheap \<Rightarrow> nat option option" where
  "Child count node h =
     (case node of None \<Rightarrow> Some None | Some i \<Rightarrow> do { n \<leftarrow> nodes h i; child_loop next_child (nat count) h (t_first n) })"

definition Child_value :: "string \<Rightarrow> int \<Rightarrow> nat option \<Rightarrow> nheap \<Rightarrow> nat option option" where
  "Child_value v count node h =
     (case node of None \<Rightarrow> Some None | Some i \<Rightarrow> do { c \<leftarrow> FirstChild v i h; child_loop (NextSibling v) (nat count) h c })"

definition ChildElement :: "int \<Rightarrow> nat option \<Rightarrow> nheap \<Rightarrow> nat option option" where
  "ChildElement count node h =
     (case node of None \<Rightarrow> Some None | Some i \<Rightarrow> do { c \<leftarrow> FirstChildElement i h; child_loop NextSiblingElement (nat count) h c })"

definition ChildElement_value :: "string \<Rightarrow> int \<Rightarrow> nat option \<Rightarrow> nheap \<Rightarrow> nat option option" where
  "ChildElement_value v count node h =
     (case node of
        None \<Rightarrow> Some None
      | Some i \<Rightarrow> do { c \<leftarrow> FirstChildElement_value v i h; child_loop (NextSiblingElement_value v) (nat count) h c })"

end
