(* ===== verification/XmlTreeInv.thy ===== *)
theory XmlTreeInv
  imports XmlTree
begin

text \<open>
  The nodes of \<open>XmlTree\<close> form trees: what the pointers of a tree are, and that linking, copying, deleting, inserting, replacing and
  removing are operations on lists of children.
\<close>

section \<open>Trees\<close>

datatype ntree = NT nat "xml_node option" "ntree list"

fun root :: "ntree \<Rightarrow> nat" where
  "root (NT i c ts) = i"

fun node_ids :: "ntree \<Rightarrow> nat set" where
  "node_ids (NT i c ts) = insert i (\<Union>t \<in> set ts. node_ids t)"

definition hd_opt :: "'a list \<Rightarrow> 'a option \<Rightarrow> 'a option" where
  "hd_opt xs d = (case xs of [] \<Rightarrow> d | x # _ \<Rightarrow> Some x)"

definition last_opt :: "'a list \<Rightarrow> 'a option \<Rightarrow> 'a option" where
  "last_opt xs d = (if xs = [] then d else Some (last xs))"

lemma hd_opt_simps [simp]: "hd_opt [] d = d" "hd_opt (x # xs) d = Some x"
  by (simp_all add: hd_opt_def)

lemma last_opt_simps [simp]: "last_opt [] d = d" "last_opt (xs @ [x]) d = Some x" "last_opt (x # xs) d = last_opt xs (Some x)"
  by (simp_all add: last_opt_def)

type_synonym store = "nat \<Rightarrow> tnode option"

fun seg :: "store \<Rightarrow> nat \<Rightarrow> nat option \<Rightarrow> nat list \<Rightarrow> nat option \<Rightarrow> bool" where
  \<comment> \<open>neighbours with the same parent, and what lies before and behind them\<close>
  "seg f p pr [] nx \<longleftrightarrow> True"
| "seg f p pr (i # is) nx \<longleftrightarrow> (\<exists>n. f i = Some n \<and> t_parent n = Some p \<and> t_prev n = pr \<and> t_next n = hd_opt is nx) \<and> seg f p (Some i) is nx"

fun tree :: "store \<Rightarrow> ntree \<Rightarrow> bool" where
  "tree f (NT i c ts) \<longleftrightarrow>
     (\<exists>n. f i = Some n \<and> t_content n = c \<and> t_first n = hd_opt (map root ts) None \<and> t_last n = last_opt (map root ts) None) \<and>
     seg f i None (map root ts) None \<and> list_all (tree f) ts"

fun apart :: "ntree \<Rightarrow> bool" where
  \<comment> \<open>no node is at two places of the tree\<close>
  "apart (NT i c ts) \<longleftrightarrow> list_all apart ts \<and> list_all (\<lambda>t. i \<notin> node_ids t) ts \<and> sorted_wrt (\<lambda>t u. node_ids t \<inter> node_ids u = {}) ts"

lemma seg_append: "seg f p pr (xs @ ys) nx \<longleftrightarrow> seg f p pr xs (hd_opt ys nx) \<and> seg f p (last_opt xs pr) ys nx"
  by (induction xs arbitrary: pr) (auto simp: hd_opt_def split: list.splits)

lemma seg_cong:
  assumes "seg f p pr xs nx" and "\<And>i. i \<in> set xs \<Longrightarrow> g i = f i"
  shows "seg g p pr xs nx"
  using assms by (induction xs arbitrary: pr) auto

lemma root_in: "root t \<in> node_ids t"
  by (cases t) simp

lemma tree_root: "tree f t \<Longrightarrow> \<exists>n. f (root t) = Some n"
  by (cases t) auto

definition inner_same :: "store \<Rightarrow> store \<Rightarrow> nat \<Rightarrow> bool" where
  \<comment> \<open>a node kept its content and its children\<close>
  "inner_same f g i \<longleftrightarrow> (\<forall>n. f i = Some n \<longrightarrow> (\<exists>m. g i = Some m \<and> t_content m = t_content n \<and> t_first m = t_first n \<and> t_last m = t_last n))"

lemma inner_same_eq: "g i = f i \<Longrightarrow> inner_same f g i"
  by (simp add: inner_same_def)

lemma apart_child: "apart (NT i c ts) \<Longrightarrow> t \<in> set ts \<Longrightarrow> apart t \<and> i \<notin> node_ids t"
  by (auto simp: list_all_iff)

lemma apart_roots: "apart (NT i c ts) \<Longrightarrow> distinct (map root ts)"
proof (induction ts)
  case (Cons t ts)
  then show ?case using root_in by (fastforce simp: list_all_iff)
qed simp

lemma tree_cong:
  assumes "tree f t" and "inner_same f g (root t)" and "\<And>i. i \<in> node_ids t \<Longrightarrow> i \<noteq> root t \<Longrightarrow> g i = f i" and "apart t"
  shows "tree g t"
  using assms
proof (induction t)
  case (NT i c ts)
  have same: "g j = f j" if "t \<in> set ts" "j \<in> node_ids t" for t j
    using NT.prems(3) apart_child [OF NT.prems(4) that(1)] that by auto
  have "list_all (tree g) ts" unfolding list_all_iff
  proof
    fix t
    assume t: "t \<in> set ts"
    have "tree f t" using NT.prems(1) t by (simp add: list_all_iff)
    then show "tree g t" using NT.IH [OF t] same [OF t] root_in [of t] apart_child [OF NT.prems(4) t] by (simp add: inner_same_eq)
  qed
  moreover have "seg g i None (map root ts) None"
  proof (rule seg_cong)
    show "seg f i None (map root ts) None" using NT.prems(1) by simp
    show "g j = f j" if "j \<in> set (map root ts)" for j using that same root_in by force
  qed
  moreover have "\<exists>n. g i = Some n \<and> t_content n = c \<and> t_first n = hd_opt (map root ts) None \<and> t_last n = last_opt (map root ts) None"
  proof -
    obtain n where n: "f i = Some n" "t_content n = c" "t_first n = hd_opt (map root ts) None" "t_last n = last_opt (map root ts) None"
      using NT.prems(1) by auto
    have "inner_same f g i" using NT.prems(2) by simp
    then obtain m where "g i = Some m" "t_content m = t_content n" "t_first m = t_first n" "t_last m = t_last n"
      using n(1) unfolding inner_same_def by blast
    then show ?thesis using n by simp
  qed
  ultimately show ?case by simp
qed

lemma tree_same: "tree f t \<Longrightarrow> (\<And>i. i \<in> node_ids t \<Longrightarrow> g i = f i) \<Longrightarrow> apart t \<Longrightarrow> tree g t"
  by (rule tree_cong) (auto simp: inner_same_eq root_in)

section \<open>Deleting\<close>

definition without :: "nat set \<Rightarrow> nheap \<Rightarrow> nheap" where
  "without A h = h\<lparr>nodes := (\<lambda>i. if i \<in> A then None else nodes h i)\<rparr>"

lemma without_fields [simp]: "nodes (without A h) i = (if i \<in> A then None else nodes h i)" "next_node (without A h) = next_node h"
  by (simp_all add: without_def)

lemma without_union: "without A (without B h) = without (A \<union> B) h" "without {} h = h"
  by (auto simp: without_def fun_eq_iff)

lemma delete_children:
  assumes "\<And>t h. t \<in> set ts \<Longrightarrow> tree (nodes h) t \<Longrightarrow> delete_task (Inl (root t)) h = Some (without (node_ids t) h)"
    and "seg (nodes h) p pr (map root ts) None" and "list_all (tree (nodes h)) ts" and "list_all apart ts"
    and "sorted_wrt (\<lambda>t u. node_ids t \<inter> node_ids u = {}) ts"
  shows "delete_task (Inr (hd_opt (map root ts) None)) h = Some (without (\<Union>t \<in> set ts. node_ids t) h)"
  using assms
proof (induction ts arbitrary: h pr)
  case Nil
  then show ?case by (subst delete_task.simps) (simp add: without_union)
next
  case (Cons t ts)
  let ?h = "without (node_ids t) h"
  have d: "delete_task (Inl (root t)) h = Some ?h" using Cons.prems(1,3) by simp
  obtain n where n: "nodes h (root t) = Some n" "t_next n = hd_opt (map root ts) None" "seg (nodes h) p (Some (root t)) (map root ts) None"
    using Cons.prems(2) by auto
  have apart_ids: "node_ids u \<inter> node_ids t = {}" if "u \<in> set ts" for u using Cons.prems(5) that by auto
  have "delete_task (Inr (hd_opt (map root ts) None)) ?h = Some (without (\<Union>t \<in> set ts. node_ids t) ?h)"
  proof (rule Cons.IH)
    show "delete_task (Inl (root u)) h' = Some (without (node_ids u) h')" if "u \<in> set ts" "tree (nodes h') u" for u h'
      using Cons.prems(1) that by simp
    show "seg (nodes ?h) p (Some (root t)) (map root ts) None"
      using n(3) by (rule seg_cong) (use apart_ids root_in in fastforce)
    show "list_all (tree (nodes ?h)) ts" unfolding list_all_iff
    proof
      fix u
      assume u: "u \<in> set ts"
      show "tree (nodes ?h) u"
        by (rule tree_same [of "nodes h"]) (use Cons.prems(3,4) u apart_ids [OF u] in \<open>auto simp: list_all_iff\<close>)
    qed
  qed (use Cons.prems in simp_all)
  then show ?case using d n by (subst delete_task.simps) (simp add: without_union Un_commute)
qed

lemma delete_tree: "tree (nodes h) t \<Longrightarrow> apart t \<Longrightarrow> delete_task (Inl (root t)) h = Some (without (node_ids t) h)"
proof (induction t arbitrary: h)
  case (NT i c ts)
  have "delete_task (Inr (hd_opt (map root ts) None)) h = Some (without (\<Union>t \<in> set ts. node_ids t) h)"
    using NT by (intro delete_children) (auto simp: list_all_iff)
  moreover obtain n where "nodes h i = Some n" "t_first n = hd_opt (map root ts) None" using NT.prems(1) by auto
  ultimately show ?case
    by (subst delete_task.simps) (auto simp: without_def fun_eq_iff)
qed


section \<open>Bridging a gap between children\<close>

definition modify :: "nat \<Rightarrow> (tnode \<Rightarrow> tnode) \<Rightarrow> store \<Rightarrow> store" where
  "modify i u f = f(i := map_option u (f i))"

definition bridge :: "nat \<Rightarrow> nat option \<Rightarrow> nat option \<Rightarrow> nat option \<Rightarrow> nat option \<Rightarrow> store \<Rightarrow> store" where
  \<comment> \<open>what \<open>link_neighbours\<close> does to the nodes\<close>
  "bridge i nxt l prv r f =
     (case prv of Some x \<Rightarrow> modify x (\<lambda>n. n\<lparr>t_next := r\<rparr>) | None \<Rightarrow> modify i (\<lambda>n. n\<lparr>t_first := r\<rparr>))
       ((case nxt of Some x \<Rightarrow> modify x (\<lambda>n. n\<lparr>t_prev := l\<rparr>) | None \<Rightarrow> modify i (\<lambda>n. n\<lparr>t_last := l\<rparr>)) f)"

lemma modify_apply: "modify i u f k = (if k = i then map_option u (f i) else f k)"
  by (simp add: modify_def)

lemma upd_modify: "nodes h i \<noteq> None \<Longrightarrow> upd i u h = Some (h\<lparr>nodes := modify i u (nodes h)\<rparr>)"
  by (auto simp: upd_def modify_def)

lemma seg_elem: "seg f p pr xs nx \<Longrightarrow> k \<in> set xs \<Longrightarrow> \<exists>n. f k = Some n \<and> t_parent n = Some p"
  by (induction xs arbitrary: pr) auto

lemma seg_last:
  assumes "seg f p pr (xs @ [x]) nx" and "x \<notin> set xs"
  shows "seg (modify x (\<lambda>n. n\<lparr>t_next := r\<rparr>) f) p pr (xs @ [x]) r"
proof -
  have "seg (modify x (\<lambda>n. n\<lparr>t_next := r\<rparr>) f) p pr xs (Some x)"
    by (rule seg_cong [of f]) (use assms in \<open>auto simp: seg_append modify_apply\<close>)
  then show ?thesis using assms by (auto simp: seg_append modify_apply)
qed

lemma seg_hd:
  assumes "seg f p pr (x # xs) nx" and "x \<notin> set xs"
  shows "seg (modify x (\<lambda>n. n\<lparr>t_prev := l\<rparr>) f) p l (x # xs) nx"
proof -
  have "seg (modify x (\<lambda>n. n\<lparr>t_prev := l\<rparr>) f) p (Some x) xs nx"
    by (rule seg_cong [of f]) (use assms in \<open>auto simp: modify_apply\<close>)
  then show ?thesis using assms by (auto simp: modify_apply)
qed

lemma seg_modify: "seg f p pr xs nx \<Longrightarrow> k \<notin> set xs \<Longrightarrow> seg (modify k u f) p pr xs nx"
  by (rule seg_cong [of f]) (auto simp: modify_apply)

lemma inner_modify:
  assumes "\<And>n. t_content (u n) = t_content n \<and> t_first (u n) = t_first n \<and> t_last (u n) = t_last n"
  shows "inner_same f (modify k u f) j"
  using assms by (auto simp: inner_same_def modify_apply)

lemma inner_same_trans: "inner_same f g j \<Longrightarrow> inner_same g h j \<Longrightarrow> inner_same f h j"
  unfolding inner_same_def by metis

lemma bridged:
  assumes "f i = Some n" and "xs \<noteq> [] \<Longrightarrow> t_first n = Some (hd xs)" and "ys \<noteq> [] \<Longrightarrow> t_last n = Some (last ys)"
    and "seg f i None xs nx" and "seg f i pv ys None" and "distinct (xs @ ys)" and "i \<notin> set (xs @ ys)"
    and "g = bridge i (hd_opt ys None) l (last_opt xs None) r f"
  shows "seg g i None xs r" and "seg g i l ys None" and "g i = Some (n\<lparr>t_first := hd_opt xs r, t_last := last_opt ys l\<rparr>)"
    and "\<And>k. k \<notin> insert i (set xs \<union> set ys) \<Longrightarrow> g k = f k" and "\<And>k. k \<in> set xs \<union> set ys \<Longrightarrow> inner_same f g k"
proof -
  define m where "m = (case hd_opt ys None of Some x \<Rightarrow> modify x (\<lambda>n. n\<lparr>t_prev := l\<rparr>) | None \<Rightarrow> modify i (\<lambda>n. n\<lparr>t_last := l\<rparr>)) f"
  have g: "g = (case last_opt xs None of Some x \<Rightarrow> modify x (\<lambda>n. n\<lparr>t_next := r\<rparr>) | None \<Rightarrow> modify i (\<lambda>n. n\<lparr>t_first := r\<rparr>)) m"
    by (simp add: assms(8) bridge_def m_def)
  have m: "seg m i None xs nx \<and> seg m i l ys None \<and> m i = Some (n\<lparr>t_last := last_opt ys l\<rparr>) \<and> (\<forall>k. k \<notin> insert i (set ys) \<longrightarrow> m k = f k) \<and>
    (\<forall>k. k \<noteq> i \<longrightarrow> inner_same f m k)"
  proof (cases ys)
    case Nil
    then show ?thesis using assms(1,4,7) seg_modify by (auto simp: m_def modify_apply inner_same_def)
  next
    case (Cons y zs)
    then have "seg m i l ys None" using seg_hd [of f i pv y zs None] assms(5,6) by (simp add: m_def)
    moreover have "seg m i None xs nx" using Cons seg_modify [OF assms(4), of y] assms(6) by (auto simp: m_def)
    moreover have "\<forall>k. inner_same f m k" using Cons by (auto simp: m_def intro: inner_modify)
    moreover have "n\<lparr>t_last := last_opt ys l\<rparr> = n" using assms(3) Cons by (simp add: last_opt_def)
    ultimately show ?thesis using Cons assms(1,7) by (auto simp: m_def modify_apply)
  qed
  have "seg g i None xs r \<and> seg g i l ys None \<and> g i = Some (n\<lparr>t_first := hd_opt xs r, t_last := last_opt ys l\<rparr>) \<and>
    (\<forall>k. k \<notin> insert i (set xs \<union> set ys) \<longrightarrow> g k = f k) \<and> (\<forall>k. k \<noteq> i \<longrightarrow> inner_same f g k)"
  proof (cases xs rule: rev_cases)
    case Nil
    then have gm: "g = modify i (\<lambda>n. n\<lparr>t_first := r\<rparr>) m" by (simp add: g)
    have "\<forall>k. k \<noteq> i \<longrightarrow> inner_same f g k" using m by (auto simp: gm modify_apply inner_same_def)
    moreover have "seg g i l ys None" using m assms(7) unfolding gm by (intro seg_modify) auto
    moreover have "g i = Some (n\<lparr>t_first := hd_opt xs r, t_last := last_opt ys l\<rparr>)" using m Nil by (simp add: gm modify_apply)
    ultimately show ?thesis using m Nil by (simp add: gm modify_apply)
  next
    case (snoc zs x)
    then have gm: "g = modify x (\<lambda>n. n\<lparr>t_next := r\<rparr>) m" by (simp add: g)
    have "seg g i None xs r" using m assms(6) snoc seg_last [of m i None zs x nx r] by (simp add: gm)
    moreover have "seg g i l ys None" using m assms(6) snoc unfolding gm by (intro seg_modify) auto
    moreover have "inner_same m g k" for k unfolding gm by (rule inner_modify) simp
    then have "\<forall>k. k \<noteq> i \<longrightarrow> inner_same f g k" using m inner_same_trans by blast
    moreover have "n\<lparr>t_first := hd_opt xs r\<rparr> = n" using assms(2) snoc by (cases zs) (simp_all add: hd_opt_def)
    moreover have "g i = m i" using assms(7) snoc by (simp add: gm modify_apply)
    ultimately show ?thesis using m snoc by (auto simp: gm modify_apply)
  qed
  then show "seg g i None xs r" "seg g i l ys None" "g i = Some (n\<lparr>t_first := hd_opt xs r, t_last := last_opt ys l\<rparr>)"
    and "\<And>k. k \<notin> insert i (set xs \<union> set ys) \<Longrightarrow> g k = f k" and "\<And>k. k \<in> set xs \<union> set ys \<Longrightarrow> inner_same f g k"
    using assms(7) by auto
qed

lemma apart_notin: "apart (NT i c ts) \<Longrightarrow> i \<notin> set (map root ts)"
  using root_in by (fastforce simp: list_all_iff)

lemma apart_other: "apart (NT i c (xs @ t # ys)) \<Longrightarrow> u \<in> set (xs @ ys) \<Longrightarrow> node_ids u \<inter> node_ids t = {}"
  by (auto simp: sorted_wrt_append)

lemma apart_two:
  assumes "apart (NT i c ts)" and "t \<in> set ts" and "u \<in> set ts" and "root t \<in> node_ids u"
  shows "t = u"
proof (rule ccontr)
  assume "t \<noteq> u"
  obtain a b where ab: "ts = a @ t # b" using assms(2) by (meson split_list)
  then have "u \<in> set (a @ b)" using assms(3) \<open>t \<noteq> u\<close> by auto
  then have "node_ids u \<inter> node_ids t = {}" using apart_other [of i c a t b u] assms(1) ab by simp
  then show False using root_in [of t] assms(4) by blast
qed

lemma children_kept:
  \<comment> \<open>changes of the nodes around a gap leave the subtrees alone\<close>
  assumes "apart (NT i c ts)" and "u \<in> set ts" and "tree f u" and "inner_same f g (root u)"
    and "\<And>k. k \<in> node_ids u \<Longrightarrow> k \<notin> insert i (set (map root ts)) \<Longrightarrow> g k = f k"
  shows "tree g u"
proof (rule tree_cong [OF assms(3,4)])
  fix k
  assume k: "k \<in> node_ids u" "k \<noteq> root u"
  have "k \<noteq> i" using apart_child [OF assms(1,2)] k(1) by auto
  moreover have "k \<notin> set (map root ts)" using apart_two [OF assms(1) _ assms(2)] k by auto
  ultimately show "g k = f k" using assms(5) k(1) by simp
qed (use apart_child [OF assms(1,2)] in simp)

lemma insert_tree:
  assumes "f i = Some n" and "t_content n = c" and "xs \<noteq> [] \<Longrightarrow> t_first n = Some (hd (map root xs))" and "ys \<noteq> [] \<Longrightarrow> t_last n = Some (last (map root ys))"
    and "seg f i None (map root xs) nx" and "seg f i pv (map root ys) None" and "list_all (tree f) (xs @ t # ys)" and "apart (NT i c (xs @ t # ys))"
    and "\<And>k. k \<in> node_ids (NT i c (xs @ t # ys)) \<Longrightarrow> k \<noteq> root t \<Longrightarrow>
      g k = bridge i (hd_opt (map root ys) None) (Some (root t)) (last_opt (map root xs) None) (Some (root t)) f k"
    and "g (root t) = Some m" and "t_parent m = Some i" and "t_prev m = last_opt (map root xs) None" and "t_next m = hd_opt (map root ys) None"
    and "inner_same f g (root t)"
  shows "tree g (NT i c (xs @ t # ys))"
proof -
  let ?X = "map root xs" and ?Y = "map root ys" and ?j = "root t"
  define b where "b = bridge i (hd_opt ?Y None) (Some ?j) (last_opt ?X None) (Some ?j) f"
  have d: "distinct (?X @ ?j # ?Y)" "i \<notin> set (?X @ ?j # ?Y)" using apart_roots [OF assms(8)] apart_notin [OF assms(8)] by simp_all
  have "distinct (?X @ ?Y)" "i \<notin> set (?X @ ?Y)" using d by auto
  note br = bridged [OF assms(1) _ _ assms(5,6) this b_def]
  have seg: "seg b i None ?X (Some ?j)" "seg b i (Some ?j) ?Y None" using br(1,2) assms(3,4) by simp_all
  have bi: "b i = Some (n\<lparr>t_first := hd_opt ?X (Some ?j), t_last := last_opt ?Y (Some ?j)\<rparr>)" using br(3) assms(3,4) by simp
  have same: "g k = b k" if "k \<in> insert i (set ?X \<union> set ?Y)" for k
  proof -
    have "k = i \<or> (\<exists>u \<in> set (xs @ ys). k = root u)" using that by auto
    then have "k \<in> node_ids (NT i c (xs @ t # ys))" using root_in by auto
    moreover have "k \<noteq> ?j" using that d by auto
    ultimately show ?thesis using assms(9) by (simp add: b_def)
  qed
  have "seg g i None ?X (Some ?j)" using seg(1) by (rule seg_cong) (simp add: same)
  moreover have "seg g i (Some ?j) ?Y None" using seg(2) by (rule seg_cong) (simp add: same)
  ultimately have "seg g i None (map root (xs @ t # ys)) None" using assms(10-13) by (simp add: seg_append)
  moreover have "\<exists>n. g i = Some n \<and> t_content n = c \<and> t_first n = hd_opt (map root (xs @ t # ys)) None \<and> t_last n = last_opt (map root (xs @ t # ys)) None"
    using same [of i] bi assms(2) by (cases xs) (auto simp: last_opt_def)
  moreover have "tree g u" if u: "u \<in> set (xs @ t # ys)" for u
  proof (rule children_kept [OF assms(8) u])
    show "tree f u" using assms(7) u by (auto simp: list_all_iff)
    show "inner_same f g (root u)"
    proof (cases "root u = ?j")
      case False
      then have k: "root u \<in> set ?X \<union> set ?Y" using u by auto
      then have "inner_same f b (root u)" using br(5) assms(3,4) by simp
      then show ?thesis using same [of "root u"] k by (simp add: inner_same_def)
    qed (use assms(14) in simp)
  next
    fix k
    assume k: "k \<in> node_ids u" "k \<notin> insert i (set (map root (xs @ t # ys)))"
    have "k \<in> node_ids (NT i c (xs @ t # ys))" "k \<noteq> ?j" using k u by auto
    then have "g k = b k" using assms(9) by (simp add: b_def)
    moreover have "k \<notin> insert i (set ?X \<union> set ?Y)" using k(2) by auto
    ultimately show "g k = f k" using br(4) assms(3,4) by simp
  qed
  ultimately show ?thesis by (simp add: list_all_iff)
qed

lemma remove_tree:
  assumes "tree f (NT i c (xs @ t # ys))" and "apart (NT i c (xs @ t # ys))"
    and "g = bridge i (hd_opt (map root ys) None) (last_opt (map root xs) None) (last_opt (map root xs) None) (hd_opt (map root ys) None) f"
  shows "tree g (NT i c (xs @ ys))" and "tree g t" and "\<And>k. k \<notin> insert i (set (map root (xs @ ys))) \<Longrightarrow> g k = f k"
    and "\<exists>n. f i = Some n \<and> g i = Some (n\<lparr>t_first := hd_opt (map root (xs @ ys)) None, t_last := last_opt (map root (xs @ ys)) None\<rparr>)"
proof -
  let ?X = "map root xs" and ?Y = "map root ys"
  obtain n where n: "f i = Some n" "t_content n = c" "t_first n = hd_opt (map root (xs @ t # ys)) None" "t_last n = last_opt (map root (xs @ t # ys)) None"
    using assms(1) by auto
  have s: "seg f i None ?X (Some (root t))" "seg f i (Some (root t)) ?Y None" using assms(1) by (simp_all add: seg_append)
  have d: "distinct (?X @ ?Y)" "i \<notin> set (?X @ ?Y)" using apart_roots [OF assms(2)] apart_notin [OF assms(2)] by auto
  have ends: "?X \<noteq> [] \<Longrightarrow> t_first n = Some (hd ?X)" "?Y \<noteq> [] \<Longrightarrow> t_last n = Some (last ?Y)"
    using n(3,4) by (cases xs; auto simp: last_opt_def)+
  note br = bridged [OF n(1) ends s d assms(3)]
  have gi: "g i = Some (n\<lparr>t_first := hd_opt (map root (xs @ ys)) None, t_last := last_opt (map root (xs @ ys)) None\<rparr>)"
    using br(3) by (cases xs; cases ys rule: rev_cases) (auto simp: last_opt_def)
  show frame: "g k = f k" if "k \<notin> insert i (set (map root (xs @ ys)))" for k using br(4) that by simp
  show "\<exists>n. f i = Some n \<and> g i = Some (n\<lparr>t_first := hd_opt (map root (xs @ ys)) None, t_last := last_opt (map root (xs @ ys)) None\<rparr>)"
    using n(1) gi by blast
  have kept: "tree g u" if u: "u \<in> set (xs @ t # ys)" for u
  proof (rule children_kept [OF assms(2) u])
    show "tree f u" using assms(1) u by (auto simp: list_all_iff)
    show "inner_same f g (root u)"
    proof (cases "root u \<in> set ?X \<union> set ?Y")
      case False
      moreover have "root u \<noteq> i" using apart_notin [OF assms(2)] u by auto
      ultimately show ?thesis using frame by (intro inner_same_eq) auto
    qed (rule br(5))
  qed (use frame in auto)
  show "tree g t" using kept by simp
  have "seg g i None (map root (xs @ ys)) None" using br(1,2) by (simp add: seg_append)
  then show "tree g (NT i c (xs @ ys))" using gi n(2) kept by (simp add: list_all_iff)
qed

section \<open>Linking a node\<close>

lemma modify_commute: "a \<noteq> b \<Longrightarrow> modify a u (modify b v f) = modify b v (modify a u f)"
  by (auto simp: modify_def)

lemma bridge_other:
  assumes "j \<noteq> i" and "nxt \<noteq> Some j" and "prv \<noteq> Some j"
  shows "bridge i nxt l prv r (f(j := v)) k = (if k = j then v else bridge i nxt l prv r f k)"
  using assms by (auto simp: bridge_def modify_apply split: option.split)

lemma hd_opt_set: "hd_opt xs None = Some x \<Longrightarrow> x \<in> set xs"
  by (cases xs) simp_all

lemma last_opt_set: "last_opt xs None = Some x \<Longrightarrow> x \<in> set xs"
  by (auto simp: last_opt_def split: if_splits)

lemma insert_bridge:
  assumes "tree f (NT i c (xs @ ys))" and "tree f t" and "apart (NT i c (xs @ t # ys))" and "f (root t) = Some m"
    and "g = bridge i (hd_opt (map root ys) None) (Some (root t)) (last_opt (map root xs) None) (Some (root t))
      (f(root t \<mapsto> m\<lparr>t_parent := Some i, t_prev := last_opt (map root xs) None, t_next := hd_opt (map root ys) None\<rparr>))"
  shows "tree g (NT i c (xs @ t # ys))" and "\<And>k. k \<notin> insert i (set (map root (xs @ t # ys))) \<Longrightarrow> g k = f k"
    and "\<exists>n. f i = Some n \<and> g i = Some (n\<lparr>t_first := hd_opt (map root (xs @ t # ys)) None, t_last := last_opt (map root (xs @ t # ys)) None\<rparr>)"
proof -
  let ?X = "map root xs" and ?Y = "map root ys" and ?j = "root t"
  let ?b = "bridge i (hd_opt ?Y None) (Some ?j) (last_opt ?X None) (Some ?j) f"
  let ?m = "m\<lparr>t_parent := Some i, t_prev := last_opt ?X None, t_next := hd_opt ?Y None\<rparr>"
  have d: "distinct (?X @ ?j # ?Y)" "i \<notin> set (?X @ ?j # ?Y)" using apart_roots [OF assms(3)] apart_notin [OF assms(3)] by simp_all
  have "?j \<noteq> i" "hd_opt ?Y None \<noteq> Some ?j" "last_opt ?X None \<noteq> Some ?j" using d hd_opt_set last_opt_set by fastforce+
  then have g: "g k = (if k = ?j then Some ?m else ?b k)" for k unfolding assms(5) by (rule bridge_other)
  obtain n where n: "f i = Some n" "t_content n = c" "t_first n = hd_opt (map root (xs @ ys)) None" "t_last n = last_opt (map root (xs @ ys)) None"
    using assms(1) by auto
  have s: "seg f i None ?X (hd_opt ?Y None)" "seg f i (last_opt ?X None) ?Y None" using assms(1) by (simp_all add: seg_append)
  have ends: "?X \<noteq> [] \<Longrightarrow> t_first n = Some (hd ?X)" "?Y \<noteq> [] \<Longrightarrow> t_last n = Some (last ?Y)"
    using n(3,4) by (cases xs; auto simp: last_opt_def)+
  have e: "distinct (?X @ ?Y)" "i \<notin> set (?X @ ?Y)" using d by auto
  note br = bridged [where l = "Some ?j" and r = "Some ?j", OF n(1) ends s e refl]
  show "tree g (NT i c (xs @ t # ys))"
  proof (rule insert_tree [OF n(1,2) _ _ s _ assms(3)])
    show "list_all (tree f) (xs @ t # ys)" using assms(1,2) by simp
    show "inner_same f g ?j" using g assms(4) by (simp add: inner_same_def)
    show "g ?j = Some ?m" using g by simp
  qed (use g ends in simp_all)
  show "g k = f k" if "k \<notin> insert i (set (map root (xs @ t # ys)))" for k
    using that br(4) [of k] g by auto
  have "?b i = Some (n\<lparr>t_first := hd_opt (map root (xs @ t # ys)) None, t_last := last_opt (map root (xs @ t # ys)) None\<rparr>)"
    using br(3) by (cases xs; cases ys rule: rev_cases) (auto simp: last_opt_def)
  then show "\<exists>n. f i = Some n \<and> g i = Some (n\<lparr>t_first := hd_opt (map root (xs @ t # ys)) None, t_last := last_opt (map root (xs @ t # ys)) None\<rparr>)"
    using n(1) g \<open>?j \<noteq> i\<close> by simp
qed

lemma seg_allocated: "seg f p pr xs nx \<Longrightarrow> last_opt xs None = Some l \<Longrightarrow> f l \<noteq> None"
  using seg_elem last_opt_set by fastforce

lemma document_of_single:
  assumes "nodes h j = Some m" and "t_parent m = None" and "t_content m \<noteq> None"
  shows "GetDocument h (Some j) = Some None"
proof -
  have "GetDocument h None = Some None" by (simp add: GetDocument.simps)
  then show ?thesis using assms by (subst GetDocument.simps) simp
qed

lemma link_tree:
  assumes "tree (nodes h) (NT i c xs)" and "tree (nodes h) t" and "apart (NT i c (xs @ [t]))" and "nodes h (root t) = Some m"
    and "t_parent m = None" and "t_content m \<noteq> None"
  shows "\<exists>h'. LinkEndChild i (root t) h = Some (Some (root t), h') \<and> tree (nodes h') (NT i c (xs @ [t])) \<and> next_node h' = next_node h \<and>
    (\<forall>k. k \<notin> insert i (set (map root (xs @ [t]))) \<longrightarrow> nodes h' k = nodes h k) \<and>
    (\<exists>n. nodes h i = Some n \<and> nodes h' i = Some (n\<lparr>t_first := hd_opt (map root (xs @ [t])) None, t_last := last_opt (map root (xs @ [t])) None\<rparr>))"
proof -
  let ?X = "map root xs" and ?j = "root t" and ?f = "nodes h"
  obtain n where n: "?f i = Some n" "t_last n = last_opt ?X None" using assms(1) by auto
  let ?m = "m\<lparr>t_parent := Some i, t_prev := last_opt ?X None, t_next := None\<rparr>"
  have ij: "i \<noteq> ?j" and xj: "?j \<notin> set ?X" and ix: "i \<notin> set ?X" using apart_notin [OF assms(3)] apart_roots [OF assms(3)] by auto
  define g where "g = bridge i None (Some ?j) (last_opt ?X None) (Some ?j) (?f(?j \<mapsto> ?m))"
  have step: "LinkEndChild i ?j h = Some (Some ?j, h\<lparr>nodes := g\<rparr>)"
  proof (cases "last_opt ?X None")
    case None
    then show ?thesis using assms(4-6) n ij document_of_single [OF assms(4-6)]
      by (auto simp: LinkEndChild_def upd_def g_def bridge_def modify_def fun_eq_iff)
  next
    case (Some l)
    then have "l \<in> set ?X" by (rule last_opt_set)
    then have l: "l \<noteq> i" "l \<noteq> ?j" using xj ix by blast+
    obtain k where "?f l = Some k" using seg_allocated [OF _ Some] assms(1) by fastforce
    then show ?thesis using assms(4-6) n ij Some l document_of_single [OF assms(4-6)]
      by (auto simp: LinkEndChild_def upd_def g_def bridge_def modify_def fun_eq_iff)
  qed
  have "tree ?f (NT i c (xs @ []))" using assms(1) by simp
  note ins = insert_bridge [OF this assms(2) assms(3) assms(4), of g]
  show ?thesis using step ins by (intro exI [of _ "h\<lparr>nodes := g\<rparr>"]) (simp add: g_def)
qed

section \<open>Copies\<close>

datatype shape = SH "xml_node option" "shape list"

fun shape_of :: "ntree \<Rightarrow> shape" where
  \<comment> \<open>a tree without its addresses\<close>
  "shape_of (NT i c ts) = SH c (map shape_of ts)"

definition copied :: "xml_node option \<Rightarrow> xml_node option" where
  "copied c = (case c of Some (Element loc n as _) \<Rightarrow> Some (Element loc n (map (\<lambda>a. a\<lparr>a_location := no_location\<rparr>) as) []) | _ \<Rightarrow> c)"

fun copy_shape :: "ntree \<Rightarrow> shape" where
  \<comment> \<open>only elements copy their children\<close>
  "copy_shape (NT i c ts) = SH (copied c) (if copies_children c then map copy_shape ts else [])"

definition copyable :: "xml_node option \<Rightarrow> bool" where
  "copyable c =
     (case c of
        None \<Rightarrow> False
      | Some (Element loc n as ns) \<Rightarrow> NUL \<notin> set n \<and> (\<forall>a \<in> set as. a_name a \<noteq> [] \<and> NUL \<notin> set (a_name a) \<and> NUL \<notin> set (a_value a)) \<and>
          distinct (map a_name as)
      | Some (Comment loc v) \<Rightarrow> NUL \<notin> set v
      | Some (Unknown loc v) \<Rightarrow> NUL \<notin> set v
      | Some (Text loc v cdata) \<Rightarrow> NUL \<notin> set v
      | Some (Declaration loc v e s) \<Rightarrow> True)"

fun copyable_tree :: "ntree \<Rightarrow> bool" where
  "copyable_tree (NT i c ts) \<longleftrightarrow> copyable c \<and> list_all copyable_tree ts"

lemma SetValue_last: "name \<notin> set (map a_name xs) \<Longrightarrow> SetValue name v (xs @ [\<lparr>a_name = name, a_value = w, a_location = loc\<rparr>]) =
    xs @ [\<lparr>a_name = name, a_value = v, a_location = loc\<rparr>]"
  by (induction xs) auto

lemma set_all_new:
  assumes "\<forall>a \<in> set as. a_name a \<noteq> [] \<and> NUL \<notin> set (a_name a) \<and> NUL \<notin> set (a_value a)" and "distinct (map a_name (pre @ as))"
    and "\<forall>a \<in> set pre. a_name a \<noteq> []"
  shows "set_all as pre = Some (pre @ map (\<lambda>a. a\<lparr>a_location := no_location\<rparr>) as)"
  using assms
proof (induction as arbitrary: pre)
  case (Cons a as)
  let ?a = "a\<lparr>a_location := no_location\<rparr>"
  have a: "\<lparr>a_name = a_name a, a_value = a_value a, a_location = no_location\<rparr> = ?a" by simp
  have "SetAttribute (c_str (a_name a)) (c_str (a_value a)) pre = Some (pre @ [?a])"
    using Cons.prems FindOrCreate_ok [OF Cons.prems(3), of "a_name a"] SetValue_last [of "a_name a" pre "a_value a" "[]" no_location]
    by (auto simp: SetAttribute_def c_str_whole a)
  moreover have "set_all as (pre @ [?a]) = Some ((pre @ [?a]) @ map (\<lambda>a. a\<lparr>a_location := no_location\<rparr>) as)"
    using Cons.prems by (intro Cons.IH) auto
  ultimately show ?case by simp
qed simp

lemma copy_content_copied: "copyable c \<Longrightarrow> copy_content c = Some (copied c)"
proof -
  assume c: "copyable c"
  show ?thesis
  proof (cases c)
    case (Some x)
    then show ?thesis
    proof (cases x)
      case (Element loc n as ns)
      have as: "\<forall>a \<in> set as. a_name a \<noteq> [] \<and> NUL \<notin> set (a_name a) \<and> NUL \<notin> set (a_value a)" "distinct (map a_name as)" "NUL \<notin> set n"
        using c Some Element by (simp_all add: copyable_def)
      have "printed_attributes as = as" using as(1) by (cases as) (auto simp: takeWhile_eq_all_conv)
      then show ?thesis using as Some Element set_all_new [of as "[]"] by (simp add: copy_content_def copied_def c_str_whole)
    qed (use c in \<open>auto simp: copy_content_def copied_def copyable_def c_str_whole\<close>)
  qed (use c in \<open>simp add: copyable_def\<close>)
qed

lemma copied_some: "copyable c \<Longrightarrow> copied c \<noteq> None"
  by (auto simp: copyable_def copied_def split: option.splits xml_node.splits)

definition tidy_heap :: "nheap \<Rightarrow> bool" where
  "tidy_heap h \<longleftrightarrow> (\<forall>k \<ge> next_node h. nodes h k = None)"

definition grown :: "nat \<Rightarrow> nheap \<Rightarrow> nheap \<Rightarrow> bool" where
  \<comment> \<open>everything below a bound is as it was\<close>
  "grown b h h' \<longleftrightarrow> tidy_heap h' \<and> next_node h \<le> next_node h' \<and> (\<forall>k < b. nodes h' k = nodes h k)"

definition cloned :: "nheap \<Rightarrow> ntree \<Rightarrow> nheap \<Rightarrow> bool" where
  "cloned h u h' \<longleftrightarrow> tree (nodes h') u \<and> apart u \<and> node_ids u \<subseteq> {next_node h ..< next_node h'} \<and> grown (next_node h) h h' \<and>
     (\<exists>m. nodes h' (root u) = Some m \<and> t_parent m = None \<and> t_content m \<noteq> None)"

lemma tree_ids_below: "tree (nodes h) t \<Longrightarrow> tidy_heap h \<Longrightarrow> k \<in> node_ids t \<Longrightarrow> k < next_node h"
proof (induction t)
  case (NT i c ts)
  show ?case
  proof (cases "k = i")
    case True
    then show ?thesis using NT.prems(1,2) by (force simp: tidy_heap_def not_less [symmetric])
  next
    case False
    then show ?thesis using NT by (auto simp: list_all_iff)
  qed
qed

lemma clone_children:
  assumes "\<And>t h. t \<in> set ts \<Longrightarrow> tree (nodes h) t \<Longrightarrow> tidy_heap h \<Longrightarrow>
      \<exists>u h'. clone_task (Inl (root t)) h = Some (root u, h') \<and> cloned h u h' \<and> shape_of u = copy_shape t"
    and "list_all (tree (nodes h)) ts" and "list_all apart ts" and "seg (nodes h) p pr (map root ts) None"
    and "tree (nodes h) (NT a c us)" and "apart (NT a c us)" and "node_ids (NT a c us) \<subseteq> {b ..< next_node h}" and "tidy_heap h"
    and "\<And>t. t \<in> set ts \<Longrightarrow> node_ids t \<subseteq> {..< b}" and "nodes h a = Some m" and "t_parent m = None"
  shows "\<exists>vs h'. clone_task (Inr (a, hd_opt (map root ts) None)) h = Some (a, h') \<and> tree (nodes h') (NT a c (us @ vs)) \<and>
    apart (NT a c (us @ vs)) \<and> node_ids (NT a c (us @ vs)) \<subseteq> {b ..< next_node h'} \<and> map shape_of vs = map copy_shape ts \<and> grown b h h' \<and>
    (\<exists>m. nodes h' a = Some m \<and> t_parent m = None)"
  using assms
proof (induction ts arbitrary: h us pr m)
  case Nil
  then show ?case by (intro exI [of _ "[]"] exI [of _ h]) (subst clone_task.simps, simp add: grown_def)
next
  case (Cons t ts)
  obtain n where n: "nodes h (root t) = Some n" "t_next n = hd_opt (map root ts) None" "seg (nodes h) p (Some (root t)) (map root ts) None"
    using Cons.prems(4) by auto
  obtain u h1 where u: "clone_task (Inl (root t)) h = Some (root u, h1)" "cloned h u h1" "shape_of u = copy_shape t"
    using Cons.prems(1) [of t h] Cons.prems(2,8) by auto
  have u1: "tree (nodes h1) u" "apart u" "node_ids u \<subseteq> {next_node h ..< next_node h1}" "tidy_heap h1" "next_node h \<le> next_node h1"
    "\<forall>k < next_node h. nodes h1 k = nodes h k" using u(2) by (simp_all add: cloned_def grown_def)
  obtain mu where mu: "nodes h1 (root u) = Some mu" "t_parent mu = None" "t_content mu \<noteq> None" using u(2) by (auto simp: cloned_def)
  have old: "nodes h1 k = nodes h k" if "k \<in> node_ids (NT a c us)" for k using that Cons.prems(7) u1(6) by auto
  have ta: "tree (nodes h1) (NT a c us)" by (rule tree_same [OF Cons.prems(5) old Cons.prems(6)])
  have disj: "node_ids (NT a c us) \<inter> node_ids u = {}" using Cons.prems(7) u1(3) by fastforce
  have ap: "apart (NT a c (us @ [u]))" using Cons.prems(6) u1(2) disj by (auto simp: sorted_wrt_append)
  obtain h2 where h2: "LinkEndChild a (root u) h1 = Some (Some (root u), h2)" "tree (nodes h2) (NT a c (us @ [u]))" "next_node h2 = next_node h1"
    "\<forall>k. k \<notin> insert a (set (map root (us @ [u]))) \<longrightarrow> nodes h2 k = nodes h1 k"
    "\<exists>n. nodes h1 a = Some n \<and> nodes h2 a = Some (n\<lparr>t_first := hd_opt (map root (us @ [u])) None, t_last := last_opt (map root (us @ [u])) None\<rparr>)"
    using link_tree [OF ta u1(1) ap mu] by blast
  have ids2: "node_ids (NT a c (us @ [u])) \<subseteq> {b ..< next_node h2}"
  proof -
    have "b \<le> next_node h" using Cons.prems(7) by auto
    then show ?thesis using Cons.prems(7) u1(3,5) h2(3) by fastforce
  qed
  have below: "nodes h2 k = nodes h k" if "k < b" for k
  proof -
    have "k \<notin> node_ids (NT a c (us @ [u]))" using ids2 that by fastforce
    then have "k \<notin> insert a (set (map root (us @ [u])))" using root_in by auto
    moreover have "k < next_node h" using that Cons.prems(7) by auto
    ultimately show ?thesis using h2(4) u1(6) by simp
  qed
  have tidy2: "tidy_heap h2" unfolding tidy_heap_def
  proof (intro allI impI)
    fix k
    assume "next_node h2 \<le> k"
    then have "k \<notin> node_ids (NT a c (us @ [u]))" "nodes h1 k = None" using ids2 u1(4) h2(3) by (auto simp: tidy_heap_def)
    moreover from this have "k \<notin> insert a (set (map root (us @ [u])))" using root_in by auto
    ultimately show "nodes h2 k = None" using h2(4) by simp
  qed
  have rest: "nodes h2 k = nodes h k" if "s \<in> set (t # ts)" "k \<in> node_ids s" for s k using that Cons.prems(9) below by blast
  have m1: "nodes h1 a = Some m" using old [of a] Cons.prems(10) by simp
  have "\<exists>vs h'. clone_task (Inr (a, hd_opt (map root ts) None)) h2 = Some (a, h') \<and> tree (nodes h') (NT a c ((us @ [u]) @ vs)) \<and>
    apart (NT a c ((us @ [u]) @ vs)) \<and> node_ids (NT a c ((us @ [u]) @ vs)) \<subseteq> {b ..< next_node h'} \<and> map shape_of vs = map copy_shape ts \<and> grown b h2 h' \<and>
    (\<exists>m. nodes h' a = Some m \<and> t_parent m = None)"
  proof (rule Cons.IH [of h2 "Some (root t)" "us @ [u]"])
    show "list_all (tree (nodes h2)) ts" unfolding list_all_iff
    proof
      fix s
      assume s: "s \<in> set ts"
      show "tree (nodes h2) s"
        by (rule tree_same [of "nodes h"]) (use Cons.prems(2,3) s rest in \<open>auto simp: list_all_iff\<close>)
    qed
    show "seg (nodes h2) p (Some (root t)) (map root ts) None"
      using n(3) by (rule seg_cong) (use rest root_in in force)
    show "nodes h2 a = Some (m\<lparr>t_first := hd_opt (map root (us @ [u])) None, t_last := last_opt (map root (us @ [u])) None\<rparr>)" using h2(5) m1 by simp
    show "t_parent (m\<lparr>t_first := hd_opt (map root (us @ [u])) None, t_last := last_opt (map root (us @ [u])) None\<rparr>) = None" using Cons.prems(11) by simp
  qed (use Cons.prems h2(2) ap ids2 tidy2 in simp_all)
  then obtain vs h' where r: "clone_task (Inr (a, hd_opt (map root ts) None)) h2 = Some (a, h')" "tree (nodes h') (NT a c ((us @ [u]) @ vs))"
    "apart (NT a c ((us @ [u]) @ vs))" "node_ids (NT a c ((us @ [u]) @ vs)) \<subseteq> {b ..< next_node h'}" "map shape_of vs = map copy_shape ts" "grown b h2 h'"
    "\<exists>m. nodes h' a = Some m \<and> t_parent m = None" by blast
  have "nodes h2 (root t) = Some n" using rest [of t "root t"] root_in [of t] n(1) by simp
  then have "clone_task (Inr (a, hd_opt (map root (t # ts)) None)) h = Some (a, h')"
    using u(1) h2(1) n(2) r(1) by (subst clone_task.simps) simp
  moreover have "grown b h h'" using r(6) below u1(5) h2(3) by (auto simp: grown_def)
  ultimately show ?case using r u(3) by (intro exI [of _ "u # vs"] exI [of _ h']) simp
qed

lemma clone_tree:
  "tree (nodes h) t \<Longrightarrow> apart t \<Longrightarrow> copyable_tree t \<Longrightarrow> tidy_heap h \<Longrightarrow>
    \<exists>u h'. clone_task (Inl (root t)) h = Some (root u, h') \<and> cloned h u h' \<and> shape_of u = copy_shape t"
proof (induction t arbitrary: h)
  case (NT i c ts)
  obtain n where n: "nodes h i = Some n" "t_content n = c" "t_first n = hd_opt (map root ts) None" using NT.prems(1) by auto
  have cc: "copy_content c = Some (copied c)" "copied c \<noteq> None" using NT.prems(3) copy_content_copied copied_some by auto
  let ?a = "next_node h"
  let ?m = "\<lparr>t_parent = None, t_first = None, t_last = None, t_prev = None, t_next = None, t_content = copied c, t_error = t_error n\<rparr>"
  let ?h1 = "h\<lparr>nodes := (nodes h)(?a \<mapsto> ?m), next_node := ?a + 1\<rparr>"
  have tidy1: "tidy_heap ?h1" using NT.prems(4) by (simp add: tidy_heap_def)
  have t1: "tree (nodes ?h1) (NT ?a (copied c) [])" by simp
  have below: "node_ids s \<subseteq> {..< ?a}" if "s \<in> set ts" for s
    using tree_ids_below [OF NT.prems(1,4)] that by auto
  show ?case
  proof (cases "copies_children c")
    case False
    then have "clone_task (Inl i) h = Some (?a, ?h1)" using n cc(1) by (subst clone_task.simps) (simp add: new_node_def)
    moreover have "cloned h (NT ?a (copied c) []) ?h1" using tidy1 cc(2) by (simp add: cloned_def grown_def)
    ultimately show ?thesis using False by (intro exI [of _ "NT ?a (copied c) []"] exI [of _ ?h1]) simp
  next
    case True
    have old: "nodes ?h1 k = nodes h k" if "k \<in> node_ids s" "s \<in> set ts" for k s using below [OF that(2)] that(1) by auto
    have "\<exists>vs h'. clone_task (Inr (?a, hd_opt (map root ts) None)) ?h1 = Some (?a, h') \<and> tree (nodes h') (NT ?a (copied c) ([] @ vs)) \<and>
      apart (NT ?a (copied c) ([] @ vs)) \<and> node_ids (NT ?a (copied c) ([] @ vs)) \<subseteq> {?a ..< next_node h'} \<and> map shape_of vs = map copy_shape ts \<and>
      grown ?a ?h1 h' \<and> (\<exists>m. nodes h' ?a = Some m \<and> t_parent m = None)"
    proof (rule clone_children [where p = i and pr = None and m = ?m])
      show "\<exists>u h'. clone_task (Inl (root t)) k = Some (root u, h') \<and> cloned k u h' \<and> shape_of u = copy_shape t"
        if "t \<in> set ts" "tree (nodes k) t" "tidy_heap k" for t k
        using NT.IH that NT.prems(2,3) by (auto simp: list_all_iff)
      show "list_all (tree (nodes ?h1)) ts" unfolding list_all_iff
      proof
        fix s
        assume s: "s \<in> set ts"
        show "tree (nodes ?h1) s"
        proof (rule tree_same)
          show "tree (nodes h) s" "apart s" using NT.prems(1,2) s by (auto simp: list_all_iff)
        qed (rule old [OF _ s])
      qed
      have "seg (nodes h) i None (map root ts) None" using NT.prems(1) by simp
      then show "seg (nodes ?h1) i None (map root ts) None"
      proof (rule seg_cong)
        fix k
        assume "k \<in> set (map root ts)"
        then obtain s where "s \<in> set ts" "k \<in> node_ids s" using root_in by auto
        then show "nodes ?h1 k = nodes h k" by (intro old)
      qed
    qed (use NT.prems tidy1 t1 below in \<open>auto simp: list_all_iff\<close>)
    then obtain vs h' where r: "clone_task (Inr (?a, hd_opt (map root ts) None)) ?h1 = Some (?a, h')" "tree (nodes h') (NT ?a (copied c) vs)"
      "apart (NT ?a (copied c) vs)" "node_ids (NT ?a (copied c) vs) \<subseteq> {?a ..< next_node h'}" "map shape_of vs = map copy_shape ts"
      "grown ?a ?h1 h'" "\<exists>m. nodes h' ?a = Some m \<and> t_parent m = None" by auto
    have "clone_task (Inl i) h = Some (?a, h')" using n cc(1) True r(1) by (subst clone_task.simps) (simp add: new_node_def)
    moreover have "grown ?a h h'" using r(6) by (auto simp: grown_def)
    then have "cloned h (NT ?a (copied c) vs) h'" using r cc(2) by (auto simp: cloned_def)
    ultimately show ?thesis using True r(5) by (intro exI [of _ "NT ?a (copied c) vs"] exI [of _ h']) simp
  qed
qed

section \<open>Operations on the children of a node\<close>

definition outer :: "tnode \<Rightarrow> nat option \<times> nat option \<times> nat option \<times> bool" where
  "outer n = (t_parent n, t_prev n, t_next n, t_error n)"

definition edited :: "nheap \<Rightarrow> ntree \<Rightarrow> nheap \<Rightarrow> ntree \<Rightarrow> bool" where
  \<comment> \<open>one tree became another, in the same place, and the other nodes that existed are as before\<close>
  "edited h t h' t' \<longleftrightarrow> tree (nodes h') t' \<and> apart t' \<and> tidy_heap h' \<and> root t' = root t \<and>
     map_option outer (nodes h' (root t)) = map_option outer (nodes h (root t)) \<and>
     (\<forall>k. k < next_node h \<and> k \<notin> node_ids t \<longrightarrow> nodes h' k = nodes h k) \<and> next_node h \<le> next_node h' \<and>
     node_ids t' \<subseteq> node_ids t \<union> {next_node h ..< next_node h'}"

lemma copyable_some: "copyable c \<Longrightarrow> c \<noteq> None"
  by (cases c) (auto simp: copyable_def)

lemma prepared:
  assumes "tree (nodes h) N" and "apart N" and "tidy_heap h" and "tree (nodes h) u" and "apart u" and "copyable_tree u"
  obtains t h1 m a where "clone_task (Inl (root u)) h = Some (root t, h1)" and "cloned h t h1" and "shape_of t = copy_shape u"
    and "tree (nodes h1) N" and "tree (nodes h1) t" and "apart t" and "node_ids N \<inter> node_ids t = {}" and "nodes h1 (root t) = Some m"
    and "\<forall>k \<in> node_ids N. nodes h1 k = nodes h k" and "nodes h (root u) = Some a" and "t_content a \<noteq> None"
    and "t_parent m = None" and "t_content m \<noteq> None"
proof -
  obtain t h1 where t: "clone_task (Inl (root u)) h = Some (root t, h1)" "cloned h t h1" "shape_of t = copy_shape u"
    using clone_tree [OF assms(4-6,3)] by blast
  have t1: "tree (nodes h1) t" "apart t" "node_ids t \<subseteq> {next_node h ..< next_node h1}" "\<forall>k < next_node h. nodes h1 k = nodes h k"
    using t(2) by (simp_all add: cloned_def grown_def)
  have same: "nodes h1 k = nodes h k" if "k \<in> node_ids N" for k using tree_ids_below [OF assms(1,3) that] t1(4) by simp
  have "node_ids N \<inter> node_ids t = {}" using tree_ids_below [OF assms(1,3)] t1(3) by fastforce
  moreover obtain m where "nodes h1 (root t) = Some m" "t_parent m = None" "t_content m \<noteq> None" using t(2) by (auto simp: cloned_def)
  moreover obtain a where "nodes h (root u) = Some a" "t_content a \<noteq> None" using assms(4,6) copyable_some by (cases u) auto
  ultimately show ?thesis using that t t1(1,2) same tree_same [OF assms(1) same assms(2)] by blast
qed

lemma edited_insert:
  assumes "tree (nodes h) (NT i c (xs @ ys))" and "tidy_heap h" and "cloned h t h1" and "apart (NT i c (xs @ t # ys))"
    and "tree (nodes h') (NT i c (xs @ t # ys))" and "next_node h' = next_node h1"
    and "\<And>k. k \<notin> insert i (set (map root (xs @ t # ys))) \<Longrightarrow> nodes h' k = nodes h1 k"
    and "\<exists>n f l. nodes h1 i = Some n \<and> nodes h' i = Some (n\<lparr>t_first := f, t_last := l\<rparr>)"
  shows "edited h (NT i c (xs @ ys)) h' (NT i c (xs @ t # ys))"
proof -
  let ?N = "NT i c (xs @ ys)" and ?N' = "NT i c (xs @ t # ys)"
  have t1: "node_ids t \<subseteq> {next_node h ..< next_node h1}" "tidy_heap h1" "next_node h \<le> next_node h1"
    "\<forall>k < next_node h. nodes h1 k = nodes h k" using assms(3) by (simp_all add: cloned_def grown_def)
  have below: "k < next_node h" if "k \<in> node_ids ?N" for k using tree_ids_below [OF assms(1,2) that] .
  have ids: "node_ids ?N' = node_ids ?N \<union> node_ids t" by auto
  have known: "insert i (set (map root (xs @ t # ys))) \<subseteq> node_ids ?N'" using root_in by auto
  have "tidy_heap h'" unfolding tidy_heap_def
  proof (intro allI impI)
    fix k
    assume k: "next_node h' \<le> k"
    then have "k \<notin> node_ids ?N'" using ids below t1(1,3) assms(6) by fastforce
    then have "nodes h' k = nodes h1 k" using known by (intro assms(7)) blast
    then show "nodes h' k = None" using t1(2) k assms(6) by (simp add: tidy_heap_def)
  qed
  moreover have "nodes h' k = nodes h k" if "k < next_node h" "k \<notin> node_ids ?N" for k
  proof -
    have "k \<notin> node_ids ?N'" using that ids t1(1) by fastforce
    then have "nodes h' k = nodes h1 k" using known by (intro assms(7)) blast
    then show ?thesis using t1(4) that by simp
  qed
  moreover have "nodes h1 i = nodes h i" using t1(4) below [of i] by simp
  then have "map_option outer (nodes h' i) = map_option outer (nodes h i)" using assms(8) by (auto simp: outer_def)
  ultimately show ?thesis using assms(4-6) ids t1(1,3) by (auto simp: edited_def)
qed

lemma InsertEndChild_tree:
  assumes "tree (nodes h) (NT i c xs)" and "apart (NT i c xs)" and "tidy_heap h" and "tree (nodes h) u" and "apart u" and "copyable_tree u"
  shows "\<exists>t h'. InsertEndChild i (root u) h = Some (Some (root t), h') \<and> edited h (NT i c xs) h' (NT i c (xs @ [t])) \<and> shape_of t = copy_shape u"
proof -
  obtain t h1 m a where t: "clone_task (Inl (root u)) h = Some (root t, h1)" "cloned h t h1" "shape_of t = copy_shape u"
    and t1: "tree (nodes h1) (NT i c xs)" "tree (nodes h1) t" "apart t" "node_ids (NT i c xs) \<inter> node_ids t = {}"
    and m: "nodes h1 (root t) = Some m" "t_parent m = None" "t_content m \<noteq> None" and a: "nodes h (root u) = Some a" "t_content a \<noteq> None"
    by (rule prepared [OF assms])
  have ap: "apart (NT i c (xs @ [t]))" using assms(2) t1(3,4) by (auto simp: sorted_wrt_append)
  obtain h' where h': "LinkEndChild i (root t) h1 = Some (Some (root t), h')" "tree (nodes h') (NT i c (xs @ [t]))" "next_node h' = next_node h1"
    "\<forall>k. k \<notin> insert i (set (map root (xs @ [t]))) \<longrightarrow> nodes h' k = nodes h1 k"
    "\<exists>n. nodes h1 i = Some n \<and> nodes h' i = Some (n\<lparr>t_first := hd_opt (map root (xs @ [t])) None, t_last := last_opt (map root (xs @ [t])) None\<rparr>)"
    using link_tree [OF t1(1,2) ap m] by blast
  have "InsertEndChild i (root u) h = Some (Some (root t), h')" using a t(1) h'(1) by (simp add: InsertEndChild_def)
  moreover have "edited h (NT i c (xs @ [])) h' (NT i c (xs @ t # []))"
    by (rule edited_insert [OF _ assms(3) t(2) ap h'(2,3)]) (use assms(1) h'(4,5) in auto)
  ultimately show ?thesis using t(3) by auto
qed


lemma apart_insert:
  assumes "apart (NT i c (xs @ ys))" and "apart t" and "node_ids (NT i c (xs @ ys)) \<inter> node_ids t = {}"
  shows "apart (NT i c (xs @ t # ys))"
  using assms by (auto simp: sorted_wrt_append)

lemma child_facts:
  assumes "tree f (NT i c (xs @ b # ys))"
  shows "\<exists>n. f (root b) = Some n \<and> t_parent n = Some i \<and> t_prev n = last_opt (map root xs) None \<and> t_next n = hd_opt (map root ys) None"
    and "xs = [] \<Longrightarrow> \<exists>n. f i = Some n \<and> t_first n = Some (root b)" and "ys = [] \<Longrightarrow> \<exists>n. f i = Some n \<and> t_last n = Some (root b)"
    and "last_opt (map root xs) None = Some p \<Longrightarrow> f p \<noteq> None" and "hd_opt (map root ys) None = Some q \<Longrightarrow> f q \<noteq> None"
proof -
  have s: "seg f i None (map root xs) (Some (root b))" "seg f i (last_opt (map root xs) None) (root b # map root ys) None"
    using assms by (simp_all add: seg_append)
  show "\<exists>n. f (root b) = Some n \<and> t_parent n = Some i \<and> t_prev n = last_opt (map root xs) None \<and> t_next n = hd_opt (map root ys) None"
    using s(2) by simp
  show "xs = [] \<Longrightarrow> \<exists>n. f i = Some n \<and> t_first n = Some (root b)" and "ys = [] \<Longrightarrow> \<exists>n. f i = Some n \<and> t_last n = Some (root b)" using assms by auto
  show "f p \<noteq> None" if "last_opt (map root xs) None = Some p" using seg_elem [OF s(1) last_opt_set [OF that]] by blast
  show "f q \<noteq> None" if "hd_opt (map root ys) None = Some q"
  proof -
    have "q \<in> set (root b # map root ys)" using hd_opt_set [OF that] by simp
    then show ?thesis using seg_elem [OF s(2)] by blast
  qed
qed

lemma around:
  \<comment> \<open>the addresses that an insertion or a removal touches differ\<close>
  assumes "apart (NT i c (xs @ t # ys))"
  shows "root t \<noteq> i" and "last_opt (map root xs) None = Some p \<Longrightarrow> p \<noteq> i \<and> p \<noteq> root t" and "hd_opt (map root ys) None = Some q \<Longrightarrow> q \<noteq> i \<and> q \<noteq> root t"
    and "last_opt (map root xs) None = Some p \<Longrightarrow> hd_opt (map root ys) None = Some q \<Longrightarrow> p \<noteq> q"
proof -
  have d: "distinct (map root xs @ root t # map root ys)" "i \<notin> set (map root xs @ root t # map root ys)"
    using apart_roots [OF assms] apart_notin [OF assms] by simp_all
  show "root t \<noteq> i" using d(2) by auto
  have "p \<in> set (map root xs)" if "last_opt (map root xs) None = Some p" for p by (rule last_opt_set [OF that])
  moreover have "q \<in> set (map root ys)" if "hd_opt (map root ys) None = Some q" for q by (rule hd_opt_set [OF that])
  ultimately show "last_opt (map root xs) None = Some p \<Longrightarrow> p \<noteq> i \<and> p \<noteq> root t"
    and "hd_opt (map root ys) None = Some q \<Longrightarrow> q \<noteq> i \<and> q \<noteq> root t"
    and "last_opt (map root xs) None = Some p \<Longrightarrow> hd_opt (map root ys) None = Some q \<Longrightarrow> p \<noteq> q"
    using d unfolding distinct_append distinct.simps set_append list.set by blast+
qed

lemma InsertBeforeChild_tree:
  assumes "tree (nodes h) (NT i c (xs @ b # ys))" and "apart (NT i c (xs @ b # ys))" and "tidy_heap h" and "tree (nodes h) u" and "apart u" and "copyable_tree u"
  shows "\<exists>t h'. InsertBeforeChild i (Some (root b)) (root u) h = Some (Some (root t), h') \<and>
    edited h (NT i c (xs @ b # ys)) h' (NT i c (xs @ t # b # ys)) \<and> shape_of t = copy_shape u"
proof -
  let ?N = "NT i c (xs @ b # ys)" and ?X = "map root xs"
  obtain t h1 m a where t: "clone_task (Inl (root u)) h = Some (root t, h1)" "cloned h t h1" "shape_of t = copy_shape u"
    and t1: "tree (nodes h1) ?N" "tree (nodes h1) t" "apart t" "node_ids ?N \<inter> node_ids t = {}"
    and m: "nodes h1 (root t) = Some m" and a: "nodes h (root u) = Some a" "t_content a \<noteq> None"
    by (rule prepared [OF assms])
  have ap: "apart (NT i c (xs @ t # b # ys))" by (rule apart_insert [OF assms(2) t1(3,4)])
  define g where "g = bridge i (hd_opt (map root (b # ys)) None) (Some (root t)) (last_opt ?X None) (Some (root t))
    ((nodes h1)(root t \<mapsto> m\<lparr>t_parent := Some i, t_prev := last_opt ?X None, t_next := hd_opt (map root (b # ys)) None\<rparr>))"
  obtain n0 where n0: "nodes h (root b) = Some n0" "t_parent n0 = Some i" using child_facts(1) [OF assms(1)] by blast
  obtain n1 where n1: "nodes h1 (root b) = Some n1" "t_prev n1 = last_opt ?X None" using child_facts(1) [OF t1(1)] by blast
  have bt: "root b \<noteq> root t" "root b \<noteq> i" using around(1,3) [OF ap] by auto
  have step: "InsertBeforeChild i (Some (root b)) (root u) h = Some (Some (root t), h1\<lparr>nodes := g\<rparr>)"
  proof (cases "last_opt ?X None")
    case None
    then have "xs = []" by (simp add: last_opt_def split: if_splits)
    then obtain ni where "nodes h1 i = Some ni" "t_first ni = Some (root b)" using child_facts(2) [OF t1(1)] by blast
    then show ?thesis using None n0 n1 a t(1) m bt around(1) [OF ap]
      by (auto simp: InsertBeforeChild_def upd_def g_def bridge_def modify_def fun_eq_iff)
  next
    case (Some p)
    have p: "p \<noteq> i" "p \<noteq> root t" "p \<noteq> root b" using around(2,4) [OF ap] Some by auto
    obtain k where "nodes h1 p = Some k" using child_facts(4) [OF t1(1) Some] by blast
    then show ?thesis using Some p n0 n1 a t(1) m bt
      by (auto simp: InsertBeforeChild_def upd_def g_def bridge_def modify_def fun_eq_iff)
  qed
  note ins = insert_bridge [OF t1(1,2) ap m g_def]
  have "edited h ?N (h1\<lparr>nodes := g\<rparr>) (NT i c (xs @ t # b # ys))"
    by (rule edited_insert [OF assms(1,3) t(2) ap]) (use ins in auto)
  then show ?thesis using step t(3) by blast
qed

lemma InsertAfterChild_tree:
  assumes "tree (nodes h) (NT i c (xs @ b # ys))" and "apart (NT i c (xs @ b # ys))" and "tidy_heap h" and "tree (nodes h) u" and "apart u" and "copyable_tree u"
  shows "\<exists>t h'. InsertAfterChild i (Some (root b)) (root u) h = Some (Some (root t), h') \<and>
    edited h (NT i c (xs @ b # ys)) h' (NT i c (xs @ b # t # ys)) \<and> shape_of t = copy_shape u"
proof -
  let ?N = "NT i c ((xs @ [b]) @ ys)" and ?Y = "map root ys"
  have N: "?N = NT i c (xs @ b # ys)" by simp
  obtain t h1 m a where t: "clone_task (Inl (root u)) h = Some (root t, h1)" "cloned h t h1" "shape_of t = copy_shape u"
    and t1: "tree (nodes h1) ?N" "tree (nodes h1) t" "apart t" "node_ids ?N \<inter> node_ids t = {}"
    and m: "nodes h1 (root t) = Some m" and a: "nodes h (root u) = Some a" "t_content a \<noteq> None"
    using prepared [OF assms] unfolding N by metis
  have ap: "apart (NT i c ((xs @ [b]) @ t # ys))" by (rule apart_insert [OF assms(2) [folded N] t1(3,4)])
  define g where "g = bridge i (hd_opt ?Y None) (Some (root t)) (last_opt (map root (xs @ [b])) None) (Some (root t))
    ((nodes h1)(root t \<mapsto> m\<lparr>t_parent := Some i, t_prev := last_opt (map root (xs @ [b])) None, t_next := hd_opt ?Y None\<rparr>))"
  obtain n0 where n0: "nodes h (root b) = Some n0" "t_parent n0 = Some i" using child_facts(1) [OF assms(1)] by blast
  obtain n1 where n1: "nodes h1 (root b) = Some n1" "t_next n1 = hd_opt ?Y None" using child_facts(1) [of "nodes h1" i c xs b ys] t1(1) by auto
  have bt: "root b \<noteq> root t" "root b \<noteq> i" using around(1,2) [OF ap] by auto
  have step: "InsertAfterChild i (Some (root b)) (root u) h = Some (Some (root t), h1\<lparr>nodes := g\<rparr>)"
  proof (cases "hd_opt ?Y None")
    case None
    then have "ys = []" by (cases ys) simp_all
    then obtain ni where "nodes h1 i = Some ni" "t_last ni = Some (root b)" using child_facts(3) [of "nodes h1" i c xs b ys] t1(1) by auto
    then show ?thesis using None n0 n1 a t(1) m bt around(1) [OF ap]
      by (auto simp: InsertAfterChild_def upd_def g_def bridge_def modify_def fun_eq_iff)
  next
    case (Some p)
    have p: "p \<noteq> i" "p \<noteq> root t" "p \<noteq> root b" using around(3,4) [OF ap] Some by auto
    obtain k where "nodes h1 p = Some k" using child_facts(5) [of "nodes h1" i c xs b ys p] t1(1) Some by auto
    then show ?thesis using Some p n0 n1 a t(1) m bt
      by (auto simp: InsertAfterChild_def upd_def g_def bridge_def modify_def fun_eq_iff)
  qed
  note ins = insert_bridge [OF t1(1,2) ap m g_def]
  have "edited h ?N (h1\<lparr>nodes := g\<rparr>) (NT i c ((xs @ [b]) @ t # ys))"
    by (rule edited_insert [OF _ assms(3) t(2) ap]) (use ins assms(1) in auto)
  then show ?thesis using step t(3) by auto
qed

lemma link_neighbours_bridge:
  assumes "nodes h i \<noteq> None" and "\<And>q. nxt = Some q \<Longrightarrow> nodes h q \<noteq> None" and "\<And>p. prv = Some p \<Longrightarrow> nodes h p \<noteq> None"
  shows "link_neighbours i nxt l prv r h = Some (h\<lparr>nodes := bridge i nxt l prv r (nodes h)\<rparr>)"
  using assms by (cases nxt; cases prv) (auto simp: link_neighbours_def bridge_def upd_def modify_def)

lemma bridge_frame: "k \<noteq> i \<Longrightarrow> nxt \<noteq> Some k \<Longrightarrow> prv \<noteq> Some k \<Longrightarrow> bridge i nxt l prv r f k = f k"
  by (auto simp: bridge_def modify_apply split: option.split)

lemma bridge_outer: "nxt \<noteq> Some i \<Longrightarrow> prv \<noteq> Some i \<Longrightarrow> map_option outer (bridge i nxt l prv r f i) = map_option outer (f i)"
  by (cases "f i") (auto simp: bridge_def modify_apply outer_def split: option.split)

lemma gap_ends:
  assumes "k \<notin> node_ids (NT i c (xs @ b # ys))"
  shows "k \<noteq> i" and "hd_opt (map root ys) None \<noteq> Some k" and "last_opt (map root xs) None \<noteq> Some k"
proof -
  have k: "k \<notin> set (map root xs)" "k \<notin> set (map root ys)" "k \<noteq> i" using assms root_in by auto
  then show "k \<noteq> i" "hd_opt (map root ys) None \<noteq> Some k" "last_opt (map root xs) None \<noteq> Some k" using hd_opt_set last_opt_set by fast+
qed

lemma apart_remove: "apart (NT i c (xs @ b # ys)) \<Longrightarrow> apart (NT i c (xs @ ys)) \<and> node_ids (NT i c (xs @ ys)) \<inter> node_ids b = {}"
  by (auto simp: sorted_wrt_append)

lemma RemoveChild_tree:
  assumes "tree (nodes h) (NT i c (xs @ b # ys))" and "apart (NT i c (xs @ b # ys))" and "tidy_heap h"
  shows "\<exists>h'. RemoveChild i (Some (root b)) h = Some (True, h') \<and> edited h (NT i c (xs @ b # ys)) h' (NT i c (xs @ ys)) \<and>
    (\<forall>k \<in> node_ids b. nodes h' k = None)"
proof -
  let ?N = "NT i c (xs @ b # ys)" and ?f = "nodes h"
  define g where "g = bridge i (hd_opt (map root ys) None) (last_opt (map root xs) None) (last_opt (map root xs) None) (hd_opt (map root ys) None) ?f"
  note rem = remove_tree [OF assms(1,2) g_def]
  obtain n where n: "?f (root b) = Some n" "t_parent n = Some i" "t_prev n = last_opt (map root xs) None" "t_next n = hd_opt (map root ys) None"
    using child_facts(1) [OF assms(1)] by blast
  have "?f i \<noteq> None" using assms(1) by auto
  then have ln: "link_neighbours i (t_next n) (t_prev n) (t_prev n) (t_next n) h = Some (h\<lparr>nodes := g\<rparr>)"
    using link_neighbours_bridge child_facts(4,5) [OF assms(1)] unfolding n g_def by blast
  have "apart b" using assms(2) by simp
  then have del: "delete_task (Inl (root b)) (h\<lparr>nodes := g\<rparr>) = Some (without (node_ids b) (h\<lparr>nodes := g\<rparr>))"
    using rem(2) by (intro delete_tree) simp_all
  let ?h' = "without (node_ids b) (h\<lparr>nodes := g\<rparr>)"
  have step: "RemoveChild i (Some (root b)) h = Some (True, ?h')" using n(1,2) ln del by (simp add: RemoveChild_def)
  note ap = apart_remove [OF assms(2)]
  have "tree (nodes ?h') (NT i c (xs @ ys))" by (rule tree_same [OF rem(1)]) (use ap in auto)
  moreover have frame: "g k = ?f k" if "k \<notin> node_ids ?N" for k unfolding g_def by (rule bridge_frame) (use gap_ends [OF that] in auto)
  have "tidy_heap ?h'" unfolding tidy_heap_def
  proof (intro allI impI)
    fix k
    assume k: "next_node ?h' \<le> k"
    then have "k \<notin> node_ids ?N" using tree_ids_below [OF assms(1,3)] by fastforce
    then show "nodes ?h' k = None" using frame assms(3) k by (simp add: tidy_heap_def)
  qed
  moreover have "map_option outer (nodes ?h' i) = map_option outer (?f i)"
  proof -
    have "i \<notin> node_ids b" using ap by auto
    moreover have "map_option outer (g i) = map_option outer (?f i)" using rem(4) by (auto simp: outer_def)
    ultimately show ?thesis by simp
  qed
  moreover have "node_ids (NT i c (xs @ ys)) \<subseteq> node_ids ?N" by auto
  ultimately have "edited h ?N ?h' (NT i c (xs @ ys))" using ap frame by (auto simp: edited_def)
  then show ?thesis using step by (intro exI [of _ ?h']) simp
qed

lemma ReplaceChild_tree:
  assumes "tree (nodes h) (NT i c (xs @ b # ys))" and "apart (NT i c (xs @ b # ys))" and "tidy_heap h" and "tree (nodes h) u" and "apart u" and "copyable_tree u"
  shows "\<exists>t h'. ReplaceChild i (Some (root b)) (root u) h = Some (Some (root t), h') \<and>
    edited h (NT i c (xs @ b # ys)) h' (NT i c (xs @ t # ys)) \<and> shape_of t = copy_shape u"
proof -
  let ?N = "NT i c (xs @ b # ys)" and ?X = "map root xs" and ?Y = "map root ys"
  obtain t h1 m a where t: "clone_task (Inl (root u)) h = Some (root t, h1)" "cloned h t h1" "shape_of t = copy_shape u"
    and t1: "tree (nodes h1) ?N" "tree (nodes h1) t" "apart t" "node_ids ?N \<inter> node_ids t = {}"
    and m: "nodes h1 (root t) = Some m" and same: "\<forall>k \<in> node_ids ?N. nodes h1 k = nodes h k" and a: "nodes h (root u) = Some a" "t_content a \<noteq> None"
    by (rule prepared [OF assms])
  have c1: "node_ids t \<subseteq> {next_node h ..< next_node h1}" "tidy_heap h1" "next_node h \<le> next_node h1" "\<forall>k < next_node h. nodes h1 k = nodes h k"
    using t(2) by (simp_all add: cloned_def grown_def)
  let ?f = "nodes h1" and ?j = "root t"
  have jN: "?j \<notin> node_ids ?N" using t1(4) root_in by blast
  note ends = gap_ends [OF jN]
  obtain n where n: "?f (root b) = Some n" "t_prev n = last_opt ?X None" "t_next n = hd_opt ?Y None" using child_facts(1) [OF t1(1)] by blast
  obtain n0 where n0: "nodes h (root b) = Some n0" "t_parent n0 = Some i" using child_facts(1) [OF assms(1)] by blast
  define m2 where "m2 = m\<lparr>t_next := hd_opt ?Y None, t_prev := last_opt ?X None\<rparr>"
  define h2 where "h2 = h1\<lparr>nodes := ?f(?j \<mapsto> m2)\<rparr>"
  define B where "B = bridge i (hd_opt ?Y None) (Some ?j) (last_opt ?X None) (Some ?j)"
  have Bj: "B (?f(?j \<mapsto> m2)) k = (if k = ?j then Some m2 else B ?f k)" for k unfolding B_def by (rule bridge_other) (use ends in auto)
  have fi: "?f i \<noteq> None" using t1(1) by auto
  have "link_neighbours i (hd_opt ?Y None) (Some ?j) (last_opt ?X None) (Some ?j) h2 = Some (h2\<lparr>nodes := B (nodes h2)\<rparr>)"
    unfolding B_def by (rule link_neighbours_bridge) (use fi child_facts(4,5) [OF t1(1)] in \<open>auto simp: h2_def\<close>)
  then have ln: "link_neighbours i (t_next n) (Some ?j) (t_prev n) (Some ?j) h2 = Some (h1\<lparr>nodes := B (?f(?j \<mapsto> m2))\<rparr>)"
    unfolding n by (simp add: h2_def)
  let ?h3 = "h1\<lparr>nodes := B (?f(?j \<mapsto> m2))\<rparr>"
  have frame: "B ?f k = ?f k" if "k \<notin> node_ids (NT i c (xs @ b # ys))" for k unfolding B_def by (rule bridge_frame) (use gap_ends [OF that] in auto)
  have rest: "B ?f k = ?f k" if "k \<in> node_ids b" for k
  proof -
    have o: "k \<notin> node_ids (NT i c (xs @ ys))" using apart_remove [OF assms(2)] that by blast
    then have "k \<noteq> i" "k \<notin> set ?X" "k \<notin> set ?Y" using root_in by auto
    then show ?thesis unfolding B_def using hd_opt_set [of ?Y k] last_opt_set [of ?X k] by (intro bridge_frame) auto
  qed
  have bj: "?j \<notin> node_ids b" using jN by auto
  have "tree (nodes ?h3) b"
    by (rule tree_same [of ?f]) (use t1(1) assms(2) rest bj Bj in auto)
  then have del: "delete_task (Inl (root b)) ?h3 = Some (without (node_ids b) ?h3)" using assms(2) by (intro delete_tree) simp_all
  define h' where "h' = (without (node_ids b) ?h3)\<lparr>nodes := (nodes (without (node_ids b) ?h3))(?j \<mapsto> m2\<lparr>t_parent := Some i\<rparr>)\<rparr>"
  have fin: "nodes h' k = (if k = ?j then Some (m2\<lparr>t_parent := Some i\<rparr>) else if k \<in> node_ids b then None else B ?f k)" for k
    using bj Bj by (simp add: h'_def)
  have step: "ReplaceChild i (Some (root b)) (root u) h = Some (Some ?j, h')"
  proof -
    have "upd ?j (\<lambda>k. k\<lparr>t_next := t_next n, t_prev := t_prev n\<rparr>) h1 = Some h2" using m n by (simp add: upd_def h2_def m2_def)
    moreover have "upd ?j (\<lambda>k. k\<lparr>t_parent := Some i\<rparr>) (without (node_ids b) ?h3) = Some h'" using bj Bj by (simp add: upd_def h'_def)
    ultimately show ?thesis using n0 a t(1) n(1) ln del by (simp add: ReplaceChild_def)
  qed
  have ap: "apart (NT i c (xs @ t # ys))"
    by (rule apart_insert) (use apart_remove [OF assms(2)] t1(3,4) in auto)
  obtain ni where ni: "?f i = Some ni" "t_content ni = c" "t_first ni = hd_opt (map root (xs @ b # ys)) None" "t_last ni = last_opt (map root (xs @ b # ys)) None"
    using t1(1) by auto
  have "tree (nodes h') (NT i c (xs @ t # ys))"
  proof (rule insert_tree [where f = ?f and n = ni and nx = "Some (root b)" and pv = "Some (root b)"])
    show "?f i = Some ni" "t_content ni = c" by (rule ni)+
    show "apart (NT i c (xs @ t # ys))" by (rule ap)
    show "seg ?f i None ?X (Some (root b))" "seg ?f i (Some (root b)) ?Y None" using t1(1) by (simp_all add: seg_append)
    show "xs \<noteq> [] \<Longrightarrow> t_first ni = Some (hd ?X)" using ni(3) by (cases xs) simp_all
    show "ys \<noteq> [] \<Longrightarrow> t_last ni = Some (last ?Y)" using ni(4) by (simp add: last_opt_def)
    show "list_all (tree ?f) (xs @ t # ys)" using t1(1,2) by simp
    show "nodes h' ?j = Some (m2\<lparr>t_parent := Some i\<rparr>)" using fin by simp
    show "inner_same ?f (nodes h') ?j" using fin m by (simp add: inner_same_def m2_def)
    fix k
    assume k: "k \<in> node_ids (NT i c (xs @ t # ys))" "k \<noteq> ?j"
    have "k \<notin> node_ids b" using k(1) apart_remove [OF assms(2)] t1(4) by auto
    then show "nodes h' k = bridge i (hd_opt ?Y None) (Some ?j) (last_opt ?X None) (Some ?j) ?f k" using fin k(2) by (simp add: B_def)
  qed (simp_all add: m2_def)
  moreover have "tidy_heap h'" unfolding tidy_heap_def
  proof (intro allI impI)
    fix k
    assume "next_node h' \<le> k"
    then have k: "next_node h1 \<le> k" by (simp add: h'_def)
    then have "k \<noteq> ?j" using c1(1) root_in [of t] by fastforce
    moreover have "k \<notin> node_ids ?N" using tree_ids_below [OF t1(1) c1(2)] k by fastforce
    ultimately show "nodes h' k = None" using fin frame c1(2) k by (simp add: tidy_heap_def)
  qed
  moreover have "map_option outer (nodes h' i) = map_option outer (nodes h i)"
  proof -
    have "i \<noteq> ?j" "i \<notin> node_ids b" using ends apart_remove [OF assms(2)] by auto
    moreover have "map_option outer (B ?f i) = map_option outer (?f i)" unfolding B_def
      by (rule bridge_outer) (use apart_notin [OF assms(2)] hd_opt_set [of ?Y i] last_opt_set [of ?X i] in auto)
    ultimately show ?thesis using fin same by simp
  qed
  moreover have "nodes h' k = nodes h k" if "k < next_node h" "k \<notin> node_ids ?N" for k
  proof -
    have "k \<noteq> ?j" using c1(1) root_in [of t] that(1) by fastforce
    moreover have "k \<notin> node_ids b" using that(2) by auto
    ultimately show ?thesis using fin frame [OF that(2)] c1(4) that(1) by simp
  qed
  moreover have "node_ids (NT i c (xs @ t # ys)) \<subseteq> node_ids ?N \<union> {next_node h ..< next_node h1}" using c1(1) by auto
  moreover have "next_node h' = next_node h1" by (simp add: h'_def)
  ultimately have "edited h ?N h' (NT i c (xs @ t # ys))" using ap c1(3) by (simp add: edited_def)
  then show ?thesis using step t(3) by blast
qed

section \<open>Searches among siblings\<close>

fun nth_opt :: "nat \<Rightarrow> 'a list \<Rightarrow> 'a option" where
  "nth_opt k [] = None"
| "nth_opt 0 (x # xs) = Some x"
| "nth_opt (Suc k) (x # xs) = nth_opt k xs"

lemma nth_opt_nth: "nth_opt k xs = (if k < length xs then Some (xs ! k) else None)"
  by (induction k xs rule: nth_opt.induct) auto

text \<open>What the searches among siblings have in common: they stop at the first node of some kind. The nodes that a loop with such a
  search visits are the children of this kind, in their order.\<close>

locale walker =
  fixes walk_on :: "nheap \<Rightarrow> nat option \<Rightarrow> nat option option"
    and good :: "tnode \<Rightarrow> bool"
  assumes walk_null: "walk_on h None = Some None"
    and walk_node: "nodes h i = Some n \<Longrightarrow> walk_on h (Some i) = (if good n then Some (Some i) else walk_on h (t_next n))"
begin

lemma finds_first:
  "seg (nodes h) p pr (map root ts) None \<Longrightarrow>
    walk_on h (hd_opt (map root ts) None) = Some (map_option root (find (\<lambda>s. good (the (nodes h (root s)))) ts))"
  by (induction ts arbitrary: pr) (auto simp: walk_null walk_node)

lemma visits:
  "seg (nodes h) p pr (map root ts) None \<Longrightarrow>
    Option.bind (walk_on h (hd_opt (map root ts) None)) (child_loop (\<lambda>i h. Option.bind (nodes h i) (\<lambda>n. walk_on h (t_next n))) k h) =
      Some (nth_opt k (map root (filter (\<lambda>s. good (the (nodes h (root s)))) ts)))"
proof (induction ts arbitrary: pr k)
  case Nil
  then show ?case by (simp add: walk_null)
next
  case (Cons s ts)
  then obtain n where n: "nodes h (root s) = Some n" "t_next n = hd_opt (map root ts) None" by auto
  have IH: "Option.bind (walk_on h (t_next n)) (child_loop (\<lambda>i h. Option.bind (nodes h i) (\<lambda>n. walk_on h (t_next n))) k h) =
      Some (nth_opt k (map root (filter (\<lambda>s. good (the (nodes h (root s)))) ts)))" for k
    using Cons.IH [of "Some (root s)" k] Cons.prems n(2) by auto
  show ?case using n IH IH [of "k - 1"] by (cases k) (simp_all add: walk_node [OF n(1)])
qed

end

interpretation any_walk: walker "\<lambda>h p. Some p" "\<lambda>n. True"
  by unfold_locales simp_all

lemma next_child_bind: "next_child = (\<lambda>i h. Option.bind (nodes h i) (\<lambda>n. Some (t_next n)))"
  by (intro ext) (simp add: next_child_def map_conv_bind_option comp_def)

lemma next_binds:
  "NextSibling v = (\<lambda>i h. Option.bind (nodes h i) (\<lambda>n. walk (Has_value v) h (t_next n)))"
  "NextSiblingElement = (\<lambda>i h. Option.bind (nodes h i) (\<lambda>n. walk Is_an_element h (t_next n)))"
  "NextSiblingElement_value v = (\<lambda>i h. Option.bind (nodes h i) (\<lambda>n. Option.bind (walk (Has_value v) h (t_next n)) (element_from v h)))"
  by (intro ext, simp add: NextSibling_def NextSiblingElement_def NextSiblingElement_value_def)+

section \<open>Sequences of operations\<close>

lemma Child_nth:
  assumes "tree (nodes h) (NT i c ts)"
  shows "Child (int k) (Some i) h = Some (if k < length ts then Some (root (ts ! k)) else None)"
  using assms any_walk.visits [of h i None ts k] by (auto simp: Child_def next_child_bind nth_opt_nth)

datatype edit = Add_end nat | Add_before nat nat | Add_after nat nat | Exchange nat nat | Take_out nat

fun edit_call :: "nat list \<Rightarrow> nat \<Rightarrow> edit \<Rightarrow> nheap \<Rightarrow> nheap option" where
  \<comment> \<open>the calls with the child at a position, and one of some other nodes to copy\<close>
  "edit_call ps i (Add_end j) h = map_option snd (InsertEndChild i (ps ! j) h)"
| "edit_call ps i (Add_before k j) h = do { b \<leftarrow> Child (int k) (Some i) h; map_option snd (InsertBeforeChild i b (ps ! j) h) }"
| "edit_call ps i (Add_after k j) h = do { b \<leftarrow> Child (int k) (Some i) h; map_option snd (InsertAfterChild i b (ps ! j) h) }"
| "edit_call ps i (Exchange k j) h = do { b \<leftarrow> Child (int k) (Some i) h; map_option snd (ReplaceChild i b (ps ! j) h) }"
| "edit_call ps i (Take_out k) h = do { b \<leftarrow> Child (int k) (Some i) h; map_option snd (RemoveChild i b h) }"

fun edit_calls :: "nat list \<Rightarrow> nat \<Rightarrow> edit list \<Rightarrow> nheap \<Rightarrow> nheap option" where
  "edit_calls ps i [] h = Some h"
| "edit_calls ps i (e # es) h = do { h \<leftarrow> edit_call ps i e h; edit_calls ps i es h }"

fun edit_value :: "shape list \<Rightarrow> edit \<Rightarrow> shape list \<Rightarrow> shape list" where
  "edit_value us (Add_end j) xs = xs @ [us ! j]"
| "edit_value us (Add_before k j) xs = (if k < length xs then take k xs @ us ! j # drop k xs else xs)"
| "edit_value us (Add_after k j) xs = (if k < length xs then take (k + 1) xs @ us ! j # drop (k + 1) xs else xs)"
| "edit_value us (Exchange k j) xs = (if k < length xs then xs[k := us ! j] else xs)"
| "edit_value us (Take_out k) xs = (if k < length xs then take k xs @ drop (k + 1) xs else xs)"

fun edit_copies :: "edit \<Rightarrow> nat option" where
  "edit_copies (Add_end j) = Some j"
| "edit_copies (Add_before k j) = Some j"
| "edit_copies (Add_after k j) = Some j"
| "edit_copies (Exchange k j) = Some j"
| "edit_copies (Take_out k) = None"

definition proto :: "nheap \<Rightarrow> ntree \<Rightarrow> bool" where
  "proto h u \<longleftrightarrow> tree (nodes h) u \<and> apart u \<and> copyable_tree u"

lemma edited_refl: "tree (nodes h) t \<Longrightarrow> apart t \<Longrightarrow> tidy_heap h \<Longrightarrow> edited h t h t"
  by (simp add: edited_def)

lemma edited_trans:
  assumes "edited h t h1 t1" and "edited h1 t1 h2 t2"
  shows "edited h t h2 t2"
proof -
  have "nodes h2 k = nodes h k" if "k < next_node h" "k \<notin> node_ids t" for k
  proof -
    have "k < next_node h1" "k \<notin> node_ids t1" using that assms(1) by (auto simp: edited_def)
    then show ?thesis using that assms by (simp add: edited_def)
  qed
  moreover have "node_ids t2 \<subseteq> node_ids t \<union> {next_node h ..< next_node h2}"
  proof
    fix k
    assume "k \<in> node_ids t2"
    then have "k \<in> node_ids t1 \<or> next_node h1 \<le> k \<and> k < next_node h2" using assms(2) by (auto simp: edited_def)
    moreover have "next_node h \<le> next_node h1" "next_node h1 \<le> next_node h2" using assms by (simp_all add: edited_def)
    moreover have "k \<in> node_ids t1 \<Longrightarrow> k \<in> node_ids t \<or> next_node h \<le> k \<and> k < next_node h1" using assms(1) by (auto simp: edited_def)
    ultimately show "k \<in> node_ids t \<union> {next_node h ..< next_node h2}" by auto
  qed
  moreover have "next_node h \<le> next_node h2" using assms by (simp add: edited_def)
  ultimately show ?thesis using assms by (simp add: edited_def)
qed

lemma edited_proto:
  assumes "edited h t h' t'" and "tidy_heap h" and "proto h u" and "node_ids u \<inter> node_ids t = {}"
  shows "proto h' u" and "node_ids u \<inter> node_ids t' = {}"
proof -
  have below: "k < next_node h" if "k \<in> node_ids u" for k using tree_ids_below [of h u k] assms(2,3) that by (simp add: proto_def)
  have same: "nodes h' k = nodes h k" if "k \<in> node_ids u" for k using assms(1,4) below [OF that] that by (auto simp: edited_def)
  show "proto h' u" using assms(3) tree_same [of "nodes h" u "nodes h'"] same by (simp add: proto_def)
  show "node_ids u \<inter> node_ids t' = {}" using assms(1,4) below by (fastforce simp: edited_def)
qed

lemma edit_call_tree:
  assumes "tree (nodes h) (NT i c ts)" and "apart (NT i c ts)" and "tidy_heap h" and "\<And>j. edit_copies e = Some j \<Longrightarrow> j < length us"
    and "\<forall>u \<in> set us. proto h u"
  shows "\<exists>h' ts'. edit_call (map root us) i e h = Some h' \<and> edited h (NT i c ts) h' (NT i c ts') \<and>
    map shape_of ts' = edit_value (map copy_shape us) e (map shape_of ts)"
proof -
  have stay: "edited h (NT i c ts) h (NT i c ts)" by (rule edited_refl [OF assms(1-3)])
  have split: "\<exists>A b B. ts = A @ b # B \<and> length A = k \<and> Child (int k) (Some i) h = Some (Some (root b))" if "k < length ts" for k
    using that id_take_nth_drop [OF that] Child_nth [OF assms(1), of k] by (intro exI [of _ "take k ts"] exI [of _ "ts ! k"] exI [of _ "drop (Suc k) ts"]) simp
  have none: "Child (int k) (Some i) h = Some None" if "\<not> k < length ts" for k using that Child_nth [OF assms(1), of k] by simp
  have p: "map root us ! j = root (us ! j)" "map copy_shape us ! j = copy_shape (us ! j)" "tree (nodes h) (us ! j)" "apart (us ! j)" "copyable_tree (us ! j)"
    if "edit_copies e = Some j" for j using assms(4) [OF that] assms(5) by (simp_all add: proto_def)
  show ?thesis
  proof (cases e)
    case (Add_end j)
    then show ?thesis using InsertEndChild_tree [OF assms(1-3) p(3-5), of j] p(1,2) [of j] by fastforce
  next
    case (Add_before k j)
    show ?thesis
    proof (cases "k < length ts")
      case True
      obtain A b B where ts: "ts = A @ b # B" and A: "length A = k" and child: "Child (int k) (Some i) h = Some (Some (root b))" using split [OF True] by blast
      obtain t h' where r: "InsertBeforeChild i (Some (root b)) (root (us ! j)) h = Some (Some (root t), h')"
        "edited h (NT i c (A @ b # B)) h' (NT i c (A @ t # b # B))" "shape_of t = copy_shape (us ! j)"
        using InsertBeforeChild_tree [OF assms(1-3) [unfolded ts] p(3-5) [of j]] Add_before by auto
      have "edit_call (map root us) i e h = Some h'" using Add_before child r(1) p(1) [of j] by simp
      moreover have "map shape_of (A @ t # b # B) = edit_value (map copy_shape us) e (map shape_of ts)" using Add_before A r(3) p(2) [of j] by (simp add: ts list_update_append)
      ultimately show ?thesis using r(2) unfolding ts by blast
    qed (use Add_before none [of k] stay in \<open>auto simp: InsertBeforeChild_def\<close>)
  next
    case (Add_after k j)
    show ?thesis
    proof (cases "k < length ts")
      case True
      obtain A b B where ts: "ts = A @ b # B" and A: "length A = k" and child: "Child (int k) (Some i) h = Some (Some (root b))" using split [OF True] by blast
      obtain t h' where r: "InsertAfterChild i (Some (root b)) (root (us ! j)) h = Some (Some (root t), h')"
        "edited h (NT i c (A @ b # B)) h' (NT i c (A @ b # t # B))" "shape_of t = copy_shape (us ! j)"
        using InsertAfterChild_tree [OF assms(1-3) [unfolded ts] p(3-5) [of j]] Add_after by auto
      have "edit_call (map root us) i e h = Some h'" using Add_after child r(1) p(1) [of j] by simp
      moreover have "map shape_of (A @ b # t # B) = edit_value (map copy_shape us) e (map shape_of ts)" using Add_after A r(3) p(2) [of j] by (simp add: ts list_update_append)
      ultimately show ?thesis using r(2) unfolding ts by blast
    qed (use Add_after none [of k] stay in \<open>auto simp: InsertAfterChild_def\<close>)
  next
    case (Exchange k j)
    show ?thesis
    proof (cases "k < length ts")
      case True
      obtain A b B where ts: "ts = A @ b # B" and A: "length A = k" and child: "Child (int k) (Some i) h = Some (Some (root b))" using split [OF True] by blast
      obtain t h' where r: "ReplaceChild i (Some (root b)) (root (us ! j)) h = Some (Some (root t), h')"
        "edited h (NT i c (A @ b # B)) h' (NT i c (A @ t # B))" "shape_of t = copy_shape (us ! j)"
        using ReplaceChild_tree [OF assms(1-3) [unfolded ts] p(3-5) [of j]] Exchange by auto
      have "edit_call (map root us) i e h = Some h'" using Exchange child r(1) p(1) [of j] by simp
      moreover have "map shape_of (A @ t # B) = edit_value (map copy_shape us) e (map shape_of ts)" using Exchange A r(3) p(2) [of j] by (simp add: ts list_update_append)
      ultimately show ?thesis using r(2) unfolding ts by blast
    qed (use Exchange none [of k] stay in \<open>auto simp: ReplaceChild_def\<close>)
  next
    case (Take_out k)
    show ?thesis
    proof (cases "k < length ts")
      case True
      obtain A b B where ts: "ts = A @ b # B" and A: "length A = k" and child: "Child (int k) (Some i) h = Some (Some (root b))" using split [OF True] by blast
      obtain h' where r: "RemoveChild i (Some (root b)) h = Some (True, h')" "edited h (NT i c (A @ b # B)) h' (NT i c (A @ B))"
        using RemoveChild_tree [OF assms(1-3) [unfolded ts]] by blast
      have "edit_call (map root us) i e h = Some h'" using Take_out child r(1) by simp
      moreover have "map shape_of (A @ B) = edit_value (map copy_shape us) e (map shape_of ts)" using Take_out A by (simp add: ts)
      ultimately show ?thesis using r(2) unfolding ts by blast
    qed (use Take_out none [of k] stay in \<open>auto simp: RemoveChild_def\<close>)
  qed
qed

lemma edit_calls_tree:
  assumes "tree (nodes h) (NT i c ts)" and "apart (NT i c ts)" and "tidy_heap h" and "\<forall>e \<in> set es. \<forall>j. edit_copies e = Some j \<longrightarrow> j < length us"
    and "\<forall>u \<in> set us. proto h u \<and> node_ids u \<inter> node_ids (NT i c ts) = {}"
  shows "\<exists>h' ts'. edit_calls (map root us) i es h = Some h' \<and> edited h (NT i c ts) h' (NT i c ts') \<and>
    map shape_of ts' = fold (edit_value (map copy_shape us)) es (map shape_of ts)"
  using assms
proof (induction es arbitrary: h ts)
  case Nil
  then show ?case using edited_refl [of h "NT i c ts"] by auto
next
  case (Cons e es)
  obtain h1 ts1 where e: "edit_call (map root us) i e h = Some h1" "edited h (NT i c ts) h1 (NT i c ts1)"
    "map shape_of ts1 = edit_value (map copy_shape us) e (map shape_of ts)"
    using edit_call_tree [OF Cons.prems(1-3), of e us] Cons.prems(4,5) by auto
  have k: "\<forall>u \<in> set us. proto h1 u \<and> node_ids u \<inter> node_ids (NT i c ts1) = {}"
    using edited_proto [OF e(2) Cons.prems(3)] Cons.prems(5) by blast
  have "tree (nodes h1) (NT i c ts1)" "apart (NT i c ts1)" "tidy_heap h1" using e(2) by (simp_all only: edited_def)
  then obtain h2 ts2 where r: "edit_calls (map root us) i es h1 = Some h2" "edited h1 (NT i c ts1) h2 (NT i c ts2)"
    "map shape_of ts2 = fold (edit_value (map copy_shape us)) es (map shape_of ts1)"
    using Cons.IH [of h1 ts1] Cons.prems(4) k by auto
  then show ?case using e(1,3) edited_trans [OF e(2) r(2)] by auto
qed

text \<open>C26: Any sequence of \<open>InsertEndChild\<close>, \<open>InsertBeforeChild\<close>, \<open>InsertAfterChild\<close>, \<open>ReplaceChild\<close> and \<open>RemoveChild\<close> on a node acts on its
  children as the list operations do on lists, with a copy of the given node each time; the pointers form a tree after every
  call, no call uses a deleted node or fails, and all nodes outside of the tree are as before.\<close>

theorem xml_tree_edits:
  assumes "tree (nodes h) (NT i c ts)" and "apart (NT i c ts)" and "tidy_heap h" and "\<forall>e \<in> set es. \<forall>j. edit_copies e = Some j \<longrightarrow> j < length us"
    and "\<forall>u \<in> set us. proto h u \<and> node_ids u \<inter> node_ids (NT i c ts) = {}"
  shows "\<exists>h' ts'. edit_calls (map root us) i es h = Some h' \<and> tree (nodes h') (NT i c ts') \<and> apart (NT i c ts') \<and>
    map shape_of ts' = fold (edit_value (map copy_shape us)) es (map shape_of ts) \<and>
    (\<forall>k. k < next_node h \<and> k \<notin> node_ids (NT i c ts) \<longrightarrow> nodes h' k = nodes h k)"
proof -
  obtain h' ts' where r: "edit_calls (map root us) i es h = Some h'" "edited h (NT i c ts) h' (NT i c ts')"
    "map shape_of ts' = fold (edit_value (map copy_shape us)) es (map shape_of ts)" using edit_calls_tree [OF assms] by blast
  then show ?thesis unfolding edited_def by (intro exI [of _ h'] exI [of _ ts']) simp
qed

definition lone :: "xml_node option \<Rightarrow> tnode" where
  "lone c = \<lparr>t_parent = None, t_first = None, t_last = None, t_prev = None, t_next = None, t_content = c, t_error = False\<rparr>"

definition tree_sample :: nheap where
  \<comment> \<open>an empty document and an element\<close>
  "tree_sample = \<lparr>nodes = [0 \<mapsto> lone None, 1 \<mapsto> lone (Some (Element no_location ''a'' [] []))], next_node = 2\<rparr>"

theorem xml_tree_edits_witness:
  "\<exists>h ts. edit_calls [1] 0 [Add_end 0, Add_before 0 0, Take_out 1] tree_sample = Some h \<and> tree (nodes h) (NT 0 None ts) \<and>
    map shape_of ts = [SH (Some (Element no_location ''a'' [] [])) []]"
proof -
  let ?u = "NT 1 (Some (Element no_location ''a'' [] [])) []"
  let ?es = "[Add_end 0, Add_before 0 0, Take_out 1]"
  have "tree (nodes tree_sample) (NT 0 None [])" "apart (NT 0 None [])" by (simp_all add: tree_sample_def lone_def)
  moreover have "tidy_heap tree_sample" by (auto simp: tidy_heap_def tree_sample_def)
  moreover have "\<forall>e \<in> set ?es. \<forall>j. edit_copies e = Some j \<longrightarrow> j < length [?u]" by simp
  moreover have "\<forall>u \<in> set [?u]. proto tree_sample u \<and> node_ids u \<inter> node_ids (NT 0 None []) = {}"
    by (simp add: proto_def tree_sample_def lone_def copyable_def)
  ultimately have "\<exists>h ts. edit_calls (map root [?u]) 0 ?es tree_sample = Some h \<and> tree (nodes h) (NT 0 None ts) \<and> apart (NT 0 None ts) \<and>
    map shape_of ts = fold (edit_value (map copy_shape [?u])) ?es (map shape_of []) \<and>
    (\<forall>k. k < next_node tree_sample \<and> k \<notin> node_ids (NT 0 None []) \<longrightarrow> nodes h k = nodes tree_sample k)"
    by (rule xml_tree_edits)
  then obtain h ts where r: "edit_calls (map root [?u]) 0 ?es tree_sample = Some h" "tree (nodes h) (NT 0 None ts)"
    "map shape_of ts = fold (edit_value (map copy_shape [?u])) ?es (map shape_of [])" by blast
  have "map root [?u] = [1]" by simp
  moreover have "fold (edit_value (map copy_shape [?u])) ?es (map shape_of []) = [SH (Some (Element no_location ''a'' [] [])) []]"
    by (simp add: copied_def copies_children_def)
  ultimately show ?thesis using r by metis
qed

section \<open>Linking a child again\<close>

lemma walk_stuck:
  assumes "walk t h p = Some r"
  shows "\<not> (p = Some j \<and> nodes h j = Some n \<and> t_next n = Some j \<and> \<not> passes t n)"
  using assms
proof (rule walk.raw_induct [rotated])
  fix f :: "test \<Rightarrow> nheap \<Rightarrow> nat option \<Rightarrow> nat option option" and t h p r
  assume IH: "\<And>t h p r. f t h p = Some r \<Longrightarrow> \<not> (p = Some j \<and> nodes h j = Some n \<and> t_next n = Some j \<and> \<not> passes t n)"
  assume step: "(case p of None \<Rightarrow> Some None
      | Some i \<Rightarrow> (case nodes h i of None \<Rightarrow> None | Some n \<Rightarrow> if passes t n then Some (Some i) else f t h (t_next n))) = Some r"
  show "\<not> (p = Some j \<and> nodes h j = Some n \<and> t_next n = Some j \<and> \<not> passes t n)"
  proof
    assume a: "p = Some j \<and> nodes h j = Some n \<and> t_next n = Some j \<and> \<not> passes t n"
    then have "f t h p = Some r" using step by simp
    then show False using IH [of t h p r] a by blast
  qed
qed

text \<open>\<open>LinkEndChild\<close> accepts a node that is its last child already, since the parent is the right one. The node becomes its own
  neighbour on both sides, and looking for a further sibling of another value never ends.\<close>

theorem xml_relink_cycle:
  assumes "tree (nodes h) (NT i c (xs @ [t]))" and "apart (NT i c (xs @ [t]))" and "nodes h (root t) = Some n" and "t_content n \<noteq> None"
    and "GetDocument h (Some i) = Some d" and "\<not> has_value v n"
  shows "\<exists>h' m. LinkEndChild i (root t) h = Some (Some (root t), h') \<and> nodes h' (root t) = Some m \<and> t_next m = Some (root t) \<and> t_prev m = Some (root t) \<and>
    NextSibling v (root t) h' = None"
proof -
  let ?j = "root t"
  obtain k where k: "nodes h i = Some k" "t_last k = Some ?j" using assms(1) by auto
  have n: "t_parent n = Some i" using child_facts(1) [OF assms(1)] assms(3) by auto
  have ij: "i \<noteq> ?j" using around(1) [OF assms(2)] by auto
  have doc: "GetDocument h (Some ?j) = Some d" using assms(3-5) n by (subst GetDocument.simps) (auto split: option.split)
  let ?m = "n\<lparr>t_prev := Some ?j, t_next := Some ?j\<rparr>"
  let ?h' = "h\<lparr>nodes := (nodes h)(?j \<mapsto> ?m, i \<mapsto> k\<lparr>t_last := Some ?j\<rparr>)\<rparr>"
  have "LinkEndChild i ?j h = Some (Some ?j, ?h')"
    using assms(3-5) k n ij doc by (auto simp: LinkEndChild_def upd_def fun_eq_iff)
  moreover have m: "nodes ?h' ?j = Some ?m" using ij by simp
  moreover have "walk (Has_value v) ?h' (Some ?j) = None"
  proof (rule ccontr)
    assume "walk (Has_value v) ?h' (Some ?j) \<noteq> None"
    then obtain r where "walk (Has_value v) ?h' (Some ?j) = Some r" by blast
    from walk_stuck [OF this, of ?j ?m] show False using m assms(6) by (simp add: passes_def has_value_def)
  qed
  then have "NextSibling v ?j ?h' = None" using m by (simp add: NextSibling_def)
  ultimately show ?thesis by (intro exI [of _ ?h'] exI [of _ ?m]) simp
qed

theorem xml_relink_cycle_witness:
  "\<exists>h' m. LinkEndChild 0 1 \<lparr>nodes = [0 \<mapsto> (lone None)\<lparr>t_first := Some 1, t_last := Some 1\<rparr>, 1 \<mapsto> (lone (Some (Comment no_location ''c'')))\<lparr>t_parent := Some 0\<rparr>],
      next_node = 2\<rparr> = Some (Some 1, h') \<and> nodes h' 1 = Some m \<and> t_next m = Some 1 \<and> NextSibling ''x'' 1 h' = None"
proof -
  let ?h = "\<lparr>nodes = [0 \<mapsto> (lone None)\<lparr>t_first := Some 1, t_last := Some 1\<rparr>, 1 \<mapsto> (lone (Some (Comment no_location ''c'')))\<lparr>t_parent := Some 0\<rparr>], next_node = 2\<rparr>"
  let ?t = "NT 1 (Some (Comment no_location ''c'')) []"
  have "tree (nodes ?h) (NT 0 None ([] @ [?t]))" "apart (NT 0 None ([] @ [?t]))" by (simp_all add: lone_def)
  moreover have "GetDocument ?h (Some 0) = Some (Some 0)" by (subst GetDocument.simps) (simp add: lone_def)
  ultimately show ?thesis
    using xml_relink_cycle [of ?h 0 None "[]" ?t "(lone (Some (Comment no_location ''c'')))\<lparr>t_parent := Some 0\<rparr>" "Some 0" "''x''"]
    by (auto simp: lone_def has_value_def node_value_def c_str_def uchar_def)
qed

section \<open>Looking for children\<close>

interpretation test_walk: walker "walk t" "passes t" for t
  by unfold_locales (subst walk.simps, simp)+

interpretation named_element_walk: walker "\<lambda>h p. Option.bind (walk (Has_value v) h p) (element_from v h)" "\<lambda>n. has_value v n \<and> is_element n" for v
proof unfold_locales
  show "Option.bind (walk (Has_value v) h None) (element_from v h) = Some None" for h
    by (simp add: test_walk.walk_null element_from.simps)
  show "Option.bind (walk (Has_value v) h (Some i)) (element_from v h) =
      (if has_value v n \<and> is_element n then Some (Some i) else Option.bind (walk (Has_value v) h (t_next n)) (element_from v h))"
    if "nodes h i = Some n" for h i n
    using that element_from.simps [of v h "Some i"] by (simp add: test_walk.walk_node passes_def NextSibling_def)
qed

lemma walk_back_seg:
  "seg (nodes h) p None (map root ts) nx \<Longrightarrow>
    walk_back t h (last_opt (map root ts) None) = Some (map_option root (find (\<lambda>s. passes t (the (nodes h (root s)))) (rev ts)))"
proof (induction ts arbitrary: nx rule: rev_induct)
  case Nil
  then show ?case by (subst walk_back.simps) simp
next
  case (snoc s ts)
  then have s: "seg (nodes h) p None (map root ts) (Some (root s))" "\<exists>n. nodes h (root s) = Some n \<and> t_prev n = last_opt (map root ts) None"
    by (auto simp: seg_append)
  then show ?case using snoc.IH [OF s(1)] by (subst walk_back.simps) auto
qed

fun content_of :: "ntree \<Rightarrow> xml_node option" where
  "content_of (NT i c ts) = c"

lemma content_in:
  assumes "tree f (NT i c ts)" and "t \<in> set ts"
  shows "t_content (the (f (root t))) = content_of t"
proof -
  have "tree f t" using assms by (simp add: list_all_iff)
  then show ?thesis by (cases t) auto
qed

definition named :: "string \<Rightarrow> ntree \<Rightarrow> bool" where
  "named v t \<longleftrightarrow> c_str (node_value (content_of t)) = v"

definition element_node :: "ntree \<Rightarrow> bool" where
  "element_node t \<longleftrightarrow> (case content_of t of Some (Element _ _ _ _) \<Rightarrow> True | _ \<Rightarrow> False)"

lemma tests_of_children:
  assumes "tree (nodes h) (NT i c ts)"
  shows "t \<in> set ts \<Longrightarrow> has_value v (the (nodes h (root t))) = named v t"
    and "t \<in> set ts \<Longrightarrow> is_element (the (nodes h (root t))) = element_node t"
  using content_in [OF assms] by (auto simp: has_value_def named_def is_element_def element_node_def)

text \<open>C30: Looking for children of a tree always returns. \<open>FirstChild\<close> and \<open>LastChild\<close> return the first and the last child with the
  value, the handle's \<open>Child\<close> and \<open>ChildElement\<close> the child at the given place among all of them, among those with the
  value, among the elements, and among the elements with the name, and a null pointer where there is none.\<close>

theorem xml_find_child:
  assumes "tree (nodes h) (NT i c ts)"
  shows "FirstChild v i h = Some (map_option root (find (named v) ts)) \<and>
    LastChild v i h = Some (map_option root (find (named v) (rev ts))) \<and>
    Child k (Some i) h = Some (nth_opt (nat k) (map root ts)) \<and>
    Child_value v k (Some i) h = Some (nth_opt (nat k) (map root (filter (named v) ts))) \<and>
    ChildElement k (Some i) h = Some (nth_opt (nat k) (map root (filter element_node ts))) \<and>
    ChildElement_value v k (Some i) h = Some (nth_opt (nat k) (map root (filter (\<lambda>t. named v t \<and> element_node t) ts)))"
proof -
  have s: "seg (nodes h) i None (map root ts) None" using assms by simp
  obtain n where n: "nodes h i = Some n" "t_first n = hd_opt (map root ts) None" "t_last n = last_opt (map root ts) None" using assms by auto
  note t = tests_of_children [OF assms]
  have found: "find (\<lambda>t. passes (Has_value v) (the (nodes h (root t)))) us = find (named v) us" if "set us \<subseteq> set ts" for us
    by (rule find_cong) (use t that in \<open>auto simp: passes_def\<close>)
  have valued: "filter (\<lambda>t. passes (Has_value v) (the (nodes h (root t)))) ts = filter (named v) ts"
    by (rule filter_cong) (simp_all add: passes_def t)
  have elements: "filter (\<lambda>t. passes Is_an_element (the (nodes h (root t)))) ts = filter element_node ts"
    by (rule filter_cong) (simp_all add: passes_def t)
  have both: "filter (\<lambda>t. has_value v (the (nodes h (root t))) \<and> is_element (the (nodes h (root t)))) ts = filter (\<lambda>t. named v t \<and> element_node t) ts"
    by (rule filter_cong) (simp_all add: t)
  have "FirstChild v i h = Some (map_option root (find (named v) ts))"
    using test_walk.finds_first [OF s, of "Has_value v"] by (simp add: FirstChild_def n found)
  moreover have "LastChild v i h = Some (map_option root (find (named v) (rev ts)))"
    using walk_back_seg [OF s, of "Has_value v"] by (simp add: LastChild_def n found)
  moreover have "Child k (Some i) h = Some (nth_opt (nat k) (map root ts))"
    using any_walk.visits [OF s, of "nat k"] by (simp add: Child_def next_child_bind n)
  moreover have "Child_value v k (Some i) h = Some (nth_opt (nat k) (map root (filter (named v) ts)))"
    unfolding Child_value_def FirstChild_def next_binds using test_walk.visits [OF s, of "Has_value v" "nat k"] by (simp add: n valued)
  moreover have "ChildElement k (Some i) h = Some (nth_opt (nat k) (map root (filter element_node ts)))"
    unfolding ChildElement_def FirstChildElement_def next_binds using test_walk.visits [OF s, of Is_an_element "nat k"] by (simp add: n elements)
  moreover have "ChildElement_value v k (Some i) h = Some (nth_opt (nat k) (map root (filter (\<lambda>t. named v t \<and> element_node t) ts)))"
    unfolding ChildElement_value_def FirstChildElement_value_def FirstChild_def next_binds
    using named_element_walk.visits [OF s, of v "nat k"] by (simp add: n both)
  ultimately show ?thesis by blast
qed

theorem xml_find_child_witness:
  "FirstChild ''a'' 0 \<lparr>nodes = [0 \<mapsto> (lone None)\<lparr>t_first := Some 1, t_last := Some 1\<rparr>, 1 \<mapsto> (lone (Some (Element no_location ''a'' [] [])))\<lparr>t_parent := Some 0\<rparr>],
      next_node = 2\<rparr> = Some (Some 1) \<and>
   ChildElement_value ''a'' 0 (Some 0) \<lparr>nodes = [0 \<mapsto> (lone None)\<lparr>t_first := Some 1, t_last := Some 1\<rparr>, 1 \<mapsto> (lone (Some (Element no_location ''a'' [] [])))\<lparr>t_parent := Some 0\<rparr>],
      next_node = 2\<rparr> = Some (Some 1)"
proof -
  let ?h = "\<lparr>nodes = [0 \<mapsto> (lone None)\<lparr>t_first := Some 1, t_last := Some 1\<rparr>, 1 \<mapsto> (lone (Some (Element no_location ''a'' [] [])))\<lparr>t_parent := Some 0\<rparr>],
      next_node = 2\<rparr>"
  have "tree (nodes ?h) (NT 0 None [NT 1 (Some (Element no_location ''a'' [] [])) []])" by (simp add: lone_def)
  then show ?thesis using xml_find_child [of ?h 0 None "[NT 1 (Some (Element no_location ''a'' [] [])) []]" "''a''" 0]
    by (simp add: named_def element_node_def node_value_def c_str_def uchar_def)
qed

end
